(* ===== verification/Prelude.thy ===== *)
theory Prelude
  imports Complex_Main "HOL-Library.AList" "HOL-Library.Multiset" "HOL-Library.Char_ord"
    "HOL-Library.List_Lexorder" "HOL-Library.Product_Lexorder"
begin

text \<open>
  What every component of the model shares: results that may be an error, the Python values the
  code tests at run time (floats with their non-finite cases, trimmed strings), dictionaries
  that keep insertion order, selection by a key, and a locale for invariants of step relations.

  Conventions of the whole development.
  \<^item> A function that may raise returns \<open>'e + 'a\<close>, with \<open>Inl\<close> for the exception. A method that
    mutates its object takes the object's state and returns the outcome with the new state.
  \<^item> A Python \<open>dict\<close> is an association list with distinct keys in insertion order: assignment is
    \<open>AList.update\<close> (it keeps the position of an existing key and appends a new one), \<open>del\<close> and
    \<open>pop\<close> are \<open>AList.delete\<close>, lookup is \<open>map_of\<close>.
  \<^item> A float that has passed a finiteness check is a \<open>rat\<close>: comparisons are exact and the
    rounding of sums and products is not modelled. Before the check it is a \<open>pyfloat\<close>.
  \<^item> \<open>min(xs, key=f)\<close> is \<open>arg_min_list f xs\<close> (the first minimal element), \<open>sorted(xs, key=f)\<close> is
    the stable \<open>sort_key f xs\<close>; tuples and strings compare lexicographically, as in Python.
  \<^item> A check \<open>isinstance(x, T)\<close> on a value whose model has type \<open>T\<close> holds by typing.
\<close>

named_theorems inv_intro "introduction rules for the invariants of the components"
named_theorems step_simps "characteristic equations of the components' operations"

section \<open>Results\<close>

definition rbind :: "'e + 'a \<Rightarrow> ('a \<Rightarrow> 'e + 'b) \<Rightarrow> 'e + 'b" where
  "rbind m f = (case m of Inl e \<Rightarrow> Inl e | Inr x \<Rightarrow> f x)"

definition guard_or :: "bool \<Rightarrow> 'e \<Rightarrow> 'e + unit" where
  "guard_or b e = (if b then Inr () else Inl e)"

fun rmap :: "('a \<Rightarrow> 'e + 'b) \<Rightarrow> 'a list \<Rightarrow> 'e + 'b list" where
  "rmap f [] = Inr []"
| "rmap f (x # xs) = rbind (f x) (\<lambda>y. rbind (rmap f xs) (\<lambda>ys. Inr (y # ys)))"

abbreviation is_ok :: "'e + 'a \<Rightarrow> bool" where
  "is_ok r \<equiv> \<not> isl r"

lemma rbind_simps [simp]: "rbind (Inl e) f = Inl e" "rbind (Inr x) f = f x"
  by (simp_all add: rbind_def)

lemma rbind_Inr_iff: "rbind m f = Inr y \<longleftrightarrow> (\<exists>x. m = Inr x \<and> f x = Inr y)"
  by (cases m) auto

lemma rbind_Inl_iff: "rbind m f = Inl e \<longleftrightarrow> m = Inl e \<or> (\<exists>x. m = Inr x \<and> f x = Inl e)"
  by (cases m) auto

lemma guard_or_Inr_iff [simp]: "guard_or b e = Inr u \<longleftrightarrow> b"
  by (simp add: guard_or_def)

lemma guard_or_Inl_iff [simp]: "guard_or b e = Inl e' \<longleftrightarrow> \<not> b \<and> e' = e"
  by (auto simp: guard_or_def)

lemma guard_or_True [simp]: "guard_or True e = Inr ()"
  by (simp add: guard_or_def)

lemma guard_or_False [simp]: "guard_or False e = Inl e"
  by (simp add: guard_or_def)

lemma rmap_Inr_iff: "rmap f xs = Inr ys \<longleftrightarrow> list_all2 (\<lambda>x y. f x = Inr y) xs ys"
  by (induction xs arbitrary: ys) (auto simp: rbind_Inr_iff list_all2_Cons1)

lemma rmap_id: "(\<And>x. x \<in> set xs \<Longrightarrow> f x = Inr x) \<Longrightarrow> rmap f xs = Inr xs"
  by (simp add: rmap_Inr_iff list.rel_refl_strong)

lemma rmap_map: "(\<And>x. x \<in> set xs \<Longrightarrow> f x = Inr (g x)) \<Longrightarrow> rmap f xs = Inr (map g xs)"
  by (simp add: rmap_Inr_iff list_all2_map2 list.rel_refl_strong)

lemma rmap_length: "rmap f xs = Inr ys \<Longrightarrow> length ys = length xs"
  by (simp add: rmap_Inr_iff list_all2_lengthD)

lemma rmap_list_all2:
  assumes "rmap f xs = Inr ys" and "\<And>x y. x \<in> set xs \<Longrightarrow> f x = Inr y \<Longrightarrow> P x y"
  shows "list_all2 P xs ys"
  using assms(1) by (auto simp: rmap_Inr_iff intro: assms(2) elim: list.rel_mono_strong)

text \<open>
  The checks of a \<open>__post_init__\<close> method or of a function's arguments, made in order until one fails.
\<close>

fun checks :: "('e + unit) list \<Rightarrow> 'e + unit" where
  "checks [] = Inr ()"
| "checks (c # cs) = rbind c (\<lambda>_. checks cs)"

lemma checks_Inr_iff [simp]: "checks cs = Inr u \<longleftrightarrow> list_all (\<lambda>c. c = Inr ()) cs"
  by (induction cs) (auto simp: rbind_Inr_iff)

section \<open>Python floats and strings\<close>

datatype pyfloat = Finite rat | PosInf | NegInf | NaN

fun isfinite :: "pyfloat \<Rightarrow> bool" where
  "isfinite (Finite _) = True"
| "isfinite _ = False"

text \<open>Comparison of floats: false whenever a NaN takes part.\<close>

fun pf_less :: "pyfloat \<Rightarrow> pyfloat \<Rightarrow> bool" where
  "pf_less (Finite a) (Finite b) = (a < b)"
| "pf_less (Finite _) PosInf = True"
| "pf_less NegInf (Finite _) = True"
| "pf_less NegInf PosInf = True"
| "pf_less _ _ = False"

definition pf_le :: "pyfloat \<Rightarrow> pyfloat \<Rightarrow> bool" where
  "pf_le a b = (pf_less a b \<or> a = b \<and> a \<noteq> NaN)"

lemma pf_le_Finite [simp]: "pf_le (Finite a) (Finite b) \<longleftrightarrow> a \<le> b"
  by (auto simp: pf_le_def)

lemma pf_less_betweenD:
  "pf_less (Finite a) x \<Longrightarrow> pf_le x (Finite b) \<Longrightarrow> \<exists>r. x = Finite r \<and> a < r \<and> r \<le> b"
  by (cases x) (auto simp: pf_le_def)

text \<open>\<open>str(n)\<close> of an integer, in decimal.\<close>

fun show_nat :: "nat \<Rightarrow> string" where
  "show_nat n = (if n < 10 then [char_of (48 + n)] else show_nat (n div 10) @ [char_of (48 + n mod 10)])"

declare show_nat.simps [simp del]

definition show_int :: "int \<Rightarrow> string" where
  "show_int i = (if i < 0 then CHR ''-'' # show_nat (nat (- i)) else show_nat (nat i))"

definition py_isspace :: "char \<Rightarrow> bool" where
  "py_isspace c = (of_char c \<in> {9, 10, 11, 12, 13, 28, 29, 30, 31, 32, 133, 160 :: nat})"

definition py_strip :: "string \<Rightarrow> string" where
  "py_strip s = rev (dropWhile py_isspace (rev (dropWhile py_isspace s)))"

text \<open>
  The test shared by \<open>_identifier\<close> in core/jobs.py and events/models.py, \<open>_key\<close> in core/cache.py
  and \<open>_validate_identifier\<close> in workers/protocol.py: a non-empty string, equal to its
  \<open>strip()\<close>, of at most \<open>n\<close> characters. The model's characters are the code points below 256,
  so the UTF-8 encoding the code tries next cannot fail on them.
\<close>

definition trimmed_identifier :: "nat \<Rightarrow> string \<Rightarrow> bool" where
  "trimmed_identifier n s = (s \<noteq> [] \<and> s = py_strip s \<and> length s \<le> n)"

lemma trimmed_identifierD:
  assumes "trimmed_identifier n s"
  shows "s \<noteq> []" and "\<not> py_isspace (hd s)" and "length s \<le> n"
proof -
  show "s \<noteq> []" "length s \<le> n" using assms by (auto simp: trimmed_identifier_def)
  then show "\<not> py_isspace (hd s)"
  proof (cases s)
    case (Cons c t)
    show ?thesis
    proof
      assume "py_isspace (hd s)"
      with Cons have "length (dropWhile py_isspace s) \<le> length t"
        by (simp add: length_dropWhile_le)
      moreover have "length (py_strip s) \<le> length (dropWhile py_isspace s)"
        by (simp add: py_strip_def) (metis length_dropWhile_le length_rev)
      ultimately have "length (py_strip s) < length s" using Cons by simp
      with assms show False by (auto simp: trimmed_identifier_def)
    qed
  qed simp
qed

section \<open>Dictionaries\<close>

type_synonym ('k, 'v) dict = "('k \<times> 'v) list"

abbreviation dkeys :: "('k, 'v) dict \<Rightarrow> 'k list" where
  "dkeys d \<equiv> map fst d"

abbreviation dvalues :: "('k, 'v) dict \<Rightarrow> 'v list" where
  "dvalues d \<equiv> map snd d"

abbreviation wf_dict :: "('k, 'v) dict \<Rightarrow> bool" where
  "wf_dict d \<equiv> distinct (dkeys d)"

declare map_of_eq_Some_iff [simp del]

lemma map_of_update: "map_of (AList.update k v d) = (map_of d)(k \<mapsto> v)"
  by (rule ext) (simp add: update_conv')

lemma map_of_delete: "map_of (AList.delete k d) = (map_of d)(k := None)"
  by (rule ext) (simp add: delete_conv')

lemma dkeys_update [simp]: "fst ` set (AList.update k v d) = insert k (fst ` set d)"
  by (simp add: dom_update)

lemma dkeys_delete [simp]: "fst ` set (AList.delete k d) = fst ` set d - {k}"
  by (auto simp: AList.delete_eq image_iff)

lemma wf_dict_update [inv_intro]: "wf_dict d \<Longrightarrow> wf_dict (AList.update k v d)"
  by (rule distinct_update)

lemma wf_dict_delete [inv_intro]: "wf_dict d \<Longrightarrow> wf_dict (AList.delete k d)"
  by (rule distinct_delete)

lemma map_of_Some_iff: "wf_dict d \<Longrightarrow> map_of d k = Some v \<longleftrightarrow> (k, v) \<in> set d"
  by (simp add: map_of_eq_Some_iff)

lemma update_new: "k \<notin> set (dkeys d) \<Longrightarrow> AList.update k v d = d @ [(k, v)]"
  by (induction d) auto

lemma update_present:
  "k \<in> set (dkeys d) \<Longrightarrow> wf_dict d \<Longrightarrow>
   AList.update k v d = map (\<lambda>(j, w). (j, if j = k then v else w)) d"
proof (induction d)
  case (Cons p d)
  show ?case
  proof (cases "fst p = k")
    case True
    then have "map (\<lambda>(j, w). (j, if j = k then v else w)) d = map id d"
      using Cons.prems by (intro map_cong) (auto simp: image_iff)
    with True show ?thesis by (cases p) simp
  next
    case False
    with Cons show ?thesis by (cases p) auto
  qed
qed simp

lemma delete_notin: "k \<notin> set (dkeys d) \<Longrightarrow> AList.delete k d = d"
  by (induction d) auto

lemma mset_dvalues_delete:
  assumes "wf_dict d" and "map_of d k = Some v"
  shows "mset (dvalues d) = add_mset v (mset (dvalues (AList.delete k d)))"
  using assms
proof (induction d)
  case (Cons p d)
  then show ?case by (cases "fst p = k") (auto simp: delete_notin)
qed simp

lemma set_delete_subset: "set (AList.delete k d) \<subseteq> set d"
  by (auto simp: AList.delete_eq)

lemma mem_delete_iff: "(k', v) \<in> set (AList.delete k d) \<longleftrightarrow> (k', v) \<in> set d \<and> k' \<noteq> k"
  by (auto simp: AList.delete_eq)

lemma length_delete:
  assumes "wf_dict d" and "map_of d k = Some v"
  shows "length d = Suc (length (AList.delete k d))"
proof -
  have "length (dvalues d) = Suc (length (dvalues (AList.delete k d)))"
    using mset_dvalues_delete [OF assms] by (metis size_add_mset size_mset)
  then show ?thesis by simp
qed

text \<open>Sums over the values of a dictionary, the shape of every byte and core count in the code.\<close>

lemma sum_values_delete:
  fixes f :: "'v \<Rightarrow> int"
  assumes "wf_dict d" and "map_of d k = Some v"
  shows "sum_list (map f (dvalues (AList.delete k d))) = sum_list (map f (dvalues d)) - f v"
proof -
  have "sum_mset (image_mset f (mset (dvalues d)))
      = f v + sum_mset (image_mset f (mset (dvalues (AList.delete k d))))"
    using mset_dvalues_delete [OF assms] by simp
  then show ?thesis
    by (metis add_diff_cancel_left' mset_map sum_mset_sum_list)
qed

lemma sum_values_insert:
  fixes f :: "'v \<Rightarrow> int"
  shows "k \<notin> set (dkeys d) \<Longrightarrow>
    sum_list (map f (dvalues (AList.update k v d))) = sum_list (map f (dvalues d)) + f v"
  by (simp add: update_new)

lemma fst_comp_pair [simp]: "fst \<circ> (\<lambda>(j, w). (j, g j w)) = fst"
  by auto

lemma fst_image_pair [simp]: "fst ` (\<lambda>(j, w). (j, g j w)) ` A = fst ` A"
  by force

lemma map_of_map_pair: "map_of (map (\<lambda>(i, v). (i, f i v)) d) k = map_option (f k) (map_of d k)"
  by (induction d) auto

lemma find_SomeD: "List.find P xs = Some x \<Longrightarrow> x \<in> set xs \<and> P x"
  by (auto simp: find_Some_iff)

lemma arg_min_list_le:
  assumes "x \<in> set xs"
  shows "f (arg_min_list f xs) \<le> f x"
proof -
  have "xs \<noteq> []" using assms by auto
  then have "f (arg_min_list f xs) = Min (f ` set xs)" by (rule f_arg_min_list_f)
  with assms show ?thesis by simp
qed

lemma sum_list_map_nonneg: "(\<And>x. x \<in> set xs \<Longrightarrow> (0::int) \<le> f x) \<Longrightarrow> 0 \<le> sum_list (map f xs)"
  by (rule sum_list_nonneg) auto

section \<open>Invariants of step relations\<close>

text \<open>
  The contract between a component's step relation and its invariant. Each component with a
  relation of steps interprets it on its own initial state, steps and invariant, and reads off
  that the invariant holds after any run.
\<close>

locale invariant_system =
  fixes start :: "'s \<Rightarrow> bool"
    and step :: "'s \<Rightarrow> 's \<Rightarrow> bool"
    and invar :: "'s \<Rightarrow> bool"
  assumes invar_start: "start s \<Longrightarrow> invar s"
    and invar_step: "step s t \<Longrightarrow> invar s \<Longrightarrow> invar t"
begin

lemma invar_steps:
  assumes "step\<^sup>*\<^sup>* s t" and "invar s"
  shows "invar t"
  using assms by (induction rule: rtranclp_induct) (auto intro: invar_step)

lemma invar_reachable: "start s \<Longrightarrow> step\<^sup>*\<^sup>* s t \<Longrightarrow> invar t"
  by (blast intro: invar_steps invar_start)

end

text \<open>
  A system whose steps also raise a measure: a run is never longer than the measure's growth, so
  a bound on the measure bounds every run.
\<close>

locale progress_system = invariant_system start step invar
  for start :: "'s \<Rightarrow> bool" and step :: "'s \<Rightarrow> 's \<Rightarrow> bool" and invar :: "'s \<Rightarrow> bool" +
  fixes position :: "'s \<Rightarrow> int"
  assumes position_step: "step s t \<Longrightarrow> invar s \<Longrightarrow> position s < position t"
begin

lemma position_run:
  assumes "(step ^^ n) s t" and "invar s"
  shows "position s + int n \<le> position t \<and> invar t"
  using assms
proof (induction n arbitrary: t)
  case (Suc n)
  from Suc.prems(1) obtain u where u: "(step ^^ n) s u" "step u t" by auto
  with Suc.IH [OF u(1) Suc.prems(2)] have "position s + int n \<le> position u" "invar u" by auto
  with position_step [OF u(2)] invar_step [OF u(2)] show ?case by simp
qed simp

lemma no_return: "step\<^sup>+\<^sup>+ s t \<Longrightarrow> invar s \<Longrightarrow> s \<noteq> t"
proof -
  assume st: "step\<^sup>+\<^sup>+ s t" and inv: "invar s"
  then obtain n where "0 < n" "(step ^^ n) s t" by (auto simp: tranclp_power)
  with position_run [OF this(2) inv] show "s \<noteq> t" by auto
qed

end

end
