(* ===== verification/Lifecycle.thy ===== *)
theory Lifecycle
  imports Prelude
begin

text \<open>
  core/enums.py: the lifecycle of a node or a model as a state machine with a transition table,
  and the string enums beside it. \<open>transition_to\<close> takes the string a caller passes, as the code
  does, and \<open>run_transitions\<close> applies a list of requests until one is refused.
\<close>

datatype lifecycle_state = DISCOVERED | RESOLVED | PRELOADING | LOADED | READY | BUSY | IDLE
  | EVICTING | UNLOADED | FAILED

definition all_states :: "lifecycle_state list" where
  "all_states = [DISCOVERED, RESOLVED, PRELOADING, LOADED, READY, BUSY, IDLE, EVICTING,
     UNLOADED, FAILED]"

fun state_value :: "lifecycle_state \<Rightarrow> string" where
  "state_value DISCOVERED = ''DISCOVERED''"
| "state_value RESOLVED = ''RESOLVED''"
| "state_value PRELOADING = ''PRELOADING''"
| "state_value LOADED = ''LOADED''"
| "state_value READY = ''READY''"
| "state_value BUSY = ''BUSY''"
| "state_value IDLE = ''IDLE''"
| "state_value EVICTING = ''EVICTING''"
| "state_value UNLOADED = ''UNLOADED''"
| "state_value FAILED = ''FAILED''"

text \<open>\<open>LifecycleState(target)\<close>, None for the \<open>ValueError\<close>.\<close>

definition state_of :: "string \<Rightarrow> lifecycle_state option" where
  "state_of v = List.find (\<lambda>s. state_value s = v) all_states"

text \<open>\<open>_LIFECYCLE_TRANSITIONS\<close>.\<close>

fun lifecycle_transitions :: "lifecycle_state \<Rightarrow> lifecycle_state set" where
  "lifecycle_transitions DISCOVERED = {RESOLVED, FAILED}"
| "lifecycle_transitions RESOLVED = {PRELOADING, FAILED}"
| "lifecycle_transitions PRELOADING = {LOADED, FAILED}"
| "lifecycle_transitions LOADED = {READY, FAILED}"
| "lifecycle_transitions READY = {BUSY, IDLE, EVICTING, FAILED}"
| "lifecycle_transitions BUSY = {IDLE, FAILED}"
| "lifecycle_transitions IDLE = {BUSY, EVICTING, FAILED}"
| "lifecycle_transitions EVICTING = {UNLOADED, FAILED}"
| "lifecycle_transitions UNLOADED = {RESOLVED}"
| "lifecycle_transitions FAILED = {RESOLVED, EVICTING}"

definition can_transition_to :: "lifecycle_state \<Rightarrow> string \<Rightarrow> bool" where
  "can_transition_to s target =
    (case state_of target of None \<Rightarrow> False | Some r \<Rightarrow> r \<in> lifecycle_transitions s)"

datatype transition_error = InvalidLifecycleTransition string string

definition transition_to :: "lifecycle_state \<Rightarrow> string \<Rightarrow> transition_error + lifecycle_state" where
  "transition_to s target =
    (case state_of target of
       None \<Rightarrow> Inl (InvalidLifecycleTransition (state_value s) target)
     | Some r \<Rightarrow>
         if \<not> can_transition_to s (state_value r)
         then Inl (InvalidLifecycleTransition (state_value s) (state_value r))
         else Inr r)"

fun run_transitions :: "lifecycle_state \<Rightarrow> string list \<Rightarrow> transition_error + lifecycle_state" where
  "run_transitions s [] = Inr s"
| "run_transitions s (t # ts) = rbind (transition_to s t) (\<lambda>r. run_transitions r ts)"

lemma state_value_inject [simp]: "state_value a = state_value b \<longleftrightarrow> a = b"
  by (cases a; cases b; simp)

lemma state_of_value [simp]: "state_of (state_value s) = Some s"
  by (cases s) (simp_all add: state_of_def all_states_def)

lemma transition_to_value:
  "transition_to s (state_value r) =
    (if r \<in> lifecycle_transitions s then Inr r
     else Inl (InvalidLifecycleTransition (state_value s) (state_value r)))"
  by (simp add: transition_to_def can_transition_to_def)

lemmas transition_to_names [step_simps] =
  transition_to_value [where r = RESOLVED, simplified]
  transition_to_value [where r = PRELOADING, simplified]
  transition_to_value [where r = LOADED, simplified]
  transition_to_value [where r = READY, simplified]
  transition_to_value [where r = BUSY, simplified]
  transition_to_value [where r = FAILED, simplified]

lemma state_of_SomeD: "state_of v = Some s \<Longrightarrow> v = state_value s"
  by (auto simp: state_of_def find_Some_iff)

lemma can_transition_value [simp]:
  "can_transition_to s (state_value r) \<longleftrightarrow> r \<in> lifecycle_transitions s"
  by (simp add: can_transition_to_def)

lemma transition_to_Inr_iff:
  "transition_to s t = Inr r \<longleftrightarrow> t = state_value r \<and> r \<in> lifecycle_transitions s"
  by (auto simp: transition_to_def dest: state_of_SomeD split: option.splits if_splits)

lemma run_transitions_append:
  "run_transitions s (ts @ us) = rbind (run_transitions s ts) (\<lambda>r. run_transitions r us)"
  by (induction ts arbitrary: s) (auto simp: rbind_def split: sum.splits)

lemma live_predecessors:
  "r \<in> lifecycle_transitions s \<Longrightarrow> r \<in> {READY, BUSY, IDLE} \<Longrightarrow>
   s \<in> {READY, BUSY, IDLE} \<or> s = LOADED \<and> r = READY"
  by (cases s) auto

text \<open>
  A node or model is never live without having been loaded: if a run of accepted transition
  requests from DISCOVERED ends in READY, BUSY or IDLE, then LOADED was requested and accepted
  in it, followed immediately by READY, and nothing after that left the three live states (in
  particular it did not fail or get evicted since).
\<close>

theorem live_only_after_loaded:
  assumes "run_transitions DISCOVERED ts = Inr s" and "s \<in> {READY, BUSY, IDLE}"
  shows "\<exists>us vs. ts = us @ [''LOADED'', ''READY''] @ vs \<and> set vs \<subseteq> {''BUSY'', ''IDLE''}"
  using assms
proof (induction ts arbitrary: s rule: rev_induct)
  case (snoc t ts)
  then obtain q where q: "run_transitions DISCOVERED ts = Inr q" "t = state_value s"
      "s \<in> lifecycle_transitions q"
    by (auto simp: run_transitions_append rbind_Inr_iff transition_to_Inr_iff)
  from live_predecessors [OF q(3) snoc.prems(2)] show ?case
  proof
    assume live: "q \<in> {READY, BUSY, IDLE}"
    with q(3) snoc.prems(2) have "s \<in> {BUSY, IDLE}" by auto
    then have t: "t \<in> {''BUSY'', ''IDLE''}" using q(2) by auto
    from snoc.IH [OF q(1) live] obtain us vs
      where "ts = us @ [''LOADED'', ''READY''] @ vs" "set vs \<subseteq> {''BUSY'', ''IDLE''}" by blast
    with t show ?thesis by (intro exI [of _ us] exI [of _ "vs @ [t]"]) simp
  next
    assume ql: "q = LOADED \<and> s = READY"
    have "\<exists>us. ts = us @ [''LOADED'']"
    proof (cases ts rule: rev_cases)
      case Nil
      with q(1) ql show ?thesis by simp
    next
      case (snoc us u)
      with q(1) ql show ?thesis
        by (auto simp: run_transitions_append rbind_Inr_iff transition_to_Inr_iff)
    qed
    then obtain us where "ts = us @ [''LOADED'']" by blast
    with q(2) ql show ?thesis by (intro exI [of _ us] exI [of _ "[]"]) simp
  qed
qed simp

lemma live_only_after_loaded_witness:
  "run_transitions DISCOVERED [''RESOLVED'', ''PRELOADING'', ''LOADED'', ''READY'', ''BUSY''] = Inr BUSY
   \<and> (\<exists>us vs. [''RESOLVED'', ''PRELOADING'', ''LOADED'', ''READY'', ''BUSY'']
        = us @ [''LOADED'', ''READY''] @ vs \<and> set vs \<subseteq> {''BUSY'', ''IDLE''})"
proof -
  have run: "run_transitions DISCOVERED
      [''RESOLVED'', ''PRELOADING'', ''LOADED'', ''READY'', ''BUSY''] = Inr BUSY"
    by (simp add: step_simps)
  from live_only_after_loaded [OF run] run show ?thesis by blast
qed

text \<open>
  No state is a dead end: from every state there is a run of at most five accepted requests
  that goes through RESOLVED and ends in READY, so a failed or unloaded node can always be
  brought back, and FAILED is accepted from every state but UNLOADED and FAILED.
\<close>

theorem lifecycle_recovers:
  "(\<exists>ts. run_transitions s ts = Inr READY \<and> length ts \<le> 5 \<and> ''RESOLVED'' \<in> set ts)
   \<and> (transition_to s ''FAILED'' = Inr FAILED \<longleftrightarrow> s \<notin> {UNLOADED, FAILED})"
proof
  define up where "up = [''RESOLVED'', ''PRELOADING'', ''LOADED'', ''READY'']"
  have good: "run_transitions q up = Inr READY" if "RESOLVED \<in> lifecycle_transitions q" for q
    using that by (simp add: up_def step_simps)
  have viaF: "run_transitions q (''FAILED'' # up) = Inr READY" if "FAILED \<in> lifecycle_transitions q" for q
    using that good [of FAILED] by (simp add: step_simps)
  have len: "length up \<le> 4" "''RESOLVED'' \<in> set up" by (simp_all add: up_def)
  have "RESOLVED \<in> lifecycle_transitions s \<or> FAILED \<in> lifecycle_transitions s"
    by (cases s) auto
  then show "\<exists>ts. run_transitions s ts = Inr READY \<and> length ts \<le> 5 \<and> ''RESOLVED'' \<in> set ts"
  proof
    assume "RESOLVED \<in> lifecycle_transitions s"
    from good [OF this] len show ?thesis by (intro exI [of _ up]) simp
  next
    assume "FAILED \<in> lifecycle_transitions s"
    from viaF [OF this] len show ?thesis by (intro exI [of _ "''FAILED'' # up"]) simp
  qed
  show "transition_to s ''FAILED'' = Inr FAILED \<longleftrightarrow> s \<notin> {UNLOADED, FAILED}"
    by (cases s) (simp_all add: step_simps)
qed

section \<open>The other enums of the module\<close>

datatype load_policy = LOAD_ON_EXECUTION | PRELOAD_ON_WORKFLOW_OPEN | PRELOAD_ON_QUEUE | KEEP_WARM

datatype unload_policy = UNLOAD_AFTER_EXECUTION | UNLOAD_AFTER_IDLE | UNLOAD_ON_MEMORY_PRESSURE
  | PERSISTENT

datatype transfer_policy = INLINE | HANDLE | SAME_WORKER | SHARED_MEMORY | TEMPORARY_FILE

datatype serialization_strategy = JSON | MSGSPEC | SHARED_HANDLE

datatype runtime_isolation = PLUGIN_WORKER | GPU_MODEL_WORKER | CPU_WORKER | IO_WORKER
  | ISOLATED_PROCESS

datatype gpu_requirement = GPU_NONE | GPU_OPTIONAL | GPU_REQUIRED

end
