(* ===== verification/Hardware.thy ===== *)
theory Hardware
  imports Prelude
begin

text \<open>
  The inventory dataclasses of resources/hardware.py with the checks of their \<open>__post_init__\<close>
  methods, in the order the code makes them. Constructing a value that fails a check raises, so
  each constructor is a function \<open>mk_...\<close> from the raw fields to \<open>value_error + record\<close>. The
  probing half of the module (psutil, nvidia-smi, subprocesses) is input and output and is not
  modelled.
\<close>

datatype value_error = ValueError string

text \<open>\<open>_require_int\<close>, \<open>_non_negative_integer\<close> and \<open>_optional_finite_number\<close>.\<close>

definition require_int :: "string \<Rightarrow> int \<Rightarrow> int \<Rightarrow> value_error + unit" where
  "require_int name value minimum = guard_or (minimum \<le> value) (ValueError name)"

definition optional_finite_number :: "string \<Rightarrow> pyfloat option \<Rightarrow> value_error + unit" where
  "optional_finite_number name value =
    (case value of
       None \<Rightarrow> Inr ()
     | Some (Finite r) \<Rightarrow> guard_or (0 \<le> r) (ValueError name)
     | Some _ \<Rightarrow> Inl (ValueError name))"

definition optional_percent :: "string \<Rightarrow> pyfloat option \<Rightarrow> value_error + unit" where
  "optional_percent name value =
    (case value of Some (Finite r) \<Rightarrow> guard_or (r \<le> 100) (ValueError name) | _ \<Rightarrow> Inr ())"

definition optional_int :: "string \<Rightarrow> int option \<Rightarrow> int \<Rightarrow> value_error + unit" where
  "optional_int name value minimum =
    (case value of None \<Rightarrow> Inr () | Some v \<Rightarrow> require_int name v minimum)"

definition optional_text :: "string \<Rightarrow> string option \<Rightarrow> value_error + unit" where
  "optional_text name value =
    (case value of None \<Rightarrow> Inr () | Some v \<Rightarrow> guard_or (py_strip v \<noteq> []) (ValueError name))"

lemma require_int_Inr_iff [simp]: "require_int n v m = Inr u \<longleftrightarrow> m \<le> v"
  by (simp add: require_int_def)

lemma optional_int_Inr_iff [simp]:
  "optional_int n v m = Inr u \<longleftrightarrow> (case v of None \<Rightarrow> True | Some x \<Rightarrow> m \<le> x)"
  by (simp add: optional_int_def split: option.splits)

record cpu_inventory =
  physical_cores :: int
  logical_cores :: int
  architecture :: string
  processor :: "string option"
  simd_instructions :: "string list"
  numa_nodes :: "int option"
  load_percent :: "pyfloat option"

definition cpu_post_init :: "cpu_inventory \<Rightarrow> value_error + cpu_inventory" where
  "cpu_post_init c = rbind (checks
     [require_int ''physical_cores'' (physical_cores c) 1,
      require_int ''logical_cores'' (logical_cores c) 1,
      guard_or (physical_cores c \<le> logical_cores c) (ValueError ''logical_cores''),
      guard_or (py_strip (architecture c) \<noteq> []) (ValueError ''architecture''),
      guard_or (list_all (\<lambda>i. i \<noteq> []) (simd_instructions c)) (ValueError ''simd_instructions''),
      optional_int ''numa_nodes'' (numa_nodes c) 1,
      optional_finite_number ''load_percent'' (load_percent c)]) (\<lambda>_. Inr c)"

definition cpu_threads :: "cpu_inventory \<Rightarrow> int" where
  "cpu_threads c = logical_cores c"

record memory_inventory =
  total_bytes :: int
  available_bytes :: int
  swap_total_bytes :: int
  swap_free_bytes :: int

definition memory_post_init :: "memory_inventory \<Rightarrow> value_error + memory_inventory" where
  "memory_post_init m = rbind (checks
     [require_int ''total_bytes'' (total_bytes m) 1,
      require_int ''available_bytes'' (available_bytes m) 0,
      require_int ''swap_total_bytes'' (swap_total_bytes m) 0,
      require_int ''swap_free_bytes'' (swap_free_bytes m) 0,
      guard_or (available_bytes m \<le> total_bytes m) (ValueError ''available_bytes''),
      guard_or (swap_free_bytes m \<le> swap_total_bytes m) (ValueError ''swap_free_bytes'')])
     (\<lambda>_. Inr m)"

definition memory_used_bytes :: "memory_inventory \<Rightarrow> int" where
  "memory_used_bytes m = total_bytes m - available_bytes m"

record gpu_device =
  gpu_idx :: int
  gpu_name :: string
  total_vram_mb :: int
  free_vram_mb :: int
  gpu_uuid :: "string option"
  gpu_utilization :: "pyfloat option"
  temperature_c :: "pyfloat option"
  power_watts :: "pyfloat option"
  compute_capability :: "string option"
  driver_version :: "string option"
  gpu_backend :: string

definition gpu_post_init :: "gpu_device \<Rightarrow> value_error + gpu_device" where
  "gpu_post_init g = rbind (checks
     [require_int ''index'' (gpu_idx g) 0,
      guard_or (py_strip (gpu_name g) \<noteq> []) (ValueError ''name''),
      require_int ''total_vram_mb'' (total_vram_mb g) 1,
      require_int ''free_vram_mb'' (free_vram_mb g) 0,
      guard_or (free_vram_mb g \<le> total_vram_mb g) (ValueError ''free_vram_mb''),
      optional_text ''uuid'' (gpu_uuid g),
      optional_text ''compute_capability'' (compute_capability g),
      optional_text ''driver_version'' (driver_version g),
      guard_or (py_strip (gpu_backend g) \<noteq> []) (ValueError ''backend''),
      optional_finite_number ''utilization_percent'' (gpu_utilization g),
      optional_finite_number ''temperature_c'' (temperature_c g),
      optional_finite_number ''power_watts'' (power_watts g),
      optional_percent ''utilization_percent'' (gpu_utilization g)]) (\<lambda>_. Inr g)"

definition gpu_used_vram_mb :: "gpu_device \<Rightarrow> int" where
  "gpu_used_vram_mb g = total_vram_mb g - free_vram_mb g"

record disk_device =
  disk_path :: string
  disk_total_bytes :: "int option"
  disk_free_bytes :: "int option"
  rotational :: "bool option"
  read_bytes_per_second :: "int option"
  write_bytes_per_second :: "int option"

definition disk_post_init :: "disk_device \<Rightarrow> value_error + disk_device" where
  "disk_post_init d = rbind (checks
     [guard_or (disk_path d \<noteq> []) (ValueError ''path''),
      optional_int ''total_bytes'' (disk_total_bytes d) 0,
      optional_int ''free_bytes'' (disk_free_bytes d) 0,
      optional_int ''read_bytes_per_second'' (read_bytes_per_second d) 0,
      optional_int ''write_bytes_per_second'' (write_bytes_per_second d) 0,
      guard_or (case (disk_total_bytes d, disk_free_bytes d) of
          (Some t, Some f) \<Rightarrow> f \<le> t | _ \<Rightarrow> True) (ValueError ''free_bytes'')]) (\<lambda>_. Inr d)"

record network_inventory =
  bandwidth_bytes_per_second :: "int option"
  net_utilization :: "pyfloat option"

definition network_post_init :: "network_inventory \<Rightarrow> value_error + network_inventory" where
  "network_post_init n = rbind (checks
     [optional_int ''bandwidth_bytes_per_second'' (bandwidth_bytes_per_second n) 0,
      optional_finite_number ''utilization_percent'' (net_utilization n),
      optional_percent ''utilization_percent'' (net_utilization n)]) (\<lambda>_. Inr n)"

record hardware_inventory =
  inv_cpu :: cpu_inventory
  inv_memory :: memory_inventory
  inv_gpus :: "gpu_device list"
  inv_disks :: "disk_device list"
  inv_network :: network_inventory

definition hardware_post_init :: "hardware_inventory \<Rightarrow> value_error + hardware_inventory" where
  "hardware_post_init h = rbind (checks
     [guard_or (distinct (map gpu_idx (inv_gpus h))) (ValueError ''GPU indexes must be unique''),
      guard_or (map gpu_idx (inv_gpus h) = sort (map gpu_idx (inv_gpus h)))
        (ValueError ''GPU indexes must be sorted'')]) (\<lambda>_. Inr h)"

text \<open>Every field of an inventory is itself a constructed value, so it passed its own checks.\<close>

definition constructed_inventory :: "hardware_inventory \<Rightarrow> bool" where
  "constructed_inventory h =
    (is_ok (hardware_post_init h) \<and> is_ok (cpu_post_init (inv_cpu h))
     \<and> is_ok (memory_post_init (inv_memory h)) \<and> list_all (\<lambda>g. is_ok (gpu_post_init g)) (inv_gpus h)
     \<and> list_all (\<lambda>d. is_ok (disk_post_init d)) (inv_disks h)
     \<and> is_ok (network_post_init (inv_network h)))"

definition inventory_gpu :: "hardware_inventory \<Rightarrow> int \<Rightarrow> gpu_device option" where
  "inventory_gpu h i = List.find (\<lambda>g. gpu_idx g = i) (inv_gpus h)"

lemma is_ok_iff: "is_ok r \<longleftrightarrow> (\<exists>x. r = Inr x)"
  by (cases r) auto

lemma sorted_iff_eq_sort: "xs = sort xs \<longleftrightarrow> sorted xs"
  for xs :: "'a::linorder list"
  by (metis sort_key_id_if_sorted sorted_map sorted_sort list.map_ident)

lemma constructed_inventoryD:
  assumes "constructed_inventory h"
  shows "1 \<le> physical_cores (inv_cpu h)" and "0 \<le> available_bytes (inv_memory h)"
    and "available_bytes (inv_memory h) \<le> total_bytes (inv_memory h)"
    and "distinct (map gpu_idx (inv_gpus h))" and "sorted (map gpu_idx (inv_gpus h))"
    and "g \<in> set (inv_gpus h) \<Longrightarrow> 0 \<le> gpu_idx g \<and> 0 \<le> free_vram_mb g \<and> free_vram_mb g \<le> total_vram_mb g"
  using assms
  by (auto simp: constructed_inventory_def is_ok_iff hardware_post_init_def cpu_post_init_def
      memory_post_init_def gpu_post_init_def rbind_Inr_iff sorted_iff_eq_sort list_all_iff)

end
