(* ===== verification/Threads.thy ===== *)
theory Threads
  imports Hardware
begin

text \<open>
  resources/threads.py: how many workers a machine runs and how its cores are shared out to them.
\<close>

record thread_budget =
  python_threads :: int
  omp_threads :: int
  mkl_threads :: int
  torch_threads :: int
  torch_interop_threads :: int

definition budget_post_init :: "thread_budget \<Rightarrow> value_error + thread_budget" where
  "budget_post_init b = rbind (checks
     [require_int ''python_threads'' (python_threads b) 1,
      require_int ''omp_threads'' (omp_threads b) 1,
      require_int ''mkl_threads'' (mkl_threads b) 1,
      require_int ''torch_threads'' (torch_threads b) 1,
      require_int ''torch_interop_threads'' (torch_interop_threads b) 1]) (\<lambda>_. Inr b)"

definition as_environment :: "thread_budget \<Rightarrow> (string, string) dict" where
  "as_environment b =
    [(''OMP_NUM_THREADS'', show_int (omp_threads b)),
     (''MKL_NUM_THREADS'', show_int (mkl_threads b)),
     (''OPENBLAS_NUM_THREADS'', show_int (omp_threads b)),
     (''NUMEXPR_NUM_THREADS'', show_int (omp_threads b)),
     (''VECLIB_MAXIMUM_THREADS'', show_int (omp_threads b)),
     (''TORCH_NUM_THREADS'', show_int (torch_threads b))]"

definition compute_worker_count :: "int \<Rightarrow> int \<Rightarrow> int option \<Rightarrow> value_error + int" where
  "compute_worker_count physical reserve_c configured = rbind (checks
     [require_int ''physical_cores'' physical 1,
      require_int ''reserve_cores'' reserve_c 0,
      optional_int ''configured'' configured 1])
     (\<lambda>_. let usable = max 1 (physical - reserve_c) in
        Inr (case configured of None \<Rightarrow> usable | Some c \<Rightarrow> min c usable))"

record thread_manager =
  tm_physical_cores :: int
  tm_reserve_cores :: int
  max_threads_per_worker :: "int option"

definition manager_post_init :: "thread_manager \<Rightarrow> value_error + thread_manager" where
  "manager_post_init m = rbind (checks
     [require_int ''physical_cores'' (tm_physical_cores m) 1,
      require_int ''reserve_cores'' (tm_reserve_cores m) 0,
      optional_int ''max_threads_per_worker'' (max_threads_per_worker m) 1]) (\<lambda>_. Inr m)"

definition available_cores :: "thread_manager \<Rightarrow> int" where
  "available_cores m = max 1 (tm_physical_cores m - tm_reserve_cores m)"

text \<open>The body of the loop of \<open>allocate\<close>, and the loop over \<open>range(count)\<close>.\<close>

definition assigned_threads :: "thread_manager \<Rightarrow> int \<Rightarrow> int \<Rightarrow> int \<Rightarrow> int" where
  "assigned_threads m quo rest_c index = (let
      a = quo + (if index < rest_c then 1 else 0);
      b = (case max_threads_per_worker m of None \<Rightarrow> a | Some x \<Rightarrow> min a x)
    in max 1 b)"

definition uniform_budget :: "int \<Rightarrow> thread_budget" where
  "uniform_budget n = \<lparr>python_threads = n, omp_threads = n, mkl_threads = n, torch_threads = n,
     torch_interop_threads = 1\<rparr>"

definition allocate :: "thread_manager \<Rightarrow> int \<Rightarrow> value_error + thread_budget list" where
  "allocate m worker_count =
    rbind (compute_worker_count (tm_physical_cores m) (tm_reserve_cores m) (Some worker_count))
      (\<lambda>count. let quo = available_cores m div count; rest_c = available_cores m mod count in
         rmap (\<lambda>index. budget_post_init (uniform_budget (assigned_threads m quo rest_c (int index))))
           [0..<nat count])"

lemma budget_post_init_uniform: "1 \<le> n \<Longrightarrow> budget_post_init (uniform_budget n) = Inr (uniform_budget n)"
  by (simp add: budget_post_init_def uniform_budget_def rbind_Inr_iff)

lemma python_threads_uniform [simp]: "python_threads (uniform_budget n) = n"
  by (simp add: uniform_budget_def)

lemma sum_shares:
  assumes "0 \<le> r" and "r \<le> int n"
  shows "sum_list (map (\<lambda>i. q + (if int i < r then 1 else 0)) [0..<n]) = int n * q + r"
  using assms
proof (induction n arbitrary: r)
  case (Suc n)
  show ?case
  proof (cases "r \<le> int n")
    case True
    with Suc show ?thesis by (simp add: algebra_simps)
  next
    case False
    with Suc.prems have r: "r = int n + 1" by simp
    have "map (\<lambda>i. q + (if int i < r then 1 else 0)) [0..<n] = map (\<lambda>i. q + 1) [0..<n]"
      using r by auto
    then have "sum_list (map (\<lambda>i. q + (if int i < r then 1 else 0)) [0..<n]) = int n * (q + 1)"
      by (simp only: sum_list_triv) simp
    with r show ?thesis by (simp add: algebra_simps)
  qed
qed simp

lemma allocate_eq:
  assumes m: "is_ok (manager_post_init m)" and w: "1 \<le> w"
  shows "\<exists>count. 1 \<le> count \<and> count = min w (available_cores m) \<and> allocate m w = Inr
    (map (\<lambda>i. uniform_budget (assigned_threads m (available_cores m div count)
      (available_cores m mod count) (int i))) [0..<nat count])"
proof -
  let ?c = "min w (available_cores m)"
  have "1 \<le> tm_physical_cores m" "0 \<le> tm_reserve_cores m"
    using m by (auto simp: is_ok_iff manager_post_init_def rbind_Inr_iff)
  then have "compute_worker_count (tm_physical_cores m) (tm_reserve_cores m) (Some w) = Inr ?c"
    using w by (simp add: compute_worker_count_def available_cores_def rbind_Inr_iff)
  moreover have "1 \<le> assigned_threads m q r i" for q r i
    by (simp add: assigned_threads_def Let_def)
  ultimately show ?thesis
    using w by (intro exI [of _ ?c])
      (simp add: allocate_def Let_def available_cores_def rmap_map budget_post_init_uniform)
qed

text \<open>What one worker gets of an uncapped share.\<close>

definition capped :: "int option \<Rightarrow> int \<Rightarrow> int" where
  "capped cap n = (case cap of None \<Rightarrow> n | Some c \<Rightarrow> min n c)"

lemma assigned_threads_capped:
  assumes "1 \<le> q" and "case max_threads_per_worker m of None \<Rightarrow> True | Some c \<Rightarrow> 1 \<le> c"
  shows "assigned_threads m q r i = capped (max_threads_per_worker m) (q + (if i < r then 1 else 0))"
  using assms by (auto simp: assigned_threads_def capped_def Let_def split: option.splits)

lemma python_threads_uniform_map:
  "map python_threads (map (\<lambda>i. uniform_budget (f i)) xs) = map f xs"
  by simp

text \<open>
  C40. The cores are shared out fairly. On a valid manager, \<open>allocate\<close> with at least one requested
  worker gives min(requested, available cores) budgets, each with at least one thread and, when a
  cap is set, at most that many. Any two workers differ by at most one thread. The cores are never
  oversubscribed: the shares add up to at most the available cores, and to exactly these with no
  cap; and a cap takes away only what is above it: each worker gets what it would get without the
  cap, or the cap when that is less. Python, OpenMP, MKL and Torch each get that number.
\<close>

theorem allocate_fair:
  assumes "is_ok (manager_post_init m)" and "1 \<le> w"
  shows "\<exists>bs us. allocate m w = Inr bs \<and> int (length bs) = min w (available_cores m)
    \<and> (\<forall>b \<in> set bs. 1 \<le> python_threads b
         \<and> (case max_threads_per_worker m of None \<Rightarrow> True | Some c \<Rightarrow> python_threads b \<le> c))
    \<and> (\<forall>a \<in> set bs. \<forall>b \<in> set bs. python_threads a \<le> python_threads b + 1)
    \<and> (max_threads_per_worker m = None \<longrightarrow> sum_list (map python_threads bs) = available_cores m)
    \<and> sum_list (map python_threads bs) \<le> available_cores m
    \<and> allocate (m\<lparr>max_threads_per_worker := None\<rparr>) w = Inr us
    \<and> sum_list (map python_threads us) = available_cores m
    \<and> map python_threads bs = map (capped (max_threads_per_worker m)) (map python_threads us)
    \<and> (\<forall>b \<in> set bs. omp_threads b = python_threads b \<and> mkl_threads b = python_threads b
         \<and> torch_threads b = python_threads b \<and> torch_interop_threads b = 1)"
proof -
  let ?m = "m\<lparr>max_threads_per_worker := None\<rparr>"
  define c where "c = min w (available_cores m)"
  define q r where "q = available_cores m div c" and "r = available_cores m mod c"
  let ?share = "\<lambda>i. q + (if int i < r then 1 else 0)"
  have cap: "case max_threads_per_worker m of None \<Rightarrow> True | Some c \<Rightarrow> 1 \<le> c"
    using assms(1) by (auto simp: is_ok_iff manager_post_init_def rbind_Inr_iff)
  have "is_ok (manager_post_init ?m)"
    using assms(1) by (auto simp: is_ok_iff manager_post_init_def rbind_Inr_iff)
  note ok = assms(1) this
  have c1: "1 \<le> c" using assms(2) by (simp add: c_def available_cores_def)
  then have q: "1 \<le> q"
    by (simp add: q_def c_def pos_imp_zdiv_pos_iff [THEN iffD2] int_one_le_iff_zero_less)
  have r: "0 \<le> r" "r \<le> int (nat c)"
    using c1 by (simp_all add: r_def order_less_imp_le)
  have av: "available_cores ?m = available_cores m" by (simp add: available_cores_def)
  have share: "assigned_threads m q r (int i) = capped (max_threads_per_worker m) (?share i)"
      "assigned_threads ?m q r (int i) = ?share i" for i
    using assigned_threads_capped [OF q cap] assigned_threads_capped [OF q, of ?m] by (simp_all add: capped_def)
  let ?bs = "map (\<lambda>i. uniform_budget (capped (max_threads_per_worker m) (?share i))) [0..<nat c]"
  let ?us = "map (\<lambda>i. uniform_budget (?share i)) [0..<nat c]"
  have "allocate m' w = Inr (map (\<lambda>i. uniform_budget (assigned_threads m' q r (int i))) [0..<nat c])"
    if "is_ok (manager_post_init m')" "available_cores m' = available_cores m" for m'
    using allocate_eq [OF that(1) assms(2)] unfolding that(2) q_def r_def c_def by blast
  from this [OF ok(1) refl] this [OF ok(2) av]
  have al: "allocate m w = Inr ?bs" "allocate ?m w = Inr ?us"
    unfolding share .
  have pyt: "map python_threads ?us = map ?share [0..<nat c]"
      "map python_threads ?bs = map (capped (max_threads_per_worker m)) (map ?share [0..<nat c])"
    by simp_all
  have sum: "sum_list (map python_threads ?us) = available_cores m"
    unfolding pyt sum_shares [OF r] using c1 by (simp add: q_def r_def)
  have "sum_list (map (capped (max_threads_per_worker m)) xs) \<le> sum_list xs" for xs
    by (induction xs) (auto simp: capped_def split: option.splits)
  then have le: "sum_list (map python_threads ?bs) \<le> available_cores m"
    using sum unfolding pyt by metis
  have eq: "sum_list (map python_threads ?bs) = available_cores m" if "max_threads_per_worker m = None"
    using sum that by (simp add: capped_def)
  show ?thesis
  proof (intro exI conjI)
    show "allocate m w = Inr ?bs" "allocate ?m w = Inr ?us" by (rule al)+
    show "int (length ?bs) = min w (available_cores m)" using c1 by (simp add: c_def)
    show "\<forall>b \<in> set ?bs. 1 \<le> python_threads b
        \<and> (case max_threads_per_worker m of None \<Rightarrow> True | Some c \<Rightarrow> python_threads b \<le> c)"
      and "\<forall>a \<in> set ?bs. \<forall>b \<in> set ?bs. python_threads a \<le> python_threads b + 1"
      using q cap by (auto simp: capped_def split: option.splits)
    show "map python_threads ?bs = map (capped (max_threads_per_worker m)) (map python_threads ?us)"
      unfolding pyt ..
    show "max_threads_per_worker m = None \<longrightarrow> sum_list (map python_threads ?bs) = available_cores m"
      using eq by blast
  qed (use sum le in \<open>simp_all add: uniform_budget_def\<close>)
qed

lemma allocate_fair_witness:
  "\<exists>bs cs. allocate \<lparr>tm_physical_cores = 12, tm_reserve_cores = 2, max_threads_per_worker = None\<rparr> 4 = Inr bs
    \<and> length bs = 4 \<and> sum_list (map python_threads bs) = 10
    \<and> allocate \<lparr>tm_physical_cores = 12, tm_reserve_cores = 2, max_threads_per_worker = Some 2\<rparr> 4 = Inr cs
    \<and> length cs = 4 \<and> sum_list (map python_threads cs) \<le> 10"
proof -
  let ?m = "\<lambda>cap. \<lparr>tm_physical_cores = 12, tm_reserve_cores = 2, max_threads_per_worker = cap\<rparr>"
  have "is_ok (manager_post_init (?m None))" "is_ok (manager_post_init (?m (Some 2)))"
    by (simp_all add: is_ok_iff manager_post_init_def rbind_Inr_iff)
  from allocate_fair [OF this(1), of 4] allocate_fair [OF this(2), of 4] show ?thesis
    by (auto simp: available_cores_def)
qed

end
