(* ===== verification/Budgets.thy ===== *)
theory Budgets
  imports Hardware
begin

text \<open>
  resources/budgets.py: what a job asks for (\<open>ResourceEstimate\<close> with its fallback alternatives)
  and what the machine can give (\<open>ResourceLimits\<close>), with the checks of their constructors and the
  computation of the limits from the hardware inventory. An estimate holds alternatives that hold
  estimates, so it is a datatype and not a record; its selectors carry the prefix \<open>e_\<close>.
\<close>

datatype fallback_action = NO_FALLBACK | OFFLOAD | QUANTIZE | SEQUENCE | REDUCE_BATCH | REJECT

fun fallback_value :: "fallback_action \<Rightarrow> string" where
  "fallback_value NO_FALLBACK = ''none''"
| "fallback_value OFFLOAD = ''offload''"
| "fallback_value QUANTIZE = ''quantize''"
| "fallback_value SEQUENCE = ''sequence''"
| "fallback_value REDUCE_BATCH = ''reduce_batch''"
| "fallback_value REJECT = ''reject''"

datatype estimate = Estimate (e_cpu_cores: int) (e_ram_bytes: int) (e_vram_mb: int)
  (e_gpu_index: "int option") (e_heavy_gpu: bool) (e_pinned_ram_bytes: int)
  (e_concurrent_reads: int) (e_concurrent_writes: int)
  (e_alternatives: "(fallback_action \<times> estimate) list")

text \<open>\<open>ResourceEstimate.__post_init__\<close> and \<open>ResourceAlternative.__post_init__\<close>.\<close>

definition estimate_post_init :: "estimate \<Rightarrow> value_error + estimate" where
  "estimate_post_init e = rbind (checks
     [require_int ''cpu_cores'' (e_cpu_cores e) 0,
      require_int ''ram_bytes'' (e_ram_bytes e) 0,
      require_int ''vram_mb'' (e_vram_mb e) 0,
      require_int ''pinned_ram_bytes'' (e_pinned_ram_bytes e) 0,
      require_int ''concurrent_reads'' (e_concurrent_reads e) 0,
      require_int ''concurrent_writes'' (e_concurrent_writes e) 0,
      guard_or (1 \<le> e_cpu_cores e) (ValueError ''cpu_cores must be >= 1''),
      optional_int ''gpu_index'' (e_gpu_index e) 0,
      guard_or ((0 < e_vram_mb e) = (e_gpu_index e \<noteq> None))
        (ValueError ''vram_mb and gpu_index must be specified together''),
      guard_or (\<not> (e_heavy_gpu e \<and> e_gpu_index e = None))
        (ValueError ''a heavy GPU estimate requires gpu_index''),
      guard_or (e_pinned_ram_bytes e \<le> e_ram_bytes e)
        (ValueError ''pinned_ram_bytes cannot exceed ram_bytes''),
      guard_or (distinct (map fst (e_alternatives e))) (ValueError ''duplicate fallback action'')])
     (\<lambda>_. Inr e)"

definition alternative_post_init ::
  "fallback_action \<times> estimate \<Rightarrow> value_error + (fallback_action \<times> estimate)" where
  "alternative_post_init a = rbind (checks
     [guard_or (fst a \<in> {OFFLOAD, QUANTIZE, REDUCE_BATCH})
        (ValueError ''fallback alternative action is not transformable''),
      guard_or (e_alternatives (snd a) = [])
        (ValueError ''nested alternatives are not allowed'')]) (\<lambda>_. Inr a)"

definition e_alternative :: "estimate \<Rightarrow> fallback_action \<Rightarrow> estimate option" where
  "e_alternative e a = map_option snd (List.find (\<lambda>p. fst p = a) (e_alternatives e))"

text \<open>A value the code can hold: it and the parts it was built from passed their constructors.\<close>

definition valid_estimate :: "estimate \<Rightarrow> bool" where
  "valid_estimate e = (is_ok (estimate_post_init e)
     \<and> list_all (\<lambda>a. is_ok (alternative_post_init a) \<and> is_ok (estimate_post_init (snd a)))
         (e_alternatives e))"

lemma estimate_post_init_ok:
  "is_ok (estimate_post_init e) \<longleftrightarrow>
     1 \<le> e_cpu_cores e \<and> 0 \<le> e_ram_bytes e \<and> 0 \<le> e_vram_mb e \<and> 0 \<le> e_pinned_ram_bytes e
     \<and> 0 \<le> e_concurrent_reads e \<and> 0 \<le> e_concurrent_writes e
     \<and> (case e_gpu_index e of None \<Rightarrow> True | Some i \<Rightarrow> 0 \<le> i)
     \<and> (0 < e_vram_mb e \<longleftrightarrow> e_gpu_index e \<noteq> None)
     \<and> (e_heavy_gpu e \<longrightarrow> e_gpu_index e \<noteq> None)
     \<and> e_pinned_ram_bytes e \<le> e_ram_bytes e
     \<and> distinct (map fst (e_alternatives e))"
  by (auto simp: is_ok_iff estimate_post_init_def rbind_Inr_iff)

lemma estimate_post_init_InrD: "estimate_post_init e = Inr x \<Longrightarrow> x = e"
  by (auto simp: estimate_post_init_def rbind_Inr_iff)

lemma valid_estimateD:
  assumes "valid_estimate e"
  shows "1 \<le> e_cpu_cores e" "0 \<le> e_ram_bytes e" "0 \<le> e_vram_mb e" "0 \<le> e_pinned_ram_bytes e"
    "0 \<le> e_concurrent_reads e" "0 \<le> e_concurrent_writes e"
    "e_gpu_index e = Some i \<Longrightarrow> 0 \<le> i" "0 < e_vram_mb e \<longleftrightarrow> e_gpu_index e \<noteq> None"
    "e_heavy_gpu e \<Longrightarrow> e_gpu_index e \<noteq> None" "e_pinned_ram_bytes e \<le> e_ram_bytes e"
  using assms by (auto simp: valid_estimate_def estimate_post_init_ok)

lemma valid_alternative:
  assumes "valid_estimate e" and "e_alternative e a = Some x"
  shows "valid_estimate x" and "a \<in> {OFFLOAD, QUANTIZE, REDUCE_BATCH}" and "e_alternatives x = []"
proof -
  from assms(2) obtain p where p: "p \<in> set (e_alternatives e)" "fst p = a" "snd p = x"
    by (auto simp: e_alternative_def dest!: find_SomeD)
  with assms(1) have "is_ok (alternative_post_init p)" "is_ok (estimate_post_init x)"
    by (auto simp: valid_estimate_def list_all_iff)
  then show "a \<in> {OFFLOAD, QUANTIZE, REDUCE_BATCH}" "e_alternatives x = []" "valid_estimate x"
    using p by (auto simp: alternative_post_init_def is_ok_iff rbind_Inr_iff valid_estimate_def)
qed

record limits =
  l_cpu_cores :: int
  l_ram_bytes :: int
  l_vram_mb_by_gpu :: "(int \<times> int) list"
  l_pinned_ram_bytes :: int
  l_concurrent_reads :: int
  l_concurrent_writes :: int
  l_heavy_jobs_by_gpu :: "(int \<times> int) list"

definition validate_pairs :: "string \<Rightarrow> (int \<times> int) list \<Rightarrow> value_error + unit" where
  "validate_pairs name vs =
    rbind (checks (concat (map (\<lambda>(i, v). [require_int name i 0, require_int name v 0]) vs)))
      (\<lambda>_. guard_or (\<not> (map fst vs \<noteq> sort (map fst vs) \<or> length (map fst vs) \<noteq> card (set (map fst vs))))
        (ValueError (name @ '' indexes must be sorted and unique'')))"

definition limits_post_init :: "limits \<Rightarrow> value_error + limits" where
  "limits_post_init l = rbind (checks
     [require_int ''cpu_cores'' (l_cpu_cores l) 0,
      require_int ''ram_bytes'' (l_ram_bytes l) 0,
      require_int ''pinned_ram_bytes'' (l_pinned_ram_bytes l) 0,
      require_int ''concurrent_reads'' (l_concurrent_reads l) 0,
      require_int ''concurrent_writes'' (l_concurrent_writes l) 0,
      validate_pairs ''vram_mb_by_gpu'' (l_vram_mb_by_gpu l),
      validate_pairs ''heavy_jobs_by_gpu'' (l_heavy_jobs_by_gpu l),
      guard_or (map fst (l_vram_mb_by_gpu l) = map fst (l_heavy_jobs_by_gpu l))
        (ValueError ''GPU resource maps must contain the same indexes'')]) (\<lambda>_. Inr l)"

record limit_reserves =
  reserve_cpu_cores :: int
  reserve_ram_bytes :: int
  reserve_vram_mb :: int
  max_pinned_ram_bytes :: int
  max_parallel_heavy_jobs :: int
  max_concurrent_reads :: int
  max_concurrent_writes :: int

text \<open>\<open>ResourceLimits.from_inventory\<close>, its keyword arguments gathered in a record.\<close>

definition gpu_budget :: "int \<Rightarrow> gpu_device \<Rightarrow> int" where
  "gpu_budget reserve g = min (max 0 (total_vram_mb g - reserve)) (max 0 (free_vram_mb g - reserve))"

definition inventory_limits :: "hardware_inventory \<Rightarrow> limit_reserves \<Rightarrow> limits" where
  "inventory_limits h r = (let
        cpu = max 1 (physical_cores (inv_cpu h) - reserve_cpu_cores r);
        total_ram_budget = max 0 (total_bytes (inv_memory h) - reserve_ram_bytes r);
        live_ram_budget = max 0 (available_bytes (inv_memory h) - reserve_ram_bytes r);
        ram = min total_ram_budget live_ram_budget;
        pinned = min (max_pinned_ram_bytes r) ram;
        vram = map (\<lambda>g. (gpu_idx g, gpu_budget (reserve_vram_mb r) g)) (inv_gpus h);
        heavy = map (\<lambda>g. (gpu_idx g, max_parallel_heavy_jobs r)) (inv_gpus h)
      in \<lparr>l_cpu_cores = cpu, l_ram_bytes = ram, l_vram_mb_by_gpu = vram,
           l_pinned_ram_bytes = pinned, l_concurrent_reads = max_concurrent_reads r,
           l_concurrent_writes = max_concurrent_writes r, l_heavy_jobs_by_gpu = heavy\<rparr>)"

definition from_inventory :: "hardware_inventory \<Rightarrow> limit_reserves \<Rightarrow> value_error + limits" where
  "from_inventory h r = rbind (checks
     [require_int ''reserve_cpu_cores'' (reserve_cpu_cores r) 0,
      require_int ''reserve_ram_bytes'' (reserve_ram_bytes r) 0,
      require_int ''reserve_vram_mb'' (reserve_vram_mb r) 0,
      require_int ''max_pinned_ram_bytes'' (max_pinned_ram_bytes r) 0,
      require_int ''max_parallel_heavy_jobs'' (max_parallel_heavy_jobs r) 0,
      require_int ''max_concurrent_reads'' (max_concurrent_reads r) 0,
      require_int ''max_concurrent_writes'' (max_concurrent_writes r) 0,
      guard_or (1 \<le> max_parallel_heavy_jobs r) (ValueError ''max_parallel_heavy_jobs must be >= 1'')])
     (\<lambda>_. limits_post_init (inventory_limits h r))"

definition l_vram_mb :: "limits \<Rightarrow> int \<Rightarrow> int option" where
  "l_vram_mb l i = map_option snd (List.find (\<lambda>p. fst p = i) (l_vram_mb_by_gpu l))"

definition l_heavy_jobs :: "limits \<Rightarrow> int \<Rightarrow> int option" where
  "l_heavy_jobs l i = map_option snd (List.find (\<lambda>p. fst p = i) (l_heavy_jobs_by_gpu l))"

lemma find_fst_map_of: "map_option snd (List.find (\<lambda>p. fst p = k) ps) = map_of ps k"
  by (induction ps) auto

lemma l_vram_mb_map_of: "l_vram_mb l i = map_of (l_vram_mb_by_gpu l) i"
  by (simp add: l_vram_mb_def find_fst_map_of)

lemma l_heavy_jobs_map_of: "l_heavy_jobs l i = map_of (l_heavy_jobs_by_gpu l) i"
  by (simp add: l_heavy_jobs_def find_fst_map_of)

lemma validate_pairs_ok [simp]:
  "validate_pairs n vs = Inr u \<longleftrightarrow>
    (\<forall>(i, v) \<in> set vs. 0 \<le> i \<and> 0 \<le> v) \<and> sorted (map fst vs) \<and> distinct (map fst vs)"
proof -
  have "length (map fst vs) = card (set (map fst vs)) \<longleftrightarrow> distinct (map fst vs)"
    by (metis card_distinct distinct_card)
  then show ?thesis
    by (auto simp: validate_pairs_def rbind_Inr_iff list_all_iff sorted_iff_eq_sort [symmetric])
qed

lemma limits_post_init_ok:
  "is_ok (limits_post_init l) \<longleftrightarrow>
     0 \<le> l_cpu_cores l \<and> 0 \<le> l_ram_bytes l \<and> 0 \<le> l_pinned_ram_bytes l
     \<and> 0 \<le> l_concurrent_reads l \<and> 0 \<le> l_concurrent_writes l
     \<and> (\<forall>(i, v) \<in> set (l_vram_mb_by_gpu l). 0 \<le> i \<and> 0 \<le> v)
     \<and> (\<forall>(i, v) \<in> set (l_heavy_jobs_by_gpu l). 0 \<le> i \<and> 0 \<le> v)
     \<and> sorted (map fst (l_vram_mb_by_gpu l)) \<and> distinct (map fst (l_vram_mb_by_gpu l))
     \<and> map fst (l_vram_mb_by_gpu l) = map fst (l_heavy_jobs_by_gpu l)"
  by (auto simp: is_ok_iff limits_post_init_def rbind_Inr_iff)

lemma limits_post_init_InrD: "limits_post_init l = Inr x \<Longrightarrow> x = l"
  by (auto simp: limits_post_init_def rbind_Inr_iff)

text \<open>
  On an inventory the code can hold, the limits never fail their own check: the result is an
  error exactly when one of the reserves is negative or no heavy job is allowed, and otherwise a
  valid \<open>ResourceLimits\<close> whose RAM stays clear of the reserve on the live machine, whose pinned
  RAM is at most its RAM, and which offers at least one core.
\<close>

theorem from_inventory_limits:
  assumes inv: "constructed_inventory h"
  shows "(is_ok (from_inventory h r) \<longleftrightarrow>
       0 \<le> reserve_cpu_cores r \<and> 0 \<le> reserve_ram_bytes r \<and> 0 \<le> reserve_vram_mb r
       \<and> 0 \<le> max_pinned_ram_bytes r \<and> 1 \<le> max_parallel_heavy_jobs r
       \<and> 0 \<le> max_concurrent_reads r \<and> 0 \<le> max_concurrent_writes r)
    \<and> (\<forall>l. from_inventory h r = Inr l \<longrightarrow>
       is_ok (limits_post_init l) \<and> 1 \<le> l_cpu_cores l \<and> l_pinned_ram_bytes l \<le> l_ram_bytes l
       \<and> l_ram_bytes l = max 0 (available_bytes (inv_memory h) - reserve_ram_bytes r)
       \<and> (\<forall>g \<in> set (inv_gpus h).
            l_vram_mb l (gpu_idx g) = Some (max 0 (free_vram_mb g - reserve_vram_mb r))
            \<and> l_heavy_jobs l (gpu_idx g) = Some (max_parallel_heavy_jobs r)))"
proof (intro conjI allI impI)
  note D = constructed_inventoryD [OF inv]
  have lim: "is_ok (limits_post_init (inventory_limits h r))"
    if "0 \<le> max_pinned_ram_bytes r" "1 \<le> max_parallel_heavy_jobs r"
      "0 \<le> max_concurrent_reads r" "0 \<le> max_concurrent_writes r"
    using that D by (auto simp: limits_post_init_ok inventory_limits_def Let_def comp_def gpu_budget_def)
  then show "is_ok (from_inventory h r) \<longleftrightarrow>
       0 \<le> reserve_cpu_cores r \<and> 0 \<le> reserve_ram_bytes r \<and> 0 \<le> reserve_vram_mb r
       \<and> 0 \<le> max_pinned_ram_bytes r \<and> 1 \<le> max_parallel_heavy_jobs r
       \<and> 0 \<le> max_concurrent_reads r \<and> 0 \<le> max_concurrent_writes r"
    by (auto simp: from_inventory_def is_ok_iff rbind_Inr_iff)
  fix l
  assume ok: "from_inventory h r = Inr l"
  then have l: "l = inventory_limits h r" and pi: "limits_post_init l = Inr l"
    by (auto simp: from_inventory_def rbind_Inr_iff dest: limits_post_init_InrD)
  from pi show "is_ok (limits_post_init l)" by simp
  show "1 \<le> l_cpu_cores l" "l_pinned_ram_bytes l \<le> l_ram_bytes l"
    "l_ram_bytes l = max 0 (available_bytes (inv_memory h) - reserve_ram_bytes r)"
    using D by (auto simp: l inventory_limits_def Let_def)
  have look: "map_of (map (\<lambda>g. (gpu_idx g, f g)) (inv_gpus h)) (gpu_idx g) = Some (f g)"
    if "g \<in> set (inv_gpus h)" for f :: "gpu_device \<Rightarrow> int" and g
    using that D(4) by (intro map_of_is_SomeI) (auto simp: comp_def)
  show "\<forall>g \<in> set (inv_gpus h).
       l_vram_mb l (gpu_idx g) = Some (max 0 (free_vram_mb g - reserve_vram_mb r))
       \<and> l_heavy_jobs l (gpu_idx g) = Some (max_parallel_heavy_jobs r)"
    using D(6)
    by (fastforce simp: l inventory_limits_def Let_def l_vram_mb_map_of l_heavy_jobs_map_of
        look gpu_budget_def)
qed

definition sample_gpu :: "int \<Rightarrow> gpu_device" where
  "sample_gpu i = \<lparr>gpu_idx = i, gpu_name = ''RTX'', total_vram_mb = 24000, free_vram_mb = 20000,
     gpu_uuid = None, gpu_utilization = Some (Finite 3), temperature_c = None, power_watts = None,
     compute_capability = None, driver_version = None, gpu_backend = ''cuda''\<rparr>"

definition sample_inventory :: hardware_inventory where
  "sample_inventory = \<lparr>
     inv_cpu = \<lparr>physical_cores = 8, logical_cores = 16, architecture = ''x86'', processor = None,
       simd_instructions = [], numa_nodes = Some 1, load_percent = None\<rparr>,
     inv_memory = \<lparr>total_bytes = 64000, available_bytes = 32000, swap_total_bytes = 0, swap_free_bytes = 0\<rparr>,
     inv_gpus = [sample_gpu 0, sample_gpu 1], inv_disks = [],
     inv_network = \<lparr>bandwidth_bytes_per_second = None, net_utilization = None\<rparr>\<rparr>"

definition sample_reserves :: limit_reserves where
  "sample_reserves = \<lparr>reserve_cpu_cores = 2, reserve_ram_bytes = 4000, reserve_vram_mb = 768,
     max_pinned_ram_bytes = 8000, max_parallel_heavy_jobs = 1, max_concurrent_reads = 4,
     max_concurrent_writes = 2\<rparr>"

lemma sample_inventory_constructed: "constructed_inventory sample_inventory"
  by code_simp

lemma from_inventory_limits_witness:
  "\<exists>l. from_inventory sample_inventory sample_reserves = Inr l \<and> l_ram_bytes l = 28000"
proof -
  note C = from_inventory_limits [OF sample_inventory_constructed, of sample_reserves]
  have "is_ok (from_inventory sample_inventory sample_reserves)"
    using conjunct1 [OF C] by (simp add: sample_reserves_def)
  then obtain l where l: "from_inventory sample_inventory sample_reserves = Inr l"
    by (auto simp: is_ok_iff)
  with conjunct2 [OF C] have "l_ram_bytes l = 28000"
    by (simp add: sample_inventory_def sample_reserves_def)
  with l show ?thesis by blast
qed

end
