(* ===== verification/Pressure.thy ===== *)
theory Pressure
  imports Hardware
begin

text \<open>
  resources/pressure.py: the level of each monitored resource and the events raised when it
  changes. The lock of the monitor makes \<open>observe\<close> atomic, so it is one step on the monitor's
  state. The ratio \<open>used / limit\<close> is the exact rational; the wall clock is an argument.
\<close>

datatype pressure_kind = P_CPU | P_MEMORY | P_PINNED_MEMORY | P_GPU | P_IO_READ | P_IO_WRITE

datatype pressure_level = NORMAL | ELEVATED | CRITICAL

record thresholds =
  elevated_ratio :: pyfloat
  critical_ratio :: pyfloat

definition thresholds_post_init :: "thresholds \<Rightarrow> value_error + thresholds" where
  "thresholds_post_init t =
    (if \<not> (pf_less (Finite 0) (elevated_ratio t) \<and> pf_less (elevated_ratio t) (critical_ratio t)
            \<and> pf_le (critical_ratio t) (Finite 1))
     then Inl (ValueError ''pressure ratios must satisfy 0 < elevated < critical <= 1'')
     else Inr t)"

definition default_thresholds :: thresholds where
  "default_thresholds = \<lparr>elevated_ratio = Finite (8 / 10), critical_ratio = Finite (95 / 100)\<rparr>"

record pressure_sample =
  ps_kind :: pressure_kind
  ps_used :: int
  ps_limit :: int
  ps_device :: "int option"

definition sample_post_init :: "pressure_sample \<Rightarrow> value_error + pressure_sample" where
  "sample_post_init p = rbind (checks
     [require_int ''used'' (ps_used p) 0,
      require_int ''limit'' (ps_limit p) 1,
      optional_int ''device_index'' (ps_device p) 0,
      guard_or (\<not> (ps_kind p = P_GPU \<and> ps_device p = None)) (ValueError ''GPU pressure requires device_index''),
      guard_or (\<not> (ps_kind p \<noteq> P_GPU \<and> ps_device p \<noteq> None))
        (ValueError ''device_index is only valid for GPU pressure'')]) (\<lambda>_. Inr p)"

definition ps_ratio :: "pressure_sample \<Rightarrow> rat" where
  "ps_ratio p = of_int (ps_used p) / of_int (ps_limit p)"

record pressure_event =
  pe_kind :: pressure_kind
  pe_previous_level :: pressure_level
  pe_level :: pressure_level
  pe_used :: int
  pe_limit :: int
  pe_ratio :: rat
  pe_device :: "int option"
  pe_observed_at :: rat

record pressure_monitor =
  pm_thresholds :: thresholds
  pm_levels :: "(pressure_kind \<times> int option, pressure_level) dict"

definition new_monitor :: "thresholds option \<Rightarrow> pressure_monitor" where
  "new_monitor t = \<lparr>pm_thresholds = (case t of None \<Rightarrow> default_thresholds | Some x \<Rightarrow> x), pm_levels = []\<rparr>"

definition classify :: "thresholds \<Rightarrow> rat \<Rightarrow> pressure_level" where
  "classify t ratio =
    (if pf_le (critical_ratio t) (Finite ratio) then CRITICAL
     else if pf_le (elevated_ratio t) (Finite ratio) then ELEVATED
     else NORMAL)"

definition monitor_level :: "pressure_monitor \<Rightarrow> pressure_kind \<Rightarrow> int option \<Rightarrow> pressure_level" where
  "monitor_level m k d = (case map_of (pm_levels m) (k, d) of None \<Rightarrow> NORMAL | Some l \<Rightarrow> l)"

definition observe ::
  "rat \<Rightarrow> pressure_sample \<Rightarrow> pressure_monitor \<Rightarrow> pressure_event option \<times> pressure_monitor" where
  "observe now p m = (let
      key = (ps_kind p, ps_device p);
      previous = (case map_of (pm_levels m) key of None \<Rightarrow> NORMAL | Some l \<Rightarrow> l);
      level = classify (pm_thresholds m) (ps_ratio p);
      m' = m\<lparr>pm_levels := AList.update key level (pm_levels m)\<rparr>
    in (if level = previous then None
        else Some \<lparr>pe_kind = ps_kind p, pe_previous_level = previous, pe_level = level,
          pe_used = ps_used p, pe_limit = ps_limit p, pe_ratio = ps_ratio p,
          pe_device = ps_device p, pe_observed_at = now\<rparr>, m'))"

text \<open>A sequence of observations, with the events in the order they were raised.\<close>

fun observe_all ::
  "rat \<Rightarrow> pressure_sample list \<Rightarrow> pressure_monitor \<Rightarrow> pressure_event list \<times> pressure_monitor" where
  "observe_all now [] m = ([], m)"
| "observe_all now (p # ps) m = (case observe now p m of (e, m1) \<Rightarrow>
     case observe_all now ps m1 of (es, m2) \<Rightarrow>
       ((case e of None \<Rightarrow> [] | Some x \<Rightarrow> [x]) @ es, m2))"

lemma thresholds_post_initD:
  assumes "is_ok (thresholds_post_init t)"
  obtains e c where "elevated_ratio t = Finite e" "critical_ratio t = Finite c" "0 < e" "e < c" "c \<le> 1"
proof -
  from assms have A: "pf_less (Finite 0) (elevated_ratio t)" "pf_less (elevated_ratio t) (critical_ratio t)"
      "pf_le (critical_ratio t) (Finite 1)"
    by (auto simp: thresholds_post_init_def split: if_splits)
  then show thesis
    by (cases "elevated_ratio t"; cases "critical_ratio t") (auto simp: pf_le_def intro: that)
qed

lemma monitor_level_observe:
  "monitor_level (snd (observe now p m)) k d =
    (if (k, d) = (ps_kind p, ps_device p) then classify (pm_thresholds m) (ps_ratio p)
     else monitor_level m k d)"
  by (auto simp: monitor_level_def observe_def Let_def map_of_update)

lemma observe_thresholds [simp]: "pm_thresholds (snd (observe now p m)) = pm_thresholds m"
  by (simp add: observe_def Let_def)

lemma observe_all_thresholds [simp]: "pm_thresholds (snd (observe_all now ps m)) = pm_thresholds m"
proof (induction ps arbitrary: m)
  case (Cons p ps)
  have "observe now p m = (fst (observe now p m), snd (observe now p m))" by simp
  with Cons.IH [of "snd (observe now p m)"] show ?case by (simp add: split_def)
qed simp

lemma monitor_level_observe_all:
  assumes "distinct (map (\<lambda>p. (ps_kind p, ps_device p)) ps)"
  shows "monitor_level (snd (observe_all now ps m)) k d =
    (case List.find (\<lambda>p. (ps_kind p, ps_device p) = (k, d)) ps of
       None \<Rightarrow> monitor_level m k d
     | Some p \<Rightarrow> classify (pm_thresholds m) (ps_ratio p))"
  using assms
proof (induction ps arbitrary: m)
  case (Cons p ps)
  have no: "List.find (\<lambda>q. (ps_kind q, ps_device q) = (k, d)) ps = None"
    if "(ps_kind p, ps_device p) = (k, d)"
    using Cons.prems that by (auto simp: find_None_iff image_iff)
  show ?case
    using Cons.IH [of "snd (observe now p m)"] Cons.prems no
    by (auto simp: split_def monitor_level_observe split: option.splits)
qed simp

fun level_chain :: "pressure_level \<Rightarrow> pressure_event list \<Rightarrow> pressure_level option" where
  "level_chain l [] = Some l"
| "level_chain l (e # es) =
     (if pe_previous_level e = l \<and> pe_level e \<noteq> l then level_chain (pe_level e) es else None)"

lemma level_chain_append:
  "level_chain l (es @ fs) = (case level_chain l es of None \<Rightarrow> None | Some k \<Rightarrow> level_chain k fs)"
  by (induction l es rule: level_chain.induct) auto

lemma observe_all_chain:
  "level_chain (monitor_level m k d)
     (filter (\<lambda>e. (pe_kind e, pe_device e) = (k, d)) (fst (observe_all now ps m)))
   = Some (monitor_level (snd (observe_all now ps m)) k d)"
proof (induction ps arbitrary: m)
  case (Cons p ps)
  let ?m = "snd (observe now p m)"
  have IH: "level_chain (monitor_level ?m k d)
     (filter (\<lambda>e. (pe_kind e, pe_device e) = (k, d)) (fst (observe_all now ps ?m)))
   = Some (monitor_level (snd (observe_all now ps ?m)) k d)" by (rule Cons.IH)
  have ev: "level_chain (monitor_level m k d)
      (filter (\<lambda>e. (pe_kind e, pe_device e) = (k, d))
        (case fst (observe now p m) of None \<Rightarrow> [] | Some x \<Rightarrow> [x])) = Some (monitor_level ?m k d)"
    by (auto simp: monitor_level_observe)
      (auto simp: observe_def Let_def monitor_level_def)
  show ?case using IH ev by (simp add: split_def level_chain_append)
qed simp

lemma observe_all_level_last:
  "monitor_level (snd (observe_all now ps m)) k d =
    (case filter (\<lambda>p. (ps_kind p, ps_device p) = (k, d)) ps of
       [] \<Rightarrow> monitor_level m k d
     | qs \<Rightarrow> classify (pm_thresholds m) (ps_ratio (last qs)))"
proof (induction ps arbitrary: m)
  case (Cons p ps)
  show ?case
    using Cons.IH [of "snd (observe now p m)"]
    by (auto simp: split_def monitor_level_observe split: list.splits)
qed simp

text \<open>
  C39. The monitor is a faithful level meter. After any sequence of samples
  that begins in the fresh state, the level reported for a resource is the class of its last
  sample (NORMAL before the first one), and the events raised for it, in order, are exactly its
  changes of level: each starts at the level the previous one ended at, no event repeats a level,
  and replaying them from NORMAL gives the level the monitor reports.
\<close>

theorem monitor_events_are_level_changes:
  "level_chain NORMAL
     (filter (\<lambda>e. (pe_kind e, pe_device e) = (k, d)) (fst (observe_all now ps (new_monitor t))))
   = Some (monitor_level (snd (observe_all now ps (new_monitor t))) k d)
   \<and> monitor_level (snd (observe_all now ps (new_monitor t))) k d =
      (case filter (\<lambda>p. (ps_kind p, ps_device p) = (k, d)) ps of
         [] \<Rightarrow> NORMAL
       | qs \<Rightarrow> classify (pm_thresholds (new_monitor t)) (ps_ratio (last qs)))"
proof -
  have start: "monitor_level (new_monitor t) k d = NORMAL"
    by (simp add: monitor_level_def new_monitor_def)
  show ?thesis
    using observe_all_chain [of "new_monitor t" k d now ps]
      observe_all_level_last [of now ps "new_monitor t" k d]
    unfolding start by (rule conjI)
qed

end
