(* ===== verification/Uuids.thy ===== *)
theory Uuids
  imports Prelude "HOL-Library.Word"
begin

text \<open>
  UUIDs, which identify nodes, graphs and reservations. A UUID is a 128-bit number, and
  \<open>str(uuid)\<close> its 32 lower-case hexadecimal digits, grouped 8-4-4-4-12 by hyphens. The graph
  code sorts by \<open>key=str\<close> everywhere; the model sorts by the number. \<open>uuid_str_less_iff\<close> shows
  that this is the same order, and \<open>uuid_str_inj\<close> that equal strings are equal UUIDs.
\<close>

type_synonym uuid = "128 word"

definition hexdigit :: "nat \<Rightarrow> char" where
  "hexdigit n = (if n < 10 then char_of (48 + n) else char_of (87 + n))"

fun hexs :: "nat \<Rightarrow> nat \<Rightarrow> string" where
  "hexs 0 n = []"
| "hexs (Suc k) n = hexs k (n div 16) @ [hexdigit (n mod 16)]"

definition uuid_str :: "uuid \<Rightarrow> string" where
  "uuid_str w = (let h = hexs 32 (unat w) in
     take 8 h @ CHR ''-'' # take 4 (drop 8 h) @ CHR ''-'' # take 4 (drop 12 h)
     @ CHR ''-'' # take 4 (drop 16 h) @ CHR ''-'' # drop 20 h)"

lemma of_char_hexdigit: "n < 16 \<Longrightarrow> of_char (hexdigit n) = (if n < 10 then 48 + n else 87 + n)"
  by (simp add: hexdigit_def)

lemma hexdigit_less_iff: "m < 16 \<Longrightarrow> n < 16 \<Longrightarrow> hexdigit m < hexdigit n \<longleftrightarrow> m < n"
  by (auto simp: less_char_def of_char_hexdigit)

lemma hexdigit_eq_iff: "m < 16 \<Longrightarrow> n < 16 \<Longrightarrow> hexdigit m = hexdigit n \<longleftrightarrow> m = n"
  by (metis hexdigit_less_iff less_irrefl linorder_neqE_nat)

lemma length_hexs [simp]: "length (hexs k n) = k"
  by (induction k arbitrary: n) auto

lemma append_less_iff:
  fixes xs ys :: "'a::linorder list"
  assumes "length xs = length ys"
  shows "xs @ us < ys @ vs \<longleftrightarrow> xs < ys \<or> (xs = ys \<and> us < vs)"
  using assms by (induction xs ys rule: list_induct2) auto

lemma hexs_eq_iff: "m < 16 ^ k \<Longrightarrow> n < 16 ^ k \<Longrightarrow> hexs k m = hexs k n \<longleftrightarrow> m = n"
proof (induction k arbitrary: m n)
  case (Suc k)
  from Suc.prems have "m div 16 < 16 ^ k" "n div 16 < 16 ^ k" by (auto simp: less_mult_imp_div_less)
  with Suc.IH have "hexs k (m div 16) = hexs k (n div 16) \<longleftrightarrow> m div 16 = n div 16" by blast
  then show ?case by (simp add: hexdigit_eq_iff) (metis div_mult_mod_eq)
qed simp

lemma hexs_less_iff: "m < 16 ^ k \<Longrightarrow> n < 16 ^ k \<Longrightarrow> hexs k m < hexs k n \<longleftrightarrow> m < n"
proof (induction k arbitrary: m n)
  case (Suc k)
  have le: "m div 16 < 16 ^ k" "n div 16 < 16 ^ k"
    using Suc.prems by (auto simp: less_mult_imp_div_less)
  have "hexs (Suc k) m < hexs (Suc k) n \<longleftrightarrow>
      m div 16 < n div 16 \<or> (m div 16 = n div 16 \<and> m mod 16 < n mod 16)"
    by (simp add: append_less_iff hexdigit_less_iff Suc.IH [OF le] hexs_eq_iff [OF le])
  also have "\<dots> \<longleftrightarrow> 16 * (m div 16) + m mod 16 < 16 * (n div 16) + n mod 16"
    using mod_less_divisor [of 16 m] mod_less_divisor [of 16 n] by linarith
  finally show ?case by simp
qed simp

lemma unat_uuid_bound: "unat (w :: uuid) < 16 ^ 32"
  using unsigned_less [of w] by simp

lemma hyphens_less_iff:
  fixes a1 :: string
  assumes "length a1 = length a2" "length b1 = length b2" "length c1 = length c2" "length d1 = length d2"
  shows "a1 @ z # b1 @ z # c1 @ z # d1 @ z # e1 < a2 @ z # b2 @ z # c2 @ z # d2 @ z # e2
    \<longleftrightarrow> a1 @ b1 @ c1 @ d1 @ e1 < a2 @ b2 @ c2 @ d2 @ e2"
  using assms by (simp add: append_less_iff)

lemma hex_blocks:
  "take 8 h @ take 4 (drop 8 h) @ take 4 (drop 12 h) @ take 4 (drop 16 h) @ drop 20 h = h"
proof -
  have "take 4 (drop n h) @ drop (n + 4) h = drop n h" for n
    by (metis add.commute append_take_drop_id drop_drop)
  from this [of 8] this [of 12] this [of 16] show ?thesis by simp
qed

lemma uuid_str_less_iff: "uuid_str a < uuid_str b \<longleftrightarrow> a < b"
proof -
  have "uuid_str a < uuid_str b \<longleftrightarrow> hexs 32 (unat a) < hexs 32 (unat b)"
    unfolding uuid_str_def Let_def by (subst hyphens_less_iff) (simp_all add: hex_blocks)
  also have "\<dots> \<longleftrightarrow> a < b"
    by (simp only: hexs_less_iff [OF unat_uuid_bound unat_uuid_bound] word_less_nat_alt)
  finally show ?thesis .
qed

lemma uuid_str_inj: "uuid_str a = uuid_str b \<longleftrightarrow> a = b"
  by (metis less_irrefl linorder_neqE uuid_str_less_iff)

lemma uuid_str_le_iff: "uuid_str a \<le> uuid_str b \<longleftrightarrow> a \<le> b"
  by (simp add: le_less uuid_str_less_iff uuid_str_inj)

text \<open>Sorting UUIDs by their string is sorting them as numbers.\<close>

lemma sort_key_uuid_str: "sort_key (\<lambda>x. uuid_str (f x)) xs = sort_key f xs"
proof (induction xs)
  case (Cons x xs)
  have "insort_key (\<lambda>x. uuid_str (f x)) x ys = insort_key f x ys" for ys
    by (induction ys) (auto simp: uuid_str_le_iff)
  with Cons show ?case by simp
qed simp

end
