(* ===== verification/Broker.thy ===== *)
theory Broker
  imports Budgets Pressure Uuids
begin

text \<open>
  resources/broker.py: admission of jobs against the machine's budgets. The broker's lock makes
  each public method one step on its state. A reservation is an object compared by identity
  (\<open>active is not reservation\<close>), so it carries the address \<open>r_ref\<close> it was allocated at, and the
  broker's state keeps the addresses whose \<open>_released\<close> flag is set. \<open>uuid4()\<close> and the clock of the
  pressure events are arguments. \<open>vram[index]\<close> raises KeyError on a missing index, so \<open>_used\<close>
  has that branch; \<open>binv\<close>, the invariant of the component, excludes it.
\<close>

datatype admission_outcome = ADMITTED | DEFERRED | REJECTED

datatype violation_code = V_CPU_CORES | V_RAM_BYTES | V_PINNED_RAM_BYTES | V_CONCURRENT_READS
  | V_CONCURRENT_WRITES | V_GPU_UNAVAILABLE | V_GPU_VRAM | V_GPU_HEAVY_JOBS

datatype broker_error = BValue value_error | BKeyError int | BReservationExists uuid
  | BRuntimeError string

definition bv :: "value_error + 'a \<Rightarrow> broker_error + 'a" where
  "bv r = (case r of Inl e \<Rightarrow> Inl (BValue e) | Inr x \<Rightarrow> Inr x)"

record violation =
  v_code :: violation_code
  v_requested :: int
  v_available :: "int option"
  v_transient :: bool
  v_gpu_index :: "int option"

definition violation_post_init :: "violation \<Rightarrow> value_error + violation" where
  "violation_post_init v = rbind (checks
     [require_int ''requested'' (v_requested v) 0,
      optional_int ''available'' (v_available v) 0,
      optional_int ''gpu_index'' (v_gpu_index v) 0,
      guard_or ((v_code v \<in> {V_GPU_UNAVAILABLE, V_GPU_VRAM, V_GPU_HEAVY_JOBS}) = (v_gpu_index v \<noteq> None))
        (ValueError ''gpu_index presence must match the violation code'')]) (\<lambda>_. Inr v)"

fun code_value :: "violation_code \<Rightarrow> string" where
  "code_value V_CPU_CORES = ''cpu_cores''"
| "code_value V_RAM_BYTES = ''ram_bytes''"
| "code_value V_PINNED_RAM_BYTES = ''pinned_ram_bytes''"
| "code_value V_CONCURRENT_READS = ''concurrent_reads''"
| "code_value V_CONCURRENT_WRITES = ''concurrent_writes''"
| "code_value V_GPU_UNAVAILABLE = ''gpu_unavailable''"
| "code_value V_GPU_VRAM = ''gpu_vram_mb''"
| "code_value V_GPU_HEAVY_JOBS = ''gpu_heavy_jobs''"

definition violation_path :: "violation \<Rightarrow> string" where
  "violation_path v = (let
      gpu = (case v_gpu_index v of None \<Rightarrow> ''None'' | Some i \<Rightarrow> show_int i)
    in case v_code v of
         V_GPU_UNAVAILABLE \<Rightarrow> ''gpu['' @ gpu @ ''].unavailable''
       | V_GPU_VRAM \<Rightarrow> ''gpu['' @ gpu @ ''].vram_mb''
       | V_GPU_HEAVY_JOBS \<Rightarrow> ''gpu['' @ gpu @ ''].heavy_jobs''
       | c \<Rightarrow> code_value c)"

record reservation =
  r_ref :: nat
  r_id :: uuid
  r_estimate :: estimate

record decision =
  d_outcome :: admission_outcome
  d_action :: fallback_action
  d_requested :: estimate
  d_selected :: estimate
  d_diagnostics :: "violation list"
  d_attempted :: "fallback_action list"
  d_reservation :: "reservation option"

definition decision_post_init :: "decision \<Rightarrow> value_error + decision" where
  "decision_post_init d = rbind (checks
     [guard_or (\<not> (d_outcome d = ADMITTED \<and> d_reservation d = None))
        (ValueError ''an admitted decision requires a reservation''),
      guard_or (\<not> (d_outcome d \<noteq> ADMITTED \<and> d_reservation d \<noteq> None))
        (ValueError ''a non-admitted decision cannot carry a reservation''),
      guard_or (\<not> (d_outcome d = REJECTED \<and> d_action d \<noteq> REJECT))
        (ValueError ''a rejected decision must use the reject action''),
      guard_or (d_attempted d \<noteq> []) (ValueError ''attempted_actions cannot be empty'')])
     (\<lambda>_. Inr d)"

definition d_admitted :: "decision \<Rightarrow> bool" where
  "d_admitted d = (d_outcome d = ADMITTED)"

definition d_violations :: "decision \<Rightarrow> string list" where
  "d_violations d = map violation_path (d_diagnostics d)"

definition transform_order :: "fallback_action list" where
  "transform_order = [OFFLOAD, QUANTIZE]"

section \<open>State and operations\<close>

record broker =
  b_limits :: limits
  b_reservations :: "(uuid, reservation) dict"
  b_monitor :: pressure_monitor
  b_events :: "pressure_event list"
  b_released :: "nat list"
  b_next_ref :: nat

definition new_broker ::
  "hardware_inventory \<Rightarrow> limit_reserves \<Rightarrow> pressure_monitor option \<Rightarrow> broker_error + broker" where
  "new_broker h r m = rbind (bv (from_inventory h r)) (\<lambda>l.
     Inr \<lparr>b_limits = l, b_reservations = [],
       b_monitor = (case m of None \<Rightarrow> new_monitor None | Some x \<Rightarrow> x), b_events = [],
       b_released = [], b_next_ref = 0\<rparr>)"

record usage =
  u_cpu :: int
  u_ram :: int
  u_pinned :: int
  u_reads :: int
  u_writes :: int
  u_vram :: "(int, int) dict"
  u_heavy :: "(int, int) dict"

definition heavy_count :: "estimate \<Rightarrow> int" where
  "heavy_count e = (if e_heavy_gpu e then 1 else 0)"

definition add_at :: "int \<Rightarrow> int \<Rightarrow> (int, int) dict \<Rightarrow> broker_error + (int, int) dict" where
  "add_at i x d = (case map_of d i of None \<Rightarrow> Inl (BKeyError i)
     | Some v \<Rightarrow> Inr (AList.update i (v + x) d))"

fun used_fold :: "usage \<Rightarrow> estimate list \<Rightarrow> broker_error + usage" where
  "used_fold u [] = Inr u"
| "used_fold u (e # es) = (let
     u1 = u\<lparr>u_cpu := u_cpu u + e_cpu_cores e, u_ram := u_ram u + e_ram_bytes e,
       u_pinned := u_pinned u + e_pinned_ram_bytes e, u_reads := u_reads u + e_concurrent_reads e,
       u_writes := u_writes u + e_concurrent_writes e\<rparr>
   in case e_gpu_index e of
        None \<Rightarrow> used_fold u1 es
      | Some i \<Rightarrow>
          rbind (add_at i (e_vram_mb e) (u_vram u1)) (\<lambda>vram.
          rbind (add_at i (heavy_count e) (u_heavy u1)) (\<lambda>heavy.
            used_fold (u1\<lparr>u_vram := vram, u_heavy := heavy\<rparr>) es)))"

definition no_usage :: "limits \<Rightarrow> usage" where
  "no_usage l = \<lparr>u_cpu = 0, u_ram = 0, u_pinned = 0, u_reads = 0, u_writes = 0,
     u_vram = map (\<lambda>(i, _). (i, 0)) (l_vram_mb_by_gpu l),
     u_heavy = map (\<lambda>(i, _). (i, 0)) (l_heavy_jobs_by_gpu l)\<rparr>"

definition used :: "broker \<Rightarrow> broker_error + usage" where
  "used br = used_fold (no_usage (b_limits br)) (map r_estimate (dvalues (b_reservations br)))"

definition subtract_at :: "(int, int) dict \<Rightarrow> int \<times> int \<Rightarrow> broker_error + int \<times> int" where
  "subtract_at d p = (case map_of d (fst p) of None \<Rightarrow> Inl (BKeyError (fst p))
     | Some u \<Rightarrow> Inr (fst p, max 0 (snd p - u)))"

definition available :: "broker \<Rightarrow> broker_error + limits" where
  "available br = (let l = b_limits br in
     rbind (used br) (\<lambda>u.
     rbind (rmap (subtract_at (u_vram u)) (l_vram_mb_by_gpu l)) (\<lambda>vram.
     rbind (rmap (subtract_at (u_heavy u)) (l_heavy_jobs_by_gpu l)) (\<lambda>heavy.
       bv (limits_post_init
         \<lparr>l_cpu_cores = (if 0 < l_cpu_cores l - u_cpu u then max 1 (l_cpu_cores l - u_cpu u) else 0),
          l_ram_bytes = max 0 (l_ram_bytes l - u_ram u),
          l_vram_mb_by_gpu = vram,
          l_pinned_ram_bytes = max 0 (l_pinned_ram_bytes l - u_pinned u),
          l_concurrent_reads = max 0 (l_concurrent_reads l - u_reads u),
          l_concurrent_writes = max 0 (l_concurrent_writes l - u_writes u),
          l_heavy_jobs_by_gpu = heavy\<rparr>)))))"

text \<open>The violations \<open>_diagnostics\<close> appends, in its order, before each is constructed.\<close>

definition raw_diagnostics :: "bool \<Rightarrow> limits \<Rightarrow> limits \<Rightarrow> estimate \<Rightarrow> violation list" where
  "raw_diagnostics against_current static l e = (let
     entry = (\<lambda>code requested avail static_avail gpu.
       \<lparr>v_code = code, v_requested = requested, v_available = avail,
        v_transient = (against_current
          \<and> (case static_avail of None \<Rightarrow> False | Some s \<Rightarrow> requested \<le> s)),
        v_gpu_index = gpu\<rparr>)
   in (if l_cpu_cores l < e_cpu_cores e
       then [entry V_CPU_CORES (e_cpu_cores e) (Some (l_cpu_cores l)) (Some (l_cpu_cores static)) None]
       else [])
    @ (if l_ram_bytes l < e_ram_bytes e
       then [entry V_RAM_BYTES (e_ram_bytes e) (Some (l_ram_bytes l)) (Some (l_ram_bytes static)) None]
       else [])
    @ (if l_pinned_ram_bytes l < e_pinned_ram_bytes e
       then [entry V_PINNED_RAM_BYTES (e_pinned_ram_bytes e) (Some (l_pinned_ram_bytes l))
               (Some (l_pinned_ram_bytes static)) None]
       else [])
    @ (if l_concurrent_reads l < e_concurrent_reads e
       then [entry V_CONCURRENT_READS (e_concurrent_reads e) (Some (l_concurrent_reads l))
               (Some (l_concurrent_reads static)) None]
       else [])
    @ (if l_concurrent_writes l < e_concurrent_writes e
       then [entry V_CONCURRENT_WRITES (e_concurrent_writes e) (Some (l_concurrent_writes l))
               (Some (l_concurrent_writes static)) None]
       else [])
    @ (case e_gpu_index e of
         None \<Rightarrow> []
       | Some i \<Rightarrow>
           (case (l_vram_mb l i, l_heavy_jobs l i) of
              (Some vram, Some heavy) \<Rightarrow>
                (if vram < e_vram_mb e
                 then [entry V_GPU_VRAM (e_vram_mb e) (Some vram) (l_vram_mb static i) (Some i)] else [])
              @ (if e_heavy_gpu e \<and> heavy < 1
                 then [entry V_GPU_HEAVY_JOBS 1 (Some heavy) (l_heavy_jobs static i) (Some i)] else [])
            | _ \<Rightarrow> [entry V_GPU_UNAVAILABLE (e_vram_mb e) None None (Some i)])))"

definition diagnostics :: "broker \<Rightarrow> estimate \<Rightarrow> bool \<Rightarrow> broker_error + violation list" where
  "diagnostics br e against_current =
     rbind (if against_current then available br else Inr (b_limits br)) (\<lambda>l.
       rmap (\<lambda>v. bv (violation_post_init v))
         (raw_diagnostics against_current (b_limits br) l e))"

definition violations :: "broker \<Rightarrow> estimate \<Rightarrow> bool \<Rightarrow> broker_error + string list" where
  "violations br e against_current =
     rbind (diagnostics br e against_current) (\<lambda>ds. Inr (map violation_path ds))"

text \<open>
  \<open>_observe_pressure\<close>: \<open>pressure_samples\<close> builds the list (a KeyError is raised before any sample
  is observed), \<open>observe_samples\<close> is the loop, with its \<open>continue\<close> on a limit below one.
\<close>

definition pressure_samples ::
  "broker \<Rightarrow> broker_error + (pressure_kind \<times> int \<times> int \<times> int option) list" where
  "pressure_samples br = (let l = b_limits br in
     rbind (used br) (\<lambda>u.
     rbind (rmap (\<lambda>(i, mx). case map_of (u_vram u) i of None \<Rightarrow> Inl (BKeyError i)
         | Some v \<Rightarrow> Inr (P_GPU, v, mx, Some i)) (l_vram_mb_by_gpu l)) (\<lambda>gpus.
       Inr ([(P_CPU, u_cpu u, l_cpu_cores l, None),
             (P_MEMORY, u_ram u, l_ram_bytes l, None),
             (P_PINNED_MEMORY, u_pinned u, l_pinned_ram_bytes l, None),
             (P_IO_READ, u_reads u, l_concurrent_reads l, None),
             (P_IO_WRITE, u_writes u, l_concurrent_writes l, None)] @ gpus))))"

fun observe_samples :: "rat \<Rightarrow> (pressure_kind \<times> int \<times> int \<times> int option) list \<Rightarrow> broker \<Rightarrow>
    (broker_error + unit) \<times> broker" where
  "observe_samples now [] br = (Inr (), br)"
| "observe_samples now ((k, u, mx, d) # rest) br =
    (if mx < 1 then observe_samples now rest br
     else case sample_post_init \<lparr>ps_kind = k, ps_used = u, ps_limit = mx, ps_device = d\<rparr> of
       Inl e \<Rightarrow> (Inl (BValue e), br)
     | Inr p \<Rightarrow> (case observe now p (b_monitor br) of (ev, m) \<Rightarrow>
         observe_samples now rest (br\<lparr>b_monitor := m,
           b_events := b_events br @ (case ev of None \<Rightarrow> [] | Some x \<Rightarrow> [x])\<rparr>)))"

definition observe_pressure :: "rat \<Rightarrow> broker \<Rightarrow> (broker_error + unit) \<times> broker" where
  "observe_pressure now br = (case pressure_samples br of
     Inl e \<Rightarrow> (Inl e, br) | Inr ss \<Rightarrow> observe_samples now ss br)"

text \<open>\<open>_reserve\<close>, \<open>_admitted\<close>; \<open>fresh\<close> is what \<open>uuid4()\<close> would return.\<close>

definition reserve :: "rat \<Rightarrow> uuid \<Rightarrow> estimate \<Rightarrow> uuid option \<Rightarrow> broker \<Rightarrow>
    (broker_error + reservation) \<times> broker" where
  "reserve now fresh e rid br = (let
     identifier = (case rid of None \<Rightarrow> fresh | Some i \<Rightarrow> i)
   in if identifier \<in> set (dkeys (b_reservations br))
      then (Inl (BReservationExists identifier), br)
      else let r = \<lparr>r_ref = b_next_ref br, r_id = identifier, r_estimate = e\<rparr>;
               br1 = br\<lparr>b_reservations := AList.update identifier r (b_reservations br),
                        b_next_ref := b_next_ref br + 1\<rparr>
        in case observe_pressure now br1 of
             (Inl err, br2) \<Rightarrow> (Inl err, br2)
           | (Inr _, br2) \<Rightarrow> (Inr r, br2))"

definition admitted :: "rat \<Rightarrow> uuid \<Rightarrow> estimate \<Rightarrow> estimate \<Rightarrow> fallback_action \<Rightarrow>
    fallback_action list \<Rightarrow> uuid option \<Rightarrow> broker \<Rightarrow> (broker_error + decision) \<times> broker" where
  "admitted now fresh requested selected action attempts rid br =
    (case reserve now fresh selected rid br of
       (Inl err, br') \<Rightarrow> (Inl err, br')
     | (Inr r, br') \<Rightarrow>
         (bv (decision_post_init \<lparr>d_outcome = ADMITTED, d_action = action, d_requested = requested,
            d_selected = selected, d_diagnostics = [], d_attempted = attempts,
            d_reservation = Some r\<rparr>), br'))"

text \<open>The loop over \<open>_TRANSFORM_ORDER\<close>: an early return, or the attempts and the candidate.\<close>

datatype transform_result = Found fallback_action estimate "fallback_action list"
  | Exhausted "fallback_action list" "estimate option"

fun transforms :: "broker \<Rightarrow> estimate \<Rightarrow> fallback_action list \<Rightarrow> fallback_action list \<Rightarrow>
    estimate option \<Rightarrow> broker_error + transform_result" where
  "transforms br e [] attempts cand = Inr (Exhausted attempts cand)"
| "transforms br e (a # as) attempts cand =
    (case e_alternative e a of
       None \<Rightarrow> transforms br e as attempts cand
     | Some alt \<Rightarrow>
         rbind (violations br alt True) (\<lambda>now_v.
           if now_v = [] then Inr (Found a alt (attempts @ [a]))
           else if cand = None
           then rbind (violations br alt False) (\<lambda>ever_v.
                  transforms br e as (attempts @ [a]) (if ever_v = [] then Some alt else None))
           else transforms br e as (attempts @ [a]) cand))"

definition refuse :: "admission_outcome \<Rightarrow> fallback_action \<Rightarrow> estimate \<Rightarrow> estimate \<Rightarrow>
    broker_error + violation list \<Rightarrow> fallback_action list \<Rightarrow> broker_error + decision" where
  "refuse outcome action requested selected diags attempts = rbind diags (\<lambda>ds.
     bv (decision_post_init \<lparr>d_outcome = outcome, d_action = action, d_requested = requested,
       d_selected = selected, d_diagnostics = ds, d_attempted = attempts, d_reservation = None\<rparr>))"

definition admit_after_transforms :: "rat \<Rightarrow> uuid \<Rightarrow> estimate \<Rightarrow> uuid option \<Rightarrow> broker \<Rightarrow>
    fallback_action list \<Rightarrow> estimate option \<Rightarrow> (broker_error + decision) \<times> broker" where
  "admit_after_transforms now fresh e rid br tried cand = (let attempts = tried @ [SEQUENCE] in
     case cand of
       Some c \<Rightarrow> (refuse DEFERRED SEQUENCE e c (diagnostics br c True) attempts, br)
     | None \<Rightarrow>
        (case e_alternative e REDUCE_BATCH of
           None \<Rightarrow> (refuse REJECTED REJECT e e (diagnostics br e False) (attempts @ [REJECT]), br)
         | Some reduced \<Rightarrow>
            (case violations br reduced True of
               Inl err \<Rightarrow> (Inl err, br)
             | Inr vs \<Rightarrow>
                 if vs = [] then admitted now fresh e reduced REDUCE_BATCH (attempts @ [REDUCE_BATCH]) rid br
                 else (refuse REJECTED REJECT e e (diagnostics br e False)
                         (attempts @ [REDUCE_BATCH, REJECT]), br))))"

definition admit :: "rat \<Rightarrow> uuid \<Rightarrow> estimate \<Rightarrow> uuid option \<Rightarrow> broker \<Rightarrow>
    (broker_error + decision) \<times> broker" where
  "admit now fresh e rid br =
    (case violations br e True of
       Inl err \<Rightarrow> (Inl err, br)
     | Inr vs \<Rightarrow>
        if vs = [] then admitted now fresh e e NO_FALLBACK [NO_FALLBACK] rid br
        else case violations br e False of
          Inl err \<Rightarrow> (Inl err, br)
        | Inr ws \<Rightarrow>
           (case transforms br e transform_order [NO_FALLBACK] (if ws = [] then Some e else None) of
              Inl err \<Rightarrow> (Inl err, br)
            | Inr (Found a alt attempts) \<Rightarrow> admitted now fresh e alt a attempts rid br
            | Inr (Exhausted attempts cand) \<Rightarrow>
                admit_after_transforms now fresh e rid br attempts cand))"

definition release :: "rat \<Rightarrow> reservation \<Rightarrow> broker \<Rightarrow> (broker_error + bool) \<times> broker" where
  "release now r br =
    (case map_of (b_reservations br) (r_id r) of
       None \<Rightarrow> (Inr False, br)
     | Some active \<Rightarrow>
         if r_ref active \<noteq> r_ref r then (Inr False, br)
         else let br1 = br\<lparr>b_reservations := AList.delete (r_id r) (b_reservations br),
                           b_released := r_ref r # b_released br\<rparr>
           in case observe_pressure now br1 of
                (Inl err, br2) \<Rightarrow> (Inl err, br2)
              | (Inr _, br2) \<Rightarrow> (Inr True, br2))"

definition released :: "reservation \<Rightarrow> broker \<Rightarrow> bool" where
  "released r br = (r_ref r \<in> set (b_released br))"

text \<open>The context manager of a reservation: \<open>__enter__\<close> and \<open>__exit__\<close>.\<close>

definition reservation_enter :: "reservation \<Rightarrow> broker \<Rightarrow> broker_error + reservation" where
  "reservation_enter r br =
    (if released r br then Inl (BRuntimeError ''cannot enter a released reservation'') else Inr r)"

definition reservation_exit :: "rat \<Rightarrow> reservation \<Rightarrow> broker \<Rightarrow> (broker_error + unit) \<times> broker" where
  "reservation_exit now r br = (case release now r br of (Inl e, br') \<Rightarrow> (Inl e, br') | (Inr _, br') \<Rightarrow> (Inr (), br'))"

definition drain_pressure_events :: "broker \<Rightarrow> pressure_event list \<times> broker" where
  "drain_pressure_events br = (b_events br, br\<lparr>b_events := []\<rparr>)"

definition active_reservations :: "broker \<Rightarrow> reservation list" where
  "active_reservations br = dvalues (b_reservations br)"

section \<open>Accounting\<close>

definition active :: "broker \<Rightarrow> estimate list" where
  "active br = map r_estimate (dvalues (b_reservations br))"

definition tot :: "(estimate \<Rightarrow> int) \<Rightarrow> estimate list \<Rightarrow> int" where
  "tot f es = sum_list (map f es)"

definition on_gpu :: "int \<Rightarrow> (estimate \<Rightarrow> int) \<Rightarrow> estimate \<Rightarrow> int" where
  "on_gpu i f e = (if e_gpu_index e = Some i then f e else 0)"

text \<open>What is left of the limits, computed with no clamping.\<close>

definition free_limits :: "broker \<Rightarrow> limits" where
  "free_limits br = (let l = b_limits br; es = active br in
     \<lparr>l_cpu_cores = l_cpu_cores l - tot e_cpu_cores es,
      l_ram_bytes = l_ram_bytes l - tot e_ram_bytes es,
      l_vram_mb_by_gpu = map (\<lambda>(i, v). (i, v - tot (on_gpu i e_vram_mb) es)) (l_vram_mb_by_gpu l),
      l_pinned_ram_bytes = l_pinned_ram_bytes l - tot e_pinned_ram_bytes es,
      l_concurrent_reads = l_concurrent_reads l - tot e_concurrent_reads es,
      l_concurrent_writes = l_concurrent_writes l - tot e_concurrent_writes es,
      l_heavy_jobs_by_gpu = map (\<lambda>(i, v). (i, v - tot (on_gpu i heavy_count) es)) (l_heavy_jobs_by_gpu l)\<rparr>)"

definition fits :: "limits \<Rightarrow> estimate \<Rightarrow> bool" where
  "fits l e = (e_cpu_cores e \<le> l_cpu_cores l \<and> e_ram_bytes e \<le> l_ram_bytes l
     \<and> e_pinned_ram_bytes e \<le> l_pinned_ram_bytes l \<and> e_concurrent_reads e \<le> l_concurrent_reads l
     \<and> e_concurrent_writes e \<le> l_concurrent_writes l
     \<and> (case e_gpu_index e of None \<Rightarrow> True
        | Some i \<Rightarrow> (case (l_vram_mb l i, l_heavy_jobs l i) of
            (Some v, Some h) \<Rightarrow> e_vram_mb e \<le> v \<and> heavy_count e \<le> max 0 h | _ \<Rightarrow> False)))"

text \<open>The invariant: valid limits, distinct live reservations, and every budget respected.\<close>

definition within_limits :: "limits \<Rightarrow> estimate list \<Rightarrow> bool" where
  "within_limits l es = (tot e_cpu_cores es \<le> l_cpu_cores l \<and> tot e_ram_bytes es \<le> l_ram_bytes l
     \<and> tot e_pinned_ram_bytes es \<le> l_pinned_ram_bytes l
     \<and> tot e_concurrent_reads es \<le> l_concurrent_reads l
     \<and> tot e_concurrent_writes es \<le> l_concurrent_writes l
     \<and> (\<forall>(i, v) \<in> set (l_vram_mb_by_gpu l). tot (on_gpu i e_vram_mb) es \<le> v)
     \<and> (\<forall>(i, v) \<in> set (l_heavy_jobs_by_gpu l). tot (on_gpu i heavy_count) es \<le> v)
     \<and> (\<forall>e \<in> set es. \<forall>i. e_gpu_index e = Some i \<longrightarrow> i \<in> fst ` set (l_vram_mb_by_gpu l)))"

definition binv :: "broker \<Rightarrow> bool" where
  "binv br = (is_ok (limits_post_init (b_limits br)) \<and> wf_dict (b_reservations br)
     \<and> (\<forall>(k, r) \<in> set (b_reservations br). k = r_id r \<and> valid_estimate (r_estimate r)
          \<and> r_ref r < b_next_ref br \<and> r_ref r \<notin> set (b_released br))
     \<and> distinct (map r_ref (dvalues (b_reservations br)))
     \<and> (\<forall>a \<in> set (b_released br). a < b_next_ref br)
     \<and> within_limits (b_limits br) (active br))"

lemma tot_simps [simp]: "tot f [] = 0" "tot f (e # es) = f e + tot f es"
  "tot f (es @ fs) = tot f es + tot f fs"
  by (simp_all add: tot_def)

lemma tot_nonneg: "(\<And>e. e \<in> set es \<Longrightarrow> 0 \<le> f e) \<Longrightarrow> 0 \<le> tot f es"
  unfolding tot_def by (rule sum_list_map_nonneg)

lemma bv_Inr_iff [simp]: "bv r = Inr x \<longleftrightarrow> r = Inr x"
  by (simp add: bv_def split: sum.splits)

lemma bv_Inr [simp]: "bv (Inr x) = Inr x"
  by (simp add: bv_def)

lemma binv_active_valid: "binv br \<Longrightarrow> e \<in> set (active br) \<Longrightarrow> valid_estimate e"
  by (auto simp: binv_def active_def)

lemma add_at_known:
  assumes "wf_dict d" and "i \<in> fst ` set d"
  shows "add_at i x d = Inr (map (\<lambda>(j, w). (j, if j = i then w + x else w)) d)"
proof -
  obtain v where v: "map_of d i = Some v"
    using assms(2) by (metis map_of_eq_None_iff option.exhaust)
  have "AList.update i (v + x) d = map (\<lambda>(j, w). (j, if j = i then v + x else w)) d"
    using assms by (intro update_present) auto
  also have "\<dots> = map (\<lambda>(j, w). (j, if j = i then w + x else w)) d"
    using v assms(1) by (intro map_cong) (auto simp: map_of_Some_iff dest: eq_key_imp_eq_value)
  finally show ?thesis using v by (simp add: add_at_def)
qed

lemma used_fold_eq:
  assumes "wf_dict (u_vram u)" and "map fst (u_heavy u) = map fst (u_vram u)"
    and "\<And>e i. e \<in> set es \<Longrightarrow> e_gpu_index e = Some i \<Longrightarrow> i \<in> fst ` set (u_vram u)"
  shows "used_fold u es = Inr
    \<lparr>u_cpu = u_cpu u + tot e_cpu_cores es, u_ram = u_ram u + tot e_ram_bytes es,
     u_pinned = u_pinned u + tot e_pinned_ram_bytes es,
     u_reads = u_reads u + tot e_concurrent_reads es,
     u_writes = u_writes u + tot e_concurrent_writes es,
     u_vram = map (\<lambda>(i, v). (i, v + tot (on_gpu i e_vram_mb) es)) (u_vram u),
     u_heavy = map (\<lambda>(i, v). (i, v + tot (on_gpu i heavy_count) es)) (u_heavy u)\<rparr>"
  using assms
proof (induction es arbitrary: u)
  case Nil
  then show ?case by (cases u) (simp add: case_prod_unfold)
next
  case (Cons e es)
  show ?case
  proof (cases "e_gpu_index e")
    case None
    have E: "used_fold u (e # es) = used_fold (u\<lparr>u_cpu := u_cpu u + e_cpu_cores e,
        u_ram := u_ram u + e_ram_bytes e, u_pinned := u_pinned u + e_pinned_ram_bytes e,
        u_reads := u_reads u + e_concurrent_reads e, u_writes := u_writes u + e_concurrent_writes e\<rparr>) es"
      using None by simp
    show ?thesis unfolding E
      by (subst Cons.IH) (use Cons.prems None in \<open>auto simp: on_gpu_def\<close>)
  next
    case (Some i)
    have i: "i \<in> fst ` set (u_vram u)" using Cons.prems(3) Some by auto
    have i': "i \<in> fst ` set (u_heavy u)" using i Cons.prems(2) by (metis list.set_map)
    have w': "wf_dict (u_heavy u)" using Cons.prems(1,2) by simp
    let ?u = "u\<lparr>u_cpu := u_cpu u + e_cpu_cores e,
        u_ram := u_ram u + e_ram_bytes e, u_pinned := u_pinned u + e_pinned_ram_bytes e,
        u_reads := u_reads u + e_concurrent_reads e, u_writes := u_writes u + e_concurrent_writes e,
        u_vram := map (\<lambda>(j, w). (j, if j = i then w + e_vram_mb e else w)) (u_vram u),
        u_heavy := map (\<lambda>(j, w). (j, if j = i then w + heavy_count e else w)) (u_heavy u)\<rparr>"
    have E: "used_fold u (e # es) = used_fold ?u es"
      using Some by (simp add: add_at_known [OF Cons.prems(1) i] add_at_known [OF w' i'])
    have "wf_dict (u_vram ?u)" "map fst (u_heavy ?u) = map fst (u_vram ?u)"
      using Cons.prems(1,2) by simp_all
    moreover have "\<And>e i. e \<in> set es \<Longrightarrow> e_gpu_index e = Some i \<Longrightarrow> i \<in> fst ` set (u_vram ?u)"
      by simp (metis Cons.prems(3) list.set_intros(2))
    ultimately show ?thesis using Cons.IH [of ?u] unfolding E using Some
      by (auto simp: on_gpu_def comp_def split_def)
  qed
qed

lemma binv_used:
  assumes "binv br"
  shows "used br = Inr
    \<lparr>u_cpu = tot e_cpu_cores (active br), u_ram = tot e_ram_bytes (active br),
     u_pinned = tot e_pinned_ram_bytes (active br),
     u_reads = tot e_concurrent_reads (active br),
     u_writes = tot e_concurrent_writes (active br),
     u_vram = map (\<lambda>(i, _). (i, tot (on_gpu i e_vram_mb) (active br))) (l_vram_mb_by_gpu (b_limits br)),
     u_heavy = map (\<lambda>(i, _). (i, tot (on_gpu i heavy_count) (active br))) (l_heavy_jobs_by_gpu (b_limits br))\<rparr>"
proof -
  from assms have L: "wf_dict (l_vram_mb_by_gpu (b_limits br))"
      "map fst (l_heavy_jobs_by_gpu (b_limits br)) = map fst (l_vram_mb_by_gpu (b_limits br))"
    by (auto simp: binv_def limits_post_init_ok)
  from assms have "e \<in> set (active br) \<Longrightarrow> e_gpu_index e = Some i \<Longrightarrow>
      i \<in> fst ` set (l_vram_mb_by_gpu (b_limits br))" for e i
    by (simp add: binv_def within_limits_def)
  with L have "used_fold (no_usage (b_limits br)) (active br) = Inr
     (no_usage (b_limits br)\<lparr>u_cpu := tot e_cpu_cores (active br), u_ram := tot e_ram_bytes (active br),
       u_pinned := tot e_pinned_ram_bytes (active br), u_reads := tot e_concurrent_reads (active br),
       u_writes := tot e_concurrent_writes (active br),
       u_vram := map (\<lambda>(i, v). (i, v + tot (on_gpu i e_vram_mb) (active br))) (u_vram (no_usage (b_limits br))),
       u_heavy := map (\<lambda>(i, v). (i, v + tot (on_gpu i heavy_count) (active br))) (u_heavy (no_usage (b_limits br)))\<rparr>)"
    by (subst used_fold_eq) (simp_all add: no_usage_def)
  then show ?thesis
    unfolding used_def active_def [symmetric] by (simp add: no_usage_def split_def comp_def)
qed

lemma within_limitsD:
  assumes "within_limits l es"
  shows "tot e_cpu_cores es \<le> l_cpu_cores l" "tot e_ram_bytes es \<le> l_ram_bytes l"
    "tot e_pinned_ram_bytes es \<le> l_pinned_ram_bytes l"
    "tot e_concurrent_reads es \<le> l_concurrent_reads l"
    "tot e_concurrent_writes es \<le> l_concurrent_writes l"
    "(i, v) \<in> set (l_vram_mb_by_gpu l) \<Longrightarrow> tot (on_gpu i e_vram_mb) es \<le> v"
    "(i, v) \<in> set (l_heavy_jobs_by_gpu l) \<Longrightarrow> tot (on_gpu i heavy_count) es \<le> v"
  using assms by (auto simp: within_limits_def)

lemma free_limits_valid:
  assumes "binv br"
  shows "is_ok (limits_post_init (free_limits br))"
proof -
  from assms have "is_ok (limits_post_init (b_limits br))" "within_limits (b_limits br) (active br)"
    by (simp_all add: binv_def)
  then show ?thesis
    by (auto simp: limits_post_init_ok free_limits_def Let_def within_limits_def split_beta)
qed

lemma available_eq:
  assumes inv: "binv br"
  shows "available br = Inr (free_limits br)"
proof -
  let ?l = "b_limits br" and ?es = "active br"
  from inv have ok: "is_ok (limits_post_init ?l)" and W: "within_limits ?l ?es"
    by (simp_all add: binv_def)
  have sub: "rmap (subtract_at (map (\<lambda>(i, u). (i, g i)) d)) d = Inr (map (\<lambda>(i, v). (i, v - g i)) d)"
    if "wf_dict d" "\<And>i v. (i, v) \<in> set d \<Longrightarrow> g i \<le> v" for g :: "int \<Rightarrow> int" and d
  proof (rule rmap_map)
    fix p assume p: "p \<in> set d"
    then have "map_of d (fst p) = Some (snd p)" using that(1) by (simp add: map_of_Some_iff)
    moreover have "g (fst p) \<le> snd p" using that(2) p by (metis prod.collapse)
    ultimately show "subtract_at (map (\<lambda>(i, u). (i, g i)) d) p = Inr (case p of (i, v) \<Rightarrow> (i, v - g i))"
      using map_of_map_pair [of "\<lambda>i u. g i" d "fst p"] by (simp add: subtract_at_def split_beta)
  qed
  have wf: "wf_dict (l_vram_mb_by_gpu ?l)" "wf_dict (l_heavy_jobs_by_gpu ?l)"
    using ok by (auto simp: limits_post_init_ok)
  obtain x where "limits_post_init (free_limits br) = Inr x"
    using free_limits_valid [OF inv] by (auto simp: is_ok_iff)
  then have fl: "limits_post_init (free_limits br) = Inr (free_limits br)"
    using limits_post_init_InrD by blast
  note le = within_limitsD(1-5) [OF W]
  have cpu: "(if 0 < l_cpu_cores ?l - tot e_cpu_cores ?es
      then max 1 (l_cpu_cores ?l - tot e_cpu_cores ?es) else 0) = l_cpu_cores ?l - tot e_cpu_cores ?es"
    using le(1) by auto
  have pos: "max 0 (a - b) = a - b" if "b \<le> a" for a b :: int
    using that by auto
  have vram: "rmap (subtract_at (map (\<lambda>(i, _). (i, tot (on_gpu i e_vram_mb) ?es)) (l_vram_mb_by_gpu ?l)))
      (l_vram_mb_by_gpu ?l) = Inr (map (\<lambda>(i, v). (i, v - tot (on_gpu i e_vram_mb) ?es)) (l_vram_mb_by_gpu ?l))"
    using wf W by (intro sub) (auto dest: within_limitsD)
  have heavy: "rmap (subtract_at (map (\<lambda>(i, _). (i, tot (on_gpu i heavy_count) ?es)) (l_heavy_jobs_by_gpu ?l)))
      (l_heavy_jobs_by_gpu ?l) = Inr (map (\<lambda>(i, v). (i, v - tot (on_gpu i heavy_count) ?es)) (l_heavy_jobs_by_gpu ?l))"
    using wf W by (intro sub) (auto dest: within_limitsD)
  show ?thesis
    unfolding available_def Let_def binv_used [OF inv] rbind_simps usage.simps vram heavy cpu
      pos [OF le(2)] pos [OF le(3)] pos [OF le(4)] pos [OF le(5)]
    using fl unfolding free_limits_def Let_def by (simp only: bv_Inr)
qed

lemma raw_diagnostics_empty: "raw_diagnostics ac st l e = [] \<longleftrightarrow> fits l e"
  by (auto simp: raw_diagnostics_def fits_def Let_def heavy_count_def split: option.splits)

lemma map_of_pairs_nonneg:
  "(\<forall>(i, v) \<in> set d. 0 \<le> i \<and> 0 \<le> v) \<Longrightarrow> map_of d i = Some v \<Longrightarrow> (0::int) \<le> v"
  by (auto dest: map_of_SomeD)

lemma raw_diagnostics_valid:
  assumes "is_ok (limits_post_init l)" and "valid_estimate e"
    and "v \<in> set (raw_diagnostics ac st l e)"
  shows "violation_post_init v = Inr v"
proof -
  note E = valid_estimateD [OF assms(2)]
  have L: "0 \<le> l_cpu_cores l" "0 \<le> l_ram_bytes l" "0 \<le> l_pinned_ram_bytes l"
      "0 \<le> l_concurrent_reads l" "0 \<le> l_concurrent_writes l"
      "\<And>i v. l_vram_mb l i = Some v \<Longrightarrow> 0 \<le> v" "\<And>i v. l_heavy_jobs l i = Some v \<Longrightarrow> 0 \<le> v"
    using assms(1) by (auto simp: limits_post_init_ok l_vram_mb_map_of l_heavy_jobs_map_of
        intro: map_of_pairs_nonneg)
  have mem: "x \<in> set (if c then [y] else []) \<longleftrightarrow> c \<and> x = y"
      "x \<in> set [y] \<longleftrightarrow> x = y" for x y :: violation and c
    by auto
  have plain: "violation_post_init \<lparr>v_code = c, v_requested = q, v_available = Some a, v_transient = t,
        v_gpu_index = None\<rparr> = Inr \<lparr>v_code = c, v_requested = q, v_available = Some a,
        v_transient = t, v_gpu_index = None\<rparr>"
    if "c \<notin> {V_GPU_UNAVAILABLE, V_GPU_VRAM, V_GPU_HEAVY_JOBS}" "0 \<le> q" "0 \<le> a" for c q a t
    using that by (simp add: violation_post_init_def rbind_Inr_iff)
  have onto: "violation_post_init \<lparr>v_code = c, v_requested = q, v_available = a, v_transient = t,
        v_gpu_index = Some i\<rparr> = Inr \<lparr>v_code = c, v_requested = q, v_available = a,
        v_transient = t, v_gpu_index = Some i\<rparr>"
    if "c \<in> {V_GPU_UNAVAILABLE, V_GPU_VRAM, V_GPU_HEAVY_JOBS}" "0 \<le> q" "\<forall>x. a = Some x \<longrightarrow> 0 \<le> x" "0 \<le> i" for c q a t i
    using that by (auto simp: violation_post_init_def rbind_Inr_iff split: option.splits)
  show ?thesis
  proof (cases "e_gpu_index e")
    case None
    with assms(3) E(1-6) L(1-5) show ?thesis
      by (auto simp: raw_diagnostics_def Let_def mem simp del: list.set intro!: plain)
  next
    case (Some i)
    note G = E(7) [OF Some]
    show ?thesis
      using assms(3) E(1-6) L(1-5) L(6) [of i] L(7) [of i] G Some
      by (cases "l_vram_mb l i"; cases "l_heavy_jobs l i")
        (auto simp: raw_diagnostics_def Let_def mem simp del: list.set intro!: plain onto)
  qed
qed

lemma diagnostics_eq:
  assumes "binv br" and "valid_estimate e"
  shows "diagnostics br e ac = Inr (raw_diagnostics ac (b_limits br)
    (if ac then free_limits br else b_limits br) e)"
proof -
  have "is_ok (limits_post_init (if ac then free_limits br else b_limits br))"
    using assms(1) free_limits_valid by (simp add: binv_def)
  from raw_diagnostics_valid [OF this assms(2)] show ?thesis
    using available_eq [OF assms(1)] by (auto simp: diagnostics_def intro!: rmap_id)
qed

lemma violations_eq:
  assumes "binv br" and "valid_estimate e"
  shows "\<exists>vs. violations br e ac = Inr vs
    \<and> (vs = [] \<longleftrightarrow> fits (if ac then free_limits br else b_limits br) e)"
  using diagnostics_eq [OF assms, of ac] by (simp add: violations_def raw_diagnostics_empty)

section \<open>Pressure after a change\<close>

definition budget_samples :: "broker \<Rightarrow> (pressure_kind \<times> int \<times> int \<times> int option) list" where
  "budget_samples br = (let l = b_limits br; es = active br in
     [(P_CPU, tot e_cpu_cores es, l_cpu_cores l, None),
      (P_MEMORY, tot e_ram_bytes es, l_ram_bytes l, None),
      (P_PINNED_MEMORY, tot e_pinned_ram_bytes es, l_pinned_ram_bytes l, None),
      (P_IO_READ, tot e_concurrent_reads es, l_concurrent_reads l, None),
      (P_IO_WRITE, tot e_concurrent_writes es, l_concurrent_writes l, None)]
     @ map (\<lambda>(i, v). (P_GPU, tot (on_gpu i e_vram_mb) es, v, Some i)) (l_vram_mb_by_gpu l))"

definition sample_of :: "pressure_kind \<times> int \<times> int \<times> int option \<Rightarrow> pressure_sample" where
  "sample_of s = (case s of (k, u, mx, d) \<Rightarrow>
     \<lparr>ps_kind = k, ps_used = u, ps_limit = mx, ps_device = d\<rparr>)"

definition live_samples :: "broker \<Rightarrow> pressure_sample list" where
  "live_samples br = map sample_of (filter (\<lambda>(k, u, mx, d). 1 \<le> mx) (budget_samples br))"

lemma pressure_samples_eq:
  assumes inv: "binv br"
  shows "pressure_samples br = Inr (budget_samples br)"
proof -
  let ?l = "b_limits br"
  have wf: "wf_dict (l_vram_mb_by_gpu ?l)"
    using inv by (auto simp: binv_def limits_post_init_ok)
  have "rmap (\<lambda>(i, mx). case map_of (map (\<lambda>(i, _). (i, tot (on_gpu i e_vram_mb) (active br)))
        (l_vram_mb_by_gpu ?l)) i of None \<Rightarrow> Inl (BKeyError i) | Some v \<Rightarrow> Inr (P_GPU, v, mx, Some i))
      (l_vram_mb_by_gpu ?l)
    = Inr (map (\<lambda>(i, v). (P_GPU, tot (on_gpu i e_vram_mb) (active br), v, Some i)) (l_vram_mb_by_gpu ?l))"
  proof (rule rmap_map)
    fix p assume "p \<in> set (l_vram_mb_by_gpu ?l)"
    then have "map_of (l_vram_mb_by_gpu ?l) (fst p) = Some (snd p)"
      using wf by (simp add: map_of_Some_iff)
    then show "(case p of (i, mx) \<Rightarrow> case map_of (map (\<lambda>(i, _). (i, tot (on_gpu i e_vram_mb) (active br)))
        (l_vram_mb_by_gpu ?l)) i of None \<Rightarrow> Inl (BKeyError i) | Some v \<Rightarrow> Inr (P_GPU, v, mx, Some i))
      = Inr (case p of (i, v) \<Rightarrow> (P_GPU, tot (on_gpu i e_vram_mb) (active br), v, Some i))"
      by (cases p) (simp add: map_of_map_pair [of "\<lambda>i _. tot (on_gpu i e_vram_mb) (active br)"])
  qed
  then show ?thesis
    unfolding pressure_samples_def Let_def binv_used [OF inv] rbind_simps usage.simps
    by (simp add: budget_samples_def Let_def)
qed

lemma observe_samples_eq:
  assumes "\<And>k u mx d. (k, u, mx, d) \<in> set ss \<Longrightarrow>
    0 \<le> u \<and> (case d of None \<Rightarrow> k \<noteq> P_GPU | Some i \<Rightarrow> k = P_GPU \<and> 0 \<le> i)"
  shows "observe_samples now ss br = (let
      ps = map sample_of (filter (\<lambda>(k, u, mx, d). 1 \<le> mx) ss);
      r = observe_all now ps (b_monitor br)
    in (Inr (), br\<lparr>b_monitor := snd r, b_events := b_events br @ fst r\<rparr>))"
  using assms
proof (induction ss arbitrary: br)
  case (Cons s ss)
  obtain k u mx d where s: "s = (k, u, mx, d)" by (cases s)
  have IH: "observe_samples now ss br' = (let
      ps = map sample_of (filter (\<lambda>(k, u, mx, d). 1 \<le> mx) ss);
      r = observe_all now ps (b_monitor br')
    in (Inr (), br'\<lparr>b_monitor := snd r, b_events := b_events br' @ fst r\<rparr>))" for br'
    using Cons.prems by (intro Cons.IH) auto
  have ok: "sample_post_init (sample_of s) = Inr (sample_of s)" if "1 \<le> mx"
    using Cons.prems [of k u mx d] that
    by (auto simp: s sample_of_def sample_post_init_def rbind_Inr_iff split: option.splits)
  show ?case
  proof (cases "mx < 1")
    case True
    then show ?thesis by (simp add: s IH)
  next
    case False
    obtain ev m where ob: "observe now (sample_of s) (b_monitor br) = (ev, m)"
      by (cases "observe now (sample_of s) (b_monitor br)")
    obtain es m2 where obs: "observe_all now (map sample_of (filter (\<lambda>(k, u, mx, d). 1 \<le> mx) ss)) m = (es, m2)"
      by (cases "observe_all now (map sample_of (filter (\<lambda>(k, u, mx, d). 1 \<le> mx) ss)) m")
    have so: "\<lparr>ps_kind = k, ps_used = u, ps_limit = mx, ps_device = d\<rparr> = sample_of s"
      by (simp add: s sample_of_def)
    from False ok ob obs show ?thesis
      by (simp add: s IH Let_def so [unfolded s])
  qed
qed simp

lemma budget_samples_valid:
  assumes inv: "binv br" and mem: "(k, u, mx, d) \<in> set (budget_samples br)"
  shows "0 \<le> u \<and> (case d of None \<Rightarrow> k \<noteq> P_GPU | Some i \<Rightarrow> k = P_GPU \<and> 0 \<le> i)"
proof -
  have nn: "0 \<le> tot f (active br)" if "\<And>e. valid_estimate e \<Longrightarrow> 0 \<le> f e" for f
    using that binv_active_valid [OF inv] by (intro tot_nonneg) auto
  have "0 \<le> e_cpu_cores e \<and> 0 \<le> e_ram_bytes e \<and> 0 \<le> e_pinned_ram_bytes e \<and> 0 \<le> e_concurrent_reads e
      \<and> 0 \<le> e_concurrent_writes e \<and> 0 \<le> on_gpu i e_vram_mb e" if "valid_estimate e" for e i
    using valid_estimateD [OF that] by (simp add: on_gpu_def)
  then have "0 \<le> tot e_cpu_cores (active br)" "0 \<le> tot e_ram_bytes (active br)"
    "0 \<le> tot e_pinned_ram_bytes (active br)" "0 \<le> tot e_concurrent_reads (active br)"
    "0 \<le> tot e_concurrent_writes (active br)" "0 \<le> tot (on_gpu i e_vram_mb) (active br)" for i
    by (blast intro: nn)+
  moreover have "\<forall>(i, v) \<in> set (l_vram_mb_by_gpu (b_limits br)). 0 \<le> i"
    using inv by (auto simp: binv_def limits_post_init_ok)
  ultimately show ?thesis
    using mem by (auto simp: budget_samples_def Let_def)
qed

lemma observe_pressure_eq:
  assumes "binv br"
  shows "observe_pressure now br = (let r = observe_all now (live_samples br) (b_monitor br)
    in (Inr (), br\<lparr>b_monitor := snd r, b_events := b_events br @ fst r\<rparr>))"
  using observe_samples_eq [OF budget_samples_valid [OF assms]] assms
  by (simp add: observe_pressure_def pressure_samples_eq live_samples_def Let_def)

text \<open>Every budget of at least one unit is metered at its current usage.\<close>

definition metered :: "broker \<Rightarrow> bool" where
  "metered br = (\<forall>p \<in> set (live_samples br).
     monitor_level (b_monitor br) (ps_kind p) (ps_device p)
       = classify (pm_thresholds (b_monitor br)) (ps_ratio p))"

lemma binv_observed [simp]: "binv (br\<lparr>b_monitor := m, b_events := es\<rparr>) \<longleftrightarrow> binv br"
  by (simp add: binv_def active_def)

lemma live_samples_observed [simp]: "live_samples (br\<lparr>b_monitor := m, b_events := es\<rparr>) = live_samples br"
  by (simp add: live_samples_def budget_samples_def active_def)

lemma live_samples_distinct:
  assumes "binv br"
  shows "distinct (map (\<lambda>p. (ps_kind p, ps_device p)) (live_samples br))"
proof -
  let ?key = "\<lambda>(k, u, mx, d). (k, d)"
  have wf: "wf_dict (l_vram_mb_by_gpu (b_limits br))"
    using assms by (auto simp: binv_def limits_post_init_ok)
  have "map ?key (map (\<lambda>(i, v). (P_GPU, f i, v, Some i)) d) = map (\<lambda>i. (P_GPU, Some i)) (map fst d)"
    for f :: "int \<Rightarrow> int" and d :: "(int \<times> int) list"
    by auto
  with wf have "distinct (map ?key (budget_samples br))"
    by (auto simp: budget_samples_def Let_def distinct_map inj_on_def)
  then have "distinct (map ?key (filter (\<lambda>(k, u, mx, d). 1 \<le> mx) (budget_samples br)))"
    by (rule distinct_map_filter)
  also have "map ?key (filter (\<lambda>(k, u, mx, d). 1 \<le> mx) (budget_samples br))
      = map (\<lambda>p. (ps_kind p, ps_device p)) (live_samples br)"
    by (auto simp: live_samples_def sample_of_def)
  finally show ?thesis .
qed

lemma find_distinct_key:
  "distinct (map f xs) \<Longrightarrow> x \<in> set xs \<Longrightarrow> List.find (\<lambda>y. f y = f x) xs = Some x"
  by (induction xs) (auto simp: image_iff)

lemma metered_observed:
  assumes "binv br"
  shows "metered (snd (observe_pressure now br))"
proof -
  have "monitor_level (snd (observe_all now (live_samples br) m)) (ps_kind p) (ps_device p)
      = classify (pm_thresholds m) (ps_ratio p)" if "p \<in> set (live_samples br)" for p m
    using monitor_level_observe_all [OF live_samples_distinct [OF assms], of now m "ps_kind p" "ps_device p"]
      find_distinct_key [OF live_samples_distinct [OF assms] that]
    by simp
  then show ?thesis
    using assms by (simp add: metered_def observe_pressure_eq Let_def)
qed

section \<open>Reserving and releasing\<close>

lemma within_limits_add:
  assumes inv: "binv br" and fit: "fits (free_limits br) e"
  shows "within_limits (b_limits br) (active br @ [e])"
proof -
  let ?l = "b_limits br" and ?es = "active br"
  from inv have ok: "is_ok (limits_post_init ?l)" and W: "within_limits ?l ?es"
    by (simp_all add: binv_def)
  from ok have wf: "wf_dict (l_vram_mb_by_gpu ?l)" "wf_dict (l_heavy_jobs_by_gpu ?l)"
    by (auto simp: limits_post_init_ok)
  have vram: "tot (on_gpu i e_vram_mb) ?es + e_vram_mb e \<le> v"
    if "e_gpu_index e = Some i" "(i, v) \<in> set (l_vram_mb_by_gpu ?l)" for i v
    using fit that wf by (auto simp: fits_def free_limits_def Let_def l_vram_mb_map_of map_of_map_pair
        map_of_Some_iff split: option.splits dest: eq_key_imp_eq_value)
  have heavy: "tot (on_gpu i heavy_count) ?es + heavy_count e \<le> v"
    if g: "e_gpu_index e = Some i" and m: "(i, v) \<in> set (l_heavy_jobs_by_gpu ?l)" for i v
  proof -
    have "map_of (l_heavy_jobs_by_gpu ?l) i = Some v" using m wf by (simp add: map_of_Some_iff)
    moreover have "tot (on_gpu i heavy_count) ?es \<le> v" using within_limitsD(7) [OF W m] .
    ultimately show ?thesis
      using fit g by (auto simp: fits_def free_limits_def Let_def l_heavy_jobs_map_of map_of_map_pair
          split: option.splits)
  qed
  have gpu: "i \<in> fst ` set (l_vram_mb_by_gpu ?l)" if "e_gpu_index e = Some i" for i
    using fit that by (auto simp: fits_def free_limits_def Let_def l_vram_mb_map_of map_of_map_pair
        split: option.splits dest!: map_of_SomeD intro: rev_image_eqI)
  have "tot e_cpu_cores ?es + e_cpu_cores e \<le> l_cpu_cores ?l"
      "tot e_ram_bytes ?es + e_ram_bytes e \<le> l_ram_bytes ?l"
      "tot e_pinned_ram_bytes ?es + e_pinned_ram_bytes e \<le> l_pinned_ram_bytes ?l"
      "tot e_concurrent_reads ?es + e_concurrent_reads e \<le> l_concurrent_reads ?l"
      "tot e_concurrent_writes ?es + e_concurrent_writes e \<le> l_concurrent_writes ?l"
    using fit by (simp_all add: fits_def free_limits_def Let_def)
  moreover have "tot (on_gpu i e_vram_mb) ?es + on_gpu i e_vram_mb e \<le> v"
    if "(i, v) \<in> set (l_vram_mb_by_gpu ?l)" for i v
    using vram [OF _ that] within_limitsD(6) [OF W that] by (auto simp: on_gpu_def)
  moreover have "tot (on_gpu i heavy_count) ?es + on_gpu i heavy_count e \<le> v"
    if "(i, v) \<in> set (l_heavy_jobs_by_gpu ?l)" for i v
    using heavy [OF _ that] within_limitsD(7) [OF W that] by (auto simp: on_gpu_def)
  ultimately show ?thesis
    using W gpu by (auto simp: within_limits_def)
qed

definition added :: "broker \<Rightarrow> uuid \<Rightarrow> estimate \<Rightarrow> reservation" where
  "added br i e = \<lparr>r_ref = b_next_ref br, r_id = i, r_estimate = e\<rparr>"

lemma binv_reserved:
  assumes inv: "binv br" and e: "valid_estimate e" "fits (free_limits br) e"
    and fresh: "i \<notin> set (dkeys (b_reservations br))"
  shows "binv (br\<lparr>b_reservations := AList.update i (added br i e) (b_reservations br),
    b_next_ref := b_next_ref br + 1\<rparr>)"
proof -
  have "within_limits (b_limits br) (active br @ [e])"
    by (rule within_limits_add [OF inv e(2)])
  moreover have "b_next_ref br \<notin> r_ref ` snd ` set (b_reservations br)"
    using inv by (fastforce simp: binv_def)
  moreover have "b_next_ref br \<notin> set (b_released br)"
    using inv by (auto simp: binv_def)
  ultimately show ?thesis
    using inv e(1) fresh
    by (auto simp: binv_def active_def update_new added_def comp_def image_image less_Suc_eq)
qed

lemma reserve_ok:
  assumes inv: "binv br" and e: "valid_estimate e" "fits (free_limits br) e"
    and i: "i = (case rid of None \<Rightarrow> fresh | Some j \<Rightarrow> j)" and new: "i \<notin> set (dkeys (b_reservations br))"
  obtains br' where "reserve now fresh e rid br = (Inr (added br i e), br')" "binv br'" "metered br'"
    "b_reservations br' = b_reservations br @ [(i, added br i e)]" "b_limits br' = b_limits br"
    "b_released br' = b_released br"
proof -
  let ?br1 = "br\<lparr>b_reservations := AList.update i (added br i e) (b_reservations br),
    b_next_ref := b_next_ref br + 1\<rparr>"
  note inv1 = binv_reserved [OF inv e new]
  obtain br2 where op: "observe_pressure now ?br1 = (Inr (), br2)"
    using observe_pressure_eq [OF inv1] by (simp add: Let_def)
  then have br2: "br2 = snd (observe_pressure now ?br1)" by simp
  have "reserve now fresh e rid br = (Inr (added br i e), br2)"
    using new op by (simp add: reserve_def i [symmetric] added_def Let_def)
  moreover have "binv br2" "b_reservations br2 = b_reservations br @ [(i, added br i e)]"
      "b_limits br2 = b_limits br" "b_released br2 = b_released br"
    using inv1 new unfolding br2 observe_pressure_eq [OF inv1]
    by (simp_all add: Let_def update_new)
  moreover have "metered br2" unfolding br2 by (rule metered_observed [OF inv1])
  ultimately show thesis using that by blast
qed

lemma reserve_duplicate:
  assumes "i = (case rid of None \<Rightarrow> fresh | Some j \<Rightarrow> j)" and "i \<in> set (dkeys (b_reservations br))"
  shows "reserve now fresh e rid br = (Inl (BReservationExists i), br)"
  using assms by (simp add: reserve_def Let_def)

lemma tot_delete:
  assumes "wf_dict d" and "map_of d k = Some r"
  shows "tot f (map r_estimate (dvalues (AList.delete k d))) = tot f (map r_estimate (dvalues d)) - f (r_estimate r)"
  using sum_values_delete [OF assms, of "f \<circ> r_estimate"] by (simp add: tot_def comp_assoc)

lemma binv_released:
  assumes inv: "binv br" and k: "map_of (b_reservations br) k = Some r"
  shows "binv (br\<lparr>b_reservations := AList.delete k (b_reservations br), b_released := r_ref r # b_released br\<rparr>)"
proof -
  let ?d = "b_reservations br" and ?d' = "AList.delete k (b_reservations br)"
  from inv have wf: "wf_dict ?d" by (simp add: binv_def)
  have mem: "(k, r) \<in> set ?d" using k by (rule map_of_SomeD)
  have ve: "valid_estimate (r_estimate r)" and rr: "r_ref r < b_next_ref br"
    using inv mem by (auto simp: binv_def)
  have nn: "0 \<le> e_cpu_cores (r_estimate r)" "0 \<le> e_ram_bytes (r_estimate r)"
    "0 \<le> e_pinned_ram_bytes (r_estimate r)" "0 \<le> e_concurrent_reads (r_estimate r)"
    "0 \<le> e_concurrent_writes (r_estimate r)" "0 \<le> on_gpu i e_vram_mb (r_estimate r)"
    "0 \<le> on_gpu i heavy_count (r_estimate r)" for i
    using valid_estimateD [OF ve] by (simp_all add: on_gpu_def heavy_count_def)
  have W: "within_limits (b_limits br) (map r_estimate (dvalues ?d))"
    using inv by (simp add: binv_def active_def)
  have sub: "set (map r_estimate (dvalues ?d')) \<subseteq> set (map r_estimate (dvalues ?d))"
    using set_delete_subset [of k ?d] by auto
  have le: "a - x \<le> b" if "a \<le> b" "0 \<le> x" for a b x :: int
    using that by simp
  have "within_limits (b_limits br) (map r_estimate (dvalues ?d'))"
    unfolding within_limits_def tot_delete [OF wf k]
    using within_limitsD [OF W] nn W sub
    by (intro conjI) (auto intro!: le simp: within_limits_def)
  moreover have "distinct (map r_ref (dvalues ?d'))"
    using inv unfolding binv_def AList.delete_eq by (auto intro: distinct_map_filter)
  moreover have "r_ref q \<noteq> r_ref r" if "(j, q) \<in> set ?d'" for j q
  proof -
    from that have q: "(j, q) \<in> set ?d" "j \<noteq> k" by (simp_all add: mem_delete_iff)
    have "distinct (map (\<lambda>p. r_ref (snd p)) ?d)" using inv by (simp add: binv_def comp_def)
    with q mem show ?thesis by (fastforce simp: distinct_map inj_on_def)
  qed
  ultimately show ?thesis
    using inv rr sub by (auto simp: binv_def active_def mem_delete_iff intro: wf_dict_delete)
qed

lemma release_ok:
  assumes inv: "binv br" and a: "map_of (b_reservations br) (r_id r) = Some r'" and ref: "r_ref r' = r_ref r"
  obtains br' where "release now r br = (Inr True, br')" "binv br'" "metered br'"
    "b_reservations br' = AList.delete (r_id r) (b_reservations br)" "b_limits br' = b_limits br"
    "b_released br' = r_ref r # b_released br"
proof -
  let ?br1 = "br\<lparr>b_reservations := AList.delete (r_id r) (b_reservations br), b_released := r_ref r # b_released br\<rparr>"
  have inv1: "binv ?br1" using binv_released [OF inv a] ref by simp
  obtain br2 where op: "observe_pressure now ?br1 = (Inr (), br2)"
    using observe_pressure_eq [OF inv1] by (simp add: Let_def)
  then have br2: "br2 = snd (observe_pressure now ?br1)" by simp
  have "release now r br = (Inr True, br2)"
    using a ref op by (simp add: release_def Let_def)
  moreover have "binv br2" "b_reservations br2 = AList.delete (r_id r) (b_reservations br)"
      "b_limits br2 = b_limits br" "b_released br2 = r_ref r # b_released br"
    using inv1 unfolding br2 observe_pressure_eq [OF inv1] by (simp_all add: Let_def)
  moreover have "metered br2" unfolding br2 by (rule metered_observed [OF inv1])
  ultimately show thesis using that by blast
qed

lemma release_inactive:
  "map_of (b_reservations br) (r_id r) = None \<or>
   (\<exists>r'. map_of (b_reservations br) (r_id r) = Some r' \<and> r_ref r' \<noteq> r_ref r) \<Longrightarrow>
   release now r br = (Inr False, br)"
  by (auto simp: release_def)

section \<open>The admission policy\<close>

text \<open>
  The contract of \<open>admit\<close>, as a function of what is configured and what is free: the first of
  the request and its offload and quantize alternatives that fits now is admitted; else the first
  that would fit an idle machine is deferred; else a batch reduction that fits now is admitted;
  else the request is rejected.
\<close>

fun options :: "estimate \<Rightarrow> fallback_action list \<Rightarrow> (fallback_action \<times> estimate) list" where
  "options e [] = []"
| "options e (a # as) = (case e_alternative e a of None \<Rightarrow> options e as | Some x \<Rightarrow> (a, x) # options e as)"

definition admission_policy ::
  "limits \<Rightarrow> limits \<Rightarrow> estimate \<Rightarrow> admission_outcome \<times> fallback_action \<times> estimate" where
  "admission_policy full free e = (let cs = (NO_FALLBACK, e) # options e [OFFLOAD, QUANTIZE] in
     case List.find (\<lambda>c. fits free (snd c)) cs of
       Some (a, x) \<Rightarrow> (ADMITTED, a, x)
     | None \<Rightarrow>
        (case List.find (\<lambda>c. fits full (snd c)) cs of
           Some (a, x) \<Rightarrow> (DEFERRED, SEQUENCE, x)
         | None \<Rightarrow>
            (case e_alternative e REDUCE_BATCH of
               Some x \<Rightarrow> if fits free x then (ADMITTED, REDUCE_BATCH, x) else (REJECTED, REJECT, e)
             | None \<Rightarrow> (REJECTED, REJECT, e))))"

text \<open>The actions tried on the way, in order: every alternative that did not fit, then the end of it.\<close>

definition attempted_actions :: "limits \<Rightarrow> limits \<Rightarrow> estimate \<Rightarrow> fallback_action list" where
  "attempted_actions full free e =
     map fst (takeWhile (\<lambda>c. \<not> fits free (snd c)) ((NO_FALLBACK, e) # options e [OFFLOAD, QUANTIZE]))
     @ (case admission_policy full free e of (outcome, action, _) \<Rightarrow>
          if outcome = ADMITTED then (if action = REDUCE_BATCH then [SEQUENCE, REDUCE_BATCH] else [action])
          else if outcome = DEFERRED then [SEQUENCE]
          else SEQUENCE # (if e_alternative e REDUCE_BATCH = None then [] else [REDUCE_BATCH]) @ [REJECT])"

text \<open>
  What the diagnostics have to say, as a table of the resources: what a request asks of each, what
  the limits offer it, and which it is short of. A GPU is known when both dictionaries have its
  index; only then do its memory and its heavy slot count, and otherwise it is unavailable.
\<close>

definition resource_order :: "violation_code list" where
  "resource_order = [V_CPU_CORES, V_RAM_BYTES, V_PINNED_RAM_BYTES, V_CONCURRENT_READS,
     V_CONCURRENT_WRITES, V_GPU_UNAVAILABLE, V_GPU_VRAM, V_GPU_HEAVY_JOBS]"

fun demand :: "estimate \<Rightarrow> violation_code \<Rightarrow> int" where
  "demand e V_CPU_CORES = e_cpu_cores e"
| "demand e V_RAM_BYTES = e_ram_bytes e"
| "demand e V_PINNED_RAM_BYTES = e_pinned_ram_bytes e"
| "demand e V_CONCURRENT_READS = e_concurrent_reads e"
| "demand e V_CONCURRENT_WRITES = e_concurrent_writes e"
| "demand e V_GPU_UNAVAILABLE = e_vram_mb e"
| "demand e V_GPU_VRAM = e_vram_mb e"
| "demand e V_GPU_HEAVY_JOBS = heavy_count e"

fun offered :: "limits \<Rightarrow> int option \<Rightarrow> violation_code \<Rightarrow> int option" where
  "offered l g V_CPU_CORES = Some (l_cpu_cores l)"
| "offered l g V_RAM_BYTES = Some (l_ram_bytes l)"
| "offered l g V_PINNED_RAM_BYTES = Some (l_pinned_ram_bytes l)"
| "offered l g V_CONCURRENT_READS = Some (l_concurrent_reads l)"
| "offered l g V_CONCURRENT_WRITES = Some (l_concurrent_writes l)"
| "offered l g V_GPU_UNAVAILABLE = None"
| "offered l g V_GPU_VRAM = Option.bind g (l_vram_mb l)"
| "offered l g V_GPU_HEAVY_JOBS = Option.bind g (l_heavy_jobs l)"

definition gpu_code :: "violation_code \<Rightarrow> bool" where
  "gpu_code c = (c \<in> {V_GPU_UNAVAILABLE, V_GPU_VRAM, V_GPU_HEAVY_JOBS})"

definition gpu_known :: "limits \<Rightarrow> int option \<Rightarrow> bool" where
  "gpu_known l g = (Option.bind g (l_vram_mb l) \<noteq> None \<and> Option.bind g (l_heavy_jobs l) \<noteq> None)"

definition short_of :: "limits \<Rightarrow> estimate \<Rightarrow> violation_code \<Rightarrow> bool" where
  "short_of l e c =
    (if c = V_GPU_UNAVAILABLE then e_gpu_index e \<noteq> None \<and> \<not> gpu_known l (e_gpu_index e)
     else (gpu_code c \<longrightarrow> gpu_known l (e_gpu_index e))
       \<and> (\<exists>a. offered l (e_gpu_index e) c = Some a \<and> a < demand e c))"

definition shortages :: "bool \<Rightarrow> limits \<Rightarrow> limits \<Rightarrow> estimate \<Rightarrow> violation list" where
  "shortages against_current full l e = map
     (\<lambda>c. \<lparr>v_code = c, v_requested = demand e c, v_available = offered l (e_gpu_index e) c,
        v_transient = (against_current \<and> (\<exists>a. offered full (e_gpu_index e) c = Some a \<and> demand e c \<le> a)),
        v_gpu_index = (if gpu_code c then e_gpu_index e else None)\<rparr>)
     (filter (short_of l e) resource_order)"

lemma map_filter_Cons: "map f (filter P (c # cs)) = (if P c then [f c] else []) @ map f (filter P cs)"
  by simp

lemma raw_diagnostics_shortages:
  assumes "is_ok (limits_post_init l)"
  shows "raw_diagnostics ac full l e = shortages ac full l e"
proof -
  have L: "\<And>i v. l_heavy_jobs l i = Some v \<Longrightarrow> 0 \<le> v"
    using assms by (auto simp: limits_post_init_ok l_heavy_jobs_map_of intro: map_of_pairs_nonneg)
  note simps = raw_diagnostics_def shortages_def resource_order_def map_filter_Cons short_of_def gpu_code_def
    gpu_known_def heavy_count_def Let_def
  show ?thesis
  proof (cases "e_gpu_index e")
    case None
    then show ?thesis by (simp add: simps del: filter.simps)
  next
    case (Some i)
    show ?thesis
    proof (cases "l_vram_mb l i = None \<or> l_heavy_jobs l i = None")
      case True
      with Some show ?thesis
        by (cases "l_vram_mb l i"; cases "l_heavy_jobs l i") (simp_all add: simps del: filter.simps)
    next
      case False
      then obtain v h where vh: "l_vram_mb l i = Some v" "l_heavy_jobs l i = Some h" by auto
      have h: "(h < (if e_heavy_gpu e then 1 else 0)) = (e_heavy_gpu e \<and> h < 1)"
        using L [OF vh(2)] by auto
      have known: "(case x of None \<Rightarrow> False | Some s \<Rightarrow> n \<le> s) = (\<exists>a. x = Some a \<and> n \<le> a)" for x and n :: int
        by (cases x) auto
      from Some vh h show ?thesis
        by (auto simp: simps known simp del: filter.simps)
    qed
  qed
qed

lemma options_mem: "(a, x) \<in> set (options e as) \<Longrightarrow> a \<in> set as \<and> e_alternative e a = Some x"
  by (induction as) (auto split: option.splits)

lemma transforms_eq:
  assumes inv: "binv br" and e: "valid_estimate e"
  shows "transforms br e as att cand = Inr
    (case List.find (\<lambda>c. fits (free_limits br) (snd c)) (options e as) of
       Some (a, x) \<Rightarrow> Found a x
         (att @ map fst (takeWhile (\<lambda>c. \<not> fits (free_limits br) (snd c)) (options e as)) @ [a])
     | None \<Rightarrow> Exhausted (att @ map fst (takeWhile (\<lambda>c. \<not> fits (free_limits br) (snd c)) (options e as)))
         (case cand of Some c \<Rightarrow> Some c
         | None \<Rightarrow> map_option snd (List.find (\<lambda>c. fits (b_limits br) (snd c)) (options e as))))"
proof (induction as arbitrary: att cand)
  case Nil
  then show ?case by (auto split: option.splits)
next
  case (Cons a as)
  show ?case
  proof (cases "e_alternative e a")
    case None
    have "options e (a # as) = options e as" "transforms br e (a # as) att cand = transforms br e as att cand"
      using None by simp_all
    with Cons.IH [of att cand] show ?thesis by (simp only:)
  next
    case (Some x)
    note vx = valid_alternative(1) [OF e Some]
    obtain vs where vs: "violations br x True = Inr vs" "vs = [] \<longleftrightarrow> fits (free_limits br) x"
      using violations_eq [OF inv vx, of True] by auto
    obtain ws where ws: "violations br x False = Inr ws" "ws = [] \<longleftrightarrow> fits (b_limits br) x"
      using violations_eq [OF inv vx, of False] by auto
    have opt: "options e (a # as) = (a, x) # options e as" using Some by simp
    show ?thesis
    proof (cases "fits (free_limits br) x")
      case True
      with Some vs show ?thesis by simp
    next
      case False
      show ?thesis
      proof (cases cand)
        case None
        show ?thesis
          using Cons.IH [of "att @ [a]" "if ws = [] then Some x else None"] Some vs ws False None
          unfolding opt by (cases "fits (b_limits br) x") (auto cong: option.case_cong)
      next
        case (Some c)
        show ?thesis
          using Cons.IH [of "att @ [a]" "Some c"] \<open>e_alternative e a = Some x\<close> vs False Some
          unfolding opt by (auto cong: option.case_cong)
      qed
    qed
  qed
qed

lemma admitted_eq:
  assumes inv: "binv br" and x: "valid_estimate x" "fits (free_limits br) x"
    and i: "i = (case rid of None \<Rightarrow> fresh | Some j \<Rightarrow> j)" and "att \<noteq> []"
  shows "(i \<in> set (dkeys (b_reservations br)) \<and>
      admitted now fresh e x a att rid br = (Inl (BReservationExists i), br)) \<or>
    (i \<notin> set (dkeys (b_reservations br)) \<and>
     (\<exists>br'. admitted now fresh e x a att rid br = (Inr \<lparr>d_outcome = ADMITTED, d_action = a,
        d_requested = e, d_selected = x, d_diagnostics = [], d_attempted = att,
        d_reservation = Some (added br i x)\<rparr>, br') \<and> binv br' \<and> metered br'
        \<and> b_limits br' = b_limits br \<and> b_released br' = b_released br
        \<and> b_reservations br' = b_reservations br @ [(i, added br i x)]))"
proof (cases "i \<in> set (dkeys (b_reservations br))")
  case True
  with reserve_duplicate [OF i True] show ?thesis by (simp add: admitted_def)
next
  case False
  obtain br' where B: "reserve now fresh x rid br = (Inr (added br i x), br')" "binv br'" "metered br'"
    "b_reservations br' = b_reservations br @ [(i, added br i x)]" "b_limits br' = b_limits br"
    "b_released br' = b_released br"
    by (rule reserve_ok [OF inv x i False])
  have "admitted now fresh e x a att rid br = (Inr \<lparr>d_outcome = ADMITTED, d_action = a,
        d_requested = e, d_selected = x, d_diagnostics = [], d_attempted = att,
        d_reservation = Some (added br i x)\<rparr>, br')"
    using B(1) assms(5) by (simp add: admitted_def decision_post_init_def)
  with B False show ?thesis by blast
qed

lemma raw_transient:
  assumes "v \<in> set (raw_diagnostics True st l e)" and "valid_estimate e" and "fits st e"
    and "\<exists>f. \<forall>i. l_vram_mb l i = map_option (f i) (l_vram_mb st i)"
    and "\<exists>g. \<forall>i. l_heavy_jobs l i = map_option (g i) (l_heavy_jobs st i)"
  shows "v_transient v"
proof -
  have mem: "x \<in> set (if c then [y] else []) \<longleftrightarrow> c \<and> x = y" for x y :: violation and c
    by auto
  show ?thesis
  proof (cases "e_gpu_index e")
    case None
    with assms(1,3) show ?thesis
      by (auto simp: raw_diagnostics_def Let_def mem fits_def simp del: list.set)
  next
    case (Some i)
    with assms(3) obtain x h where xh: "l_vram_mb st i = Some x" "l_heavy_jobs st i = Some h"
      by (auto simp: fits_def split: option.splits)
    with Some assms show ?thesis
      by (auto simp: raw_diagnostics_def Let_def mem fits_def heavy_count_def simp del: list.set)
  qed
qed

lemma raw_static: "v \<in> set (raw_diagnostics False st l e) \<Longrightarrow> \<not> v_transient v"
proof -
  have mem: "x \<in> set (if c then [y] else []) \<longleftrightarrow> c \<and> x = y"
      "x \<in> set [y] \<longleftrightarrow> x = y" for x y :: violation and c
    by auto
  show "v \<in> set (raw_diagnostics False st l e) \<Longrightarrow> \<not> v_transient v"
    by (cases "e_gpu_index e") (auto simp: raw_diagnostics_def Let_def mem simp del: list.set split: option.splits)
qed

lemma free_lookups:
  assumes "binv br"
  shows "\<exists>f. \<forall>i. l_vram_mb (free_limits br) i = map_option (f i) (l_vram_mb (b_limits br) i)"
    and "\<exists>g. \<forall>i. l_heavy_jobs (free_limits br) i = map_option (g i) (l_heavy_jobs (b_limits br) i)"
  by (auto simp: free_limits_def Let_def l_vram_mb_map_of l_heavy_jobs_map_of map_of_map_pair)

lemma admit_exact:
  assumes inv: "binv br" and e: "valid_estimate e" and i: "i = (case rid of None \<Rightarrow> fresh | Some j \<Rightarrow> j)"
  shows "case admission_policy (b_limits br) (free_limits br) e of (outcome, action, selected) \<Rightarrow>
    (if outcome = ADMITTED \<and> i \<in> set (dkeys (b_reservations br))
     then admit now fresh e rid br = (Inl (BReservationExists i), br)
     else \<exists>d br'. admit now fresh e rid br = (Inr d, br') \<and> decision_post_init d = Inr d
       \<and> d_outcome d = outcome \<and> d_action d = action \<and> d_requested d = e \<and> d_selected d = selected
       \<and> d_attempted d = attempted_actions (b_limits br) (free_limits br) e
       \<and> binv br' \<and> (metered br \<longrightarrow> metered br') \<and> b_limits br' = b_limits br \<and> b_released br' = b_released br
       \<and> (if outcome = ADMITTED
          then d_diagnostics d = [] \<and> d_reservation d = Some (added br i selected)
               \<and> b_reservations br' = b_reservations br @ [(i, added br i selected)]
          else br' = br \<and> d_diagnostics d = raw_diagnostics (outcome = DEFERRED) (b_limits br)
                 (if outcome = DEFERRED then free_limits br else b_limits br) selected
               \<and> d_diagnostics d \<noteq> []
               \<and> (\<forall>v \<in> set (d_diagnostics d). v_transient v \<longleftrightarrow> outcome = DEFERRED)))"
proof -
  let ?free = "free_limits br" and ?full = "b_limits br"
  obtain vs where vs: "violations br e True = Inr vs" "vs = [] \<longleftrightarrow> fits ?free e"
    using violations_eq [OF inv e, of True] by auto
  obtain ws where ws: "violations br e False = Inr ws" "ws = [] \<longleftrightarrow> fits ?full e"
    using violations_eq [OF inv e, of False] by auto
  have valid_opt: "valid_estimate x" if "(a, x) \<in> set ((NO_FALLBACK, e) # options e as)" for a x as
    using that e valid_alternative(1) [OF e] by (auto dest: options_mem)
  show ?thesis
  proof (cases "fits ?free e")
    case True
    then have P: "admission_policy ?full ?free e = (ADMITTED, NO_FALLBACK, e)"
      by (simp add: admission_policy_def)
    have T: "attempted_actions ?full ?free e = [NO_FALLBACK]"
      using True P by (simp add: attempted_actions_def del: options.simps)
    have A: "admit now fresh e rid br = admitted now fresh e e NO_FALLBACK [NO_FALLBACK] rid br"
      using vs True by (simp add: admit_def)
    show ?thesis
      using admitted_eq [OF inv e True i, of "[NO_FALLBACK]" now e NO_FALLBACK]
      unfolding P A T by (auto simp: decision_post_init_def)
  next
    case nofit: False
    let ?cs = "(NO_FALLBACK, e) # options e [OFFLOAD, QUANTIZE]"
    define att where "att = NO_FALLBACK # map fst (takeWhile (\<lambda>c. \<not> fits ?free (snd c)) (options e [OFFLOAD, QUANTIZE]))"
    have att: "transforms br e transform_order [NO_FALLBACK] (if ws = [] then Some e else None)
      = Inr (case List.find (\<lambda>c. fits ?free (snd c)) (options e [OFFLOAD, QUANTIZE]) of
         Some (a, x) \<Rightarrow> Found a x (att @ [a])
       | None \<Rightarrow> Exhausted att (map_option snd (List.find (\<lambda>c. fits ?full (snd c)) ?cs)))"
    proof -
      have "(case (if ws = [] then Some e else None) of Some c \<Rightarrow> Some c
          | None \<Rightarrow> map_option snd (List.find (\<lambda>c. fits ?full (snd c)) (options e [OFFLOAD, QUANTIZE])))
        = map_option snd (List.find (\<lambda>c. fits ?full (snd c)) ?cs)"
        using ws by (cases "fits ?full e") (simp_all del: options.simps)
      then show ?thesis
        unfolding transforms_eq [OF inv e] transform_order_def att_def
        using ws by (cases "fits ?full e") (simp_all del: options.simps split: option.split)
    qed
    have tried: "attempted_actions ?full ?free e = att @ tail" if "admission_policy ?full ?free e = (oc, ac, x)"
        "tail = (if oc = ADMITTED then (if ac = REDUCE_BATCH then [SEQUENCE, REDUCE_BATCH] else [ac])
          else if oc = DEFERRED then [SEQUENCE]
          else SEQUENCE # (if e_alternative e REDUCE_BATCH = None then [] else [REDUCE_BATCH]) @ [REJECT])"
      for oc ac x tail
      using that nofit by (simp add: attempted_actions_def att_def del: options.simps)
    have free_cs: "List.find (\<lambda>c. fits ?free (snd c)) ?cs = List.find (\<lambda>c. fits ?free (snd c)) (options e [OFFLOAD, QUANTIZE])"
      using nofit by simp
    show ?thesis
    proof (cases "List.find (\<lambda>c. fits ?free (snd c)) (options e [OFFLOAD, QUANTIZE])")
      case (Some c)
      obtain a x where c: "c = (a, x)" by (cases c)
      from find_SomeD [OF Some] c have "(a, x) \<in> set ?cs" and fx: "fits ?free x"
        by (simp_all del: options.simps)
      note x = valid_opt [OF this(1)] fx
      have P: "admission_policy ?full ?free e = (ADMITTED, a, x)"
        unfolding admission_policy_def Let_def free_cs Some c by simp
      have "a \<noteq> REDUCE_BATCH"
        using find_SomeD [OF Some] c by (auto dest!: options_mem simp del: options.simps)
      then have T: "attempted_actions ?full ?free e = att @ [a]" using tried [OF P] by simp
      have A: "admit now fresh e rid br = admitted now fresh e x a (att @ [a]) rid br"
        using vs ws nofit att unfolding Some c by (simp add: admit_def)
      show ?thesis
        using admitted_eq [OF inv x i, of "att @ [a]" now e a]
        unfolding P A T by (auto simp: decision_post_init_def)
    next
      case none: None
      have A: "admit now fresh e rid br = admit_after_transforms now fresh e rid br att
          (map_option snd (List.find (\<lambda>c. fits ?full (snd c)) ?cs))"
        using vs ws nofit att unfolding none by (simp add: admit_def)
      have diag_refuse: "\<exists>ds. refuse oc ac e x (diagnostics br x b) (as @ [z]) = Inr \<lparr>d_outcome = oc,
           d_action = ac, d_requested = e, d_selected = x, d_diagnostics = ds, d_attempted = as @ [z],
           d_reservation = None\<rparr> \<and> ds = raw_diagnostics b ?full (if b then ?free else ?full) x"
        if "valid_estimate x" "oc \<noteq> ADMITTED" "oc = REJECTED \<longrightarrow> ac = REJECT" for oc ac x b as z
        using that diagnostics_eq [OF inv that(1), of b] by (auto simp: refuse_def decision_post_init_def)
      show ?thesis
      proof (cases "List.find (\<lambda>c. fits ?full (snd c)) ?cs")
        case (Some c)
        obtain a x where c: "c = (a, x)" by (cases c)
        from find_SomeD [OF Some] c have mem: "(a, x) \<in> set ?cs" and fx: "fits ?full x"
          by (simp_all del: options.simps)
        note x = valid_opt [OF mem] fx
        have "\<not> fits ?free x"
          using mem none nofit by (auto simp: find_None_iff simp del: options.simps)
        then have ne: "raw_diagnostics True ?full ?free x \<noteq> []" by (simp add: raw_diagnostics_empty)
        have tr: "v_transient v" if "v \<in> set (raw_diagnostics True ?full ?free x)" for v
          by (rule raw_transient [OF that x(1) x(2)]) (rule free_lookups [OF inv])+
        have P: "admission_policy ?full ?free e = (DEFERRED, SEQUENCE, x)"
          unfolding admission_policy_def Let_def free_cs none Some c by simp
        show ?thesis
          using diag_refuse [OF x(1), of DEFERRED SEQUENCE True att SEQUENCE] ne tr
          unfolding P A Some c tried [OF P refl] by (auto simp: admit_after_transforms_def decision_post_init_def inv)
      next
        case None
        have ne: "raw_diagnostics False ?full ?full e \<noteq> []"
          using None by (simp add: raw_diagnostics_empty split: if_splits)
        have ntr: "\<not> v_transient v" if "v \<in> set (raw_diagnostics False ?full ?full e)" for v
          by (rule raw_static [OF that])
        note rej = diag_refuse [OF e, of REJECTED REJECT False]
        show ?thesis
        proof (cases "e_alternative e REDUCE_BATCH")
          case none_red: None
          have P: "admission_policy ?full ?free e = (REJECTED, REJECT, e)"
            unfolding admission_policy_def Let_def free_cs none None none_red by simp
          show ?thesis
            using rej [of "att @ [SEQUENCE]" REJECT] ne ntr
            unfolding P A None tried [OF P refl] by (auto simp: admit_after_transforms_def decision_post_init_def inv none_red)
        next
          case (Some x)
          note x = valid_alternative(1) [OF e Some]
          obtain us where us: "violations br x True = Inr us" "us = [] \<longleftrightarrow> fits ?free x"
            using violations_eq [OF inv x, of True] by auto
          show ?thesis
          proof (cases "fits ?free x")
            case True
            have P: "admission_policy ?full ?free e = (ADMITTED, REDUCE_BATCH, x)"
              unfolding admission_policy_def Let_def free_cs none None Some using True by simp
            show ?thesis
              using admitted_eq [OF inv x True i, of "att @ [SEQUENCE, REDUCE_BATCH]" now e REDUCE_BATCH] us True
              unfolding P A None tried [OF P refl] by (auto simp: admit_after_transforms_def decision_post_init_def inv Some)
          next
            case False
            have P: "admission_policy ?full ?free e = (REJECTED, REJECT, e)"
              unfolding admission_policy_def Let_def free_cs none None Some using False by simp
            show ?thesis
              using rej [of "att @ [SEQUENCE, REDUCE_BATCH]" REJECT] us False ne ntr
              unfolding P A None tried [OF P refl] by (auto simp: admit_after_transforms_def decision_post_init_def inv Some)
          qed
        qed
      qed
    qed
  qed
qed

lemma admit_correct:
  assumes inv: "binv br" and e: "valid_estimate e" and i: "i = (case rid of None \<Rightarrow> fresh | Some j \<Rightarrow> j)"
  shows "case admission_policy (b_limits br) (free_limits br) e of (outcome, action, selected) \<Rightarrow>
    (if outcome = ADMITTED \<and> i \<in> set (dkeys (b_reservations br))
     then admit now fresh e rid br = (Inl (BReservationExists i), br)
     else \<exists>d br'. admit now fresh e rid br = (Inr d, br') \<and> decision_post_init d = Inr d
       \<and> d_outcome d = outcome \<and> d_action d = action \<and> d_requested d = e \<and> d_selected d = selected
       \<and> binv br' \<and> (metered br \<longrightarrow> metered br') \<and> b_limits br' = b_limits br \<and> b_released br' = b_released br
       \<and> (if outcome = ADMITTED
          then d_diagnostics d = [] \<and> d_reservation d = Some (added br i selected)
               \<and> b_reservations br' = b_reservations br @ [(i, added br i selected)]
          else br' = br \<and> d_diagnostics d \<noteq> []
               \<and> (\<forall>v \<in> set (d_diagnostics d). v_transient v \<longleftrightarrow> outcome = DEFERRED)))"
  using admit_exact [OF assms, of now] by (fastforce split: prod.splits if_splits)

text \<open>
  C19. Admission follows the policy. From a state that satisfies the invariant, with a valid
  request, \<open>admit\<close> makes exactly the decision of \<open>admission_policy\<close> on the configured and the
  free limits, and records the actions it tried in their order. An admitted decision reserves
  exactly the selected estimate under the requested identifier, and is an error that changes nothing
  if that identifier is already reserved. A deferred or rejected decision changes nothing and its
  diagnostics are exactly the shortages: of the selected estimate against what is free when it is
  deferred, of the request against the configured limits when it is rejected, each with the resource
  it names, what was asked of it, what there is and its GPU. There is at least one, and all of them
  are transient when it is deferred and none when it is rejected.
\<close>

theorem admit_follows_policy:
  assumes "binv br" and "valid_estimate e" and "i = (case rid of None \<Rightarrow> fresh | Some j \<Rightarrow> j)"
  shows "case admission_policy (b_limits br) (free_limits br) e of (outcome, action, selected) \<Rightarrow>
    (if outcome = ADMITTED \<and> i \<in> set (dkeys (b_reservations br))
     then admit now fresh e rid br = (Inl (BReservationExists i), br)
     else \<exists>d br'. admit now fresh e rid br = (Inr d, br') \<and> decision_post_init d = Inr d
       \<and> d_outcome d = outcome \<and> d_action d = action \<and> d_requested d = e \<and> d_selected d = selected
       \<and> d_attempted d = attempted_actions (b_limits br) (free_limits br) e
       \<and> (if outcome = ADMITTED
          then d_diagnostics d = [] \<and> d_reservation d = Some (added br i selected)
               \<and> b_reservations br' = b_reservations br @ [(i, added br i selected)]
          else br' = br \<and> d_diagnostics d \<noteq> []
               \<and> d_diagnostics d = (if outcome = DEFERRED
                    then shortages True (b_limits br) (free_limits br) selected
                    else shortages False (b_limits br) (b_limits br) e)
               \<and> (\<forall>v \<in> set (d_diagnostics d). v_transient v \<longleftrightarrow> outcome = DEFERRED)))"
proof -
  obtain oc ac x where P: "admission_policy (b_limits br) (free_limits br) e = (oc, ac, x)"
    by (cases "admission_policy (b_limits br) (free_limits br) e")
  have rej: "x = e" if "oc \<noteq> ADMITTED" "oc \<noteq> DEFERRED"
    using P that by (auto simp: admission_policy_def Let_def simp del: options.simps split: option.splits if_splits)
  have valid: "is_ok (limits_post_init (b_limits br))" "is_ok (limits_post_init (free_limits br))"
    using assms(1) free_limits_valid by (simp_all add: binv_def)
  note shortages = raw_diagnostics_shortages [OF valid(1)] raw_diagnostics_shortages [OF valid(2)]
  show ?thesis
  proof (cases oc)
    case ADMITTED
    then show ?thesis using admit_exact [OF assms, of now] unfolding P by (auto split: if_splits)
  next
    case DEFERRED
    then show ?thesis using admit_exact [OF assms, of now] unfolding P by (simp add: shortages) blast
  next
    case REJECTED
    with rej have "x = e" by simp
    with REJECTED show ?thesis using admit_exact [OF assms, of now] unfolding P by (simp add: shortages) blast
  qed
qed

section \<open>Runs of a broker\<close>

text \<open>The public calls, in any order, on any handles; the estimates are constructed values.\<close>

inductive broker_step :: "broker \<Rightarrow> broker \<Rightarrow> bool" where
  step_admit: "valid_estimate e \<Longrightarrow> broker_step br (snd (admit now fresh e rid br))"
| step_release: "broker_step br (snd (release now r br))"
| step_drain: "broker_step br (snd (drain_pressure_events br))"

inductive_cases broker_stepE: "broker_step br br'"

definition broker_start :: "limits \<Rightarrow> broker \<Rightarrow> bool" where
  "broker_start l br = (\<exists>h r t. constructed_inventory h \<and> (t = None \<or> (\<exists>x. t = Some x \<and> is_ok (thresholds_post_init x)))
     \<and> new_broker h r (Some (new_monitor t)) = Inr br \<and> b_limits br = l)"

definition broker_ok :: "limits \<Rightarrow> broker \<Rightarrow> bool" where
  "broker_ok l br = (binv br \<and> metered br \<and> b_limits br = l)"

lemma from_inventory_ok: "from_inventory h r = Inr l \<Longrightarrow> is_ok (limits_post_init l)"
  by (auto simp: from_inventory_def rbind_Inr_iff) (metis limits_post_init_InrD sum.disc(2))

lemma binv_new: "new_broker h r m = Inr br \<Longrightarrow> binv br"
proof -
  assume "new_broker h r m = Inr br"
  then have l: "is_ok (limits_post_init (b_limits br))" "b_reservations br = []" "b_released br = []"
    by (auto simp: new_broker_def rbind_Inr_iff from_inventory_ok)
  then show "binv br"
    by (auto simp: binv_def active_def within_limits_def limits_post_init_ok)
qed

lemma classify_zero: "is_ok (thresholds_post_init t) \<Longrightarrow> classify t 0 = NORMAL"
  by (erule thresholds_post_initD) (simp add: classify_def)

lemma metered_new:
  assumes "new_broker h r (Some (new_monitor t)) = Inr br"
    and "t = None \<or> (\<exists>x. t = Some x \<and> is_ok (thresholds_post_init x))"
  shows "metered br"
proof -
  have z: "classify (pm_thresholds (new_monitor t)) 0 = NORMAL"
    using assms(2)
  proof
    assume "t = None"
    then show ?thesis by (simp add: new_monitor_def default_thresholds_def classify_def)
  next
    assume "\<exists>x. t = Some x \<and> is_ok (thresholds_post_init x)"
    then show ?thesis using classify_zero by (auto simp: new_monitor_def)
  qed
  have "ps_used p = 0" if "p \<in> set (live_samples br)" for p
    using that assms(1)
    by (auto simp: new_broker_def rbind_Inr_iff live_samples_def budget_samples_def active_def
        sample_of_def Let_def split: if_splits)
  then have "ps_ratio p = 0" if "p \<in> set (live_samples br)" for p
    using that by (simp add: ps_ratio_def)
  then show ?thesis
    using assms(1) z by (auto simp: metered_def new_broker_def rbind_Inr_iff monitor_level_def)
      (simp_all add: new_monitor_def)
qed

lemma broker_ok_release:
  assumes "broker_ok l br"
  shows "broker_ok l (snd (release now r br))"
proof (cases "\<exists>r'. map_of (b_reservations br) (r_id r) = Some r' \<and> r_ref r' = r_ref r")
  case True
  then obtain r' where "map_of (b_reservations br) (r_id r) = Some r'" "r_ref r' = r_ref r" by blast
  with assms show ?thesis
    by (metis broker_ok_def release_ok snd_conv)
next
  case False
  then have "release now r br = (Inr False, br)"
    by (intro release_inactive) auto
  with assms show ?thesis by simp
qed

lemma broker_ok_admit:
  assumes "broker_ok l br" and "valid_estimate e"
  shows "broker_ok l (snd (admit now fresh e rid br))"
  using admit_correct [OF _ assms(2) refl, where br = br and rid = rid and fresh = fresh and now = now] assms
  by (fastforce simp: broker_ok_def split: prod.splits if_splits)

lemma broker_ok_drain: "broker_ok l br \<Longrightarrow> broker_ok l (snd (drain_pressure_events br))"
  using binv_observed [where br = br and m = "b_monitor br" and es = "[]"]
    live_samples_observed [where br = br and m = "b_monitor br" and es = "[]"]
  by (simp add: broker_ok_def drain_pressure_events_def metered_def)

interpretation broker_runs: invariant_system "broker_start l" broker_step "broker_ok l"
proof
  show "broker_ok l br" if "broker_start l br" for br
    using that binv_new metered_new by (auto simp: broker_start_def broker_ok_def)
  show "broker_ok l br'" if "broker_step br br'" "broker_ok l br" for br br'
    using that by (auto elim!: broker_stepE intro: broker_ok_admit broker_ok_release broker_ok_drain)
qed

text \<open>
  C18. The broker never overcommits. After any sequence of admissions, releases (of any handles,
  in any order, any number of times) and drains on a new broker, the estimates of the active
  reservations are within the configured limits in every dimension and on every GPU, \<open>available\<close>
  succeeds and is exactly the limits minus what is reserved, with no clamping, and the pressure
  monitor reports the class of the current usage of every budget.
\<close>

theorem broker_never_overcommits:
  assumes "broker_start l br0" and "broker_step\<^sup>*\<^sup>* br0 br"
  shows "within_limits l (map r_estimate (active_reservations br)) \<and> b_limits br = l
    \<and> available br = Inr (free_limits br) \<and> metered br"
  using broker_runs.invar_reachable [OF assms] available_eq
  by (auto simp: broker_ok_def binv_def active_def active_reservations_def)

text \<open>
  A reservation is released once, and gives everything back. When an admission returns a
  reservation, releasing it succeeds and restores the reservations and what is available to what
  they were before the admission; a second release returns False and changes nothing, and the
  context manager refuses to enter it again.
\<close>

theorem release_restores:
  assumes inv: "binv br" and e: "valid_estimate e"
    and adm: "admit now fresh e rid br = (Inr d, br1)" and r: "d_reservation d = Some r"
  shows "\<exists>br2. release now' r br1 = (Inr True, br2) \<and> b_reservations br2 = b_reservations br
    \<and> available br2 = available br \<and> reservation_enter r br2 = Inl (BRuntimeError ''cannot enter a released reservation'')
    \<and> release now'' r br2 = (Inr False, br2)"
proof -
  obtain i where i: "i = (case rid of None \<Rightarrow> fresh | Some j \<Rightarrow> j)" by simp
  obtain oc ac x where P: "admission_policy (b_limits br) (free_limits br) e = (oc, ac, x)"
    by (cases "admission_policy (b_limits br) (free_limits br) e")
  from admit_correct [OF inv e i, where now = now] adm P r
  have A: "oc = ADMITTED" "i \<notin> set (dkeys (b_reservations br))" "binv br1" "b_limits br1 = b_limits br"
    "r = added br i x" "b_reservations br1 = b_reservations br @ [(i, added br i x)]"
    by (auto simp: decision_post_init_def split: if_splits)
  have look: "map_of (b_reservations br1) (r_id r) = Some r"
    using A(2,5,6) map_of_eq_None_iff [of "b_reservations br" i] by (simp add: added_def map_add_def)
  obtain br2 where R: "release now' r br1 = (Inr True, br2)" "binv br2"
      "b_reservations br2 = AList.delete (r_id r) (b_reservations br1)" "b_limits br2 = b_limits br1"
      "b_released br2 = r_ref r # b_released br1"
    by (rule release_ok [OF A(3) look refl])
  have res: "b_reservations br2 = b_reservations br"
    using R(3) A(2,5,6) delete_notin [of i "b_reservations br"]
    by (simp add: added_def AList.delete_eq filter_append)
  then have "free_limits br2 = free_limits br"
    using R(4) A(4) by (simp add: free_limits_def active_def)
  then have "available br2 = available br"
    using available_eq [OF inv] available_eq [OF R(2)] by simp
  moreover have "release now'' r br2 = (Inr False, br2)"
    using A(2,5) res by (intro release_inactive) (simp add: added_def map_of_eq_None_iff)
  ultimately show ?thesis
    using R res by (auto simp: reservation_enter_def released_def)
qed

section \<open>Witnesses\<close>

definition sample_estimate :: estimate where
  "sample_estimate = Estimate 4 20000 30000 (Some 0) True 0 1 0
     [(QUANTIZE, Estimate 4 20000 8000 (Some 0) True 0 1 0 [])]"

definition sample_quantized :: estimate where
  "sample_quantized = Estimate 4 20000 8000 (Some 0) True 0 1 0 []"

definition sample_limits :: limits where
  "sample_limits = \<lparr>l_cpu_cores = 6, l_ram_bytes = 28000, l_vram_mb_by_gpu = [(0, 19232), (1, 19232)],
     l_pinned_ram_bytes = 8000, l_concurrent_reads = 4, l_concurrent_writes = 2,
     l_heavy_jobs_by_gpu = [(0, 1), (1, 1)]\<rparr>"

definition sample_broker :: broker where
  "sample_broker = \<lparr>b_limits = sample_limits, b_reservations = [], b_monitor = new_monitor None,
     b_events = [], b_released = [], b_next_ref = 0\<rparr>"

lemma sample_broker_new: "new_broker sample_inventory sample_reserves (Some (new_monitor None)) = Inr sample_broker"
  by code_simp

lemma sample_broker_start: "broker_start sample_limits sample_broker"
  unfolding broker_start_def
  using sample_inventory_constructed sample_broker_new by (fastforce simp: sample_broker_def)

lemma sample_estimate_valid: "valid_estimate sample_estimate"
  by code_simp

lemma sample_policy:
  "admission_policy (b_limits sample_broker) (free_limits sample_broker) sample_estimate
     = (ADMITTED, QUANTIZE, sample_quantized)"
  by code_simp

lemma admit_follows_policy_witness:
  "\<exists>d br'. admit 0 7 sample_estimate None sample_broker = (Inr d, br') \<and> d_action d = QUANTIZE
     \<and> d_selected d = sample_quantized \<and> active_reservations br' = [added sample_broker 7 sample_quantized]"
proof -
  have e: "b_reservations sample_broker = []" by (simp add: sample_broker_def)
  show ?thesis
    using admit_follows_policy [OF binv_new [OF sample_broker_new] sample_estimate_valid,
        where i = 7 and rid = None and fresh = 7 and now = 0]
    unfolding sample_policy by (auto simp: active_reservations_def e)
qed

lemma broker_never_overcommits_witness:
  "within_limits sample_limits (map r_estimate (active_reservations
     (snd (admit 0 7 sample_estimate None sample_broker))))
   \<and> active_reservations (snd (admit 0 7 sample_estimate None sample_broker)) \<noteq> []"
proof
  show "within_limits sample_limits (map r_estimate (active_reservations
     (snd (admit 0 7 sample_estimate None sample_broker))))"
    using broker_never_overcommits [OF sample_broker_start r_into_rtranclp
        [of broker_step, OF step_admit [OF sample_estimate_valid]], of 0 7 None]
    by blast
  have "b_reservations sample_broker = []" by (simp add: sample_broker_def)
  then show "active_reservations (snd (admit 0 7 sample_estimate None sample_broker)) \<noteq> []"
    using admit_correct [OF binv_new [OF sample_broker_new] sample_estimate_valid,
        where i = 7 and rid = None and fresh = 7 and now = 0]
    unfolding sample_policy by (auto simp: active_reservations_def)
qed

lemma release_restores_witness:
  "\<exists>d r br1 br2. admit 0 7 sample_estimate None sample_broker = (Inr d, br1) \<and> d_reservation d = Some r
     \<and> release 1 r br1 = (Inr True, br2) \<and> release 2 r br2 = (Inr False, br2)"
proof -
  note inv = binv_new [OF sample_broker_new]
  have "b_reservations sample_broker = []" by (simp add: sample_broker_def)
  then obtain d br1 where A: "admit 0 7 sample_estimate None sample_broker = (Inr d, br1)"
      "d_reservation d = Some (added sample_broker 7 sample_quantized)"
    using admit_correct [OF inv sample_estimate_valid,
        where i = 7 and rid = None and fresh = 7 and now = 0]
    unfolding sample_policy by auto
  from release_restores [OF inv sample_estimate_valid A, of 1 2] A show ?thesis by blast
qed

end
