(* ===== verification/JsonValues.thy ===== *)
theory JsonValues
  imports Prelude
begin

text \<open>
  core/json_values.py: the check that a value survives a JSON round trip, and the deep copy of it
  into immutable containers. The Python value is a graph of mutable containers, so it can be
  cyclic: the model keeps the containers in a heap of addressed objects (\<open>id(value)\<close> is the
  address), and \<open>freeze_json\<close> carries the set \<open>active_containers\<close> as the code does. It ends on
  every input, because each level adds an address of the finite heap to that set. Strings are
  lists of code points, since lone surrogates are one of the things the code refuses.

  \<open>denotes\<close> is the abstract specification: the value unfolds to a finite JSON tree.
\<close>

type_synonym ustr = "nat list"
type_synonym addr = nat

definition ustr :: "string \<Rightarrow> ustr" where
  "ustr s = map of_char s"

datatype pyval = VNone | VBool bool | VInt int | VFloat pyfloat | VStr ustr | VRef addr | VOther ustr

datatype pyobj = OSeq "pyval list" | OMap "(pyval \<times> pyval) list"

type_synonym pyheap = "(addr, pyobj) dict"

datatype json = JNull | JBool bool | JInt int | JFloat rat | JStr ustr
  | JArr "json list" | JObj "(ustr \<times> json) list"

datatype json_reason = BadUnicode | IntegerRange | NotFinite | CyclicArray | CyclicObject
  | KeyNotString | KeyBadUnicode | NotStable ustr

datatype json_error = JsonValueValidationError ustr json_reason

definition MIN_JSON_INTEGER :: int where
  "MIN_JSON_INTEGER = - (2 ^ 63)"

definition MAX_JSON_INTEGER :: int where
  "MAX_JSON_INTEGER = 2 ^ 63 - 1"

text \<open>\<open>value.encode("utf-8")\<close> fails exactly on surrogate code points.\<close>

definition utf8_encodable :: "ustr \<Rightarrow> bool" where
  "utf8_encodable s = list_all (\<lambda>c. c < 55296 \<or> 57343 < c) s"

fun digits10 :: "nat \<Rightarrow> ustr" where
  "digits10 n = (if n < 10 then [48 + n] else digits10 (n div 10) @ [48 + n mod 10])"

declare digits10.simps [simp del]

definition hex_lower :: "nat \<Rightarrow> nat" where
  "hex_lower d = (if d < 10 then 48 + d else 87 + d)"

text \<open>\<open>json.dumps(key, ensure_ascii=False)\<close>: quotes, backslashes and control characters escaped.\<close>

definition escape_char :: "nat \<Rightarrow> ustr" where
  "escape_char c =
    (if c = 34 then [92, 34] else if c = 92 then [92, 92]
     else if c = 10 then [92, 110] else if c = 13 then [92, 114] else if c = 9 then [92, 116]
     else if c = 12 then [92, 102] else if c = 8 then [92, 98]
     else if c < 32 then [92, 117, 48, 48, hex_lower (c div 16), hex_lower (c mod 16)]
     else [c])"

definition dumps_key :: "ustr \<Rightarrow> ustr" where
  "dumps_key k = 34 # concat (map escape_char k) @ [34]"

definition path_name_start :: "nat \<Rightarrow> bool" where
  "path_name_start c = (65 \<le> c \<and> c \<le> 90 \<or> 97 \<le> c \<and> c \<le> 122 \<or> c = 95)"

definition path_name :: "ustr \<Rightarrow> bool" where
  "path_name k = (case k of [] \<Rightarrow> False
     | c # cs \<Rightarrow> path_name_start c \<and> list_all (\<lambda>d. path_name_start d \<or> 48 \<le> d \<and> d \<le> 57) cs)"

definition child_path :: "ustr \<Rightarrow> ustr \<Rightarrow> ustr" where
  "child_path p k = (if path_name k then p @ 46 # k else p @ 91 # dumps_key k @ [93])"

definition index_path :: "ustr \<Rightarrow> nat \<Rightarrow> ustr" where
  "index_path p i = p @ 91 # digits10 i @ [93]"

lemma rmap_cong [fundef_cong]:
  "xs = ys \<Longrightarrow> (\<And>x. x \<in> set ys \<Longrightarrow> f x = g x) \<Longrightarrow> rmap f xs = rmap g ys"
  by (induction ys arbitrary: xs) (auto simp: rbind_def split: sum.splits)

lemma rbind_cong [fundef_cong]:
  "m = n \<Longrightarrow> (\<And>x. n = Inr x \<Longrightarrow> f x = g x) \<Longrightarrow> rbind m f = rbind n g"
  by (cases n) auto

lemma active_decreases:
  assumes "map_of h a = Some ob" and "a \<notin> set act"
  shows "card (fst ` set h - set (a # act)) < card (fst ` set h - set act)"
proof (rule psubset_card_mono)
  have "a \<in> fst ` set h" using assms(1) by (metis map_of_SomeD fst_conv image_eqI)
  with assms(2) show "fst ` set h - set (a # act) \<subset> fst ` set h - set act" by auto
qed simp

text \<open>
  \<open>_freeze_json_value\<close>, branch by branch. An address that the heap does not hold cannot occur in
  Python; it is answered like a value of an unknown type.
\<close>

function freeze_json :: "pyheap \<Rightarrow> ustr \<Rightarrow> addr list \<Rightarrow> pyval \<Rightarrow> json_error + json" where
  "freeze_json h p act VNone = Inr JNull"
| "freeze_json h p act (VBool b) = Inr (JBool b)"
| "freeze_json h p act (VStr s) =
     (if utf8_encodable s then Inr (JStr s) else Inl (JsonValueValidationError p BadUnicode))"
| "freeze_json h p act (VInt i) =
     (if MIN_JSON_INTEGER \<le> i \<and> i \<le> MAX_JSON_INTEGER then Inr (JInt i)
      else Inl (JsonValueValidationError p IntegerRange))"
| "freeze_json h p act (VFloat f) =
     (case f of Finite r \<Rightarrow> Inr (JFloat r) | _ \<Rightarrow> Inl (JsonValueValidationError p NotFinite))"
| "freeze_json h p act (VOther t) = Inl (JsonValueValidationError p (NotStable t))"
| "freeze_json h p act (VRef a) =
     (case map_of h a of
        None \<Rightarrow> Inl (JsonValueValidationError p (NotStable []))
      | Some (OSeq vs) \<Rightarrow>
          if a \<in> set act then Inl (JsonValueValidationError p CyclicArray)
          else rbind (rmap (\<lambda>(i, v). freeze_json h (index_path p i) (a # act) v) (enumerate 0 vs))
                 (\<lambda>js. Inr (JArr js))
      | Some (OMap kvs) \<Rightarrow>
          if a \<in> set act then Inl (JsonValueValidationError p CyclicObject)
          else rbind (rmap (\<lambda>(k, v). case k of
                   VStr s \<Rightarrow>
                     if utf8_encodable s
                     then rbind (freeze_json h (child_path p s) (a # act) v) (\<lambda>j. Inr (s, j))
                     else Inl (JsonValueValidationError p KeyBadUnicode)
                 | _ \<Rightarrow> Inl (JsonValueValidationError p KeyNotString)) kvs)
                 (\<lambda>ms. Inr (JObj ms)))"
  by pat_completeness auto
termination
  by (relation "measure (\<lambda>(h, p, act, v). card (set (dkeys h) - set act))")
    (simp_all add: active_decreases del: list.set)

lemmas freeze_json_simps = freeze_json.simps

text \<open>\<open>freeze_json_value\<close> and \<open>validate_json_value\<close>, with the empty set of active containers.\<close>

definition freeze_json_value :: "pyheap \<Rightarrow> ustr \<Rightarrow> pyval \<Rightarrow> json_error + json" where
  "freeze_json_value h p v = freeze_json h p [] v"

definition validate_json_value :: "pyheap \<Rightarrow> ustr \<Rightarrow> pyval \<Rightarrow> json_error + unit" where
  "validate_json_value h p v = rbind (freeze_json_value h p v) (\<lambda>_. Inr ())"

text \<open>
  A field that a caller passes to a constructor: a value with its heap, still unchecked, or one an
  earlier constructor already froze (freezing a frozen value gives the same value).
\<close>

datatype field_value = Raw pyheap pyval | Frozen json

definition field_none :: "field_value \<Rightarrow> bool" where
  "field_none f = (case f of Raw h v \<Rightarrow> v = VNone | Frozen j \<Rightarrow> j = JNull)"

definition is_object :: "json \<Rightarrow> bool" where
  "is_object j = (case j of JObj _ \<Rightarrow> True | _ \<Rightarrow> False)"

definition field_mapping :: "field_value \<Rightarrow> bool" where
  "field_mapping f = (case f of
     Raw h (VRef a) \<Rightarrow> (case map_of h a of Some (OMap _) \<Rightarrow> True | _ \<Rightarrow> False)
   | Raw h _ \<Rightarrow> False
   | Frozen j \<Rightarrow> is_object j)"

section \<open>Specification\<close>

inductive denotes :: "pyheap \<Rightarrow> pyval \<Rightarrow> json \<Rightarrow> bool" for h where
  den_none: "denotes h VNone JNull"
| den_bool: "denotes h (VBool b) (JBool b)"
| den_str: "utf8_encodable s \<Longrightarrow> denotes h (VStr s) (JStr s)"
| den_int: "MIN_JSON_INTEGER \<le> i \<Longrightarrow> i \<le> MAX_JSON_INTEGER \<Longrightarrow> denotes h (VInt i) (JInt i)"
| den_float: "denotes h (VFloat (Finite r)) (JFloat r)"
| den_seq: "map_of h a = Some (OSeq vs) \<Longrightarrow> list_all2 (denotes h) vs js \<Longrightarrow>
    denotes h (VRef a) (JArr js)"
| den_map: "map_of h a = Some (OMap kvs) \<Longrightarrow>
    list_all2 (\<lambda>kv m. fst kv = VStr (fst m) \<and> utf8_encodable (fst m) \<and> denotes h (snd kv) (snd m))
      kvs ms \<Longrightarrow>
    denotes h (VRef a) (JObj ms)"

inductive_cases denotes_VRefE: "denotes h (VRef a) j"

inductive_simps denotes_simps [simp]:
  "denotes h VNone j" "denotes h (VBool b) j" "denotes h (VStr s) j" "denotes h (VInt i) j"
  "denotes h (VFloat f) j" "denotes h (VOther t) j"

lemma denotes_fun: "denotes h v j \<Longrightarrow> denotes h v j' \<Longrightarrow> j' = j"
proof (induction arbitrary: j' rule: denotes.induct)
  case (den_seq a vs js)
  from den_seq.prems den_seq.hyps(1) obtain js' where
    "j' = JArr js'" and js': "list_all2 (denotes h) vs js'"
    by (auto elim: denotes_VRefE)
  moreover from js' den_seq.IH have "js' = js"
    by (induction vs arbitrary: js js') (auto simp: list_all2_Cons1)
  ultimately show ?case by simp
next
  case (den_map a kvs ms)
  from den_map.prems den_map.hyps(1) obtain ms' where
    "j' = JObj ms'" and ms': "list_all2 (\<lambda>kv m. fst kv = VStr (fst m) \<and>
      utf8_encodable (fst m) \<and> denotes h (snd kv) (snd m)) kvs ms'"
    by (auto elim: denotes_VRefE)
  moreover from ms' den_map.IH have "ms' = ms"
    by (induction kvs arbitrary: ms ms') (auto simp: list_all2_Cons1 prod_eq_iff)
  ultimately show ?case by simp
qed auto

lemma list_all2_rmapI:
  assumes "list_all2 P xs ys" and "\<And>x y. x \<in> set xs \<Longrightarrow> P x y \<Longrightarrow> f x = Inr y"
  shows "rmap f xs = Inr ys"
  using assms by (simp add: rmap_Inr_iff list_all2_conv_all_nth)

lemma freeze_json_sound: "freeze_json h p act v = Inr j \<Longrightarrow> denotes h v j"
proof (induction h p act v arbitrary: j rule: freeze_json.induct)
  case (7 h p act a)
  show ?case
  proof (cases "map_of h a")
    case None
    with "7.prems" show ?thesis by simp
  next
    case (Some ob)
    show ?thesis
    proof (cases ob)
      case (OSeq vs)
      with Some "7.prems" obtain js where a: "a \<notin> set act" and j: "j = JArr js"
        and js: "rmap (\<lambda>(i, v). freeze_json h (index_path p i) (a # act) v) (enumerate 0 vs) = Inr js"
        by (auto simp: rbind_Inr_iff split: if_splits)
      have "denotes h (vs ! n) (js ! n)" if "n < length vs" for n
        using that js "7.IH"(1) [OF Some OSeq a, of "(n, vs ! n)" n "vs ! n" "js ! n"]
        by (simp add: rmap_Inr_iff list_all2_conv_all_nth nth_enumerate_eq in_set_enumerate_eq)
      with rmap_length [OF js] have "list_all2 (denotes h) vs js"
        by (simp add: list_all2_conv_all_nth)
      with Some OSeq j show ?thesis by (auto intro: den_seq)
    next
      case (OMap kvs)
      with Some "7.prems" obtain ms where a: "a \<notin> set act" and j: "j = JObj ms"
        and ms: "rmap (\<lambda>(k, v). case k of VStr s \<Rightarrow>
            if utf8_encodable s
            then rbind (freeze_json h (child_path p s) (a # act) v) (\<lambda>j. Inr (s, j))
            else Inl (JsonValueValidationError p KeyBadUnicode)
          | _ \<Rightarrow> Inl (JsonValueValidationError p KeyNotString)) kvs = Inr ms"
        by (auto simp: rbind_Inr_iff split: if_splits)
      have "fst kv = VStr (fst m) \<and> utf8_encodable (fst m) \<and> denotes h (snd kv) (snd m)"
        if "kv \<in> set kvs" and "(case kv of (k, v) \<Rightarrow> case k of VStr s \<Rightarrow>
            if utf8_encodable s
            then rbind (freeze_json h (child_path p s) (a # act) v) (\<lambda>j. Inr (s, j))
            else Inl (JsonValueValidationError p KeyBadUnicode)
          | _ \<Rightarrow> Inl (JsonValueValidationError p KeyNotString)) = Inr m" for kv m
      proof -
        obtain k v where kv: "kv = (k, v)" by (cases kv)
        show ?thesis
          using that "7.IH"(2) [OF Some OMap a that(1)] unfolding kv
          by - (cases k; auto simp: rbind_Inr_iff split: if_splits)
      qed
      with ms have "list_all2 (\<lambda>kv m. fst kv = VStr (fst m) \<and> utf8_encodable (fst m)
          \<and> denotes h (snd kv) (snd m)) kvs ms"
        by (rule rmap_list_all2)
      with Some OMap j show ?thesis by (auto intro: den_map)
    qed
  qed
qed (auto split: if_splits pyfloat.splits)

text \<open>
  The other direction rests on a size argument: every container in \<open>act\<close> denotes a strictly
  bigger tree than the value being frozen, so a value that denotes a tree never meets one of its
  own ancestors again.
\<close>

definition larger_actives :: "pyheap \<Rightarrow> addr list \<Rightarrow> json \<Rightarrow> bool" where
  "larger_actives h act j = (\<forall>a \<in> set act. \<exists>j'. denotes h (VRef a) j' \<and> size j < size j')"

lemma larger_activesD: "larger_actives h act j \<Longrightarrow> denotes h (VRef a) j \<Longrightarrow> a \<notin> set act"
  by (auto simp: larger_actives_def dest: denotes_fun)

lemma larger_actives_Cons:
  "larger_actives h act j \<Longrightarrow> denotes h (VRef a) j \<Longrightarrow> size i < size j \<Longrightarrow> larger_actives h (a # act) i"
  by (auto simp: larger_actives_def) (metis dual_order.strict_trans)

lemma size_snd_le: "size (snd m) \<le> size_prod (\<lambda>x. 0) size m"
  by (cases m) simp

lemma size_member_less:
  "x \<in> set xs \<Longrightarrow> size x < size (JArr xs)"
  "m \<in> set ms \<Longrightarrow> size (snd m) < size (JObj ms)"
  using size_snd_le [of m] by (auto simp: less_Suc_eq_le dest!: split_list)

lemma freeze_json_complete:
  "denotes h v j \<Longrightarrow> larger_actives h act j \<Longrightarrow> freeze_json h p act v = Inr j"
proof (induction arbitrary: p act rule: denotes.induct)
  case (den_seq a vs js)
  have self: "denotes h (VRef a) (JArr js)"
    using den_seq.hyps(1) den_seq.IH by (auto intro!: denotes.den_seq elim: list.rel_mono_strong)
  have "freeze_json h (index_path p i) (a # act) (vs ! i) = Inr (js ! i)" if "i < length vs" for i
  proof -
    from that den_seq.IH have "js ! i \<in> set js" by (auto simp: list_all2_conv_all_nth)
    then have "larger_actives h (a # act) (js ! i)"
      by (intro larger_actives_Cons [OF den_seq.prems self] size_member_less)
    with that den_seq.IH show ?thesis by (auto simp: list_all2_conv_all_nth)
  qed
  moreover have "length js = length vs" using den_seq.IH by (simp add: list_all2_lengthD)
  ultimately have "rmap (\<lambda>(i, v). freeze_json h (index_path p i) (a # act) v) (enumerate 0 vs) = Inr js"
    by (simp add: rmap_Inr_iff list_all2_conv_all_nth nth_enumerate_eq)
  with den_seq.hyps(1) larger_activesD [OF den_seq.prems self] show ?case by simp
next
  case (den_map a kvs ms)
  have self: "denotes h (VRef a) (JObj ms)"
    using den_map.hyps(1) den_map.IH by (auto intro!: denotes.den_map elim: list.rel_mono_strong)
  have "freeze_json h q (a # act) (snd (kvs ! i)) = Inr (snd (ms ! i))
      \<and> fst (kvs ! i) = VStr (fst (ms ! i)) \<and> utf8_encodable (fst (ms ! i))"
    if "i < length kvs" for i q
  proof -
    from that den_map.IH have "ms ! i \<in> set ms" by (auto simp: list_all2_conv_all_nth)
    then have "larger_actives h (a # act) (snd (ms ! i))"
      by (intro larger_actives_Cons [OF den_map.prems self] size_member_less)
    with that den_map.IH show ?thesis by (auto simp: list_all2_conv_all_nth)
  qed
  moreover have "length ms = length kvs" using den_map.IH by (simp add: list_all2_lengthD)
  ultimately have "rmap (\<lambda>(k, v). case k of VStr s \<Rightarrow>
            if utf8_encodable s
            then rbind (freeze_json h (child_path p s) (a # act) v) (\<lambda>j. Inr (s, j))
            else Inl (JsonValueValidationError p KeyBadUnicode)
          | _ \<Rightarrow> Inl (JsonValueValidationError p KeyNotString)) kvs = Inr ms"
    by (auto simp: rmap_Inr_iff list_all2_conv_all_nth split_beta)
  with den_map.hyps(1) larger_activesD [OF den_map.prems self] show ?case by simp
qed auto

lemma freeze_json_value_iff_denotes:
  "freeze_json_value h p v = Inr j \<longleftrightarrow> denotes h v j"
  unfolding freeze_json_value_def
  by (auto intro: freeze_json_sound freeze_json_complete simp: larger_actives_def)

text \<open>C30. Freezing a value succeeds exactly when the value unfolds to a finite JSON tree (no cycle
  through its containers, every string and key encodable, every integer in 64 bits, every float
  finite), and the result is that tree. The outcome does not depend on the path that is only
  used in the error message.\<close>

theorem freeze_json_value_spec:
  "freeze_json_value h p v = Inr j \<longleftrightarrow> denotes h v j"
  by (rule freeze_json_value_iff_denotes)

end
