(* ===== verification/Jobs.thy ===== *)
theory Jobs
  imports Budgets JsonValues
begin

text \<open>
  core/jobs.py: the job record, its lifecycle and the repository the scheduler keeps it in. A
  submission is the record \<open>job_spec\<close> and a job extends it. Python values that a caller passes
  (payload, result, error) are still unchecked: a \<open>field_value\<close> is such a value with its heap, or
  one that an earlier record already froze (freezing a frozen value gives the same value). The
  four bonus fields stay floats as passed, because the code checks them without converting.
  The in-memory repository holds its lock for the whole of each method, so a method is one step.
\<close>

datatype job_status = QUEUED | PREPARING | RUNNING | COMPLETED | FAILED | CANCELLED

definition terminal :: "job_status \<Rightarrow> bool" where
  "terminal s = (s \<in> {COMPLETED, FAILED, CANCELLED})"

text \<open>\<open>_TRANSITIONS\<close> and \<open>_STATUS_POSITION\<close>.\<close>

fun transitions :: "job_status \<Rightarrow> job_status set" where
  "transitions QUEUED = {PREPARING, FAILED, CANCELLED}"
| "transitions PREPARING = {RUNNING, FAILED, CANCELLED}"
| "transitions RUNNING = {COMPLETED, FAILED, CANCELLED}"
| "transitions COMPLETED = {}"
| "transitions FAILED = {}"
| "transitions CANCELLED = {}"

fun status_position :: "job_status \<Rightarrow> int" where
  "status_position QUEUED = 0"
| "status_position PREPARING = 1"
| "status_position RUNNING = 2"
| "status_position COMPLETED = 3"
| "status_position FAILED = 3"
| "status_position CANCELLED = 3"

datatype job_error = JobNotFound string | DuplicateJob string
  | InvalidJobTransition job_status job_status string
  | JobTransitionConflict string job_status job_status
  | JobValue string | JobJson json_error | JobKeyError string

definition queue_names :: "string set" where
  "queue_names = {''interactive'', ''normal'', ''batch'', ''background'', ''download'', ''maintenance''}"

definition finite_non_negative :: "string \<Rightarrow> pyfloat \<Rightarrow> job_error + rat" where
  "finite_non_negative name v = (case v of
     Finite r \<Rightarrow> if r < 0 then Inl (JobValue name) else Inr r
   | _ \<Rightarrow> Inl (JobValue name))"

definition check_identifier :: "string \<Rightarrow> string \<Rightarrow> job_error + unit" where
  "check_identifier v name = guard_or (trimmed_identifier 160 v) (JobValue name)"

section \<open>Submissions and records\<close>

definition freeze_field :: "string \<Rightarrow> field_value \<Rightarrow> job_error + json" where
  "freeze_field path f = (case f of
     Raw h v \<Rightarrow> (case freeze_json_value h (ustr path) v of Inl e \<Rightarrow> Inl (JobJson e) | Inr j \<Rightarrow> Inr j)
   | Frozen j \<Rightarrow> Inr j)"

record job_spec =
  job_id :: string
  job_queue :: string
  user_priority :: int
  payload :: json
  max_attempts :: int
  workflow_id :: "string option"
  workflow_version_id :: "int option"
  cache_key :: "string option"
  resource_estimate :: "estimate option"
  warm_model_bonus :: pyfloat
  cache_reuse_bonus :: pyfloat
  memory_pressure_penalty :: pyfloat
  estimated_duration_penalty :: pyfloat

record job = job_spec +
  j_status :: job_status
  attempt :: int
  revision :: int
  created_at :: rat
  queued_at :: rat
  updated_at :: rat
  started_at :: "rat option"
  finished_at :: "rat option"
  j_result :: json
  j_error :: "json option"

definition bonus_check :: "string \<Rightarrow> pyfloat \<Rightarrow> job_error + unit" where
  "bonus_check name v = rbind (finite_non_negative name v) (\<lambda>_. Inr ())"

text \<open>The checks that \<open>JobSubmission.__post_init__\<close> and \<open>JobRecord.__post_init__\<close> share.\<close>

definition identity_checks :: "'a job_spec_scheme \<Rightarrow> (job_error + unit) list" where
  "identity_checks s =
     [check_identifier (job_id s) ''job_id'',
      guard_or (job_queue s \<in> queue_names) (JobValue ''queue''),
      guard_or (0 \<le> user_priority s \<and> user_priority s \<le> 100) (JobValue ''user_priority''),
      guard_or (1 \<le> max_attempts s) (JobValue ''max_attempts''),
      guard_or ((workflow_id s = None) = (workflow_version_id s = None)) (JobValue ''workflow''),
      (case workflow_id s of None \<Rightarrow> Inr () | Some w \<Rightarrow> check_identifier w ''workflow_id''),
      (case workflow_version_id s of None \<Rightarrow> Inr ()
       | Some v \<Rightarrow> guard_or (1 \<le> v) (JobValue ''workflow_version_id''))]"

definition option_checks :: "'a job_spec_scheme \<Rightarrow> (job_error + unit) list" where
  "option_checks s =
     [(case cache_key s of None \<Rightarrow> Inr () | Some k \<Rightarrow> check_identifier k ''cache_key''),
      bonus_check ''warm_model_bonus'' (warm_model_bonus s),
      bonus_check ''cache_reuse_bonus'' (cache_reuse_bonus s),
      bonus_check ''memory_pressure_penalty'' (memory_pressure_penalty s),
      bonus_check ''estimated_duration_penalty'' (estimated_duration_penalty s)]"

definition submission_post_init :: "field_value \<Rightarrow> job_spec \<Rightarrow> job_error + job_spec" where
  "submission_post_init pl s =
     rbind (checks (identity_checks s @ [guard_or (field_mapping pl) (JobValue ''payload'')])) (\<lambda>_.
     rbind (freeze_field ''$.payload'' pl) (\<lambda>p.
     rbind (checks (option_checks s)) (\<lambda>_. Inr (s\<lparr>payload := p\<rparr>))))"

definition lifetime_checks :: "bool \<Rightarrow> job \<Rightarrow> (job_error + unit) list" where
  "lifetime_checks no_result r =
     [guard_or (0 \<le> attempt r) (JobValue ''attempt''),
      guard_or (0 \<le> revision r) (JobValue ''revision''),
      guard_or (attempt r < max_attempts r) (JobValue ''attempt must be lower than max_attempts''),
      guard_or (0 \<le> created_at r) (JobValue ''created_at''),
      guard_or (0 \<le> queued_at r) (JobValue ''queued_at''),
      guard_or (0 \<le> updated_at r) (JobValue ''updated_at''),
      (case started_at r of None \<Rightarrow> Inr () | Some t \<Rightarrow> guard_or (0 \<le> t) (JobValue ''started_at'')),
      (case finished_at r of None \<Rightarrow> Inr () | Some t \<Rightarrow> guard_or (0 \<le> t) (JobValue ''finished_at'')),
      guard_or (created_at r \<le> queued_at r \<and> queued_at r \<le> updated_at r) (JobValue ''timestamps''),
      (case started_at r of None \<Rightarrow> Inr ()
       | Some t \<Rightarrow> guard_or (created_at r \<le> t \<and> t \<le> updated_at r) (JobValue ''started_at'')),
      (case finished_at r of None \<Rightarrow> Inr () | Some t \<Rightarrow> guard_or (t = updated_at r) (JobValue ''finished_at'')),
      guard_or (\<not> (j_status r = RUNNING \<and> started_at r = None)) (JobValue ''running jobs require started_at''),
      guard_or (\<not> (j_status r \<in> {QUEUED, PREPARING} \<and> started_at r \<noteq> None))
        (JobValue ''queued/preparing jobs cannot have started_at''),
      guard_or (terminal (j_status r) = (finished_at r \<noteq> None)) (JobValue ''finished_at presence''),
      guard_or (\<not> (j_status r \<noteq> COMPLETED \<and> \<not> no_result)) (JobValue ''only completed jobs may carry a result'')]"

definition freeze_error :: "field_value \<Rightarrow> job_error + json option" where
  "freeze_error er = (if field_none er then Inr None
     else rbind (freeze_field ''$.error'' er) (\<lambda>e.
       if \<not> is_object e then Inl (JobValue ''error must be a JSON object'') else Inr (Some e)))"

definition freeze_result :: "field_value \<Rightarrow> job_error + json" where
  "freeze_result rs = (if field_none rs then Inr JNull else freeze_field ''$.result'' rs)"

text \<open>
  \<open>JobRecord.__post_init__\<close>: the three JSON fields as passed, and the rest of the record. The
  frozen values replace the fields.
\<close>

definition job_post_init :: "field_value \<Rightarrow> field_value \<Rightarrow> field_value \<Rightarrow> job \<Rightarrow> job_error + job" where
  "job_post_init pl rs er r =
     rbind (checks (identity_checks r @ [guard_or (field_mapping pl) (JobValue ''payload'')]
       @ option_checks r @ lifetime_checks (field_none rs) r)) (\<lambda>_.
     rbind (freeze_field ''$.payload'' pl) (\<lambda>p.
     rbind (freeze_result rs) (\<lambda>res.
     rbind (freeze_error er) (\<lambda>err.
       Inr (r\<lparr>payload := p, j_result := res, j_error := err\<rparr>)))))"

definition monotonic_position :: "job \<Rightarrow> int" where
  "monotonic_position r = attempt r * 4 + status_position (j_status r)"

definition from_submission :: "job_spec \<Rightarrow> pyfloat \<Rightarrow> job_error + job" where
  "from_submission s now = rbind (finite_non_negative ''now'' now) (\<lambda>t.
     job_post_init (Frozen (payload s)) (Frozen JNull) (Frozen JNull)
       \<lparr>job_id = job_id s, job_queue = job_queue s, user_priority = user_priority s, payload = payload s,
        max_attempts = max_attempts s, workflow_id = workflow_id s,
        workflow_version_id = workflow_version_id s, cache_key = cache_key s,
        resource_estimate = resource_estimate s, warm_model_bonus = warm_model_bonus s,
        cache_reuse_bonus = cache_reuse_bonus s, memory_pressure_penalty = memory_pressure_penalty s,
        estimated_duration_penalty = estimated_duration_penalty s, j_status = QUEUED, attempt = 0,
        revision = 0, created_at = t, queued_at = t, updated_at = t, started_at = None,
        finished_at = None, j_result = JNull, j_error = None\<rparr>)"

text \<open>\<open>_transition_record\<close> and \<open>_retry_record\<close>; \<open>dataclasses.replace\<close> runs the constructor again.\<close>

definition transition_record :: "job \<Rightarrow> job_status \<Rightarrow> job_status \<Rightarrow> rat \<Rightarrow> field_value \<Rightarrow> field_value \<Rightarrow>
    job_error + job" where
  "transition_record cur expected target now rs er =
    (if j_status cur \<noteq> expected then Inl (JobTransitionConflict (job_id cur) expected (j_status cur))
     else if target \<notin> transitions (j_status cur) then Inl (InvalidJobTransition (j_status cur) target [])
     else if now < updated_at cur then Inl (JobValue ''transition time cannot move backwards'')
     else if \<not> field_none rs \<and> target \<noteq> COMPLETED then Inl (JobValue ''result is only valid for completed jobs'')
     else if \<not> field_none er \<and> target \<notin> {FAILED, CANCELLED}
       then Inl (JobValue ''error is only valid for failed or cancelled jobs'')
     else job_post_init (Frozen (payload cur)) rs er
       (cur\<lparr>j_status := target, revision := revision cur + 1, updated_at := now,
            started_at := (if target = RUNNING then Some now else started_at cur),
            finished_at := (if terminal target then Some now else None)\<rparr>))"

definition retry_record :: "job \<Rightarrow> job_status \<Rightarrow> rat \<Rightarrow> field_value \<Rightarrow> job_error + job" where
  "retry_record cur expected now er =
    (if j_status cur \<noteq> expected then Inl (JobTransitionConflict (job_id cur) expected (j_status cur))
     else if expected \<notin> {FAILED, PREPARING, RUNNING} then Inl (InvalidJobTransition expected QUEUED ''not retryable'')
     else if attempt cur + 1 \<ge> max_attempts cur
       then Inl (InvalidJobTransition expected QUEUED ''retry budget exhausted'')
     else if now < updated_at cur then Inl (JobValue ''retry time cannot move backwards'')
     else job_post_init (Frozen (payload cur)) (Frozen JNull) er
       (cur\<lparr>j_status := QUEUED, attempt := attempt cur + 1, revision := revision cur + 1,
            queued_at := now, updated_at := now, started_at := None, finished_at := None\<rparr>))"

section \<open>The in-memory repository\<close>

record job_repo =
  jr_records :: "(string, job) dict"
  jr_history :: "(string, job list) dict"

definition new_repo :: job_repo where
  "new_repo = \<lparr>jr_records = [], jr_history = []\<rparr>"

definition repo_create :: "job_spec \<Rightarrow> pyfloat \<Rightarrow> job_repo \<Rightarrow> (job_error + job) \<times> job_repo" where
  "repo_create s now R =
    (if job_id s \<in> set (dkeys (jr_records R)) then (Inl (DuplicateJob (job_id s)), R)
     else case from_submission s now of
       Inl e \<Rightarrow> (Inl e, R)
     | Inr r \<Rightarrow> (Inr r, R\<lparr>jr_records := AList.update (job_id r) r (jr_records R),
                        jr_history := AList.update (job_id r) [r] (jr_history R)\<rparr>))"

definition repo_get :: "job_repo \<Rightarrow> string \<Rightarrow> job option" where
  "repo_get R i = map_of (jr_records R) i"

definition repo_list :: "job_repo \<Rightarrow> job list" where
  "repo_list R = sort_key (\<lambda>r. (created_at r, job_id r)) (dvalues (jr_records R))"

text \<open>Both mutating methods store the record, then append to the history of its identifier.\<close>

definition repo_store :: "string \<Rightarrow> job \<Rightarrow> job_repo \<Rightarrow> (job_error + job) \<times> job_repo" where
  "repo_store i r R = (let R1 = R\<lparr>jr_records := AList.update i r (jr_records R)\<rparr> in
     case map_of (jr_history R1) i of
       None \<Rightarrow> (Inl (JobKeyError i), R1)
     | Some h \<Rightarrow> (Inr r, R1\<lparr>jr_history := AList.update i (h @ [r]) (jr_history R1)\<rparr>))"

definition repo_transition :: "string \<Rightarrow> job_status \<Rightarrow> job_status \<Rightarrow> pyfloat \<Rightarrow> field_value \<Rightarrow> field_value \<Rightarrow>
    job_repo \<Rightarrow> (job_error + job) \<times> job_repo" where
  "repo_transition i expected target now rs er R =
    (case finite_non_negative ''now'' now of
       Inl e \<Rightarrow> (Inl e, R)
     | Inr t \<Rightarrow> (case repo_get R i of
         None \<Rightarrow> (Inl (JobNotFound i), R)
       | Some cur \<Rightarrow> (case transition_record cur expected target t rs er of
           Inl e \<Rightarrow> (Inl e, R)
         | Inr r \<Rightarrow> repo_store i r R)))"

definition repo_retry :: "string \<Rightarrow> pyfloat \<Rightarrow> job_status \<Rightarrow> field_value \<Rightarrow> job_repo \<Rightarrow>
    (job_error + job) \<times> job_repo" where
  "repo_retry i now expected er R =
    (case finite_non_negative ''now'' now of
       Inl e \<Rightarrow> (Inl e, R)
     | Inr t \<Rightarrow> (case repo_get R i of
         None \<Rightarrow> (Inl (JobNotFound i), R)
       | Some cur \<Rightarrow> (case retry_record cur expected t er of
           Inl e \<Rightarrow> (Inl e, R)
         | Inr r \<Rightarrow> repo_store i r R)))"

definition repo_history :: "job_repo \<Rightarrow> string \<Rightarrow> job_error + job list" where
  "repo_history R i = (case map_of (jr_history R) i of None \<Rightarrow> Inl (JobNotFound i) | Some h \<Rightarrow> Inr h)"

section \<open>Valid records\<close>

definition spec_ok :: "'a job_spec_scheme \<Rightarrow> bool" where
  "spec_ok s = (list_all (\<lambda>c. c = Inr ()) (identity_checks s @ option_checks s) \<and> is_object (payload s))"

definition lifetime_ok :: "job \<Rightarrow> bool" where
  "lifetime_ok r = (0 \<le> attempt r \<and> 0 \<le> revision r \<and> attempt r < max_attempts r
     \<and> 0 \<le> created_at r \<and> created_at r \<le> queued_at r \<and> queued_at r \<le> updated_at r
     \<and> (case started_at r of None \<Rightarrow> j_status r \<noteq> RUNNING
        | Some t \<Rightarrow> created_at r \<le> t \<and> t \<le> updated_at r \<and> j_status r \<notin> {QUEUED, PREPARING})
     \<and> finished_at r = (if terminal (j_status r) then Some (updated_at r) else None))"

text \<open>A record the code can hold: its own constructor accepts it and leaves it as it is.\<close>

definition valid_job :: "job \<Rightarrow> bool" where
  "valid_job r = (job_post_init (Frozen (payload r)) (Frozen (j_result r))
     (Frozen (case j_error r of None \<Rightarrow> JNull | Some e \<Rightarrow> e)) r = Inr r)"

lemma lifetime_checks_ok:
  "list_all (\<lambda>c. c = Inr ()) (lifetime_checks b r) \<longleftrightarrow> lifetime_ok r \<and> (j_status r \<noteq> COMPLETED \<longrightarrow> b)"
proof -
  have "list_all (\<lambda>c. c = Inr ()) (lifetime_checks b r) \<longleftrightarrow>
     0 \<le> attempt r \<and> 0 \<le> revision r \<and> attempt r < max_attempts r
     \<and> 0 \<le> created_at r \<and> 0 \<le> queued_at r \<and> 0 \<le> updated_at r
     \<and> (case started_at r of None \<Rightarrow> True | Some t \<Rightarrow> 0 \<le> t)
     \<and> (case finished_at r of None \<Rightarrow> True | Some t \<Rightarrow> 0 \<le> t)
     \<and> created_at r \<le> queued_at r \<and> queued_at r \<le> updated_at r
     \<and> (case started_at r of None \<Rightarrow> True | Some t \<Rightarrow> created_at r \<le> t \<and> t \<le> updated_at r)
     \<and> (case finished_at r of None \<Rightarrow> True | Some t \<Rightarrow> t = updated_at r)
     \<and> \<not> (j_status r = RUNNING \<and> started_at r = None)
     \<and> \<not> (j_status r \<in> {QUEUED, PREPARING} \<and> started_at r \<noteq> None)
     \<and> terminal (j_status r) = (finished_at r \<noteq> None) \<and> (j_status r \<noteq> COMPLETED \<longrightarrow> b)"
    by (cases "started_at r"; cases "finished_at r") (auto simp: lifetime_checks_def)
  also have "\<dots> \<longleftrightarrow> lifetime_ok r \<and> (j_status r \<noteq> COMPLETED \<longrightarrow> b)"
    by (cases "started_at r"; cases "finished_at r") (auto simp: lifetime_ok_def)
  finally show ?thesis .
qed

lemma job_post_init_ok:
  assumes "list_all (\<lambda>c. c = Inr ()) (identity_checks r @ [guard_or (field_mapping pl) (JobValue ''payload'')]
       @ option_checks r @ lifetime_checks (field_none rs) r)"
  shows "job_post_init pl rs er r =
     rbind (freeze_field ''$.payload'' pl) (\<lambda>p. rbind (freeze_result rs) (\<lambda>res.
       rbind (freeze_error er) (\<lambda>err. Inr (r\<lparr>payload := p, j_result := res, j_error := err\<rparr>))))"
proof -
  have "checks (identity_checks r @ [guard_or (field_mapping pl) (JobValue ''payload'')]
       @ option_checks r @ lifetime_checks (field_none rs) r) = Inr ()"
    using assms by (simp only: checks_Inr_iff)
  then show ?thesis unfolding job_post_init_def by (simp only: rbind_simps)
qed

lemma field_mapping_Frozen [simp]: "field_mapping (Frozen j) = is_object j"
  by (simp add: field_mapping_def)

lemma freeze_field_Frozen [simp]: "freeze_field p (Frozen j) = Inr j"
  by (simp add: freeze_field_def)

lemma field_none_Frozen [simp]: "field_none (Frozen j) \<longleftrightarrow> j = JNull"
  by (simp add: field_none_def)

lemma freeze_result_Frozen [simp]: "freeze_result (Frozen j) = Inr j"
  by (simp add: freeze_result_def)

lemma freeze_result_none [simp]: "field_none rs \<Longrightarrow> freeze_result rs = Inr JNull"
  by (simp add: freeze_result_def)

lemma freeze_error_none [simp]: "field_none er \<Longrightarrow> freeze_error er = Inr None"
  by (simp add: freeze_error_def)

lemma is_object_JNull [simp]: "\<not> is_object JNull"
  by (simp add: is_object_def)

lemma freeze_error_Some: "freeze_error er = Inr (Some e) \<Longrightarrow> is_object e"
  by (auto simp: freeze_error_def rbind_Inr_iff split: if_splits)

lemma valid_job_iff:
  "valid_job r \<longleftrightarrow> spec_ok r \<and> lifetime_ok r \<and> (j_status r \<noteq> COMPLETED \<longrightarrow> j_result r = JNull)
     \<and> (\<forall>e. j_error r = Some e \<longrightarrow> is_object e)"
proof -
  have err: "freeze_error (Frozen (case j_error r of None \<Rightarrow> JNull | Some e \<Rightarrow> e)) = Inr (j_error r)
      \<longleftrightarrow> (\<forall>e. j_error r = Some e \<longrightarrow> is_object e)"
    by (auto simp: freeze_error_def split: option.splits)
  have "r\<lparr>payload := payload r, j_result := j_result r, j_error := x\<rparr> = r \<longleftrightarrow> x = j_error r" for x
    by (cases r) auto
  then show ?thesis
    by (auto simp: valid_job_def job_post_init_def rbind_Inr_iff spec_ok_def lifetime_checks_ok err[symmetric])
qed

lemma valid_post_init:
  assumes "spec_ok r" and "lifetime_ok r" and "j_status r \<noteq> COMPLETED \<longrightarrow> field_none rs"
  shows "job_post_init (Frozen (payload r)) rs er r =
    rbind (freeze_result rs) (\<lambda>res. rbind (freeze_error er) (\<lambda>err. Inr (r\<lparr>j_result := res, j_error := err\<rparr>)))"
proof -
  have "list_all (\<lambda>c. c = Inr ()) (identity_checks r @ [guard_or (field_mapping (Frozen (payload r))) (JobValue ''payload'')]
       @ option_checks r @ lifetime_checks (field_none rs) r)"
    using assms by (simp add: spec_ok_def lifetime_checks_ok)
  then show ?thesis by (subst job_post_init_ok) simp_all
qed

lemma spec_ok_update [simp]:
  "spec_ok (r\<lparr>j_status := a, revision := b, updated_at := c, started_at := d, finished_at := e\<rparr>) = spec_ok r"
  "spec_ok (r\<lparr>j_status := a, attempt := n, revision := b, queued_at := q, updated_at := c,
     started_at := d, finished_at := e\<rparr>) = spec_ok r"
  "spec_ok (r\<lparr>j_result := res, j_error := err\<rparr>) = spec_ok r"
  by (simp_all add: spec_ok_def identity_checks_def option_checks_def)

lemma lifetime_ok_update [simp]: "lifetime_ok (r\<lparr>j_result := res, j_error := err\<rparr>) = lifetime_ok r"
  by (cases "started_at r") (simp_all add: lifetime_ok_def)

definition moved :: "job \<Rightarrow> job_status \<Rightarrow> rat \<Rightarrow> job" where
  "moved cur target now = cur\<lparr>j_status := target, revision := revision cur + 1, updated_at := now,
     started_at := (if target = RUNNING then Some now else started_at cur),
     finished_at := (if terminal target then Some now else None)\<rparr>"

definition requeued :: "job \<Rightarrow> rat \<Rightarrow> job" where
  "requeued cur now = cur\<lparr>j_status := QUEUED, attempt := attempt cur + 1, revision := revision cur + 1,
     queued_at := now, updated_at := now, started_at := None, finished_at := None\<rparr>"

lemma moved_ok:
  assumes "valid_job cur" and "target \<in> transitions (j_status cur)" and "updated_at cur \<le> now"
  shows "spec_ok (moved cur target now)" and "lifetime_ok (moved cur target now)"
  using assms
  by (auto simp: moved_def valid_job_iff lifetime_ok_def terminal_def split: option.splits)
    (cases "j_status cur"; auto)+

lemma requeued_ok:
  assumes "valid_job cur" and "attempt cur + 1 < max_attempts cur" and "updated_at cur \<le> now"
  shows "spec_ok (requeued cur now)" and "lifetime_ok (requeued cur now)"
  using assms by (auto simp: requeued_def valid_job_iff lifetime_ok_def terminal_def)

section \<open>Transitions and retries\<close>

text \<open>Both operations as guards followed by freezing the JSON arguments, without the constructor.\<close>

definition finish :: "field_value \<Rightarrow> field_value \<Rightarrow> job \<Rightarrow> job_error + job" where
  "finish rs er r = rbind (freeze_result rs) (\<lambda>res. rbind (freeze_error er) (\<lambda>err.
     Inr (r\<lparr>j_result := res, j_error := err\<rparr>)))"

lemma transition_record_eq:
  assumes "valid_job cur"
  shows "transition_record cur expected target now rs er =
    (if j_status cur \<noteq> expected then Inl (JobTransitionConflict (job_id cur) expected (j_status cur))
     else if target \<notin> transitions (j_status cur) then Inl (InvalidJobTransition (j_status cur) target [])
     else if now < updated_at cur then Inl (JobValue ''transition time cannot move backwards'')
     else if \<not> field_none rs \<and> target \<noteq> COMPLETED then Inl (JobValue ''result is only valid for completed jobs'')
     else if \<not> field_none er \<and> target \<notin> {FAILED, CANCELLED}
       then Inl (JobValue ''error is only valid for failed or cancelled jobs'')
     else finish rs er (moved cur target now))"
proof -
  have "job_post_init (Frozen (payload cur)) rs er (moved cur target now) = finish rs er (moved cur target now)"
    if "target \<in> transitions (j_status cur)" "\<not> now < updated_at cur" "field_none rs \<or> target = COMPLETED"
    using valid_post_init [OF moved_ok(1,2) [OF assms that(1)], of now rs er] that
    by (auto simp: finish_def moved_def)
  then show ?thesis
    unfolding transition_record_def moved_def [symmetric] by auto
qed

lemma retry_record_eq:
  assumes "valid_job cur"
  shows "retry_record cur expected now er =
    (if j_status cur \<noteq> expected then Inl (JobTransitionConflict (job_id cur) expected (j_status cur))
     else if expected \<notin> {FAILED, PREPARING, RUNNING} then Inl (InvalidJobTransition expected QUEUED ''not retryable'')
     else if attempt cur + 1 \<ge> max_attempts cur
       then Inl (InvalidJobTransition expected QUEUED ''retry budget exhausted'')
     else if now < updated_at cur then Inl (JobValue ''retry time cannot move backwards'')
     else finish (Frozen JNull) er (requeued cur now))"
proof -
  have "job_post_init (Frozen (payload cur)) (Frozen JNull) er (requeued cur now) = finish (Frozen JNull) er (requeued cur now)"
    if "attempt cur + 1 < max_attempts cur" "updated_at cur \<le> now"
    using valid_post_init [OF requeued_ok(1,2) [OF assms that(1) that(2)], of "Frozen JNull" er]
    by (simp add: finish_def requeued_def)
  then show ?thesis
    unfolding retry_record_def requeued_def [symmetric] by auto
qed

lemma finish_valid:
  assumes "finish rs er r = Inr r'" and "spec_ok r" and "lifetime_ok r" and "j_status r \<noteq> COMPLETED \<longrightarrow> field_none rs"
  shows "valid_job r'"
  using assms by (auto simp: finish_def rbind_Inr_iff valid_job_iff dest: freeze_error_Some)

lemma finish_fields:
  assumes "finish rs er r = Inr r'"
  shows "r' = r\<lparr>j_result := j_result r', j_error := j_error r'\<rparr>"
  using assms by (auto simp: finish_def rbind_Inr_iff)

lemma status_position_less: "t \<in> transitions s \<Longrightarrow> status_position s < status_position t"
  by (cases s) auto

text \<open>What both operations do to a record: a legal move, or a new attempt.\<close>

definition advances :: "job \<Rightarrow> job \<Rightarrow> bool" where
  "advances r r' = (revision r' = revision r + 1 \<and> monotonic_position r < monotonic_position r'
     \<and> updated_at r \<le> updated_at r' \<and> job_id r' = job_id r \<and> created_at r' = created_at r
     \<and> max_attempts r' = max_attempts r
     \<and> (j_status r' \<in> transitions (j_status r) \<and> attempt r' = attempt r
        \<or> j_status r' = QUEUED \<and> attempt r' = attempt r + 1 \<and> j_status r \<in> {FAILED, PREPARING, RUNNING}))"

lemma transition_record_step:
  assumes v: "valid_job cur" and t: "transition_record cur expected target now rs er = Inr r"
  shows "valid_job r" and "advances cur r" and "j_status r = target" and "j_status cur = expected"
    and "target \<in> transitions expected"
proof -
  from t have g: "j_status cur = expected" "target \<in> transitions (j_status cur)" "updated_at cur \<le> now"
      "field_none rs \<or> target = COMPLETED" and f: "finish rs er (moved cur target now) = Inr r"
    unfolding transition_record_eq [OF v] by (auto split: if_splits)
  show "valid_job r"
    using finish_valid [OF f moved_ok [OF v g(2,3)]] g(4) by (auto simp: moved_def)
  obtain a b where r: "r = (moved cur target now)\<lparr>j_result := a, j_error := b\<rparr>"
    using finish_fields [OF f] by blast
  show "advances cur r" "j_status r = target" "j_status cur = expected" "target \<in> transitions expected"
    using g status_position_less [OF g(2)] by (auto simp: r moved_def advances_def monotonic_position_def)
qed

lemma status_position_bounds: "0 \<le> status_position s" "status_position s \<le> 3"
  by (cases s; simp)+

lemma retry_record_step:
  assumes v: "valid_job cur" and t: "retry_record cur expected now er = Inr r"
  shows "valid_job r" and "advances cur r" and "j_status r = QUEUED" and "j_status cur = expected"
    and "attempt r = attempt cur + 1" and "expected \<in> {FAILED, PREPARING, RUNNING}"
proof -
  from t have g: "j_status cur = expected" "expected \<in> {FAILED, PREPARING, RUNNING}"
      "attempt cur + 1 < max_attempts cur" "updated_at cur \<le> now"
      and f: "finish (Frozen JNull) er (requeued cur now) = Inr r"
    unfolding retry_record_eq [OF v] by (auto split: if_splits)
  show "valid_job r"
    using finish_valid [OF f requeued_ok [OF v g(3,4)]] by simp
  obtain a b where r: "r = (requeued cur now)\<lparr>j_result := a, j_error := b\<rparr>"
    using finish_fields [OF f] by blast
  show "advances cur r" "j_status r = QUEUED" "j_status cur = expected" "attempt r = attempt cur + 1"
    "expected \<in> {FAILED, PREPARING, RUNNING}"
    using g status_position_bounds [of "j_status cur"]
    by (auto simp: r requeued_def advances_def monotonic_position_def)
qed

lemma from_submission_valid:
  assumes "from_submission s now = Inr r"
  shows "valid_job r" and "j_status r = QUEUED" and "attempt r = 0" and "revision r = 0" and "job_id r = job_id s"
proof -
  show "j_status r = QUEUED" "attempt r = 0" "revision r = 0" "job_id r = job_id s"
    using assms by (auto simp: from_submission_def job_post_init_def rbind_Inr_iff)
  show "valid_job r"
    using assms by (auto simp: from_submission_def job_post_init_def rbind_Inr_iff valid_job_iff spec_ok_def
        lifetime_checks_ok freeze_error_def identity_checks_def option_checks_def lifetime_ok_def)
qed

lemma spec_ok_scheme:
  "spec_ok s \<Longrightarrow> is_ok (finite_non_negative ''now'' now) \<Longrightarrow> is_ok (from_submission s now)"
  by (auto simp: from_submission_def is_ok_iff spec_ok_def identity_checks_def option_checks_def
      job_post_init_def rbind_Inr_iff lifetime_checks_def finite_non_negative_def terminal_def freeze_error_def
      split: pyfloat.splits if_splits)

section \<open>The life of a job\<close>

inductive job_step :: "job \<Rightarrow> job \<Rightarrow> bool" where
  job_transition: "transition_record r expected target now rs er = Inr r' \<Longrightarrow> job_step r r'"
| job_retry: "retry_record r expected now er = Inr r' \<Longrightarrow> job_step r r'"

inductive_cases job_stepE: "job_step r r'"

definition job_start :: "job \<Rightarrow> bool" where
  "job_start r = (\<exists>s now. from_submission s now = Inr r)"

lemma job_step_valid: "job_step r r' \<Longrightarrow> valid_job r \<Longrightarrow> valid_job r' \<and> advances r r'"
  by (auto elim!: job_stepE dest: transition_record_step(1,2) retry_record_step(1,2))

interpretation job_life: progress_system job_start job_step valid_job monotonic_position
proof
  show "valid_job r" if "job_start r" for r
    using that by (auto simp: job_start_def dest: from_submission_valid)
  show "valid_job r'" if "job_step r r'" "valid_job r" for r r'
    using job_step_valid [OF that] by simp
  show "monotonic_position r < monotonic_position r'" if "job_step r r'" "valid_job r" for r r'
    using job_step_valid [OF that] by (simp add: advances_def)
qed

lemma position_bounds:
  assumes "valid_job r"
  shows "0 \<le> monotonic_position r" and "monotonic_position r < 4 * max_attempts r"
  using assms status_position_bounds [of "j_status r"]
  by (auto simp: valid_job_iff lifetime_ok_def monotonic_position_def)

lemma job_run_fields:
  assumes "(job_step ^^ n) r0 r" and "valid_job r0"
  shows "revision r = revision r0 + int n \<and> job_id r = job_id r0 \<and> max_attempts r = max_attempts r0"
  using assms
proof (induction n arbitrary: r)
  case (Suc n)
  from Suc.prems(1) obtain q where q: "(job_step ^^ n) r0 q" "job_step q r" by auto
  have "valid_job q" using job_life.position_run [OF q(1) Suc.prems(2)] by simp
  from job_step_valid [OF q(2) this] Suc.IH [OF q(1) Suc.prems(2)] show ?case
    by (auto simp: advances_def)
qed simp

text \<open>
  C31. The life of a job is finite and ordered. After any n successful transitions and retries
  from a submission, the record is valid, its revision is n, its \<open>monotonic_position\<close> is at least
  n, it is not any of its earlier versions, and n is below four times the attempts it was
  submitted with.
\<close>

theorem job_life_bounded:
  assumes "from_submission s now = Inr r0" and "(job_step ^^ n) r0 r"
  shows "valid_job r \<and> revision r = int n \<and> int n \<le> monotonic_position r
    \<and> int n < 4 * max_attempts s \<and> (0 < n \<longrightarrow> r \<noteq> r0)"
proof -
  note v0 = from_submission_valid [OF assms(1)]
  have m: "max_attempts r0 = max_attempts s"
    using assms(1) by (auto simp: from_submission_def job_post_init_def rbind_Inr_iff)
  note run = job_life.position_run [OF assms(2) v0(1)]
  note f = job_run_fields [OF assms(2) v0(1)]
  have "int n \<le> monotonic_position r" using run position_bounds(1) [OF v0(1)] by simp
  moreover have "monotonic_position r < 4 * max_attempts s"
    using position_bounds(2) [of r] run f m by simp
  moreover have "r \<noteq> r0" if "0 < n" using f that by auto
  ultimately show ?thesis using run f v0(4) by simp
qed

section \<open>The contract of a repository\<close>

text \<open>
  What the scheduler relies on: a lookup sees the last write, a transition is a compare-and-swap
  on the status, and a failed call changes nothing.
\<close>

locale job_repository =
  fixes inv :: "'s \<Rightarrow> bool"
    and find_job :: "'s \<Rightarrow> string \<Rightarrow> job option"
    and create :: "job_spec \<Rightarrow> pyfloat \<Rightarrow> 's \<Rightarrow> (job_error + job) \<times> 's"
    and move :: "string \<Rightarrow> job_status \<Rightarrow> job_status \<Rightarrow> pyfloat \<Rightarrow> field_value \<Rightarrow> field_value \<Rightarrow> 's \<Rightarrow>
      (job_error + job) \<times> 's"
    and requeue :: "string \<Rightarrow> pyfloat \<Rightarrow> job_status \<Rightarrow> field_value \<Rightarrow> 's \<Rightarrow> (job_error + job) \<times> 's"
  assumes create_ok: "inv s \<Longrightarrow> create sub now s = (Inr r, s') \<Longrightarrow>
      inv s' \<and> find_job s (job_id sub) = None \<and> find_job s' = (find_job s)(job_id sub \<mapsto> r) \<and> j_status r = QUEUED"
    and create_fail: "inv s \<Longrightarrow> create sub now s = (Inl e, s') \<Longrightarrow> s' = s"
    and move_ok: "inv s \<Longrightarrow> move i expected target now rs er s = (Inr r, s') \<Longrightarrow>
      inv s' \<and> find_job s' = (find_job s)(i \<mapsto> r) \<and> j_status r = target \<and> target \<in> transitions expected
      \<and> (\<exists>cur. find_job s i = Some cur \<and> j_status cur = expected \<and> advances cur r)"
    and move_fail: "inv s \<Longrightarrow> move i expected target now rs er s = (Inl e, s') \<Longrightarrow> s' = s"
    and requeue_ok: "inv s \<Longrightarrow> requeue i now expected er s = (Inr r, s') \<Longrightarrow>
      inv s' \<and> find_job s' = (find_job s)(i \<mapsto> r) \<and> j_status r = QUEUED
      \<and> expected \<in> {FAILED, PREPARING, RUNNING}
      \<and> (\<exists>cur. find_job s i = Some cur \<and> j_status cur = expected \<and> advances cur r)"
    and requeue_fail: "inv s \<Longrightarrow> requeue i now expected er s = (Inl e, s') \<Longrightarrow> s' = s"
begin

lemma move_loses:
  assumes "inv s" and "find_job s i = Some cur" and "j_status cur \<noteq> expected"
  shows "\<not> is_ok (fst (move i expected target now rs er s))"
proof
  assume "is_ok (fst (move i expected target now rs er s))"
  then obtain r s' where "move i expected target now rs er s = (Inr r, s')"
    by (cases "move i expected target now rs er s"; cases "fst (move i expected target now rs er s)") auto
  from move_ok [OF assms(1) this] assms show False by auto
qed

lemma one_winner:
  assumes "inv s" and "move i expected target now rs er s = (Inr r, s')"
  shows "\<not> is_ok (fst (move i expected target' now' rs' er' s'))"
proof -
  from move_ok [OF assms] have "inv s'" "find_job s' i = Some r" "j_status r \<noteq> expected"
    by (auto, cases expected, auto)
  then show ?thesis by (rule move_loses)
qed

lemma terminal_stays:
  assumes "inv s" and "find_job s i = Some cur" and "terminal (j_status cur)"
  shows "\<not> is_ok (fst (move i expected target now rs er s))"
proof
  assume "is_ok (fst (move i expected target now rs er s))"
  then obtain r s' where "move i expected target now rs er s = (Inr r, s')"
    by (cases "move i expected target now rs er s"; cases "fst (move i expected target now rs er s)") auto
  from move_ok [OF assms(1) this] assms show False by (auto simp: terminal_def)
qed

lemma others_untouched:
  assumes "inv s" and "move i expected target now rs er s = (x, s')" and "k \<noteq> i"
  shows "find_job s' k = find_job s k"
  using assms(2,3) move_ok [OF assms(1)] move_fail [OF assms(1)]
  by (cases x) (fastforce dest: move_fail [OF assms(1)])+

end

definition good_history :: "job list \<Rightarrow> bool" where
  "good_history h = (h \<noteq> [] \<and> j_status (hd h) = QUEUED \<and> attempt (hd h) = 0 \<and> revision (hd h) = 0
     \<and> list_all valid_job h \<and> successively advances h)"

definition repo_ok :: "job_repo \<Rightarrow> bool" where
  "repo_ok R = (wf_dict (jr_records R) \<and> wf_dict (jr_history R)
     \<and> set (dkeys (jr_history R)) = set (dkeys (jr_records R))
     \<and> (\<forall>i r. map_of (jr_records R) i = Some r \<longrightarrow> job_id r = i
          \<and> (\<exists>h. map_of (jr_history R) i = Some h \<and> good_history h \<and> last h = r)))"

lemma good_history_valid: "good_history h \<Longrightarrow> valid_job (last h)"
  by (auto simp: good_history_def list_all_iff)

lemma good_history_snoc:
  "good_history h \<Longrightarrow> advances (last h) r \<Longrightarrow> valid_job r \<Longrightarrow> good_history (h @ [r])"
  by (auto simp: good_history_def successively_append_iff)

lemma repo_okD:
  assumes "repo_ok R" and "repo_get R i = Some r"
  obtains h where "map_of (jr_history R) i = Some h" "good_history h" "last h = r" "job_id r = i" "valid_job r"
proof -
  from assms obtain h where h: "map_of (jr_history R) i = Some h" "good_history h" "last h = r" "job_id r = i"
    unfolding repo_ok_def repo_get_def by blast
  with good_history_valid [OF h(2)] show thesis using that by simp
qed

lemma repo_store_ok:
  assumes inv: "repo_ok R" and cur: "repo_get R i = Some cur" and r: "advances cur r" "valid_job r"
  obtains R' where "repo_store i r R = (Inr r, R')" "repo_ok R'" "jr_records R' = AList.update i r (jr_records R)"
proof -
  obtain h where h: "map_of (jr_history R) i = Some h" "good_history h" "last h = cur" "job_id cur = i"
    by (rule repo_okD [OF inv cur])
  let ?R = "R\<lparr>jr_records := AList.update i r (jr_records R), jr_history := AList.update i (h @ [r]) (jr_history R)\<rparr>"
  have "repo_store i r R = (Inr r, ?R)" using h by (simp add: repo_store_def Let_def)
  moreover have "repo_ok ?R"
    using inv h r good_history_snoc [of h r]
    by (auto simp: repo_ok_def map_of_update dkeys_update advances_def intro: wf_dict_update)
  ultimately show thesis using that by simp
qed

lemma repo_transition_ok:
  assumes inv: "repo_ok R" and t: "repo_transition i expected target now rs er R = (Inr r, R')"
  shows "repo_ok R' \<and> repo_get R' = (repo_get R)(i \<mapsto> r) \<and> j_status r = target \<and> target \<in> transitions expected
      \<and> (\<exists>cur. repo_get R i = Some cur \<and> j_status cur = expected \<and> advances cur r)"
proof -
  from t obtain u cur r0 where u: "finite_non_negative ''now'' now = Inr u" "repo_get R i = Some cur"
      "transition_record cur expected target u rs er = Inr r0" "repo_store i r0 R = (Inr r, R')"
    by (auto simp: repo_transition_def split: sum.splits option.splits)
  have v: "valid_job cur" by (rule repo_okD [OF inv u(2)])
  note st = transition_record_step [OF v u(3)]
  obtain R2 where R2: "repo_store i r0 R = (Inr r0, R2)" "repo_ok R2" "jr_records R2 = AList.update i r0 (jr_records R)"
    by (rule repo_store_ok [OF inv u(2) st(2,1)])
  have "repo_get R2 = (repo_get R)(i \<mapsto> r0)"
    by (rule ext) (simp add: repo_get_def R2(3) map_of_update)
  with R2 u st show ?thesis by auto
qed

lemma repo_retry_ok:
  assumes inv: "repo_ok R" and t: "repo_retry i now expected er R = (Inr r, R')"
  shows "repo_ok R' \<and> repo_get R' = (repo_get R)(i \<mapsto> r) \<and> j_status r = QUEUED
      \<and> expected \<in> {FAILED, PREPARING, RUNNING}
      \<and> (\<exists>cur. repo_get R i = Some cur \<and> j_status cur = expected \<and> advances cur r)"
proof -
  from t obtain u cur r0 where u: "finite_non_negative ''now'' now = Inr u" "repo_get R i = Some cur"
      "retry_record cur expected u er = Inr r0" "repo_store i r0 R = (Inr r, R')"
    by (auto simp: repo_retry_def split: sum.splits option.splits)
  have v: "valid_job cur" by (rule repo_okD [OF inv u(2)])
  note st = retry_record_step [OF v u(3)]
  obtain R2 where R2: "repo_store i r0 R = (Inr r0, R2)" "repo_ok R2" "jr_records R2 = AList.update i r0 (jr_records R)"
    by (rule repo_store_ok [OF inv u(2) st(2,1)])
  have "repo_get R2 = (repo_get R)(i \<mapsto> r0)"
    by (rule ext) (simp add: repo_get_def R2(3) map_of_update)
  with R2 u st show ?thesis by auto
qed

lemma repo_fails:
  assumes "repo_ok R"
  shows "repo_transition i expected target now rs er R = (Inl e, R') \<Longrightarrow> R' = R"
    and "repo_retry i now expected er R = (Inl e, R') \<Longrightarrow> R' = R"
    and "repo_create s now R = (Inl e, R') \<Longrightarrow> R' = R"
proof -
  have st: "\<exists>R2. repo_store i r0 R = (Inr r0, R2)" if "repo_get R i = Some cur" "advances cur r0" "valid_job r0" for cur r0
    by (rule repo_store_ok [OF assms that]) blast
  have v: "valid_job cur" if "repo_get R i = Some cur" for cur
    by (rule repo_okD [OF assms that])
  show "repo_transition i expected target now rs er R = (Inl e, R') \<Longrightarrow> R' = R"
    using st transition_record_step(1,2) [OF v]
    by (fastforce simp: repo_transition_def split: sum.splits option.splits)
  show "repo_retry i now expected er R = (Inl e, R') \<Longrightarrow> R' = R"
    using st retry_record_step(1,2) [OF v]
    by (fastforce simp: repo_retry_def split: sum.splits option.splits)
  show "repo_create s now R = (Inl e, R') \<Longrightarrow> R' = R"
    by (auto simp: repo_create_def split: sum.splits if_splits)
qed

lemma repo_create_ok:
  assumes inv: "repo_ok R" and c: "repo_create s now R = (Inr r, R')"
  shows "repo_ok R' \<and> repo_get R (job_id s) = None \<and> repo_get R' = (repo_get R)(job_id s \<mapsto> r) \<and> j_status r = QUEUED"
proof -
  from c have new: "job_id s \<notin> set (dkeys (jr_records R))" and f: "from_submission s now = Inr r"
      and R': "R' = R\<lparr>jr_records := AList.update (job_id r) r (jr_records R),
                     jr_history := AList.update (job_id r) [r] (jr_history R)\<rparr>"
    by (auto simp: repo_create_def split: sum.splits if_splits)
  note r = from_submission_valid [OF f]
  have "good_history [r]" using r by (simp add: good_history_def)
  then have "repo_ok R'"
    using inv new r(5) by (auto simp: R' repo_ok_def map_of_update dkeys_update intro: wf_dict_update)
  moreover have "repo_get R' = (repo_get R)(job_id s \<mapsto> r)"
    by (rule ext) (simp add: R' repo_get_def map_of_update r)
  ultimately show ?thesis
    using new r(2) by (auto simp: repo_get_def map_of_eq_None_iff)
qed

interpretation memory_repo: job_repository repo_ok repo_get repo_create repo_transition repo_retry
proof
  fix R R' :: job_repo and e r s now i expected target rs er
  assume inv: "repo_ok R"
  show "repo_create s now R = (Inr r, R') \<Longrightarrow> repo_ok R' \<and> repo_get R (job_id s) = None
      \<and> repo_get R' = (repo_get R)(job_id s \<mapsto> r) \<and> j_status r = QUEUED"
    by (rule repo_create_ok [OF inv])
  show "repo_create s now R = (Inl e, R') \<Longrightarrow> R' = R" by (rule repo_fails(3) [OF inv])
  show "repo_transition i expected target now rs er R = (Inr r, R') \<Longrightarrow>
      repo_ok R' \<and> repo_get R' = (repo_get R)(i \<mapsto> r) \<and> j_status r = target \<and> target \<in> transitions expected
      \<and> (\<exists>cur. repo_get R i = Some cur \<and> j_status cur = expected \<and> advances cur r)"
    by (rule repo_transition_ok [OF inv])
  show "repo_transition i expected target now rs er R = (Inl e, R') \<Longrightarrow> R' = R" by (rule repo_fails(1) [OF inv])
  show "repo_retry i now expected er R = (Inr r, R') \<Longrightarrow>
      repo_ok R' \<and> repo_get R' = (repo_get R)(i \<mapsto> r) \<and> j_status r = QUEUED
      \<and> expected \<in> {FAILED, PREPARING, RUNNING}
      \<and> (\<exists>cur. repo_get R i = Some cur \<and> j_status cur = expected \<and> advances cur r)"
    by (rule repo_retry_ok [OF inv])
  show "repo_retry i now expected er R = (Inl e, R') \<Longrightarrow> R' = R" by (rule repo_fails(2) [OF inv])
qed

inductive repo_step :: "job_repo \<Rightarrow> job_repo \<Rightarrow> bool" where
  step_create: "repo_step R (snd (repo_create s now R))"
| step_transition: "repo_step R (snd (repo_transition i expected target now rs er R))"
| step_retry: "repo_step R (snd (repo_retry i now expected er R))"

inductive_cases repo_stepE: "repo_step R R'"

lemma repo_ok_new: "repo_ok new_repo"
  by (simp add: repo_ok_def new_repo_def)

lemma repo_step_ok:
  assumes "repo_step R R'" and "repo_ok R"
  shows "repo_ok R'"
  using assms(1)
proof cases
  case (step_create s now)
  with assms(2) show ?thesis
    by (cases "repo_create s now R"; cases "fst (repo_create s now R)")
      (auto dest: memory_repo.create_ok memory_repo.create_fail)
next
  case (step_transition i expected target now rs er)
  with assms(2) show ?thesis
    by (cases "repo_transition i expected target now rs er R"; cases "fst (repo_transition i expected target now rs er R)")
      (auto dest: memory_repo.move_ok memory_repo.move_fail)
next
  case (step_retry i now expected er)
  with assms(2) show ?thesis
    by (cases "repo_retry i now expected er R"; cases "fst (repo_retry i now expected er R)")
      (auto dest: memory_repo.requeue_ok memory_repo.requeue_fail)
qed

interpretation repo_runs: invariant_system "\<lambda>R. R = new_repo" repo_step repo_ok
  by unfold_locales (auto simp: repo_ok_new intro: repo_step_ok)

lemma good_history_positions:
  assumes "successively advances h" and "list_all valid_job h" and "h \<noteq> []"
  shows "monotonic_position (hd h) + int (length h) \<le> monotonic_position (last h) + 1
    \<and> revision (last h) = revision (hd h) + int (length h) - 1
    \<and> max_attempts (last h) = max_attempts (hd h)"
  using assms
proof (induction h rule: rev_induct)
  case (snoc r h)
  show ?case
  proof (cases "h = []")
    case False
    with snoc show ?thesis
      by (auto simp: successively_append_iff advances_def)
  qed simp
qed simp

text \<open>
  C20. The repository keeps a true history. Whatever calls are made on a new repository, with any
  arguments, every stored record is valid and filed under its own identifier, and its history
  starts with attempt 0 queued at revision 0, moves only by legal transitions and retries, ends
  with the stored record, and has exactly revision + 1 entries, fewer than four for each attempt
  allowed plus one.
\<close>

theorem repository_history:
  assumes "repo_step\<^sup>*\<^sup>* new_repo R" and "repo_get R i = Some r"
  shows "valid_job r \<and> job_id r = i
    \<and> (\<exists>h. repo_history R i = Inr h \<and> good_history h \<and> last h = r
         \<and> int (length h) = revision r + 1 \<and> int (length h) \<le> 4 * max_attempts r)"
proof -
  obtain h where h: "map_of (jr_history R) i = Some h" "good_history h" "last h = r" "job_id r = i" "valid_job r"
    by (rule repo_okD [OF repo_runs.invar_reachable [OF refl assms(1)] assms(2)])
  then have "monotonic_position (hd h) + int (length h) \<le> monotonic_position r + 1"
      "revision r = revision (hd h) + int (length h) - 1" "monotonic_position (hd h) = 0" "revision (hd h) = 0"
    using good_history_positions [of h] by (auto simp: good_history_def monotonic_position_def)
  with h position_bounds(2) [OF h(5)] show ?thesis
    by (auto simp: repo_history_def)
qed

text \<open>
  A transition is a compare-and-swap. Once one caller has moved a job out of the status
  \<open>expected\<close>, every later attempt to move it out of that status fails, whatever its target,
  time, result or error, until a retry brings it back; and a job that has reached a terminal
  status can never be moved by a transition.
\<close>

theorem transition_compare_and_swap:
  assumes "repo_step\<^sup>*\<^sup>* new_repo R"
  shows "(is_ok (fst (repo_transition i expected target now rs er R)) \<longrightarrow>
      \<not> is_ok (fst (repo_transition i expected target' now' rs' er'
          (snd (repo_transition i expected target now rs er R)))))
    \<and> (\<forall>cur. repo_get R i = Some cur \<and> terminal (j_status cur) \<longrightarrow>
      \<not> is_ok (fst (repo_transition i expected target now rs er R)))"
proof (intro conjI impI allI)
  note inv = repo_runs.invar_reachable [OF refl assms]
  show "\<not> is_ok (fst (repo_transition i expected target' now' rs' er'
          (snd (repo_transition i expected target now rs er R))))"
    if "is_ok (fst (repo_transition i expected target now rs er R))"
    using that memory_repo.one_winner [OF inv]
    by (cases "repo_transition i expected target now rs er R"; cases "fst (repo_transition i expected target now rs er R)") auto
  show "\<not> is_ok (fst (repo_transition i expected target now rs er R))"
    if "repo_get R i = Some cur \<and> terminal (j_status cur)" for cur
    using that memory_repo.terminal_stays [OF inv] by blast
qed

section \<open>Witnesses\<close>

definition sample_spec :: job_spec where
  "sample_spec = \<lparr>job_id = ''job'', job_queue = ''normal'', user_priority = 50, payload = JObj [],
     max_attempts = 3, workflow_id = None, workflow_version_id = None, cache_key = None,
     resource_estimate = None, warm_model_bonus = Finite 0, cache_reuse_bonus = Finite 0,
     memory_pressure_penalty = Finite 0, estimated_duration_penalty = Finite 0\<rparr>"

definition sample_job :: "job_status \<Rightarrow> int \<Rightarrow> job" where
  "sample_job st n = \<lparr>job_id = ''job'', job_queue = ''normal'', user_priority = 50, payload = JObj [],
     max_attempts = 3, workflow_id = None, workflow_version_id = None, cache_key = None,
     resource_estimate = None, warm_model_bonus = Finite 0, cache_reuse_bonus = Finite 0,
     memory_pressure_penalty = Finite 0, estimated_duration_penalty = Finite 0,
     j_status = st, attempt = 0, revision = n, created_at = 1, queued_at = 1,
     updated_at = (if n = 0 then 1 else 2), started_at = None, finished_at = None,
     j_result = JNull, j_error = None\<rparr>"

lemma sample_submission: "from_submission sample_spec (Finite 1) = Inr (sample_job QUEUED 0)"
  by code_simp

lemma sample_transition:
  "transition_record (sample_job QUEUED 0) QUEUED PREPARING 2 (Frozen JNull) (Frozen JNull)
     = Inr (sample_job PREPARING 1)"
  by code_simp

lemma job_life_bounded_witness:
  "(job_step ^^ 1) (sample_job QUEUED 0) (sample_job PREPARING 1)
   \<and> valid_job (sample_job PREPARING 1) \<and> sample_job PREPARING 1 \<noteq> sample_job QUEUED 0"
proof -
  have "(job_step ^^ 1) (sample_job QUEUED 0) (sample_job PREPARING 1)"
    using job_transition [OF sample_transition] by (simp add: eq_OO)
  with job_life_bounded [OF sample_submission this] show ?thesis by simp
qed

definition sample_repo :: job_repo where
  "sample_repo = snd (repo_create sample_spec (Finite 1) new_repo)"

lemma sample_repo_get: "repo_get sample_repo ''job'' = Some (sample_job QUEUED 0)"
  by code_simp

lemma sample_repo_run: "repo_step\<^sup>*\<^sup>* new_repo sample_repo"
  unfolding sample_repo_def by (rule r_into_rtranclp) (rule step_create)

lemma repository_history_witness:
  "\<exists>h. repo_history sample_repo ''job'' = Inr h \<and> good_history h \<and> length h = 1"
  using repository_history [OF sample_repo_run sample_repo_get] by (auto simp: sample_job_def)

lemma transition_compare_and_swap_witness:
  "is_ok (fst (repo_transition ''job'' QUEUED PREPARING (Finite 2) (Frozen JNull) (Frozen JNull) sample_repo))
   \<and> \<not> is_ok (fst (repo_transition ''job'' QUEUED CANCELLED (Finite 3) (Frozen JNull) (Frozen JNull)
       (snd (repo_transition ''job'' QUEUED PREPARING (Finite 2) (Frozen JNull) (Frozen JNull) sample_repo))))"
proof -
  have ok: "is_ok (fst (repo_transition ''job'' QUEUED PREPARING (Finite 2) (Frozen JNull) (Frozen JNull) sample_repo))"
    by code_simp
  with transition_compare_and_swap [OF sample_repo_run] show ?thesis by blast
qed

end

