(* ===== verification/Queues.thy ===== *)
theory Queues
  imports Prelude
begin

text \<open>
  scheduler/priority.py and scheduler/queues.py: the priority of a job, which grows while it
  waits, and the bounded queues the scheduler pops from. A constructor that checks its floats
  (\<open>mk_factors\<close>, \<open>mk_queue_item\<close>) takes them as passed and returns the record over exact rationals.
  The lock makes every method one step. \<open>pop_next\<close> evaluates the key of every item before it
  selects, so a clock that is not finite raises and changes nothing.
\<close>

datatype queue_name = Q_INTERACTIVE | Q_NORMAL | Q_BATCH | Q_BACKGROUND | Q_DOWNLOAD | Q_MAINTENANCE

fun queue_order :: "queue_name \<Rightarrow> nat" where
  "queue_order Q_INTERACTIVE = 0"
| "queue_order Q_NORMAL = 1"
| "queue_order Q_BATCH = 2"
| "queue_order Q_BACKGROUND = 3"
| "queue_order Q_DOWNLOAD = 4"
| "queue_order Q_MAINTENANCE = 5"

definition all_queues :: "queue_name list" where
  "all_queues = [Q_INTERACTIVE, Q_NORMAL, Q_BATCH, Q_BACKGROUND, Q_DOWNLOAD, Q_MAINTENANCE]"

fun queue_value :: "queue_name \<Rightarrow> string" where
  "queue_value Q_INTERACTIVE = ''interactive''"
| "queue_value Q_NORMAL = ''normal''"
| "queue_value Q_BATCH = ''batch''"
| "queue_value Q_BACKGROUND = ''background''"
| "queue_value Q_DOWNLOAD = ''download''"
| "queue_value Q_MAINTENANCE = ''maintenance''"

text \<open>\<open>QueueName(value)\<close>.\<close>

definition queue_of :: "string \<Rightarrow> queue_name option" where
  "queue_of v = List.find (\<lambda>q. queue_value q = v) all_queues"

datatype queue_error = QValue string | QueueFull queue_name int int string | QIndexError

section \<open>Priorities\<close>

definition finite_number :: "string \<Rightarrow> pyfloat \<Rightarrow> queue_error + rat" where
  "finite_number name v = (case v of Finite r \<Rightarrow> Inr r | _ \<Rightarrow> Inl (QValue name))"

definition non_negative :: "string \<Rightarrow> pyfloat \<Rightarrow> queue_error + rat" where
  "non_negative name v = rbind (finite_number name v) (\<lambda>r.
     if r < 0 then Inl (QValue name) else Inr r)"

record factors =
  f_user_priority :: int
  f_queue_age_bonus :: rat
  f_warm_model_bonus :: rat
  f_cache_reuse_bonus :: rat
  f_memory_pressure_penalty :: rat
  f_estimated_duration_penalty :: rat

definition mk_factors :: "int \<Rightarrow> pyfloat \<Rightarrow> pyfloat \<Rightarrow> pyfloat \<Rightarrow> pyfloat \<Rightarrow> pyfloat \<Rightarrow>
    queue_error + factors" where
  "mk_factors user age warm cache mem dur =
    rbind (guard_or (0 \<le> user \<and> user \<le> 100) (QValue ''user_priority'')) (\<lambda>_.
    rbind (non_negative ''queue_age_bonus'' age) (\<lambda>a.
    rbind (non_negative ''warm_model_bonus'' warm) (\<lambda>w.
    rbind (non_negative ''cache_reuse_bonus'' cache) (\<lambda>c.
    rbind (non_negative ''memory_pressure_penalty'' mem) (\<lambda>m.
    rbind (non_negative ''estimated_duration_penalty'' dur) (\<lambda>d.
      Inr \<lparr>f_user_priority = user, f_queue_age_bonus = a, f_warm_model_bonus = w,
           f_cache_reuse_bonus = c, f_memory_pressure_penalty = m, f_estimated_duration_penalty = d\<rparr>))))))"

definition priority_score :: "factors \<Rightarrow> rat" where
  "priority_score f = of_int (f_user_priority f) + f_queue_age_bonus f + f_warm_model_bonus f
     + f_cache_reuse_bonus f - f_memory_pressure_penalty f - f_estimated_duration_penalty f"

definition queue_age_bonus :: "pyfloat \<Rightarrow> pyfloat \<Rightarrow> pyfloat \<Rightarrow> queue_error + rat" where
  "queue_age_bonus enqueued_at now points =
    rbind (finite_number ''enqueued_at'' enqueued_at) (\<lambda>e.
    rbind (finite_number ''now'' now) (\<lambda>n.
    rbind (finite_number ''points_per_second'' points) (\<lambda>p.
      if p < 0 then Inl (QValue ''points_per_second'') else Inr (max 0 (n - e) * p))))"

section \<open>The queues\<close>

record queue_item =
  qi_job_id :: string
  qi_queue :: queue_name
  qi_enqueued_at :: rat
  qi_factors :: factors

definition mk_queue_item :: "string \<Rightarrow> queue_name \<Rightarrow> pyfloat \<Rightarrow> factors \<Rightarrow> queue_error + queue_item" where
  "mk_queue_item i q t f =
    rbind (guard_or (i \<noteq> [] \<and> i = py_strip i) (QValue ''job_id'')) (\<lambda>_.
    rbind (non_negative ''enqueued_at'' t) (\<lambda>e.
      Inr \<lparr>qi_job_id = i, qi_queue = q, qi_enqueued_at = e, qi_factors = f\<rparr>))"

record queued_item =
  qd_item :: queue_item
  qd_sequence :: nat

record queues =
  q_max_queued :: nat
  q_limits :: "(queue_name, nat) dict"
  q_rate :: rat
  q_items :: "(string, queued_item) dict"
  q_by_queue :: "queue_name \<Rightarrow> int"
  q_next_sequence :: nat

definition new_queues :: "int \<Rightarrow> (queue_name, int) dict \<Rightarrow> pyfloat \<Rightarrow> queue_error + queues" where
  "new_queues max_queued limits rate =
    rbind (guard_or (1 \<le> max_queued) (QValue ''max_queued'')) (\<lambda>_.
    rbind (non_negative ''age_points_per_second'' rate) (\<lambda>r.
    rbind (rmap (\<lambda>(q, l). guard_or (1 \<le> l) (QValue ''per-queue limits must be positive integers'')) limits) (\<lambda>_.
      Inr \<lparr>q_max_queued = nat max_queued, q_limits = map (\<lambda>(q, l). (q, nat l)) limits, q_rate = r,
           q_items = [], q_by_queue = (\<lambda>_. 0), q_next_sequence = 1\<rparr>)))"

definition ensure_capacity :: "queue_name \<Rightarrow> queues \<Rightarrow> queue_error + unit" where
  "ensure_capacity q Q =
    (if q_max_queued Q \<le> length (q_items Q)
     then Inl (QueueFull q (int (length (q_items Q))) (int (q_max_queued Q)) ''global'')
     else case map_of (q_limits Q) q of
       None \<Rightarrow> Inr ()
     | Some l \<Rightarrow> if int l \<le> q_by_queue Q q then Inl (QueueFull q (q_by_queue Q q) (int l) ''queue'') else Inr ())"

definition count_queue :: "queue_name \<Rightarrow> int \<Rightarrow> queues \<Rightarrow> queues" where
  "count_queue q d Q = Q\<lparr>q_by_queue := (q_by_queue Q)(q := q_by_queue Q q + d)\<rparr>"

definition enqueue :: "queue_item \<Rightarrow> queues \<Rightarrow> (queue_error + unit) \<times> queues" where
  "enqueue it Q =
    (if qi_job_id it \<in> set (dkeys (q_items Q)) then (Inl (QValue ''job is already queued''), Q)
     else case ensure_capacity (qi_queue it) Q of
       Inl e \<Rightarrow> (Inl e, Q)
     | Inr _ \<Rightarrow> (Inr (), count_queue (qi_queue it) 1
         (Q\<lparr>q_items := AList.update (qi_job_id it) \<lparr>qd_item = it, qd_sequence = q_next_sequence Q\<rparr> (q_items Q),
            q_next_sequence := q_next_sequence Q + 1\<rparr>)))"

text \<open>\<open>_score\<close>: the factors with the age bonus added, constructed again and so checked again.\<close>

definition score :: "queues \<Rightarrow> pyfloat \<Rightarrow> queued_item \<Rightarrow> queue_error + rat" where
  "score Q now qd = (let it = qd_item qd; f = qi_factors it in
     rbind (queue_age_bonus (Finite (qi_enqueued_at it)) now (Finite (q_rate Q))) (\<lambda>age.
     rbind (mk_factors (f_user_priority f) (Finite (f_queue_age_bonus f + age))
         (Finite (f_warm_model_bonus f)) (Finite (f_cache_reuse_bonus f))
         (Finite (f_memory_pressure_penalty f)) (Finite (f_estimated_duration_penalty f))) (\<lambda>g.
       Inr (priority_score g))))"

type_synonym pop_key = "rat \<times> nat \<times> rat \<times> nat \<times> string"

definition pop_key :: "rat \<Rightarrow> queued_item \<Rightarrow> pop_key" where
  "pop_key s qd = (- s, queue_order (qi_queue (qd_item qd)), qi_enqueued_at (qd_item qd),
     qd_sequence qd, qi_job_id (qd_item qd))"

definition pop_next :: "pyfloat \<Rightarrow> queues \<Rightarrow> (queue_error + queue_item) \<times> queues" where
  "pop_next now Q =
    (if q_items Q = [] then (Inl QIndexError, Q)
     else case rmap (\<lambda>qd. rbind (score Q now qd) (\<lambda>s. Inr (s, qd))) (dvalues (q_items Q)) of
       Inl e \<Rightarrow> (Inl e, Q)
     | Inr scored \<Rightarrow> (let it = qd_item (snd (arg_min_list (\<lambda>(s, qd). pop_key s qd) scored)) in
         (Inr it, count_queue (qi_queue it) (- 1) (Q\<lparr>q_items := AList.delete (qi_job_id it) (q_items Q)\<rparr>))))"

definition remove :: "string \<Rightarrow> queues \<Rightarrow> queue_item option \<times> queues" where
  "remove i Q = (case map_of (q_items Q) i of
     None \<Rightarrow> (None, Q)
   | Some qd \<Rightarrow> (Some (qd_item qd),
       count_queue (qi_queue (qd_item qd)) (- 1) (Q\<lparr>q_items := AList.delete i (q_items Q)\<rparr>)))"

definition contains :: "string \<Rightarrow> queues \<Rightarrow> bool" where
  "contains i Q = (i \<in> set (dkeys (q_items Q)))"

definition queue_length :: "queues \<Rightarrow> nat" where
  "queue_length Q = length (q_items Q)"

definition snapshot :: "queues \<Rightarrow> queue_item list" where
  "snapshot Q = map qd_item (dvalues (q_items Q))"

section \<open>The invariant\<close>

definition valid_factors :: "factors \<Rightarrow> bool" where
  "valid_factors f = (0 \<le> f_user_priority f \<and> f_user_priority f \<le> 100 \<and> 0 \<le> f_queue_age_bonus f
     \<and> 0 \<le> f_warm_model_bonus f \<and> 0 \<le> f_cache_reuse_bonus f \<and> 0 \<le> f_memory_pressure_penalty f
     \<and> 0 \<le> f_estimated_duration_penalty f)"

definition valid_item :: "queue_item \<Rightarrow> bool" where
  "valid_item it = (qi_job_id it \<noteq> [] \<and> qi_job_id it = py_strip (qi_job_id it)
     \<and> 0 \<le> qi_enqueued_at it \<and> valid_factors (qi_factors it))"

definition in_queue :: "queue_name \<Rightarrow> queued_item \<Rightarrow> int" where
  "in_queue q qd = (if qi_queue (qd_item qd) = q then 1 else 0)"

definition queued_count :: "queue_name \<Rightarrow> queues \<Rightarrow> int" where
  "queued_count q Q = sum_list (map (in_queue q) (dvalues (q_items Q)))"

definition qinv :: "queues \<Rightarrow> bool" where
  "qinv Q = (wf_dict (q_items Q) \<and> 0 \<le> q_rate Q
     \<and> (\<forall>(k, qd) \<in> set (q_items Q). k = qi_job_id (qd_item qd) \<and> valid_item (qd_item qd)
          \<and> qd_sequence qd < q_next_sequence Q)
     \<and> (\<forall>q. q_by_queue Q q = queued_count q Q)
     \<and> length (q_items Q) \<le> q_max_queued Q
     \<and> (\<forall>q l. map_of (q_limits Q) q = Some l \<longrightarrow> queued_count q Q \<le> int l))"

lemma non_negative_Inr_iff [simp]: "non_negative n v = Inr r \<longleftrightarrow> v = Finite r \<and> 0 \<le> r"
  by (cases v) (auto simp: non_negative_def finite_number_def)

lemma finite_number_Inr_iff [simp]: "finite_number n v = Inr r \<longleftrightarrow> v = Finite r"
  by (auto simp: finite_number_def split: pyfloat.splits)

lemma mk_factors_valid: "mk_factors u a w c m d = Inr f \<Longrightarrow> valid_factors f"
  by (auto simp: mk_factors_def rbind_Inr_iff valid_factors_def)

lemma mk_queue_item_valid: "mk_queue_item i q t f = Inr it \<Longrightarrow> valid_factors f \<Longrightarrow>
    valid_item it \<and> qi_job_id it = i \<and> qi_queue it = q"
  by (auto simp: mk_queue_item_def rbind_Inr_iff valid_item_def)

text \<open>The score of a valid item, in closed form.\<close>

definition base_score :: "queue_item \<Rightarrow> rat" where
  "base_score it = priority_score (qi_factors it)"

definition aged_score :: "queues \<Rightarrow> rat \<Rightarrow> queue_item \<Rightarrow> rat" where
  "aged_score Q now it = base_score it + max 0 (now - qi_enqueued_at it) * q_rate Q"

lemma score_eq:
  assumes "0 \<le> q_rate Q" and "valid_item (qd_item qd)"
  shows "score Q (Finite now) qd = Inr (aged_score Q now (qd_item qd))"
proof -
  let ?age = "max 0 (now - qi_enqueued_at (qd_item qd)) * q_rate Q" and ?f = "qi_factors (qd_item qd)"
  have age: "0 \<le> ?age" using assms(1) by simp
  have "queue_age_bonus (Finite (qi_enqueued_at (qd_item qd))) (Finite now) (Finite (q_rate Q)) = Inr ?age"
    using assms(1) by (simp add: queue_age_bonus_def rbind_Inr_iff)
  moreover have "mk_factors (f_user_priority ?f) (Finite (f_queue_age_bonus ?f + ?age))
         (Finite (f_warm_model_bonus ?f)) (Finite (f_cache_reuse_bonus ?f))
         (Finite (f_memory_pressure_penalty ?f)) (Finite (f_estimated_duration_penalty ?f))
      = Inr (?f\<lparr>f_queue_age_bonus := f_queue_age_bonus ?f + ?age\<rparr>)"
    using assms(2) age by (auto simp: mk_factors_def rbind_Inr_iff valid_item_def valid_factors_def)
  ultimately show ?thesis
    by (simp add: score_def Let_def aged_score_def base_score_def priority_score_def)
qed

lemma score_not_finite:
  "\<not> isfinite now \<Longrightarrow> \<not> is_ok (score Q now qd)"
  by (cases now) (simp_all add: score_def Let_def queue_age_bonus_def finite_number_def)

lemma queued_count_update:
  "k \<notin> set (dkeys (q_items Q)) \<Longrightarrow>
    queued_count q (Q\<lparr>q_items := AList.update k qd (q_items Q)\<rparr>) = queued_count q Q + in_queue q qd"
  unfolding queued_count_def by (simp add: sum_values_insert del: map_map)

lemma queued_count_delete:
  "wf_dict (q_items Q) \<Longrightarrow> map_of (q_items Q) k = Some qd \<Longrightarrow>
    queued_count q (Q\<lparr>q_items := AList.delete k (q_items Q)\<rparr>) = queued_count q Q - in_queue q qd"
  unfolding queued_count_def by (simp add: sum_values_delete del: map_map)

lemma queued_count_other [simp]:
  "queued_count q (Q\<lparr>q_by_queue := b\<rparr>) = queued_count q Q"
  "queued_count q (Q\<lparr>q_next_sequence := n\<rparr>) = queued_count q Q"
  by (simp_all add: queued_count_def)

lemma count_queue_simps [simp]:
  "q_items (count_queue q d Q) = q_items Q" "q_rate (count_queue q d Q) = q_rate Q"
  "q_limits (count_queue q d Q) = q_limits Q" "q_max_queued (count_queue q d Q) = q_max_queued Q"
  "q_next_sequence (count_queue q d Q) = q_next_sequence Q"
  "q_by_queue (count_queue q d Q) = (q_by_queue Q)(q := q_by_queue Q q + d)"
  "queued_count r (count_queue q d Q) = queued_count r Q"
  by (simp_all add: count_queue_def)

lemma ensure_capacity_Inr:
  "ensure_capacity q Q = Inr u \<longleftrightarrow> length (q_items Q) < q_max_queued Q
     \<and> (\<forall>l. map_of (q_limits Q) q = Some l \<longrightarrow> q_by_queue Q q < int l)"
  by (auto simp: ensure_capacity_def split: option.splits if_splits)

lemma enqueue_qinv:
  assumes inv: "qinv Q" and it: "valid_item it" and e: "enqueue it Q = (Inr u, Q')"
  shows "qinv Q'" and "set (dkeys (q_items Q')) = insert (qi_job_id it) (set (dkeys (q_items Q)))"
    and "qi_job_id it \<notin> set (dkeys (q_items Q))"
proof -
  from e have new: "qi_job_id it \<notin> set (dkeys (q_items Q))" and cap: "ensure_capacity (qi_queue it) Q = Inr ()"
    and Q': "Q' = count_queue (qi_queue it) 1
         (Q\<lparr>q_items := AList.update (qi_job_id it) \<lparr>qd_item = it, qd_sequence = q_next_sequence Q\<rparr> (q_items Q),
            q_next_sequence := q_next_sequence Q + 1\<rparr>)"
    by (auto simp: enqueue_def split: if_splits sum.splits)
  show "qi_job_id it \<notin> set (dkeys (q_items Q))" by (rule new)
  show "set (dkeys (q_items Q')) = insert (qi_job_id it) (set (dkeys (q_items Q)))"
    by (simp add: Q')
  let ?qd = "\<lparr>qd_item = it, qd_sequence = q_next_sequence Q\<rparr>"
  have cnt: "queued_count q Q' = queued_count q Q + in_queue q ?qd" for q
    using queued_count_update [OF new, of q ?qd] by (simp add: Q' queued_count_def)
  have "q_by_queue Q' q = queued_count q Q'" for q
    using inv by (simp add: qinv_def cnt in_queue_def) (simp add: Q')
  moreover have "queued_count q Q' \<le> int l" if "map_of (q_limits Q') q = Some l" for q l
  proof -
    have "queued_count q Q \<le> int l" "q_by_queue Q q = queued_count q Q"
      using inv that by (simp_all add: qinv_def Q')
    moreover have "q = qi_queue it \<longrightarrow> q_by_queue Q q < int l"
      using cap that by (auto simp: ensure_capacity_Inr Q')
    ultimately show ?thesis by (auto simp: cnt in_queue_def)
  qed
  moreover have "length (q_items Q') \<le> q_max_queued Q'"
    using cap new by (simp add: Q' ensure_capacity_Inr update_new)
  moreover have "wf_dict (q_items Q')" "0 \<le> q_rate Q'"
    using inv by (auto simp: Q' qinv_def intro: wf_dict_update)
  moreover have "\<forall>(k, qd) \<in> set (q_items Q'). k = qi_job_id (qd_item qd) \<and> valid_item (qd_item qd)
      \<and> qd_sequence qd < q_next_sequence Q'"
    using inv it new by (auto simp: Q' qinv_def update_new)
  ultimately show "qinv Q'" unfolding qinv_def by blast
qed

lemma delete_qinv:
  assumes inv: "qinv Q" and k: "map_of (q_items Q) k = Some qd"
  shows "qinv (count_queue (qi_queue (qd_item qd)) (- 1) (Q\<lparr>q_items := AList.delete k (q_items Q)\<rparr>))"
proof -
  have wf: "wf_dict (q_items Q)" using inv by (simp add: qinv_def)
  let ?Q = "count_queue (qi_queue (qd_item qd)) (- 1) (Q\<lparr>q_items := AList.delete k (q_items Q)\<rparr>)"
  have cnt: "queued_count q ?Q = queued_count q Q - in_queue q qd" for q
    using queued_count_delete [OF wf k] by simp
  have nn: "0 \<le> in_queue q qd" for q by (simp add: in_queue_def)
  have "q_by_queue ?Q q = queued_count q ?Q" for q
    unfolding cnt using inv by (simp add: qinv_def in_queue_def)
  moreover have "queued_count q ?Q \<le> int l" if "map_of (q_limits ?Q) q = Some l" for q l
  proof -
    have "queued_count q Q \<le> int l" using inv that by (simp add: qinv_def)
    then show ?thesis unfolding cnt using nn [of q] by simp
  qed
  moreover have "length (q_items ?Q) \<le> q_max_queued ?Q"
    using inv length_delete [OF wf k] by (simp add: qinv_def)
  moreover have "wf_dict (q_items ?Q)" "0 \<le> q_rate ?Q"
    using inv by (auto simp: qinv_def intro: wf_dict_delete)
  moreover have "\<forall>(k, qd) \<in> set (q_items ?Q). k = qi_job_id (qd_item qd) \<and> valid_item (qd_item qd)
      \<and> qd_sequence qd < q_next_sequence ?Q"
    using inv by (auto simp: qinv_def mem_delete_iff)
  ultimately show ?thesis unfolding qinv_def by blast
qed

lemma remove_qinv: "qinv Q \<Longrightarrow> qinv (snd (remove i Q))"
  by (auto simp: remove_def intro: delete_qinv split: option.split)

text \<open>What \<open>pop_next\<close> returns, over the closed form of the score.\<close>

lemma pop_next_finite:
  assumes inv: "qinv Q" and ne: "q_items Q \<noteq> []"
  obtains qd where "qd \<in> set (dvalues (q_items Q))" "map_of (q_items Q) (qi_job_id (qd_item qd)) = Some qd"
    "pop_next (Finite now) Q = (Inr (qd_item qd),
       count_queue (qi_queue (qd_item qd)) (- 1) (Q\<lparr>q_items := AList.delete (qi_job_id (qd_item qd)) (q_items Q)\<rparr>))"
    "\<And>x. x \<in> set (dvalues (q_items Q)) \<Longrightarrow>
      pop_key (aged_score Q now (qd_item qd)) qd \<le> pop_key (aged_score Q now (qd_item x)) x"
proof -
  let ?vs = "dvalues (q_items Q)" and ?g = "\<lambda>qd. (aged_score Q now (qd_item qd), qd)"
  have items: "valid_item (qd_item x) \<and> map_of (q_items Q) (qi_job_id (qd_item x)) = Some x" if x: "x \<in> set ?vs" for x
  proof -
    from x obtain k where k: "(k, x) \<in> set (q_items Q)" by auto
    with inv have "k = qi_job_id (qd_item x)" "valid_item (qd_item x)" "wf_dict (q_items Q)"
      by (auto simp: qinv_def)
    with k show ?thesis by (simp add: map_of_Some_iff)
  qed
  have "0 \<le> q_rate Q" using inv by (simp add: qinv_def)
  then have scored: "rmap (\<lambda>qd. rbind (score Q (Finite now) qd) (\<lambda>s. Inr (s, qd))) ?vs = Inr (map ?g ?vs)"
    using items score_eq by (intro rmap_map) auto
  let ?sel = "arg_min_list (\<lambda>(s, qd). pop_key s qd) (map ?g ?vs)"
  have "?sel \<in> set (map ?g ?vs)" using ne by (intro arg_min_list_in) simp
  then obtain qd where qd: "qd \<in> set ?vs" "?sel = ?g qd" by auto
  have key: "(\<lambda>(s, qd). pop_key s qd) ?sel = pop_key (aged_score Q now (qd_item qd)) qd"
    unfolding qd(2) by simp
  have "pop_key (aged_score Q now (qd_item qd)) qd \<le> pop_key (aged_score Q now (qd_item x)) x"
    if "x \<in> set ?vs" for x
    using arg_min_list_le [of "?g x" "map ?g ?vs" "\<lambda>(s, qd). pop_key s qd"] that unfolding key by auto
  moreover have "pop_next (Finite now) Q = (Inr (qd_item qd),
       count_queue (qi_queue (qd_item qd)) (- 1) (Q\<lparr>q_items := AList.delete (qi_job_id (qd_item qd)) (q_items Q)\<rparr>))"
    unfolding pop_next_def scored sum.case Let_def qd(2) using ne by simp
  ultimately show thesis using items [OF qd(1)] qd(1) by (intro that) auto
qed

lemma pop_next_not_finite: "\<not> isfinite now \<Longrightarrow> \<exists>e. pop_next now Q = (Inl e, Q)"
proof -
  assume nf: "\<not> isfinite now"
  have "\<exists>e. rmap (\<lambda>qd. rbind (score Q now qd) (\<lambda>s. Inr (s, qd))) (dvalues (q_items Q)) = Inl e" if "q_items Q \<noteq> []"
  proof -
    obtain x xs where "dvalues (q_items Q) = x # xs" using \<open>q_items Q \<noteq> []\<close> by (cases "q_items Q") auto
    moreover obtain e where "score Q now x = Inl e"
      using score_not_finite [OF nf, of Q x] by (cases "score Q now x") auto
    ultimately show ?thesis by simp
  qed
  then show ?thesis by (cases "q_items Q = []") (auto simp: pop_next_def)
qed

lemma pop_next_qinv: "qinv Q \<Longrightarrow> qinv (snd (pop_next now Q))"
proof -
  assume inv: "qinv Q"
  show ?thesis
  proof (cases "q_items Q = [] \<or> \<not> isfinite now")
    case True
    then show ?thesis using inv pop_next_not_finite [of now Q] by (auto simp: pop_next_def)
  next
    case False
    then obtain t where t: "now = Finite t" by (cases now) auto
    obtain qd where qd: "map_of (q_items Q) (qi_job_id (qd_item qd)) = Some qd"
      "pop_next (Finite t) Q = (Inr (qd_item qd),
       count_queue (qi_queue (qd_item qd)) (- 1) (Q\<lparr>q_items := AList.delete (qi_job_id (qd_item qd)) (q_items Q)\<rparr>))"
      using pop_next_finite [OF inv, of t] False by blast
    show ?thesis unfolding t qd(2) using delete_qinv [OF inv qd(1)] by simp
  qed
qed

section \<open>Runs of the queues\<close>

inductive queue_step :: "queues \<Rightarrow> queues \<Rightarrow> bool" where
  step_enqueue: "valid_item it \<Longrightarrow> queue_step Q (snd (enqueue it Q))"
| step_pop: "queue_step Q (snd (pop_next now Q))"
| step_remove: "queue_step Q (snd (remove i Q))"

inductive_cases queue_stepE: "queue_step Q Q'"

definition queue_start :: "queues \<Rightarrow> bool" where
  "queue_start Q = (\<exists>m ls r. new_queues m ls r = Inr Q)"

lemma enqueue_same: "enqueue it Q = (Inl e, Q') \<Longrightarrow> Q' = Q"
  by (auto simp: enqueue_def split: if_splits sum.splits)

interpretation queue_runs: invariant_system queue_start queue_step qinv
proof
  show "qinv Q" if "queue_start Q" for Q
    using that by (auto simp: queue_start_def new_queues_def rbind_Inr_iff qinv_def queued_count_def)
  show "qinv Q'" if "queue_step Q Q'" "qinv Q" for Q Q'
    using that(1)
  proof cases
    case (step_enqueue it)
    with that(2) show ?thesis
      by (cases "enqueue it Q"; cases "fst (enqueue it Q)") (auto dest: enqueue_same intro: enqueue_qinv(1))
  qed (use that(2) pop_next_qinv remove_qinv in auto)
qed

text \<open>
  The contract the scheduler uses: which identifiers are queued after each call.
\<close>

locale job_queue =
  fixes inv :: "'s \<Rightarrow> bool"
    and ids :: "'s \<Rightarrow> string set"
    and put :: "queue_item \<Rightarrow> 's \<Rightarrow> (queue_error + unit) \<times> 's"
    and take :: "pyfloat \<Rightarrow> 's \<Rightarrow> (queue_error + queue_item) \<times> 's"
    and drop :: "string \<Rightarrow> 's \<Rightarrow> queue_item option \<times> 's"
  assumes put_ok: "inv s \<Longrightarrow> valid_item it \<Longrightarrow> put it s = (Inr u, s') \<Longrightarrow>
      inv s' \<and> ids s' = insert (qi_job_id it) (ids s) \<and> qi_job_id it \<notin> ids s"
    and put_fail: "put it s = (Inl e, s') \<Longrightarrow> s' = s"
    and take_ok: "inv s \<Longrightarrow> take now s = (Inr it, s') \<Longrightarrow>
      inv s' \<and> qi_job_id it \<in> ids s \<and> ids s' = ids s - {qi_job_id it}"
    and take_fail: "inv s \<Longrightarrow> take now s = (Inl e, s') \<Longrightarrow> s' = s"
    and drop_ok: "inv s \<Longrightarrow> drop i s = (r, s') \<Longrightarrow> inv s' \<and> ids s' = ids s - {i}"
begin

lemma no_double_take:
  assumes "inv s" and "take now s = (Inr it, s')" and "take now' s' = (Inr it', s'')"
  shows "qi_job_id it' \<noteq> qi_job_id it"
  using take_ok [OF assms(1,2)] take_ok [OF _ assms(3)] by auto

lemma dropped_not_taken:
  assumes "inv s" and "drop i s = (r, s')" and "take now s' = (Inr it, s'')"
  shows "qi_job_id it \<noteq> i"
  using drop_ok [OF assms(1,2)] take_ok [OF _ assms(3)] by auto

end

lemma pop_next_cases:
  assumes "qinv Q"
  obtains (fail) e where "pop_next now Q = (Inl e, Q)"
  | (pop) t where "now = Finite t" "q_items Q \<noteq> []"
  using pop_next_not_finite [of now Q] by (cases now; cases "q_items Q = []") (auto simp: pop_next_def)

lemma pop_next_ids:
  assumes inv: "qinv Q" and p: "pop_next now Q = (Inr it, Q')"
  shows "qinv Q' \<and> qi_job_id it \<in> set (dkeys (q_items Q))
    \<and> set (dkeys (q_items Q')) = set (dkeys (q_items Q)) - {qi_job_id it}"
proof (rule pop_next_cases [OF inv, of now])
  fix t assume t: "now = Finite t" "q_items Q \<noteq> []"
  obtain qd where qd: "map_of (q_items Q) (qi_job_id (qd_item qd)) = Some qd"
      "pop_next (Finite t) Q = (Inr (qd_item qd),
       count_queue (qi_queue (qd_item qd)) (- 1) (Q\<lparr>q_items := AList.delete (qi_job_id (qd_item qd)) (q_items Q)\<rparr>))"
    using pop_next_finite [OF inv t(2), of t] by blast
  with p t have "it = qd_item qd" "Q' = count_queue (qi_queue it) (- 1) (Q\<lparr>q_items := AList.delete (qi_job_id it) (q_items Q)\<rparr>)"
    by auto
  moreover have "qinv Q'" using pop_next_qinv [OF inv, of now] p by simp
  moreover have "qi_job_id (qd_item qd) \<in> fst ` set (q_items Q)"
    using qd(1) by (metis map_of_eq_None_iff option.distinct(1))
  ultimately show ?thesis by simp
qed (use p in auto)

interpretation scheduler_queues: job_queue qinv "\<lambda>Q. set (dkeys (q_items Q))" enqueue pop_next remove
proof
  fix Q Q' :: queues and it e u now i r
  show "qinv Q \<Longrightarrow> valid_item it \<Longrightarrow> enqueue it Q = (Inr u, Q') \<Longrightarrow>
      qinv Q' \<and> set (dkeys (q_items Q')) = insert (qi_job_id it) (set (dkeys (q_items Q)))
      \<and> qi_job_id it \<notin> set (dkeys (q_items Q))"
    using enqueue_qinv by blast
  show "enqueue it Q = (Inl e, Q') \<Longrightarrow> Q' = Q" by (rule enqueue_same)
  show "qinv Q \<Longrightarrow> pop_next now Q = (Inr it, Q') \<Longrightarrow> qinv Q' \<and> qi_job_id it \<in> set (dkeys (q_items Q))
      \<and> set (dkeys (q_items Q')) = set (dkeys (q_items Q)) - {qi_job_id it}"
    by (rule pop_next_ids)
  show "qinv Q \<Longrightarrow> pop_next now Q = (Inl e, Q') \<Longrightarrow> Q' = Q"
  proof (rule pop_next_cases [of Q now])
    fix t assume "qinv Q" "pop_next now Q = (Inl e, Q')" "now = Finite t" "q_items Q \<noteq> []"
    then show "Q' = Q" using pop_next_finite [of Q t] by fastforce
  qed auto
  show "qinv Q \<Longrightarrow> remove i Q = (r, Q') \<Longrightarrow> qinv Q' \<and> set (dkeys (q_items Q')) = set (dkeys (q_items Q)) - {i}"
  proof
    assume inv: "qinv Q" and r: "remove i Q = (r, Q')"
    then show "qinv Q'" using remove_qinv [of Q i] by simp
    from r have "Q' = snd (remove i Q)" by simp
    then show "set (dkeys (q_items Q')) = set (dkeys (q_items Q)) - {i}"
      by (cases "map_of (q_items Q) i") (simp_all add: remove_def map_of_eq_None_iff)
  qed
qed

text \<open>
  C36. The queues stay within their bounds. After any sequence of enqueue, pop and remove calls on
  new queues, the items are filed under their own job identifiers, the per-queue counters are the
  true numbers of items, no counter exceeds its limit and their total is at most \<open>max_queued\<close>; and
  a valid item is refused exactly when its job is already queued or a bound is reached.
\<close>

theorem queues_bounded:
  assumes "queue_start Q0" and "queue_step\<^sup>*\<^sup>* Q0 Q"
  shows "length (snapshot Q) \<le> q_max_queued Q \<and> distinct (map qi_job_id (snapshot Q))
    \<and> (\<forall>q. q_by_queue Q q = int (length (filter (\<lambda>it. qi_queue it = q) (snapshot Q))))
    \<and> (\<forall>q l. map_of (q_limits Q) q = Some l \<longrightarrow> q_by_queue Q q \<le> int l)
    \<and> (\<forall>it. is_ok (fst (enqueue it Q)) \<longleftrightarrow> \<not> contains (qi_job_id it) Q
          \<and> queue_length Q < q_max_queued Q
          \<and> (\<forall>l. map_of (q_limits Q) (qi_queue it) = Some l \<longrightarrow> q_by_queue Q (qi_queue it) < int l))"
proof -
  have inv: "qinv Q" by (rule queue_runs.invar_reachable [OF assms])
  have "map qi_job_id (snapshot Q) = dkeys (q_items Q)"
    using inv by (auto simp: snapshot_def qinv_def)
  then have ids: "distinct (map qi_job_id (snapshot Q))"
    using inv by (simp add: qinv_def)
  have "sum_list (map (in_queue q) (dvalues d)) = int (length (filter (\<lambda>it. qi_queue it = q) (map qd_item (dvalues d))))" for q d
    by (induction d) (auto simp: in_queue_def)
  then have "q_by_queue Q q = int (length (filter (\<lambda>it. qi_queue it = q) (snapshot Q)))" for q
    using inv by (simp add: qinv_def queued_count_def snapshot_def)
  moreover have "is_ok (fst (enqueue it Q)) \<longleftrightarrow> \<not> contains (qi_job_id it) Q \<and> ensure_capacity (qi_queue it) Q = Inr ()" for it
    by (cases "ensure_capacity (qi_queue it) Q") (auto simp: enqueue_def contains_def)
  moreover have "length (snapshot Q) \<le> q_max_queued Q" "map_of (q_limits Q) q = Some l \<Longrightarrow> q_by_queue Q q \<le> int l" for q l
    using inv by (simp_all add: qinv_def snapshot_def)
  ultimately show ?thesis
    using ids unfolding queue_length_def ensure_capacity_Inr by blast
qed

text \<open>
  C28. Bounded overtaking, hence no starvation. When \<open>pop_next\<close> returns an item while another one
  keeps waiting, the returned item leads by at least the points the waiting one has gained by
  being queued longer: at a positive rate, nothing enqueued later than
  (its lead in base score) / rate after the waiting item can overtake it. Among items of the same
  queue and base score the order is first come, first served. A returned item was queued and is
  gone, and every other item is still there.
\<close>

theorem pop_next_order:
  assumes inv: "qinv Q" and pop: "pop_next now Q = (Inr it, Q')"
    and x: "x \<in> set (snapshot Q)" "qi_job_id x \<noteq> qi_job_id it"
    and past: "now = Finite t" "qi_enqueued_at x \<le> t" "qi_enqueued_at it \<le> t"
  shows "base_score x + q_rate Q * (qi_enqueued_at it - qi_enqueued_at x) \<le> base_score it
    \<and> (base_score x = base_score it \<and> qi_queue x = qi_queue it \<and> 0 < q_rate Q \<longrightarrow> qi_enqueued_at it \<le> qi_enqueued_at x)
    \<and> it \<in> set (snapshot Q) \<and> x \<in> set (snapshot Q') \<and> \<not> contains (qi_job_id it) Q'"
proof -
  have ne: "q_items Q \<noteq> []" using x(1) by (auto simp: snapshot_def)
  obtain qd where qd: "qd \<in> set (dvalues (q_items Q))" "map_of (q_items Q) (qi_job_id (qd_item qd)) = Some qd"
    "pop_next (Finite t) Q = (Inr (qd_item qd),
       count_queue (qi_queue (qd_item qd)) (- 1) (Q\<lparr>q_items := AList.delete (qi_job_id (qd_item qd)) (q_items Q)\<rparr>))"
    "\<And>x. x \<in> set (dvalues (q_items Q)) \<Longrightarrow>
      pop_key (aged_score Q t (qd_item qd)) qd \<le> pop_key (aged_score Q t (qd_item x)) x"
    using pop_next_finite [OF inv ne, of t] by blast
  from pop past(1) qd(3) have it: "it = qd_item qd"
    and Q': "Q' = count_queue (qi_queue it) (- 1) (Q\<lparr>q_items := AList.delete (qi_job_id it) (q_items Q)\<rparr>)"
    by auto
  from x(1) obtain k xq where xq: "(k, xq) \<in> set (q_items Q)" "x = qd_item xq" by (auto simp: snapshot_def)
  with inv have k: "k = qi_job_id x" by (auto simp: qinv_def)
  have key: "pop_key (aged_score Q t it) qd \<le> pop_key (aged_score Q t x) xq"
    using qd(4) [of xq] xq it by force
  then have "aged_score Q t x \<le> aged_score Q t it"
    by (auto simp: pop_key_def less_eq_prod_def)
  then have lead: "base_score x + q_rate Q * (qi_enqueued_at it - qi_enqueued_at x) \<le> base_score it"
    using past by (simp add: aged_score_def algebra_simps)
  moreover have "qi_enqueued_at it \<le> qi_enqueued_at x" if "base_score x = base_score it" "0 < q_rate Q"
    using lead that by (simp add: mult_le_0_iff)
  moreover have "x \<in> set (snapshot Q')"
  proof -
    have "(k, xq) \<in> set (q_items Q')" using xq k x(2) by (simp add: Q' mem_delete_iff)
    then have "xq \<in> set (dvalues (q_items Q'))" by force
    then show ?thesis using xq(2) by (auto simp: snapshot_def)
  qed
  moreover have "it \<in> set (snapshot Q)"
    using qd(1) it by (auto simp: snapshot_def)
  ultimately show ?thesis
    using Q' by (auto simp: contains_def)
qed

definition sample_factors :: factors where
  "sample_factors = \<lparr>f_user_priority = 50, f_queue_age_bonus = 0, f_warm_model_bonus = 0,
     f_cache_reuse_bonus = 0, f_memory_pressure_penalty = 0, f_estimated_duration_penalty = 0\<rparr>"

definition sample_item :: "string \<Rightarrow> rat \<Rightarrow> queue_item" where
  "sample_item i t = \<lparr>qi_job_id = i, qi_queue = Q_NORMAL, qi_enqueued_at = t, qi_factors = sample_factors\<rparr>"

definition sample_queues :: queues where
  "sample_queues = \<lparr>q_max_queued = 2, q_limits = [(Q_NORMAL, 2)], q_rate = 1, q_items = [],
     q_by_queue = (\<lambda>_. 0), q_next_sequence = 1\<rparr>"

lemma sample_queues_start: "queue_start sample_queues"
proof -
  have "new_queues 2 [(Q_NORMAL, 2)] (Finite 1) = Inr sample_queues"
    by (simp add: new_queues_def sample_queues_def non_negative_def finite_number_def)
  then show ?thesis unfolding queue_start_def by blast
qed

lemma sample_item_valid: "0 \<le> t \<Longrightarrow> valid_item (sample_item ''a'' t)" "0 \<le> t \<Longrightarrow> valid_item (sample_item ''b'' t)"
  by (simp_all add: valid_item_def sample_item_def valid_factors_def sample_factors_def py_strip_def py_isspace_def)

definition sample_two :: queues where
  "sample_two = snd (enqueue (sample_item ''b'' 3) (snd (enqueue (sample_item ''a'' 1) sample_queues)))"

lemma sample_two_run: "queue_step\<^sup>*\<^sup>* sample_queues sample_two"
  unfolding sample_two_def
  by (rule converse_rtranclp_into_rtranclp [OF step_enqueue r_into_rtranclp [of queue_step, OF step_enqueue]])
    (simp_all add: sample_item_valid)

lemma sample_two_snapshot: "snapshot sample_two = [sample_item ''a'' 1, sample_item ''b'' 3]"
  by (simp add: sample_two_def sample_queues_def enqueue_def ensure_capacity_def snapshot_def sample_item_def count_queue_def)

lemma queues_bounded_witness:
  "length (snapshot sample_two) = 2 \<and> \<not> is_ok (fst (enqueue (sample_item ''c'' 4) sample_two))"
proof -
  have "q_max_queued sample_two = 2"
    by (simp add: sample_two_def sample_queues_def enqueue_def ensure_capacity_def sample_item_def count_queue_def)
  with queues_bounded [OF sample_queues_start sample_two_run] show ?thesis
    using sample_two_snapshot by (auto simp: snapshot_def queue_length_def)
qed

lemma pop_next_order_witness:
  "\<exists>Q'. pop_next (Finite 10) sample_two = (Inr (sample_item ''a'' 1), Q')
    \<and> sample_item ''b'' 3 \<in> set (snapshot Q')"
proof -
  have "fst (pop_next (Finite 10) sample_two) = Inr (sample_item ''a'' 1)" by code_simp
  then obtain Q' where Q': "pop_next (Finite 10) sample_two = (Inr (sample_item ''a'' 1), Q')"
    by (cases "pop_next (Finite 10) sample_two") auto
  have "sample_item ''b'' 3 \<in> set (snapshot Q')"
    using pop_next_order [OF queue_runs.invar_reachable [OF sample_queues_start sample_two_run] Q',
        of "sample_item ''b'' 3" 10]
    by (simp add: sample_two_snapshot sample_item_def)
  with Q' show ?thesis by blast
qed

end
