(* ===== verification/Retry.thy ===== *)
theory Retry
  imports JsonValues
begin

text \<open>
  scheduler/retry.py and scheduler/cancellation.py. An exception is its class with the classes it
  inherits from, and the \<open>violations\<close> tuple it may carry (its items are JSON values). The delay is exact, so the \<open>OverflowError\<close> branch of the code, which returns the
  cap, is the case of a product above the cap. A token keeps its waiters as pairs of event loop
  and event; notifying one whose loop is closed raises in the code and is skipped.
\<close>

section \<open>Retry policy\<close>

record py_exception =
  exc_class :: string
  exc_bases :: "string list"
  exc_violations :: "json list option"

definition isinstance_exc :: "py_exception \<Rightarrow> string list \<Rightarrow> bool" where
  "isinstance_exc e classes = list_ex (\<lambda>c. c = exc_class e \<or> c \<in> set (exc_bases e)) classes"

datatype policy_error = PolicyError string

record retry_policy =
  rp_max_attempts :: int
  rp_base_delay :: rat
  rp_max_delay :: rat
  rp_retryable :: "string list"

definition policy_seconds :: "string \<Rightarrow> pyfloat \<Rightarrow> policy_error + rat" where
  "policy_seconds name v = (case v of Finite r \<Rightarrow> if r < 0 then Inl (PolicyError name) else Inr r
     | _ \<Rightarrow> Inl (PolicyError name))"

definition mk_policy :: "int \<Rightarrow> pyfloat \<Rightarrow> pyfloat \<Rightarrow> string list \<Rightarrow> policy_error + retry_policy" where
  "mk_policy n base cap classes =
    rbind (guard_or (1 \<le> n) (PolicyError ''max_attempts'')) (\<lambda>_.
    rbind (policy_seconds ''base_delay_seconds'' base) (\<lambda>b.
    rbind (policy_seconds ''max_delay_seconds'' cap) (\<lambda>c.
    rbind (guard_or (\<not> c < b) (PolicyError ''base_delay_seconds cannot exceed max_delay_seconds'')) (\<lambda>_.
      Inr \<lparr>rp_max_attempts = n, rp_base_delay = b, rp_max_delay = c, rp_retryable = classes\<rparr>))))"

definition should_retry :: "retry_policy \<Rightarrow> int \<Rightarrow> py_exception \<Rightarrow> policy_error + bool" where
  "should_retry p attempt e =
    (if attempt < 0 then Inl (PolicyError ''attempt'')
     else Inr (attempt + 1 < rp_max_attempts p \<and> isinstance_exc e (rp_retryable p)))"

definition delay_for_retry :: "retry_policy \<Rightarrow> int \<Rightarrow> policy_error + rat" where
  "delay_for_retry p next_attempt =
    (if next_attempt < 1 then Inl (PolicyError ''next_attempt'')
     else if rp_base_delay p = 0 then Inr 0
     else if 1024 < next_attempt then Inr (rp_max_delay p)
     else Inr (min (rp_max_delay p) (rp_base_delay p * 2 ^ nat (next_attempt - 1))))"

lemma mk_policyD:
  "mk_policy n b c cl = Inr p \<Longrightarrow> 1 \<le> rp_max_attempts p \<and> 0 \<le> rp_base_delay p \<and> rp_base_delay p \<le> rp_max_delay p"
  by (auto simp: mk_policy_def policy_seconds_def rbind_Inr_iff split: pyfloat.splits if_splits)

text \<open>
  C38. Retrying ends and backs off. With a policy the constructor accepts, an attempt that failed
  is retried exactly when it is below \<open>max_attempts - 1\<close> and the exception is an instance of one of
  the retryable classes. The first retry waits the base delay; each further delay is twice the one
  before it, cut at the cap, up to the 1024th retry, and the cap from there on (a base delay of zero
  stays zero). So every delay exists, lies between the base delay and the cap and never decreases.
\<close>

theorem retry_backoff:
  assumes p: "mk_policy n b c cl = Inr p" and k: "1 \<le> k"
  shows "\<exists>d d'. delay_for_retry p k = Inr d \<and> delay_for_retry p (k + 1) = Inr d'
    \<and> delay_for_retry p 1 = Inr (rp_base_delay p)
    \<and> rp_base_delay p \<le> d \<and> d \<le> rp_max_delay p \<and> d \<le> d'
    \<and> (k < 1024 \<longrightarrow> d' = min (rp_max_delay p) (2 * d))
    \<and> (k < 1024 \<and> 2 * d \<le> rp_max_delay p \<longrightarrow> d' = 2 * d)
    \<and> (1024 \<le> k \<longrightarrow> d' = (if rp_base_delay p = 0 then 0 else rp_max_delay p))
    \<and> (should_retry p (k - 1) e = Inr True \<longrightarrow> k < rp_max_attempts p)
    \<and> should_retry p (k - 1) e = Inr (k < rp_max_attempts p
         \<and> (\<exists>c \<in> set (rp_retryable p). c = exc_class e \<or> c \<in> set (exc_bases e)))"
proof -
  note P = mk_policyD [OF p]
  let ?b = "rp_base_delay p" and ?m = "rp_max_delay p"
  let ?D = "\<lambda>j. if ?b = 0 then 0 else if 1024 < j then ?m else min ?m (?b * 2 ^ nat (j - 1))"
  have D: "delay_for_retry p j = Inr (?D j)" if "1 \<le> j" for j :: int
    using that by (simp add: delay_for_retry_def)
  have pow: "(2::rat) ^ nat (k + 1 - 1) = 2 * 2 ^ nat (k - 1)"
  proof -
    have "nat (k + 1 - 1) = Suc (nat (k - 1))" using k by simp
    then show ?thesis by simp
  qed
  have one: "?b \<le> ?b * 2 ^ nat (k - 1)"
    using P by (simp add: mult_le_cancel_left1)
  have nn: "0 \<le> ?b * 2 ^ nat (k - 1)" using P by simp
  have bounds: "?b \<le> ?D k" "?D k \<le> ?m" using P one by auto
  have mono: "?D k \<le> ?D (k + 1)"
    using P nn unfolding pow by (auto simp: min_def)
  have rec: "?D (k + 1) = min ?m (2 * ?D k)" if "k < 1024"
    using that P nn unfolding pow by (auto simp: min_def split: if_splits)
  have late: "?D (k + 1) = (if ?b = 0 then 0 else ?m)" if "1024 \<le> k"
    using that by simp
  have first: "delay_for_retry p 1 = Inr ?b"
    using P by (simp add: delay_for_retry_def)
  have retry: "should_retry p (k - 1) e = Inr (k < rp_max_attempts p
      \<and> (\<exists>c \<in> set (rp_retryable p). c = exc_class e \<or> c \<in> set (exc_bases e)))"
    using k by (simp add: should_retry_def isinstance_exc_def list_ex_iff)
  note D = D [OF k] D [of "k + 1"]
  show ?thesis
  proof (rule exI [of _ "?D k"], rule exI [of _ "?D (k + 1)"], intro conjI)
    show "delay_for_retry p k = Inr (?D k)" "delay_for_retry p (k + 1) = Inr (?D (k + 1))"
      using D k by simp_all
    show "delay_for_retry p 1 = Inr ?b" by (rule first)
    show "?b \<le> ?D k" "?D k \<le> ?m" "?D k \<le> ?D (k + 1)" using bounds mono by blast+
    show "k < 1024 \<longrightarrow> ?D (k + 1) = min ?m (2 * ?D k)" using rec by blast
    show "k < 1024 \<and> 2 * ?D k \<le> ?m \<longrightarrow> ?D (k + 1) = 2 * ?D k" using rec by linarith
    show "1024 \<le> k \<longrightarrow> ?D (k + 1) = (if ?b = 0 then 0 else ?m)" using late by blast
    show "should_retry p (k - 1) e = Inr True \<longrightarrow> k < rp_max_attempts p"
      unfolding retry by simp
  qed (rule retry)
qed

lemma retry_backoff_witness:
  "mk_policy 3 (Finite 2) (Finite 60) [''Exception''] = Inr \<lparr>rp_max_attempts = 3, rp_base_delay = 2,
     rp_max_delay = 60, rp_retryable = [''Exception'']\<rparr>
   \<and> delay_for_retry \<lparr>rp_max_attempts = 3, rp_base_delay = 2, rp_max_delay = 60,
        rp_retryable = [''Exception'']\<rparr> 1 = Inr 2
   \<and> delay_for_retry \<lparr>rp_max_attempts = 3, rp_base_delay = 2, rp_max_delay = 60,
        rp_retryable = [''Exception'']\<rparr> 2 = Inr 4"
proof -
  have p: "mk_policy 3 (Finite 2) (Finite 60) [''Exception''] = Inr \<lparr>rp_max_attempts = 3, rp_base_delay = 2,
     rp_max_delay = 60, rp_retryable = [''Exception'']\<rparr>"
    by (simp add: mk_policy_def policy_seconds_def)
  from retry_backoff [OF p, of 1] p show ?thesis by (auto simp del: One_nat_def) (fastforce simp: min_def)
qed

section \<open>Cancellation tokens\<close>

datatype checkpoint_kind = SAMPLER_STEP | BETWEEN_BLOCKS | BEFORE_DECODE | BEFORE_SAVE

definition checkpoint_of :: "string \<Rightarrow> checkpoint_kind option" where
  "checkpoint_of v = map_of [(''sampler_step'', SAMPLER_STEP), (''between_blocks'', BETWEEN_BLOCKS),
     (''before_decode'', BEFORE_DECODE), (''before_save'', BEFORE_SAVE)] v"

record observation =
  ob_checkpoint :: checkpoint_kind
  ob_position :: "int option"

datatype token_error = TokenValue string | CancellationRequested string checkpoint_kind "int option"

record cancel_token =
  ct_set :: bool
  ct_reason :: "string option"
  ct_limit :: nat
  ct_history :: "observation list"
  ct_waiters :: "(nat \<times> nat) list"
  ct_notified :: "(nat \<times> nat) list"

definition new_token :: "int \<Rightarrow> token_error + cancel_token" where
  "new_token n = (if n < 1 then Inl (TokenValue ''history_limit'')
     else Inr \<lparr>ct_set = False, ct_reason = None, ct_limit = nat n, ct_history = [], ct_waiters = [],
       ct_notified = []\<rparr>)"

text \<open>\<open>deque(maxlen=n).append\<close>.\<close>

definition bounded_append :: "nat \<Rightarrow> 'a list \<Rightarrow> 'a \<Rightarrow> 'a list" where
  "bounded_append n xs x = (let ys = xs @ [x] in drop (length ys - n) ys)"

text \<open>\<open>gone\<close> is the set of event loops that have closed.\<close>

definition cancel :: "nat set \<Rightarrow> string \<Rightarrow> cancel_token \<Rightarrow> (token_error + bool) \<times> cancel_token" where
  "cancel gone reason t =
    (if \<not> (reason \<noteq> [] \<and> reason = py_strip reason) then (Inl (TokenValue ''reason''), t)
     else if ct_set t then (Inr False, t)
     else (Inr True, t\<lparr>ct_reason := Some reason, ct_set := True,
       ct_notified := ct_notified t @ filter (\<lambda>w. fst w \<notin> gone) (ct_waiters t)\<rparr>))"

definition checkpoint :: "string \<Rightarrow> int option \<Rightarrow> cancel_token \<Rightarrow> (token_error + unit) \<times> cancel_token" where
  "checkpoint c position t =
    (case checkpoint_of c of
       None \<Rightarrow> (Inl (TokenValue ''unknown cancellation checkpoint''), t)
     | Some k \<Rightarrow>
        if (case position of None \<Rightarrow> False | Some p \<Rightarrow> p < 0) then (Inl (TokenValue ''position''), t)
        else (case ct_reason t of None \<Rightarrow> Inr () | Some r \<Rightarrow> Inl (CancellationRequested r k position),
              t\<lparr>ct_history := bounded_append (ct_limit t) (ct_history t) \<lparr>ob_checkpoint = k, ob_position = position\<rparr>\<rparr>))"

text \<open>
  \<open>wait\<close> up to its \<open>await\<close>: the reason at once, or the waiter registered; and from the wake-up
  on. Between the two the waiter sleeps until it is notified.
\<close>

definition wait_begin :: "nat \<times> nat \<Rightarrow> cancel_token \<Rightarrow> string option \<times> cancel_token" where
  "wait_begin w t = (case ct_reason t of
     Some r \<Rightarrow> (Some r, t)
   | None \<Rightarrow> (None, t\<lparr>ct_waiters := (if w \<in> set (ct_waiters t) then ct_waiters t else ct_waiters t @ [w])\<rparr>))"

definition wait_end :: "nat \<times> nat \<Rightarrow> cancel_token \<Rightarrow> string \<times> cancel_token" where
  "wait_end w t = (case ct_reason t of Some r \<Rightarrow> if r = [] then ''cancelled'' else r | None \<Rightarrow> ''cancelled'',
     t\<lparr>ct_waiters := removeAll w (ct_waiters t)\<rparr>)"

inductive token_step :: "nat set \<Rightarrow> cancel_token \<Rightarrow> cancel_token \<Rightarrow> bool" for gone where
  token_cancel: "token_step gone t (snd (cancel gone r t))"
| token_checkpoint: "token_step gone t (snd (checkpoint c p t))"
| token_wait: "token_step gone t (snd (wait_begin w t))"
| token_woken: "w \<in> set (ct_notified t) \<Longrightarrow> token_step gone t (snd (wait_end w t))"
| token_abandoned: "token_step gone t (snd (wait_end w t))"

inductive_cases token_stepE: "token_step gone t t'"

definition token_ok :: "nat set \<Rightarrow> cancel_token \<Rightarrow> bool" where
  "token_ok gone t = (1 \<le> ct_limit t \<and> length (ct_history t) \<le> ct_limit t
     \<and> (ct_set t \<longleftrightarrow> ct_reason t \<noteq> None) \<and> (\<forall>r. ct_reason t = Some r \<longrightarrow> r \<noteq> [] \<and> r = py_strip r)
     \<and> (ct_set t \<longrightarrow> (\<forall>w \<in> set (ct_waiters t). w \<in> set (ct_notified t) \<or> fst w \<in> gone)))"

lemma bounded_append_length: "length (bounded_append n xs x) \<le> n"
  by (simp add: bounded_append_def Let_def)

lemma token_ok_step:
  assumes "token_step gone t t'" and "token_ok gone t"
  shows "token_ok gone t'"
  using assms(1)
proof cases
  case (token_cancel r)
  with assms(2) show ?thesis by (auto simp: cancel_def token_ok_def)
next
  case (token_checkpoint c p)
  with assms(2) show ?thesis
    by (auto simp: checkpoint_def token_ok_def bounded_append_length split: option.split)
next
  case (token_wait w)
  with assms(2) show ?thesis by (auto simp: wait_begin_def token_ok_def split: option.split)
qed (use assms(2) in \<open>auto simp: wait_end_def token_ok_def\<close>)

interpretation token_runs: invariant_system "\<lambda>t. \<exists>n. new_token n = Inr t" "token_step gone" "token_ok gone"
proof
  show "token_ok gone t" if "\<exists>n. new_token n = Inr t" for t
    using that by (auto simp: new_token_def token_ok_def split: if_splits)
qed (rule token_ok_step)

lemma reason_stays:
  assumes "(token_step gone)\<^sup>*\<^sup>* t t'" and "token_ok gone t" and "ct_reason t = Some r"
  shows "ct_reason t' = Some r \<and> token_ok gone t'"
  using assms(1)
proof (induction rule: rtranclp_induct)
  case (step u v)
  from step.hyps(2) step.IH have "ct_reason v = Some r"
    by (auto elim!: token_stepE simp: cancel_def checkpoint_def wait_begin_def wait_end_def token_ok_def
        split: option.splits)
  with step token_ok_step show ?case by blast
qed (use assms in simp)

text \<open>
  C37. Cancellation is sticky and reaches everyone. Once a token of any run has been cancelled,
  whatever happens later the reason is the one of the first accepted cancel; every further cancel
  with a valid reason returns False; every valid checkpoint raises with that reason and is
  recorded; every new wait returns it at once; every registered waiter has been notified unless
  its event loop had closed; and the history never exceeds its limit.
\<close>

theorem cancellation_sticky:
  assumes "new_token n = Inr t0" and "(token_step gone)\<^sup>*\<^sup>* t0 t"
    and "cancel gone r t = (Inr True, t1)" and "(token_step gone)\<^sup>*\<^sup>* t1 t'"
    and "r' \<noteq> []" and "r' = py_strip r'" and "checkpoint_of c = Some k"
  shows "ct_reason t' = Some r \<and> fst (cancel gone r' t') = Inr False
    \<and> fst (checkpoint c None t') = Inl (CancellationRequested r k None)
    \<and> last (ct_history (snd (checkpoint c None t'))) = \<lparr>ob_checkpoint = k, ob_position = None\<rparr>
    \<and> fst (wait_begin w t') = Some r
    \<and> (\<forall>w \<in> set (ct_waiters t'). w \<in> set (ct_notified t') \<or> fst w \<in> gone)
    \<and> length (ct_history t') \<le> ct_limit t'"
proof -
  have "token_ok gone t" using token_runs.invar_reachable assms(1,2) by blast
  then have "token_ok gone t1" using token_ok_step [OF token_cancel, of gone t r] assms(3) by simp
  moreover have "ct_reason t1 = Some r" using assms(3) by (auto simp: cancel_def split: if_splits)
  ultimately have R: "ct_reason t' = Some r" "token_ok gone t'"
    using reason_stays [OF assms(4)] by auto
  have "1 \<le> ct_limit t'" using R by (simp add: token_ok_def)
  then have "last (bounded_append (ct_limit t') (ct_history t') ob) = ob" for ob
    by (simp add: bounded_append_def Let_def last_drop)
  with R assms(5-7) show ?thesis
    by (simp add: token_ok_def cancel_def checkpoint_def wait_begin_def)
qed

lemma cancellation_sticky_witness:
  "\<exists>t0 t1. new_token 2 = Inr t0 \<and> cancel {} ''stop'' t0 = (Inr True, t1)
     \<and> fst (checkpoint ''before_save'' None t1) = Inl (CancellationRequested ''stop'' BEFORE_SAVE None)"
proof -
  let ?t0 = "\<lparr>ct_set = False, ct_reason = None, ct_limit = 2, ct_history = [], ct_waiters = [],
       ct_notified = []\<rparr>"
  have strip: "''stop'' = py_strip ''stop''" by (simp add: py_strip_def py_isspace_def)
  then obtain t1 where t: "new_token 2 = Inr ?t0" "cancel {} ''stop'' ?t0 = (Inr True, t1)"
    by (simp add: new_token_def cancel_def)
  have "fst (checkpoint ''before_save'' None t1) = Inl (CancellationRequested ''stop'' BEFORE_SAVE None)"
    using cancellation_sticky [OF t(1) rtranclp.rtrancl_refl t(2) rtranclp.rtrancl_refl _ strip,
        of "''before_save''" BEFORE_SAVE]
    by (simp add: checkpoint_of_def)
  with t show ?thesis by blast
qed

end
