(* ===== verification/ResultCache.thy ===== *)
theory ResultCache
  imports JsonValues
begin

text \<open>
  core/cache.py: the bounded cache of node results, with expiry and least-recently-used eviction.
  The asyncio lock is held over each method's body, so a method is one step on the state; the
  value the clock returns is an argument. \<open>min\<close> of no items raises in the code, so the eviction
  loop has that branch, which the invariant excludes.
\<close>

datatype cache_error = CacheValue string | CacheJson json_error | CacheCapacity

record cache_entry =
  ce_key :: string
  ce_value :: json
  ce_size_bytes :: int
  ce_created_at :: rat
  ce_last_accessed_at :: rat
  ce_expires_at :: "rat option"
  ce_hit_count :: int

definition check_key :: "string \<Rightarrow> cache_error + unit" where
  "check_key k = guard_or (trimmed_identifier 512 k) (CacheValue ''cache key'')"

text \<open>\<open>CacheEntry.__post_init__\<close>, before the value is frozen.\<close>

definition entry_checks :: "cache_entry \<Rightarrow> cache_error + unit" where
  "entry_checks e = checks
     [check_key (ce_key e),
      guard_or (0 \<le> ce_size_bytes e) (CacheValue ''size_bytes''),
      guard_or (0 \<le> ce_hit_count e) (CacheValue ''hit_count''),
      guard_or (0 \<le> ce_created_at e) (CacheValue ''created_at''),
      guard_or (0 \<le> ce_last_accessed_at e) (CacheValue ''last_accessed_at''),
      (case ce_expires_at e of None \<Rightarrow> Inr ()
       | Some x \<Rightarrow> guard_or (ce_created_at e \<le> x) (CacheValue ''expires_at'')),
      guard_or (ce_created_at e \<le> ce_last_accessed_at e) (CacheValue ''last_accessed_at'')]"

record stored =
  st_entry :: cache_entry
  st_order :: nat

record cache =
  rc_max_entries :: nat
  rc_max_bytes :: int
  rc_entries :: "(string, stored) dict"
  rc_bytes :: int
  rc_order :: nat

definition new_cache :: "int \<Rightarrow> int \<Rightarrow> cache_error + cache" where
  "new_cache max_entries max_bytes =
    rbind (guard_or (1 \<le> max_entries) (CacheValue ''max_entries'')) (\<lambda>_.
    rbind (guard_or (0 \<le> max_bytes) (CacheValue ''max_bytes'')) (\<lambda>_.
      Inr \<lparr>rc_max_entries = nat max_entries, rc_max_bytes = max_bytes, rc_entries = [], rc_bytes = 0, rc_order = 0\<rparr>))"

definition cache_now :: "pyfloat \<Rightarrow> cache_error + rat" where
  "cache_now clock = (case clock of Finite r \<Rightarrow> if r < 0 then Inl (CacheValue ''clock'') else Inr r
     | _ \<Rightarrow> Inl (CacheValue ''clock''))"

definition expired :: "cache_entry \<Rightarrow> rat \<Rightarrow> bool" where
  "expired e now = (case ce_expires_at e of None \<Rightarrow> False | Some x \<Rightarrow> x \<le> now)"

text \<open>Removal of one key with its bytes, as every path of the code does it.\<close>

definition drop_key :: "string \<Rightarrow> cache \<Rightarrow> cache" where
  "drop_key k c = (case map_of (rc_entries c) k of None \<Rightarrow> c
     | Some s \<Rightarrow> c\<lparr>rc_bytes := rc_bytes c - ce_size_bytes (st_entry s), rc_entries := AList.delete k (rc_entries c)\<rparr>)"

definition purge_expired :: "rat \<Rightarrow> cache \<Rightarrow> cache" where
  "purge_expired now c =
    fold drop_key (dkeys (filter (\<lambda>(k, s). expired (st_entry s) now) (rc_entries c))) c"

definition victim :: "cache \<Rightarrow> string" where
  "victim c = fst (arg_min_list (\<lambda>(k, s). (st_order s, k)) (rc_entries c))"

definition over_limits :: "cache \<Rightarrow> bool" where
  "over_limits c = (rc_max_entries c < length (rc_entries c) \<or> rc_max_bytes c < rc_bytes c)"

lemma victim_in: "rc_entries c \<noteq> [] \<Longrightarrow> \<exists>s. (victim c, s) \<in> set (rc_entries c)"
  unfolding victim_def by (metis arg_min_list_in prod.collapse)

lemma length_drop_victim: "rc_entries c \<noteq> [] \<Longrightarrow> length (rc_entries (drop_key (victim c) c)) < length (rc_entries c)"
proof -
  assume "rc_entries c \<noteq> []"
  then obtain s where s: "(victim c, s) \<in> set (rc_entries c)" using victim_in by blast
  then obtain s' where "map_of (rc_entries c) (victim c) = Some s'"
    by (metis weak_map_of_SomeI)
  moreover have "length (AList.delete (victim c) (rc_entries c)) < length (rc_entries c)"
    unfolding AList.delete_eq using s by (intro length_filter_less) auto
  ultimately show ?thesis by (simp add: drop_key_def)
qed

text \<open>\<open>_evict_to_limits\<close> and the loop of \<open>evict_until\<close>.\<close>

function evict_to_limits :: "cache \<Rightarrow> cache_error + cache" where
  "evict_to_limits c =
    (if over_limits c
     then if rc_entries c = [] then Inl (CacheValue ''min() arg is an empty sequence'')
          else evict_to_limits (drop_key (victim c) c)
     else Inr c)"
  by pat_completeness auto
termination
  by (relation "measure (\<lambda>c. length (rc_entries c))") (auto intro: length_drop_victim)

function evict_loop :: "int \<Rightarrow> cache_entry list \<Rightarrow> cache \<Rightarrow> cache_entry list \<times> cache" where
  "evict_loop target evicted c =
    (if target < rc_bytes c \<and> rc_entries c \<noteq> []
     then (case map_of (rc_entries c) (victim c) of
        None \<Rightarrow> (evicted, c)
      | Some s \<Rightarrow> evict_loop target (evicted @ [st_entry s]) (drop_key (victim c) c))
     else (evicted, c))"
  by pat_completeness auto
termination
  by (relation "measure (\<lambda>(target, evicted, c). length (rc_entries c))") (auto intro: length_drop_victim)

declare evict_to_limits.simps [simp del] evict_loop.simps [simp del]

definition cache_get :: "pyfloat \<Rightarrow> string \<Rightarrow> cache \<Rightarrow> (cache_error + cache_entry option) \<times> cache" where
  "cache_get clock key c =
    (case check_key key of Inl e \<Rightarrow> (Inl e, c) | Inr _ \<Rightarrow>
     (case map_of (rc_entries c) key of
        None \<Rightarrow> (Inr None, c)
      | Some s \<Rightarrow>
        (case cache_now clock of Inl e \<Rightarrow> (Inl e, c) | Inr now \<Rightarrow>
          if expired (st_entry s) now then (Inr None, drop_key key c)
          else let e' = (st_entry s)\<lparr>ce_last_accessed_at := now, ce_hit_count := ce_hit_count (st_entry s) + 1\<rparr>
            in case entry_checks e' of
                 Inl e \<Rightarrow> (Inl e, c)
               | Inr _ \<Rightarrow> (Inr (Some e'),
                   c\<lparr>rc_order := rc_order c + 1,
                     rc_entries := AList.update key \<lparr>st_entry = e', st_order = rc_order c + 1\<rparr> (rc_entries c)\<rparr>))))"

definition ttl_ok :: "pyfloat option \<Rightarrow> bool" where
  "ttl_ok ttl = (case ttl of None \<Rightarrow> True | Some (Finite r) \<Rightarrow> 0 < r | Some _ \<Rightarrow> False)"

definition expiry :: "rat \<Rightarrow> pyfloat option \<Rightarrow> rat option" where
  "expiry now ttl = (case ttl of Some (Finite r) \<Rightarrow> Some (now + r) | _ \<Rightarrow> None)"

definition insert_entry :: "cache_entry \<Rightarrow> cache \<Rightarrow> cache" where
  "insert_entry e c = (let c1 = drop_key (ce_key e) c in
     c1\<lparr>rc_order := rc_order c1 + 1,
        rc_entries := AList.update (ce_key e) \<lparr>st_entry = e, st_order = rc_order c1 + 1\<rparr> (rc_entries c1),
        rc_bytes := rc_bytes c1 + ce_size_bytes e\<rparr>)"

text \<open>The part of \<open>put\<close> before the lock: the arguments are checked and the entry constructed.\<close>

definition new_entry :: "pyfloat \<Rightarrow> string \<Rightarrow> pyheap \<times> pyval \<Rightarrow> int \<Rightarrow> pyfloat option \<Rightarrow> int \<Rightarrow>
    cache_error + rat \<times> cache_entry" where
  "new_entry clock key v sz ttl max_bytes =
     rbind (check_key key) (\<lambda>_.
     rbind (guard_or (0 \<le> sz) (CacheValue ''size_bytes'')) (\<lambda>_.
     rbind (guard_or (ttl_ok ttl) (CacheValue ''ttl_seconds'')) (\<lambda>_.
     rbind (guard_or (\<not> max_bytes < sz) CacheCapacity) (\<lambda>_.
     rbind (cache_now clock) (\<lambda>now.
       let e = \<lparr>ce_key = key, ce_value = JNull, ce_size_bytes = sz, ce_created_at = now,
                ce_last_accessed_at = now, ce_expires_at = expiry now ttl, ce_hit_count = 0\<rparr>
       in rbind (entry_checks e) (\<lambda>_.
          case freeze_json_value (fst v) (ustr ''$.value'') (snd v) of
            Inl j \<Rightarrow> Inl (CacheJson j)
          | Inr j \<Rightarrow> Inr (now, e\<lparr>ce_value := j\<rparr>)))))))"

definition cache_put :: "pyfloat \<Rightarrow> string \<Rightarrow> pyheap \<times> pyval \<Rightarrow> int \<Rightarrow> pyfloat option \<Rightarrow> cache \<Rightarrow>
    (cache_error + cache_entry) \<times> cache" where
  "cache_put clock key v sz ttl c =
    (case new_entry clock key v sz ttl (rc_max_bytes c) of
       Inl e \<Rightarrow> (Inl e, c)
     | Inr (now, e) \<Rightarrow>
         (case evict_to_limits (insert_entry e (purge_expired now c)) of
            Inl err \<Rightarrow> (Inl err, insert_entry e (purge_expired now c))
          | Inr c' \<Rightarrow> (Inr e, c')))"

definition cache_delete :: "string \<Rightarrow> cache \<Rightarrow> (cache_error + bool) \<times> cache" where
  "cache_delete key c =
    (case check_key key of Inl e \<Rightarrow> (Inl e, c) | Inr _ \<Rightarrow>
      (Inr (map_of (rc_entries c) key \<noteq> None), drop_key key c))"

definition cache_clear :: "cache \<Rightarrow> nat \<times> cache" where
  "cache_clear c = (length (rc_entries c), c\<lparr>rc_entries := [], rc_bytes := 0\<rparr>)"

definition cache_size :: "pyfloat \<Rightarrow> cache \<Rightarrow> (cache_error + nat) \<times> cache" where
  "cache_size clock c = (case cache_now clock of Inl e \<Rightarrow> (Inl e, c)
     | Inr now \<Rightarrow> (let c' = purge_expired now c in (Inr (length (rc_entries c')), c')))"

definition cache_total_bytes :: "pyfloat \<Rightarrow> cache \<Rightarrow> (cache_error + int) \<times> cache" where
  "cache_total_bytes clock c = (case cache_now clock of Inl e \<Rightarrow> (Inl e, c)
     | Inr now \<Rightarrow> (let c' = purge_expired now c in (Inr (rc_bytes c'), c')))"

definition evict_until :: "int \<Rightarrow> cache \<Rightarrow> (cache_error + cache_entry list) \<times> cache" where
  "evict_until target c = (if target < 0 then (Inl (CacheValue ''target_bytes''), c)
     else case evict_loop target [] c of (es, c') \<Rightarrow> (Inr es, c'))"

section \<open>The invariant\<close>

definition entry_bytes :: "stored \<Rightarrow> int" where
  "entry_bytes s = ce_size_bytes (st_entry s)"

text \<open>Everything but the two capacity bounds, which \<open>put\<close> breaks between two lines.\<close>

definition cwf :: "cache \<Rightarrow> bool" where
  "cwf c = (1 \<le> rc_max_entries c \<and> 0 \<le> rc_max_bytes c \<and> wf_dict (rc_entries c)
     \<and> distinct (map st_order (dvalues (rc_entries c)))
     \<and> (\<forall>(k, s) \<in> set (rc_entries c). k = ce_key (st_entry s) \<and> st_order s \<le> rc_order c
          \<and> entry_checks (st_entry s) = Inr ())
     \<and> rc_bytes c = sum_list (map entry_bytes (dvalues (rc_entries c))))"

definition cinv :: "cache \<Rightarrow> bool" where
  "cinv c = (cwf c \<and> \<not> over_limits c)"

lemma entry_checks_ok:
  "entry_checks e = Inr () \<longleftrightarrow> trimmed_identifier 512 (ce_key e) \<and> 0 \<le> ce_size_bytes e \<and> 0 \<le> ce_hit_count e
     \<and> 0 \<le> ce_created_at e \<and> ce_created_at e \<le> ce_last_accessed_at e
     \<and> (\<forall>x. ce_expires_at e = Some x \<longrightarrow> ce_created_at e \<le> x)"
  by (cases "ce_expires_at e") (auto simp: entry_checks_def check_key_def rbind_Inr_iff)

lemma cwf_drop: "cwf c \<Longrightarrow> cwf (drop_key k c)"
proof -
  assume c: "cwf c"
  show ?thesis
  proof (cases "map_of (rc_entries c) k")
    case (Some s)
    have "distinct (map st_order (dvalues (AList.delete k (rc_entries c))))"
      using c unfolding cwf_def AList.delete_eq by (auto intro: distinct_map_filter)
    moreover have "sum_list (map entry_bytes (dvalues (AList.delete k (rc_entries c)))) = rc_bytes c - ce_size_bytes (st_entry s)"
      using c sum_values_delete [OF _ Some, of entry_bytes] by (simp add: cwf_def entry_bytes_def)
    ultimately show ?thesis
      using c Some by (auto simp: cwf_def drop_key_def mem_delete_iff intro: wf_dict_delete)
  qed (use c in \<open>simp add: drop_key_def\<close>)
qed

lemma drop_key_entries: "rc_entries (drop_key k c) = AList.delete k (rc_entries c)"
  by (auto simp: drop_key_def map_of_eq_None_iff delete_notin split: option.splits)

lemma drop_key_simps [simp]:
  "rc_max_entries (drop_key k c) = rc_max_entries c" "rc_max_bytes (drop_key k c) = rc_max_bytes c"
  "rc_order (drop_key k c) = rc_order c"
  by (simp_all add: drop_key_def split: option.split)

lemma fold_drop:
  "cwf c \<Longrightarrow> cwf (fold drop_key ks c) \<and> rc_entries (fold drop_key ks c) = filter (\<lambda>(k, s). k \<notin> set ks) (rc_entries c)
    \<and> rc_max_entries (fold drop_key ks c) = rc_max_entries c \<and> rc_max_bytes (fold drop_key ks c) = rc_max_bytes c
    \<and> rc_order (fold drop_key ks c) = rc_order c"
proof (induction ks arbitrary: c)
  case Nil
  have "filter (\<lambda>(k, s). True) (rc_entries c) = rc_entries c" by (simp add: split_def)
  with Nil show ?case by simp
next
  case (Cons k ks)
  from Cons.IH [OF cwf_drop [OF Cons.prems, of k]] show ?case
    by (auto simp: drop_key_entries AList.delete_eq split_def intro!: filter_cong)
qed

lemma purge_expired_eq:
  assumes "cwf c"
  shows "cwf (purge_expired now c)" and "rc_max_entries (purge_expired now c) = rc_max_entries c"
    and "rc_max_bytes (purge_expired now c) = rc_max_bytes c" and "rc_order (purge_expired now c) = rc_order c"
    and "rc_entries (purge_expired now c) = filter (\<lambda>(k, s). \<not> expired (st_entry s) now) (rc_entries c)"
proof -
  let ?ks = "dkeys (filter (\<lambda>(k, s). expired (st_entry s) now) (rc_entries c))"
  note F = fold_drop [OF assms, of ?ks]
  have "wf_dict (rc_entries c)" using assms by (simp add: cwf_def)
  then have "k \<in> set ?ks \<longleftrightarrow> expired (st_entry s) now" if "(k, s) \<in> set (rc_entries c)" for k s
    using that by (auto simp: image_iff dest: eq_key_imp_eq_value)
  then have "filter (\<lambda>(k, s). k \<notin> set ?ks) (rc_entries c) = filter (\<lambda>(k, s). \<not> expired (st_entry s) now) (rc_entries c)"
    by (intro filter_cong) auto
  with F show "cwf (purge_expired now c)" "rc_max_entries (purge_expired now c) = rc_max_entries c"
    "rc_max_bytes (purge_expired now c) = rc_max_bytes c" "rc_order (purge_expired now c) = rc_order c"
    "rc_entries (purge_expired now c) = filter (\<lambda>(k, s). \<not> expired (st_entry s) now) (rc_entries c)"
    unfolding purge_expired_def by auto
qed

lemma bytes_nonneg: "cwf c \<Longrightarrow> 0 \<le> rc_bytes c"
  unfolding cwf_def by (auto intro!: sum_list_map_nonneg simp: entry_bytes_def entry_checks_ok)

lemma not_over_if_empty: "cwf c \<Longrightarrow> rc_entries c = [] \<Longrightarrow> \<not> over_limits c"
  by (simp add: cwf_def over_limits_def)

section \<open>Eviction\<close>

lemma distinct_order:
  "cwf c \<Longrightarrow> (k, s) \<in> set (rc_entries c) \<Longrightarrow> (k', s') \<in> set (rc_entries c) \<Longrightarrow> st_order s = st_order s' \<Longrightarrow> k = k' \<and> s = s'"
proof -
  assume "cwf c" and a: "(k, s) \<in> set (rc_entries c)" "(k', s') \<in> set (rc_entries c)" "st_order s = st_order s'"
  then have "inj_on (st_order \<circ> snd) (set (rc_entries c))"
    by (simp add: cwf_def distinct_map comp_assoc)
  from inj_onD [OF this _ a(1,2)] a(3) show ?thesis by simp
qed

lemma victim_min:
  assumes "rc_entries c \<noteq> []"
  obtains s where "(victim c, s) \<in> set (rc_entries c)"
    "\<And>k' s'. (k', s') \<in> set (rc_entries c) \<Longrightarrow> st_order s \<le> st_order s'"
proof -
  let ?f = "\<lambda>(k, s). (st_order s, k)"
  obtain k s where ks: "arg_min_list ?f (rc_entries c) = (k, s)" by (cases "arg_min_list ?f (rc_entries c)")
  have "(k, s) \<in> set (rc_entries c)" using arg_min_list_in [OF assms, of ?f] ks by simp
  moreover have "st_order s \<le> st_order s'" if "(k', s') \<in> set (rc_entries c)" for k' s'
    using arg_min_list_le [OF that, of ?f] ks by (auto simp: less_eq_prod_def)
  ultimately show thesis using that ks by (simp add: victim_def)
qed

text \<open>Evicting the victim keeps exactly the entries used after it.\<close>

lemma drop_victim:
  assumes "cwf c" and "rc_entries c \<noteq> []"
  obtains s where "map_of (rc_entries c) (victim c) = Some s"
    "rc_entries (drop_key (victim c) c) = filter (\<lambda>(k, x). st_order s < st_order x) (rc_entries c)"
    "(victim c, s) \<in> set (rc_entries c)"
proof -
  obtain s where s: "(victim c, s) \<in> set (rc_entries c)"
      "\<And>k' s'. (k', s') \<in> set (rc_entries c) \<Longrightarrow> st_order s \<le> st_order s'"
    using victim_min [OF assms(2)] by blast
  have wf: "wf_dict (rc_entries c)" using assms(1) by (simp add: cwf_def)
  have "rc_entries (drop_key (victim c) c) = filter (\<lambda>(k, x). k \<noteq> victim c) (rc_entries c)"
    by (simp add: drop_key_entries AList.delete_eq eq_commute)
  also have "\<dots> = filter (\<lambda>(k, x). st_order s < st_order x) (rc_entries c)"
  proof (rule filter_cong [OF refl], clarify)
    fix k x assume kx: "(k, x) \<in> set (rc_entries c)"
    have "k = victim c \<Longrightarrow> x = s" using kx s(1) wf by (metis eq_key_imp_eq_value)
    moreover have "st_order x = st_order s \<Longrightarrow> k = victim c"
      using distinct_order [OF assms(1) kx s(1)] by simp
    ultimately show "(k \<noteq> victim c) = (st_order s < st_order x)"
      using s(2) [OF kx] by (metis order_less_irrefl order_less_le)
  qed
  finally show thesis using that s(1) wf by (simp add: map_of_Some_iff)
qed

text \<open>The newest entry, when it fits by itself, and what eviction does to the rest.\<close>

definition newest :: "cache \<Rightarrow> stored \<Rightarrow> bool" where
  "newest c x = (x \<in> set (dvalues (rc_entries c)) \<and> entry_bytes x \<le> rc_max_bytes c
     \<and> (\<forall>y \<in> set (dvalues (rc_entries c)). st_order y \<le> st_order x))"

definition kept_above :: "nat \<Rightarrow> cache \<Rightarrow> cache \<Rightarrow> bool" where
  "kept_above \<theta> c c' = (cinv c' \<and> rc_entries c' = filter (\<lambda>(k, x). \<theta> \<le> st_order x) (rc_entries c)
     \<and> rc_max_entries c' = rc_max_entries c \<and> rc_max_bytes c' = rc_max_bytes c \<and> rc_order c' = rc_order c
     \<and> (\<forall>x. newest c x \<longrightarrow> \<theta> \<le> st_order x))"

lemma newest_not_victim:
  assumes c: "cwf c" and over: "over_limits c" and x: "newest c x" and s: "(victim c, s) \<in> set (rc_entries c)"
  shows "st_order s < st_order x"
proof (rule ccontr)
  assume "\<not> st_order s < st_order x"
  moreover have "rc_entries c \<noteq> []" using s by auto
  then obtain s0 where s0: "(victim c, s0) \<in> set (rc_entries c)"
      "\<And>k' s'. (k', s') \<in> set (rc_entries c) \<Longrightarrow> st_order s0 \<le> st_order s'"
    using victim_min by blast
  moreover have "s0 = s" using s0(1) s c by (auto simp: cwf_def dest: eq_key_imp_eq_value)
  ultimately have all: "st_order y = st_order x" if "y \<in> set (dvalues (rc_entries c))" for y
    using that x by (fastforce simp: newest_def)
  have "distinct (map st_order (dvalues (rc_entries c)))" using c by (simp add: cwf_def)
  then have "length (rc_entries c) = card (set (map st_order (dvalues (rc_entries c))))"
    using distinct_card by fastforce
  also have "\<dots> \<le> card {st_order x}" using all by (intro card_mono) auto
  finally have "length (rc_entries c) \<le> 1" by simp
  with x obtain k where "rc_entries c = [(k, x)]"
    by (cases "rc_entries c") (auto simp: newest_def)
  with c x over show False by (simp add: over_limits_def cwf_def newest_def)
qed

lemma evict_to_limits_spec:
  "cwf c \<Longrightarrow> \<exists>c' \<theta>. evict_to_limits c = Inr c' \<and> kept_above \<theta> c c'"
proof (induction c rule: evict_to_limits.induct)
  case (1 c)
  show ?case
  proof (cases "over_limits c")
    case False
    have "filter (\<lambda>(k, x). 0 \<le> st_order x) (rc_entries c) = rc_entries c" by (simp add: split_def)
    with False 1(2) show ?thesis
      by (intro exI [of _ c] exI [of _ 0]) (simp add: evict_to_limits.simps [of c] kept_above_def cinv_def)
  next
    case True
    then have ne: "rc_entries c \<noteq> []" using not_over_if_empty [OF 1(2)] by auto
    let ?d = "drop_key (victim c) c"
    obtain s where s: "map_of (rc_entries c) (victim c) = Some s"
        "rc_entries ?d = filter (\<lambda>(k, x). st_order s < st_order x) (rc_entries c)"
        "(victim c, s) \<in> set (rc_entries c)"
      by (rule drop_victim [OF 1(2) ne])
    obtain c' \<theta> where c': "evict_to_limits ?d = Inr c'" "kept_above \<theta> ?d c'"
      using 1(1) [OF True ne cwf_drop [OF 1(2)]] by blast
    have "newest ?d x" if "newest c x" for x
    proof -
      have "x \<in> set (dvalues (rc_entries ?d))"
        using that newest_not_victim [OF 1(2) True that s(3)] by (force simp: newest_def s(2))
      moreover have "set (dvalues (rc_entries ?d)) \<subseteq> set (dvalues (rc_entries c))"
        by (auto simp: s(2))
      ultimately show ?thesis using that unfolding newest_def drop_key_simps by blast
    qed
    moreover have "filter (\<lambda>(k, x). \<theta> \<le> st_order x) (rc_entries ?d)
        = filter (\<lambda>(k, x). max \<theta> (Suc (st_order s)) \<le> st_order x) (rc_entries c)"
      unfolding s(2) filter_filter by (intro filter_cong) auto
    moreover have "Suc (st_order s) \<le> st_order x" if "newest c x" for x
      using newest_not_victim [OF 1(2) True that s(3)] by simp
    ultimately have "kept_above (max \<theta> (Suc (st_order s))) c c'"
      using c'(2) by (simp add: kept_above_def)
    with c'(1) True ne show ?thesis by (auto simp: evict_to_limits.simps [of c])
  qed
qed

text \<open>Nothing is evicted while the entries used since would have fitted with it.\<close>

definition used_since :: "nat \<Rightarrow> cache \<Rightarrow> (string \<times> stored) list" where
  "used_since n c = filter (\<lambda>(k, x). n \<le> st_order x) (rc_entries c)"

lemma evict_needed:
  "cwf c \<Longrightarrow> evict_to_limits c = Inr c' \<Longrightarrow> (k, s) \<in> set (rc_entries c) \<Longrightarrow> (k, s) \<notin> set (rc_entries c') \<Longrightarrow>
   rc_max_entries c < length (used_since (st_order s) c)
   \<or> rc_max_bytes c < sum_list (map (\<lambda>(_, x). ce_size_bytes (st_entry x)) (used_since (st_order s) c))"
proof (induction c rule: evict_to_limits.induct)
  case (1 c)
  have over: "over_limits c"
    using 1(3-5) by (cases "over_limits c") (auto simp: evict_to_limits.simps [of c])
  have ne: "rc_entries c \<noteq> []" using 1(4) by auto
  let ?d = "drop_key (victim c) c"
  obtain v where v: "rc_entries ?d = filter (\<lambda>(k, x). st_order v < st_order x) (rc_entries c)"
      "(victim c, v) \<in> set (rc_entries c)"
    by (rule drop_victim [OF 1(2) ne])
  have d: "evict_to_limits ?d = Inr c'" using 1(3) over ne by (simp add: evict_to_limits.simps [of c])
  show ?case
  proof (cases "st_order v < st_order s")
    case True
    then have "(k, s) \<in> set (rc_entries ?d)" using 1(4) by (simp add: v(1))
    moreover have "used_since (st_order s) ?d = used_since (st_order s) c"
      unfolding used_since_def v(1) filter_filter using True by (intro filter_cong) auto
    ultimately show ?thesis using 1(1) [OF over ne cwf_drop [OF 1(2)] d _ 1(5)] by simp
  next
    case False
    obtain v' where v': "(victim c, v') \<in> set (rc_entries c)"
        "\<And>k' s'. (k', s') \<in> set (rc_entries c) \<Longrightarrow> st_order v' \<le> st_order s'"
      using victim_min [OF ne] by blast
    have "v' = v" using v'(1) v(2) 1(2) by (auto simp: cwf_def dest: eq_key_imp_eq_value)
    then have "\<forall>p \<in> set (rc_entries c). case p of (k, x) \<Rightarrow> st_order s \<le> st_order x"
      using v'(2) False by fastforce
    then have "used_since (st_order s) c = rc_entries c" by (simp add: used_since_def filter_id_conv)
    moreover have "rc_bytes c = sum_list (map (\<lambda>(_, x). ce_size_bytes (st_entry x)) (rc_entries c))"
      using 1(2) by (simp add: cwf_def entry_bytes_def comp_def split_def)
    ultimately show ?thesis using over by (simp add: over_limits_def)
  qed
qed

lemma cwf_insert:
  assumes c: "cwf c" and e: "entry_checks e = Inr ()"
  shows "cwf (insert_entry e c)"
    and "rc_entries (insert_entry e c) = filter (\<lambda>(k, x). k \<noteq> ce_key e) (rc_entries c)
       @ [(ce_key e, \<lparr>st_entry = e, st_order = rc_order c + 1\<rparr>)]"
proof -
  let ?d = "drop_key (ce_key e) c"
  have d: "cwf ?d" by (rule cwf_drop [OF c])
  have new: "ce_key e \<notin> set (dkeys (rc_entries ?d))" by (simp add: drop_key_entries)
  show E: "rc_entries (insert_entry e c) = filter (\<lambda>(k, x). k \<noteq> ce_key e) (rc_entries c)
       @ [(ce_key e, \<lparr>st_entry = e, st_order = rc_order c + 1\<rparr>)]"
    using update_new [OF new]
    by (simp add: insert_entry_def Let_def drop_key_entries AList.delete_eq eq_commute)
  have "\<forall>x \<in> set (dvalues (rc_entries ?d)). st_order x \<le> rc_order c"
    using d by (auto simp: cwf_def)
  then have "rc_order c + 1 \<notin> st_order ` set (dvalues (rc_entries ?d))" by fastforce
  then show "cwf (insert_entry e c)"
    using d new e update_new [OF new]
    by (auto simp: cwf_def insert_entry_def Let_def entry_bytes_def comp_def image_image)
qed

section \<open>What each operation does\<close>

lemma entry_checks_value [simp]: "entry_checks (e\<lparr>ce_value := j\<rparr>) = entry_checks e"
  by (cases "ce_expires_at e") (simp_all add: entry_checks_def)

lemma new_entry_Inr:
  assumes "new_entry clock key v sz ttl m = Inr (now, e)"
  obtains j where "clock = Finite now" "freeze_json_value (fst v) (ustr ''$.value'') (snd v) = Inr j"
      "e = \<lparr>ce_key = key, ce_value = j, ce_size_bytes = sz, ce_created_at = now,
            ce_last_accessed_at = now, ce_expires_at = expiry now ttl, ce_hit_count = 0\<rparr>"
      "entry_checks e = Inr ()" "sz \<le> m"
proof -
  let ?e = "\<lparr>ce_key = key, ce_value = JNull, ce_size_bytes = sz, ce_created_at = now,
            ce_last_accessed_at = now, ce_expires_at = expiry now ttl, ce_hit_count = 0\<rparr>"
  obtain j where f: "freeze_json_value (fst v) (ustr ''$.value'') (snd v) = Inr j"
    using assms by (cases "freeze_json_value (fst v) (ustr ''$.value'') (snd v)")
      (auto simp: new_entry_def rbind_Inr_iff Let_def)
  from assms have j: "cache_now clock = Inr now" "entry_checks ?e = Inr ()" "\<not> m < sz" "e = ?e\<lparr>ce_value := j\<rparr>"
    unfolding new_entry_def rbind_Inr_iff Let_def f by auto
  have "clock = Finite now" using j(1) by (auto simp: cache_now_def split: pyfloat.splits if_splits)
  moreover have "entry_checks e = Inr ()" using j(2,4) entry_checks_value [where e = ?e and j = j] by simp
  ultimately show thesis using that f j by simp
qed

lemma cache_put_ok:
  assumes inv: "cinv c" and p: "cache_put clock key v sz ttl c = (r, c')"
  shows "(\<exists>e. r = Inl e \<and> c' = c) \<or>
    (\<exists>now j e \<theta>. clock = Finite now \<and> freeze_json_value (fst v) (ustr ''$.value'') (snd v) = Inr j
      \<and> e = \<lparr>ce_key = key, ce_value = j, ce_size_bytes = sz, ce_created_at = now,
            ce_last_accessed_at = now, ce_expires_at = expiry now ttl, ce_hit_count = 0\<rparr>
      \<and> entry_checks e = Inr () \<and> r = Inr e
      \<and> evict_to_limits (insert_entry e (purge_expired now c)) = Inr c'
      \<and> kept_above \<theta> (insert_entry e (purge_expired now c)) c'
      \<and> \<theta> \<le> rc_order c + 1)"
proof (cases "new_entry clock key v sz ttl (rc_max_bytes c)")
  case (Inl err)
  with p show ?thesis by (auto simp: cache_put_def)
next
  case (Inr x)
  obtain now e where x: "x = (now, e)" by (cases x)
  obtain j where e: "clock = Finite now" "freeze_json_value (fst v) (ustr ''$.value'') (snd v) = Inr j"
      "e = \<lparr>ce_key = key, ce_value = j, ce_size_bytes = sz, ce_created_at = now,
            ce_last_accessed_at = now, ce_expires_at = expiry now ttl, ce_hit_count = 0\<rparr>"
      "entry_checks e = Inr ()" "sz \<le> rc_max_bytes c"
    by (rule new_entry_Inr [OF Inr [unfolded x]])
  have c: "cwf c" using inv by (simp add: cinv_def)
  note P = purge_expired_eq [OF c, of now]
  let ?i = "insert_entry e (purge_expired now c)"
  note I = cwf_insert [OF P(1) e(4)]
  obtain \<theta> c2 where k: "evict_to_limits ?i = Inr c2" "kept_above \<theta> ?i c2"
    using evict_to_limits_spec [OF I(1)] by auto
  have r: "r = Inr e" "c' = c2" using p Inr x k(1) by (auto simp: cache_put_def)
  let ?x = "\<lparr>st_entry = e, st_order = rc_order c + 1\<rparr>"
  have "\<forall>y \<in> set (dvalues (rc_entries ?i)). st_order y \<le> rc_order c + 1"
    using P(1,4) by (auto simp: I(2) cwf_def)
  moreover have "rc_max_bytes ?i = rc_max_bytes c" by (simp add: insert_entry_def Let_def P(3))
  moreover have "ce_size_bytes e = sz" by (simp add: e(3))
  ultimately have "newest ?i ?x"
    using e(5) by (simp add: newest_def I(2) P(4) entry_bytes_def)
  with k have "\<theta> \<le> rc_order c + 1" by (auto simp: kept_above_def)
  with e k r show ?thesis by blast
qed

lemma cinv_drop: "cinv c \<Longrightarrow> cinv (drop_key k c)"
proof -
  assume c: "cinv c"
  have "length (rc_entries (drop_key k c)) \<le> length (rc_entries c)"
    by (simp add: drop_key_entries AList.delete_eq)
  moreover have "rc_bytes (drop_key k c) \<le> rc_bytes c"
  proof (cases "map_of (rc_entries c) k")
    case (Some s)
    then have "0 \<le> ce_size_bytes (st_entry s)"
      using c map_of_SomeD [OF Some] by (auto simp: cinv_def cwf_def entry_checks_ok)
    with Some show ?thesis by (simp add: drop_key_def)
  qed (simp add: drop_key_def)
  ultimately show ?thesis
    using c cwf_drop [of c k] by (simp add: cinv_def over_limits_def)
qed

lemma cinv_purge: "cinv c \<Longrightarrow> cinv (purge_expired now c)"
proof -
  have "cinv c \<Longrightarrow> cinv (fold drop_key ks c)" for ks c
    by (induction ks arbitrary: c) (auto intro: cinv_drop)
  then show "cinv c \<Longrightarrow> cinv (purge_expired now c)" by (simp add: purge_expired_def)
qed

lemma cache_get_ok:
  assumes inv: "cinv c"
  shows "cinv (snd (cache_get clock key c))"
proof -
  have "cinv (c\<lparr>rc_order := rc_order c + 1,
         rc_entries := AList.update key \<lparr>st_entry = e, st_order = rc_order c + 1\<rparr> (rc_entries c)\<rparr>)"
    if "map_of (rc_entries c) key = Some s" "ce_key e = ce_key (st_entry s)"
      "ce_size_bytes e = ce_size_bytes (st_entry s)" "entry_checks e = Inr ()" for s e
  proof -
    let ?x = "\<lparr>st_entry = e, st_order = rc_order c + 1\<rparr>"
    have wf: "wf_dict (rc_entries c)" using inv by (simp add: cinv_def cwf_def)
    have k: "key \<in> set (dkeys (rc_entries c))"
      using that(1) map_of_eq_None_iff [of "rc_entries c" key] by simp
    have U: "AList.update key ?x (rc_entries c) = map (\<lambda>(j, w). (j, if j = key then ?x else w)) (rc_entries c)"
      by (rule update_present [OF k wf])
    have s: "s = w" if "(key, w) \<in> set (rc_entries c)" for w
      using that wf \<open>map_of (rc_entries c) key = Some s\<close> by (simp add: map_of_Some_iff eq_key_imp_eq_value)
    have "map entry_bytes (dvalues (AList.update key ?x (rc_entries c))) = map entry_bytes (dvalues (rc_entries c))"
      unfolding U using s that(3) by (auto simp: entry_bytes_def split_def)
    moreover have "distinct (map st_order (dvalues (AList.update key ?x (rc_entries c))))"
    proof -
      have d: "distinct (map st_order (dvalues (rc_entries c)))" and
        le: "\<forall>(k, s) \<in> set (rc_entries c). st_order s \<le> rc_order c"
        using inv by (auto simp: cinv_def cwf_def)
      have inj: "inj_on (\<lambda>(j, w). st_order w) (set (rc_entries c))" "distinct (rc_entries c)"
        using d by (auto simp: distinct_map comp_def split_def)
      have "map st_order (dvalues (AList.update key ?x (rc_entries c)))
          = map (\<lambda>(j, w). if j = key then rc_order c + 1 else st_order w) (rc_entries c)"
        unfolding U by auto
      moreover have "inj_on (\<lambda>(j, w). if j = key then rc_order c + 1 else st_order w) (set (rc_entries c))"
      proof (rule inj_onI, clarify)
        fix j w j' w' assume a: "(j, w) \<in> set (rc_entries c)" "(j', w') \<in> set (rc_entries c)"
          "(if j = key then rc_order c + 1 else st_order w) = (if j' = key then rc_order c + 1 else st_order w')"
        have "st_order w \<le> rc_order c" "st_order w' \<le> rc_order c" using le a(1,2) by auto
        with a(3) have "j = key \<and> j' = key \<or> st_order w = st_order w'" by (auto split: if_splits)
        then show "j = j' \<and> w = w'"
          using s a(1,2) inj_onD [OF inj(1), of "(j, w)" "(j', w')"] by auto
      qed
      ultimately show ?thesis using inj(2) by (simp add: distinct_map)
    qed
    moreover have "\<forall>(k, s) \<in> set (AList.update key ?x (rc_entries c)). k = ce_key (st_entry s)
        \<and> st_order s \<le> rc_order c + 1 \<and> entry_checks (st_entry s) = Inr ()"
    proof -
      have "\<forall>(k, s) \<in> set (rc_entries c). k = ce_key (st_entry s) \<and> st_order s \<le> rc_order c \<and> entry_checks (st_entry s) = Inr ()"
        using inv by (simp add: cinv_def cwf_def)
      moreover have "key = ce_key (st_entry s)"
        using calculation map_of_SomeD [OF that(1)] by auto
      ultimately have "ce_key (st_entry (if j = key then ?x else w)) = j
          \<and> st_order (if j = key then ?x else w) \<le> rc_order c + 1
          \<and> entry_checks (st_entry (if j = key then ?x else w)) = Inr ()" if "(j, w) \<in> set (rc_entries c)" for j w
        using that \<open>ce_key e = ce_key (st_entry s)\<close> \<open>entry_checks e = Inr ()\<close> by (cases "j = key") auto
      then show ?thesis unfolding U by fastforce
    qed
    moreover have "length (AList.update key ?x (rc_entries c)) = length (rc_entries c)" unfolding U by simp
    ultimately show ?thesis
      using inv by (auto simp: cinv_def cwf_def over_limits_def intro: wf_dict_update)
  qed
  then show ?thesis
    using inv by (auto simp: cache_get_def Let_def intro: cinv_drop split: sum.split option.split)
qed

lemma evict_loop_spec:
  "cinv c \<Longrightarrow> 0 \<le> target \<Longrightarrow> (\<exists>new c'. evict_loop target old c = (old @ new, c') \<and> cinv c' \<and> rc_bytes c' \<le> target
     \<and> rc_bytes c' = rc_bytes c - sum_list (map ce_size_bytes new)
     \<and> (new \<noteq> [] \<longrightarrow> target < rc_bytes c - sum_list (map ce_size_bytes (butlast new)))
     \<and> (\<exists>\<theta>. rc_entries c' = filter (\<lambda>(k, x). \<theta> \<le> st_order x) (rc_entries c)))"
proof (induction target old c rule: evict_loop.induct)
  case (1 target old c)
  have c: "cwf c" using 1(2) by (simp add: cinv_def)
  show ?case
  proof (cases "target < rc_bytes c \<and> rc_entries c \<noteq> []")
    case False
    have "rc_entries c = [] \<Longrightarrow> rc_bytes c = 0" using c by (simp add: cwf_def)
    moreover have "\<exists>\<theta>. rc_entries c = filter (\<lambda>(k, x). \<theta> \<le> st_order x) (rc_entries c)"
      by (rule exI [of _ 0]) (simp add: split_def)
    moreover have "evict_loop target old c = (old @ [], c)"
      using False by (simp add: evict_loop.simps [of target old c])
    ultimately show ?thesis
      using False 1(2,3) by (intro exI [of _ "[]"] exI [of _ c]) auto
  next
    case True
    let ?d = "drop_key (victim c) c"
    obtain s where s: "map_of (rc_entries c) (victim c) = Some s"
        "rc_entries ?d = filter (\<lambda>(k, x). st_order s < st_order x) (rc_entries c)"
      using drop_victim [OF c] True by blast
    obtain new c' where IH: "evict_loop target (old @ [st_entry s]) ?d = ((old @ [st_entry s]) @ new, c')" "cinv c'"
        "rc_bytes c' \<le> target" "rc_bytes c' = rc_bytes ?d - sum_list (map ce_size_bytes new)"
        "new \<noteq> [] \<longrightarrow> target < rc_bytes ?d - sum_list (map ce_size_bytes (butlast new))"
        "\<exists>\<theta>. rc_entries c' = filter (\<lambda>(k, x). \<theta> \<le> st_order x) (rc_entries ?d)"
      using 1(1) [OF True s(1) cinv_drop [OF 1(2)] 1(3)] by blast
    have b: "rc_bytes ?d = rc_bytes c - ce_size_bytes (st_entry s)" using s(1) by (simp add: drop_key_def)
    obtain \<theta> where th: "rc_entries c' = filter (\<lambda>(k, x). \<theta> \<le> st_order x) (rc_entries ?d)" using IH(6) by blast
    have "rc_entries c' = filter (\<lambda>(k, x). max \<theta> (Suc (st_order s)) \<le> st_order x) (rc_entries c)"
      unfolding th s(2) filter_filter by (intro filter_cong) auto
    then have "\<exists>\<theta>. rc_entries c' = filter (\<lambda>(k, x). \<theta> \<le> st_order x) (rc_entries c)" by blast
    then show ?thesis
      using IH(1-5) b True s(1)
      by (intro exI [of _ "st_entry s # new"] exI [of _ c']) (auto simp: evict_loop.simps [of target old c])
  qed
qed

section \<open>Runs of a cache\<close>

inductive cache_step :: "cache \<Rightarrow> cache \<Rightarrow> bool" where
  step_get: "cache_step c (snd (cache_get clock k c))"
| step_put: "cache_step c (snd (cache_put clock k v sz ttl c))"
| step_delete: "cache_step c (snd (cache_delete k c))"
| step_clear: "cache_step c (snd (cache_clear c))"
| step_size: "cache_step c (snd (cache_size clock c))"
| step_bytes: "cache_step c (snd (cache_total_bytes clock c))"
| step_evict: "cache_step c (snd (evict_until target c))"

inductive_cases cache_stepE: "cache_step c c'"

lemma cache_put_cinv: "cinv c \<Longrightarrow> cinv (snd (cache_put clock k v sz ttl c))"
proof -
  assume c: "cinv c"
  obtain r c' where p: "cache_put clock k v sz ttl c = (r, c')" by (cases "cache_put clock k v sz ttl c")
  from cache_put_ok [OF c p] show ?thesis using c p by (auto simp: kept_above_def)
qed

lemma cinv_clear: "cinv c \<Longrightarrow> cinv (snd (cache_clear c))"
  by (auto simp: cache_clear_def cinv_def cwf_def over_limits_def)

lemma cinv_evict: "cinv c \<Longrightarrow> cinv (snd (evict_until target c))"
  using evict_loop_spec [of c target "[]"] by (auto simp: evict_until_def)

interpretation cache_runs: invariant_system "\<lambda>c. \<exists>n m. new_cache n m = Inr c" cache_step cinv
proof
  show "cinv c" if "\<exists>n m. new_cache n m = Inr c" for c
    using that by (auto simp: new_cache_def rbind_Inr_iff cinv_def cwf_def over_limits_def)
  show "cinv c'" if "cache_step c c'" "cinv c" for c c'
    using that(1)
  proof cases
    case (step_delete k)
    with that(2) show ?thesis by (auto simp: cache_delete_def intro: cinv_drop split: sum.split)
  next
    case (step_size clock)
    with that(2) show ?thesis by (auto simp: cache_size_def Let_def intro: cinv_purge split: sum.split)
  next
    case (step_bytes clock)
    with that(2) show ?thesis by (auto simp: cache_total_bytes_def Let_def intro: cinv_purge split: sum.split)
  qed (use that(2) cache_get_ok cache_put_cinv cinv_clear cinv_evict in auto)
qed

text \<open>
  C35. The cache respects its capacity. After any sequence of operations on a new cache, with any
  arguments and any clock readings, it holds at most \<open>max_entries\<close> entries under distinct keys,
  \<open>_bytes\<close> is exactly the sum of their sizes and at most \<open>max_bytes\<close>, and every entry is one its
  constructor accepts.
\<close>

theorem cache_within_capacity:
  assumes "new_cache n m = Inr c0" and "cache_step\<^sup>*\<^sup>* c0 c"
  shows "length (rc_entries c) \<le> rc_max_entries c \<and> rc_bytes c \<le> rc_max_bytes c \<and> wf_dict (rc_entries c)
    \<and> rc_bytes c = sum_list (map (\<lambda>(k, s). ce_size_bytes (st_entry s)) (rc_entries c))
    \<and> (\<forall>(k, s) \<in> set (rc_entries c). ce_key (st_entry s) = k \<and> entry_checks (st_entry s) = Inr ())"
proof -
  have "cinv c" using cache_runs.invar_reachable assms by blast
  moreover have "(\<lambda>(k, s). ce_size_bytes (st_entry s)) = entry_bytes \<circ> (snd :: string \<times> stored \<Rightarrow> stored)"
    by (auto simp: entry_bytes_def)
  ultimately show ?thesis by (auto simp: cinv_def cwf_def over_limits_def)
qed

subsection \<open>Uses in their order\<close>

text \<open>
  What counts as a use of a key: a \<open>get\<close> that returns an entry and a \<open>put\<close> that succeeds. A history
  is a run of a new cache with the keys it used, in order. \<open>used_before us k k'\<close> says that \<open>k'\<close> has
  been used after the last use of \<open>k\<close>.
\<close>

inductive cache_use :: "cache \<Rightarrow> string list \<Rightarrow> cache \<Rightarrow> bool" where
  use_get: "cache_get clock k c = (r, c') \<Longrightarrow>
     cache_use c (case r of Inr (Some e) \<Rightarrow> [k] | _ \<Rightarrow> []) c'"
| use_put: "cache_put clock k v sz ttl c = (r, c') \<Longrightarrow>
     cache_use c (case r of Inr e \<Rightarrow> [k] | Inl _ \<Rightarrow> []) c'"
| use_delete: "cache_use c [] (snd (cache_delete k c))"
| use_clear: "cache_use c [] (snd (cache_clear c))"
| use_size: "cache_use c [] (snd (cache_size clock c))"
| use_bytes: "cache_use c [] (snd (cache_total_bytes clock c))"
| use_evict: "cache_use c [] (snd (evict_until target c))"

inductive cache_history :: "string list \<Rightarrow> cache \<Rightarrow> bool" where
  history_new: "new_cache n m = Inr c \<Longrightarrow> cache_history [] c"
| history_step: "cache_history us c \<Longrightarrow> cache_use c ks c' \<Longrightarrow> cache_history (us @ ks) c'"

definition used_before :: "string list \<Rightarrow> string \<Rightarrow> string \<Rightarrow> bool" where
  "used_before us k k' = (k \<in> set us \<and> k' \<in> set (takeWhile (\<lambda>x. x \<noteq> k) (rev us)))"

definition last_use :: "string list \<Rightarrow> string \<Rightarrow> nat \<Rightarrow> bool" where
  "last_use us k n = (1 \<le> n \<and> n \<le> length us \<and> us ! (n - 1) = k \<and> k \<notin> set (drop n us))"

definition ordered :: "string list \<Rightarrow> cache \<Rightarrow> bool" where
  "ordered us c = (rc_order c = length us \<and> (\<forall>(k, s) \<in> set (rc_entries c). last_use us k (st_order s)))"

lemma last_use_append: "last_use us k n \<Longrightarrow> k \<noteq> k' \<Longrightarrow> last_use (us @ [k']) k n"
  by (auto simp: last_use_def nth_append)

lemma last_use_new: "last_use (us @ [k]) k (Suc (length us))"
  by (simp add: last_use_def)

lemma used_before_last:
  assumes "last_use us k n"
  shows "used_before us k k' \<longleftrightarrow> k' \<in> set (drop n us)"
proof -
  have us: "us = take (n - 1) us @ k # drop n us"
    using assms id_take_nth_drop [of "n - 1" us] by (auto simp: last_use_def)
  have k: "k \<notin> set (drop n us)" using assms by (simp add: last_use_def)
  have "takeWhile (\<lambda>x. x \<noteq> k) (rev us) = rev (drop n us)"
    by (subst us, subst rev_append) (use k in \<open>auto simp: takeWhile_append\<close>)
  moreover have "k \<in> set us" by (subst us) simp
  ultimately show ?thesis by (simp add: used_before_def)
qed

lemma used_before_order:
  assumes n: "last_use us k n" and m: "last_use us k' m"
  shows "used_before us k k' \<longleftrightarrow> n < m"
proof
  assume "used_before us k k'"
  then have "k' \<in> set (drop n us)" using used_before_last [OF n] by blast
  moreover have "k' \<notin> set (drop m us)" using m by (simp add: last_use_def)
  ultimately show "n < m" by (meson not_le set_drop_subset_set_drop subsetD)
next
  assume lt: "n < m"
  have "drop n us ! (m - 1 - n) = k'" and "m - 1 - n < length (drop n us)"
    using lt m by (auto simp: last_use_def)
  then have "k' \<in> set (drop n us)" by (metis nth_mem)
  then show "used_before us k k'" using used_before_last [OF n] by blast
qed

lemma ordered_subset:
  "ordered us c \<Longrightarrow> set (rc_entries c') \<subseteq> set (rc_entries c) \<Longrightarrow> rc_order c' = rc_order c \<Longrightarrow> ordered us c'"
  by (auto simp: ordered_def)

lemma ordered_used:
  assumes "ordered us c" and "rc_order c' = rc_order c + 1"
    and "\<And>k s. (k, s) \<in> set (rc_entries c') \<Longrightarrow>
      (k, s) \<in> set (rc_entries c) \<and> k \<noteq> key \<or> k = key \<and> st_order s = rc_order c + 1"
  shows "ordered (us @ [key]) c'"
proof -
  have len: "rc_order c = length us" using assms(1) by (simp add: ordered_def)
  have "last_use (us @ [key]) k (st_order s)" if "(k, s) \<in> set (rc_entries c')" for k s
    using assms(3) [OF that]
  proof (elim disjE conjE)
    assume "(k, s) \<in> set (rc_entries c)" "k \<noteq> key"
    then show ?thesis using assms(1) by (auto simp: ordered_def intro: last_use_append)
  next
    assume "k = key" "st_order s = rc_order c + 1"
    then show ?thesis using last_use_new [of us key] len by simp
  qed
  then show ?thesis using len assms(2) by (auto simp: ordered_def)
qed

lemma ordered_drop: "ordered us c \<Longrightarrow> ordered us (drop_key k c)"
  by (erule ordered_subset) (simp_all add: drop_key_entries AList.delete_eq)

lemma ordered_purge: "ordered us c \<Longrightarrow> ordered us (purge_expired now c)"
proof -
  have "ordered us c \<Longrightarrow> ordered us (fold drop_key ks c)" for ks c
    by (induction ks arbitrary: c) (auto intro: ordered_drop)
  then show "ordered us c \<Longrightarrow> ordered us (purge_expired now c)" by (simp add: purge_expired_def)
qed

lemma ordered_evict: "ordered us c \<Longrightarrow> ordered us (snd (evict_loop target es c))"
proof (induction target es c rule: evict_loop.induct)
  case (1 target es c)
  show ?case
  proof (cases "target < rc_bytes c \<and> rc_entries c \<noteq> []")
    case True
    show ?thesis
    proof (cases "map_of (rc_entries c) (victim c)")
      case None
      with 1(2) True show ?thesis by (simp add: evict_loop.simps [of target es c])
    next
      case (Some s)
      with 1(1) [OF True Some ordered_drop [OF 1(2)]] True show ?thesis
        by (simp add: evict_loop.simps [of target es c])
    qed
  next
    case False
    with 1(2) show ?thesis by (auto simp: evict_loop.simps [of target es c])
  qed
qed

lemma cache_get_cases:
  assumes "cinv c" and "cache_get clock k c = (r, c')"
  obtains "\<forall>e. r \<noteq> Inr (Some e)" "c' = c \<or> c' = drop_key k c"
  | e where "r = Inr (Some e)" "rc_order c' = rc_order c + 1"
      "\<And>j s. (j, s) \<in> set (rc_entries c') \<Longrightarrow>
        (j, s) \<in> set (rc_entries c) \<and> j \<noteq> k \<or> j = k \<and> st_order s = rc_order c + 1"
proof -
  have wf: "wf_dict (rc_entries c)" using assms(1) by (simp add: cinv_def cwf_def)
  have "set (AList.update k x (rc_entries c)) = {(j, s) \<in> set (rc_entries c). j \<noteq> k} \<union> {(k, x)}"
    if "map_of (rc_entries c) k = Some s" for x s
  proof -
    have "k \<in> set (dkeys (rc_entries c))" using that map_of_eq_None_iff [of "rc_entries c" k] by simp
    from update_present [OF this wf] map_of_SomeD [OF that] show ?thesis by force
  qed
  with that assms(2) show thesis
    by (fastforce simp: cache_get_def Let_def split: sum.splits option.splits if_splits)
qed

lemma ordered_put:
  assumes "cinv c" and "ordered us c" and "cache_put clock key v sz ttl c = (r, c')"
  shows "ordered (us @ (case r of Inr e \<Rightarrow> [key] | Inl _ \<Rightarrow> [])) c'"
  using cache_put_ok [OF assms(1,3)]
proof (elim disjE exE conjE)
  fix now j e \<theta>
  assume e: "e = \<lparr>ce_key = key, ce_value = j, ce_size_bytes = sz, ce_created_at = now,
            ce_last_accessed_at = now, ce_expires_at = expiry now ttl, ce_hit_count = 0\<rparr>"
    and chk: "entry_checks e = Inr ()" and r: "r = Inr e"
    and k: "kept_above \<theta> (insert_entry e (purge_expired now c)) c'"
  have "cwf c" using assms(1) by (simp add: cinv_def)
  note P = purge_expired_eq [OF this, of now]
  have ek: "ce_key e = key" by (simp add: e)
  have "ordered (us @ [key]) c'"
  proof (rule ordered_used [OF assms(2)])
    show "rc_order c' = rc_order c + 1" using k P(4) by (simp add: kept_above_def insert_entry_def Let_def)
    show "(k, s) \<in> set (rc_entries c) \<and> k \<noteq> key \<or> k = key \<and> st_order s = rc_order c + 1"
      if "(k, s) \<in> set (rc_entries c')" for k s
    proof -
      have "set (rc_entries c') \<subseteq> set (rc_entries (insert_entry e (purge_expired now c)))"
        using k by (auto simp: kept_above_def)
      with that show ?thesis by (auto simp: cwf_insert(2) [OF P(1) chk] P ek)
    qed
  qed
  then show ?thesis by (simp add: r)
qed (use assms(2) in simp)

lemma use_step: "cache_use c ks c' \<Longrightarrow> cache_step c c'"
proof (induction rule: cache_use.induct)
  case (use_get clock k c r c')
  then show ?case using step_get [of c clock k] by simp
next
  case (use_put clock k v sz ttl c r c')
  then show ?case using step_put [of c clock k v sz ttl] by simp
qed (rule cache_step.intros)+

lemma history_ordered: "cache_history us c \<Longrightarrow> cinv c \<and> ordered us c"
proof (induction rule: cache_history.induct)
  case (history_new n m c)
  then show ?case
    using cache_runs.invar_reachable [OF _ rtranclp.rtrancl_refl, of c]
    by (auto simp: new_cache_def rbind_Inr_iff ordered_def)
next
  case (history_step us c ks c')
  from history_step.IH have c: "cinv c" and o: "ordered us c" by simp_all
  have "cinv c'"
    using cache_runs.invar_steps [OF r_into_rtranclp c] use_step [OF history_step.hyps(2)] by blast
  moreover from history_step.hyps(2) have "ordered (us @ ks) c'"
  proof cases
    case (use_get clock k r)
    from c use_get(2) show ?thesis
    proof (cases rule: cache_get_cases)
      case 1
      then have "ks = []" using use_get(1) by (auto split: sum.splits option.splits)
      with 1 o show ?thesis by (auto intro: ordered_drop)
    next
      case (2 e)
      with ordered_used [OF o 2(2,3)] use_get(1) show ?thesis by simp
    qed
  next
    case (use_put clock k v sz ttl r)
    with ordered_put [OF c o use_put(2)] show ?thesis by simp
  next
    case (use_delete k)
    with o show ?thesis by (auto simp: cache_delete_def intro: ordered_drop split: sum.split)
  next
    case use_clear
    with o show ?thesis by (simp add: cache_clear_def ordered_def)
  next
    case (use_size clock)
    with o show ?thesis by (auto simp: cache_size_def Let_def intro: ordered_purge split: sum.split)
  next
    case (use_bytes clock)
    with o show ?thesis by (auto simp: cache_total_bytes_def Let_def intro: ordered_purge split: sum.split)
  next
    case (use_evict target)
    with o ordered_evict [OF o, of target "[]"] show ?thesis
      by (auto simp: evict_until_def split: prod.split)
  qed
  ultimately show ?case ..
qed

text \<open>
  C29. A stored result can be read back, and eviction is least recently used. Take a cache reached by
  any operations, whose uses (successful puts and gets that returned an entry) were of the keys
  \<open>us\<close>, in this order. A successful put returns the entry with the frozen value; a get of its key at
  any later time before its expiry returns that value with the hit counted. Every other entry left
  was there before, unexpired and unchanged. An unexpired entry that is gone was last used before
  the last use of every entry that is left, and had to go: with it, the entries used since and the
  new one are more than \<open>max_entries\<close> or more than \<open>max_bytes\<close>. A put that fails changes nothing.
\<close>

theorem cache_put_then_get:
  assumes hist: "cache_history us c" and p: "cache_put clock key v sz ttl c = (r, c')"
  shows "(case r of
      Inl e \<Rightarrow> c' = c
    | Inr e \<Rightarrow> freeze_json_value (fst v) (ustr ''$.value'') (snd v) = Inr (ce_value e)
        \<and> (\<forall>t. ce_created_at e \<le> t \<and> \<not> expired e t \<longrightarrow>
             fst (cache_get (Finite t) key c') = Inr (Some (e\<lparr>ce_last_accessed_at := t, ce_hit_count := 1\<rparr>)))
        \<and> (\<forall>k s. k \<noteq> key \<and> (k, s) \<in> set (rc_entries c') \<longrightarrow>
             (k, s) \<in> set (rc_entries c) \<and> \<not> expired (st_entry s) (ce_created_at e))
        \<and> (\<forall>k s. k \<noteq> key \<and> (k, s) \<in> set (rc_entries c) \<and> \<not> expired (st_entry s) (ce_created_at e)
             \<and> (k, s) \<notin> set (rc_entries c') \<longrightarrow>
             (\<forall>(k', s') \<in> set (rc_entries c'). used_before (us @ [key]) k k')
             \<and> (let since = filter (\<lambda>(k', s'). k' \<noteq> key \<and> \<not> expired (st_entry s') (ce_created_at e)
                                      \<and> (k' = k \<or> used_before us k k')) (rc_entries c)
                in rc_max_entries c < length since + 1
                   \<or> rc_max_bytes c < sum_list (map (\<lambda>(_, s'). ce_size_bytes (st_entry s')) since) + sz)))"
proof -
  from history_ordered [OF hist] have inv: "cinv c" and ord: "ordered us c" by simp_all
  show ?thesis
    using cache_put_ok [OF inv p]
  proof (elim disjE exE conjE)
    fix e assume "r = Inl e" "c' = c"
    then show ?thesis by simp
  next
    fix now j e \<theta>
    assume j: "freeze_json_value (fst v) (ustr ''$.value'') (snd v) = Inr j"
      and e: "e = \<lparr>ce_key = key, ce_value = j, ce_size_bytes = sz, ce_created_at = now,
              ce_last_accessed_at = now, ce_expires_at = expiry now ttl, ce_hit_count = 0\<rparr>"
      and chk: "entry_checks e = Inr ()" and r: "r = Inr e"
      and ev: "evict_to_limits (insert_entry e (purge_expired now c)) = Inr c'"
      and k: "kept_above \<theta> (insert_entry e (purge_expired now c)) c'" and th: "\<theta> \<le> rc_order c + 1"
    have c: "cwf c" using inv by (simp add: cinv_def)
    note P = purge_expired_eq [OF c, of now]
    let ?x = "\<lparr>st_entry = e, st_order = rc_order c + 1\<rparr>"
    have ek: "ce_key e = key" "ce_created_at e = now" "ce_value e = j" "ce_size_bytes e = sz" by (simp_all add: e)
    note I = cwf_insert [OF P(1) chk]
    have ents: "set (rc_entries c') = {(k, s). (k, s) \<in> set (rc_entries c) \<and> \<not> expired (st_entry s) now \<and> k \<noteq> key
        \<and> \<theta> \<le> st_order s} \<union> {(key, ?x)}"
      using k th by (auto simp: kept_above_def I(2) P ek)
    have wf': "wf_dict (rc_entries c')" using k unfolding kept_above_def cinv_def cwf_def by blast
    have look: "map_of (rc_entries c') key = Some ?x" using ents wf' by (simp add: map_of_Some_iff)
    have get: "fst (cache_get (Finite t) key c') = Inr (Some (e\<lparr>ce_last_accessed_at := t, ce_hit_count := 1\<rparr>))"
      if t: "now \<le> t" "\<not> expired e t" for t
    proof -
      have "0 \<le> now" using chk by (simp add: entry_checks_ok e)
      with t have "cache_now (Finite t) = Inr t" by (simp add: cache_now_def)
      moreover have "check_key key = Inr ()" using chk by (simp add: entry_checks_ok check_key_def e)
      moreover have "ce_hit_count e = 0" by (simp add: e)
      moreover have "entry_checks (e\<lparr>ce_last_accessed_at := t, ce_hit_count := 1\<rparr>) = Inr ()"
        using chk t(1) by (simp add: entry_checks_ok ek)
      ultimately show ?thesis using t(2) look by (simp add: cache_get_def Let_def)
    qed
    have ord': "ordered (us @ [key]) c'" using ordered_put [OF inv ord p] by (simp add: r)
    have gone: "(\<forall>(k', s') \<in> set (rc_entries c'). used_before (us @ [key]) k k')
        \<and> (let since = filter (\<lambda>(k', s'). k' \<noteq> key \<and> \<not> expired (st_entry s') now
              \<and> (k' = k \<or> used_before us k k')) (rc_entries c)
           in rc_max_entries c < length since + 1
              \<or> rc_max_bytes c < sum_list (map (\<lambda>(_, s'). ce_size_bytes (st_entry s')) since) + sz)"
      if g: "(k, s) \<in> set (rc_entries c)" "k \<noteq> key" "\<not> expired (st_entry s) now" "(k, s) \<notin> set (rc_entries c')" for k s
    proof
      have lk: "last_use us k (st_order s)" using ord g(1) by (auto simp: ordered_def)
      have "st_order s < st_order s'" if "(k', s') \<in> set (rc_entries c')" for k' s'
        using that g ents th by auto
      moreover have "last_use (us @ [key]) k' (st_order s')" if "(k', s') \<in> set (rc_entries c')" for k' s'
        using that ord' by (auto simp: ordered_def)
      ultimately show "\<forall>(k', s') \<in> set (rc_entries c'). used_before (us @ [key]) k k'"
        using used_before_order [OF last_use_append [OF lk g(2)]] by fastforce
      let ?i = "insert_entry e (purge_expired now c)"
      let ?since = "filter (\<lambda>(k', s'). k' \<noteq> key \<and> \<not> expired (st_entry s') now
              \<and> (k' = k \<or> used_before us k k')) (rc_entries c)"
      have le: "st_order s \<le> rc_order c + 1" using c g(1) by (auto simp: cwf_def)
      have iff: "st_order s \<le> st_order s' \<longleftrightarrow> k' = k \<or> used_before us k k'" if m: "(k', s') \<in> set (rc_entries c)" for k' s'
      proof -
        have "last_use us k' (st_order s')" using ord m by (auto simp: ordered_def)
        from used_before_order [OF lk this] distinct_order [OF c g(1) m] c g(1) m show ?thesis
          by (auto simp: le_less cwf_def dest: eq_key_imp_eq_value)
      qed
      have since: "used_since (st_order s) ?i = ?since @ [(key, ?x)]"
        unfolding used_since_def I(2) P ek filter_append filter_filter using le iff
        by (auto intro!: filter_cong)
      have "rc_max_entries ?i = rc_max_entries c" "rc_max_bytes ?i = rc_max_bytes c"
        by (simp_all add: insert_entry_def Let_def P)
      moreover have "(k, s) \<in> set (rc_entries ?i)" using g by (simp add: I(2) P ek)
      ultimately show "let since = ?since in rc_max_entries c < length since + 1
              \<or> rc_max_bytes c < sum_list (map (\<lambda>(_, s'). ce_size_bytes (st_entry s')) since) + sz"
        using evict_needed [OF I(1) ev _ g(4)] unfolding since by (simp add: ek Let_def)
    qed
    have kept: "(k, s) \<in> set (rc_entries c) \<and> \<not> expired (st_entry s) now" if "k \<noteq> key" "(k, s) \<in> set (rc_entries c')" for k s
      using that ents by auto
    show ?thesis unfolding r sum.case ek(2,3) using j get gone kept by blast
  qed
qed

text \<open>
  \<open>evict_until\<close> reaches its target and evicts no more than it must, least recently used
  first: the bytes left are at most the target, they are the bytes before minus the sizes of the
  returned entries, without the last eviction they were still above the target, and the entries
  left are exactly those used since a certain point. A negative target is refused.
\<close>

theorem evict_until_exact:
  assumes "cinv c"
  shows "if target < 0 then evict_until target c = (Inl (CacheValue ''target_bytes''), c)
    else \<exists>es c' \<theta>. evict_until target c = (Inr es, c') \<and> rc_bytes c' \<le> target
      \<and> rc_bytes c' = rc_bytes c - sum_list (map ce_size_bytes es)
      \<and> (es \<noteq> [] \<longrightarrow> target < rc_bytes c - sum_list (map ce_size_bytes (butlast es)))
      \<and> rc_entries c' = filter (\<lambda>(k, s). \<theta> \<le> st_order s) (rc_entries c)"
proof (cases "target < 0")
  case False
  then have "0 \<le> target" by simp
  from evict_loop_spec [OF assms this, of "[]"]
  obtain new c' \<theta> where "evict_loop target [] c = ([] @ new, c')" "rc_bytes c' \<le> target"
      "rc_bytes c' = rc_bytes c - sum_list (map ce_size_bytes new)"
      "new \<noteq> [] \<longrightarrow> target < rc_bytes c - sum_list (map ce_size_bytes (butlast new))"
      "rc_entries c' = filter (\<lambda>(k, x). \<theta> \<le> st_order x) (rc_entries c)"
    by blast
  with False show ?thesis
    unfolding evict_until_def by (auto intro!: exI [of _ \<theta>])
qed (simp add: evict_until_def)

definition sample_cache :: cache where
  "sample_cache = \<lparr>rc_max_entries = 1, rc_max_bytes = 10, rc_entries = [], rc_bytes = 0, rc_order = 0\<rparr>"

lemma sample_cache_new: "new_cache 1 10 = Inr sample_cache"
  by (simp add: new_cache_def sample_cache_def)

definition sample_put :: "string \<Rightarrow> cache \<Rightarrow> (cache_error + cache_entry) \<times> cache" where
  "sample_put k c = cache_put (Finite 5) k ([], VInt 7) 4 None c"

lemma cache_within_capacity_witness:
  "length (rc_entries (snd (sample_put ''b'' (snd (sample_put ''a'' sample_cache))))) \<le> 1
   \<and> is_ok (fst (sample_put ''b'' (snd (sample_put ''a'' sample_cache))))"
proof -
  let ?c = "snd (sample_put ''b'' (snd (sample_put ''a'' sample_cache)))"
  have "cache_step\<^sup>*\<^sup>* sample_cache ?c"
    unfolding sample_put_def
    by (rule converse_rtranclp_into_rtranclp [OF step_put r_into_rtranclp [of cache_step, OF step_put]])
  from cache_within_capacity [OF sample_cache_new this]
  have "length (rc_entries ?c) \<le> rc_max_entries ?c" by blast
  moreover have "rc_max_entries ?c = 1 \<and> is_ok (fst (sample_put ''b'' (snd (sample_put ''a'' sample_cache))))"
    by code_simp
  ultimately show ?thesis by simp
qed

lemma sample_cache_inv: "cinv sample_cache"
  using cache_runs.invar_reachable [OF _ rtranclp.rtrancl_refl] sample_cache_new by blast

definition sample_cache2 :: cache where
  "sample_cache2 = \<lparr>rc_max_entries = 2, rc_max_bytes = 10, rc_entries = [], rc_bytes = 0, rc_order = 0\<rparr>"

text \<open>Two puts, a read of the older entry, and a third put: the entry that was not read goes.\<close>

definition sample_used :: cache where
  "sample_used = snd (cache_get (Finite 6) ''a'' (snd (sample_put ''b'' (snd (sample_put ''a'' sample_cache2)))))"

lemma sample_used_history: "cache_history [''a'', ''b'', ''a''] sample_used"
proof -
  let ?c1 = "snd (sample_put ''a'' sample_cache2)" and ?c2 = "snd (sample_put ''b'' (snd (sample_put ''a'' sample_cache2)))"
  have "new_cache 2 10 = Inr sample_cache2" by (simp add: new_cache_def sample_cache2_def)
  then have h0: "cache_history [] sample_cache2" by (rule history_new)
  have r: "is_ok (fst (sample_put ''a'' sample_cache2))" "is_ok (fst (sample_put ''b'' ?c1))"
      "case fst (cache_get (Finite 6) ''a'' ?c2) of Inr (Some e) \<Rightarrow> True | _ \<Rightarrow> False"
    by code_simp+
  have put: "cache_history (us @ [k]) (snd (sample_put k c))" if "cache_history us c" "is_ok (fst (sample_put k c))" for us k c
    using history_step [OF that(1) use_put [of "Finite 5" k "([], VInt 7)" 4 None c, OF prod.collapse [symmetric]]] that(2)
    by (auto simp: sample_put_def split: sum.splits)
  have "cache_history [''a'', ''b''] ?c2"
    using put [OF put [OF h0 r(1)] r(2)] by simp
  from history_step [OF this use_get [of "Finite 6" "''a''" ?c2, OF prod.collapse [symmetric]]] r(3) show ?thesis
    by (auto simp: sample_used_def split: sum.splits option.splits)
qed

lemma cache_put_then_get_witness:
  "\<exists>e c'. sample_put ''c'' sample_used = (Inr e, c') \<and> ce_value e = JInt 7
    \<and> fst (cache_get (Finite 6) ''c'' c') = Inr (Some (e\<lparr>ce_last_accessed_at := 6, ce_hit_count := 1\<rparr>))
    \<and> dkeys (rc_entries sample_used) = [''a'', ''b''] \<and> dkeys (rc_entries c') = [''a'', ''c'']
    \<and> used_before [''a'', ''b'', ''a'', ''c''] ''b'' ''a''"
proof -
  have F: "fst (sample_put ''c'' sample_used) = Inr \<lparr>ce_key = ''c'', ce_value = JInt 7, ce_size_bytes = 4,
      ce_created_at = 5, ce_last_accessed_at = 5, ce_expires_at = None, ce_hit_count = 0\<rparr>"
    and D: "dkeys (rc_entries sample_used) = [''a'', ''b'']"
      "dkeys (rc_entries (snd (sample_put ''c'' sample_used))) = [''a'', ''c'']"
    by code_simp+
  from F obtain c' where p: "sample_put ''c'' sample_used = (Inr \<lparr>ce_key = ''c'', ce_value = JInt 7, ce_size_bytes = 4,
      ce_created_at = 5, ce_last_accessed_at = 5, ce_expires_at = None, ce_hit_count = 0\<rparr>, c')"
    by (cases "sample_put ''c'' sample_used") auto
  from cache_put_then_get [OF sample_used_history p [unfolded sample_put_def]] p D show ?thesis
    by (auto simp: expired_def used_before_def)
qed

lemma evict_until_exact_witness:
  "\<exists>es c'. evict_until 0 (snd (sample_put ''a'' sample_cache)) = (Inr es, c') \<and> rc_bytes c' \<le> 0"
proof -
  have "cinv (snd (sample_put ''a'' sample_cache))"
    unfolding sample_put_def by (rule cache_put_cinv [OF sample_cache_inv])
  from evict_until_exact [OF this, of 0] show ?thesis by auto
qed

end
