(* ===== verification/Events.thy ===== *)
theory Events
  imports Jobs "HOL-Library.Sublist"
begin

text \<open>
  events/models.py, events/journal.py and events/bus.py: the event envelope, the journal that
  numbers events, in memory and over the SQLite table, and the bus that delivers each appended
  event to bounded subscriptions. A journal method runs under its lock or in one transaction, so
  it is one step. The clock reading, and for SQLite the identifiers of the jobs that exist (the
  foreign key), are arguments. JSON text is the JSON value it encodes; writing it sorts the keys.
\<close>

datatype event_error = EventValue string | EventJson json_error | EventIntegrity | SubscriptionClosed
  | StopAsyncIteration

record event =
  ev_sequence :: int
  ev_stream_sequence :: int
  ev_type :: string
  ev_emitted_at :: rat
  ev_payload :: json
  ev_job_id :: "string option"

text \<open>\<open>EventEnvelope.__post_init__\<close>.\<close>

definition mk_event :: "int \<Rightarrow> int \<Rightarrow> string \<Rightarrow> pyfloat \<Rightarrow> string option \<Rightarrow> field_value \<Rightarrow> event_error + event" where
  "mk_event sq ssq ty emitted job pl =
     rbind (guard_or (1 \<le> sq) (EventValue ''sequence'')) (\<lambda>_.
     rbind (guard_or (1 \<le> ssq) (EventValue ''stream_sequence'')) (\<lambda>_.
     rbind (guard_or (trimmed_identifier 200 ty) (EventValue ''event_type'')) (\<lambda>_.
     rbind (guard_or (CHR ''.'' \<in> set ty) (EventValue ''event_type must be namespaced with a dot'')) (\<lambda>_.
     rbind (case emitted of Finite r \<Rightarrow> if r < 0 then Inl (EventValue ''emitted_at'') else Inr r
            | _ \<Rightarrow> Inl (EventValue ''emitted_at'')) (\<lambda>t.
     rbind (case job of None \<Rightarrow> Inr () | Some j \<Rightarrow> guard_or (trimmed_identifier 200 j) (EventValue ''job_id'')) (\<lambda>_.
     rbind (guard_or (field_mapping pl) (EventValue ''payload must be a JSON object'')) (\<lambda>_.
     case pl of
       Frozen j \<Rightarrow> Inr \<lparr>ev_sequence = sq, ev_stream_sequence = ssq, ev_type = ty, ev_emitted_at = t,
                       ev_payload = j, ev_job_id = job\<rparr>
     | Raw h v \<Rightarrow> (case freeze_json_value h (ustr ''$.payload'') v of
         Inl e \<Rightarrow> Inl (EventJson e)
       | Inr j \<Rightarrow> Inr \<lparr>ev_sequence = sq, ev_stream_sequence = ssq, ev_type = ty, ev_emitted_at = t,
                       ev_payload = j, ev_job_id = job\<rparr>))))))))"

section \<open>Journals\<close>

record journal =
  jn_events :: "event list"
  jn_streams :: "(string, int) dict"

definition new_journal :: journal where
  "new_journal = \<lparr>jn_events = [], jn_streams = []\<rparr>"

definition stream_of :: "string option \<Rightarrow> string" where
  "stream_of job = (case job of None \<Rightarrow> ''__system__'' | Some j \<Rightarrow> if j = [] then ''__system__'' else j)"

text \<open>An omitted payload is the empty object.\<close>

definition payload_or_empty :: "field_value option \<Rightarrow> field_value" where
  "payload_or_empty pl = (case pl of None \<Rightarrow> Frozen (JObj []) | Some p \<Rightarrow> p)"

definition journal_now :: "pyfloat \<Rightarrow> event_error + pyfloat" where
  "journal_now clock = (case clock of Finite r \<Rightarrow> if r < 0 then Inl (EventValue ''clock'') else Inr clock
     | _ \<Rightarrow> Inl (EventValue ''clock''))"

definition journal_append :: "pyfloat \<Rightarrow> string \<Rightarrow> field_value option \<Rightarrow> string option \<Rightarrow> journal \<Rightarrow>
    (event_error + event) \<times> journal" where
  "journal_append clock ty pl job J = (let
     stream = stream_of job;
     ssq = (case map_of (jn_streams J) stream of None \<Rightarrow> 0 | Some n \<Rightarrow> n) + 1
   in case rbind (journal_now clock) (\<lambda>t.
          mk_event (int (length (jn_events J)) + 1) ssq ty t job (payload_or_empty pl)) of
        Inl e \<Rightarrow> (Inl e, J)
      | Inr ev \<Rightarrow> (Inr ev, J\<lparr>jn_events := jn_events J @ [ev],
                           jn_streams := AList.update stream ssq (jn_streams J)\<rparr>))"

definition replay_args :: "int \<Rightarrow> string list \<Rightarrow> int \<Rightarrow> event_error + unit" where
  "replay_args after_seq types n_max = checks
     [guard_or (0 \<le> after_seq) (EventValue ''after_sequence''),
      guard_or (1 \<le> n_max) (EventValue ''limit''),
      guard_or (list_all (\<lambda>t. t \<noteq> []) types) (EventValue ''event_types'')]"

definition selected :: "int \<Rightarrow> string option \<Rightarrow> string list \<Rightarrow> event \<Rightarrow> bool" where
  "selected after_seq job types ev = (after_seq < ev_sequence ev
     \<and> (job = None \<or> ev_job_id ev = job) \<and> (types = [] \<or> ev_type ev \<in> set types))"

definition journal_replay :: "int \<Rightarrow> string option \<Rightarrow> string list \<Rightarrow> int \<Rightarrow> journal \<Rightarrow> event_error + event list" where
  "journal_replay after_seq job types n_max J = rbind (replay_args after_seq types n_max) (\<lambda>_.
     Inr (take (nat n_max) (filter (selected after_seq job types) (jn_events J))))"

definition latest_sequence :: "journal \<Rightarrow> int" where
  "latest_sequence J = int (length (jn_events J))"

subsection \<open>The SQLite journal\<close>

record event_row =
  er_id :: int
  er_job_id :: string
  er_sequence :: int
  er_event_type :: string
  er_payload_json :: json
  er_created_at :: rat

record sql_journal =
  sj_rows :: "event_row list"
  sj_last_id :: int

function sort_json :: "json \<Rightarrow> json" where
  "sort_json (JObj ms) = JObj (sort_key fst (map (\<lambda>(k, j). (k, sort_json j)) ms))"
| "sort_json (JArr js) = JArr (map sort_json js)"
| "sort_json JNull = JNull"
| "sort_json (JBool b) = JBool b"
| "sort_json (JInt i) = JInt i"
| "sort_json (JFloat r) = JFloat r"
| "sort_json (JStr s) = JStr s"
  by pat_completeness auto
termination
proof (relation "measure size")
  fix ms :: "(ustr \<times> json) list" and p k j
  assume "p \<in> set ms" "(k, j) = p"
  then show "(j, JObj ms) \<in> measure size"
    by (induction ms) (auto split: prod.splits)
qed (auto simp: less_Suc_eq_le intro: size_list_estimation')

definition row_event :: "event_row \<Rightarrow> event_error + event" where
  "row_event r = mk_event (er_id r) (er_sequence r) (er_event_type r) (Finite (er_created_at r))
     (Some (er_job_id r)) (Frozen (er_payload_json r))"

definition max_sequence :: "string \<Rightarrow> event_row list \<Rightarrow> int" where
  "max_sequence job rows = foldr max (map er_sequence (filter (\<lambda>r. er_job_id r = job) rows)) 0"

text \<open>\<open>now\<close> is the database's timestamp, \<open>jobs\<close> the rows the foreign key refers to.\<close>

definition sql_append :: "string set \<Rightarrow> rat \<Rightarrow> string \<Rightarrow> field_value option \<Rightarrow> string option \<Rightarrow> sql_journal \<Rightarrow>
    (event_error + event) \<times> sql_journal" where
  "sql_append jobs now ty pl job S =
    (case job of
       None \<Rightarrow> (Inl (EventValue ''the V1 SQLite job journal requires job_id''), S)
     | Some j \<Rightarrow>
       (case mk_event 1 1 ty (Finite 0) job (payload_or_empty pl) of
          Inl e \<Rightarrow> (Inl e, S)
        | Inr v \<Rightarrow>
           if j \<notin> jobs then (Inl EventIntegrity, S)
           else let row = \<lparr>er_id = sj_last_id S + 1, er_job_id = j, er_sequence = max_sequence j (sj_rows S) + 1,
                       er_event_type = ty, er_payload_json = sort_json (ev_payload v), er_created_at = now\<rparr>
             in (row_event row, S\<lparr>sj_rows := sj_rows S @ [row], sj_last_id := sj_last_id S + 1\<rparr>)))"

definition row_selected :: "int \<Rightarrow> string option \<Rightarrow> string list \<Rightarrow> event_row \<Rightarrow> bool" where
  "row_selected after_seq job types r = (after_seq < er_id r
     \<and> (job = None \<or> Some (er_job_id r) = job) \<and> (types = [] \<or> er_event_type r \<in> set types))"

definition sql_replay :: "int \<Rightarrow> string option \<Rightarrow> string list \<Rightarrow> int \<Rightarrow> sql_journal \<Rightarrow> event_error + event list" where
  "sql_replay after_seq job types n_max S = rbind (replay_args after_seq types n_max) (\<lambda>_.
     rmap row_event (take (nat n_max) (sort_key er_id (filter (row_selected after_seq job types) (sj_rows S)))))"

definition sql_latest_sequence :: "sql_journal \<Rightarrow> int" where
  "sql_latest_sequence S = foldr max (map er_id (sj_rows S)) 0"

section \<open>The bus\<close>

record event_filter =
  ef_job_id :: "string option"
  ef_types :: "string list"

definition filter_post_init :: "event_filter \<Rightarrow> event_error + event_filter" where
  "filter_post_init f = rbind (checks
     [guard_or (ef_job_id f \<noteq> Some []) (EventValue ''job_id''),
      guard_or (list_all (\<lambda>t. t \<noteq> []) (ef_types f)) (EventValue ''event_types'')]) (\<lambda>_. Inr f)"

definition filter_matches :: "event_filter \<Rightarrow> event \<Rightarrow> bool" where
  "filter_matches f ev = ((ef_job_id f = None \<or> ev_job_id ev = ef_job_id f)
     \<and> (ef_types f = [] \<or> ev_type ev \<in> set (ef_types f)))"

record subscription =
  sb_filter :: event_filter
  sb_max :: nat
  sb_queue :: "event list"
  sb_closed :: bool
  sb_dropped :: nat

definition deliver :: "event \<Rightarrow> subscription \<Rightarrow> subscription" where
  "deliver ev s = (if sb_closed s \<or> \<not> filter_matches (sb_filter s) ev then s
     else if sb_max s \<le> length (sb_queue s)
       then s\<lparr>sb_queue := tl (sb_queue s) @ [ev], sb_dropped := sb_dropped s + 1\<rparr>
       else s\<lparr>sb_queue := sb_queue s @ [ev]\<rparr>)"

text \<open>\<open>get\<close> without its wait: None when the queue is empty and the caller goes on waiting.\<close>

definition sub_get :: "subscription \<Rightarrow> (event_error + event option) \<times> subscription" where
  "sub_get s = (if sb_closed s \<and> sb_queue s = [] then (Inl SubscriptionClosed, s)
     else case sb_queue s of [] \<Rightarrow> (Inr None, s) | e # es \<Rightarrow> (Inr (Some e), s\<lparr>sb_queue := es\<rparr>))"

definition sub_anext :: "subscription \<Rightarrow> (event_error + event option) \<times> subscription" where
  "sub_anext s = (if sb_closed s \<and> sb_queue s = [] then (Inl StopAsyncIteration, s) else sub_get s)"

record bus =
  bus_journal :: journal
  bus_subs :: "(nat, subscription) dict"
  bus_next :: nat

definition new_bus :: bus where
  "new_bus = \<lparr>bus_journal = new_journal, bus_subs = [], bus_next = 0\<rparr>"

definition subscribe :: "event_filter option \<Rightarrow> int \<Rightarrow> bus \<Rightarrow> (event_error + nat) \<times> bus" where
  "subscribe f max_buffer b = (if max_buffer < 1 then (Inl (EventValue ''max_buffer''), b)
     else (Inr (bus_next b), b\<lparr>bus_next := bus_next b + 1,
       bus_subs := bus_subs b @ [(bus_next b, \<lparr>sb_filter = (case f of None \<Rightarrow> \<lparr>ef_job_id = None, ef_types = []\<rparr> | Some g \<Rightarrow> g),
          sb_max = nat max_buffer, sb_queue = [], sb_closed = False, sb_dropped = 0\<rparr>)]\<rparr>))"

text \<open>
  \<open>close\<close> also takes the subscription out of the bus's set; here it stays, closed, since \<open>deliver\<close>
  skips a closed subscription and its consumer may still drain it.
\<close>

definition close_sub :: "nat \<Rightarrow> bus \<Rightarrow> bus" where
  "close_sub i b = b\<lparr>bus_subs := map (\<lambda>(j, s). (j, if j = i then s\<lparr>sb_closed := True\<rparr> else s)) (bus_subs b)\<rparr>"

definition publish :: "pyfloat \<Rightarrow> string \<Rightarrow> field_value option \<Rightarrow> string option \<Rightarrow> bus \<Rightarrow> (event_error + event) \<times> bus" where
  "publish clock ty pl job b = (case journal_append clock ty pl job (bus_journal b) of
     (Inl e, J) \<Rightarrow> (Inl e, b\<lparr>bus_journal := J\<rparr>)
   | (Inr ev, J) \<Rightarrow> (Inr ev, b\<lparr>bus_journal := J, bus_subs := map (\<lambda>(j, s). (j, deliver ev s)) (bus_subs b)\<rparr>))"

definition bus_get :: "nat \<Rightarrow> bus \<Rightarrow> (event_error + event option) \<times> bus" where
  "bus_get i b = (case map_of (bus_subs b) i of
     None \<Rightarrow> (Inr None, b)
   | Some s \<Rightarrow> (case sub_get s of (r, s') \<Rightarrow> (r, b\<lparr>bus_subs := AList.update i s' (bus_subs b)\<rparr>)))"

definition bus_replay :: "int \<Rightarrow> string option \<Rightarrow> string list \<Rightarrow> int \<Rightarrow> bus \<Rightarrow> event_error + event list" where
  "bus_replay after_seq job types n_max b = journal_replay after_seq job types n_max (bus_journal b)"

section \<open>The contract of a journal\<close>

lemma mk_event_fields:
  assumes "mk_event sq ssq ty emitted job pl = Inr ev"
  shows "ev_sequence ev = sq \<and> ev_stream_sequence ev = ssq \<and> ev_type ev = ty \<and> ev_job_id ev = job
    \<and> 1 \<le> sq \<and> 1 \<le> ssq"
proof (cases pl)
  case (Raw h v)
  with assms show ?thesis
    by (cases "freeze_json_value h (ustr ''$.payload'') v") (auto simp: mk_event_def rbind_Inr_iff)
qed (use assms in \<open>auto simp: mk_event_def rbind_Inr_iff\<close>)

lemma mk_event_Inr:
  assumes "mk_event sq ssq ty emitted job pl = Inr ev"
  shows "ev_sequence ev = sq" and "ev_stream_sequence ev = ssq" and "ev_type ev = ty" and "ev_job_id ev = job"
    and "1 \<le> sq" and "1 \<le> ssq"
  using mk_event_fields [OF assms] by simp_all

lemma replay_args_ok:
  "replay_args a types n = Inr u \<longleftrightarrow> 0 \<le> a \<and> 1 \<le> n \<and> list_all (\<lambda>t. t \<noteq> []) types"
  by (auto simp: replay_args_def rbind_Inr_iff)

locale event_journal =
  fixes inv :: "'s \<Rightarrow> bool"
    and log :: "'s \<Rightarrow> event list"
    and append :: "'env \<Rightarrow> string \<Rightarrow> field_value option \<Rightarrow> string option \<Rightarrow> 's \<Rightarrow> (event_error + event) \<times> 's"
    and replay :: "int \<Rightarrow> string option \<Rightarrow> string list \<Rightarrow> int \<Rightarrow> 's \<Rightarrow> event_error + event list"
  assumes append_ok: "inv s \<Longrightarrow> append env ty pl job s = (Inr ev, s') \<Longrightarrow>
      inv s' \<and> log s' = log s @ [ev] \<and> ev_type ev = ty \<and> ev_job_id ev = job"
    and append_fail: "inv s \<Longrightarrow> append env ty pl job s = (Inl e, s') \<Longrightarrow> s' = s"
    and log_increasing: "inv s \<Longrightarrow> sorted_wrt (<) (map ev_sequence (log s))"
    and replay_eq: "inv s \<Longrightarrow> replay a job types n s =
      rbind (replay_args a types n) (\<lambda>_. Inr (take (nat n) (filter (selected a job types) (log s))))"
begin

lemma filter_after:
  assumes "sorted_wrt (<) (map ev_sequence L)" and "xs = take k (filter (selected a job types) L)" and "xs \<noteq> []"
  shows "filter (selected (ev_sequence (last xs)) job types) L = drop k (filter (selected a job types) L)"
proof -
  let ?F = "filter (selected a job types) L"
  have srt: "sorted_wrt (\<lambda>x y. ev_sequence x < ev_sequence y) ?F"
    using assms(1) by (simp add: sorted_wrt_map sorted_wrt_filter)
  have last: "last xs \<in> set ?F" using assms(2,3) by (metis in_set_takeD last_in_set)
  then have a: "a < ev_sequence (last xs)" by (simp add: selected_def)
  have "filter (selected (ev_sequence (last xs)) job types) L
      = filter (\<lambda>e. ev_sequence (last xs) < ev_sequence e) ?F"
    using a by (auto simp: selected_def intro!: filter_cong)
  also have "?F = xs @ drop k ?F" using assms(2) by simp
  also have "filter (\<lambda>e. ev_sequence (last xs) < ev_sequence e) (xs @ drop k ?F) = drop k ?F"
  proof -
    have split: "sorted_wrt (\<lambda>x y. ev_sequence x < ev_sequence y) (xs @ drop k ?F)" using srt assms(2) by simp
    have "ev_sequence e \<le> ev_sequence (last xs)" if "e \<in> set xs" for e
    proof -
      have "xs = butlast xs @ [last xs]" using assms(3) by simp
      then have "sorted_wrt (\<lambda>x y. ev_sequence x < ev_sequence y) (butlast xs @ [last xs])"
        using split by (metis sorted_wrt_append)
      with that \<open>xs = butlast xs @ [last xs]\<close> show ?thesis
        by (metis Un_iff empty_iff insert_iff less_imp_le list.set(2) order_refl set_append sorted_wrt_append list.set(1))
    qed
    then have "filter (\<lambda>e. ev_sequence (last xs) < ev_sequence e) xs = []" by (auto simp: filter_empty_conv not_less)
    moreover have "\<forall>e \<in> set (drop k ?F). ev_sequence (last xs) < ev_sequence e"
      using split assms(3) by (auto simp: sorted_wrt_append)
    ultimately show ?thesis by simp
  qed
  finally show ?thesis .
qed

lemma resume:
  assumes inv: "inv s" and first: "replay a job types n s = Inr xs" and "xs \<noteq> []"
    and second: "replay (ev_sequence (last xs)) job types m s = Inr ys"
  shows "replay a job types (n + m) s = Inr (xs @ ys)"
proof -
  let ?F = "filter (selected a job types) (log s)"
  from first second have args: "0 \<le> a" "1 \<le> n" "1 \<le> m" "list_all (\<lambda>t. t \<noteq> []) types"
      and xs: "xs = take (nat n) ?F"
      and ys: "ys = take (nat m) (filter (selected (ev_sequence (last xs)) job types) (log s))"
    by (auto simp: replay_eq [OF inv] rbind_Inr_iff replay_args_ok)
  have ys': "ys = take (nat m) (drop (nat n) ?F)"
    using ys filter_after [OF log_increasing [OF inv] xs assms(3)] by simp
  have "take (nat (n + m)) ?F = xs @ ys"
    using args by (simp add: xs ys' nat_add_distrib take_add)
  then show ?thesis
    using args by (simp add: replay_eq [OF inv] rbind_Inr_iff replay_args_ok)
qed

text \<open>The same when other events are appended between the two reads.\<close>

lemma resume_later:
  assumes inv: "inv s" "inv s'" and later: "log s' = log s @ L"
    and first: "replay a job types n s = Inr xs" and "xs \<noteq> []"
    and second: "replay (ev_sequence (last xs)) job types m s' = Inr ys"
  shows "replay a job types (int (length xs) + m) s' = Inr (xs @ ys)"
proof -
  let ?F = "filter (selected a job types) (log s)" and ?F' = "filter (selected a job types) (log s')"
  from first second have args: "0 \<le> a" "1 \<le> m" "list_all (\<lambda>t. t \<noteq> []) types"
      and xs: "xs = take (nat n) ?F"
      and ys: "ys = take (nat m) (filter (selected (ev_sequence (last xs)) job types) (log s'))"
    by (auto simp: replay_eq inv rbind_Inr_iff replay_args_ok)
  have pre: "xs = take (length xs) ?F'"
    using xs unfolding later filter_append by (simp add: min_def)
  then have "take (length xs) ?F' @ drop (length xs) ?F' = xs @ drop (length xs) ?F'" by simp
  then have "take (nat (int (length xs) + m)) ?F' = xs @ take (nat m) (drop (length xs) ?F')"
    using args pre by (simp add: nat_add_distrib take_add)
  also have "take (nat m) (drop (length xs) ?F') = ys"
    using ys filter_after [OF log_increasing [OF inv(2)] pre assms(5)] by simp
  finally show ?thesis
    using args assms(5) by (simp add: replay_eq [OF inv(2)] rbind_Inr_iff replay_args_ok Suc_leI)
qed

lemma poll_sees_append:
  assumes inv: "inv s" and ap: "append env ty pl job s = (Inr ev, s')"
    and a: "0 \<le> a" "\<And>e. e \<in> set (log s) \<Longrightarrow> ev_sequence e \<le> a" "a < ev_sequence ev" and n: "1 \<le> n"
  shows "replay a None [] n s' = Inr [ev]"
proof -
  from append_ok [OF inv ap] have "inv s'" "log s' = log s @ [ev]" by auto
  moreover have "filter (selected a None []) (log s) = []"
    using a(2) by (auto simp: filter_empty_conv selected_def not_less)
  ultimately show ?thesis
    using a n by (simp add: replay_eq rbind_Inr_iff replay_args_ok selected_def)
qed

end

section \<open>The two journals satisfy it\<close>

definition numbered :: "int list \<Rightarrow> bool" where
  "numbered xs = (xs = map (\<lambda>i. int i + 1) [0..<length xs])"

lemma numbered_snoc: "numbered xs \<Longrightarrow> numbered (xs @ [int (length xs) + 1])"
  by (simp add: numbered_def)

lemma numbered_sorted: "numbered xs \<Longrightarrow> sorted_wrt (<) xs"
  unfolding numbered_def by (metis (no_types, lifting) sorted_wrt_map sorted_wrt_mono_rel
      of_nat_less_iff add_less_cancel_right sorted_wrt_upt)

definition on_stream :: "string \<Rightarrow> event \<Rightarrow> bool" where
  "on_stream s ev = (stream_of (ev_job_id ev) = s)"

definition jinv :: "journal \<Rightarrow> bool" where
  "jinv J = (numbered (map ev_sequence (jn_events J))
     \<and> (\<forall>s. numbered (map ev_stream_sequence (filter (on_stream s) (jn_events J)))
          \<and> (case map_of (jn_streams J) s of None \<Rightarrow> 0 | Some n \<Rightarrow> n)
             = int (length (filter (on_stream s) (jn_events J)))))"

lemma journal_append_ok:
  assumes inv: "jinv J" and ap: "journal_append clock ty pl job J = (Inr ev, J')"
  shows "jinv J' \<and> jn_events J' = jn_events J @ [ev] \<and> ev_type ev = ty \<and> ev_job_id ev = job"
proof -
  let ?st = "stream_of job"
  let ?n = "(case map_of (jn_streams J) ?st of None \<Rightarrow> 0 | Some n \<Rightarrow> n) + 1"
  from ap obtain t where ev: "mk_event (int (length (jn_events J)) + 1) ?n ty t job (payload_or_empty pl) = Inr ev"
      and J': "J' = J\<lparr>jn_events := jn_events J @ [ev], jn_streams := AList.update ?st ?n (jn_streams J)\<rparr>"
    by (auto simp: journal_append_def Let_def rbind_Inr_iff split: sum.splits)
  note f = mk_event_Inr [OF ev]
  have cnt: "(case map_of (jn_streams J) s of None \<Rightarrow> 0 | Some n \<Rightarrow> n) = int (length (filter (on_stream s) (jn_events J)))" for s
    using inv by (simp add: jinv_def)
  have "numbered (map ev_sequence (jn_events J'))"
    using inv numbered_snoc [of "map ev_sequence (jn_events J)"] f(1) by (simp add: jinv_def J')
  moreover have "numbered (map ev_stream_sequence (filter (on_stream s) (jn_events J')))" for s
    using inv numbered_snoc [of "map ev_stream_sequence (filter (on_stream s) (jn_events J))"] f(2,4) cnt [of s]
    by (auto simp: jinv_def J' on_stream_def)
  moreover have "(case map_of (jn_streams J') s of None \<Rightarrow> 0 | Some n \<Rightarrow> n) = int (length (filter (on_stream s) (jn_events J')))" for s
    using cnt [of s] f(4) by (auto simp: J' map_of_update on_stream_def)
  ultimately show ?thesis using f J' by (simp add: jinv_def)
qed

lemma journal_append_fail: "journal_append clock ty pl job J = (Inl e, J') \<Longrightarrow> J' = J"
  by (auto simp: journal_append_def Let_def split: sum.splits)

interpretation memory_journal: event_journal jinv jn_events journal_append journal_replay
proof
  show "sorted_wrt (<) (map ev_sequence (jn_events J))" if "jinv J" for J
    using that by (simp add: jinv_def numbered_sorted)
qed (use journal_append_ok journal_append_fail in \<open>auto simp: journal_replay_def\<close>)

definition valid_row :: "event_row \<Rightarrow> bool" where
  "valid_row r = is_ok (row_event r)"

definition sinv :: "sql_journal \<Rightarrow> bool" where
  "sinv S = (list_all valid_row (sj_rows S) \<and> sorted_wrt (<) (map er_id (sj_rows S))
     \<and> (\<forall>r \<in> set (sj_rows S). er_id r \<le> sj_last_id S) \<and> 0 \<le> sj_last_id S)"

definition sql_log :: "sql_journal \<Rightarrow> event list" where
  "sql_log S = map (\<lambda>r. case row_event r of Inr e \<Rightarrow> e | Inl _ \<Rightarrow>
     \<lparr>ev_sequence = 0, ev_stream_sequence = 0, ev_type = [], ev_emitted_at = 0, ev_payload = JNull, ev_job_id = None\<rparr>)
     (sj_rows S)"

lemma max_fold_nonneg: "0 \<le> foldr max xs (0 :: int)"
  by (induction xs) auto

lemma is_object_sort_json: "is_object j \<Longrightarrow> is_object (sort_json j)"
  by (cases j) (auto simp: is_object_def)

lemma freeze_mapping_object:
  "field_mapping (Raw h v) \<Longrightarrow> freeze_json_value h p v = Inr j \<Longrightarrow> is_object j"
  unfolding freeze_json_value_iff_denotes
  by (cases v) (auto simp: field_mapping_def is_object_def elim!: denotes_VRefE split: option.splits pyobj.splits)

lemma mk_event_checks:
  assumes "mk_event sq ssq ty emitted job pl = Inr ev"
  shows "trimmed_identifier 200 ty" and "CHR ''.'' \<in> set ty" and "job = Some j \<Longrightarrow> trimmed_identifier 200 j"
    and "is_object (ev_payload ev)"
proof -
  show "trimmed_identifier 200 ty" "CHR ''.'' \<in> set ty" "job = Some j \<Longrightarrow> trimmed_identifier 200 j"
    using assms by (auto simp: mk_event_def rbind_Inr_iff)
  from assms have fm: "field_mapping pl" by (auto simp: mk_event_def rbind_Inr_iff)
  show "is_object (ev_payload ev)"
  proof (cases pl)
    case (Raw h v)
    then show ?thesis
      using assms fm freeze_mapping_object [of h v]
      by (cases "freeze_json_value h (ustr ''$.payload'') v") (auto simp: mk_event_def rbind_Inr_iff)
  qed (use assms fm in \<open>auto simp: mk_event_def rbind_Inr_iff\<close>)
qed

lemma row_event_ok:
  assumes "1 \<le> er_id r" and "1 \<le> er_sequence r" and "trimmed_identifier 200 (er_event_type r)"
    and "CHR ''.'' \<in> set (er_event_type r)" and "0 \<le> er_created_at r"
    and "trimmed_identifier 200 (er_job_id r)" and "is_object (er_payload_json r)"
  shows "row_event r = Inr \<lparr>ev_sequence = er_id r, ev_stream_sequence = er_sequence r, ev_type = er_event_type r,
    ev_emitted_at = er_created_at r, ev_payload = er_payload_json r, ev_job_id = Some (er_job_id r)\<rparr>"
  using assms by (simp add: row_event_def mk_event_def not_less)

text \<open>The append of the SQLite journal at a database time of \<open>ms\<close> milliseconds after the epoch.\<close>

definition sql_append_at :: "string set \<times> nat \<Rightarrow> string \<Rightarrow> field_value option \<Rightarrow> string option \<Rightarrow> sql_journal \<Rightarrow>
    (event_error + event) \<times> sql_journal" where
  "sql_append_at env = sql_append (fst env) (of_nat (snd env) / 1000)"

lemma sql_append_cases:
  assumes "sinv S" and "sql_append_at env ty pl job S = (res, S')"
  obtains (refused) e where "res = Inl e" and "S' = S"
    | (appended) j row ev where "job = Some j" and "row_event row = Inr ev" and "res = Inr ev"
        and "S' = S\<lparr>sj_rows := sj_rows S @ [row], sj_last_id := sj_last_id S + 1\<rparr>"
        and "er_id row = sj_last_id S + 1" and "er_event_type row = ty" and "er_job_id row = j"
proof (cases job)
  case None
  with assms(2) refused show ?thesis by (auto simp: sql_append_at_def sql_append_def)
next
  case (Some j)
  show ?thesis
  proof (cases "mk_event 1 1 ty (Finite 0) job (payload_or_empty pl)")
    case (Inl e)
    with Some assms(2) show ?thesis
      by (intro refused [of e]) (auto simp: sql_append_at_def sql_append_def)
  next
    case (Inr v)
    note c = mk_event_checks [OF Inr]
    show ?thesis
    proof (cases "j \<in> fst env")
      case False
      with Some Inr assms(2) refused show ?thesis by (auto simp: sql_append_at_def sql_append_def)
    next
      case True
      define row where "row = \<lparr>er_id = sj_last_id S + 1, er_job_id = j, er_sequence = max_sequence j (sj_rows S) + 1,
        er_event_type = ty, er_payload_json = sort_json (ev_payload v), er_created_at = of_nat (snd env) / 1000\<rparr>"
      have "row_event row = Inr \<lparr>ev_sequence = er_id row, ev_stream_sequence = er_sequence row, ev_type = er_event_type row,
          ev_emitted_at = er_created_at row, ev_payload = er_payload_json row, ev_job_id = Some (er_job_id row)\<rparr>"
        using assms(1) c Some max_fold_nonneg
        by (intro row_event_ok) (auto simp: row_def sinv_def max_sequence_def is_object_sort_json)
      moreover have "(res, S') = (row_event row, S\<lparr>sj_rows := sj_rows S @ [row], sj_last_id := sj_last_id S + 1\<rparr>)"
        using True Some Inr assms(2) by (simp add: sql_append_at_def sql_append_def row_def Let_def)
      ultimately show ?thesis using Some by (intro appended [of j row]) (auto simp: row_def)
    qed
  qed
qed

lemma row_event_fields:
  "row_event r = Inr ev \<Longrightarrow> ev_sequence ev = er_id r \<and> ev_type ev = er_event_type r \<and> ev_job_id ev = Some (er_job_id r)"
  unfolding row_event_def by (drule mk_event_fields) simp

lemma sql_log_nth:
  assumes "sinv S" and "r \<in> set (sj_rows S)"
  shows "\<exists>ev. row_event r = Inr ev"
  using assms by (auto simp: sinv_def valid_row_def list_all_iff) (metis isl_def sum.exhaust_sel)

definition row_ev :: "event_row \<Rightarrow> event" where
  "row_ev r = (case row_event r of Inr e \<Rightarrow> e | Inl _ \<Rightarrow>
     \<lparr>ev_sequence = 0, ev_stream_sequence = 0, ev_type = [], ev_emitted_at = 0, ev_payload = JNull, ev_job_id = None\<rparr>)"

lemma sql_log_eq: "sql_log S = map row_ev (sj_rows S)"
  by (simp add: sql_log_def row_ev_def)

lemma row_ev_fields:
  assumes "sinv S" and "r \<in> set (sj_rows S)"
  shows "row_event r = Inr (row_ev r)" and "ev_sequence (row_ev r) = er_id r"
    and "row_selected a job types r = selected a job types (row_ev r)"
proof -
  obtain ev where ev: "row_event r = Inr ev" using sql_log_nth [OF assms] by blast
  then show "row_event r = Inr (row_ev r)" "ev_sequence (row_ev r) = er_id r"
      "row_selected a job types r = selected a job types (row_ev r)"
    using row_event_fields [OF ev] by (auto simp: row_ev_def row_selected_def selected_def)
qed

lemma sql_replay_eq:
  assumes "sinv S"
  shows "sql_replay a job types n S =
    rbind (replay_args a types n) (\<lambda>_. Inr (take (nat n) (filter (selected a job types) (sql_log S))))"
proof -
  let ?R = "filter (row_selected a job types) (sj_rows S)"
  have "sorted_wrt (\<lambda>x y. er_id x \<le> er_id y) (sj_rows S)"
    using assms unfolding sinv_def sorted_wrt_map by (auto elim: sorted_wrt_mono_rel [rotated])
  then have "sorted (map er_id ?R)" by (simp add: sorted_map sorted_wrt_filter)
  then have srt: "sort_key er_id ?R = ?R" by (rule sort_key_id_if_sorted)
  have "filter (selected a job types) (sql_log S) = map row_ev ?R"
    unfolding sql_log_eq filter_map using row_ev_fields(3) [OF assms] by (auto intro!: filter_cong arg_cong [of _ _ "map row_ev"])
  moreover have "rmap row_event (take (nat n) ?R) = Inr (map row_ev (take (nat n) ?R))"
    by (rule rmap_map) (meson assms filter_is_subset in_set_takeD row_ev_fields(1) subsetD)
  ultimately show ?thesis by (simp add: sql_replay_def srt take_map)
qed

lemma sql_append_ok:
  assumes "sinv S" and "sql_append_at env ty pl job S = (Inr ev, S')"
  shows "sinv S' \<and> sql_log S' = sql_log S @ [ev] \<and> ev_type ev = ty \<and> ev_job_id ev = job"
  using assms(1,2)
proof (cases rule: sql_append_cases)
  case (appended j row ev')
  then have "sinv S'"
    using assms(1) by (auto simp: sinv_def valid_row_def sorted_wrt_append le_less_trans zle_add1_eq_le intro: order_trans)
  with appended row_event_fields [OF appended(2)] show ?thesis by (auto simp: sql_log_eq row_ev_def)
qed simp

interpretation sqlite_journal: event_journal sinv sql_log sql_append_at sql_replay
proof
  fix S env ty pl job e S'
  assume "sinv S" "sql_append_at env ty pl job S = (Inl e, S')"
  then show "S' = S" by (cases rule: sql_append_cases) auto
next
  fix S assume S: "sinv S"
  then have "map ev_sequence (sql_log S) = map er_id (sj_rows S)"
    by (auto simp: sql_log_eq row_ev_fields(2))
  with S show "sorted_wrt (<) (map ev_sequence (sql_log S))" by (simp add: sinv_def)
qed (use sql_append_ok sql_replay_eq in blast)+

section \<open>Runs of the journals\<close>

inductive journal_step :: "journal \<Rightarrow> journal \<Rightarrow> bool" where
  "journal_append clock ty pl job J = (r, J') \<Longrightarrow> journal_step J J'"

inductive_cases journal_stepE: "journal_step J J'"

inductive sql_step :: "sql_journal \<Rightarrow> sql_journal \<Rightarrow> bool" where
  "sql_append_at env ty pl job S = (r, S') \<Longrightarrow> sql_step S S'"

inductive_cases sql_stepE: "sql_step S S'"

definition new_sql_journal :: sql_journal where
  "new_sql_journal = \<lparr>sj_rows = [], sj_last_id = 0\<rparr>"

lemma jinv_new: "jinv new_journal"
  by (simp add: jinv_def new_journal_def numbered_def)

lemma sinv_new: "sinv new_sql_journal"
  by (simp add: sinv_def new_sql_journal_def)

lemma journal_step_ok: "journal_step J J' \<Longrightarrow> jinv J \<Longrightarrow> jinv J' \<and> (\<exists>L. jn_events J' = jn_events J @ L)"
proof (elim journal_stepE)
  fix clock ty pl job r
  assume "jinv J" "journal_append clock ty pl job J = (r, J')"
  then show ?thesis
    by (cases r) (auto dest: journal_append_ok journal_append_fail)
qed

lemma sql_step_ok: "sql_step S S' \<Longrightarrow> sinv S \<Longrightarrow> sinv S' \<and> (\<exists>L. sql_log S' = sql_log S @ L)"
proof (elim sql_stepE)
  fix env ty pl job r
  assume "sinv S" "sql_append_at env ty pl job S = (r, S')"
  then show ?thesis
    by (cases r) (auto dest: sql_append_ok sqlite_journal.append_fail)
qed

interpretation journal_runs: invariant_system "\<lambda>J. J = new_journal" journal_step jinv
  by unfold_locales (auto simp: jinv_new dest: journal_step_ok)

interpretation sql_runs: invariant_system "\<lambda>S. S = new_sql_journal" sql_step sinv
  by unfold_locales (auto simp: sinv_new dest: sql_step_ok)

lemma journal_run_extends: "journal_step\<^sup>*\<^sup>* J J' \<Longrightarrow> jinv J \<Longrightarrow> \<exists>L. jn_events J' = jn_events J @ L"
proof (induction rule: rtranclp_induct)
  case (step y z)
  then have "jinv y" by (blast intro: journal_runs.invar_steps)
  with step journal_step_ok [OF step.hyps(2)] show ?case by fastforce
qed simp

lemma sql_run_extends: "sql_step\<^sup>*\<^sup>* S S' \<Longrightarrow> sinv S \<Longrightarrow> \<exists>L. sql_log S' = sql_log S @ L"
proof (induction rule: rtranclp_induct)
  case (step y z)
  then have "sinv y" by (blast intro: sql_runs.invar_steps)
  with step sql_step_ok [OF step.hyps(2)] show ?case by fastforce
qed simp

lemma numbered_filter:
  assumes "numbered (map f (filter P xs))" and "i < length xs" and "P (xs ! i)"
  shows "f (xs ! i) = int (length (filter P (take (Suc i) xs)))"
proof -
  let ?n = "length (filter P (take i xs))"
  have "xs = take i xs @ xs ! i # drop (Suc i) xs" using assms(2) by (rule id_take_nth_drop)
  then have F: "filter P xs = filter P (take i xs) @ xs ! i # filter P (drop (Suc i) xs)"
    using assms(3) by (metis filter.simps(2) filter_append)
  then have n: "?n < length (filter P xs)" and "filter P xs ! ?n = xs ! i"
    by (metis length_append length_Cons less_add_same_cancel1 zero_less_Suc) (metis F nth_append_length)
  moreover have "map f (filter P xs) ! ?n = int ?n + 1"
    using assms(1) n unfolding numbered_def by (metis (no_types, lifting) add_0 diff_zero length_map length_upt nth_map nth_upt)
  ultimately show ?thesis using assms(2,3) by (simp add: take_Suc_conv_app_nth)
qed

text \<open>C33. After any sequence of appends, accepted or refused, the event at position \<open>i\<close> of the
  in-memory journal has the global sequence number \<open>i + 1\<close>, and its stream number counts the
  events of its stream (its job, or the system's) up to and including it: no number is skipped,
  repeated or reused after a refused append.\<close>

theorem journal_numbers_events:
  assumes "journal_step\<^sup>*\<^sup>* new_journal J" and "i < length (jn_events J)"
  shows "ev_sequence (jn_events J ! i) = int i + 1
    \<and> ev_stream_sequence (jn_events J ! i) =
      int (length (filter (on_stream (stream_of (ev_job_id (jn_events J ! i)))) (take (Suc i) (jn_events J))))"
proof
  have inv: "jinv J" using assms(1) journal_runs.invar_reachable by blast
  have "numbered (map ev_sequence (filter (\<lambda>e. True) (jn_events J)))" using inv by (simp add: jinv_def)
  from numbered_filter [OF this assms(2)] show "ev_sequence (jn_events J ! i) = int i + 1"
    using assms(2) by simp
  show "ev_stream_sequence (jn_events J ! i) =
      int (length (filter (on_stream (stream_of (ev_job_id (jn_events J ! i)))) (take (Suc i) (jn_events J))))"
    using inv assms(2) by (intro numbered_filter) (simp add: jinv_def, simp, simp add: on_stream_def)
qed

text \<open>A client of the in-memory journal that reads a page, goes on after the last sequence
  number it saw and reads a second page, while other events are appended in between, has seen
  exactly the first events that a single read of the later journal gives: none lost, none twice.\<close>

theorem replay_resumes:
  assumes "journal_step\<^sup>*\<^sup>* new_journal J" and "journal_step\<^sup>*\<^sup>* J J'"
    and "journal_replay a job types n J = Inr xs" and "xs \<noteq> []"
    and "journal_replay (ev_sequence (last xs)) job types m J' = Inr ys"
  shows "journal_replay a job types (int (length xs) + m) J' = Inr (xs @ ys)"
proof -
  have "jinv J" using assms(1) journal_runs.invar_reachable by blast
  moreover from this have "jinv J'" using assms(2) journal_runs.invar_steps by blast
  moreover obtain L where "jn_events J' = jn_events J @ L"
    using journal_run_extends [OF assms(2) \<open>jinv J\<close>] by blast
  ultimately show ?thesis using assms(3-5) by (rule memory_journal.resume_later)
qed

text \<open>C32. The same for the SQLite journal, whose sequence numbers are the row identifiers.\<close>

theorem sql_replay_resumes:
  assumes "sql_step\<^sup>*\<^sup>* new_sql_journal S" and "sql_step\<^sup>*\<^sup>* S S'"
    and "sql_replay a job types n S = Inr xs" and "xs \<noteq> []"
    and "sql_replay (ev_sequence (last xs)) job types m S' = Inr ys"
  shows "sql_replay a job types (int (length xs) + m) S' = Inr (xs @ ys)"
proof -
  have "sinv S" using assms(1) sql_runs.invar_reachable by blast
  moreover from this have "sinv S'" using assms(2) sql_runs.invar_steps by blast
  moreover obtain L where "sql_log S' = sql_log S @ L"
    using sql_run_extends [OF assms(2) \<open>sinv S\<close>] by blast
  ultimately show ?thesis using assms(3-5) by (rule sqlite_journal.resume_later)
qed

section \<open>Delivery to one subscription\<close>

text \<open>
  What one subscription goes through: an event the bus publishes, a read by its consumer, its
  closing. The list beside the state is what the consumer has received.
\<close>

datatype sub_op = Deliver event | Get | CloseSub

fun sub_step :: "sub_op \<Rightarrow> subscription \<times> event list \<Rightarrow> subscription \<times> event list" where
  "sub_step (Deliver ev) (s, got) = (deliver ev s, got)"
| "sub_step Get (s, got) = (case sub_get s of
     (Inr (Some ev), s') \<Rightarrow> (s', got @ [ev])
   | (_, s') \<Rightarrow> (s', got))"
| "sub_step CloseSub (s, got) = (s\<lparr>sb_closed := True\<rparr>, got)"

text \<open>The events published while the subscription is open.\<close>

fun published :: "sub_op list \<Rightarrow> event list" where
  "published [] = []"
| "published (Deliver ev # ops) = ev # published ops"
| "published (Get # ops) = published ops"
| "published (CloseSub # ops) = []"

definition sub_inv :: "event list \<Rightarrow> subscription \<Rightarrow> event list \<Rightarrow> bool" where
  "sub_inv M s got = (sb_dropped s + length got + length (sb_queue s) = length M
     \<and> subseq (got @ sb_queue s) M \<and> suffix (sb_queue s) M
     \<and> length (sb_queue s) \<le> sb_max s \<and> 1 \<le> sb_max s)"

lemma subseq_drop_head: "subseq (xs @ y # ys) M \<Longrightarrow> subseq (xs @ ys) M"
  by (erule subseq_order.trans [rotated]) (simp add: list_emb_append_mono subseq_Cons')

lemma deliver_inv:
  assumes "sub_inv M s got" and "\<not> sb_closed s"
  shows "sub_inv (M @ filter (filter_matches (sb_filter s)) [ev]) (deliver ev s) got"
proof (cases "filter_matches (sb_filter s) ev \<and> sb_max s \<le> length (sb_queue s)")
  case True
  with assms obtain q qs where q: "sb_queue s = q # qs"
    by (cases "sb_queue s") (auto simp: sub_inv_def)
  have "subseq ((got @ qs) @ [ev]) (M @ [ev])"
    using assms(1) q by (intro list_emb_append_mono) (auto simp: sub_inv_def dest: subseq_drop_head)
  moreover have "suffix qs M"
    using assms(1) q by (auto simp: sub_inv_def suffix_def)
  ultimately show ?thesis
    using True assms q by (auto simp: sub_inv_def deliver_def)
next
  case False
  have "subseq ((got @ sb_queue s) @ [ev]) (M @ [ev])"
    using assms(1) by (intro list_emb_append_mono) (auto simp: sub_inv_def)
  with False assms show ?thesis by (auto simp: sub_inv_def deliver_def not_le)
qed

lemma sub_get_inv:
  assumes "sub_inv M s got" and "sub_step Get (s, got) = (s', got')"
  shows "sub_inv M s' got' \<and> sb_closed s' = sb_closed s \<and> sb_filter s' = sb_filter s \<and> sb_max s' = sb_max s"
  using assms by (cases "sb_queue s") (auto simp: sub_inv_def sub_get_def suffix_def split: if_splits)

lemma deliver_fields [simp]:
  "sb_closed (deliver ev s) = sb_closed s" "sb_filter (deliver ev s) = sb_filter s" "sb_max (deliver ev s) = sb_max s"
  by (simp_all add: deliver_def)

lemma deliver_closed [simp]: "sb_closed s \<Longrightarrow> deliver ev s = s"
  by (simp add: deliver_def)

lemma sub_run_inv:
  assumes "sub_inv M s got" and "fold sub_step ops (s, got) = (s', got')"
  shows "sub_inv (M @ (if sb_closed s then [] else filter (filter_matches (sb_filter s)) (published ops))) s' got'
    \<and> sb_max s' = sb_max s"
  using assms
proof (induction ops arbitrary: M s got)
  case (Cons c ops)
  show ?case
  proof (cases c)
    case (Deliver ev)
    with Cons.prems(2) have run: "fold sub_step ops (deliver ev s, got) = (s', got')" by simp
    show ?thesis
    proof (cases "sb_closed s")
      case True
      with Cons.IH [OF Cons.prems(1)] run Deliver show ?thesis by simp
    next
      case False
      with Cons.IH [OF deliver_inv [OF Cons.prems(1) False] run] Deliver show ?thesis
        by (cases "filter_matches (sb_filter s) ev") simp_all
    qed
  next
    case Get
    obtain s1 got1 where g: "sub_step Get (s, got) = (s1, got1)" by fastforce
    with Cons.prems(2) Get have "fold sub_step ops (s1, got1) = (s', got')" by simp
    with Cons.IH sub_get_inv [OF Cons.prems(1) g] Get show ?thesis by fastforce
  next
    case CloseSub
    have "sub_inv M (s\<lparr>sb_closed := True\<rparr>) got" using Cons.prems(1) by (simp add: sub_inv_def)
    with Cons.IH [of M "s\<lparr>sb_closed := True\<rparr>" got] Cons.prems(2) CloseSub show ?thesis by simp
  qed
qed simp

definition fresh_subscription :: "event_filter \<Rightarrow> nat \<Rightarrow> subscription" where
  "fresh_subscription f k = \<lparr>sb_filter = f, sb_max = k, sb_queue = [], sb_closed = False, sb_dropped = 0\<rparr>"

text \<open>A run of deliveries with no read in between, on an open subscription within its capacity.\<close>

lemma deliver_run:
  assumes "\<not> sb_closed s" and "1 \<le> sb_max s" and "length (sb_queue s) \<le> sb_max s"
    and "U = sb_queue s @ filter (filter_matches (sb_filter s)) evs"
  shows "sb_queue (fold deliver evs s) = drop (length U - sb_max s) U
    \<and> sb_dropped (fold deliver evs s) = sb_dropped s + (length U - sb_max s)"
  using assms
proof (induction evs arbitrary: s U)
  case (Cons ev evs)
  show ?case
  proof (cases "filter_matches (sb_filter s) ev")
    case False
    then have "deliver ev s = s" by (simp add: deliver_def)
    with Cons False show ?thesis by simp
  next
    case match: True
    let ?rest = "filter (filter_matches (sb_filter s)) evs"
    have U: "U = sb_queue s @ ev # ?rest" using Cons.prems(4) match by simp
    show ?thesis
    proof (cases "sb_max s \<le> length (sb_queue s)")
      case False
      with Cons.IH [of "deliver ev s" U] Cons.prems match U show ?thesis
        by (simp add: deliver_def)
    next
      case True
      with Cons.prems obtain q qs where q: "sb_queue s = q # qs" by (cases "sb_queue s") auto
      have d: "deliver ev s = s\<lparr>sb_queue := qs @ [ev], sb_dropped := sb_dropped s + 1\<rparr>"
        using True match Cons.prems(1) q by (simp add: deliver_def)
      have len: "length U - sb_max s = Suc (length (qs @ ev # ?rest) - sb_max s)"
        using True Cons.prems(3) U q by simp
      from Cons.IH [of "deliver ev s" "qs @ ev # ?rest"] Cons.prems True q
      show ?thesis unfolding len unfolding U q d by (simp add: d)
    qed
  qed
qed simp

lemma sub_run_closed:
  "fold sub_step ops (s, got) = (s', got') \<Longrightarrow>
   sb_closed s' = (sb_closed s \<or> CloseSub \<in> set ops) \<and> sb_filter s' = sb_filter s"
proof (induction ops arbitrary: s got)
  case (Cons c ops)
  obtain s1 got1 where c: "sub_step c (s, got) = (s1, got1)" by fastforce
  then have "sb_closed s1 = (sb_closed s \<or> c = CloseSub) \<and> sb_filter s1 = sb_filter s"
    by (cases c) (auto simp: sub_get_def split: list.splits if_splits)
  with Cons.IH [of s1 got1] Cons.prems c show ?case by auto
qed simp

text \<open>C34. A subscription over any interleaving of publications, reads and a close. It buffers at
  most \<open>max_buffer\<close> events, what it buffers are the most recent matching events, its consumer sees
  matching events in publication order without repetition, and the drop counter accounts for
  every matching event that is neither received nor buffered. Nothing more is dropped than has to
  be: whatever is published next, up to the next read, the buffer is exactly the last
  \<open>max_buffer\<close> of the events buffered before and the matching new ones, only what is beyond that is
  counted as dropped, and a closed subscription takes nothing and loses nothing. A read takes the
  oldest buffered event.\<close>

theorem subscription_delivery:
  assumes "1 \<le> k" and "fold sub_step ops (fresh_subscription f k, []) = (s, got)"
    and "M = filter (filter_matches f) (published ops)"
  shows "length (sb_queue s) \<le> k \<and> suffix (sb_queue s) M \<and> subseq (got @ sb_queue s) M
    \<and> sb_dropped s + length got + length (sb_queue s) = length M
    \<and> (\<forall>evs. let U = sb_queue s @ (if CloseSub \<in> set ops then [] else filter (filter_matches f) evs) in
         sb_queue (fold deliver evs s) = drop (length U - k) U
         \<and> sb_dropped (fold deliver evs s) = sb_dropped s + (length U - k))
    \<and> (\<forall>q qs. sb_queue s = q # qs \<longrightarrow> sub_step Get (s, got) = (s\<lparr>sb_queue := qs\<rparr>, got @ [q]))"
proof -
  have "sub_inv [] (fresh_subscription f k) []"
    using assms(1) by (simp add: sub_inv_def fresh_subscription_def)
  from sub_run_inv [OF this assms(2)] have inv: "sub_inv M s got" and max: "sb_max s = k"
    using assms(3) by (simp_all add: fresh_subscription_def)
  from sub_run_closed [OF assms(2)] have cl: "sb_closed s = (CloseSub \<in> set ops)" and f: "sb_filter s = f"
    by (simp_all add: fresh_subscription_def)
  have closed: "fold deliver evs s = s" if "sb_closed s" for evs
    using that by (induction evs) simp_all
  have more: "let U = sb_queue s @ (if CloseSub \<in> set ops then [] else filter (filter_matches f) evs) in
         sb_queue (fold deliver evs s) = drop (length U - k) U
         \<and> sb_dropped (fold deliver evs s) = sb_dropped s + (length U - k)" for evs
  proof (cases "CloseSub \<in> set ops")
    case True
    with closed cl inv max show ?thesis by (simp add: sub_inv_def)
  next
    case False
    then show ?thesis
      using deliver_run [of s _ evs] cl inv max f by (simp add: sub_inv_def Let_def)
  qed
  have "sub_step Get (s, got) = (s\<lparr>sb_queue := qs\<rparr>, got @ [q])" if "sb_queue s = q # qs" for q qs
    using that by (simp add: sub_get_def)
  with inv max more show ?thesis by (auto simp: sub_inv_def)
qed

section \<open>Witnesses\<close>

definition sample_append :: "string \<Rightarrow> string option \<Rightarrow> journal \<Rightarrow> journal" where
  "sample_append ty job J = snd (journal_append (Finite 1) ty None job J)"

definition sample_event :: "int \<Rightarrow> int \<Rightarrow> string \<Rightarrow> string option \<Rightarrow> event" where
  "sample_event a b ty job = \<lparr>ev_sequence = a, ev_stream_sequence = b, ev_type = ty, ev_emitted_at = 1,
     ev_payload = JObj [], ev_job_id = job\<rparr>"

lemma sample_append_step: "journal_step J (sample_append ty job J)"
  unfolding sample_append_def by (rule journal_step.intros [OF prod.collapse [symmetric]])

lemma sample_journal_events:
  "jn_events (sample_append ''a.b'' (Some ''j'') (sample_append ''a'' None (sample_append ''x.y'' None new_journal)))
     = [sample_event 1 1 ''x.y'' None, sample_event 2 1 ''a.b'' (Some ''j'')]"
  by code_simp

lemma journal_numbers_events_witness:
  "ev_sequence (jn_events (sample_append ''a.b'' (Some ''j'')
     (sample_append ''a'' None (sample_append ''x.y'' None new_journal))) ! 1) = 2"
  using journal_numbers_events [of "sample_append ''a.b'' (Some ''j'')
     (sample_append ''a'' None (sample_append ''x.y'' None new_journal))" 1]
  by (simp add: sample_journal_events)
    (meson rtranclp.rtrancl_refl rtranclp.rtrancl_into_rtrancl sample_append_step)

definition sample_journal :: journal where
  "sample_journal = sample_append ''x.y'' None new_journal"

lemma sample_append_run: "journal_step\<^sup>*\<^sup>* J (sample_append ty job J)"
  by (rule r_into_rtranclp) (rule sample_append_step)

lemma sample_journal_run: "journal_step\<^sup>*\<^sup>* new_journal sample_journal"
  unfolding sample_journal_def by (rule sample_append_run)

lemma sample_pages:
  "journal_replay 0 None [] 1 sample_journal = Inr [sample_event 1 1 ''x.y'' None]"
  "journal_replay 1 None [] 5 (sample_append ''a.b'' (Some ''j'') sample_journal) = Inr [sample_event 2 1 ''a.b'' (Some ''j'')]"
  by code_simp+

lemma replay_resumes_witness:
  "journal_replay 0 None [] 6 (sample_append ''a.b'' (Some ''j'') sample_journal)
     = Inr [sample_event 1 1 ''x.y'' None, sample_event 2 1 ''a.b'' (Some ''j'')]"
proof -
  have "journal_replay (ev_sequence (last [sample_event 1 1 ''x.y'' None])) None [] 5
      (sample_append ''a.b'' (Some ''j'') sample_journal) = Inr [sample_event 2 1 ''a.b'' (Some ''j'')]"
    using sample_pages(2) by (simp add: sample_event_def)
  from replay_resumes [OF sample_journal_run sample_append_run sample_pages(1) _ this]
  show ?thesis by simp
qed

definition sample_sql_append :: "string \<Rightarrow> sql_journal \<Rightarrow> sql_journal" where
  "sample_sql_append ty S = snd (sql_append_at ({''j''}, 0) ty None (Some ''j'') S)"

lemma sample_sql_run: "sql_step\<^sup>*\<^sup>* S (sample_sql_append ty S)"
  unfolding sample_sql_append_def
  by (rule r_into_rtranclp) (rule sql_step.intros [OF prod.collapse [symmetric]])

definition sample_row_event :: "int \<Rightarrow> string \<Rightarrow> event" where
  "sample_row_event n ty = (sample_event n n ty (Some ''j''))\<lparr>ev_emitted_at := 0\<rparr>"

lemma sample_sql_pages:
  "sql_replay 0 None [] 1 (sample_sql_append ''x.y'' new_sql_journal) = Inr [sample_row_event 1 ''x.y'']"
  "sql_replay 1 None [] 5 (sample_sql_append ''a.b'' (sample_sql_append ''x.y'' new_sql_journal))
     = Inr [sample_row_event 2 ''a.b'']"
  by code_simp+

lemma sql_replay_resumes_witness:
  "sql_replay 0 None [] 6 (sample_sql_append ''a.b'' (sample_sql_append ''x.y'' new_sql_journal))
     = Inr [sample_row_event 1 ''x.y'', sample_row_event 2 ''a.b'']"
proof -
  have "sql_replay (ev_sequence (last [sample_row_event 1 ''x.y''])) None [] 5
      (sample_sql_append ''a.b'' (sample_sql_append ''x.y'' new_sql_journal)) = Inr [sample_row_event 2 ''a.b'']"
    using sample_sql_pages(2) by (simp add: sample_row_event_def sample_event_def)
  from sql_replay_resumes [OF sample_sql_run sample_sql_run
      sample_sql_pages(1) _ this]
  show ?thesis by simp
qed

definition any_event :: event_filter where
  "any_event = \<lparr>ef_job_id = None, ef_types = []\<rparr>"

text \<open>A buffer of one event: the second publication drops the first event.\<close>

lemma subscription_delivery_witness:
  "fst (fold sub_step [Deliver (sample_event 1 1 ''x.y'' None), Deliver (sample_event 2 2 ''x.y'' None), Get]
     (fresh_subscription any_event 1, [])) = (fresh_subscription any_event 1)\<lparr>sb_dropped := 1\<rparr>
   \<and> subseq [sample_event 2 2 ''x.y'' None] [sample_event 1 1 ''x.y'' None, sample_event 2 2 ''x.y'' None]"
proof -
  let ?e1 = "sample_event 1 1 ''x.y'' None" and ?e2 = "sample_event 2 2 ''x.y'' None"
  have run: "fold sub_step [Deliver ?e1, Deliver ?e2, Get] (fresh_subscription any_event 1, [])
      = ((fresh_subscription any_event 1)\<lparr>sb_dropped := 1\<rparr>, [?e2])"
    by code_simp
  with subscription_delivery [OF _ run refl] show ?thesis
    by (simp add: fresh_subscription_def any_event_def filter_matches_def)
qed

end
