(* ===== verification/Scheduler.thy ===== *)
theory Scheduler
  imports Broker Jobs Queues Retry ResultCache Events
begin

text \<open>
  scheduler/scheduler.py: the scheduler that ties the repository, the queues, the result cache, the
  resource broker and the event bus together. Its state is one record and every handler is a
  function on it. Handlers are asyncio coroutines; with the in-memory repository, journal and
  cache none of the locks is ever contended, so a coroutine only gives up control where it awaits
  the dispatcher or the retry delay (and the dispatcher's \<open>cancel\<close>, after its last change of state).
  Each stretch between two such points is one step; the phase of a job's task says where it waits.

  What is outside the repository comes in as the \<open>environment\<close> (the clocks, read one after the
  other, the identifiers \<open>uuid4\<close> gives, the texts \<open>str\<close> gives for exceptions, the event loops that
  have closed) and as the outcome of a dispatch. \<open>str\<close> of an exception is taken to return a text, and
  the items of a \<open>violations\<close> tuple to be JSON values: freezing the payload raises otherwise. What
  \<open>_execute\<close> prints before it handles an exception is output and is left out.
\<close>

datatype sched_error = SValue string | SBackpressure queue_error | SAdmission "string list"
  | SRuntime string | SType string | SJob job_error | SQueue queue_error | SEvent event_error
  | SBroker broker_error | SCache cache_error | SToken token_error | SPolicy policy_error
  | SDispatch py_exception | STaskCancelled

record environment =
  en_clock :: "nat \<Rightarrow> pyfloat"
  en_journal_clock :: "nat \<Rightarrow> pyfloat"
  en_cache_clock :: "nat \<Rightarrow> pyfloat"
  en_monotonic :: "nat \<Rightarrow> rat"
  en_uuid :: "nat \<Rightarrow> uuid"
  en_str :: "sched_error \<Rightarrow> string"
  en_gone :: "nat set"

record dispatch_result =
  dr_raw :: "pyheap \<times> pyval"
  dr_value :: json
  dr_cacheable :: bool
  dr_size_bytes :: int
  dr_ttl_seconds :: "pyfloat option"

text \<open>
  \<open>DispatchResult\<close>. The record keeps the value as passed beside the frozen one, because the cache
  freezes what it stores; freezing the frozen value again gives the same value.
\<close>

definition mk_dispatch_result :: "pyheap \<times> pyval \<Rightarrow> bool \<Rightarrow> int \<Rightarrow> pyfloat option \<Rightarrow> sched_error + dispatch_result" where
  "mk_dispatch_result v cacheable sz ttl =
    rbind (guard_or (0 \<le> sz) (SValue ''size_bytes'')) (\<lambda>_.
    rbind (guard_or (ttl_ok ttl) (SValue ''ttl_seconds'')) (\<lambda>_.
    case freeze_json_value (fst v) (ustr ''$.value'') (snd v) of
      Inl e \<Rightarrow> Inl (SJob (JobJson e))
    | Inr j \<Rightarrow> Inr \<lparr>dr_raw = v, dr_value = j, dr_cacheable = cacheable, dr_size_bytes = sz, dr_ttl_seconds = ttl\<rparr>))"

datatype dispatch_outcome = Returned dispatch_result | NotAResult | Raised sched_error

text \<open>Where the task of an active job waits: not yet run, in the dispatcher, or in the retry delay.\<close>

datatype phase = Starting | Dispatching job | Sleeping job sched_error

record sched =
  s_repo :: job_repo
  s_queues :: queues
  s_cache :: cache
  s_broker :: broker
  s_bus :: bus
  s_policy :: retry_policy
  s_max_concurrency :: nat
  s_poll_interval :: rat
  s_active :: "(string, phase) dict"
  s_tokens :: "(string, cancel_token) dict"
  s_reservations :: "(string, reservation) dict"
  s_wake :: bool
  s_stop :: bool
  s_tick :: nat

definition new_sched :: "job_repo \<Rightarrow> cache \<Rightarrow> broker \<Rightarrow> bus \<Rightarrow> retry_policy \<Rightarrow> int \<Rightarrow> (queue_name, int) dict \<Rightarrow> int \<Rightarrow>
    pyfloat \<Rightarrow> pyfloat \<Rightarrow> sched_error + sched" where
  "new_sched repo c br b pol max_queued limits max_concurrency age_points poll =
    rbind (guard_or (1 \<le> max_concurrency) (SValue ''max_concurrency'')) (\<lambda>_.
    rbind (case poll of Finite r \<Rightarrow> if r \<le> 0 then Inl (SValue ''resource_poll_interval'') else Inr r
           | _ \<Rightarrow> Inl (SValue ''resource_poll_interval'')) (\<lambda>p.
    case new_queues max_queued limits age_points of
      Inl e \<Rightarrow> Inl (SQueue e)
    | Inr Q \<Rightarrow> Inr \<lparr>s_repo = repo, s_queues = Q, s_cache = c, s_broker = br, s_bus = b, s_policy = pol,
        s_max_concurrency = nat max_concurrency, s_poll_interval = p, s_active = [], s_tokens = [],
        s_reservations = [], s_wake = False, s_stop = False, s_tick = 0\<rparr>))"

section \<open>Actions on the state\<close>

text \<open>An action may raise; what it changed before stays changed, as in the code.\<close>

type_synonym 'a act = "sched \<Rightarrow> (sched_error + 'a) \<times> sched"

definition ret :: "'a \<Rightarrow> 'a act" where
  "ret x s = (Inr x, s)"

definition raise :: "sched_error \<Rightarrow> 'a act" where
  "raise e s = (Inl e, s)"

definition seq :: "'a act \<Rightarrow> ('a \<Rightarrow> 'b act) \<Rightarrow> 'b act" where
  "seq m f s = (case m s of (Inl e, s') \<Rightarrow> (Inl e, s') | (Inr x, s') \<Rightarrow> f x s')"

definition catch :: "'a act \<Rightarrow> (sched_error \<Rightarrow> 'a act) \<Rightarrow> 'a act" where
  "catch m h s = (case m s of (Inl e, s') \<Rightarrow> h e s' | (Inr x, s') \<Rightarrow> (Inr x, s'))"

definition reads :: "(sched \<Rightarrow> 'b) \<Rightarrow> ('b \<Rightarrow> 'a act) \<Rightarrow> 'a act" where
  "reads f k s = k (f s) s"

definition puts :: "(sched \<Rightarrow> sched) \<Rightarrow> unit act" where
  "puts f s = (Inr (), f s)"

definition lift_result :: "('e \<Rightarrow> sched_error) \<Rightarrow> 'e + 'a \<Rightarrow> 'a act" where
  "lift_result err r s = (map_sum err id r, s)"

text \<open>\<open>try m finally fin\<close>.\<close>

definition finally_do :: "'a act \<Rightarrow> unit act \<Rightarrow> 'a act" where
  "finally_do m fin s = (case m s of (r, s1) \<Rightarrow> (case fin s1 of (Inl e, s2) \<Rightarrow> (Inl e, s2) | (Inr _, s2) \<Rightarrow> (r, s2)))"

definition on_repo :: "(job_repo \<Rightarrow> (job_error + 'a) \<times> job_repo) \<Rightarrow> 'a act" where
  "on_repo f s = (case f (s_repo s) of (r, R) \<Rightarrow> (map_sum SJob id r, s\<lparr>s_repo := R\<rparr>))"

definition on_queues :: "(queues \<Rightarrow> (queue_error + 'a) \<times> queues) \<Rightarrow> 'a act" where
  "on_queues f s = (case f (s_queues s) of (r, Q) \<Rightarrow> (map_sum SQueue id r, s\<lparr>s_queues := Q\<rparr>))"

definition on_cache :: "(cache \<Rightarrow> (cache_error + 'a) \<times> cache) \<Rightarrow> 'a act" where
  "on_cache f s = (case f (s_cache s) of (r, c) \<Rightarrow> (map_sum SCache id r, s\<lparr>s_cache := c\<rparr>))"

definition on_broker :: "(broker \<Rightarrow> (broker_error + 'a) \<times> broker) \<Rightarrow> 'a act" where
  "on_broker f s = (case f (s_broker s) of (r, b) \<Rightarrow> (map_sum SBroker id r, s\<lparr>s_broker := b\<rparr>))"

definition on_bus :: "(bus \<Rightarrow> (event_error + 'a) \<times> bus) \<Rightarrow> 'a act" where
  "on_bus f s = (case f (s_bus s) of (r, b) \<Rightarrow> (map_sum SEvent id r, s\<lparr>s_bus := b\<rparr>))"

text \<open>One reading of a clock (or of \<open>uuid4\<close>): each moves on to the next value.\<close>

definition tick :: "(nat \<Rightarrow> 'a) \<Rightarrow> 'a act" where
  "tick f s = (Inr (f (s_tick s)), s\<lparr>s_tick := s_tick s + 1\<rparr>)"

definition sched_now :: "environment \<Rightarrow> pyfloat act" where
  "sched_now E = seq (tick (en_clock E)) (\<lambda>t. case t of
     Finite r \<Rightarrow> if r < 0 then raise (SValue ''scheduler clock'') else ret t
   | _ \<Rightarrow> raise (SValue ''scheduler clock''))"

section \<open>Exceptions and events\<close>

definition exc :: "string \<Rightarrow> string list \<Rightarrow> py_exception" where
  "exc c bases = \<lparr>exc_class = c, exc_bases = bases @ [''Exception'', ''BaseException''], exc_violations = None\<rparr>"

fun exc_of :: "sched_error \<Rightarrow> py_exception" where
  "exc_of (SValue _) = exc ''ValueError'' []"
| "exc_of (SBackpressure _) = exc ''SchedulerBackpressure'' [''RuntimeError'']"
| "exc_of (SAdmission vs) = (exc ''ResourceAdmissionFailure'' [''RuntimeError''])\<lparr>exc_violations := Some (map (\<lambda>v. JStr (ustr v)) vs)\<rparr>"
| "exc_of (SRuntime _) = exc ''RuntimeError'' []"
| "exc_of (SType _) = exc ''TypeError'' []"
| "exc_of (SJob e) = (case e of
     JobNotFound _ \<Rightarrow> exc ''JobNotFound'' [''JobError'', ''RuntimeError'', ''KeyError'', ''LookupError'']
   | DuplicateJob _ \<Rightarrow> exc ''DuplicateJob'' [''JobError'', ''RuntimeError'']
   | InvalidJobTransition _ _ _ \<Rightarrow> exc ''InvalidJobTransition'' [''JobError'', ''RuntimeError'', ''ValueError'']
   | JobTransitionConflict _ _ _ \<Rightarrow> exc ''JobTransitionConflict'' [''JobError'', ''RuntimeError'']
   | JobValue _ \<Rightarrow> exc ''ValueError'' []
   | JobJson _ \<Rightarrow> exc ''JsonValueValidationError'' [''ContractValidationError'', ''ValueError'']
   | JobKeyError _ \<Rightarrow> exc ''KeyError'' [''LookupError''])"
| "exc_of (SQueue e) = (case e of
     QValue _ \<Rightarrow> exc ''ValueError'' []
   | QueueFull _ _ _ _ \<Rightarrow> exc ''QueueFullError'' [''RuntimeError'']
   | QIndexError \<Rightarrow> exc ''IndexError'' [''LookupError''])"
| "exc_of (SEvent e) = (case e of
     EventValue _ \<Rightarrow> exc ''ValueError'' []
   | EventJson _ \<Rightarrow> exc ''JsonValueValidationError'' [''ContractValidationError'', ''ValueError'']
   | EventIntegrity \<Rightarrow> exc ''IntegrityError'' [''DatabaseError'', ''Error'']
   | SubscriptionClosed \<Rightarrow> exc ''RuntimeError'' []
   | StopAsyncIteration \<Rightarrow> exc ''StopAsyncIteration'' [])"
| "exc_of (SBroker e) = (case e of
     BValue _ \<Rightarrow> exc ''ValueError'' []
   | BKeyError _ \<Rightarrow> exc ''KeyError'' [''LookupError'']
   | BReservationExists _ \<Rightarrow> exc ''ValueError'' []
   | BRuntimeError _ \<Rightarrow> exc ''RuntimeError'' [])"
| "exc_of (SCache e) = (case e of
     CacheValue _ \<Rightarrow> exc ''ValueError'' []
   | CacheJson _ \<Rightarrow> exc ''JsonValueValidationError'' [''ContractValidationError'', ''ValueError'']
   | CacheCapacity \<Rightarrow> exc ''CacheCapacityError'' [''RuntimeError''])"
| "exc_of (SToken e) = (case e of
     TokenValue _ \<Rightarrow> exc ''ValueError'' []
   | CancellationRequested _ _ _ \<Rightarrow>
       \<lparr>exc_class = ''CancellationRequested'', exc_bases = [''CancelledError'', ''BaseException''], exc_violations = None\<rparr>)"
| "exc_of (SPolicy _) = exc ''ValueError'' []"
| "exc_of (SDispatch e) = e"
| "exc_of STaskCancelled = \<lparr>exc_class = ''CancelledError'', exc_bases = [''BaseException''], exc_violations = None\<rparr>"

text \<open>\<open>except (CancellationRequested, asyncio.CancelledError)\<close> and \<open>except Exception\<close>.\<close>

definition is_cancellation :: "sched_error \<Rightarrow> bool" where
  "is_cancellation e = isinstance_exc (exc_of e) [''CancellationRequested'', ''CancelledError'']"

definition is_exception :: "sched_error \<Rightarrow> bool" where
  "is_exception e = isinstance_exc (exc_of e) [''Exception'']"

definition jstr :: "string \<Rightarrow> json" where
  "jstr s = JStr (ustr s)"

definition jobject :: "(string \<times> json) list \<Rightarrow> json" where
  "jobject kvs = JObj (map (\<lambda>(k, j). (ustr k, j)) kvs)"

definition no_value :: field_value where
  "no_value = Frozen JNull"

definition error_payload :: "environment \<Rightarrow> sched_error \<Rightarrow> json" where
  "error_payload E e = jobject ([(''type'', jstr (exc_class (exc_of e))), (''message'', jstr (en_str E e))]
     @ (case exc_violations (exc_of e) of None \<Rightarrow> [] | Some vs \<Rightarrow> [(''violations'', JArr vs)]))"

fun status_value :: "job_status \<Rightarrow> string" where
  "status_value QUEUED = ''queued''"
| "status_value PREPARING = ''preparing''"
| "status_value RUNNING = ''running''"
| "status_value COMPLETED = ''completed''"
| "status_value FAILED = ''failed''"
| "status_value CANCELLED = ''cancelled''"

definition publish_event :: "environment \<Rightarrow> string \<Rightarrow> (string \<times> json) list \<Rightarrow> string \<Rightarrow> event act" where
  "publish_event E ty kvs i = seq (tick (en_journal_clock E)) (\<lambda>t.
     on_bus (publish t ty (Some (Frozen (jobject kvs))) (Some i)))"

text \<open>\<open>_transition\<close>: \<open>payload.update\<close> keeps the place of a key that is already there.\<close>

definition transition :: "environment \<Rightarrow> string \<Rightarrow> job_status \<Rightarrow> job_status \<Rightarrow> field_value \<Rightarrow> field_value \<Rightarrow>
    (string \<times> json) list \<Rightarrow> job act" where
  "transition E i expected target rs er extra =
    seq (sched_now E) (\<lambda>now.
    seq (on_repo (repo_transition i expected target now rs er)) (\<lambda>r.
    seq (publish_event E (''job.'' @ status_value target)
       (fold (\<lambda>(k, j). AList.update k j) extra
          [(''status'', jstr (status_value (j_status r))), (''attempt'', JInt (attempt r)), (''revision'', JInt (revision r))])
       i) (\<lambda>_. ret r)))"

definition factors_of :: "'a job_spec_scheme \<Rightarrow> queue_error + factors" where
  "factors_of r = mk_factors (user_priority r) (Finite 0) (warm_model_bonus r) (cache_reuse_bonus r)
     (memory_pressure_penalty r) (estimated_duration_penalty r)"

text \<open>\<open>_queue\<close>, and the queue item of a record as the three callers build it.\<close>

definition sched_queue :: "string \<Rightarrow> sched_error + queue_name" where
  "sched_queue v = (case queue_of v of None \<Rightarrow> Inl (SValue ''unknown scheduler queue'') | Some q \<Rightarrow> Inr q)"

definition item_of :: "string \<Rightarrow> queue_name \<Rightarrow> job \<Rightarrow> queue_error + queue_item" where
  "item_of i q r = rbind (factors_of r) (\<lambda>f. mk_queue_item i q (Finite (queued_at r)) f)"

definition enqueue_job :: "string \<Rightarrow> queue_name \<Rightarrow> job \<Rightarrow> unit act" where
  "enqueue_job i q r = seq (lift_result SQueue (item_of i q r)) (\<lambda>it. on_queues (enqueue it))"

definition wake :: "unit act" where
  "wake = puts (\<lambda>s. s\<lparr>s_wake := True\<rparr>)"

text \<open>A queue without room raises \<open>SchedulerBackpressure\<close>.\<close>

definition check_capacity :: "queue_name \<Rightarrow> unit act" where
  "check_capacity q = reads (\<lambda>s. ensure_capacity q (s_queues s)) (lift_result SBackpressure)"

section \<open>Submitting\<close>

definition submit :: "environment \<Rightarrow> job_spec \<Rightarrow> job act" where
  "submit E sub =
    seq (lift_result id (sched_queue (job_queue sub))) (\<lambda>q.
    seq (check_capacity q) (\<lambda>_.
    seq (sched_now E) (\<lambda>now.
    seq (on_repo (repo_create sub now)) (\<lambda>r.
    seq (enqueue_job (job_id r) q r) (\<lambda>_.
    seq (publish_event E ''job.created'' [(''status'', jstr (status_value (j_status r))), (''attempt'', JInt (attempt r))]
       (job_id r)) (\<lambda>_.
    seq (publish_event E ''job.queued'' [(''queue'', jstr (job_queue r)), (''priority'', JInt (user_priority r))]
       (job_id r)) (\<lambda>_.
    seq wake (\<lambda>_. ret r))))))))"

section \<open>Launching\<close>

definition complete_from_cache :: "environment \<Rightarrow> job \<Rightarrow> json \<Rightarrow> unit act" where
  "complete_from_cache E r v =
    seq (transition E (job_id r) QUEUED PREPARING no_value no_value [(''cache_hit'', JBool True)]) (\<lambda>r1.
    seq (transition E (job_id r1) PREPARING RUNNING no_value no_value [(''cache_hit'', JBool True)]) (\<lambda>r2.
    seq (transition E (job_id r2) RUNNING COMPLETED (Frozen v) no_value [(''cache_hit'', JBool True)]) (\<lambda>_.
    ret ())))"

text \<open>The lookup; a cache that raises is reported and treated as a miss.\<close>

definition read_cache :: "environment \<Rightarrow> job \<Rightarrow> cache_entry option act" where
  "read_cache E r = (case cache_key r of
     None \<Rightarrow> ret None
   | Some k \<Rightarrow> catch (seq (tick (en_cache_clock E)) (\<lambda>t. on_cache (cache_get t k)))
       (\<lambda>e. seq (publish_event E ''cache.read_failed'' [(''cache_key'', jstr k), (''error'', error_payload E e)]
          (job_id r)) (\<lambda>_. ret None)))"

text \<open>\<open>CancellationToken()\<close> with its default history limit.\<close>

definition default_token :: cancel_token where
  "default_token = \<lparr>ct_set = False, ct_reason = None, ct_limit = 128, ct_history = [], ct_waiters = [], ct_notified = []\<rparr>"

definition start_job :: "environment \<Rightarrow> job \<Rightarrow> reservation option \<Rightarrow> bool act" where
  "start_job E r rv =
    seq (transition E (job_id r) QUEUED PREPARING no_value no_value []) (\<lambda>r1.
    seq (puts (\<lambda>s. s\<lparr>s_tokens := AList.update (job_id r1) default_token (s_tokens s)\<rparr>)) (\<lambda>_.
    seq (case rv of None \<Rightarrow> ret ()
         | Some v \<Rightarrow> puts (\<lambda>s. s\<lparr>s_reservations := AList.update (job_id r1) v (s_reservations s)\<rparr>)) (\<lambda>_.
    seq (puts (\<lambda>s. s\<lparr>s_active := AList.update (job_id r1) Starting (s_active s)\<rparr>)) (\<lambda>_. ret True))))"

definition broker_admit :: "environment \<Rightarrow> estimate \<Rightarrow> decision act" where
  "broker_admit E e = seq (tick (\<lambda>n. (en_monotonic E n, en_uuid E n))) (\<lambda>(now, fresh).
     on_broker (admit now fresh e None))"

definition fail_queued :: "environment \<Rightarrow> job \<Rightarrow> sched_error \<Rightarrow> string \<Rightarrow> bool act" where
  "fail_queued E r e ph = seq (transition E (job_id r) QUEUED FAILED no_value (Frozen (error_payload E e))
     [(''phase'', jstr ph)]) (\<lambda>_. ret True)"

text \<open>\<open>try: decision = admit(...) except Exception\<close>: the outcome of the call as a value.\<close>

definition capture :: "'a act \<Rightarrow> (sched_error + 'a) act" where
  "capture m s = (case m s of (r, s') \<Rightarrow> (Inr r, s'))"

definition admit_and_start :: "environment \<Rightarrow> queue_item \<Rightarrow> job \<Rightarrow> bool act" where
  "admit_and_start E it r = (case resource_estimate r of
     None \<Rightarrow> start_job E r None
   | Some est \<Rightarrow> seq (capture (broker_admit E est)) (\<lambda>d. case d of
       Inl e \<Rightarrow> fail_queued E r e ''resource_broker''
     | Inr dec \<Rightarrow>
         if \<not> d_admitted dec
         then if d_outcome dec = DEFERRED
              then seq (on_queues (enqueue it)) (\<lambda>_.
                   seq (publish_event E ''job.deferred'' [(''reason'', jstr ''resources''),
                      (''violations'', JArr (map jstr (d_violations dec)))] (job_id r)) (\<lambda>_. ret False))
              else fail_queued E r (SAdmission (d_violations dec)) ''resource_admission''
         else case d_reservation dec of
           None \<Rightarrow> raise (SRuntime ''admitted resource decision has no reservation'')
         | Some rv \<Rightarrow> start_job E r (Some rv)))"

definition launch_item :: "environment \<Rightarrow> queue_item \<Rightarrow> bool act" where
  "launch_item E it = reads (\<lambda>s. repo_get (s_repo s) (qi_job_id it)) (\<lambda>rec. case rec of
     None \<Rightarrow> ret True
   | Some r \<Rightarrow> if j_status r \<noteq> QUEUED then ret True
       else seq (read_cache E r) (\<lambda>cached. case cached of
         Some e \<Rightarrow> seq (complete_from_cache E r (ce_value e)) (\<lambda>_. ret True)
       | None \<Rightarrow> admit_and_start E it r))"

definition launch_next :: "environment \<Rightarrow> bool act" where
  "launch_next E = reads (\<lambda>s. s_max_concurrency s \<le> length (s_active s) \<or> queue_length (s_queues s) = 0) (\<lambda>b.
     if b then ret False
     else seq (sched_now E) (\<lambda>now. seq (on_queues (pop_next now)) (launch_item E)))"

section \<open>The task of a job\<close>

definition release_reservation :: "environment \<Rightarrow> string \<Rightarrow> unit act" where
  "release_reservation E i = reads (\<lambda>s. map_of (s_reservations s) i) (\<lambda>rv. case rv of
     None \<Rightarrow> ret ()
   | Some v \<Rightarrow> seq (puts (\<lambda>s. s\<lparr>s_reservations := AList.delete i (s_reservations s)\<rparr>)) (\<lambda>_.
       seq (tick (en_monotonic E)) (\<lambda>now. seq (on_broker (release now v)) (\<lambda>_. ret ()))))"

text \<open>The \<open>finally\<close> block of \<open>_execute\<close>.\<close>

definition end_task :: "environment \<Rightarrow> string \<Rightarrow> unit act" where
  "end_task E i = finally_do (release_reservation E i) (puts (\<lambda>s. s\<lparr>s_tokens := AList.delete i (s_tokens s),
     s_active := AList.delete i (s_active s), s_wake := True\<rparr>))"

text \<open>
  A stretch of the task: it either waits in a new phase or ends, and then the \<open>finally\<close> block runs.
  The token object of the task is the one \<open>_tokens\<close> keeps for as long as the job is active.
\<close>

definition run_segment :: "environment \<Rightarrow> string \<Rightarrow> phase option act \<Rightarrow> unit act" where
  "run_segment E i body s = (case body s of
     (Inr (Some ph), s') \<Rightarrow> (Inr (), s'\<lparr>s_active := AList.update i ph (s_active s')\<rparr>)
   | (Inr None, s') \<Rightarrow> end_task E i s'
   | (Inl e, s') \<Rightarrow> finally_do (raise e) (end_task E i) s')"

definition on_token :: "string \<Rightarrow> (cancel_token \<Rightarrow> (token_error + 'a) \<times> cancel_token) \<Rightarrow> 'a act" where
  "on_token i f s = (case map_of (s_tokens s) i of
     None \<Rightarrow> (Inl (SRuntime ''no token''), s)
   | Some t \<Rightarrow> (case f t of (r, t') \<Rightarrow> (map_sum SToken id r, s\<lparr>s_tokens := AList.update i t' (s_tokens s)\<rparr>)))"

definition token_reason :: "string \<Rightarrow> sched \<Rightarrow> string option" where
  "token_reason i s = (case map_of (s_tokens s) i of None \<Rightarrow> None | Some t \<Rightarrow> ct_reason t)"

definition token_cancelled :: "string \<Rightarrow> sched \<Rightarrow> bool" where
  "token_cancelled i s = (case map_of (s_tokens s) i of None \<Rightarrow> False | Some t \<Rightarrow> ct_set t)"

text \<open>\<open>token.reason or str(exc) or "cancelled"\<close>.\<close>

definition first_text :: "string option \<Rightarrow> string \<Rightarrow> string" where
  "first_text r d = (case r of Some t \<Rightarrow> if t \<noteq> [] then t else if d \<noteq> [] then d else ''cancelled''
     | None \<Rightarrow> if d \<noteq> [] then d else ''cancelled'')"

definition cancel_job_now :: "environment \<Rightarrow> string \<Rightarrow> string \<Rightarrow> phase option act" where
  "cancel_job_now E i d = reads (\<lambda>s. (repo_get (s_repo s) i, token_reason i s)) (\<lambda>(rec, reason). case rec of
     None \<Rightarrow> ret None
   | Some r \<Rightarrow> if terminal (j_status r) then ret None
       else seq (transition E i (j_status r) CANCELLED no_value
              (Frozen (jobject [(''reason'', jstr (first_text reason d))])) []) (\<lambda>_. ret None))"

text \<open>\<open>should_retry\<close> is only asked when the job has attempts left.\<close>

definition can_retry :: "retry_policy \<Rightarrow> job \<Rightarrow> sched_error \<Rightarrow> policy_error + bool" where
  "can_retry p r e = (if attempt r + 1 < max_attempts r then should_retry p (attempt r) (exc_of e) else Inr False)"

text \<open>The \<open>except Exception\<close> branch up to the retry delay.\<close>

definition on_exception :: "environment \<Rightarrow> string \<Rightarrow> sched_error \<Rightarrow> phase option act" where
  "on_exception E i e = reads (\<lambda>s. (repo_get (s_repo s) i, s_policy s)) (\<lambda>(rec, pol). case rec of
     None \<Rightarrow> ret None
   | Some r \<Rightarrow> if terminal (j_status r) then ret None
       else seq (lift_result SPolicy (can_retry pol r e)) (\<lambda>again.
         if again
         then seq (release_reservation E i) (\<lambda>_.
              seq (lift_result SPolicy (delay_for_retry pol (attempt r + 1))) (\<lambda>d.
              seq (publish_event E ''job.retrying'' [(''attempt'', JInt (attempt r)), (''next_attempt'', JInt (attempt r + 1)),
                 (''delay_seconds'', JFloat d), (''error'', error_payload E e)] i) (\<lambda>_.
              ret (Some (Sleeping r e)))))
         else seq (transition E i (j_status r) FAILED no_value (Frozen (error_payload E e)) []) (\<lambda>_. ret None)))"

text \<open>The \<open>except\<close> clauses of \<open>_execute\<close>; what neither catches goes on to the \<open>finally\<close> block.\<close>

definition handle_failure :: "environment \<Rightarrow> string \<Rightarrow> sched_error \<Rightarrow> phase option act" where
  "handle_failure E i e =
    (if is_cancellation e then cancel_job_now E i (en_str E e)
     else if is_exception e then on_exception E i e
     else raise e)"

definition body_start :: "environment \<Rightarrow> string \<Rightarrow> phase option act" where
  "body_start E i = catch
     (seq (transition E i PREPARING RUNNING no_value no_value []) (\<lambda>r.
      seq (on_token i (checkpoint ''between_blocks'' None)) (\<lambda>_. ret (Some (Dispatching r)))))
     (handle_failure E i)"

definition store_result :: "environment \<Rightarrow> string \<Rightarrow> job \<Rightarrow> dispatch_result \<Rightarrow> unit act" where
  "store_result E i r res = (case cache_key r of
     None \<Rightarrow> ret ()
   | Some k \<Rightarrow> if \<not> dr_cacheable res then ret ()
       else catch (seq (tick (en_cache_clock E)) (\<lambda>t.
              seq (on_cache (cache_put t k (dr_raw res) (dr_size_bytes res) (dr_ttl_seconds res))) (\<lambda>_. ret ())))
            (\<lambda>e. seq (publish_event E ''cache.write_failed'' [(''cache_key'', jstr k), (''error'', error_payload E e)] i)
               (\<lambda>_. ret ())))"

definition body_result :: "environment \<Rightarrow> string \<Rightarrow> job \<Rightarrow> dispatch_outcome \<Rightarrow> phase option act" where
  "body_result E i r out = catch
     (case out of
        Raised e \<Rightarrow> raise e
      | NotAResult \<Rightarrow> raise (SType ''dispatcher must return DispatchResult'')
      | Returned res \<Rightarrow>
          seq (on_token i (checkpoint ''before_save'' None)) (\<lambda>_.
          seq (store_result E i r res) (\<lambda>_.
          seq (transition E i RUNNING COMPLETED (Frozen (dr_value res)) no_value [(''cache_hit'', JBool False)]) (\<lambda>_.
          ret None))))
     (handle_failure E i)"

text \<open>
  After the retry delay. It may have been interrupted by a cancellation of the task. No clause of
  \<open>_execute\<close> catches what this part raises.
\<close>

definition requeue_job :: "environment \<Rightarrow> string \<Rightarrow> job \<Rightarrow> sched_error \<Rightarrow> phase option act" where
  "requeue_job E i r e =
    seq (capture (seq (lift_result id (sched_queue (job_queue r))) check_capacity)) (\<lambda>c. case c of
      Inl err \<Rightarrow> (case err of
          SBackpressure _ \<Rightarrow> seq (transition E i (j_status r) FAILED no_value (Frozen (error_payload E err))
            [(''phase'', jstr ''retry_backpressure'')]) (\<lambda>_. ret None)
        | _ \<Rightarrow> raise err)
    | Inr _ \<Rightarrow>
        seq (sched_now E) (\<lambda>now.
        seq (on_repo (repo_retry i now (j_status r) (Frozen (error_payload E e)))) (\<lambda>r1.
        seq (lift_result id (sched_queue (job_queue r1))) (\<lambda>q.
        seq (enqueue_job i q r1) (\<lambda>_.
        seq (publish_event E ''job.queued'' [(''queue'', jstr (job_queue r1)), (''attempt'', JInt (attempt r1))] i) (\<lambda>_.
        seq wake (\<lambda>_. ret None)))))))"

definition body_wake :: "environment \<Rightarrow> string \<Rightarrow> job \<Rightarrow> sched_error \<Rightarrow> bool \<Rightarrow> phase option act" where
  "body_wake E i r e interrupted =
    seq (if interrupted then seq (on_token i (cancel (en_gone E) ''scheduler task cancelled'')) (\<lambda>_. ret ()) else ret ()) (\<lambda>_.
    reads (token_cancelled i) (\<lambda>c. if c then cancel_job_now E i [] else requeue_job E i r e))"

text \<open>The three stretches of the task, for the job that waits in the phase they start from.\<close>

definition task_start :: "environment \<Rightarrow> string \<Rightarrow> unit act" where
  "task_start E i = run_segment E i (body_start E i)"

definition task_result :: "environment \<Rightarrow> string \<Rightarrow> job \<Rightarrow> dispatch_outcome \<Rightarrow> unit act" where
  "task_result E i r out = run_segment E i (body_result E i r out)"

definition task_wake :: "environment \<Rightarrow> string \<Rightarrow> job \<Rightarrow> sched_error \<Rightarrow> bool \<Rightarrow> unit act" where
  "task_wake E i r e interrupted = run_segment E i (body_wake E i r e interrupted)"

section \<open>Control\<close>

text \<open>\<open>dc\<close> is what the dispatcher's \<open>cancel\<close> raises, if it does.\<close>

definition cancel_job :: "environment \<Rightarrow> sched_error option \<Rightarrow> string \<Rightarrow> string \<Rightarrow> bool act" where
  "cancel_job E dc i reason =
    (if \<not> (reason \<noteq> [] \<and> reason = py_strip reason) then raise (SValue ''reason'')
     else reads (\<lambda>s. (repo_get (s_repo s) i, map_of (s_tokens s) i)) (\<lambda>(rec, tok). case rec of
       None \<Rightarrow> ret False
     | Some r \<Rightarrow>
         if terminal (j_status r) then ret False
         else if j_status r = QUEUED
         then seq (puts (\<lambda>s. s\<lparr>s_queues := snd (remove i (s_queues s))\<rparr>)) (\<lambda>_.
              seq (transition E i QUEUED CANCELLED no_value (Frozen (jobject [(''reason'', jstr reason)])) []) (\<lambda>_.
              ret True))
         else if tok = None then ret False
         else seq (on_token i (cancel (en_gone E) reason)) (\<lambda>changed.
              case dc of Some e \<Rightarrow> raise e | None \<Rightarrow> seq wake (\<lambda>_. ret changed))))"

definition retry_job :: "environment \<Rightarrow> string \<Rightarrow> job act" where
  "retry_job E i =
    seq (reads (\<lambda>s. repo_get (s_repo s) i) (\<lambda>cur. case cur of
       None \<Rightarrow> ret ()
     | Some r \<Rightarrow> seq (lift_result id (sched_queue (job_queue r))) check_capacity)) (\<lambda>_.
    seq (sched_now E) (\<lambda>now.
    seq (on_repo (repo_retry i now FAILED no_value)) (\<lambda>r1.
    seq (lift_result id (sched_queue (job_queue r1))) (\<lambda>q.
    seq (enqueue_job i q r1) (\<lambda>_.
    seq (publish_event E ''job.queued'' [(''queue'', jstr (job_queue r1)), (''attempt'', JInt (attempt r1)),
       (''manual_retry'', JBool True)] i) (\<lambda>_.
    seq wake (\<lambda>_. ret r1)))))))"

definition stop :: "unit act" where
  "stop = puts (\<lambda>s. s\<lparr>s_stop := True, s_wake := True\<rparr>)"

definition pending_count :: "sched \<Rightarrow> nat" where
  "pending_count s = queue_length (s_queues s)"

definition active_count :: "sched \<Rightarrow> nat" where
  "active_count s = length (s_active s)"

end
