(* ===== verification/SchedulerSafety.thy ===== *)
theory SchedulerSafety
  imports Scheduler
begin

text \<open>
  Safety of the scheduler: in every reachable state each stored job is in exactly one place, the
  broker holds exactly the reservations of active jobs, the number of active jobs is bounded, and
  no handler raises by itself. The clocks are assumed finite and the scheduler's clock monotonic
  (\<open>time.monotonic\<close>, \<open>time.time\<close>); a dispatcher raises an \<open>Exception\<close> or a cancellation.
\<close>

section \<open>Weakest preconditions of actions\<close>

definition wp :: "'a act \<Rightarrow> ('a \<Rightarrow> sched \<Rightarrow> bool) \<Rightarrow> (sched_error \<Rightarrow> sched \<Rightarrow> bool) \<Rightarrow> sched \<Rightarrow> bool" where
  "wp m Q R s = (case m s of (Inl e, s') \<Rightarrow> R e s' | (Inr x, s') \<Rightarrow> Q x s')"

lemma wp_simps [simp]:
  "wp (ret x) Q R = Q x"
  "wp (raise e) Q R = R e"
  "wp (seq n f) Q R = wp n (\<lambda>x. wp (f x) Q R) R"
  "wp (catch m h) Q R = wp m Q (\<lambda>e. wp (h e) Q R)"
  "wp (capture c) Q' R = wp c (\<lambda>x. Q' (Inr x)) (\<lambda>e. Q' (Inl e))"
  "wp (reads g k) Q R = (\<lambda>s. wp (k (g s)) Q R s)"
  "wp (puts p) Q'' R = (\<lambda>s. Q'' () (p s))"
  "wp (tick t) Q R = (\<lambda>s. Q (t (s_tick s)) (s\<lparr>s_tick := s_tick s + 1\<rparr>))"
  "wp (lift_result err (Inr x)) Q R = Q x"
  "wp (lift_result err (Inl e')) Q R = R (err e')"
  by (rule ext; simp add: wp_def ret_def raise_def seq_def catch_def capture_def reads_def puts_def tick_def
      lift_result_def split: prod.split sum.split)+

lemma wp_finally_do:
  "wp (finally_do m fin) Q R s = wp m (\<lambda>x. wp fin (\<lambda>_. Q x) R) (\<lambda>e. wp fin (\<lambda>_. R e) R) s"
  by (auto simp: wp_def finally_do_def split: prod.split sum.split)

lemma wp_run_segment:
  "wp (run_segment E i body) Q R s = wp body
     (\<lambda>x s'. case x of Some ph \<Rightarrow> Q () (s'\<lparr>s_active := AList.update i ph (s_active s')\<rparr>) | None \<Rightarrow> wp (end_task E i) Q R s')
     (\<lambda>e s'. wp (end_task E i) (\<lambda>_. R e) R s') s"
  by (auto simp: wp_def run_segment_def finally_do_def raise_def split: prod.split sum.split option.split)

lemma wp_mono:
  "wp m Q R s \<Longrightarrow> (\<And>x t. Q x t \<Longrightarrow> Q' x t) \<Longrightarrow> (\<And>e t. R e t \<Longrightarrow> R' e t) \<Longrightarrow> wp m Q' R' s"
  by (auto simp: wp_def split: prod.splits sum.splits)

lemma wp_on:
  "wp (on_repo f) Q R s = (case f (s_repo s) of (Inr x, y) \<Rightarrow> Q x (s\<lparr>s_repo := y\<rparr>) | (Inl e, y) \<Rightarrow> R (SJob e) (s\<lparr>s_repo := y\<rparr>))"
  "wp (on_queues g) Q R s = (case g (s_queues s) of (Inr x, y) \<Rightarrow> Q x (s\<lparr>s_queues := y\<rparr>) | (Inl e, y) \<Rightarrow> R (SQueue e) (s\<lparr>s_queues := y\<rparr>))"
  "wp (on_cache h) Q R s = (case h (s_cache s) of (Inr x, y) \<Rightarrow> Q x (s\<lparr>s_cache := y\<rparr>) | (Inl e, y) \<Rightarrow> R (SCache e) (s\<lparr>s_cache := y\<rparr>))"
  "wp (on_broker k) Q R s = (case k (s_broker s) of (Inr x, y) \<Rightarrow> Q x (s\<lparr>s_broker := y\<rparr>) | (Inl e, y) \<Rightarrow> R (SBroker e) (s\<lparr>s_broker := y\<rparr>))"
  "wp (on_bus l) Q R s = (case l (s_bus s) of (Inr x, y) \<Rightarrow> Q x (s\<lparr>s_bus := y\<rparr>) | (Inl e, y) \<Rightarrow> R (SEvent e) (s\<lparr>s_bus := y\<rparr>))"
  by (auto simp: wp_def on_repo_def on_queues_def on_cache_def on_broker_def on_bus_def split: prod.split sum.split)

abbreviation never :: "sched_error \<Rightarrow> sched \<Rightarrow> bool" where
  "never \<equiv> \<lambda>e s. False"

section \<open>The environment\<close>

definition good_env :: "environment \<Rightarrow> bool" where
  "good_env E = ((\<forall>n. \<exists>t\<ge>0. en_clock E n = Finite t) \<and> (\<forall>n. \<exists>t\<ge>0. en_journal_clock E n = Finite t)
     \<and> (\<forall>m n t u. m \<le> n \<longrightarrow> en_clock E m = Finite t \<longrightarrow> en_clock E n = Finite u \<longrightarrow> t \<le> u))"

definition time_at :: "environment \<Rightarrow> nat \<Rightarrow> rat" where
  "time_at E n = (case en_clock E n of Finite t \<Rightarrow> t | _ \<Rightarrow> 0)"

lemma good_envD:
  assumes "good_env E"
  shows "en_clock E n = Finite (time_at E n)" and "0 \<le> time_at E n" and "m \<le> n \<Longrightarrow> time_at E m \<le> time_at E n"
proof -
  have t: "\<exists>t\<ge>0. en_clock E n = Finite t" for n using assms by (simp add: good_env_def)
  show "en_clock E n = Finite (time_at E n)" "0 \<le> time_at E n" using t [of n] by (auto simp: time_at_def)
  show "time_at E m \<le> time_at E n" if "m \<le> n"
  proof -
    obtain a b where ab: "en_clock E m = Finite a" "en_clock E n = Finite b" using t [of m] t [of n] by blast
    with assms that have "a \<le> b" unfolding good_env_def by blast
    with ab show ?thesis by (simp add: time_at_def)
  qed
qed

lemma wp_sched_now:
  "good_env E \<Longrightarrow> wp (sched_now E) Q R s = Q (Finite (time_at E (s_tick s))) (s\<lparr>s_tick := s_tick s + 1\<rparr>)"
  using good_envD(1,2) [of E "s_tick s"] by (simp add: sched_now_def not_less)

section \<open>The invariant\<close>

text \<open>
  \<open>placed_view\<close> says where a job may be, from its record, whether it is queued, the phase of its
  task, and whether it has a token and a reservation.
\<close>

declare map_of_eq_Some_iff [simp del]

definition placed_view :: "job option \<Rightarrow> bool \<Rightarrow> phase option \<Rightarrow> cancel_token option \<Rightarrow> reservation option \<Rightarrow> bool" where
  "placed_view rec queued ph tok rv = (case rec of
     None \<Rightarrow> \<not> queued \<and> ph = None \<and> tok = None \<and> rv = None
   | Some r \<Rightarrow> (queued \<longleftrightarrow> j_status r = QUEUED) \<and> (tok = None \<longleftrightarrow> ph = None) \<and>
      (case ph of
         None \<Rightarrow> j_status r \<notin> {PREPARING, RUNNING} \<and> rv = None
       | Some Starting \<Rightarrow> j_status r = PREPARING
       | Some (Dispatching q) \<Rightarrow> j_status r = RUNNING \<and> q = r
       | Some (Sleeping q e) \<Rightarrow> j_status r = RUNNING \<and> q = r \<and> attempt r + 1 < max_attempts r \<and> rv = None))"

definition placed :: "sched \<Rightarrow> string \<Rightarrow> bool" where
  "placed s k = placed_view (repo_get (s_repo s) k) (contains k (s_queues s)) (map_of (s_active s) k)
     (map_of (s_tokens s) k) (map_of (s_reservations s) k)"

text \<open>The broker's books: its reservations are the scheduler's, and \<open>M\<close> on the way to it.\<close>

definition books :: "reservation multiset \<Rightarrow> sched \<Rightarrow> bool" where
  "books M s = (mset (dvalues (b_reservations (s_broker s))) = mset (dvalues (s_reservations s)) + M)"

definition timely :: "environment \<Rightarrow> sched \<Rightarrow> bool" where
  "timely E s = (\<forall>i r. repo_get (s_repo s) i = Some r \<longrightarrow>
     updated_at r \<le> time_at E (s_tick s) \<and> (\<forall>e. resource_estimate r = Some e \<longrightarrow> valid_estimate e))"

definition base :: "environment \<Rightarrow> reservation multiset \<Rightarrow> sched \<Rightarrow> bool" where
  "base E M s = (repo_ok (s_repo s) \<and> qinv (s_queues s) \<and> binv (s_broker s) \<and> jinv (bus_journal (s_bus s))
     \<and> timely E s \<and> wf_dict (s_active s) \<and> wf_dict (s_tokens s) \<and> wf_dict (s_reservations s)
     \<and> length (s_active s) \<le> s_max_concurrency s \<and> books M s)"

text \<open>While a handler works on job \<open>i\<close>, every other job is in its place.\<close>

definition inside :: "environment \<Rightarrow> reservation multiset \<Rightarrow> string \<Rightarrow> sched \<Rightarrow> bool" where
  "inside E M i s = (base E M s \<and> (\<forall>k. k \<noteq> i \<longrightarrow> placed s k))"

definition sched_inv :: "environment \<Rightarrow> sched \<Rightarrow> bool" where
  "sched_inv E s = (base E {#} s \<and> (\<forall>k. placed s k))"

lemma sched_inv_inside: "sched_inv E s \<longleftrightarrow> inside E {#} i s \<and> placed s i"
  by (auto simp: sched_inv_def inside_def)

lemma inside_own: "(\<And>k. k \<noteq> i \<Longrightarrow> placed s k = placed s' k) \<Longrightarrow> base E M' s' \<Longrightarrow> inside E M i s \<Longrightarrow> inside E M' i s'"
  by (simp add: inside_def)

section \<open>The two actions every handler is made of\<close>

lemma publish_ok:
  assumes J: "jinv (bus_journal b)" and t: "0 \<le> t" and ty: "trimmed_identifier 200 ty" "CHR ''.'' \<in> set ty"
    and i: "trimmed_identifier 160 i"
  shows "\<exists>ev b'. publish (Finite t) ty (Some (Frozen (jobject kvs))) (Some i) b = (Inr ev, b') \<and> jinv (bus_journal b')"
proof -
  let ?J = "bus_journal b" and ?pl = "Some (Frozen (jobject kvs))"
  have "(case map_of (jn_streams ?J) s of None \<Rightarrow> 0 | Some n \<Rightarrow> n) = int (length (filter (on_stream s) (jn_events ?J)))" for s
    using J by (simp add: jinv_def)
  then have "0 \<le> (case map_of (jn_streams ?J) (stream_of (Some i)) of None \<Rightarrow> 0 | Some n \<Rightarrow> n)" by simp
  moreover have "trimmed_identifier 200 i" using i by (simp add: trimmed_identifier_def)
  moreover have "is_object (jobject kvs)" by (simp add: is_object_def jobject_def)
  ultimately obtain ev J' where a: "journal_append (Finite t) ty ?pl (Some i) ?J = (Inr ev, J')"
    using t ty by (simp add: journal_append_def Let_def journal_now_def mk_event_def payload_or_empty_def not_less)
  from journal_append_ok [OF J a] have "jinv J'" by simp
  with a show ?thesis by (simp add: publish_def)
qed

lemma timely_tick: "good_env E \<Longrightarrow> timely E s \<Longrightarrow> s_repo s' = s_repo s \<Longrightarrow> s_tick s \<le> s_tick s' \<Longrightarrow> timely E s'"
  unfolding timely_def using good_envD(3) order_trans by metis

lemma inside_id: "inside E M i s \<Longrightarrow> repo_get (s_repo s) i = Some r \<Longrightarrow> job_id r = i \<and> valid_job r"
  unfolding inside_def base_def by (auto elim: repo_okD)

lemma valid_job_id: "valid_job r \<Longrightarrow> trimmed_identifier 160 (job_id r)"
  by (simp add: valid_job_iff spec_ok_def identity_checks_def check_identifier_def)

text \<open>What neither action touches.\<close>

definition quiet :: "sched \<Rightarrow> sched \<Rightarrow> bool" where
  "quiet s s' = (s_queues s' = s_queues s \<and> s_cache s' = s_cache s \<and> s_broker s' = s_broker s \<and> s_policy s' = s_policy s
     \<and> s_max_concurrency s' = s_max_concurrency s \<and> s_active s' = s_active s \<and> s_tokens s' = s_tokens s
     \<and> s_reservations s' = s_reservations s)"

lemma quietD:
  assumes "quiet s s'"
  shows "s_queues s' = s_queues s" "s_cache s' = s_cache s" "s_broker s' = s_broker s" "s_policy s' = s_policy s"
    "s_max_concurrency s' = s_max_concurrency s" "s_active s' = s_active s" "s_tokens s' = s_tokens s"
    "s_reservations s' = s_reservations s"
  using assms by (simp_all add: quiet_def)

lemma quiet_trans: "quiet s t \<Longrightarrow> quiet t u \<Longrightarrow> quiet s u"
  by (simp add: quiet_def)

lemma publish_wp:
  assumes E: "good_env E" and s: "inside E M i s" and ty: "trimmed_identifier 200 ty" "CHR ''.'' \<in> set ty"
    and j: "trimmed_identifier 160 j"
    and Q: "\<And>ev s'. inside E M i s' \<Longrightarrow> quiet s s' \<Longrightarrow> s_repo s' = s_repo s \<Longrightarrow> Q ev s'"
  shows "wp (publish_event E ty kvs j) Q R s"
proof -
  obtain t where t: "en_journal_clock E (s_tick s) = Finite t" "0 \<le> t" using E unfolding good_env_def by blast
  have "jinv (bus_journal (s_bus s))" using s by (simp add: inside_def base_def)
  from publish_ok [OF this t(2) ty j] obtain ev b where
    b: "publish (Finite t) ty (Some (Frozen (jobject kvs))) (Some j) (s_bus s) = (Inr ev, b)" "jinv (bus_journal b)"
    by blast
  let ?s = "s\<lparr>s_tick := s_tick s + 1, s_bus := b\<rparr>"
  have "timely E ?s" using s timely_tick [OF E, of s ?s] by (simp add: inside_def base_def)
  with s b(2) have "inside E M i ?s" by (simp add: inside_def base_def placed_def books_def)
  then have "Q ev ?s" by (rule Q) (simp_all add: quiet_def)
  then show ?thesis
    by (simp add: publish_event_def wp_on t b)
qed

lemma transition_total:
  assumes R: "repo_ok R" and cur: "repo_get R i = Some cur" "j_status cur = expected" "target \<in> transitions expected"
    and t: "updated_at cur \<le> t" and v: "v = JNull \<or> target = COMPLETED"
    and w: "w = JNull \<or> is_object w \<and> target \<in> {FAILED, CANCELLED}"
  shows "\<exists>r R'. repo_transition i expected target (Finite t) (Frozen v) (Frozen w) R = (Inr r, R') \<and> repo_ok R'
    \<and> repo_get R' = (repo_get R)(i \<mapsto> r) \<and> j_status r = target \<and> updated_at r = t
    \<and> job_spec.truncate r = job_spec.truncate cur \<and> attempt r = attempt cur
    \<and> j_result r = v \<and> j_error r = (if w = JNull then None else Some w)"
proof -
  have val: "valid_job cur" by (rule repo_okD [OF R cur(1)])
  then have t0: "0 \<le> t" using t by (auto simp: valid_job_iff lifetime_ok_def)
  let ?r = "(moved cur target t)\<lparr>j_result := v, j_error := if w = JNull then None else Some w\<rparr>"
  have "finish (Frozen v) (Frozen w) (moved cur target t) = Inr ?r"
    using w by (auto simp: finish_def freeze_error_def)
  then have tr: "transition_record cur expected target t (Frozen v) (Frozen w) = Inr ?r"
    using cur(2,3) t v w unfolding transition_record_eq [OF val] by (auto simp: not_less)
  note st = transition_record_step [OF val tr]
  obtain R' where R': "repo_store i ?r R = (Inr ?r, R')" "repo_ok R'" "jr_records R' = AList.update i ?r (jr_records R)"
    by (rule repo_store_ok [OF R cur(1) st(2,1)])
  have "repo_transition i expected target (Finite t) (Frozen v) (Frozen w) R = (Inr ?r, R')"
    using t0 cur(1) tr R'(1) by (simp add: repo_transition_def finite_non_negative_def)
  moreover have "repo_get R' = (repo_get R)(i \<mapsto> ?r)"
    by (rule ext) (simp add: repo_get_def R'(3) map_of_update)
  ultimately show ?thesis
    using R'(2) by (auto simp: moved_def job_spec.truncate_def)
qed

lemma status_event: "trimmed_identifier 200 (''job.'' @ status_value st)" "CHR ''.'' \<in> set (''job.'' @ status_value st)"
  by (cases st; simp add: trimmed_identifier_def py_strip_def py_isspace_def)+

lemma transition_wp:
  assumes E: "good_env E" and s: "inside E M i s" and cur: "repo_get (s_repo s) i = Some cur" "j_status cur = expected"
    and tgt: "target \<in> transitions expected" and v: "v = JNull \<or> target = COMPLETED"
    and w: "w = JNull \<or> is_object w \<and> target \<in> {FAILED, CANCELLED}"
    and Q: "\<And>r s'. inside E M i s' \<Longrightarrow> quiet s s' \<Longrightarrow> repo_get (s_repo s') = (repo_get (s_repo s))(i \<mapsto> r) \<Longrightarrow>
      j_status r = target \<Longrightarrow> job_spec.truncate r = job_spec.truncate cur \<Longrightarrow> attempt r = attempt cur \<Longrightarrow>
      j_result r = v \<Longrightarrow> j_error r = (if w = JNull then None else Some w) \<Longrightarrow> Q r s'"
  shows "wp (transition E i expected target (Frozen v) (Frozen w) extra) Q Rr s"
proof -
  let ?t = "time_at E (s_tick s)"
  from s have R: "repo_ok (s_repo s)" and tm: "timely E s" by (simp_all add: inside_def base_def)
  from tm cur(1) have up: "updated_at cur \<le> ?t" and est: "\<And>e. resource_estimate cur = Some e \<Longrightarrow> valid_estimate e"
    by (auto simp: timely_def)
  obtain r R' where r: "repo_transition i expected target (Finite ?t) (Frozen v) (Frozen w) (s_repo s) = (Inr r, R')"
      "repo_ok R'" "repo_get R' = (repo_get (s_repo s))(i \<mapsto> r)" "j_status r = target" "updated_at r = ?t"
      "job_spec.truncate r = job_spec.truncate cur" "attempt r = attempt cur"
      "j_result r = v" "j_error r = (if w = JNull then None else Some w)"
    using transition_total [OF R cur tgt up v w] by blast
  have "resource_estimate r = resource_estimate cur" using r(6) by (simp add: job_spec.truncate_def)
  let ?s = "s\<lparr>s_tick := s_tick s + 1, s_repo := R'\<rparr>"
  have "timely E ?s"
    using tm est r(3,5) good_envD(3) [OF E, of "s_tick s" "s_tick s + 1"] \<open>resource_estimate r = resource_estimate cur\<close>
    unfolding timely_def by (auto split: if_splits intro: order_trans)
  then have ins: "inside E M i ?s"
    using s r(2,3) by (simp add: inside_def base_def placed_def books_def)
  have "trimmed_identifier 160 i" using inside_id [OF s cur(1)] valid_job_id by auto
  then have "wp (publish_event E (''job.'' @ status_value target)
       (fold (\<lambda>(k, j). AList.update k j) extra
          [(''status'', jstr (status_value (j_status r))), (''attempt'', JInt (attempt r)), (''revision'', JInt (revision r))])
       i) (\<lambda>_. Q r) Rr ?s"
    by (intro publish_wp [OF E ins status_event] Q) (use r in \<open>auto simp: quiet_def\<close>)
  then show ?thesis
    by (simp add: transition_def wp_sched_now [OF E] wp_on r(1))
qed

lemma item_of_ok:
  assumes "valid_job r"
  shows "\<exists>it. item_of (job_id r) q r = Inr it \<and> valid_item it \<and> qi_job_id it = job_id r \<and> qi_queue it = q"
proof -
  from assms have c: "list_all (\<lambda>c. c = Inr ()) (identity_checks r @ option_checks r)" and t: "0 \<le> queued_at r"
    by (auto simp: valid_job_iff spec_ok_def lifetime_ok_def)
  have f: "finite_non_negative nm v = Inr x \<longleftrightarrow> v = Finite x \<and> 0 \<le> x" for nm v x
    by (cases v) (auto simp: finite_non_negative_def)
  obtain a b d e where "warm_model_bonus r = Finite a" "cache_reuse_bonus r = Finite b"
      "memory_pressure_penalty r = Finite d" "estimated_duration_penalty r = Finite e" "0 \<le> a" "0 \<le> b" "0 \<le> d" "0 \<le> e"
    using c by (auto simp: option_checks_def bonus_check_def rbind_Inr_iff f)
  moreover have "0 \<le> user_priority r" "user_priority r \<le> 100" using c by (auto simp: identity_checks_def)
  ultimately obtain g where "factors_of r = Inr g" "valid_factors g"
    unfolding factors_of_def mk_factors_def by (auto simp: rbind_Inr_iff valid_factors_def)
  moreover have "job_id r \<noteq> []" "job_id r = py_strip (job_id r)"
    using valid_job_id [OF assms] by (auto simp: trimmed_identifier_def)
  ultimately show ?thesis
    using t by (auto simp: item_of_def mk_queue_item_def rbind_Inr_iff valid_item_def)
qed

lemma enqueue_succeeds:
  assumes "qinv Q" and "valid_item it" and "\<not> contains (qi_job_id it) Q" and "ensure_capacity (qi_queue it) Q = Inr ()"
  shows "\<exists>Q'. enqueue it Q = (Inr (), Q') \<and> qinv Q' \<and> (\<forall>k. contains k Q' \<longleftrightarrow> k = qi_job_id it \<or> contains k Q)"
proof -
  from assms(3,4) obtain Q' where e: "enqueue it Q = (Inr (), Q')" by (auto simp: enqueue_def contains_def)
  from enqueue_qinv [OF assms(1,2) e] e show ?thesis by (auto simp: contains_def)
qed

text \<open>A new queue state that differs only in whether job \<open>i\<close> is queued.\<close>

lemma inside_queues:
  assumes "inside E M i s" and "qinv Q" and "\<And>k. k \<noteq> i \<Longrightarrow> contains k Q \<longleftrightarrow> contains k (s_queues s)"
  shows "inside E M i (s\<lparr>s_queues := Q\<rparr>)"
  using assms by (simp add: inside_def base_def placed_def books_def timely_def)

lemma enqueue_job_wp:
  assumes s: "inside E M i s" and r: "repo_get (s_repo s) i = Some r" and new: "\<not> contains i (s_queues s)"
    and cap: "ensure_capacity q (s_queues s) = Inr ()"
    and Q: "\<And>q'. inside E M i (s\<lparr>s_queues := q'\<rparr>) \<Longrightarrow> contains i q' \<Longrightarrow> Q () (s\<lparr>s_queues := q'\<rparr>)"
  shows "wp (enqueue_job i q r) Q R s"
proof -
  from inside_id [OF s r] have i: "job_id r = i" "valid_job r" by auto
  obtain it where it: "item_of i q r = Inr it" "valid_item it" "qi_job_id it = i" "qi_queue it = q"
    using item_of_ok [OF i(2), of q] i(1) by auto
  have "qinv (s_queues s)" using s by (simp add: inside_def base_def)
  from enqueue_succeeds [OF this it(2)] new cap it obtain q' where q': "enqueue it (s_queues s) = (Inr (), q')"
      "qinv q'" "\<And>k. contains k q' \<longleftrightarrow> k = i \<or> contains k (s_queues s)" by auto
  have "Q () (s\<lparr>s_queues := q'\<rparr>)"
    by (rule Q [OF inside_queues [OF s q'(2)]]) (auto simp: q'(3))
  then show ?thesis by (simp add: enqueue_job_def it wp_on q'(1))
qed

lemma wp_check_capacity:
  "wp (check_capacity q) Q R s = (case ensure_capacity q (s_queues s) of Inr _ \<Rightarrow> Q () s | Inl e \<Rightarrow> R (SBackpressure e) s)"
  by (cases "ensure_capacity q (s_queues s)") (simp_all add: check_capacity_def)

lemma wp_wake [simp]: "wp wake Q R = (\<lambda>s. Q () (s\<lparr>s_wake := True\<rparr>))"
  by (simp add: wake_def)

lemma inside_flags [simp]:
  "inside E M i (s\<lparr>s_wake := a\<rparr>) = inside E M i s" "inside E M i (s\<lparr>s_stop := b\<rparr>) = inside E M i s"
  "inside E M i (s\<lparr>s_cache := c\<rparr>) = inside E M i s"
  by (simp_all add: inside_def base_def placed_def books_def timely_def)

lemma placed_flags [simp]:
  "placed (s\<lparr>s_wake := a\<rparr>) k = placed s k" "placed (s\<lparr>s_stop := b\<rparr>) k = placed s k"
  "placed (s\<lparr>s_cache := c\<rparr>) k = placed s k" "placed (s\<lparr>s_tick := n\<rparr>) k = placed s k"
  by (simp_all add: placed_def)

lemma inside_tick: "good_env E \<Longrightarrow> inside E M i s \<Longrightarrow> inside E M i (s\<lparr>s_tick := s_tick s + 1\<rparr>)"
  using timely_tick [of E s "s\<lparr>s_tick := s_tick s + 1\<rparr>"]
  by (simp add: inside_def base_def placed_def books_def)

lemma sched_inv_tick: "good_env E \<Longrightarrow> sched_inv E s \<Longrightarrow> sched_inv E (s\<lparr>s_tick := s_tick s + 1\<rparr>)"
  using inside_tick by (simp add: sched_inv_inside [where i = "[]"])

lemma created_fields:
  "from_submission sub (Finite t) = Inr r \<Longrightarrow> updated_at r = t \<and> resource_estimate r = resource_estimate sub"
  by (auto simp: from_submission_def job_post_init_def rbind_Inr_iff finite_non_negative_def split: if_splits)

lemma job_event_names:
  "trimmed_identifier 200 ''job.created''" "trimmed_identifier 200 ''job.queued''" "trimmed_identifier 200 ''job.deferred''"
  "trimmed_identifier 200 ''job.retrying''" "trimmed_identifier 200 ''cache.read_failed''"
  "trimmed_identifier 200 ''cache.write_failed''"
  by (simp_all add: trimmed_identifier_def py_strip_def py_isspace_def)

lemma created_inside:
  assumes E: "good_env E" and inv: "sched_inv E s" and c: "repo_create sub (Finite (time_at E (s_tick s))) (s_repo s) = (Inr r, R)"
    and est: "\<forall>e. resource_estimate sub = Some e \<longrightarrow> valid_estimate e"
  shows "inside E {#} (job_id sub) (s\<lparr>s_tick := s_tick s + 1, s_repo := R\<rparr>)"
    and "repo_get R (job_id sub) = Some r" and "j_status r = QUEUED" and "job_id r = job_id sub"
    and "\<not> contains (job_id sub) (s_queues s)" and "map_of (s_active s) (job_id sub) = None"
    and "map_of (s_tokens s) (job_id sub) = None" and "map_of (s_reservations s) (job_id sub) = None"
proof -
  let ?t = "time_at E (s_tick s)"
  from inv have R0: "repo_ok (s_repo s)" and tm: "timely E s" and pl: "placed s (job_id sub)"
    by (simp_all add: sched_inv_def base_def)
  note ok = repo_create_ok [OF R0 c]
  from c have f: "from_submission sub (Finite ?t) = Inr r" by (auto simp: repo_create_def split: if_splits sum.splits)
  show "repo_get R (job_id sub) = Some r" "j_status r = QUEUED" using ok by auto
  show "job_id r = job_id sub" using from_submission_valid(5) [OF f] .
  from pl ok show "\<not> contains (job_id sub) (s_queues s)" "map_of (s_active s) (job_id sub) = None"
      "map_of (s_tokens s) (job_id sub) = None" "map_of (s_reservations s) (job_id sub) = None"
    by (auto simp: placed_def placed_view_def)
  have "timely E (s\<lparr>s_tick := s_tick s + 1, s_repo := R\<rparr>)"
    using tm ok created_fields [OF f] est good_envD(3) [OF E, of "s_tick s" "s_tick s + 1"]
    unfolding timely_def by (auto split: if_splits intro: order_trans)
  then show "inside E {#} (job_id sub) (s\<lparr>s_tick := s_tick s + 1, s_repo := R\<rparr>)"
    using inv ok by (simp add: inside_def sched_inv_def base_def placed_def books_def)
qed

section \<open>The handlers keep the invariant\<close>

text \<open>Closing a handler: the job it worked on is back in its place.\<close>

lemma close_inside: "inside E {#} i s \<Longrightarrow> placed s i \<Longrightarrow> sched_inv E s"
  by (simp add: sched_inv_inside [where i = i])

lemma open_inside: "sched_inv E s \<Longrightarrow> inside E {#} i s"
  by (simp add: sched_inv_inside [where i = i])

lemma submit_ok:
  assumes E: "good_env E" and inv: "sched_inv E s" and est: "\<forall>e. resource_estimate sub = Some e \<longrightarrow> valid_estimate e"
  shows "wp (submit E sub) (\<lambda>r s'. sched_inv E s' \<and> repo_get (s_repo s') (job_id sub) = Some r \<and> j_status r = QUEUED)
    (\<lambda>e s'. sched_inv E s' \<and> s_repo s' = s_repo s \<and> s_queues s' = s_queues s) s"
proof (cases "sched_queue (job_queue sub)")
  case (Inl e)
  with inv show ?thesis by (simp add: submit_def)
next
  case (Inr q)
  let ?i = "job_id sub" and ?s1 = "s\<lparr>s_tick := s_tick s + 1\<rparr>"
  show ?thesis
  proof (cases "ensure_capacity q (s_queues s)")
    case (Inl e)
    with inv Inr show ?thesis by (simp add: submit_def wp_check_capacity)
  next
    case cap: (Inr u)
    obtain res R where c: "repo_create sub (Finite (time_at E (s_tick s))) (s_repo s) = (res, R)" by fastforce
    show ?thesis
    proof (cases res)
      case (Inl e)
      have "repo_ok (s_repo s)" using inv by (simp add: sched_inv_def base_def)
      from repo_fails(3) [OF this] c Inl have "R = s_repo s" by simp
      with c Inl cap \<open>sched_queue (job_queue sub) = Inr q\<close> sched_inv_tick [OF E inv] show ?thesis
        by (simp add: submit_def wp_check_capacity wp_sched_now [OF E] wp_on)
    next
      case r: (Inr r)
      note new = created_inside [OF E inv c [unfolded r] est]
      have tid: "trimmed_identifier 160 ?i"
        using inside_id [OF new(1), of r] new(2) valid_job_id [of r] by simp
      have "wp (enqueue_job ?i q r) (\<lambda>_. wp (publish_event E ''job.created''
           [(''status'', jstr (status_value (j_status r))), (''attempt'', JInt (attempt r))] ?i)
           (\<lambda>_. wp (publish_event E ''job.queued'' [(''queue'', jstr (job_queue r)), (''priority'', JInt (user_priority r))] ?i)
             (\<lambda>_ s'. sched_inv E (s'\<lparr>s_wake := True\<rparr>) \<and> repo_get (s_repo s') ?i = Some r \<and> j_status r = QUEUED) Er) Er) Er
         (?s1\<lparr>s_repo := R\<rparr>)" for Er
      proof (rule enqueue_job_wp [OF new(1)], goal_cases)
        case (4 q')
        show ?case
        proof (rule publish_wp [OF E 4(1) job_event_names(1) _ tid], goal_cases)
          case (2 ev s2)
          note s2 = this
          show ?case
          proof (rule publish_wp [OF E s2(1) job_event_names(2) _ tid], goal_cases)
            case (2 ev s3)
            have "placed s3 ?i"
              using new s2 2 4(2) by (simp add: placed_def placed_view_def quietD [OF s2(2)] quietD [OF 2(2)])
            with 2(1) have "sched_inv E (s3\<lparr>s_wake := True\<rparr>)" by (intro close_inside [of _ ?i]) simp_all
            with new(2,3) s2(3) 2(3) show ?case by simp
          qed simp
        qed simp
      qed (use new cap in simp_all)
      with new(4) c r cap Inr show ?thesis
        by (simp add: submit_def wp_check_capacity wp_sched_now [OF E] wp_on)
    qed
  qed
qed

lemma retry_fields:
  assumes R: "repo_ok R" and t: "repo_retry i (Finite t) expected er R = (Inr r, R')"
  shows "\<exists>cur. repo_get R i = Some cur \<and> j_status cur = expected \<and> expected \<in> {FAILED, PREPARING, RUNNING}
    \<and> repo_ok R' \<and> repo_get R' = (repo_get R)(i \<mapsto> r) \<and> j_status r = QUEUED \<and> updated_at r = t
    \<and> job_spec.truncate r = job_spec.truncate cur"
proof -
  from repo_retry_ok [OF R t] obtain cur where cur: "repo_get R i = Some cur" "j_status cur = expected"
      "expected \<in> {FAILED, PREPARING, RUNNING}" "repo_ok R'" "repo_get R' = (repo_get R)(i \<mapsto> r)" "j_status r = QUEUED" by blast
  have val: "valid_job cur" by (rule repo_okD [OF R cur(1)])
  from t cur(1) obtain r0 where r0: "retry_record cur expected t er = Inr r0" "repo_store i r0 R = (Inr r, R')"
    by (auto simp: repo_retry_def finite_non_negative_def split: sum.splits if_splits)
  then have "r0 = r" by (auto simp: repo_store_def Let_def split: option.splits)
  with r0(1) have "finish (Frozen JNull) er (requeued cur t) = Inr r"
    unfolding retry_record_eq [OF val] by (auto split: if_splits)
  from finish_fields [OF this] obtain a b where "r = (requeued cur t)\<lparr>j_result := a, j_error := b\<rparr>" by blast
  then have "updated_at r = t \<and> job_spec.truncate r = job_spec.truncate cur"
    by (simp add: requeued_def job_spec.truncate_def)
  with cur show ?thesis by blast
qed

lemma retry_total:
  assumes R: "repo_ok R" and cur: "repo_get R i = Some cur" "j_status cur = expected" "expected \<in> {FAILED, PREPARING, RUNNING}"
    and n: "attempt cur + 1 < max_attempts cur" and t: "updated_at cur \<le> t" and w: "is_object w"
  shows "\<exists>r R'. repo_retry i (Finite t) expected (Frozen w) R = (Inr r, R')"
proof -
  have val: "valid_job cur" by (rule repo_okD [OF R cur(1)])
  then have t0: "0 \<le> t" using t by (auto simp: valid_job_iff lifetime_ok_def)
  have "w \<noteq> JNull" using w by auto
  then have fin: "finish (Frozen JNull) (Frozen w) (requeued cur t) = Inr ((requeued cur t)\<lparr>j_result := JNull, j_error := Some w\<rparr>)"
    using w by (simp add: finish_def freeze_error_def)
  have "retry_record cur expected t (Frozen w) = finish (Frozen JNull) (Frozen w) (requeued cur t)"
    using cur(3) n t by (subst retry_record_eq [OF val]) (simp add: cur(2) leD)
  with fin obtain r where tr: "retry_record cur expected t (Frozen w) = Inr r" by metis
  note st = retry_record_step [OF val tr]
  obtain R' where "repo_store i r R = (Inr r, R')" by (rule repo_store_ok [OF R cur(1) st(2,1)])
  then show ?thesis using t0 cur(1) tr by (simp add: repo_retry_def finite_non_negative_def)
qed

text \<open>The tail of both retries, from the repository's answer on.\<close>

lemma requeue_wp:
  assumes E: "good_env E" and s: "inside E {#} i s" and t: "repo_retry i (Finite (time_at E (s_tick s))) expected er (s_repo s) = (Inr r, R)"
    and new: "\<not> contains i (s_queues s)" and q: "sched_queue (job_queue r) = Inr q" "ensure_capacity q (s_queues s) = Inr ()"
    and Q: "\<And>s'. inside E {#} i s' \<Longrightarrow> repo_get (s_repo s') = (repo_get (s_repo s))(i \<mapsto> r) \<Longrightarrow> j_status r = QUEUED \<Longrightarrow>
      contains i (s_queues s') \<Longrightarrow> s_active s' = s_active s \<Longrightarrow> s_tokens s' = s_tokens s \<Longrightarrow> s_reservations s' = s_reservations s \<Longrightarrow>
      Q () s'"
  shows "wp (seq (enqueue_job i q r) (\<lambda>_. seq (publish_event E ''job.queued'' kvs i) (\<lambda>_. wake))) Q Er
    (s\<lparr>s_tick := s_tick s + 1, s_repo := R\<rparr>)"
proof -
  let ?s = "s\<lparr>s_tick := s_tick s + 1, s_repo := R\<rparr>" and ?t = "time_at E (s_tick s)"
  from s have R0: "repo_ok (s_repo s)" and tm: "timely E s" by (simp_all add: inside_def base_def)
  obtain cur where cur: "repo_get (s_repo s) i = Some cur" "repo_ok R" "repo_get R = (repo_get (s_repo s))(i \<mapsto> r)"
      "j_status r = QUEUED" "updated_at r = ?t" "job_spec.truncate r = job_spec.truncate cur"
    using retry_fields [OF R0 t] by blast
  have "resource_estimate r = resource_estimate cur" using cur(6) by (simp add: job_spec.truncate_def)
  then have "timely E ?s"
    using tm cur good_envD(3) [OF E, of "s_tick s" "s_tick s + 1"]
    unfolding timely_def by (auto split: if_splits intro: order_trans)
  then have ins: "inside E {#} i ?s"
    using s cur by (simp add: inside_def base_def placed_def books_def)
  have get: "repo_get (s_repo ?s) i = Some r" using cur by simp
  have tid: "trimmed_identifier 160 i" using inside_id [OF ins get] valid_job_id by auto
  have "wp (enqueue_job i q r) (\<lambda>_. wp (publish_event E ''job.queued'' kvs i) (\<lambda>_ s. Q () (s\<lparr>s_wake := True\<rparr>)) Er) Er ?s"
  proof (rule enqueue_job_wp [OF ins get], goal_cases)
    case (3 q')
    show ?case
    proof (rule publish_wp [OF E 3(1) job_event_names(2) _ tid], goal_cases)
      case (2 ev s2)
      then show ?case using cur(3,4) 3(2) by (intro Q) (simp_all add: quietD [OF 2(2)])
    qed simp
  qed (use new q in simp_all)
  then show ?thesis by simp
qed

lemma retry_job_ok:
  assumes E: "good_env E" and inv: "sched_inv E s"
  shows "wp (retry_job E i) (\<lambda>r s'. sched_inv E s' \<and> repo_get (s_repo s') i = Some r \<and> j_status r = QUEUED)
    (\<lambda>e s'. sched_inv E s' \<and> s_repo s' = s_repo s \<and> s_queues s' = s_queues s) s"
proof -
  let ?R = "\<lambda>(e::sched_error) s'. sched_inv E s' \<and> s_repo s' = s_repo s \<and> s_queues s' = s_queues s"
  obtain res R where c: "repo_retry i (Finite (time_at E (s_tick s))) FAILED no_value (s_repo s) = (res, R)" by fastforce
  have R0: "repo_ok (s_repo s)" using inv by (simp add: sched_inv_def base_def)
  show ?thesis
  proof (cases "repo_get (s_repo s) i")
    case None
    then have "res = Inl (JobNotFound i) \<and> R = s_repo s"
      using c good_envD(2) [OF E, of "s_tick s"] by (simp add: repo_retry_def finite_non_negative_def not_less split: if_splits)
    with None c sched_inv_tick [OF E inv] show ?thesis
      by (simp add: retry_job_def wp_sched_now [OF E] wp_on)
  next
    case (Some cur)
    show ?thesis
    proof (cases "sched_queue (job_queue cur)")
      case (Inl e)
      with Some inv show ?thesis by (simp add: retry_job_def)
    next
      case q: (Inr q)
      show ?thesis
      proof (cases "ensure_capacity q (s_queues s)")
        case (Inl e)
        with q Some inv show ?thesis by (simp add: retry_job_def wp_check_capacity)
      next
        case cap: (Inr u)
        show ?thesis
        proof (cases res)
          case (Inl e)
          with c repo_fails(2) [OF R0] have "R = s_repo s" by blast
          with Inl c cap q Some sched_inv_tick [OF E inv] show ?thesis
            by (simp add: retry_job_def wp_check_capacity wp_sched_now [OF E] wp_on)
        next
          case (Inr r)
          from retry_fields [OF R0 c [unfolded Inr]] Some have f: "j_status cur = FAILED" "repo_get R = (repo_get (s_repo s))(i \<mapsto> r)"
              "j_status r = QUEUED" "job_queue r = job_queue cur"
            by (auto simp: job_spec.truncate_def)
          have pl: "placed s i" using inv by (simp add: sched_inv_def)
          then have away: "\<not> contains i (s_queues s)" "map_of (s_active s) i = None" "map_of (s_tokens s) i = None"
              "map_of (s_reservations s) i = None"
            using Some f(1) by (auto simp: placed_def placed_view_def split: option.splits phase.splits)
          have "wp (seq (enqueue_job i q r) (\<lambda>_. seq (publish_event E ''job.queued'' [(''queue'', jstr (job_queue r)), (''attempt'', JInt (attempt r)),
              (''manual_retry'', JBool True)] i) (\<lambda>_. wake))) (\<lambda>_ s'. sched_inv E s' \<and> repo_get (s_repo s') i = Some r \<and> j_status r = QUEUED) ?R
              (s\<lparr>s_tick := s_tick s + 1, s_repo := R\<rparr>)"
            using q cap f(4) away
            by (intro requeue_wp [OF E open_inside [OF inv] c [unfolded Inr]])
              (auto intro!: close_inside [of _ i] simp: placed_def placed_view_def)
          with Inr c cap q Some f show ?thesis
            by (simp add: retry_job_def wp_check_capacity wp_sched_now [OF E] wp_on)
        qed
      qed
    qed
  qed
qed

section \<open>The end of a task\<close>

text \<open>What releasing a reservation leaves alone.\<close>

definition kept :: "sched \<Rightarrow> sched \<Rightarrow> bool" where
  "kept s s' = (s_repo s' = s_repo s \<and> s_queues s' = s_queues s \<and> s_active s' = s_active s \<and> s_tokens s' = s_tokens s
     \<and> s_policy s' = s_policy s \<and> s_max_concurrency s' = s_max_concurrency s \<and> s_cache s' = s_cache s)"

lemma keptD:
  assumes "kept s s'"
  shows "s_repo s' = s_repo s" "s_queues s' = s_queues s" "s_active s' = s_active s" "s_tokens s' = s_tokens s"
    "s_policy s' = s_policy s" "s_max_concurrency s' = s_max_concurrency s" "s_cache s' = s_cache s"
  using assms by (simp_all add: kept_def)

lemma release_wp:
  assumes E: "good_env E" and s: "inside E {#} i s"
    and Q: "\<And>s'. inside E {#} i s' \<Longrightarrow> map_of (s_reservations s') i = None \<Longrightarrow> kept s s' \<Longrightarrow> Q () s'"
  shows "wp (release_reservation E i) Q Er s"
proof (cases "map_of (s_reservations s) i")
  case None
  then have "Q () s" by (intro Q [OF s]) (simp_all add: kept_def)
  with None show ?thesis by (simp add: release_reservation_def)
next
  case (Some v)
  from s have b: "binv (s_broker s)" and wf: "wf_dict (s_reservations s)"
      and bk: "mset (dvalues (b_reservations (s_broker s))) = mset (dvalues (s_reservations s))"
    by (simp_all add: inside_def base_def books_def)
  have wfb: "wf_dict (b_reservations (s_broker s))" using b by (simp add: binv_def)
  have "v \<in> set (dvalues (s_reservations s))" using map_of_SomeD [OF Some] by force
  then have "v \<in> set (dvalues (b_reservations (s_broker s)))" using bk by (metis set_mset_mset)
  then have v: "map_of (b_reservations (s_broker s)) (r_id v) = Some v"
    using b wfb by (auto simp: binv_def map_of_Some_iff)
  obtain br where br: "release (en_monotonic E (s_tick s)) v (s_broker s) = (Inr True, br)" "binv br"
      "b_reservations br = AList.delete (r_id v) (b_reservations (s_broker s))"
    by (rule release_ok [OF b v refl])
  let ?s = "s\<lparr>s_reservations := AList.delete i (s_reservations s), s_tick := s_tick s + 1, s_broker := br\<rparr>"
  have "add_mset v (mset (dvalues (b_reservations br))) = add_mset v (mset (dvalues (AList.delete i (s_reservations s))))"
    using mset_dvalues_delete [OF wfb v] mset_dvalues_delete [OF wf Some] bk br(3) by simp
  then have "books {#} ?s" by (simp add: books_def)
  moreover have "timely E ?s" using s timely_tick [OF E, of s ?s] by (simp add: inside_def base_def)
  ultimately have "inside E {#} i ?s"
    using s br(2) wf by (auto simp: inside_def base_def placed_def map_of_delete intro: wf_dict_delete)
  then have "Q () ?s" by (rule Q) (simp_all add: map_of_delete kept_def)
  then show ?thesis by (simp add: release_reservation_def Some wp_on br(1))
qed

lemma length_delete_le: "length (AList.delete k d) \<le> length d"
  by (simp add: AList.delete_eq)

text \<open>A job whose task ends must be somewhere else by then.\<close>

definition settled :: "string \<Rightarrow> sched \<Rightarrow> bool" where
  "settled i s = (\<exists>r. repo_get (s_repo s) i = Some r \<and> j_status r \<notin> {PREPARING, RUNNING}
     \<and> (contains i (s_queues s) \<longleftrightarrow> j_status r = QUEUED))"

lemma end_task_wp:
  assumes E: "good_env E" and s: "inside E {#} i s" and "settled i s"
  shows "wp (end_task E i) (\<lambda>_ s'. sched_inv E s' \<and> s_repo s' = s_repo s \<and> map_of (s_active s') i = None) never s"
proof -
  have "wp (release_reservation E i) (\<lambda>_ s. (let s' = s\<lparr>s_tokens := AList.delete i (s_tokens s), s_active := AList.delete i (s_active s), s_wake := True\<rparr>
      in sched_inv E s' \<and> s_repo s' = s_repo s0 \<and> map_of (s_active s') i = None)) never s" if "s0 = s" for s0
  proof (rule release_wp [OF E s])
    fix s1 assume s1: "inside E {#} i s1" "map_of (s_reservations s1) i = None" "kept s s1"
    let ?s = "s1\<lparr>s_tokens := AList.delete i (s_tokens s1), s_active := AList.delete i (s_active s1), s_wake := True\<rparr>"
    have "inside E {#} i ?s"
      using s1(1) length_delete_le [of i "s_active s1"]
      by (auto simp: inside_def base_def placed_def books_def timely_def map_of_delete intro: wf_dict_delete order_trans)
    moreover have "placed ?s i"
      using assms(3) s1(2) by (auto simp: settled_def placed_def placed_view_def map_of_delete keptD [OF s1(3)])
    ultimately show "let s' = ?s in sched_inv E s' \<and> s_repo s' = s_repo s0 \<and> map_of (s_active s') i = None"
      using that by (auto intro: close_inside simp: map_of_delete keptD [OF s1(3)])
  qed
  from this [OF refl] show ?thesis
    by (simp add: end_task_def wp_finally_do Let_def)
qed

section \<open>The stretches of a task\<close>

text \<open>What the body of a stretch leaves for its end.\<close>

definition after :: "environment \<Rightarrow> string \<Rightarrow> phase option \<Rightarrow> sched \<Rightarrow> bool" where
  "after E i x s = (inside E {#} i s \<and> map_of (s_active s) i \<noteq> None \<and>
     (case x of None \<Rightarrow> settled i s | Some ph \<Rightarrow> placed (s\<lparr>s_active := AList.update i ph (s_active s)\<rparr>) i))"

lemma length_update_present: "map_of d i \<noteq> None \<Longrightarrow> length (AList.update i v d) = length d"
  by (induction d) auto

lemma run_segment_wp:
  assumes E: "good_env E" and b: "wp body (after E i) never s"
  shows "wp (run_segment E i body) (\<lambda>_ s'. sched_inv E s') never s"
  unfolding wp_run_segment
proof (rule wp_mono [OF b])
  fix x t assume a: "after E i x t"
  show "case x of None \<Rightarrow> wp (end_task E i) (\<lambda>_. sched_inv E) never t
    | Some ph \<Rightarrow> sched_inv E (t\<lparr>s_active := AList.update i ph (s_active t)\<rparr>)"
  proof (cases x)
    case None
    with a have "wp (end_task E i) (\<lambda>_ s'. sched_inv E s' \<and> s_repo s' = s_repo t \<and> map_of (s_active s') i = None) never t"
      by (intro end_task_wp [OF E]) (simp_all add: after_def)
    then show ?thesis using None by (auto elim: wp_mono)
  next
    case (Some ph)
    with a have "inside E {#} i (t\<lparr>s_active := AList.update i ph (s_active t)\<rparr>)"
      by (auto simp: after_def inside_def base_def placed_def books_def timely_def map_of_update length_update_present intro: wf_dict_update)
    with a Some show ?thesis by (auto simp: after_def intro: close_inside)
  qed
qed simp

lemma inside_token:
  "inside E M i s \<Longrightarrow> inside E M i (s\<lparr>s_tokens := AList.update i t (s_tokens s)\<rparr>)"
  by (auto simp: inside_def base_def placed_def books_def timely_def map_of_update intro: wf_dict_update)

lemma on_token_wp:
  assumes "map_of (s_tokens s) i = Some t"
  shows "wp (on_token i f) Q R s = (case f t of
      (Inr x, t') \<Rightarrow> Q x (s\<lparr>s_tokens := AList.update i t' (s_tokens s)\<rparr>)
    | (Inl e, t') \<Rightarrow> R (SToken e) (s\<lparr>s_tokens := AList.update i t' (s_tokens s)\<rparr>))"
  by (auto simp: wp_def on_token_def assms split: prod.split sum.split)

lemma cancelled_token: "is_cancellation (SToken (CancellationRequested r k p))"
  by (simp add: is_cancellation_def isinstance_exc_def)

lemma is_object_jobject [simp]: "is_object (jobject kvs)"
  by (simp add: is_object_def jobject_def)

lemma is_object_error_payload [simp]: "is_object (error_payload E e)"
  by (simp add: error_payload_def)

text \<open>The job of a running task.\<close>

definition held :: "string \<Rightarrow> job \<Rightarrow> sched \<Rightarrow> bool" where
  "held i r s = (repo_get (s_repo s) i = Some r \<and> j_status r \<in> {PREPARING, RUNNING} \<and> \<not> contains i (s_queues s)
     \<and> map_of (s_active s) i \<noteq> None \<and> map_of (s_tokens s) i \<noteq> None)"

lemma heldD:
  assumes "held i r s"
  shows "repo_get (s_repo s) i = Some r" "\<not> contains i (s_queues s)" "map_of (s_active s) i \<noteq> None"
    "map_of (s_tokens s) i \<noteq> None" "\<not> terminal (j_status r)" "j_status r \<in> {PREPARING, RUNNING}"
  using assms by (auto simp: held_def terminal_def)

lemma after_terminal:
  assumes "held i r s" and "inside E {#} i s'" and "quiet s s'" and "repo_get (s_repo s') i = Some r'" and "terminal (j_status r')"
  shows "after E i None s'"
  using assms heldD [OF assms(1)] by (auto simp: after_def settled_def terminal_def quietD [OF assms(3)])

lemma finish_wp:
  assumes E: "good_env E" and s: "inside E {#} i s" and h: "held i r s" and st: "j_status r = st"
    and t: "target \<in> transitions st" "terminal target"
    and v: "v = JNull \<or> target = COMPLETED" "w = JNull \<or> is_object w \<and> target \<in> {FAILED, CANCELLED}"
  shows "wp (transition E i st target (Frozen v) (Frozen w) extra)
    (\<lambda>r' s'. after E i None s' \<and> j_status r' = target \<and> repo_get (s_repo s') i = Some r'
       \<and> j_result r' = v \<and> j_error r' = (if w = JNull then None else Some w) \<and> s_cache s' = s_cache s) never s"
  by (rule transition_wp [OF E s heldD(1) [OF h] st t(1) v]) (use after_terminal [OF h] t(2) in \<open>auto simp: quiet_def\<close>)

lemma cancel_job_now_wp:
  assumes E: "good_env E" and s: "inside E {#} i s" and h: "held i r s"
  shows "wp (cancel_job_now E i d) (\<lambda>x s'. x = None \<and> after E i x s' \<and> (\<exists>r'. repo_get (s_repo s') i = Some r' \<and> j_status r' = CANCELLED)) never s"
proof -
  have t: "CANCELLED \<in> transitions (j_status r)" using heldD(6) [OF h] by auto
  have "wp (transition E i (j_status r) CANCELLED (Frozen JNull) (Frozen w) [])
      (\<lambda>r' s'. after E i None s' \<and> (\<exists>r'. repo_get (s_repo s') i = Some r' \<and> j_status r' = CANCELLED)) never s"
    if "is_object w" for w
    by (rule wp_mono [OF finish_wp [OF E s h refl t]]) (use that in \<open>auto simp: terminal_def\<close>)
  then show ?thesis
    using heldD(1,5) [OF h] by (simp add: cancel_job_now_def no_value_def)
qed

lemma can_retry_ok:
  assumes "valid_job r"
  obtains b where "can_retry pol r e = Inr b" and "b \<longrightarrow> attempt r + 1 < max_attempts r"
proof -
  have "0 \<le> attempt r" using assms by (simp add: valid_job_iff lifetime_ok_def)
  then show thesis
    using that [of "attempt r + 1 < max_attempts r \<and> attempt r + 1 < rp_max_attempts pol \<and> isinstance_exc (exc_of e) (rp_retryable pol)"]
    by (auto simp: can_retry_def should_retry_def)
qed

lemma delay_ok: "1 \<le> n \<Longrightarrow> \<exists>d. delay_for_retry pol n = Inr d"
  by (auto simp: delay_for_retry_def)

lemma on_exception_wp:
  assumes E: "good_env E" and s: "inside E {#} i s" and h: "held i r s" and run: "j_status r = RUNNING"
  shows "wp (on_exception E i e) (after E i) never s"
proof -
  from inside_id [OF s heldD(1) [OF h]] have val: "valid_job r" and id: "job_id r = i" by auto
  have tid: "trimmed_identifier 160 i" using valid_job_id [OF val] id by simp
  obtain b where b: "can_retry (s_policy s) r e = Inr b" "b \<longrightarrow> attempt r + 1 < max_attempts r"
    by (rule can_retry_ok [OF val])
  show ?thesis
  proof (cases b)
    case False
    have "wp (transition E i RUNNING FAILED (Frozen JNull) (Frozen (error_payload E e)) []) (\<lambda>r'. after E i None) never s"
      by (rule wp_mono [OF finish_wp [OF E s h run]]) (auto simp: terminal_def)
    then show ?thesis
      using heldD(1,5) [OF h] b(1) False run by (simp add: on_exception_def no_value_def)
  next
    case True
    have "0 \<le> attempt r" using val by (simp add: valid_job_iff lifetime_ok_def)
    then obtain d where d: "delay_for_retry (s_policy s) (attempt r + 1) = Inr d"
      using delay_ok [of "attempt r + 1" "s_policy s"] by auto
    have "wp (release_reservation E i) (\<lambda>_. wp (publish_event E ''job.retrying'' kvs i) (\<lambda>_. after E i (Some (Sleeping r e))) never) never s" for kvs
    proof (rule release_wp [OF E s])
      fix s1 assume s1: "inside E {#} i s1" "map_of (s_reservations s1) i = None" "kept s s1"
      show "wp (publish_event E ''job.retrying'' kvs i) (\<lambda>_. after E i (Some (Sleeping r e))) never s1"
      proof (rule publish_wp [OF E s1(1) job_event_names(4) _ tid])
        fix ev s2 assume s2: "inside E {#} i s2" "quiet s1 s2" "s_repo s2 = s_repo s1"
        have "placed (s2\<lparr>s_active := AList.update i (Sleeping r e) (s_active s2)\<rparr>) i"
          using heldD [OF h] s1(2) run True b(2)
          by (simp add: placed_def placed_view_def map_of_update quietD [OF s2(2)] keptD [OF s1(3)] s2(3))
        with s2(1) heldD(3) [OF h] show "after E i (Some (Sleeping r e)) s2"
          by (simp add: after_def quietD [OF s2(2)] keptD [OF s1(3)])
      qed simp
    qed
    then show ?thesis
      using heldD(1,5) [OF h] b(1) True d by (simp add: on_exception_def)
  qed
qed

lemma handle_failure_wp:
  assumes E: "good_env E" and s: "inside E {#} i s" and h: "held i r s" and run: "j_status r = RUNNING"
    and e: "is_cancellation e \<or> is_exception e"
  shows "wp (handle_failure E i e) (after E i) never s"
  using on_exception_wp [OF E s h run] e wp_mono [OF cancel_job_now_wp [OF E s h], of "after E i" never]
  by (auto simp: handle_failure_def)

lemma held_token: "held i r s \<Longrightarrow> held i r (s\<lparr>s_tokens := AList.update i t (s_tokens s)\<rparr>)"
  by (simp add: held_def map_of_update)

lemma held_same:
  assumes "held i r s" and "quiet s s'" and "repo_get (s_repo s') i = Some r'" and "j_status r' \<in> {PREPARING, RUNNING}"
  shows "held i r' s'"
  using assms by (simp add: held_def quietD [OF assms(2)])

lemma checkpoint_cases:
  assumes "checkpoint c None t = (res, t')" and "checkpoint_of c \<noteq> None"
  shows "(ct_reason t = None \<and> res = Inr ()) \<or> (\<exists>why k. ct_reason t = Some why \<and> res = Inl (CancellationRequested why k None))"
  using assms by (auto simp: checkpoint_def split: option.splits)

lemma body_start_wp:
  assumes E: "good_env E" and inv: "sched_inv E s" and ph: "map_of (s_active s) i = Some Starting"
  shows "wp (body_start E i) (after E i) never s"
proof -
  have "placed s i" using inv by (simp add: sched_inv_def)
  then obtain r where r: "held i r s" "j_status r = PREPARING"
    using ph by (auto simp: placed_def placed_view_def held_def split: option.splits)
  have "wp (transition E i PREPARING RUNNING (Frozen JNull) (Frozen JNull) [])
     (\<lambda>r. wp (on_token i (checkpoint ''between_blocks'' None)) (\<lambda>_. after E i (Some (Dispatching r)))
        (\<lambda>e. wp (handle_failure E i e) (after E i) never)) (\<lambda>e. wp (handle_failure E i e) (after E i) never) s"
  proof (rule transition_wp [OF E open_inside [OF inv] heldD(1) [OF r(1)] r(2)])
    fix r1 s1
    assume s1: "inside E {#} i s1" "quiet s s1" "repo_get (s_repo s1) = (repo_get (s_repo s))(i \<mapsto> r1)" "j_status r1 = RUNNING"
    from s1 have h1: "held i r1 s1" by (intro held_same [OF r(1)]) simp_all
    then obtain t where t: "map_of (s_tokens s1) i = Some t" using heldD(4) by blast
    obtain res t' where c: "checkpoint ''between_blocks'' None t = (res, t')" by fastforce
    let ?s = "s1\<lparr>s_tokens := AList.update i t' (s_tokens s1)\<rparr>"
    have ins: "inside E {#} i ?s" "held i r1 ?s" using inside_token [OF s1(1)] held_token [OF h1] by auto
    have known: "checkpoint_of ''between_blocks'' \<noteq> None" by (simp add: checkpoint_of_def)
    show "wp (on_token i (checkpoint ''between_blocks'' None)) (\<lambda>_. after E i (Some (Dispatching r1)))
        (\<lambda>e. wp (handle_failure E i e) (after E i) never) s1"
      using checkpoint_cases [OF c known]
    proof
      assume "ct_reason t = None \<and> res = Inr ()"
      moreover have "after E i (Some (Dispatching r1)) ?s"
        using ins heldD [OF ins(2)] s1(4) by (simp add: after_def placed_def placed_view_def map_of_update)
      ultimately show ?thesis by (simp add: on_token_wp [OF t] c)
    next
      assume "\<exists>why k. ct_reason t = Some why \<and> res = Inl (CancellationRequested why k None)"
      then show ?thesis
        using handle_failure_wp [OF E ins s1(4)] cancelled_token by (auto simp: on_token_wp [OF t] c)
    qed
  qed simp_all
  then show ?thesis by (simp add: body_start_def no_value_def)
qed

lemma store_result_wp:
  assumes E: "good_env E" and s: "inside E {#} i s" and h: "held i r s"
    and Q: "\<And>s'. inside E {#} i s' \<Longrightarrow> held i r s' \<Longrightarrow> s_repo s' = s_repo s \<Longrightarrow> Q () s'"
  shows "wp (store_result E i r' res) Q Er s"
proof -
  have Qs: "Q () s" by (rule Q [OF s h refl])
  have tid: "trimmed_identifier 160 i" using inside_id [OF s heldD(1) [OF h]] valid_job_id by auto
  have "wp (catch (seq (tick (en_cache_clock E)) (\<lambda>t. seq (on_cache (cache_put t k (dr_raw res) (dr_size_bytes res) (dr_ttl_seconds res)))
      (\<lambda>_. ret ()))) (\<lambda>e. seq (publish_event E ''cache.write_failed'' (kvs e) i) (\<lambda>_. ret ()))) Q Er s" for k kvs
  proof -
    let ?c = "cache_put (en_cache_clock E (s_tick s)) k (dr_raw res) (dr_size_bytes res) (dr_ttl_seconds res) (s_cache s)"
    obtain x c where c: "?c = (x, c)" by fastforce
    let ?s = "s\<lparr>s_tick := s_tick s + 1, s_cache := c\<rparr>"
    have ins: "inside E {#} i ?s" using inside_tick [OF E s] by simp
    have hs: "held i r ?s" using h by (simp add: held_def)
    show ?thesis
    proof (cases x)
      case (Inr a)
      with c show ?thesis using Q [OF ins hs] by (simp add: wp_on)
    next
      case (Inl e)
      have "wp (publish_event E ''cache.write_failed'' (kvs (SCache e)) i) Q' Er ?s"
        if "\<And>ev s'. inside E {#} i s' \<Longrightarrow> quiet ?s s' \<Longrightarrow> s_repo s' = s_repo ?s \<Longrightarrow> Q' ev s'" for Q'
        by (rule publish_wp [OF E ins job_event_names(6) _ tid that]) simp
      then have "wp (publish_event E ''cache.write_failed'' (kvs (SCache e)) i) (\<lambda>_. Q ()) Er ?s"
        using hs Q by (auto simp: held_def quiet_def)
      with Inl c show ?thesis by (simp add: wp_on)
    qed
  qed
  with Qs show ?thesis by (simp add: store_result_def split: option.split)
qed

text \<open>What a dispatcher may do: return, or raise an \<open>Exception\<close> or a cancellation.\<close>

definition civil :: "dispatch_outcome \<Rightarrow> bool" where
  "civil out = (case out of Raised e \<Rightarrow> is_cancellation e \<or> is_exception e | _ \<Rightarrow> True)"

lemma held_dispatching:
  assumes "sched_inv E s" and "map_of (s_active s) i = Some (Dispatching r)"
  shows "held i r s \<and> j_status r = RUNNING"
proof -
  have "placed s i" using assms(1) by (simp add: sched_inv_def)
  with assms(2) show ?thesis by (auto simp: placed_def placed_view_def held_def split: option.splits)
qed

lemma body_result_wp:
  assumes E: "good_env E" and inv: "sched_inv E s" and ph: "map_of (s_active s) i = Some (Dispatching r)" and civ: "civil out"
  shows "wp (body_result E i r out) (after E i) never s"
proof -
  from held_dispatching [OF inv ph] have r: "held i r s" "j_status r = RUNNING" by auto
  note ins = open_inside [OF inv, of i]
  show ?thesis
  proof (cases out)
    case (Raised e)
    with civ handle_failure_wp [OF E ins r] show ?thesis by (simp add: body_result_def civil_def)
  next
    case NotAResult
    have "is_exception (SType ''dispatcher must return DispatchResult'')"
      by (simp add: is_exception_def isinstance_exc_def exc_def)
    with NotAResult handle_failure_wp [OF E ins r] show ?thesis by (simp add: body_result_def)
  next
    case (Returned res)
    obtain t where t: "map_of (s_tokens s) i = Some t" using heldD(4) [OF r(1)] by blast
    obtain x t' where c: "checkpoint ''before_save'' None t = (x, t')" by fastforce
    let ?s = "s\<lparr>s_tokens := AList.update i t' (s_tokens s)\<rparr>"
    have i2: "inside E {#} i ?s" "held i r ?s" using inside_token [OF ins] held_token [OF r(1)] by auto
    have known: "checkpoint_of ''before_save'' \<noteq> None" by (simp add: checkpoint_of_def)
    from checkpoint_cases [OF c known] show ?thesis
    proof
      assume ok: "ct_reason t = None \<and> x = Inr ()"
      have "wp (store_result E i r res) (\<lambda>_. wp (transition E i RUNNING COMPLETED (Frozen (dr_value res)) (Frozen JNull)
          [(''cache_hit'', JBool False)]) (\<lambda>_. after E i None) (\<lambda>e. wp (handle_failure E i e) (after E i) never))
          (\<lambda>e. wp (handle_failure E i e) (after E i) never) ?s"
      proof (rule store_result_wp [OF E i2])
        fix s2 assume s2: "inside E {#} i s2" "held i r s2"
        show "wp (transition E i RUNNING COMPLETED (Frozen (dr_value res)) (Frozen JNull) [(''cache_hit'', JBool False)])
            (\<lambda>_. after E i None) (\<lambda>e. wp (handle_failure E i e) (after E i) never) s2"
          by (rule wp_mono [OF finish_wp [OF E s2 r(2)]]) (auto simp: terminal_def)
      qed
      with ok Returned show ?thesis by (simp add: body_result_def on_token_wp [OF t] c no_value_def)
    next
      assume "\<exists>why k. ct_reason t = Some why \<and> x = Inl (CancellationRequested why k None)"
      with Returned handle_failure_wp [OF E i2 r(2)] cancelled_token show ?thesis
        by (auto simp: body_result_def on_token_wp [OF t] c)
    qed
  qed
qed

lemma sched_queue_ok:
  assumes "valid_job r"
  shows "\<exists>q. sched_queue (job_queue r) = Inr q"
proof -
  have "job_queue r \<in> queue_names" using assms by (simp add: valid_job_iff spec_ok_def identity_checks_def)
  then show ?thesis by (auto simp: queue_names_def sched_queue_def queue_of_def all_queues_def)
qed

lemma truncate_queue: "job_spec.truncate r = job_spec.truncate cur \<Longrightarrow> job_queue r = job_queue cur"
  by (simp add: job_spec.truncate_def)

lemma requeue_job_wp:
  assumes E: "good_env E" and s: "inside E {#} i s" and h: "held i r s" and run: "j_status r = RUNNING"
    and n: "attempt r + 1 < max_attempts r"
  shows "wp (requeue_job E i r e) (after E i) never s"
proof -
  from inside_id [OF s heldD(1) [OF h]] have val: "valid_job r" by simp
  obtain q where q: "sched_queue (job_queue r) = Inr q" using sched_queue_ok [OF val] by blast
  show ?thesis
  proof (cases "ensure_capacity q (s_queues s)")
    case (Inl err)
    have "wp (transition E i RUNNING FAILED (Frozen JNull) (Frozen (error_payload E (SBackpressure err)))
        [(''phase'', jstr ''retry_backpressure'')]) (\<lambda>_. after E i None) never s"
      by (rule wp_mono [OF finish_wp [OF E s h run]]) (auto simp: terminal_def)
    with Inl q run show ?thesis by (simp add: requeue_job_def wp_check_capacity no_value_def)
  next
    case (Inr u)
    from s have R0: "repo_ok (s_repo s)" and tm: "updated_at r \<le> time_at E (s_tick s)"
      using heldD(1) [OF h] by (auto simp: inside_def base_def timely_def)
    obtain r1 R where t: "repo_retry i (Finite (time_at E (s_tick s))) RUNNING (Frozen (error_payload E e)) (s_repo s) = (Inr r1, R)"
      using retry_total [OF R0 heldD(1) [OF h] run _ n tm, of "error_payload E e"] by auto
    have "job_queue r1 = job_queue r"
      using retry_fields [OF R0 t] heldD(1) [OF h] truncate_queue by auto
    with q have q1: "sched_queue (job_queue r1) = Inr q" by simp
    have "wp (seq (enqueue_job i q r1) (\<lambda>_. seq (publish_event E ''job.queued'' kvs i) (\<lambda>_. wake)))
        (\<lambda>_. after E i None) never (s\<lparr>s_tick := s_tick s + 1, s_repo := R\<rparr>)" for kvs
      by (rule requeue_wp [OF E s t heldD(2) [OF h] q1]) (use heldD(3) [OF h] Inr in \<open>auto simp: after_def settled_def\<close>)
    with Inr q q1 run t show ?thesis
      by (simp add: requeue_job_def wp_check_capacity wp_sched_now [OF E] wp_on)
  qed
qed

lemma cancel_ok:
  assumes "reason \<noteq> []" and "reason = py_strip reason"
  obtains b t' where "cancel gone reason t = (Inr b, t')" and "ct_set t'"
proof -
  have "fst (cancel gone reason t) = Inr (\<not> ct_set t) \<and> ct_set (snd (cancel gone reason t))"
    using assms by (simp add: cancel_def)
  with that show thesis by (metis prod.collapse)
qed

lemma body_wake_wp:
  assumes E: "good_env E" and inv: "sched_inv E s" and ph: "map_of (s_active s) i = Some (Sleeping r e)"
  shows "wp (body_wake E i r e interrupted) (after E i) never s"
proof -
  have "placed s i" using inv by (simp add: sched_inv_def)
  with ph have r: "held i r s" "j_status r = RUNNING" "attempt r + 1 < max_attempts r"
    by (auto simp: placed_def placed_view_def held_def split: option.splits)
  note ins = open_inside [OF inv, of i]
  have go: "wp (if token_cancelled i t then cancel_job_now E i [] else requeue_job E i r e) (after E i) never t"
    if "inside E {#} i t" "held i r t" for t
    using wp_mono [OF cancel_job_now_wp [OF E that], of "after E i" never] requeue_job_wp [OF E that r(2,3)] by auto
  show ?thesis
  proof (cases interrupted)
    case True
    obtain t where t: "map_of (s_tokens s) i = Some t" using heldD(4) [OF r(1)] by blast
    obtain b t' where c: "cancel (en_gone E) ''scheduler task cancelled'' t = (Inr b, t')"
      by (rule cancel_ok [of "''scheduler task cancelled''"]) (simp_all add: py_strip_def py_isspace_def)
    with True go [OF inside_token [OF ins] held_token [OF r(1)]] show ?thesis
      by (simp add: body_wake_def on_token_wp [OF t])
  qed (use go [OF ins r(1)] in \<open>simp add: body_wake_def\<close>)
qed

section \<open>Cancelling\<close>

lemma remove_ids:
  assumes "qinv q"
  shows "qinv (snd (remove i q))" and "contains k (snd (remove i q)) \<longleftrightarrow> k \<noteq> i \<and> contains k q"
  using scheduler_queues.drop_ok [OF assms prod.collapse [symmetric], where i = i] by (auto simp: contains_def)

lemma cancel_job_ok:
  assumes E: "good_env E" and inv: "sched_inv E s"
  shows "wp (cancel_job E dc i reason) (\<lambda>b s'. sched_inv E s') (\<lambda>e s'. sched_inv E s' \<and> (e = SValue ''reason'' \<or> dc = Some e)) s"
proof (cases "reason \<noteq> [] \<and> reason = py_strip reason")
  case False
  with inv show ?thesis by (auto simp: cancel_job_def)
next
  case True
  note ins = open_inside [OF inv, of i]
  have pl: "placed s i" using inv by (simp add: sched_inv_def)
  show ?thesis
  proof (cases "repo_get (s_repo s) i")
    case None
    with True inv show ?thesis by (simp add: cancel_job_def)
  next
    case (Some r)
    consider "terminal (j_status r)" | "j_status r = QUEUED" | "\<not> terminal (j_status r)" "j_status r \<noteq> QUEUED" by blast
    then show ?thesis
    proof cases
      case 1
      with True Some inv show ?thesis by (simp add: cancel_job_def)
    next
      case 2
      have qi: "qinv (s_queues s)" using inv by (simp add: sched_inv_def base_def)
      let ?s = "s\<lparr>s_queues := snd (remove i (s_queues s))\<rparr>"
      have ins2: "inside E {#} i ?s"
        using inside_queues [OF ins remove_ids(1) [OF qi]] remove_ids(2) [OF qi] by simp
      have "wp (transition E i QUEUED CANCELLED (Frozen JNull) (Frozen (jobject [(''reason'', jstr reason)])) [])
          (\<lambda>_. sched_inv E) (\<lambda>e s'. sched_inv E s' \<and> (e = SValue ''reason'' \<or> dc = Some e)) ?s"
      proof (rule transition_wp [OF E ins2])
        fix r' s' assume s': "inside E {#} i s'" "quiet ?s s'" "repo_get (s_repo s') = (repo_get (s_repo ?s))(i \<mapsto> r')"
          "j_status r' = CANCELLED"
        have "placed s' i"
          using pl 2 Some s'(3,4) remove_ids(2) [OF qi]
          by (auto simp: placed_def placed_view_def quietD [OF s'(2)] split: option.splits phase.splits)
        with s'(1) show "sched_inv E s'" by (rule close_inside)
      qed (use 2 Some in \<open>simp_all\<close>)
      with 2 True Some show ?thesis by (simp add: cancel_job_def terminal_def no_value_def)
    next
      case 3
      show ?thesis
      proof (cases "map_of (s_tokens s) i")
        case None
        with 3 True Some inv show ?thesis by (simp add: cancel_job_def)
      next
        case t: (Some t)
        obtain b t' where c: "cancel (en_gone E) reason t = (Inr b, t')" using cancel_ok True by metis
        have "placed (s\<lparr>s_tokens := AList.update i t' (s_tokens s)\<rparr>) i"
          using pl t by (auto simp: placed_def placed_view_def map_of_update split: option.splits)
        with inside_token [OF ins] have "sched_inv E (s\<lparr>s_tokens := AList.update i t' (s_tokens s)\<rparr>)"
          by (rule close_inside)
        moreover from this have "sched_inv E (s\<lparr>s_tokens := AList.update i t' (s_tokens s), s_wake := True\<rparr>)"
          by (simp add: sched_inv_inside [where i = i])
        ultimately show ?thesis
          using 3 True Some t by (simp add: cancel_job_def on_token_wp [OF t] c split: option.split)
      qed
    qed
  qed
qed

section \<open>Launching\<close>

text \<open>A job that has just been taken from its queue.\<close>

definition taken :: "string \<Rightarrow> job \<Rightarrow> sched \<Rightarrow> bool" where
  "taken i r s = (repo_get (s_repo s) i = Some r \<and> j_status r = QUEUED \<and> \<not> contains i (s_queues s)
     \<and> map_of (s_active s) i = None \<and> map_of (s_tokens s) i = None \<and> map_of (s_reservations s) i = None
     \<and> length (s_active s) < s_max_concurrency s)"

lemma takenD:
  assumes "taken i r s"
  shows "repo_get (s_repo s) i = Some r" "j_status r = QUEUED"
  using assms by (simp_all add: taken_def)

lemma taken_same:
  assumes "taken i r s" and "s_repo s' = s_repo s" "s_queues s' = s_queues s" "s_active s' = s_active s" "s_tokens s' = s_tokens s"
    "s_reservations s' = s_reservations s" "s_max_concurrency s' = s_max_concurrency s"
  shows "taken i r s'"
  using assms by (simp add: taken_def)

lemma taken_quiet: "taken i r s \<Longrightarrow> quiet s s' \<Longrightarrow> s_repo s' = s_repo s \<Longrightarrow> taken i r s'"
  by (erule taken_same) (simp_all add: quiet_def)

lemma leave_queue:
  assumes "taken i r s" and "inside E {#} i s'" and "quiet s s'" and "repo_get (s_repo s') i = Some r'" and "terminal (j_status r')"
  shows "sched_inv E s'"
  using assms by (intro close_inside [of E i]) (auto simp: taken_def placed_def placed_view_def terminal_def quietD [OF assms(3)])

lemma fail_queued_wp:
  assumes E: "good_env E" and s: "inside E {#} i s" and h: "taken i r s"
  shows "wp (fail_queued E r e ph) (\<lambda>b. sched_inv E) never s"
proof -
  have id: "job_id r = i" using inside_id [OF s takenD(1) [OF h]] by simp
  have "wp (transition E i QUEUED FAILED (Frozen JNull) (Frozen (error_payload E e)) [(''phase'', jstr ph)]) (\<lambda>_. sched_inv E) never s"
    by (rule transition_wp [OF E s takenD [OF h]]) (use leave_queue [OF h] in \<open>auto simp: terminal_def\<close>)
  then show ?thesis by (simp add: fail_queued_def id no_value_def)
qed

lemma complete_from_cache_wp:
  assumes E: "good_env E" and s: "inside E {#} i s" and h: "taken i r s"
  shows "wp (complete_from_cache E r v) (\<lambda>_. sched_inv E) never s"
proof -
  have id: "job_id x = i" if "inside E {#} i t" "repo_get (s_repo t) i = Some x" for x t
    using inside_id [OF that] by simp
  let ?T = "\<lambda>a b w. transition E i a b (Frozen w) (Frozen JNull) [(''cache_hit'', JBool True)]"
  have "wp (?T QUEUED PREPARING JNull) (\<lambda>r1. wp (transition E (job_id r1) PREPARING RUNNING (Frozen JNull) (Frozen JNull) [(''cache_hit'', JBool True)])
      (\<lambda>r2. wp (transition E (job_id r2) RUNNING COMPLETED (Frozen v) (Frozen JNull) [(''cache_hit'', JBool True)]) (\<lambda>_. sched_inv E) never) never) never s"
  proof (rule transition_wp [OF E s takenD [OF h]], goal_cases)
    case (4 r1 s1)
    then have 1: "job_id r1 = i" "repo_get (s_repo s1) i = Some r1" using id by auto
    show ?case unfolding 1
    proof (rule transition_wp [OF E 4(1) 1(2) 4(4)], goal_cases)
      case (4 r2 s2)
      then have 2: "job_id r2 = i" "repo_get (s_repo s2) i = Some r2" using id by auto
      show ?case unfolding 2
      proof (rule transition_wp [OF E 4(1) 2(2) 4(4)], goal_cases)
        case (4 r3 s3)
        with \<open>quiet s1 s2\<close> \<open>quiet s s1\<close> have "quiet s s3" by (blast intro: quiet_trans)
        from leave_queue [OF h 4(1) this] 4(3,4) show ?case by (simp add: terminal_def)
      qed simp_all
    qed simp_all
  qed simp_all
  then show ?thesis using id [OF s takenD(1) [OF h]] by (simp add: complete_from_cache_def no_value_def)
qed

lemma read_cache_wp:
  assumes E: "good_env E" and s: "inside E {#} i s" and h: "taken i r s"
    and Q: "\<And>x s'. inside E {#} i s' \<Longrightarrow> taken i r s' \<Longrightarrow> s_queues s' = s_queues s \<Longrightarrow> Q x s'"
  shows "wp (read_cache E r) Q Er s"
proof (cases "cache_key r")
  case None
  with Q [OF s h] show ?thesis by (simp add: read_cache_def)
next
  case (Some k)
  have id: "job_id r = i" and tid: "trimmed_identifier 160 i"
    using inside_id [OF s takenD(1) [OF h]] valid_job_id [of r] by auto
  obtain x c where c: "cache_get (en_cache_clock E (s_tick s)) k (s_cache s) = (x, c)" by fastforce
  let ?s = "s\<lparr>s_tick := s_tick s + 1, s_cache := c\<rparr>"
  have ins: "inside E {#} i ?s" using inside_tick [OF E s] by simp
  have hs: "taken i r ?s" using h by (simp add: taken_def)
  show ?thesis
  proof (cases x)
    case (Inr a)
    with c Some Q [OF ins hs] show ?thesis by (simp add: read_cache_def wp_on)
  next
    case (Inl e)
    have "wp (publish_event E ''cache.read_failed'' kvs i) (\<lambda>_. Q None) Er ?s" for kvs
      by (rule publish_wp [OF E ins job_event_names(5) _ tid]) (use Q taken_quiet [OF hs] in \<open>auto simp: quiet_def\<close>)
    with c Some Inl id show ?thesis by (simp add: read_cache_def wp_on)
  qed
qed

definition handed :: "reservation option \<Rightarrow> reservation multiset" where
  "handed rv = (case rv of None \<Rightarrow> {#} | Some v \<Rightarrow> {#v#})"

lemma start_job_wp:
  assumes E: "good_env E" and s: "inside E (handed rv) i s" and h: "taken i r s"
  shows "wp (start_job E r rv) (\<lambda>b. sched_inv E) never s"
proof -
  have id: "job_id r = i" using inside_id [OF s takenD(1) [OF h]] by simp
  let ?set = "\<lambda>s. (case rv of None \<Rightarrow> s | Some v \<Rightarrow> s\<lparr>s_reservations := AList.update i v (s_reservations s)\<rparr>)"
  let ?f = "\<lambda>s. (?set (s\<lparr>s_tokens := AList.update i default_token (s_tokens s)\<rparr>))\<lparr>s_active := AList.update i Starting (s_active s)\<rparr>"
  have "wp (transition E i QUEUED PREPARING (Frozen JNull) (Frozen JNull) []) (\<lambda>r1 s'. job_id r1 = i \<and> sched_inv E (?f s')) never s"
  proof (rule transition_wp [OF E s takenD [OF h]], goal_cases)
    case (4 r1 s1)
    note q = quietD [OF 4(2)]
    have jid: "job_id r1 = i" using inside_id [OF 4(1), of r1] 4(3) by simp
    have act: "i \<notin> set (dkeys (s_active s1))" "i \<notin> set (dkeys (s_reservations s1))"
      using h by (simp_all add: taken_def q map_of_eq_None_iff)
    have "books {#} (?f s1)"
      using 4(1) act(2) by (cases rv) (simp_all add: inside_def base_def books_def handed_def update_new)
    moreover have "length (AList.update i Starting (s_active s1)) \<le> s_max_concurrency s1"
      using act(1) h by (simp add: update_new taken_def q)
    ultimately have "inside E {#} i (?f s1)"
      using 4(1) by (cases rv)
        (auto simp: inside_def base_def placed_def timely_def map_of_update intro: wf_dict_update)
    moreover have "placed (?f s1) i"
      using h 4(3,4) by (cases rv) (simp_all add: placed_def placed_view_def map_of_update q taken_def)
    ultimately show ?case using jid by (blast intro: close_inside)
  qed simp_all
  then have "wp (transition E i QUEUED PREPARING (Frozen JNull) (Frozen JNull) []) (\<lambda>r1. wp
     (seq (puts (\<lambda>s. s\<lparr>s_tokens := AList.update (job_id r1) default_token (s_tokens s)\<rparr>)) (\<lambda>_.
      seq (case rv of None \<Rightarrow> ret ()
         | Some v \<Rightarrow> puts (\<lambda>s. s\<lparr>s_reservations := AList.update (job_id r1) v (s_reservations s)\<rparr>)) (\<lambda>_.
      seq (puts (\<lambda>s. s\<lparr>s_active := AList.update (job_id r1) Starting (s_active s)\<rparr>)) (\<lambda>_. ret True)))) (\<lambda>b. sched_inv E) never) never s"
    by (rule wp_mono) (auto split: option.split)
  then show ?thesis by (simp add: start_job_def id no_value_def)
qed

text \<open>The broker's answer: an exception, an admission with its reservation, or a refusal.\<close>

lemma broker_admit_wp:
  assumes E: "good_env E" and s: "inside E {#} i s" and h: "taken i r s" and e: "valid_estimate e"
    and raised: "\<And>err s'. inside E {#} i s' \<Longrightarrow> taken i r s' \<Longrightarrow> s_queues s' = s_queues s \<Longrightarrow> Er err s'"
    and adm: "\<And>d v s'. inside E {#v#} i s' \<Longrightarrow> taken i r s' \<Longrightarrow> d_outcome d = ADMITTED \<Longrightarrow> d_reservation d = Some v \<Longrightarrow> Q d s'"
    and ref: "\<And>d s'. inside E {#} i s' \<Longrightarrow> taken i r s' \<Longrightarrow> s_queues s' = s_queues s \<Longrightarrow> d_outcome d \<noteq> ADMITTED \<Longrightarrow> Q d s'"
  shows "wp (broker_admit E e) Q Er s"
proof -
  let ?now = "en_monotonic E (s_tick s)" and ?u = "en_uuid E (s_tick s)" and ?br = "s_broker s"
  let ?s = "s\<lparr>s_tick := s_tick s + 1\<rparr>"
  have b: "binv ?br" using s by (simp add: inside_def base_def)
  have ins: "inside E {#} i ?s" by (rule inside_tick [OF E s])
  have same: "?s\<lparr>s_broker := ?br\<rparr> = ?s" by simp
  have hs: "taken i r ?s" using h by (simp add: taken_def)
  obtain oc ac se where pol: "admission_policy (b_limits ?br) (free_limits ?br) e = (oc, ac, se)" by (metis prod_cases3)
  note A = admit_correct [OF b e refl, where rid = None and fresh = ?u and now = ?now, unfolded pol, simplified]
  show ?thesis
  proof (cases "oc = ADMITTED \<and> ?u \<in> fst ` set (b_reservations ?br)")
    case True
    with A have "admit ?now ?u e None ?br = (Inl (BReservationExists ?u), ?br)" by simp
    then show ?thesis using raised [OF ins hs] same by (simp add: broker_admit_def wp_on)
  next
    case False
    with A obtain d br where d: "admit ?now ?u e None ?br = (Inr d, br)" "d_outcome d = oc" "binv br"
      "if oc = ADMITTED then d_reservation d = Some (added ?br ?u se) \<and> b_reservations br = b_reservations ?br @ [(?u, added ?br ?u se)]
       else br = ?br"
      by (auto split: if_splits)
    show ?thesis
    proof (cases "oc = ADMITTED")
      case True
      have "inside E {#added ?br ?u se#} i (?s\<lparr>s_broker := br\<rparr>)"
        using ins d(3,4) True by (simp add: inside_def base_def placed_def timely_def books_def)
      moreover have "taken i r (?s\<lparr>s_broker := br\<rparr>)" using h by (simp add: taken_def)
      ultimately show ?thesis using adm d True by (simp add: broker_admit_def wp_on)
    next
      case False
      then show ?thesis using ref [OF ins hs] d same by (simp add: broker_admit_def wp_on)
    qed
  qed
qed

lemma admit_and_start_wp:
  assumes E: "good_env E" and s: "inside E {#} i s" and h: "taken i r s"
    and it: "valid_item it" "qi_job_id it = i" "ensure_capacity (qi_queue it) (s_queues s) = Inr ()"
  shows "wp (admit_and_start E it r) (\<lambda>b. sched_inv E) never s"
proof (cases "resource_estimate r")
  case None
  then show ?thesis using start_job_wp [OF E _ h, of None] s by (simp add: admit_and_start_def handed_def)
next
  case (Some est)
  have id: "job_id r = i" and tid: "trimmed_identifier 160 i"
    using inside_id [OF s takenD(1) [OF h]] valid_job_id [of r] by auto
  have est: "valid_estimate est"
    using s takenD(1) [OF h] Some by (auto simp: inside_def base_def timely_def)
  have "wp (capture (broker_admit E est)) (\<lambda>d. wp (case d of
       Inl e \<Rightarrow> fail_queued E r e ''resource_broker''
     | Inr dec \<Rightarrow>
         if \<not> d_admitted dec
         then if d_outcome dec = DEFERRED
              then seq (on_queues (enqueue it)) (\<lambda>_.
                   seq (publish_event E ''job.deferred'' [(''reason'', jstr ''resources''),
                      (''violations'', JArr (map jstr (d_violations dec)))] (job_id r)) (\<lambda>_. ret False))
              else fail_queued E r (SAdmission (d_violations dec)) ''resource_admission''
         else case d_reservation dec of
           None \<Rightarrow> raise (SRuntime ''admitted resource decision has no reservation'')
         | Some rv \<Rightarrow> start_job E r (Some rv)) (\<lambda>b. sched_inv E) never) never s"
    unfolding wp_simps
  proof (rule broker_admit_wp [OF E s h est], goal_cases)
    case (1 err s')
    then show ?case using fail_queued_wp [OF E] by simp
  next
    case (2 d v s')
    then show ?case using start_job_wp [OF E _ 2(2), of "Some v"] by (simp add: d_admitted_def handed_def)
  next
    case (3 d s1)
    show ?case
    proof (cases "d_outcome d = DEFERRED")
      case False
      with 3 show ?thesis using fail_queued_wp [OF E 3(1,2)] by (simp add: d_admitted_def)
    next
      case True
      have q: "qinv (s_queues s1)" using 3(1) by (simp add: inside_def base_def)
      have nc: "\<not> contains (qi_job_id it) (s_queues s1)" using 3(2) it(2) by (simp add: taken_def)
      obtain q' where q': "enqueue it (s_queues s1) = (Inr (), q')" "qinv q'" "\<And>k. contains k q' \<longleftrightarrow> k = i \<or> contains k (s_queues s1)"
        using enqueue_succeeds [OF q it(1) nc] it(2,3) 3(3) by auto
      let ?s = "s1\<lparr>s_queues := q'\<rparr>"
      have ins: "inside E {#} i ?s" using inside_queues [OF 3(1) q'(2)] q'(3) by auto
      have "wp (publish_event E ''job.deferred'' kvs i) (\<lambda>_. sched_inv E) never ?s" for kvs
      proof (rule publish_wp [OF E ins job_event_names(3) _ tid], goal_cases)
        case (2 ev s2)
        have "placed s2 i"
          using 3(2) q'(3) 2 by (simp add: taken_def placed_def placed_view_def quietD [OF 2(2)])
        with 2(1) show ?case by (rule close_inside)
      qed simp
      with True show ?thesis by (simp add: d_admitted_def wp_on q'(1) id)
    qed
  qed
  then show ?thesis using Some by (simp add: admit_and_start_def)
qed

lemma pop_succeeds:
  assumes inv: "qinv q" and ne: "queue_length q \<noteq> 0"
  shows "\<exists>it q'. pop_next (Finite t) q = (Inr it, q') \<and> qinv q' \<and> valid_item it \<and> contains (qi_job_id it) q
    \<and> (\<forall>k. contains k q' \<longleftrightarrow> k \<noteq> qi_job_id it \<and> contains k q) \<and> ensure_capacity (qi_queue it) q' = Inr ()
    \<and> Suc (queue_length q') = queue_length q"
proof -
  have "q_items q \<noteq> []" using ne by (auto simp: queue_length_def)
  then obtain qd where qd: "map_of (q_items q) (qi_job_id (qd_item qd)) = Some qd"
    "pop_next (Finite t) q = (Inr (qd_item qd),
       count_queue (qi_queue (qd_item qd)) (- 1) (q\<lparr>q_items := AList.delete (qi_job_id (qd_item qd)) (q_items q)\<rparr>))"
    using pop_next_finite [OF inv] by blast
  let ?q = "count_queue (qi_queue (qd_item qd)) (- 1) (q\<lparr>q_items := AList.delete (qi_job_id (qd_item qd)) (q_items q)\<rparr>)"
  note ids = pop_next_ids [OF inv qd(2)]
  have wf: "wf_dict (q_items q)" using inv by (simp add: qinv_def)
  have len: "Suc (length (q_items ?q)) = length (q_items q)" using length_delete [OF wf qd(1)] by simp
  have "valid_item (qd_item qd)" using inv map_of_SomeD [OF qd(1)] by (auto simp: qinv_def)
  moreover have "ensure_capacity (qi_queue (qd_item qd)) ?q = Inr ()"
  proof -
    have "length (q_items q) \<le> q_max_queued q" using inv by (simp add: qinv_def)
    moreover have "q_by_queue q c \<le> int l" if "map_of (q_limits q) c = Some l" for c l
      using inv that by (simp add: qinv_def)
    ultimately show ?thesis using len by (auto simp: ensure_capacity_Inr) force
  qed
  ultimately show ?thesis
    using qd(2) ids len by (auto simp: contains_def queue_length_def)
qed

lemma launch_item_wp:
  assumes E: "good_env E" and s: "inside E {#} (qi_job_id it) s" and h: "taken (qi_job_id it) r s"
    and it: "valid_item it" "ensure_capacity (qi_queue it) (s_queues s) = Inr ()"
  shows "wp (launch_item E it) (\<lambda>b. sched_inv E) never s"
proof -
  have "wp (read_cache E r) (\<lambda>x. wp (case x of Some e \<Rightarrow> seq (complete_from_cache E r (ce_value e)) (\<lambda>_. ret True)
      | None \<Rightarrow> admit_and_start E it r) (\<lambda>b. sched_inv E) never) never s"
  proof (rule read_cache_wp [OF E s h], goal_cases)
    case (1 x s')
    then show ?case
      using complete_from_cache_wp [OF E 1(1,2)] admit_and_start_wp [OF E 1(1,2) it(1) refl] it(2)
      by (simp split: option.split)
  qed
  then show ?thesis using takenD [OF h] by (simp add: launch_item_def)
qed

lemma launch_next_wp:
  assumes E: "good_env E" and inv: "sched_inv E s"
  shows "wp (launch_next E) (\<lambda>b. sched_inv E) never s"
proof (cases "s_max_concurrency s \<le> length (s_active s) \<or> queue_length (s_queues s) = 0")
  case True
  with inv show ?thesis by (simp add: launch_next_def)
next
  case False
  let ?t = "time_at E (s_tick s)"
  have q: "qinv (s_queues s)" using inv by (simp add: sched_inv_def base_def)
  obtain it q' where p: "pop_next (Finite ?t) (s_queues s) = (Inr it, q')" "qinv q'" "valid_item it"
      "contains (qi_job_id it) (s_queues s)" "\<And>k. contains k q' \<longleftrightarrow> k \<noteq> qi_job_id it \<and> contains k (s_queues s)"
      "ensure_capacity (qi_queue it) q' = Inr ()"
    using pop_succeeds [OF q, of ?t] False by blast
  let ?i = "qi_job_id it" and ?s = "s\<lparr>s_tick := s_tick s + 1, s_queues := q'\<rparr>"
  have ins: "inside E {#} ?i ?s"
    by (rule inside_queues [OF inside_tick [OF E open_inside [OF inv]] p(2)]) (simp add: p(5))
  have "placed s ?i" using inv by (simp add: sched_inv_def)
  with p(4) obtain r where "repo_get (s_repo s) ?i = Some r" "j_status r = QUEUED" "map_of (s_active s) ?i = None"
      "map_of (s_tokens s) ?i = None" "map_of (s_reservations s) ?i = None"
    by (auto simp: placed_def placed_view_def split: option.splits phase.splits)
  with False p(5) have "taken ?i r ?s" by (simp add: taken_def not_le)
  from launch_item_wp [OF E ins this p(3)] p(6) have "wp (launch_item E it) (\<lambda>b. sched_inv E) never ?s" by simp
  with False show ?thesis by (simp add: launch_next_def wp_sched_now [OF E] wp_on p(1))
qed

section \<open>Runs of the scheduler\<close>

text \<open>
  Any interleaving of calls from outside with the stretches of the tasks. A submission has passed
  its constructor and its estimate is a constructed value.
\<close>

inductive sched_step :: "environment \<Rightarrow> sched \<Rightarrow> sched \<Rightarrow> bool" for E where
  step_submit: "submission_post_init pl sub0 = Inr sub \<Longrightarrow> \<forall>e. resource_estimate sub = Some e \<longrightarrow> valid_estimate e \<Longrightarrow>
    sched_step E s (snd (submit E sub s))"
| step_launch: "sched_step E s (snd (launch_next E s))"
| step_start: "map_of (s_active s) i = Some Starting \<Longrightarrow> sched_step E s (snd (task_start E i s))"
| step_result: "map_of (s_active s) i = Some (Dispatching r) \<Longrightarrow> civil out \<Longrightarrow> sched_step E s (snd (task_result E i r out s))"
| step_wake: "map_of (s_active s) i = Some (Sleeping r e) \<Longrightarrow> sched_step E s (snd (task_wake E i r e interrupted s))"
| step_cancel: "sched_step E s (snd (cancel_job E dc i reason s))"
| step_retry: "sched_step E s (snd (retry_job E i s))"
| step_stop: "sched_step E s (snd (stop s))"

inductive_cases sched_stepE: "sched_step E s s'"

definition sched_start :: "sched \<Rightarrow> bool" where
  "sched_start s = (\<exists>c h rs m br pol mq ls mc ap poll. new_broker h rs m = Inr br \<and>
     new_sched new_repo c br new_bus pol mq ls mc ap poll = Inr s)"

lemma wp_snd: "wp m (\<lambda>x. P) (\<lambda>e. P) s \<Longrightarrow> P (snd (m s))"
  by (auto simp: wp_def split: prod.splits sum.splits)

lemma wp_never: "wp m (\<lambda>x. P) never s \<Longrightarrow> P (snd (m s)) \<and> is_ok (fst (m s))"
  by (auto simp: wp_def split: prod.splits sum.splits)

lemma task_wps:
  assumes "good_env E" and "sched_inv E s"
  shows "map_of (s_active s) i = Some Starting \<Longrightarrow> wp (task_start E i) (\<lambda>_. sched_inv E) never s"
    and "map_of (s_active s) i = Some (Dispatching r) \<Longrightarrow> civil out \<Longrightarrow> wp (task_result E i r out) (\<lambda>_. sched_inv E) never s"
    and "map_of (s_active s) i = Some (Sleeping r e) \<Longrightarrow> wp (task_wake E i r e x) (\<lambda>_. sched_inv E) never s"
  unfolding task_start_def task_result_def task_wake_def
  by (auto intro!: run_segment_wp [OF assms(1)] body_start_wp [OF assms] body_result_wp [OF assms] body_wake_wp [OF assms])

lemma sched_step_inv:
  assumes E: "good_env E" and st: "sched_step E s s'" and inv: "sched_inv E s"
  shows "sched_inv E s'"
  using st
proof cases
  case (step_submit pl sub0 sub)
  show ?thesis unfolding step_submit(1)
    by (rule wp_snd, rule wp_mono [OF submit_ok [OF E inv step_submit(3)]]) auto
next
  case (step_cancel dc i reason)
  show ?thesis unfolding step_cancel by (rule wp_snd, rule wp_mono [OF cancel_job_ok [OF E inv]]) auto
next
  case (step_retry i)
  show ?thesis unfolding step_retry by (rule wp_snd, rule wp_mono [OF retry_job_ok [OF E inv]]) auto
next
  case step_stop
  have "inside E {#} [] (s\<lparr>s_stop := True, s_wake := True\<rparr>) \<and> placed (s\<lparr>s_stop := True, s_wake := True\<rparr>) []"
    using inv by (simp add: sched_inv_inside [where i = "[]"])
  then show ?thesis unfolding step_stop stop_def puts_def by (simp add: sched_inv_inside [where i = "[]"])
qed (use wp_never [OF launch_next_wp [OF E inv]] wp_never [OF task_wps(1) [OF E inv]] wp_never [OF task_wps(2) [OF E inv]]
      wp_never [OF task_wps(3) [OF E inv]] in auto)

lemma sched_start_inv: "sched_start s \<Longrightarrow> sched_inv E s"
proof -
  assume "sched_start s"
  then obtain c h rs m br pol mq ls mc ap poll where br: "new_broker h rs m = Inr br"
      and s: "new_sched new_repo c br new_bus pol mq ls mc ap poll = Inr s" unfolding sched_start_def by blast
  then obtain q where q: "new_queues mq ls ap = Inr q" "s_queues s = q" "s_repo s = new_repo" "s_broker s = br" "s_bus s = new_bus"
      "s_active s = []" "s_tokens s = []" "s_reservations s = []"
    by (cases "new_queues mq ls ap") (auto simp: new_sched_def rbind_Inr_iff)
  have "qinv q" using queue_runs.invar_start q(1) unfolding queue_start_def by blast
  moreover have "contains k q \<longleftrightarrow> False" for k
    using q(1) by (auto simp: new_queues_def rbind_Inr_iff contains_def)
  moreover have "b_reservations br = []" using br by (auto simp: new_broker_def rbind_Inr_iff)
  moreover have "repo_get new_repo k = None" for k by (simp add: new_repo_def repo_get_def)
  ultimately show ?thesis
    using binv_new [OF br] jinv_new repo_ok_new q
    by (simp add: sched_inv_def base_def timely_def books_def placed_def placed_view_def new_bus_def)
qed

interpretation scheduler_runs: invariant_system sched_start "sched_step E" "\<lambda>s. good_env E \<longrightarrow> sched_inv E s"
  by unfold_locales (use sched_start_inv sched_step_inv in blast)+

lemma reach_inv: "good_env E \<Longrightarrow> sched_start s0 \<Longrightarrow> (sched_step E)\<^sup>*\<^sup>* s0 s \<Longrightarrow> sched_inv E s"
  using scheduler_runs.invar_reachable by blast

text \<open>C11. No job is lost or run twice. In every state the scheduler reaches, under clocks that
  behave, a job identifier is queued exactly when its stored record is QUEUED, and has a task
  exactly when the record is PREPARING or RUNNING (a task that has not started yet exactly when
  it is PREPARING); finished jobs are nowhere. At most \<open>max_concurrency\<close> tasks exist.\<close>

theorem every_job_in_its_place:
  assumes "good_env E" and "sched_start s0" and "(sched_step E)\<^sup>*\<^sup>* s0 s"
  shows "(contains i (s_queues s) \<longleftrightarrow> (\<exists>r. repo_get (s_repo s) i = Some r \<and> j_status r = QUEUED))
    \<and> (map_of (s_active s) i = Some Starting \<longleftrightarrow> (\<exists>r. repo_get (s_repo s) i = Some r \<and> j_status r = PREPARING))
    \<and> (map_of (s_active s) i \<notin> {None, Some Starting} \<longleftrightarrow> (\<exists>r. repo_get (s_repo s) i = Some r \<and> j_status r = RUNNING))
    \<and> active_count s \<le> s_max_concurrency s"
proof -
  have "sched_inv E s" by (rule reach_inv [OF assms])
  then have "placed s i" "length (s_active s) \<le> s_max_concurrency s" by (simp_all add: sched_inv_def base_def)
  then show ?thesis
    by (auto simp: placed_def placed_view_def active_count_def split: option.splits phase.splits)
qed

text \<open>C12. The scheduler and the broker keep the same books. In every reachable state the broker's
  active reservations are exactly those the scheduler holds for jobs that have a task and are not
  waiting for a retry; so when no task exists, nothing is reserved.\<close>

theorem reservations_balanced:
  assumes "good_env E" and "sched_start s0" and "(sched_step E)\<^sup>*\<^sup>* s0 s"
  shows "mset (active_reservations (s_broker s)) = mset (dvalues (s_reservations s))
    \<and> (\<forall>i v. map_of (s_reservations s) i = Some v \<longrightarrow>
         (\<exists>ph. map_of (s_active s) i = Some ph \<and> (\<forall>r e. ph \<noteq> Sleeping r e)))
    \<and> (s_active s = [] \<longrightarrow> active_reservations (s_broker s) = [])"
proof -
  have inv: "sched_inv E s" by (rule reach_inv [OF assms])
  then have bk: "mset (active_reservations (s_broker s)) = mset (dvalues (s_reservations s))"
    by (simp add: sched_inv_def base_def books_def active_reservations_def)
  have held: "\<exists>ph. map_of (s_active s) i = Some ph \<and> (\<forall>r e. ph \<noteq> Sleeping r e)" if "map_of (s_reservations s) i = Some v" for i v
  proof -
    have "placed s i" using inv by (simp add: sched_inv_def)
    with that show ?thesis by (auto simp: placed_def placed_view_def split: option.splits phase.splits)
  qed
  have "active_reservations (s_broker s) = []" if "s_active s = []"
  proof -
    have "map_of (s_reservations s) i = None" for i using held [of i] that by (cases "map_of (s_reservations s) i") auto
    then have "\<forall>i. i \<notin> fst ` set (s_reservations s)" by (simp add: map_of_eq_None_iff)
    then have "s_reservations s = []" by (metis all_not_in_conv image_is_empty set_empty)
    with bk show ?thesis by simp
  qed
  with bk held show ?thesis by blast
qed

text \<open>C17. The scheduler's own code never raises into the event loop. In every reachable state,
  launching, and each stretch of a task that is due, ends without an exception, whatever the
  cache, the broker and a civil dispatcher answer: every error becomes a stored status.\<close>

theorem scheduler_never_raises:
  assumes "good_env E" and "sched_start s0" and "(sched_step E)\<^sup>*\<^sup>* s0 s"
  shows "is_ok (fst (launch_next E s))
    \<and> (map_of (s_active s) i = Some Starting \<longrightarrow> is_ok (fst (task_start E i s)))
    \<and> (map_of (s_active s) i = Some (Dispatching r) \<and> civil out \<longrightarrow> is_ok (fst (task_result E i r out s)))
    \<and> (map_of (s_active s) i = Some (Sleeping r e) \<longrightarrow> is_ok (fst (task_wake E i r e x s)))"
  using wp_never [OF launch_next_wp [OF assms(1) reach_inv [OF assms]]] wp_never [OF task_wps(1) [OF assms(1) reach_inv [OF assms]]]
    wp_never [OF task_wps(2) [OF assms(1) reach_inv [OF assms]]] wp_never [OF task_wps(3) [OF assms(1) reach_inv [OF assms]]]
  by blast

section \<open>Cancellation\<close>

lemma run_segment_cancelled:
  assumes E: "good_env E"
    and b: "wp body (\<lambda>x s'. x = None \<and> after E i x s' \<and> (\<exists>r. repo_get (s_repo s') i = Some r \<and> j_status r = CANCELLED)) never s"
  shows "wp (run_segment E i body) (\<lambda>_ s'. sched_inv E s' \<and> map_of (s_active s') i = None
    \<and> (\<exists>r. repo_get (s_repo s') i = Some r \<and> j_status r = CANCELLED)) never s"
  unfolding wp_run_segment
proof (rule wp_mono [OF b], goal_cases)
  case (1 x t)
  then have "wp (end_task E i) (\<lambda>_ s'. sched_inv E s' \<and> s_repo s' = s_repo t \<and> map_of (s_active s') i = None) never t"
    by (intro end_task_wp [OF E]) (auto simp: after_def)
  then have "wp (end_task E i) (\<lambda>_ s'. sched_inv E s' \<and> map_of (s_active s') i = None
    \<and> (\<exists>r. repo_get (s_repo s') i = Some r \<and> j_status r = CANCELLED)) never t"
    by (rule wp_mono) (use 1 in auto)
  with 1 show ?case by simp
qed simp

lemma cancel_sets_token:
  assumes "cancel_job E dc i reason s = (Inr True, s')" and "repo_get (s_repo s) i = Some r" and "j_status r \<noteq> QUEUED"
  shows "\<exists>t. map_of (s_tokens s') i = Some t \<and> ct_reason t = Some reason" and "s_active s' = s_active s"
proof -
  have "(\<exists>t. map_of (s_tokens s') i = Some t \<and> ct_reason t = Some reason) \<and> s_active s' = s_active s"
    using assms by (auto simp: cancel_job_def raise_def reads_def ret_def seq_def on_token_def cancel_def wake_def puts_def map_of_update
        split: if_splits option.splits prod.splits)
  then show "\<exists>t. map_of (s_tokens s') i = Some t \<and> ct_reason t = Some reason" "s_active s' = s_active s" by auto
qed

lemma wp_equal: "wp m Q R s \<Longrightarrow> m s = (Inr x, s') \<Longrightarrow> Q x s'"
  by (simp add: wp_def)

text \<open>C13. A cancellation that was accepted wins over the result. If \<open>cancel\<close> answers True for a
  job that is being dispatched, then whatever result the dispatcher still returns, the stretch
  that receives it ends the task with the job CANCELLED, never COMPLETED.\<close>

theorem cancel_beats_result:
  assumes "good_env E" and "sched_start s0" and "(sched_step E)\<^sup>*\<^sup>* s0 s"
    and "map_of (s_active s) i = Some (Dispatching r)" and "cancel_job E dc i reason s = (Inr True, s1)"
    and "task_result E i r (Returned res) s1 = (Inr (), s2)"
  shows "(\<exists>r'. repo_get (s_repo s2) i = Some r' \<and> j_status r' = CANCELLED) \<and> map_of (s_active s2) i = None"
proof -
  note E = assms(1)
  have inv: "sched_inv E s" by (rule reach_inv [OF assms(1-3)])
  have "sched_step E s s1" using step_cancel [of E s dc i reason] assms(5) by simp
  then have inv1: "sched_inv E s1" by (rule sched_step_inv [OF E _ inv])
  have r: "repo_get (s_repo s) i = Some r" "j_status r = RUNNING"
    using held_dispatching [OF inv assms(4)] heldD(1) by auto
  from cancel_sets_token [OF assms(5) r(1)] r(2) obtain t where t: "map_of (s_tokens s1) i = Some t" "ct_reason t = Some reason"
      and act: "map_of (s_active s1) i = Some (Dispatching r)" using assms(4) by auto
  from held_dispatching [OF inv1 act] have h: "held i r s1" by simp
  obtain x t' where c: "checkpoint ''before_save'' None t = (x, t')" by fastforce
  have "checkpoint_of ''before_save'' \<noteq> None" by (simp add: checkpoint_of_def)
  from checkpoint_cases [OF c this] t(2) obtain k where x: "x = Inl (CancellationRequested reason k None)" by auto
  let ?s = "s1\<lparr>s_tokens := AList.update i t' (s_tokens s1)\<rparr>"
  let ?P = "\<lambda>x s'. x = None \<and> after E i x s' \<and> (\<exists>r'. repo_get (s_repo s') i = Some r' \<and> j_status r' = CANCELLED)"
  have "wp (handle_failure E i (SToken (CancellationRequested reason k None))) ?P never ?s"
    using cancel_job_now_wp [OF E inside_token [OF open_inside [OF inv1]] held_token [OF h]]
    by (simp add: handle_failure_def cancelled_token)
  then have "wp (body_result E i r (Returned res)) ?P never s1"
    by (simp add: body_result_def on_token_wp [OF t(1)] c x)
  from wp_equal [OF run_segment_cancelled [OF E this] assms(6) [unfolded task_result_def]] show ?thesis by blast
qed

section \<open>Witnesses\<close>

definition sample_env :: environment where
  "sample_env = \<lparr>en_clock = (\<lambda>_. Finite 1), en_journal_clock = (\<lambda>_. Finite 1), en_cache_clock = (\<lambda>_. Finite 1),
     en_monotonic = (\<lambda>_. 0), en_uuid = (\<lambda>_. 7), en_str = (\<lambda>_. ''error''), en_gone = {}\<rparr>"

lemma sample_env_good: "good_env sample_env"
  by (simp add: good_env_def sample_env_def)

definition sample_policy :: retry_policy where
  "sample_policy = \<lparr>rp_max_attempts = 3, rp_base_delay = 1, rp_max_delay = 4, rp_retryable = [''OSError'']\<rparr>"

definition sample_sched :: sched where
  "sample_sched = \<lparr>s_repo = new_repo, s_queues = \<lparr>q_max_queued = 2, q_limits = [], q_rate = 1, q_items = [], q_by_queue = (\<lambda>_. 0),
       q_next_sequence = 1\<rparr>, s_cache = \<lparr>rc_max_entries = 1, rc_max_bytes = 10, rc_entries = [], rc_bytes = 0, rc_order = 0\<rparr>,
     s_broker = sample_broker, s_bus = new_bus, s_policy = sample_policy, s_max_concurrency = 1, s_poll_interval = 1,
     s_active = [], s_tokens = [], s_reservations = [], s_wake = False, s_stop = False, s_tick = 0\<rparr>"

lemma sample_sched_start: "sched_start sample_sched"
proof -
  have "new_sched new_repo \<lparr>rc_max_entries = 1, rc_max_bytes = 10, rc_entries = [], rc_bytes = 0, rc_order = 0\<rparr> sample_broker new_bus
      sample_policy 2 [] 1 (Finite 1) (Finite 1) = Inr sample_sched"
    by (simp add: new_sched_def new_queues_def sample_sched_def non_negative_def finite_number_def)
  with sample_broker_new show ?thesis unfolding sched_start_def by blast
qed

lemma sample_submission_ok: "submission_post_init (Frozen (JObj [])) sample_spec = Inr sample_spec"
  by code_simp

text \<open>A job is submitted, launched, started, cancelled while it is dispatched, and then returns.\<close>

definition sample_w1 :: sched where
  "sample_w1 = snd (submit sample_env sample_spec sample_sched)"

definition sample_w2 :: sched where
  "sample_w2 = snd (launch_next sample_env sample_w1)"

definition sample_w3 :: sched where
  "sample_w3 = snd (task_start sample_env ''job'' sample_w2)"

definition sample_running :: job where
  "sample_running = (case map_of (s_active sample_w3) ''job'' of Some (Dispatching r) \<Rightarrow> r | _ \<Rightarrow> sample_job QUEUED 0)"

definition sample_w4 :: sched where
  "sample_w4 = snd (cancel_job sample_env None ''job'' ''stop'' sample_w3)"

definition sample_result :: dispatch_result where
  "sample_result = \<lparr>dr_raw = ([], VNone), dr_value = JNull, dr_cacheable = False, dr_size_bytes = 0, dr_ttl_seconds = None\<rparr>"

definition sample_w5 :: sched where
  "sample_w5 = snd (task_result sample_env ''job'' sample_running (Returned sample_result) sample_w4)"

lemma sample_w2_starting: "map_of (s_active sample_w2) ''job'' = Some Starting"
  by code_simp

lemma sample_run2: "(sched_step sample_env)\<^sup>*\<^sup>* sample_sched sample_w2"
proof -
  have "sched_step sample_env sample_sched sample_w1"
    unfolding sample_w1_def by (rule step_submit [OF sample_submission_ok]) (simp add: sample_spec_def)
  moreover have "sched_step sample_env sample_w1 sample_w2" unfolding sample_w2_def by (rule step_launch)
  ultimately show ?thesis by simp
qed

lemma sample_run3: "(sched_step sample_env)\<^sup>*\<^sup>* sample_sched sample_w3"
  using sample_run2 step_start [OF sample_w2_starting] unfolding sample_w3_def by (rule rtranclp.rtrancl_into_rtrancl)

lemma sample_w3_running: "(case map_of (s_active sample_w3) ''job'' of Some (Dispatching r) \<Rightarrow> True | _ \<Rightarrow> False)"
  by code_simp

lemma sample_w3_dispatching: "map_of (s_active sample_w3) ''job'' = Some (Dispatching sample_running)"
  using sample_w3_running by (simp add: sample_running_def split: option.splits phase.splits)

lemma sample_cancel_true: "fst (cancel_job sample_env None ''job'' ''stop'' sample_w3) = Inr True"
  by code_simp

lemma sample_w5_ok: "fst (task_result sample_env ''job'' sample_running (Returned sample_result) sample_w4) = Inr ()"
  by code_simp

lemma sample_w3_max: "s_max_concurrency sample_w3 = 1"
  by code_simp

lemma every_job_in_its_place_witness:
  "(\<exists>r. repo_get (s_repo sample_w3) ''job'' = Some r \<and> j_status r = RUNNING) \<and> active_count sample_w3 \<le> 1"
  using every_job_in_its_place [OF sample_env_good sample_sched_start sample_run3, of "''job''"]
  by (auto simp: sample_w3_dispatching sample_w3_max)

lemma reservations_balanced_witness:
  "mset (active_reservations (s_broker sample_w2)) = mset (dvalues (s_reservations sample_w2)) \<and> s_active sample_w2 \<noteq> []"
  using reservations_balanced [OF sample_env_good sample_sched_start sample_run2] sample_w2_starting by auto

lemma scheduler_never_raises_witness:
  "is_ok (fst (task_start sample_env ''job'' sample_w2)) \<and> map_of (s_active sample_w2) ''job'' = Some Starting"
  using scheduler_never_raises [OF sample_env_good sample_sched_start sample_run2, of "''job''"] sample_w2_starting by simp

lemma cancel_beats_result_witness:
  "map_option j_status (repo_get (s_repo sample_w5) ''job'') = Some CANCELLED"
proof -
  have c: "cancel_job sample_env None ''job'' ''stop'' sample_w3 = (Inr True, sample_w4)"
    unfolding sample_w4_def by (rule prod_eqI) (simp_all add: sample_cancel_true)
  have r: "task_result sample_env ''job'' sample_running (Returned sample_result) sample_w4 = (Inr (), sample_w5)"
    unfolding sample_w5_def by (rule prod_eqI) (simp_all add: sample_w5_ok)
  from cancel_beats_result [OF sample_env_good sample_sched_start sample_run3 sample_w3_dispatching c r]
  show ?thesis by auto
qed

end
