(* ===== verification/SchedulerRuns.thy ===== *)
theory SchedulerRuns
  imports SchedulerSafety
begin

text \<open>
  What a run of the scheduler means for its parts. Every handler is built from the operations of
  the repository, the journal and the cache, so a predicate that those operations keep is kept by
  every step: the locale \<open>kept_by_parts\<close>. It is interpreted on the agreement of the event stream
  with the histories. Then the loop that launches the queued jobs.
\<close>

definition status_types :: "string set" where
  "status_types = {''job.preparing'', ''job.running'', ''job.completed'', ''job.failed'', ''job.cancelled''}"

locale kept_by_parts =
  fixes E :: environment
    and J :: "sched \<Rightarrow> bool"
  assumes frame: "J s \<Longrightarrow> s_repo s' = s_repo s \<Longrightarrow> s_bus s' = s_bus s \<Longrightarrow> s_cache s' = s_cache s \<Longrightarrow> J s'"
    and transitions: "target \<noteq> QUEUED \<Longrightarrow> J s \<Longrightarrow> J (snd (transition E i expected target rs er extra s))"
    and creates: "J s \<Longrightarrow> J (snd (on_repo (repo_create sub now) s))"
    and retries: "J s \<Longrightarrow> J (snd (on_repo (repo_retry i now expected er) s))"
    and publishes: "ty \<notin> status_types \<Longrightarrow> J s \<Longrightarrow> J (snd (publish_event E ty kvs i s))"
    and lookups: "J s \<Longrightarrow> J (snd (on_cache (cache_get t k) s))"
    and stores: "J s \<Longrightarrow> J (snd (on_cache (cache_put t k v sz ttl) s))"
begin

definition keeps :: "'a act \<Rightarrow> bool" where
  "keeps m = (\<forall>s. J s \<longrightarrow> J (snd (m s)))"

lemma keepsD: "keeps m \<Longrightarrow> J s \<Longrightarrow> m s = (r, s') \<Longrightarrow> J s'"
  unfolding keeps_def by (metis snd_conv)

lemma keeps_run: "keeps m \<Longrightarrow> J s \<Longrightarrow> J (snd (m s))"
  by (simp add: keeps_def)

lemma keeps_basic [simp]: "keeps (ret x)" "keeps (raise e)" "keeps (lift_result f r)"
  by (simp_all add: keeps_def ret_def raise_def lift_result_def)

lemma keeps_seq [intro!]: "keeps m \<Longrightarrow> (\<And>x. keeps (f x)) \<Longrightarrow> keeps (seq m f)"
  unfolding keeps_def [of "seq m f"] seq_def by (auto split: prod.split sum.split dest: keepsD intro: keeps_run)

lemma keeps_catch [intro!]: "keeps m \<Longrightarrow> (\<And>e. keeps (h e)) \<Longrightarrow> keeps (catch m h)"
  unfolding keeps_def [of "catch m h"] catch_def by (auto split: prod.split sum.split dest: keepsD intro: keeps_run)

lemma keeps_capture [intro!]: "keeps m \<Longrightarrow> keeps (capture m)"
  unfolding keeps_def [of "capture m"] capture_def by (auto split: prod.split dest: keepsD)

lemma keeps_reads [intro!]: "(\<And>x. keeps (k x)) \<Longrightarrow> keeps (reads g k)"
  unfolding keeps_def reads_def by blast

lemma keeps_finally [intro!]: "keeps m \<Longrightarrow> keeps fin \<Longrightarrow> keeps (finally_do m fin)"
  unfolding keeps_def [of "finally_do m fin"] finally_do_def by (auto split: prod.split sum.split dest: keepsD intro: keeps_run)

text \<open>Actions on the other parts of the state.\<close>

definition elsewhere :: "(sched \<Rightarrow> sched) \<Rightarrow> bool" where
  "elsewhere p = (\<forall>s. s_repo (p s) = s_repo s \<and> s_bus (p s) = s_bus s \<and> s_cache (p s) = s_cache s)"

lemma keeps_puts: "elsewhere p \<Longrightarrow> keeps (puts p)"
  unfolding keeps_def elsewhere_def puts_def by (auto intro: frame)

lemma keeps_others [simp]: "keeps (tick t)" "keeps (on_queues g)" "keeps (on_broker b)" "keeps (on_token i f)"
  unfolding keeps_def tick_def on_queues_def on_broker_def on_token_def
  by (auto split: prod.split option.split intro: frame)

lemma keeps_transition [simp]: "target \<noteq> QUEUED \<Longrightarrow> keeps (transition E i expected target rs er extra)"
  and keeps_create [simp]: "keeps (on_repo (repo_create sub now))"
  and keeps_retry [simp]: "keeps (on_repo (repo_retry i now expected er))"
  and keeps_publish [simp]: "ty \<notin> status_types \<Longrightarrow> keeps (publish_event E ty kvs i)"
  and keeps_get [simp]: "keeps (on_cache (cache_get t k))"
  and keeps_put [simp]: "keeps (on_cache (cache_put t k v sz ttl))"
  using transitions creates retries publishes lookups stores by (simp_all add: keeps_def)

lemma keeps_wake [simp]: "keeps wake"
  unfolding wake_def by (rule keeps_puts) (simp add: elsewhere_def)

lemma keeps_now [simp]: "keeps (sched_now E)"
  unfolding sched_now_def by (auto split: pyfloat.split)

lemma keeps_enqueue_job [simp]: "keeps (enqueue_job i q r)"
  unfolding enqueue_job_def by auto

lemma keeps_capacity [simp]: "keeps (check_capacity q)"
  unfolding check_capacity_def by auto

lemma keeps_submit: "keeps (submit E sub)"
  unfolding submit_def by (intro keeps_seq) (auto simp: status_types_def)

lemma keeps_cancel_now [simp]: "keeps (cancel_job_now E i d)"
  unfolding cancel_job_now_def by (auto split: option.split)

lemma keeps_release [simp]: "keeps (release_reservation E i)"
  unfolding release_reservation_def by (auto split: option.split intro!: keeps_puts simp: elsewhere_def)

lemma keeps_on_exception [simp]: "keeps (on_exception E i e)"
  unfolding on_exception_def by (auto split: option.split simp: status_types_def)

lemma keeps_handle_failure [simp]: "keeps (handle_failure E i e)"
  by (simp add: handle_failure_def)

lemma keeps_end_task [simp]: "keeps (end_task E i)"
  unfolding end_task_def by (auto intro!: keeps_puts simp: elsewhere_def)

lemma keeps_run_segment [intro!]: "keeps body \<Longrightarrow> keeps (run_segment E i body)"
proof -
  assume b: "keeps body"
  have "J (snd (run_segment E i body s))" if "J s" for s
  proof (cases "body s")
    case (Pair r s')
    with keepsD [OF b that] have s': "J s'" by simp
    have "J (snd (end_task E i s'))" by (rule keeps_run [OF keeps_end_task s'])
    moreover have "J (snd (finally_do (raise e) (end_task E i) s'))" for e :: sched_error
      by (rule keeps_run [OF keeps_finally [OF keeps_basic(2) keeps_end_task] s'])
    moreover have "J (s'\<lparr>s_active := AList.update i ph (s_active s')\<rparr>)" for ph by (rule frame [OF s']) simp_all
    ultimately show ?thesis using Pair by (auto simp: run_segment_def split: sum.split option.split)
  qed
  then show ?thesis by (simp add: keeps_def)
qed

lemma keeps_store_result [simp]: "keeps (store_result E i r res)"
  unfolding store_result_def by (auto split: option.split simp: status_types_def)

lemma keeps_requeue [simp]: "keeps (requeue_job E i r e)"
  unfolding requeue_job_def by (auto split: sum.split sched_error.split simp: status_types_def)

lemma keeps_start: "keeps (task_start E i)"
  unfolding task_start_def body_start_def by auto

lemma keeps_result: "keeps (task_result E i r out)"
  unfolding task_result_def body_result_def by (auto split: dispatch_outcome.split)

lemma keeps_task_wake: "keeps (task_wake E i r e interrupted)"
  unfolding task_wake_def body_wake_def by auto

lemma keeps_cancel: "keeps (cancel_job E dc i reason)"
  unfolding cancel_job_def by (auto split: option.split intro!: keeps_puts simp: elsewhere_def)

lemma keeps_retry_job: "keeps (retry_job E i)"
  unfolding retry_job_def by (intro keeps_seq) (auto split: option.split simp: status_types_def)

lemma keeps_start_job [simp]: "keeps (start_job E r rv)"
  unfolding start_job_def by (auto split: option.split intro!: keeps_puts simp: elsewhere_def)

lemma keeps_fail_queued [simp]: "keeps (fail_queued E r e ph)"
  unfolding fail_queued_def by auto

lemma keeps_broker_admit [simp]: "keeps (broker_admit E est)"
  unfolding broker_admit_def by (auto split: prod.split)

lemma keeps_admit [simp]: "keeps (admit_and_start E it r)"
  unfolding admit_and_start_def by (auto split: option.split sum.split simp: status_types_def)

lemma keeps_read_cache [simp]: "keeps (read_cache E r)"
  unfolding read_cache_def by (auto split: option.split simp: status_types_def)

lemma keeps_complete [simp]: "keeps (complete_from_cache E r v)"
  unfolding complete_from_cache_def by auto

lemma keeps_launch: "keeps (launch_next E)"
  unfolding launch_next_def launch_item_def by (auto split: option.split)

lemma keeps_stop: "keeps stop"
  unfolding stop_def by (rule keeps_puts) (simp add: elsewhere_def)

lemma kept_step: "sched_step E s s' \<Longrightarrow> J s \<Longrightarrow> J s'"
  using keeps_submit keeps_launch keeps_start keeps_result keeps_task_wake keeps_cancel keeps_retry_job keeps_stop
  by (auto elim!: sched_stepE simp: keeps_def)

lemma kept_run: "(sched_step E)\<^sup>*\<^sup>* s s' \<Longrightarrow> J s \<Longrightarrow> J s'"
  by (induction rule: rtranclp_induct) (auto intro: kept_step)

end

section \<open>The event stream tells the history\<close>

lemma snd_seq: "snd (seq m f s) = (case m s of (Inl e, s') \<Rightarrow> s' | (Inr x, s') \<Rightarrow> snd (f x s'))"
  by (simp add: seq_def split: prod.split sum.split)

lemma now_frame:
  assumes "sched_now E s = (r, t)"
  shows "s_repo t = s_repo s" and "s_bus t = s_bus s" and "s_cache t = s_cache s"
  using assms by (auto simp: sched_now_def seq_def tick_def raise_def ret_def split: pyfloat.splits if_splits)

definition history_of :: "job_repo \<Rightarrow> string \<Rightarrow> job list" where
  "history_of R i = (case map_of (jr_history R) i of None \<Rightarrow> [] | Some h \<Rightarrow> h)"

definition status_events :: "string \<Rightarrow> event list \<Rightarrow> string list" where
  "status_events i evs = map ev_type (filter (\<lambda>e. ev_job_id e = Some i \<and> ev_type e \<in> status_types) evs)"

definition status_changes :: "job list \<Rightarrow> string list" where
  "status_changes h = map (\<lambda>r. ''job.'' @ status_value (j_status r)) (filter (\<lambda>r. j_status r \<noteq> QUEUED) h)"

definition told :: "sched \<Rightarrow> bool" where
  "told s = (repo_ok (s_repo s) \<and> jinv (bus_journal (s_bus s))
     \<and> (\<forall>i. status_events i (jn_events (bus_journal (s_bus s))) = status_changes (history_of (s_repo s) i)))"

lemma told_same: "told s \<Longrightarrow> s_repo t = s_repo s \<Longrightarrow> s_bus t = s_bus s \<Longrightarrow> told t"
  by (simp add: told_def)

lemma status_type_of: "''job.'' @ status_value st \<in> status_types \<longleftrightarrow> st \<noteq> QUEUED"
  by (cases st) (simp_all add: status_types_def)

lemma store_history:
  assumes "repo_store i r R = (Inr r', R')"
  shows "history_of R' k = (if k = i then history_of R i @ [r] else history_of R k)" and "r' = r"
  using assms by (auto simp: repo_store_def Let_def history_of_def map_of_update split: option.splits)

lemma transition_history:
  assumes "repo_transition i expected target now rs er R = (Inr r, R')"
  shows "history_of R' k = (if k = i then history_of R i @ [r] else history_of R k)"
  using assms store_history by (fastforce simp: repo_transition_def split: sum.splits option.splits)

lemma retry_history:
  assumes "repo_retry i now expected er R = (Inr r, R')"
  shows "history_of R' k = (if k = i then history_of R i @ [r] else history_of R k)"
  using assms store_history by (fastforce simp: repo_retry_def split: sum.splits option.splits)

lemma publish_appends:
  assumes "jinv (bus_journal b)" and "publish t ty pl job b = (res, b')"
  shows "case res of Inl e \<Rightarrow> bus_journal b' = bus_journal b
    | Inr ev \<Rightarrow> jinv (bus_journal b') \<and> jn_events (bus_journal b') = jn_events (bus_journal b) @ [ev] \<and> ev_type ev = ty \<and> ev_job_id ev = job"
proof -
  obtain r J where a: "journal_append t ty pl job (bus_journal b) = (r, J)" by fastforce
  show ?thesis
    using assms(2) journal_append_ok [OF assms(1)] journal_append_fail a by (cases r) (auto simp: publish_def)
qed

lemma told_other_event:
  assumes "told s" and "ty \<notin> status_types"
  shows "told (snd (publish_event E ty kvs i s))"
proof -
  obtain r b where p: "publish (en_journal_clock E (s_tick s)) ty (Some (Frozen (jobject kvs))) (Some i) (s_bus s) = (r, b)" by fastforce
  with publish_appends [OF _ p] assms show ?thesis
    by (cases r) (auto simp: told_def status_events_def publish_event_def seq_def tick_def on_bus_def)
qed

lemma told_create:
  assumes "told s"
  shows "told (snd (on_repo (repo_create sub now) s))"
proof -
  obtain res R where c: "repo_create sub now (s_repo s) = (res, R)" by fastforce
  have ok: "repo_ok (s_repo s)" using assms by (simp add: told_def)
  show ?thesis
  proof (cases res)
    case (Inl e)
    with c repo_fails(3) [OF ok] have "R = s_repo s" by blast
    with c assms show ?thesis by (simp add: on_repo_def told_same)
  next
    case (Inr r)
    note new = repo_create_ok [OF ok c [unfolded Inr]]
    from c Inr have f: "from_submission sub now = Inr r"
        and R: "R = s_repo s\<lparr>jr_records := AList.update (job_id r) r (jr_records (s_repo s)),
                   jr_history := AList.update (job_id r) [r] (jr_history (s_repo s))\<rparr>"
      by (auto simp: repo_create_def split: if_splits sum.splits)
    have id: "job_id r = job_id sub" by (rule from_submission_valid(5) [OF f])
    have "job_id sub \<notin> set (dkeys (jr_records (s_repo s)))"
      using new by (simp add: repo_get_def map_of_eq_None_iff)
    then have "job_id sub \<notin> set (dkeys (jr_history (s_repo s)))" using ok by (simp add: repo_ok_def)
    then have none: "map_of (jr_history (s_repo s)) (job_id sub) = None" by (simp add: map_of_eq_None_iff)
    have "status_changes (history_of R k) = status_changes (history_of (s_repo s) k)" for k
      using new none id by (simp add: R history_of_def map_of_update status_changes_def)
    with c assms new show ?thesis by (simp add: on_repo_def told_def)
  qed
qed

lemma told_retry:
  assumes "told s"
  shows "told (snd (on_repo (repo_retry i now expected er) s))"
proof -
  obtain res R where c: "repo_retry i now expected er (s_repo s) = (res, R)" by fastforce
  have ok: "repo_ok (s_repo s)" using assms by (simp add: told_def)
  show ?thesis
  proof (cases res)
    case (Inl e)
    with c repo_fails(2) [OF ok] have "R = s_repo s" by blast
    with c assms show ?thesis by (simp add: on_repo_def told_same)
  next
    case (Inr r)
    note re = repo_retry_ok [OF ok c [unfolded Inr]]
    have "status_changes (history_of R k) = status_changes (history_of (s_repo s) k)" for k
      using retry_history [OF c [unfolded Inr]] re by (auto simp: status_changes_def)
    with c assms re show ?thesis by (simp add: on_repo_def told_def)
  qed
qed

lemma told_transition:
  assumes E: "good_env E" and s: "told s" and tgt: "target \<noteq> QUEUED"
  shows "told (snd (transition E i expected target rs er extra s))"
proof -
  let ?t = "Finite (time_at E (s_tick s))" and ?s = "s\<lparr>s_tick := s_tick s + 1\<rparr>"
  have now: "sched_now E s = (Inr ?t, ?s)"
    using good_envD(1,2) [OF E, of "s_tick s"] by (simp add: sched_now_def seq_def tick_def ret_def not_less)
  have ok: "repo_ok (s_repo s)" and ji: "jinv (bus_journal (s_bus s))" using s by (simp_all add: told_def)
  obtain res R where c: "repo_transition i expected target ?t rs er (s_repo s) = (res, R)" by fastforce
  show ?thesis
  proof (cases res)
    case (Inl e)
    with c repo_fails(1) [OF ok] have "R = s_repo s" by blast
    then have "snd (transition E i expected target rs er extra s) = ?s"
      using c Inl by (simp add: transition_def snd_seq now on_repo_def)
    with s show ?thesis by (simp add: told_def)
  next
    case (Inr r)
    note tr = repo_transition_ok [OF ok c [unfolded Inr]]
    let ?ty = "''job.'' @ status_value target"
    have "repo_get R i = Some r" "repo_ok R" using tr by auto
    then have "job_id r = i" "valid_job r" by (auto elim: repo_okD)
    then have tid: "trimmed_identifier 160 i" using valid_job_id by blast
    obtain j where j: "en_journal_clock E (Suc (s_tick s)) = Finite j" "0 \<le> j" using E unfolding good_env_def by blast
    define kvs where "kvs = fold (\<lambda>(k, j). AList.update k j) extra
          [(''status'', jstr (status_value (j_status r))), (''attempt'', JInt (attempt r)), (''revision'', JInt (revision r))]"
    obtain ev b where p: "publish (Finite j) ?ty (Some (Frozen (jobject kvs))) (Some i) (s_bus s) = (Inr ev, b)"
      using publish_ok [OF ji j(2) status_event [of target] tid] by blast
    note ap = publish_appends [OF ji p, simplified]
    have st: "snd (transition E i expected target rs er extra s) = s\<lparr>s_tick := s_tick s + 2, s_repo := R, s_bus := b\<rparr>"
      using c Inr p j by (simp add: transition_def snd_seq now on_repo_def publish_event_def seq_def tick_def on_bus_def ret_def
          kvs_def [symmetric])
    have "status_events k (jn_events (bus_journal b)) = status_changes (history_of R k)" for k
    proof -
      have "status_events k (jn_events (bus_journal (s_bus s))) = status_changes (history_of (s_repo s) k)"
        using s by (simp add: told_def)
      then show ?thesis
        using ap tr tgt status_type_of [of target] transition_history [OF c [unfolded Inr], of k]
        by (auto simp: status_events_def status_changes_def)
    qed
    with tr ap show ?thesis unfolding st by (simp add: told_def)
  qed
qed

interpretation events_tell: kept_by_parts E "\<lambda>s. good_env E \<longrightarrow> told s"
proof
  fix s t :: sched
  show "good_env E \<longrightarrow> told t" if "good_env E \<longrightarrow> told s" "s_repo t = s_repo s" "s_bus t = s_bus s" "s_cache t = s_cache s"
    using that by (auto intro: told_same)
qed (use told_transition told_create told_retry told_other_event in \<open>auto intro: told_same simp: on_cache_def split: prod.split\<close>)

text \<open>C14. The events tell the history. In every state a new scheduler reaches, for every job, the
  events of the journal that report one of the statuses preparing, running, completed, failed and
  cancelled are, in order and one for one, the changes to those statuses in the job's stored
  history: none is missing, repeated, reordered or filed under another job.\<close>

theorem events_tell_history:
  assumes "good_env E" and "sched_start s0" and "(sched_step E)\<^sup>*\<^sup>* s0 s"
  shows "map ev_type (filter (\<lambda>e. ev_job_id e = Some i \<and> ev_type e \<in> status_types) (jn_events (bus_journal (s_bus s))))
    = map (\<lambda>r. ''job.'' @ status_value (j_status r)) (filter (\<lambda>r. j_status r \<noteq> QUEUED) (history_of (s_repo s) i))"
proof -
  obtain c br pol mq ls mc ap poll where "new_sched new_repo c br new_bus pol mq ls mc ap poll = Inr s0"
    using assms(2) unfolding sched_start_def by blast
  then have "s_repo s0 = new_repo" "s_bus s0 = new_bus"
    by (cases "new_queues mq ls ap"; auto simp: new_sched_def rbind_Inr_iff)+
  then have "told s0"
    using repo_ok_new jinv_new
    by (simp add: told_def new_bus_def new_journal_def new_repo_def history_of_def status_events_def status_changes_def)
  with events_tell.kept_run [OF assms(3)] assms(1) have "told s" by blast
  then show ?thesis by (simp add: told_def status_events_def status_changes_def)
qed

lemma events_tell_history_witness:
  "map ev_type (filter (\<lambda>e. ev_job_id e = Some ''job'' \<and> ev_type e \<in> status_types) (jn_events (bus_journal (s_bus sample_w2))))
    = [''job.preparing'']"
proof -
  have "map (\<lambda>r. ''job.'' @ status_value (j_status r)) (filter (\<lambda>r. j_status r \<noteq> QUEUED) (history_of (s_repo sample_w2) ''job'')) = [''job.preparing'']"
    by code_simp
  with events_tell_history [OF sample_env_good sample_sched_start sample_run2, of "''job''"] show ?thesis by simp
qed

section \<open>The launching loop ends\<close>

text \<open>
  The inner loop of \<open>run_until_idle\<close>: launch until nothing is queued, the tasks are at their
  maximum, or a launch answers False. The Boolean is the code's \<open>blocked\<close>. Nothing in the loop
  bounds it, so the definition allows it not to end.
\<close>

partial_function (option) launch_all :: "environment \<Rightarrow> sched \<Rightarrow> ((sched_error + bool) \<times> sched) option" where
  "launch_all E s =
    (if length (s_active s) < s_max_concurrency s \<and> 0 < queue_length (s_queues s)
     then (case launch_next E s of
        (Inl e, s') \<Rightarrow> Some (Inl e, s')
      | (Inr b, s') \<Rightarrow> if b then launch_all E s' else Some (Inr True, s'))
     else Some (Inr False, s))"

text \<open>Actions that leave the queues alone.\<close>

definition same_queues :: "'a act \<Rightarrow> bool" where
  "same_queues m = (\<forall>s. s_queues (snd (m s)) = s_queues s)"

lemma same_queuesD: "same_queues m \<Longrightarrow> m s = (r, s') \<Longrightarrow> s_queues s' = s_queues s"
  unfolding same_queues_def by (metis snd_conv)

lemma sq_basic [simp]: "same_queues (ret x)" "same_queues (raise e)" "same_queues (lift_result f r)" "same_queues (tick t)"
  "same_queues (on_repo g)" "same_queues (on_cache c)" "same_queues (on_broker b)" "same_queues (on_bus u)"
  by (auto simp: same_queues_def ret_def raise_def lift_result_def tick_def on_repo_def on_cache_def on_broker_def on_bus_def
      split: prod.split)

lemma sq_seq [intro!]: "same_queues m \<Longrightarrow> (\<And>x. same_queues (f x)) \<Longrightarrow> same_queues (seq m f)"
  unfolding same_queues_def seq_def by (auto split: prod.split sum.split) (metis snd_conv)+

lemma sq_catch [intro!]: "same_queues m \<Longrightarrow> (\<And>x. same_queues (f x)) \<Longrightarrow> same_queues (catch m f)"
  unfolding same_queues_def catch_def by (auto split: prod.split sum.split) (metis snd_conv)+

lemma sq_now [simp]: "same_queues (sched_now E)"
  unfolding sched_now_def by (auto split: pyfloat.split)

lemma sq_publish [simp]: "same_queues (publish_event E ty kvs i)"
  unfolding publish_event_def by auto

lemma sq_transition [simp]: "same_queues (transition E i a b rs er extra)"
  unfolding transition_def by auto

lemma sq_puts [intro!]: "(\<And>s. s_queues (p s) = s_queues s) \<Longrightarrow> same_queues (puts p)"
  by (simp add: same_queues_def puts_def)

lemma sq_capture [intro!]: "same_queues m \<Longrightarrow> same_queues (capture m)"
  unfolding same_queues_def capture_def by (auto split: prod.split) (metis snd_conv)+

lemma sq_read_cache [simp]: "same_queues (read_cache E r)"
  unfolding read_cache_def by (auto split: option.split)

lemma sq_complete_from_cache [simp]: "same_queues (complete_from_cache E r v)"
  unfolding complete_from_cache_def by auto

lemma sq_fail_queued [simp]: "same_queues (fail_queued E r e ph)"
  unfolding fail_queued_def by auto

lemma sq_start_job [simp]: "same_queues (start_job E r rv)"
  unfolding start_job_def by (auto split: option.split)

lemma sq_broker_admit [simp]: "same_queues (capture (broker_admit E est))"
  unfolding broker_admit_def by (auto split: prod.split)

lemma seq_cases:
  assumes "seq m f s = (Inr y, t)"
  obtains x s' where "m s = (Inr x, s')" and "f x s' = (Inr y, t)"
  using assms by (auto simp: seq_def split: prod.splits sum.splits)

lemma admit_true_queues:
  assumes "admit_and_start E it r s = (Inr True, t)"
  shows "s_queues t = s_queues s"
proof (cases "resource_estimate r")
  case None
  with assms show ?thesis by (auto simp: admit_and_start_def dest: same_queuesD [OF sq_start_job])
next
  case (Some est)
  with assms obtain d s1 where d: "capture (broker_admit E est) s = (Inr d, s1)"
    and k: "(case d of Inl e \<Rightarrow> fail_queued E r e ''resource_broker''
      | Inr dec \<Rightarrow>
         if \<not> d_admitted dec
         then if d_outcome dec = DEFERRED
              then seq (on_queues (enqueue it)) (\<lambda>_.
                   seq (publish_event E ''job.deferred'' [(''reason'', jstr ''resources''),
                      (''violations'', JArr (map jstr (d_violations dec)))] (job_id r)) (\<lambda>_. ret False))
              else fail_queued E r (SAdmission (d_violations dec)) ''resource_admission''
         else case d_reservation dec of
           None \<Rightarrow> raise (SRuntime ''admitted resource decision has no reservation'')
         | Some rv \<Rightarrow> start_job E r (Some rv)) s1 = (Inr True, t)"
    unfolding admit_and_start_def by (auto elim!: seq_cases)
  have s1: "s_queues s1 = s_queues s" by (rule same_queuesD [OF sq_broker_admit d])
  show ?thesis
  proof (cases d)
    case (Inl e)
    with k s1 show ?thesis by (auto dest: same_queuesD [OF sq_fail_queued])
  next
    case (Inr dec)
    with k s1 show ?thesis
      by (auto elim!: seq_cases simp: ret_def raise_def split: if_splits option.splits
          dest: same_queuesD [OF sq_fail_queued] same_queuesD [OF sq_start_job])
  qed
qed

lemma launch_item_true_queues:
  assumes "launch_item E it s = (Inr True, t)"
  shows "s_queues t = s_queues s"
proof (cases "repo_get (s_repo s) (qi_job_id it)")
  case None
  with assms show ?thesis by (simp add: launch_item_def reads_def ret_def)
next
  case (Some r)
  show ?thesis
  proof (cases "j_status r = QUEUED")
    case False
    with Some assms show ?thesis by (simp add: launch_item_def reads_def ret_def)
  next
    case True
    with Some assms obtain x s1 where x: "read_cache E r s = (Inr x, s1)"
      and k: "(case x of Some e \<Rightarrow> seq (complete_from_cache E r (ce_value e)) (\<lambda>_. ret True) | None \<Rightarrow> admit_and_start E it r) s1 = (Inr True, t)"
      by (auto simp: launch_item_def reads_def elim!: seq_cases)
    have "s_queues s1 = s_queues s" by (rule same_queuesD [OF sq_read_cache x])
    with k show ?thesis
      by (cases x) (auto elim!: seq_cases simp: ret_def dest: admit_true_queues same_queuesD [OF sq_complete_from_cache])
  qed
qed

lemma launch_true_shrinks:
  assumes E: "good_env E" and inv: "sched_inv E s" and l: "launch_next E s = (Inr True, t)"
  shows "queue_length (s_queues t) < queue_length (s_queues s)"
proof -
  have q: "qinv (s_queues s)" using inv by (simp add: sched_inv_def base_def)
  have go: "\<not> (s_max_concurrency s \<le> length (s_active s) \<or> queue_length (s_queues s) = 0)"
    using l by (auto simp: launch_next_def reads_def ret_def split: if_splits)
  then obtain it q' where p: "pop_next (Finite (time_at E (s_tick s))) (s_queues s) = (Inr it, q')"
      "Suc (queue_length q') = queue_length (s_queues s)" using pop_succeeds [OF q] by blast
  have now: "sched_now E s = (Inr (Finite (time_at E (s_tick s))), s\<lparr>s_tick := s_tick s + 1\<rparr>)"
    using good_envD(1,2) [OF E, of "s_tick s"] by (simp add: sched_now_def seq_def tick_def ret_def not_less)
  from l go now p(1) have "launch_item E it (s\<lparr>s_tick := s_tick s + 1, s_queues := q'\<rparr>) = (Inr True, t)"
    by (simp add: launch_next_def reads_def seq_def on_queues_def)
  from launch_item_true_queues [OF this] p(2) show ?thesis by simp
qed

text \<open>
  Where the answer False comes from: an admission the broker deferred. What the loop leaves then:
  a free slot, and a job back in its queue that the broker cannot place now but could on an idle
  machine, with the deferral as the last event of the journal.
\<close>

definition blocked_on :: "string \<Rightarrow> sched \<Rightarrow> bool" where
  "blocked_on i t = (length (s_active t) < s_max_concurrency t
     \<and> (\<exists>r est. repo_get (s_repo t) i = Some r \<and> j_status r = QUEUED \<and> resource_estimate r = Some est
          \<and> fst (admission_policy (b_limits (s_broker t)) (free_limits (s_broker t)) est) = DEFERRED)
     \<and> (\<exists>evs ev. jn_events (bus_journal (s_bus t)) = evs @ [ev] \<and> ev_type ev = ''job.deferred'' \<and> ev_job_id ev = Some i))"

definition same_jobs :: "sched \<Rightarrow> sched \<Rightarrow> bool" where
  "same_jobs s t = (s_repo t = s_repo s \<and> s_active t = s_active s \<and> s_max_concurrency t = s_max_concurrency s
     \<and> s_broker t = s_broker s \<and> (jinv (bus_journal (s_bus s)) \<longrightarrow> jinv (bus_journal (s_bus t))))"

lemma publish_same:
  assumes "publish_event E ty kvs i s = (Inr ev, t)"
  shows "same_jobs s t" and "jinv (bus_journal (s_bus s)) \<Longrightarrow>
    jn_events (bus_journal (s_bus t)) = jn_events (bus_journal (s_bus s)) @ [ev] \<and> ev_type ev = ty \<and> ev_job_id ev = Some i"
proof -
  obtain res b where p: "publish (en_journal_clock E (s_tick s)) ty (Some (Frozen (jobject kvs))) (Some i) (s_bus s) = (res, b)"
    by fastforce
  with assms have t: "t = s\<lparr>s_tick := s_tick s + 1, s_bus := b\<rparr>" and res: "res = Inr ev"
    by (cases res; simp add: publish_event_def seq_def tick_def on_bus_def)+
  show "same_jobs s t" using publish_appends [OF _ p] by (auto simp: res t same_jobs_def)
  show "jn_events (bus_journal (s_bus t)) = jn_events (bus_journal (s_bus s)) @ [ev] \<and> ev_type ev = ty \<and> ev_job_id ev = Some i"
    if "jinv (bus_journal (s_bus s))"
    using publish_appends [OF that p] by (simp add: res t)
qed

lemma same_jobs_trans: "same_jobs s t \<Longrightarrow> same_jobs t u \<Longrightarrow> same_jobs s u"
  by (simp add: same_jobs_def)

lemma read_cache_same:
  assumes "read_cache E r s = (Inr x, t)"
  shows "same_jobs s t"
proof (cases "cache_key r")
  case None
  with assms show ?thesis by (simp add: read_cache_def ret_def same_jobs_def)
next
  case (Some k)
  obtain res c where c: "cache_get (en_cache_clock E (s_tick s)) k (s_cache s) = (res, c)" by fastforce
  let ?s = "s\<lparr>s_tick := s_tick s + 1, s_cache := c\<rparr>"
  have s: "same_jobs s ?s" by (simp add: same_jobs_def)
  show ?thesis
  proof (cases res)
    case (Inr y)
    with assms Some c s show ?thesis by (simp add: read_cache_def catch_def seq_def tick_def on_cache_def)
  next
    case (Inl e)
    with assms Some c obtain kvs ev where "publish_event E ''cache.read_failed'' kvs (job_id r) ?s = (Inr ev, t)"
      by (auto simp: read_cache_def catch_def seq_def tick_def on_cache_def ret_def split: prod.splits sum.splits)
    from same_jobs_trans [OF s publish_same(1) [OF this]] show ?thesis .
  qed
qed

lemma never_false [simp]: "start_job E r rv s \<noteq> (Inr False, t)" "fail_queued E r e ph s \<noteq> (Inr False, t)"
  by (auto simp: start_job_def fail_queued_def ret_def elim!: seq_cases)

lemma admit_false:
  assumes "admit_and_start E it r s = (Inr False, t)"
  obtains est d s1 q' kvs ev where "resource_estimate r = Some est" "broker_admit E est s = (Inr d, s1)" "d_outcome d = DEFERRED"
    "publish_event E ''job.deferred'' kvs (job_id r) (s1\<lparr>s_queues := q'\<rparr>) = (Inr ev, t)"
proof (cases "resource_estimate r")
  case None
  with assms show ?thesis by (simp add: admit_and_start_def)
next
  case (Some est)
  obtain x s1 where x: "broker_admit E est s = (x, s1)" by fastforce
  show ?thesis
  proof (cases x)
    case (Inl e)
    with Some x assms show ?thesis
      by (simp add: admit_and_start_def capture_def seq_def)
  next
    case (Inr d)
    with Some x assms have k: "(if \<not> d_admitted d
         then if d_outcome d = DEFERRED
              then seq (on_queues (enqueue it)) (\<lambda>_.
                   seq (publish_event E ''job.deferred'' [(''reason'', jstr ''resources''),
                      (''violations'', JArr (map jstr (d_violations d)))] (job_id r)) (\<lambda>_. ret False))
              else fail_queued E r (SAdmission (d_violations d)) ''resource_admission''
         else case d_reservation d of
           None \<Rightarrow> raise (SRuntime ''admitted resource decision has no reservation'')
         | Some rv \<Rightarrow> start_job E r (Some rv)) s1 = (Inr False, t)"
      by (simp add: admit_and_start_def capture_def seq_def)
    show ?thesis
    proof (cases "\<not> d_admitted d \<and> d_outcome d = DEFERRED")
      case True
      with k have k2: "seq (on_queues (enqueue it)) (\<lambda>_.
                   seq (publish_event E ''job.deferred'' [(''reason'', jstr ''resources''),
                      (''violations'', JArr (map jstr (d_violations d)))] (job_id r)) (\<lambda>_. ret False)) s1 = (Inr False, t)"
        by simp
      obtain u s2 where q: "on_queues (enqueue it) s1 = (Inr u, s2)"
        and p: "seq (publish_event E ''job.deferred'' [(''reason'', jstr ''resources''),
                      (''violations'', JArr (map jstr (d_violations d)))] (job_id r)) (\<lambda>_. ret False) s2 = (Inr False, t)"
        by (rule seq_cases [OF k2])
      from q obtain q' where s2: "s2 = s1\<lparr>s_queues := q'\<rparr>" by (auto simp: on_queues_def split: prod.splits)
      obtain ev s3 where "publish_event E ''job.deferred'' [(''reason'', jstr ''resources''),
                      (''violations'', JArr (map jstr (d_violations d)))] (job_id r) s2 = (Inr ev, s3)"
          "ret False s3 = (Inr False, t)"
        by (rule seq_cases [OF p])
      with that [OF Some x [unfolded Inr]] True s2 show ?thesis by (simp add: ret_def)
    next
      case False
      with k show ?thesis
        by (auto simp: raise_def split: if_splits option.splits)
    qed
  qed
qed

lemma deferred_same:
  assumes "broker_admit E est s = (Inr d, s1)" and "d_outcome d = DEFERRED" and "binv (s_broker s)" and "valid_estimate est"
  shows "same_jobs s s1" and "fst (admission_policy (b_limits (s_broker s)) (free_limits (s_broker s)) est) = DEFERRED"
proof -
  obtain br where a: "admit (en_monotonic E (s_tick s)) (en_uuid E (s_tick s)) est None (s_broker s) = (Inr d, br)"
      and s1: "s1 = s\<lparr>s_tick := s_tick s + 1, s_broker := br\<rparr>"
  proof -
    obtain x br where a: "admit (en_monotonic E (s_tick s)) (en_uuid E (s_tick s)) est None (s_broker s) = (x, br)" by fastforce
    with assms(1) show thesis
      by (cases x) (auto simp: broker_admit_def seq_def tick_def on_broker_def intro: that)
  qed
  obtain oc ac x where P: "admission_policy (b_limits (s_broker s)) (free_limits (s_broker s)) est = (oc, ac, x)"
    by (metis prod_cases3)
  have "oc = DEFERRED \<and> br = s_broker s"
    using admit_correct [OF assms(3,4) refl, where rid = None and fresh = "en_uuid E (s_tick s)" and now = "en_monotonic E (s_tick s)"]
      a assms(2) unfolding P by (auto split: if_splits)
  then show "same_jobs s s1" "fst (admission_policy (b_limits (s_broker s)) (free_limits (s_broker s)) est) = DEFERRED"
    by (simp_all add: P s1 same_jobs_def)
qed

lemma launch_false_blocked:
  assumes E: "good_env E" and inv: "sched_inv E s" and l: "launch_next E s = (Inr False, t)"
    and go: "length (s_active s) < s_max_concurrency s" "queue_length (s_queues s) \<noteq> 0"
  shows "\<exists>i. blocked_on i t"
proof -
  from inv have B: "qinv (s_queues s)" "binv (s_broker s)" "jinv (bus_journal (s_bus s))" "repo_ok (s_repo s)" "timely E s"
    by (simp_all add: sched_inv_def base_def)
  let ?now = "Finite (time_at E (s_tick s))"
  obtain it q1 where p: "pop_next ?now (s_queues s) = (Inr it, q1)" using pop_succeeds [OF B(1) go(2)] by blast
  let ?s = "s\<lparr>s_tick := s_tick s + 1, s_queues := q1\<rparr>"
  have now: "sched_now E s = (Inr ?now, s\<lparr>s_tick := s_tick s + 1\<rparr>)"
    using good_envD(1,2) [OF E, of "s_tick s"] by (simp add: sched_now_def seq_def tick_def ret_def not_less)
  from l go now p have it: "launch_item E it ?s = (Inr False, t)"
    by (simp add: launch_next_def reads_def seq_def on_queues_def not_le)
  let ?i = "qi_job_id it"
  obtain r where r: "repo_get (s_repo s) ?i = Some r" "j_status r = QUEUED"
    using it by (cases "repo_get (s_repo s) ?i") (auto simp: launch_item_def reads_def ret_def split: if_splits)
  from it r obtain x s1 where x: "read_cache E r ?s = (Inr x, s1)"
      and k: "(case x of Some e \<Rightarrow> seq (complete_from_cache E r (ce_value e)) (\<lambda>_. ret True) | None \<Rightarrow> admit_and_start E it r) s1 = (Inr False, t)"
    by (auto simp: launch_item_def reads_def elim!: seq_cases)
  have s1: "same_jobs ?s s1" by (rule read_cache_same [OF x])
  have "x = None" using k by (cases x) (auto simp: ret_def elim!: seq_cases)
  with k have "admit_and_start E it r s1 = (Inr False, t)" by simp
  then obtain est d s2 q' kvs ev where est: "resource_estimate r = Some est" and d: "broker_admit E est s1 = (Inr d, s2)" "d_outcome d = DEFERRED"
      and pub: "publish_event E ''job.deferred'' kvs (job_id r) (s2\<lparr>s_queues := q'\<rparr>) = (Inr ev, t)"
    by (rule admit_false)
  have "valid_estimate est" using B(5) r(1) est by (auto simp: timely_def)
  note s2 = deferred_same [OF d _ this]
  have br: "s_broker s1 = s_broker s" "jinv (bus_journal (s_bus s1))" using s1 B(3) by (simp_all add: same_jobs_def)
  from B(2) br s2 have s2: "same_jobs s1 s2"
      "fst (admission_policy (b_limits (s_broker s)) (free_limits (s_broker s)) est) = DEFERRED" by simp_all
  have j2: "jinv (bus_journal (s_bus (s2\<lparr>s_queues := q'\<rparr>)))" using s2(1) br(2) by (simp add: same_jobs_def)
  note ap = publish_same(2) [OF pub j2]
  have "s_repo t = s_repo s \<and> s_active t = s_active s \<and> s_max_concurrency t = s_max_concurrency s \<and> s_broker t = s_broker s"
    using s1 s2(1) publish_same(1) [OF pub] by (simp add: same_jobs_def)
  moreover have "job_id r = ?i" using B(4) r(1) by (auto elim: repo_okD)
  ultimately have "blocked_on ?i t"
    using r est s2(2) go(1) ap unfolding blocked_on_def by simp
  then show ?thesis ..
qed

lemma launch_all_total:
  assumes "good_env E" and "sched_inv E s"
  shows "\<exists>b t. launch_all E s = Some (Inr b, t) \<and> (sched_step E)\<^sup>*\<^sup>* s t
    \<and> (\<not> b \<longrightarrow> s_max_concurrency t \<le> length (s_active t) \<or> queue_length (s_queues t) = 0)
    \<and> (b \<longrightarrow> (\<exists>i. blocked_on i t))"
  using assms(2)
proof (induction "queue_length (s_queues s)" arbitrary: s rule: less_induct)
  case less
  show ?case
  proof (cases "length (s_active s) < s_max_concurrency s \<and> 0 < queue_length (s_queues s)")
    case False
    then have "launch_all E s = Some (Inr False, s)" by (subst launch_all.simps) (simp only: if_False)
    with False show ?thesis by (intro exI [of _ False] exI [of _ s]) auto
  next
    case True
    obtain x t where l: "launch_next E s = (x, t)" by fastforce
    have ok: "sched_inv E t" "is_ok x" using wp_never [OF launch_next_wp [OF assms(1) less.prems]] l by auto
    then obtain b where x: "x = Inr b" by (cases x) auto
    have st: "sched_step E s t" using step_launch [of E s] l by simp
    show ?thesis
    proof (cases b)
      case False
      have "launch_all E s = Some (Inr True, t)" using True False l x by (subst launch_all.simps) simp
      moreover have "\<exists>i. blocked_on i t"
        using launch_false_blocked [OF assms(1) less.prems _ _] l x False True by simp
      ultimately show ?thesis using st by blast
    next
      case b: True
      have "queue_length (s_queues t) < queue_length (s_queues s)"
        using launch_true_shrinks [OF assms(1) less.prems] l x b by simp
      from less.hyps [OF this ok(1)] obtain c u where u: "launch_all E t = Some (Inr c, u)" "(sched_step E)\<^sup>*\<^sup>* t u"
        "\<not> c \<longrightarrow> s_max_concurrency u \<le> length (s_active u) \<or> queue_length (s_queues u) = 0"
        "c \<longrightarrow> (\<exists>i. blocked_on i u)" by blast
      have "launch_all E s = Some (Inr c, u)" using True l x b u(1) by (subst launch_all.simps) simp
      moreover have "(sched_step E)\<^sup>*\<^sup>* s u" using st u(2) by (rule converse_rtranclp_into_rtranclp)
      ultimately show ?thesis using u(3,4) by blast
    qed
  qed
qed

text \<open>C16. The launching loop of \<open>run_until_idle\<close> ends, from every reachable state, without an
  exception and by launch steps only. When it is not blocked by resources, either nothing is
  queued any more or \<open>max_concurrency\<close> tasks exist: no job is left waiting beside a free slot. It
  answers that it is blocked only beside a free slot, and because of one job: that job is queued, the
  admission policy on what is free now defers it (none of its alternatives fits now, one would fit
  an idle machine), and the last event of the journal is its deferral.\<close>

theorem launching_ends:
  assumes "good_env E" and "sched_start s0" and "(sched_step E)\<^sup>*\<^sup>* s0 s"
  shows "\<exists>b t. launch_all E s = Some (Inr b, t) \<and> (sched_step E)\<^sup>*\<^sup>* s t
    \<and> (\<not> b \<longrightarrow> active_count t = s_max_concurrency t \<or> pending_count t = 0)
    \<and> (b \<longrightarrow> active_count t < s_max_concurrency t
        \<and> (\<exists>i r est evs ev. repo_get (s_repo t) i = Some r \<and> j_status r = QUEUED \<and> contains i (s_queues t)
             \<and> resource_estimate r = Some est
             \<and> fst (admission_policy (b_limits (s_broker t)) (free_limits (s_broker t)) est) = DEFERRED
             \<and> jn_events (bus_journal (s_bus t)) = evs @ [ev] \<and> ev_type ev = ''job.deferred'' \<and> ev_job_id ev = Some i))"
proof -
  from launch_all_total [OF assms(1) reach_inv [OF assms]] obtain b t where t: "launch_all E s = Some (Inr b, t)"
      "(sched_step E)\<^sup>*\<^sup>* s t" "\<not> b \<longrightarrow> s_max_concurrency t \<le> length (s_active t) \<or> queue_length (s_queues t) = 0"
      "b \<longrightarrow> (\<exists>i. blocked_on i t)" by blast
  have inv: "sched_inv E t" using reach_inv [OF assms(1,2)] assms(3) t(2) by (meson rtranclp_trans)
  then have le: "length (s_active t) \<le> s_max_concurrency t" by (simp add: sched_inv_def base_def)
  have "placed t i" for i using inv by (simp add: sched_inv_def)
  then have "contains i (s_queues t)" if "repo_get (s_repo t) i = Some r" "j_status r = QUEUED" for i r
    using that by (metis (mono_tags, lifting) option.simps(5) placed_def placed_view_def)
  with t le show ?thesis
    by (fastforce simp: active_count_def pending_count_def blocked_on_def)
qed

lemma launching_ends_witness:
  "\<exists>b t. launch_all sample_env sample_w2 = Some (Inr b, t) \<and> (sched_step sample_env)\<^sup>*\<^sup>* sample_w2 t"
  using launching_ends [OF sample_env_good sample_sched_start sample_run2] by blast

end
