(* ===== verification/SchedulerOutcomes.thy ===== *)
theory SchedulerOutcomes
  imports SchedulerSafety
begin

text \<open>
  What the outcome of a dispatch does to its job, on every branch of \<open>_execute\<close>, and that it does
  nothing to any other job.
\<close>

section \<open>Other jobs are left alone\<close>

definition apart :: "string \<Rightarrow> sched \<Rightarrow> sched \<Rightarrow> bool" where
  "apart i s s' = (\<forall>k. k \<noteq> i \<longrightarrow> repo_get (s_repo s') k = repo_get (s_repo s) k
     \<and> map_of (jr_history (s_repo s')) k = map_of (jr_history (s_repo s)) k
     \<and> map_of (s_active s') k = map_of (s_active s) k \<and> map_of (s_tokens s') k = map_of (s_tokens s) k
     \<and> map_of (s_reservations s') k = map_of (s_reservations s) k)"

definition own :: "string \<Rightarrow> 'a act \<Rightarrow> bool" where
  "own i m = (\<forall>s. apart i s (snd (m s)))"

lemma apart_trans: "apart i s t \<Longrightarrow> apart i t u \<Longrightarrow> apart i s u"
  by (simp add: apart_def)

lemma apart_same [intro]:
  "s_repo t = s_repo s \<Longrightarrow> s_active t = s_active s \<Longrightarrow> s_tokens t = s_tokens s \<Longrightarrow> s_reservations t = s_reservations s \<Longrightarrow>
   apart i s t"
  by (simp add: apart_def)

lemma ownD: "own i m \<Longrightarrow> m s = (r, t) \<Longrightarrow> apart i s t"
  unfolding own_def by (metis snd_conv)

lemma own_basic [simp]: "own i (ret x)" "own i (raise e)" "own i (lift_result f r)" "own i (tick t)"
  "own i (on_queues g)" "own i (on_cache c)" "own i (on_broker b)" "own i (on_bus u)"
  unfolding own_def ret_def raise_def lift_result_def tick_def on_queues_def on_cache_def on_broker_def on_bus_def
  by (auto split: prod.split)

lemma own_seq [intro!]: "own i m \<Longrightarrow> (\<And>x. own i (f x)) \<Longrightarrow> own i (seq m f)"
  unfolding own_def [of i "seq m f"] seq_def
  by (auto split: prod.split sum.split dest: ownD) (metis apart_trans own_def ownD)

lemma own_catch [intro!]: "own i m \<Longrightarrow> (\<And>e. own i (h e)) \<Longrightarrow> own i (catch m h)"
  unfolding own_def [of i "catch m h"] catch_def
  by (auto split: prod.split sum.split dest: ownD) (metis apart_trans own_def ownD)

lemma own_finally [intro!]: "own i m \<Longrightarrow> own i fin \<Longrightarrow> own i (finally_do m fin)"
  unfolding own_def [of i "finally_do m fin"] finally_do_def
  by (auto split: prod.split sum.split) (metis apart_trans ownD)+

lemma own_reads [intro!]: "(\<And>x. own i (k x)) \<Longrightarrow> own i (reads g k)"
  unfolding own_def reads_def by blast

lemma own_puts: "(\<And>s. apart i s (p s)) \<Longrightarrow> own i (puts p)"
  by (simp add: own_def puts_def)

lemma own_now [simp]: "own i (sched_now E)"
  unfolding sched_now_def by (auto split: pyfloat.split)

lemma store_own: "repo_store i r R = (res, R') \<Longrightarrow> k \<noteq> i \<Longrightarrow>
    map_of (jr_records R') k = map_of (jr_records R) k \<and> map_of (jr_history R') k = map_of (jr_history R) k"
  by (auto simp: repo_store_def Let_def map_of_update split: option.splits)

lemma own_transition [simp]: "own i (transition E i expected target rs er extra)"
proof -
  have "own i (on_repo (repo_transition i expected target now rs er))" for now
    unfolding own_def on_repo_def
    by (auto simp: apart_def repo_get_def repo_transition_def split: prod.split sum.splits option.splits dest: store_own)
  then show ?thesis
    unfolding transition_def publish_event_def by auto
qed

lemma own_publish [simp]: "own i (publish_event E ty kvs j)"
  unfolding publish_event_def by auto

lemma own_token [simp]: "own i (on_token i f)"
  unfolding own_def on_token_def by (auto simp: apart_def map_of_update split: prod.split option.split)

lemma own_release [simp]: "own i (release_reservation E i)"
  unfolding release_reservation_def
  by (auto split: option.split intro!: own_puts simp: apart_def map_of_delete)

lemma own_end_task [simp]: "own i (end_task E i)"
  unfolding end_task_def by (auto intro!: own_puts simp: apart_def map_of_delete)

lemma own_store_result [simp]: "own i (store_result E i r res)"
  unfolding store_result_def by (auto split: option.split)

lemma own_handle_failure [simp]: "own i (handle_failure E i e)"
  unfolding handle_failure_def cancel_job_now_def on_exception_def by (auto split: option.split)

lemma own_run_segment [intro!]: "own i body \<Longrightarrow> own i (run_segment E i body)"
proof -
  assume b: "own i body"
  have "apart i s (snd (run_segment E i body s))" for s
  proof (cases "body s")
    case (Pair r t)
    have t: "apart i s t" by (rule ownD [OF b Pair])
    have "apart i t (snd (end_task E i t))" "apart i t (snd (finally_do (raise e) (end_task E i) t))" for e :: sched_error
      using own_end_task own_finally [OF own_basic(2) own_end_task] unfolding own_def by blast+
    moreover have "apart i t (t\<lparr>s_active := AList.update i ph (s_active t)\<rparr>)" for ph
      by (simp add: apart_def map_of_update)
    ultimately show ?thesis
      using Pair t by (auto simp: run_segment_def split: sum.split option.split intro: apart_trans)
  qed
  then show ?thesis by (simp add: own_def)
qed

lemma own_task_result: "own i (task_result E i r out)"
  unfolding task_result_def body_result_def by (auto split: dispatch_outcome.split)

section \<open>What an outcome does to its job\<close>

text \<open>
  The decision \<open>_execute\<close> takes on the outcome of a dispatch: what the token says at the
  \<open>before_save\<close> checkpoint comes before a result; an exception that is a cancellation cancels; any
  other is retried when both the job and the policy have attempts left and the policy retries its
  class, and fails the job otherwise.
\<close>

datatype verdict = Completes json | Cancels string | Retries sched_error | Fails sched_error

definition verdict_on_error :: "environment \<Rightarrow> retry_policy \<Rightarrow> job \<Rightarrow> string option \<Rightarrow> sched_error \<Rightarrow> verdict" where
  "verdict_on_error E pol r reason e =
    (if is_cancellation e then Cancels (first_text reason (en_str E e))
     else if attempt r + 1 < max_attempts r \<and> attempt r + 1 < rp_max_attempts pol
       \<and> isinstance_exc (exc_of e) (rp_retryable pol) then Retries e
     else Fails e)"

definition verdict :: "environment \<Rightarrow> retry_policy \<Rightarrow> job \<Rightarrow> string option \<Rightarrow> dispatch_outcome \<Rightarrow> verdict" where
  "verdict E pol r reason out = (case out of
     Returned res \<Rightarrow> (case reason of None \<Rightarrow> Completes (dr_value res)
       | Some why \<Rightarrow> verdict_on_error E pol r reason (SToken (CancellationRequested why BEFORE_SAVE None)))
   | NotAResult \<Rightarrow> verdict_on_error E pol r reason (SType ''dispatcher must return DispatchResult'')
   | Raised e \<Rightarrow> verdict_on_error E pol r reason e)"

text \<open>The cache afterwards: only a cacheable result of a job with a cache key is stored.\<close>

definition cached_after :: "environment \<Rightarrow> job \<Rightarrow> string option \<Rightarrow> dispatch_outcome \<Rightarrow> sched \<Rightarrow> cache" where
  "cached_after E r reason out s = (case (out, reason, cache_key r) of
     (Returned res, None, Some k) \<Rightarrow>
        if dr_cacheable res
        then snd (cache_put (en_cache_clock E (s_tick s)) k (dr_raw res) (dr_size_bytes res) (dr_ttl_seconds res) (s_cache s))
        else s_cache s
   | _ \<Rightarrow> s_cache s)"

text \<open>What each verdict says of the job's record and of its task.\<close>

fun carried_out :: "environment \<Rightarrow> string \<Rightarrow> job \<Rightarrow> verdict \<Rightarrow> sched \<Rightarrow> bool" where
  "carried_out E i r (Retries e) s = (repo_get (s_repo s) i = Some r \<and> map_of (s_active s) i = Some (Sleeping r e))"
| "carried_out E i r (Completes v) s = (map_of (s_active s) i = None
     \<and> (\<exists>r'. repo_get (s_repo s) i = Some r' \<and> j_status r' = COMPLETED \<and> j_result r' = v \<and> j_error r' = None))"
| "carried_out E i r (Cancels why) s = (map_of (s_active s) i = None
     \<and> (\<exists>r'. repo_get (s_repo s) i = Some r' \<and> j_status r' = CANCELLED \<and> j_result r' = JNull
          \<and> j_error r' = Some (jobject [(''reason'', jstr why)])))"
| "carried_out E i r (Fails e) s = (map_of (s_active s) i = None
     \<and> (\<exists>r'. repo_get (s_repo s) i = Some r' \<and> j_status r' = FAILED \<and> j_result r' = JNull
          \<and> j_error r' = Some (error_payload E e)))"

text \<open>The same before the end of the stretch.\<close>

definition decided :: "environment \<Rightarrow> string \<Rightarrow> job \<Rightarrow> verdict \<Rightarrow> phase option \<Rightarrow> sched \<Rightarrow> bool" where
  "decided E i r v x s = (after E i x s
     \<and> (case v of Retries e \<Rightarrow> x = Some (Sleeping r e) | _ \<Rightarrow> x = None)
     \<and> carried_out E i r v (s\<lparr>s_active := (case v of Retries e \<Rightarrow> AList.update i (Sleeping r e) (s_active s)
          | _ \<Rightarrow> AList.delete i (s_active s))\<rparr>))"

lemma end_task_cache:
  assumes "good_env E" and "inside E {#} i s" and "settled i s"
  shows "wp (end_task E i) (\<lambda>_ s'. s_cache s' = s_cache s) never s"
proof -
  have "wp (release_reservation E i) (\<lambda>_ s'. s_cache s' = s_cache s) never s"
    by (rule release_wp [OF assms(1,2)]) (simp add: keptD)
  then show ?thesis by (simp add: end_task_def wp_finally_do)
qed

lemma wp_conj: "wp m Q never s \<Longrightarrow> wp m Q' never s \<Longrightarrow> wp m (\<lambda>x t. Q x t \<and> Q' x t) never s"
  by (auto simp: wp_def split: prod.splits sum.splits)

lemma run_segment_decided:
  assumes E: "good_env E" and b: "wp body (\<lambda>x s'. decided E i r v x s' \<and> s_cache s' = c) never s"
  shows "wp (run_segment E i body) (\<lambda>_ s'. sched_inv E s' \<and> carried_out E i r v s' \<and> s_cache s' = c) never s"
  unfolding wp_run_segment
proof (rule wp_mono [OF b], goal_cases)
  case (1 x t)
  then have d: "decided E i r v x t" and c: "s_cache t = c" by auto
  show ?case
  proof (cases x)
    case None
    with d have t: "inside E {#} i t" "settled i t" by (auto simp: decided_def after_def)
    have "wp (end_task E i) (\<lambda>_ s'. (sched_inv E s' \<and> s_repo s' = s_repo t \<and> map_of (s_active s') i = None) \<and> s_cache s' = s_cache t) never t"
      by (rule wp_conj [OF end_task_wp [OF E t] end_task_cache [OF E t]])
    then have "wp (end_task E i) (\<lambda>_ s'. sched_inv E s' \<and> carried_out E i r v s' \<and> s_cache s' = c) never t"
      by (rule wp_mono) (use d c None in \<open>cases v; auto simp: decided_def\<close>)
    with None show ?thesis by simp
  next
    case (Some ph)
    with d obtain e where v: "v = Retries e" "ph = Sleeping r e" by (cases v) (auto simp: decided_def)
    let ?t = "t\<lparr>s_active := AList.update i ph (s_active t)\<rparr>"
    have "inside E {#} i ?t"
      using d Some
      by (auto simp: decided_def after_def inside_def base_def placed_def books_def timely_def map_of_update
          length_update_present intro: wf_dict_update)
    with d Some v c show ?thesis
      by (auto simp: decided_def after_def intro: close_inside)
  qed
qed simp

lemma finish_decided:
  assumes E: "good_env E" and s: "inside E {#} i s" and h: "held i r s" and st: "j_status r = st"
    and t: "target \<in> transitions st" "terminal target"
    and vw: "v = JNull \<or> target = COMPLETED" "w = JNull \<or> is_object w \<and> target \<in> {FAILED, CANCELLED}"
    and d: "case d of Completes j \<Rightarrow> target = COMPLETED \<and> v = j \<and> w = JNull
      | Cancels why \<Rightarrow> target = CANCELLED \<and> v = JNull \<and> w = jobject [(''reason'', jstr why)]
      | Fails e \<Rightarrow> target = FAILED \<and> v = JNull \<and> w = error_payload E e
      | Retries e \<Rightarrow> False"
  shows "wp (transition E i st target (Frozen v) (Frozen w) extra)
    (\<lambda>r' s'. decided E i r d None s' \<and> s_cache s' = s_cache s) never s"
proof (rule wp_mono [OF finish_wp [OF E s h st t vw]])
  fix r' s'
  assume "after E i None s' \<and> j_status r' = target \<and> repo_get (s_repo s') i = Some r'
       \<and> j_result r' = v \<and> j_error r' = (if w = JNull then None else Some w) \<and> s_cache s' = s_cache s"
  moreover have "jobject kvs \<noteq> JNull" "error_payload E e \<noteq> JNull" for kvs e
    by (simp_all add: jobject_def error_payload_def)
  ultimately show "decided E i r d None s' \<and> s_cache s' = s_cache s"
    using d by (cases d) (auto simp: decided_def map_of_delete)
qed simp

lemma cancel_now_decided:
  assumes E: "good_env E" and s: "inside E {#} i s" and h: "held i r s"
  shows "wp (cancel_job_now E i d) (\<lambda>x s'. decided E i r (Cancels (first_text (token_reason i s) d)) x s' \<and> s_cache s' = s_cache s) never s"
proof -
  have t: "CANCELLED \<in> transitions (j_status r)" using heldD(6) [OF h] by auto
  have "wp (transition E i (j_status r) CANCELLED (Frozen JNull)
      (Frozen (jobject [(''reason'', jstr (first_text (token_reason i s) d))])) [])
      (\<lambda>r' s'. decided E i r (Cancels (first_text (token_reason i s) d)) None s' \<and> s_cache s' = s_cache s) never s"
    by (rule finish_decided [OF E s h refl t]) (simp_all add: terminal_def)
  then show ?thesis
    using heldD(1,5) [OF h] by (simp add: cancel_job_now_def no_value_def)
qed

lemma on_exception_decided:
  assumes E: "good_env E" and s: "inside E {#} i s" and h: "held i r s" and run: "j_status r = RUNNING"
  shows "wp (on_exception E i e) (\<lambda>x s'. decided E i r (if attempt r + 1 < max_attempts r \<and> attempt r + 1 < rp_max_attempts (s_policy s)
       \<and> isinstance_exc (exc_of e) (rp_retryable (s_policy s)) then Retries e else Fails e) x s' \<and> s_cache s' = s_cache s) never s"
    (is "wp _ (\<lambda>x s'. decided E i r (if ?again then _ else _) x s' \<and> _) never s")
proof -
  from inside_id [OF s heldD(1) [OF h]] have val: "valid_job r" and id: "job_id r = i" by auto
  have tid: "trimmed_identifier 160 i" using valid_job_id [OF val] id by simp
  have at: "0 \<le> attempt r" using val by (simp add: valid_job_iff lifetime_ok_def)
  have b: "can_retry (s_policy s) r e = Inr ?again" using at by (auto simp: can_retry_def should_retry_def)
  show ?thesis
  proof (cases ?again)
    case False
    have "wp (transition E i RUNNING FAILED (Frozen JNull) (Frozen (error_payload E e)) [])
        (\<lambda>r' s'. decided E i r (Fails e) None s' \<and> s_cache s' = s_cache s) never s"
      by (rule finish_decided [OF E s h run]) (simp_all add: terminal_def)
    moreover have "can_retry (s_policy s) r e = Inr False" using b False by simp
    ultimately show ?thesis
      unfolding if_not_P [OF False] using heldD(1,5) [OF h] run by (simp add: on_exception_def no_value_def)
  next
    case True
    obtain d where d: "delay_for_retry (s_policy s) (attempt r + 1) = Inr d"
      using delay_ok [of "attempt r + 1" "s_policy s"] at by auto
    have "wp (release_reservation E i) (\<lambda>_. wp (publish_event E ''job.retrying'' kvs i)
        (\<lambda>_ s'. decided E i r (Retries e) (Some (Sleeping r e)) s' \<and> s_cache s' = s_cache s) never) never s" for kvs
    proof (rule release_wp [OF E s])
      fix s1 assume s1: "inside E {#} i s1" "map_of (s_reservations s1) i = None" "kept s s1"
      show "wp (publish_event E ''job.retrying'' kvs i)
          (\<lambda>_ s'. decided E i r (Retries e) (Some (Sleeping r e)) s' \<and> s_cache s' = s_cache s) never s1"
      proof (rule publish_wp [OF E s1(1) job_event_names(4) _ tid])
        fix ev s2 assume s2: "inside E {#} i s2" "quiet s1 s2" "s_repo s2 = s_repo s1"
        have "placed (s2\<lparr>s_active := AList.update i (Sleeping r e) (s_active s2)\<rparr>) i"
          using heldD [OF h] s1(2) run True
          by (simp add: placed_def placed_view_def map_of_update quietD [OF s2(2)] keptD [OF s1(3)] s2(3))
        with s2(1) heldD(1,3) [OF h] s2(3) show "decided E i r (Retries e) (Some (Sleeping r e)) s2 \<and> s_cache s2 = s_cache s"
          by (simp add: decided_def after_def map_of_update quietD [OF s2(2)] keptD [OF s1(3)])
      qed simp
    qed
    moreover have "can_retry (s_policy s) r e = Inr True" using b True by simp
    ultimately show ?thesis
      unfolding if_P [OF True] using heldD(1,5) [OF h] d by (simp add: on_exception_def)
  qed
qed

lemma handle_failure_decided:
  assumes E: "good_env E" and s: "inside E {#} i s" and h: "held i r s" and run: "j_status r = RUNNING"
    and e: "is_cancellation e \<or> is_exception e"
  shows "wp (handle_failure E i e) (\<lambda>x s'. decided E i r (verdict_on_error E (s_policy s) r (token_reason i s) e) x s'
    \<and> s_cache s' = s_cache s) never s"
  using on_exception_decided [OF E s h run, of e] cancel_now_decided [OF E s h, of "en_str E e"] e
  by (auto simp: handle_failure_def verdict_on_error_def)


lemma store_result_cached:
  assumes E: "good_env E" and s: "inside E {#} i s" and h: "held i r s"
  shows "wp (store_result E i r res) (\<lambda>_ s'. inside E {#} i s' \<and> held i r s' \<and> s_repo s' = s_repo s
    \<and> s_cache s' = cached_after E r None (Returned res) s) never s"
proof -
  have "wp (store_result E i r res) (\<lambda>_ s'. inside E {#} i s' \<and> held i r s' \<and> s_repo s' = s_repo s) never s"
    by (rule store_result_wp [OF E s h]) simp
  moreover have "wp (store_result E i r res) (\<lambda>_ s'. s_cache s' = cached_after E r None (Returned res) s) (\<lambda>_ _. True) s"
    by (auto simp: store_result_def cached_after_def wp_on publish_event_def split: option.split prod.split sum.split)
  ultimately show ?thesis by (auto simp: wp_def split: prod.splits sum.splits)
qed

lemma body_result_decided:
  assumes E: "good_env E" and inv: "sched_inv E s" and ph: "map_of (s_active s) i = Some (Dispatching r)" and civ: "civil out"
  shows "wp (body_result E i r out) (\<lambda>x s'. decided E i r (verdict E (s_policy s) r (token_reason i s) out) x s'
    \<and> s_cache s' = cached_after E r (token_reason i s) out s) never s"
proof -
  from held_dispatching [OF inv ph] have r: "held i r s" "j_status r = RUNNING" by auto
  note ins = open_inside [OF inv, of i]
  show ?thesis
  proof (cases out)
    case (Raised e)
    with civ handle_failure_decided [OF E ins r] show ?thesis
      by (simp add: body_result_def civil_def verdict_def cached_after_def)
  next
    case NotAResult
    have "is_exception (SType ''dispatcher must return DispatchResult'')"
      by (simp add: is_exception_def isinstance_exc_def exc_def)
    with NotAResult handle_failure_decided [OF E ins r] show ?thesis
      by (simp add: body_result_def verdict_def cached_after_def)
  next
    case (Returned res)
    obtain t where t: "map_of (s_tokens s) i = Some t" using heldD(4) [OF r(1)] by blast
    obtain x t' where c: "checkpoint ''before_save'' None t = (x, t')" by fastforce
    let ?s = "s\<lparr>s_tokens := AList.update i t' (s_tokens s)\<rparr>"
    have i2: "inside E {#} i ?s" "held i r ?s" using inside_token [OF ins] held_token [OF r(1)] by auto
    have reason: "token_reason i s = ct_reason t" "token_reason i ?s = ct_reason t"
      using t c by (auto simp: token_reason_def map_of_update checkpoint_def split: option.splits if_splits)
    have tick: "cached_after E r q o' ?s = cached_after E r q o' s" for q o'
      by (simp add: cached_after_def split: dispatch_outcome.split option.split)
    show ?thesis
    proof (cases "ct_reason t")
      case None
      have x: "x = Inr ()" using c None by (auto simp: checkpoint_def checkpoint_of_def)
      have "wp (store_result E i r res) (\<lambda>_. wp (transition E i RUNNING COMPLETED (Frozen (dr_value res)) (Frozen JNull)
          [(''cache_hit'', JBool False)]) (\<lambda>_ s'. decided E i r (Completes (dr_value res)) None s'
            \<and> s_cache s' = cached_after E r None (Returned res) ?s) never) never ?s"
      proof (rule wp_mono [OF store_result_cached [OF E i2]])
        fix u s2 assume s2: "inside E {#} i s2 \<and> held i r s2 \<and> s_repo s2 = s_repo ?s \<and> s_cache s2 = cached_after E r None (Returned res) ?s"
        have "wp (transition E i RUNNING COMPLETED (Frozen (dr_value res)) (Frozen JNull) [(''cache_hit'', JBool False)])
            (\<lambda>_ s'. decided E i r (Completes (dr_value res)) None s' \<and> s_cache s' = s_cache s2) never s2"
          by (rule finish_decided [OF E _ _ r(2)]) (use s2 in \<open>auto simp: terminal_def\<close>)
        with s2 show "wp (transition E i RUNNING COMPLETED (Frozen (dr_value res)) (Frozen JNull)
          [(''cache_hit'', JBool False)]) (\<lambda>_ s'. decided E i r (Completes (dr_value res)) None s'
            \<and> s_cache s' = cached_after E r None (Returned res) ?s) never s2" by simp
      qed simp
      then have "wp (store_result E i r res) (\<lambda>_. wp (transition E i RUNNING COMPLETED (Frozen (dr_value res)) (Frozen JNull)
          [(''cache_hit'', JBool False)]) (\<lambda>_ s'. decided E i r (Completes (dr_value res)) None s'
            \<and> s_cache s' = cached_after E r None (Returned res) s) (\<lambda>e. Q e)) R ?s" for Q R
        unfolding tick by (rule wp_mono) (auto elim: wp_mono)
      with x Returned None show ?thesis
        by (simp add: body_result_def on_token_wp [OF t] c no_value_def verdict_def reason)
    next
      case (Some why)
      have x: "x = Inl (CancellationRequested why BEFORE_SAVE None)"
        using c Some by (auto simp: checkpoint_def checkpoint_of_def)
      have "cached_after E r (Some why) (Returned res) s = s_cache s" by (simp add: cached_after_def)
      with x Returned Some handle_failure_decided [OF E i2 r(2), of "SToken (CancellationRequested why BEFORE_SAVE None)"]
        cancelled_token show ?thesis
        by (simp add: body_result_def on_token_wp [OF t] c verdict_def reason)
    qed
  qed
qed

text \<open>
  C15. The outcome of a dispatch decides its job and touches no other. In every reachable state, when
  the dispatcher of a running job returns a result, returns something else, or raises, \<open>_execute\<close>
  goes through without an exception of its own and carries out exactly the verdict: with no
  cancellation pending a result completes the job with that value; a pending cancellation, or an
  exception that is one, cancels it with the reason; any other exception either leaves the job
  running, to be retried after a delay, when the job and the policy both have attempts left and the
  policy retries its class, or fails it with the error's payload. Unless it is to be retried the
  job's task and token are gone; its reservation is given back in every case; the cache changes
  exactly by the put of a cacheable result; and no other job's record, history, task, token or
  reservation changes.
\<close>

theorem dispatch_decides:
  assumes "good_env E" and "sched_start s0" and "(sched_step E)\<^sup>*\<^sup>* s0 s"
    and "map_of (s_active s) i = Some (Dispatching r)" and "civil out" and "task_result E i r out s = (x, s')"
  shows "x = Inr () \<and> carried_out E i r (verdict E (s_policy s) r (token_reason i s) out) s'
    \<and> map_of (s_reservations s') i = None \<and> (map_of (s_tokens s') i = None \<longleftrightarrow> map_of (s_active s') i = None)
    \<and> s_cache s' = cached_after E r (token_reason i s) out s
    \<and> (\<forall>k. k \<noteq> i \<longrightarrow> repo_get (s_repo s') k = repo_get (s_repo s) k
        \<and> map_of (jr_history (s_repo s')) k = map_of (jr_history (s_repo s)) k
        \<and> map_of (s_active s') k = map_of (s_active s) k \<and> map_of (s_tokens s') k = map_of (s_tokens s) k
        \<and> map_of (s_reservations s') k = map_of (s_reservations s) k)"
proof -
  note E = assms(1)
  have inv: "sched_inv E s" by (rule reach_inv [OF assms(1-3)])
  let ?v = "verdict E (s_policy s) r (token_reason i s) out"
  have "wp (task_result E i r out) (\<lambda>_ s'. sched_inv E s' \<and> carried_out E i r ?v s'
      \<and> s_cache s' = cached_after E r (token_reason i s) out s) never s"
    unfolding task_result_def
    by (rule run_segment_decided [OF E body_result_decided [OF E inv assms(4,5)]])
  then have ok: "x = Inr ()" "sched_inv E s'" "carried_out E i r ?v s'" "s_cache s' = cached_after E r (token_reason i s) out s"
    using assms(6) by (auto simp: wp_def split: sum.splits)
  have "placed s' i" using ok(2) by (simp add: sched_inv_def)
  with ok(3) have "map_of (s_reservations s') i = None" "map_of (s_tokens s') i = None \<longleftrightarrow> map_of (s_active s') i = None"
    by (cases ?v; auto simp: placed_def placed_view_def)+
  moreover have "apart i s s'" by (rule ownD [OF own_task_result assms(6)])
  ultimately show ?thesis using ok by (simp add: apart_def)
qed

lemma dispatch_decides_witness:
  "\<exists>s' r'. task_result sample_env ''job'' sample_running (Returned sample_result) sample_w3 = (Inr (), s')
    \<and> repo_get (s_repo s') ''job'' = Some r' \<and> j_status r' = COMPLETED \<and> map_of (s_active s') ''job'' = None"
proof -
  obtain x s' where t: "task_result sample_env ''job'' sample_running (Returned sample_result) sample_w3 = (x, s')"
    by fastforce
  have "token_reason ''job'' sample_w3 = None" by code_simp
  with dispatch_decides [OF sample_env_good sample_sched_start sample_run3 sample_w3_dispatching _ t] t show ?thesis
    by (auto simp: civil_def verdict_def)
qed

end
