(* ===== verification/Identifiers.thy ===== *)
theory Identifiers
  imports Prelude
begin

text \<open>
  core/ids.py: the syntax of stable identifiers. Each regular expression of the code is a
  predicate that splits the text at the separators, which none of the character classes between
  them contains; \<open>fullmatch\<close> leaves nothing over. On code points below 256, \<open>\d\<close> is the ten
  digits and \<open>\w\<close> is \<open>word_char\<close>.

  \<open>semver_sort_key\<close> is a tuple compared lexicographically; \<open>int()\<close> refuses more than 4300 digits.
\<close>

datatype id_error = IdentifierValidationError string | DigitLimit nat

section \<open>Characters and splitting\<close>

definition in_range :: "nat \<Rightarrow> nat \<Rightarrow> char \<Rightarrow> bool" where
  "in_range a b c = (a \<le> of_char c \<and> of_char c \<le> b)"

definition is_lower :: "char \<Rightarrow> bool" where
  "is_lower c = in_range 97 122 c"

definition is_upper :: "char \<Rightarrow> bool" where
  "is_upper c = in_range 65 90 c"

definition is_digit :: "char \<Rightarrow> bool" where
  "is_digit c = in_range 48 57 c"

text \<open>\<open>\w\<close>: letters, digits, the numeric signs of Latin-1 and the underscore.\<close>

definition word_char :: "char \<Rightarrow> bool" where
  "word_char c = (is_lower c \<or> is_upper c \<or> is_digit c \<or> c = CHR ''_''
     \<or> of_char c \<in> {170, 178, 179, 181, 185, 186, 188, 189, 190 :: nat}
     \<or> in_range 192 255 c \<and> of_char c \<notin> {215, 247 :: nat})"

text \<open>\<open>s.split(c)\<close>\<close>

fun py_split :: "char \<Rightarrow> string \<Rightarrow> string list" where
  "py_split c [] = [[]]"
| "py_split c (x # xs) = (if x = c then [] # py_split c xs else (x # hd (py_split c xs)) # tl (py_split c xs))"

definition before :: "char \<Rightarrow> string \<Rightarrow> string" where
  "before c s = takeWhile (\<lambda>x. x \<noteq> c) s"

text \<open>What follows the first \<open>c\<close>, if there is one.\<close>

definition after :: "char \<Rightarrow> string \<Rightarrow> string option" where
  "after c s = (case dropWhile (\<lambda>x. x \<noteq> c) s of [] \<Rightarrow> None | _ # r \<Rightarrow> Some r)"

section \<open>The patterns\<close>

definition port_name :: "string \<Rightarrow> bool" where
  "port_name s = (s \<noteq> [] \<and> is_lower (hd s) \<and> list_all (\<lambda>c. is_lower c \<or> is_digit c \<or> c = CHR ''_'') s)"

definition dotted_segment :: "string \<Rightarrow> bool" where
  "dotted_segment s = (s \<noteq> [] \<and> (is_lower (hd s) \<or> is_digit (hd s)) \<and> (is_lower (last s) \<or> is_digit (last s))
     \<and> list_all (\<lambda>c. is_lower c \<or> is_digit c \<or> c = CHR ''_'' \<or> c = CHR ''-'') s)"

definition dotted_id :: "string \<Rightarrow> bool" where
  "dotted_id s = (2 \<le> length (py_split CHR ''.'' s) \<and> list_all dotted_segment (py_split CHR ''.'' s))"

definition type_name :: "string \<Rightarrow> bool" where
  "type_name s = (take 3 s = ''NG_''
     \<and> list_all (\<lambda>w. w \<noteq> [] \<and> list_all (\<lambda>c. is_upper c \<or> is_digit c) w) (py_split CHR ''_'' (drop 3 s)))"

definition python_name :: "string \<Rightarrow> bool" where
  "python_name s = (s \<noteq> [] \<and> (is_lower (hd s) \<or> is_upper (hd s) \<or> hd s = CHR ''_'') \<and> list_all word_char s)"

definition entrypoint :: "string \<Rightarrow> bool" where
  "entrypoint s = (case py_split CHR '':'' s of
     [m, a] \<Rightarrow> list_all python_name (py_split CHR ''.'' m) \<and> list_all python_name (py_split CHR ''.'' a)
   | _ \<Rightarrow> False)"

definition sha256_hex :: "string \<Rightarrow> bool" where
  "sha256_hex s = (length s = 64 \<and> list_all (\<lambda>c. is_digit c \<or> in_range 97 102 c) s)"

section \<open>Semantic versions\<close>

definition numeric_id :: "string \<Rightarrow> bool" where
  "numeric_id s = (s \<noteq> [] \<and> list_all is_digit s \<and> (hd s = CHR ''0'' \<longrightarrow> length s = 1))"

definition build_id :: "string \<Rightarrow> bool" where
  "build_id s = (s \<noteq> [] \<and> list_all (\<lambda>c. is_digit c \<or> is_lower c \<or> is_upper c \<or> c = CHR ''-'') s)"

definition prerelease_id :: "string \<Rightarrow> bool" where
  "prerelease_id s = (numeric_id s \<or> build_id s \<and> \<not> list_all is_digit s)"

text \<open>The groups of the match: the three numbers, the prerelease and the build metadata.\<close>

definition semver_groups :: "string \<Rightarrow> (string list \<times> string option \<times> string option) option" where
  "semver_groups s = (let v = before CHR ''+'' s; build = after CHR ''+'' s;
       core = py_split CHR ''.'' (before CHR ''-'' v); pre = after CHR ''-'' v
     in if length core = 3 \<and> list_all numeric_id core
         \<and> (case pre of None \<Rightarrow> True | Some p \<Rightarrow> list_all prerelease_id (py_split CHR ''.'' p))
         \<and> (case build of None \<Rightarrow> True | Some b \<Rightarrow> list_all build_id (py_split CHR ''.'' b))
        then Some (core, pre, build) else None)"

definition semver :: "string \<Rightarrow> bool" where
  "semver s = (semver_groups s \<noteq> None)"

text \<open>\<open>int(s)\<close> of decimal digits.\<close>

definition digits_value :: "string \<Rightarrow> nat" where
  "digits_value s = foldl (\<lambda>n c. 10 * n + (of_char c - 48)) 0 s"

definition py_int :: "string \<Rightarrow> id_error + nat" where
  "py_int s = (if 4300 < length s then Inl (DigitLimit (length s)) else Inr (digits_value s))"

type_synonym pre_key = "nat \<times> nat \<times> string"

definition pre_item :: "string \<Rightarrow> id_error + pre_key" where
  "pre_item s = (if list_all is_digit s then rbind (py_int s) (\<lambda>n. Inr (0, n, [])) else Inr (1, 0, s))"

type_synonym semver_key = "nat \<times> nat \<times> nat \<times> nat \<times> pre_key list"

definition semver_sort_key :: "string \<Rightarrow> id_error + semver_key" where
  "semver_sort_key s = (case semver_groups s of
     Some ([a, b, c], pre, _) \<Rightarrow>
       rbind (case pre of None \<Rightarrow> Inr (1, [])
          | Some p \<Rightarrow> rbind (rmap pre_item (py_split CHR ''.'' p)) (\<lambda>ids. Inr (0, ids))) (\<lambda>(rel, ids).
       rbind (py_int a) (\<lambda>major. rbind (py_int b) (\<lambda>minor. rbind (py_int c) (\<lambda>patch.
         Inr (major, minor, patch, rel, ids)))))
   | _ \<Rightarrow> Inl (IdentifierValidationError ''version must be a semantic version''))"

section \<open>The validators\<close>

definition validate_semver :: "string \<Rightarrow> string \<Rightarrow> id_error + string" where
  "validate_semver field s = (if semver s then Inr s else Inl (IdentifierValidationError field))"

definition validate_dotted_id :: "string \<Rightarrow> string \<Rightarrow> id_error + string" where
  "validate_dotted_id field s = (if dotted_id s then Inr s else Inl (IdentifierValidationError field))"

definition validate_node_id :: "string \<Rightarrow> id_error + string" where
  "validate_node_id s = validate_dotted_id ''node id'' s"

definition validate_package_id :: "string \<Rightarrow> id_error + string" where
  "validate_package_id s = validate_dotted_id ''package id'' s"

definition validate_type_name :: "string \<Rightarrow> id_error + string" where
  "validate_type_name s = (if type_name s then Inr s else Inl (IdentifierValidationError ''type name''))"

definition validate_entrypoint :: "string \<Rightarrow> id_error + string" where
  "validate_entrypoint s = (if entrypoint s then Inr s else Inl (IdentifierValidationError ''runtime entrypoint''))"

definition validate_sha256 :: "string \<Rightarrow> id_error + string" where
  "validate_sha256 s = (if sha256_hex s then Inr s else Inl (IdentifierValidationError ''sha256''))"

definition validate_port_name :: "string \<Rightarrow> string \<Rightarrow> id_error + string" where
  "validate_port_name field s = (if port_name s then Inr s else Inl (IdentifierValidationError field))"

section \<open>Splitting and numerals\<close>

fun joined :: "char \<Rightarrow> string list \<Rightarrow> string" where
  "joined c [] = []"
| "joined c [w] = w"
| "joined c (w # ws) = w @ c # joined c ws"

lemma py_split_ne [simp]: "py_split c s \<noteq> []"
  by (induction s) auto

lemma joined_split [simp]: "joined c (py_split c s) = s"
proof (induction s)
  case (Cons x s)
  obtain w ws where w: "py_split c s = w # ws" by (cases "py_split c s") auto
  with Cons show ?case by (cases ws) auto
qed simp

lemma py_split_inj [simp]: "py_split c s = py_split c t \<longleftrightarrow> s = t"
  by (metis joined_split)

lemma py_split_none: "c \<notin> set s \<Longrightarrow> py_split c s = [s]"
  by (induction s) auto

lemma py_split_sep: "c \<notin> set a \<Longrightarrow> py_split c (a @ c # b) = a # py_split c b"
  by (induction a) auto

lemma before_after: "s = (case after c s of None \<Rightarrow> before c s | Some r \<Rightarrow> before c s @ c # r)"
proof (cases "dropWhile (\<lambda>x. x \<noteq> c) s")
  case Nil
  then have "takeWhile (\<lambda>x. x \<noteq> c) s = s" by (simp add: takeWhile_eq_all_conv)
  then show ?thesis by (simp only: after_def before_def Nil list.case option.case)
next
  case (Cons x r)
  have x: "x = c" using Cons hd_dropWhile [of "\<lambda>x. x \<noteq> c" s] by simp
  have "s = takeWhile (\<lambda>x. x \<noteq> c) s @ dropWhile (\<lambda>x. x \<noteq> c) s" by (rule takeWhile_dropWhile_id [symmetric])
  also have "\<dots> = takeWhile (\<lambda>x. x \<noteq> c) s @ c # r" unfolding Cons x by (rule refl)
  finally show ?thesis unfolding after_def before_def Cons list.case option.case .
qed

lemma before_after_eq: "s = t \<longleftrightarrow> before c s = before c t \<and> after c s = after c t"
  by (metis before_after)

lemma digits_value_snoc [simp]: "digits_value (s @ [c]) = 10 * digits_value s + (of_char c - 48)"
  by (simp add: digits_value_def)

lemma digits_value_Nil [simp]: "digits_value [] = 0"
  by (simp add: digits_value_def)

lemma of_char_digit: "d < 10 \<Longrightarrow> of_char (char_of (48 + d :: nat) :: char) = 48 + d"
  by simp

lemma digits_value_show [simp]: "digits_value (show_nat n) = n"
proof (induction n rule: show_nat.induct)
  case (1 n)
  show ?case
  proof (cases "n < 10")
    case True
    then show ?thesis by (subst show_nat.simps) (simp add: digits_value_def)
  next
    case False
    with 1 show ?thesis by (subst show_nat.simps) (simp add: of_char_digit)
  qed
qed

lemma show_nat_digits: "list_all is_digit (show_nat n) \<and> show_nat n \<noteq> []"
proof (induction n rule: show_nat.induct)
  case (1 n)
  show ?case
  proof (cases "n < 10")
    case True
    then show ?thesis by (subst (1 2) show_nat.simps) (simp add: is_digit_def in_range_def)
  next
    case False
    have "is_digit (char_of (48 + n mod 10))"
      using mod_less_divisor [of 10 n] by (simp add: is_digit_def in_range_def del: mod_less_divisor)
    with 1 False show ?thesis by (subst (1 2) show_nat.simps) simp
  qed
qed

lemma digit_of_char: "is_digit c \<Longrightarrow> char_of (48 + (of_char c - 48 :: nat)) = c \<and> of_char c - 48 < (10 :: nat)"
  by (auto simp: is_digit_def in_range_def)

lemma digits_value_pos:
  assumes "s \<noteq> []" and "list_all is_digit s" and "hd s \<noteq> CHR ''0''"
  shows "0 < digits_value s"
  using assms
proof (induction s rule: rev_induct)
  case (snoc c s)
  show ?case
  proof (cases "s = []")
    case True
    have "of_char c \<noteq> (48 :: nat)"
    proof
      assume "of_char c = (48 :: nat)"
      then have "c = char_of (48 :: nat)" by (metis char_of_char)
      also have "\<dots> = CHR ''0''" by code_simp
      finally show False using snoc.prems(3) True by simp
    qed
    with snoc.prems(2) True show ?thesis by (simp add: digits_value_def is_digit_def in_range_def)
  next
    case False
    with snoc show ?thesis by simp
  qed
qed simp

lemma show_digits_value: "numeric_id s \<Longrightarrow> show_nat (digits_value s) = s"
proof (induction s rule: rev_induct)
  case (snoc c s)
  have c: "is_digit c" using snoc.prems by (simp add: numeric_id_def)
  show ?case
  proof (cases "s = []")
    case True
    with digit_of_char [OF c] show ?thesis by (subst show_nat.simps) (simp add: digits_value_def)
  next
    case False
    with snoc.prems have s: "list_all is_digit s" "hd s \<noteq> CHR ''0''" by (auto simp: numeric_id_def)
    with False have "numeric_id s" by (simp add: numeric_id_def)
    with snoc.IH have "show_nat (digits_value s) = s" by blast
    moreover have "0 < digits_value s" using digits_value_pos [OF False s] .
    ultimately show ?thesis using digit_of_char [OF c] by (subst show_nat.simps) simp
  qed
qed (simp add: numeric_id_def)

lemma numeric_inj: "numeric_id s \<Longrightarrow> numeric_id t \<Longrightarrow> digits_value s = digits_value t \<longleftrightarrow> s = t"
  by (metis show_digits_value)

lemma pre_item_inj:
  assumes "prerelease_id s" and "prerelease_id t" and "pre_item s = Inr k" and "pre_item t = Inr l"
  shows "k = l \<longleftrightarrow> s = t"
  using assms by (auto simp: pre_item_def py_int_def prerelease_id_def numeric_inj split: if_splits)

lemma rmap_inj:
  assumes "rmap f xs = Inr us" and "rmap f ys = Inr vs"
    and "\<And>x y u v. x \<in> set xs \<Longrightarrow> y \<in> set ys \<Longrightarrow> f x = Inr u \<Longrightarrow> f y = Inr v \<Longrightarrow> u = v \<longleftrightarrow> x = y"
  shows "us = vs \<longleftrightarrow> xs = ys"
  using assms
proof (induction xs arbitrary: ys us vs)
  case Nil
  then show ?case by (cases ys) (auto simp: rbind_Inr_iff)
next
  case (Cons x xs)
  show ?case
  proof (cases ys)
    case Nil
    with Cons.prems(1,2) show ?thesis by (auto simp: rbind_Inr_iff)
  next
    case ys: (Cons y ys')
    from Cons.prems(1,2) ys obtain u us' v vs' where r: "f x = Inr u" "rmap f xs = Inr us'" "us = u # us'"
        "f y = Inr v" "rmap f ys' = Inr vs'" "vs = v # vs'" by (auto simp: rbind_Inr_iff)
    have "us' = vs' \<longleftrightarrow> xs = ys'" using Cons.IH [OF r(2,5)] Cons.prems(3) ys by auto
    moreover have "u = v \<longleftrightarrow> x = y" using Cons.prems(3) ys r by simp
    ultimately show ?thesis using r ys by simp
  qed
qed

section \<open>The order of versions\<close>

lemma semver_sort_key_cases:
  assumes "semver_sort_key s = Inr k"
  obtains a b c pre build rel ids where "semver_groups s = Some ([a, b, c], pre, build)"
    "py_split CHR ''.'' (before CHR ''-'' (before CHR ''+'' s)) = [a, b, c]"
    "after CHR ''-'' (before CHR ''+'' s) = pre" "numeric_id a" "numeric_id b" "numeric_id c"
    "\<forall>p. pre = Some p \<longrightarrow> list_all prerelease_id (py_split CHR ''.'' p)"
    "(case pre of None \<Rightarrow> rel = 1 \<and> ids = []
      | Some p \<Rightarrow> rel = 0 \<and> rmap pre_item (py_split CHR ''.'' p) = Inr ids)"
    "k = (digits_value a, digits_value b, digits_value c, rel, ids)"
proof -
  obtain core pre build where g: "semver_groups s = Some (core, pre, build)"
    using assms by (cases "semver_groups s") (auto simp: semver_sort_key_def)
  have "length core = 3" using g by (auto simp: semver_groups_def Let_def split: if_splits)
  then obtain a b c where abc: "core = [a, b, c]" by (auto simp: length_Suc_conv numeral_3_eq_3)
  have k: "rbind (case pre of None \<Rightarrow> Inr (1, [])
        | Some p \<Rightarrow> rbind (rmap pre_item (py_split CHR ''.'' p)) (\<lambda>ids. Inr (0, ids))) (\<lambda>(rel, ids).
       rbind (py_int a) (\<lambda>major. rbind (py_int b) (\<lambda>minor. rbind (py_int c) (\<lambda>patch.
         Inr (major, minor, patch, rel, ids))))) = Inr k"
    using assms g abc by (simp add: semver_sort_key_def)
  from g abc have parts: "py_split CHR ''.'' (before CHR ''-'' (before CHR ''+'' s)) = [a, b, c]"
      "after CHR ''-'' (before CHR ''+'' s) = pre" "numeric_id a" "numeric_id b" "numeric_id c"
      "\<forall>p. pre = Some p \<longrightarrow> list_all prerelease_id (py_split CHR ''.'' p)"
    by (auto simp: semver_groups_def Let_def split: if_splits)
  from k obtain rel ids where "case pre of None \<Rightarrow> rel = 1 \<and> ids = []
      | Some p \<Rightarrow> rel = 0 \<and> rmap pre_item (py_split CHR ''.'' p) = Inr ids"
      "k = (digits_value a, digits_value b, digits_value c, rel, ids)"
    by (cases pre) (auto simp: rbind_Inr_iff py_int_def split: if_splits)
  with g abc parts that show thesis by blast
qed

text \<open>C10. The order of versions. Two semantic versions get the same sort key exactly when they
  differ in their build metadata only. A release comes after every prerelease of the same
  numbers, and a larger major, minor or patch number decides, in that order, before any
  prerelease is looked at.\<close>

theorem semver_order:
  assumes "semver_sort_key s = Inr k" and "semver_sort_key t = Inr l"
    and "py_split CHR ''.'' (before CHR ''-'' (before CHR ''+'' s)) = [a, b, c]"
    and "py_split CHR ''.'' (before CHR ''-'' (before CHR ''+'' t)) = [d, e, f]"
  shows "(k = l \<longleftrightarrow> before CHR ''+'' s = before CHR ''+'' t)
    \<and> ((digits_value a, digits_value b, digits_value c) < (digits_value d, digits_value e, digits_value f) \<longrightarrow> k < l)
    \<and> ([a, b, c] = [d, e, f] \<and> after CHR ''-'' (before CHR ''+'' s) \<noteq> None \<and> after CHR ''-'' (before CHR ''+'' t) = None
        \<longrightarrow> k < l)"
proof -
  obtain a' b' c' pre rel ids where s: "py_split CHR ''.'' (before CHR ''-'' (before CHR ''+'' s)) = [a', b', c']"
      "after CHR ''-'' (before CHR ''+'' s) = pre" "numeric_id a'" "numeric_id b'" "numeric_id c'"
      "\<forall>p. pre = Some p \<longrightarrow> list_all prerelease_id (py_split CHR ''.'' p)"
      "case pre of None \<Rightarrow> rel = 1 \<and> ids = [] | Some p \<Rightarrow> rel = 0 \<and> rmap pre_item (py_split CHR ''.'' p) = Inr ids"
      "k = (digits_value a', digits_value b', digits_value c', rel, ids)"
    by (rule semver_sort_key_cases [OF assms(1)])
  obtain d' e' f' pre' rel' ids' where t: "py_split CHR ''.'' (before CHR ''-'' (before CHR ''+'' t)) = [d', e', f']"
      "after CHR ''-'' (before CHR ''+'' t) = pre'" "numeric_id d'" "numeric_id e'" "numeric_id f'"
      "\<forall>p. pre' = Some p \<longrightarrow> list_all prerelease_id (py_split CHR ''.'' p)"
      "case pre' of None \<Rightarrow> rel' = 1 \<and> ids' = [] | Some p \<Rightarrow> rel' = 0 \<and> rmap pre_item (py_split CHR ''.'' p) = Inr ids'"
      "l = (digits_value d', digits_value e', digits_value f', rel', ids')"
    by (rule semver_sort_key_cases [OF assms(2)])
  have core: "[a', b', c'] = [d', e', f'] \<longleftrightarrow> before CHR ''-'' (before CHR ''+'' s) = before CHR ''-'' (before CHR ''+'' t)"
    by (metis s(1) t(1) py_split_inj)
  have pre: "rel = rel' \<and> ids = ids' \<longleftrightarrow> pre = pre'"
  proof (cases pre; cases pre')
    fix p p' assume p: "pre = Some p" "pre' = Some p'"
    have "ids = ids' \<longleftrightarrow> py_split CHR ''.'' p = py_split CHR ''.'' p'"
    proof (rule rmap_inj [of pre_item])
      show "u = v \<longleftrightarrow> x = y" if "x \<in> set (py_split CHR ''.'' p)" "y \<in> set (py_split CHR ''.'' p')"
          "pre_item x = Inr u" "pre_item y = Inr v" for x y u v
        using that s(6) t(6) p by (intro pre_item_inj) (auto simp: list_all_iff)
    qed (use s(7) t(7) p in auto)
    with s(7) t(7) p show ?thesis by simp
  qed (use s(7) t(7) in auto)
  have "k = l \<longleftrightarrow> before CHR ''+'' s = before CHR ''+'' t"
    using s t core pre by (subst before_after_eq [of "before CHR ''+'' s" _ "CHR ''-''"]) (auto simp: numeric_inj)
  moreover have "rel = 0" if "pre \<noteq> None" using that s(7) by auto
  moreover have "rel' = 1" if "pre' = None" using that t(7) by auto
  ultimately show ?thesis using assms(3,4) s t by auto
qed

lemma semver_order_witness:
  "semver_sort_key ''1.0.0-rc.1'' = Inr (1, 0, 0, 0, [(1, 0, ''rc''), (0, 1, [])])
    \<and> ((1, 0, 0, 0, [(1, 0, ''rc''), (0, 1, [])]) :: semver_key) < (1, 0, 0, 1, [])"
proof -
  have k: "semver_sort_key ''1.0.0-rc.1'' = Inr (1, 0, 0, 0, [(1, 0, ''rc''), (0, 1, [])])"
    "semver_sort_key ''1.0.0+build.7'' = Inr (1, 0, 0, 1, [])" by code_simp+
  have p: "py_split CHR ''.'' (before CHR ''-'' (before CHR ''+'' ''1.0.0-rc.1'')) = [''1'', ''0'', ''0'']"
    "py_split CHR ''.'' (before CHR ''-'' (before CHR ''+'' ''1.0.0+build.7'')) = [''1'', ''0'', ''0'']"
    "after CHR ''-'' (before CHR ''+'' ''1.0.0-rc.1'') \<noteq> None" "after CHR ''-'' (before CHR ''+'' ''1.0.0+build.7'') = None"
    by code_simp+
  show ?thesis using k(1) semver_order [OF k p(1,2)] p(3,4) by blast
qed

end
