(* ===== verification/GraphTypes.thy ===== *)
theory GraphTypes
  imports Identifiers JsonValues Uuids Lifecycle
begin

text \<open>
  graph/types.py: type references and their registry, and the data of a workflow graph. A
  constructor is the function that makes the checks of \<open>__post_init__\<close>. The input names of a node
  are port names, hence ASCII, and are kept as strings; metadata keys are arbitrary code points.
  A mapping is a dictionary with distinct keys, which holds by typing.
\<close>

datatype graph_error = GIdent id_error | GJson json_error | GValue string | GType string
  | DuplicateTypeDefinition string int | UnknownTypeDefinition string int

text \<open>The classes that \<open>except ValueError\<close> catches: all but the \<open>TypeError\<close>.\<close>

definition is_value_error :: "graph_error \<Rightarrow> bool" where
  "is_value_error e = (case e of GType _ \<Rightarrow> False | _ \<Rightarrow> True)"

definition ident :: "id_error + 'a \<Rightarrow> graph_error + unit" where
  "ident r = (case r of Inl e \<Rightarrow> Inl (GIdent e) | Inr _ \<Rightarrow> Inr ())"

lemma ident_Inr_iff [simp]: "ident r = Inr u \<longleftrightarrow> is_ok r"
  by (cases r) (auto simp: ident_def)

definition require :: "bool \<Rightarrow> string \<Rightarrow> graph_error + unit" where
  "require b msg = guard_or b (GValue msg)"

lemma require_Inr_iff [simp]: "require b msg = Inr u \<longleftrightarrow> b"
  by (simp add: require_def)

lemma ident_ok [simp]: "is_ok r \<Longrightarrow> ident r = Inr ()"
  by (cases r) (auto simp: ident_def)

lemma require_True [simp]: "require True msg = Inr ()"
  by (simp add: require_def)

lemma require_False [simp]: "require False msg = Inl (GValue msg)"
  by (simp add: require_def)

lemma require_Inl [simp]: "require b msg = Inl e \<longleftrightarrow> \<not> b \<and> e = GValue msg"
  by (auto simp: require_def)

section \<open>Type references\<close>

record type_ref =
  tr_name :: string
  tr_version :: int

definition type_ref_post_init :: "type_ref \<Rightarrow> graph_error + type_ref" where
  "type_ref_post_init r =
     rbind (checks [ident (validate_type_name (tr_name r)),
       require (0 < tr_version r) ''type version must be a positive integer'']) (\<lambda>_. Inr r)"

text \<open>\<open>str\<close> of an integer of more than 4300 digits raises a \<open>ValueError\<close>, as \<open>int\<close> of its text does.\<close>

definition py_str_int :: "int \<Rightarrow> graph_error + string" where
  "py_str_int i = (if 4300 < length (show_nat (nat \<bar>i\<bar>)) then Inl (GIdent (DigitLimit (length (show_nat (nat \<bar>i\<bar>))))) else Inr (show_int i))"

definition type_ref_str :: "type_ref \<Rightarrow> graph_error + string" where
  "type_ref_str r = rbind (py_str_int (tr_version r)) (\<lambda>v. Inr (tr_name r @ CHR ''@'' # v))"

definition type_ref_parse :: "string \<Rightarrow> graph_error + type_ref" where
  "type_ref_parse s = (case py_split CHR ''@'' s of
     [name, raw] \<Rightarrow>
       if raw = [] \<or> \<not> list_all is_digit raw then Inl (GValue ''type reference version must be a positive integer'')
       else (case py_int raw of Inl e \<Rightarrow> Inl (GIdent e)
         | Inr n \<Rightarrow> type_ref_post_init \<lparr>tr_name = name, tr_version = int n\<rparr>)
   | _ \<Rightarrow> Inl (GValue ''type reference must use NG_NAME@VERSION syntax''))"

section \<open>The type registry\<close>

record port_type =
  pt_ref :: type_ref
  pt_schema :: json
  pt_serialization :: serialization_strategy
  pt_transfer :: transfer_policy

definition freeze_graph_field :: "string \<Rightarrow> field_value \<Rightarrow> graph_error + json" where
  "freeze_graph_field path f = (case f of
     Raw h v \<Rightarrow> (case freeze_json_value h (ustr path) v of Inl e \<Rightarrow> Inl (GJson e) | Inr j \<Rightarrow> Inr j)
   | Frozen j \<Rightarrow> Inr j)"

definition mk_port_type :: "type_ref \<Rightarrow> field_value \<Rightarrow> serialization_strategy \<Rightarrow> transfer_policy \<Rightarrow> graph_error + port_type" where
  "mk_port_type r sch ss tp =
     rbind (require (field_mapping sch) ''schema must be a JSON object'') (\<lambda>_.
     rbind (freeze_graph_field ''$.schema'' sch) (\<lambda>j.
       Inr \<lparr>pt_ref = r, pt_schema = j, pt_serialization = ss, pt_transfer = tp\<rparr>))"

type_synonym registry = "(string \<times> int, port_type) dict"

definition register :: "port_type \<Rightarrow> registry \<Rightarrow> graph_error + registry" where
  "register d R = (let key = (tr_name (pt_ref d), tr_version (pt_ref d)) in
     if key \<in> set (dkeys R) then Inl (DuplicateTypeDefinition (fst key) (snd key))
     else Inr (AList.update key d R))"

fun new_registry :: "port_type list \<Rightarrow> registry \<Rightarrow> graph_error + registry" where
  "new_registry [] R = Inr R"
| "new_registry (d # ds) R = rbind (register d R) (new_registry ds)"

definition resolve :: "string \<Rightarrow> int \<Rightarrow> registry \<Rightarrow> graph_error + port_type" where
  "resolve name v R = (case map_of R (name, v) of
     None \<Rightarrow> Inl (UnknownTypeDefinition name v) | Some d \<Rightarrow> Inr d)"

definition resolve_ref :: "string + type_ref \<Rightarrow> registry \<Rightarrow> graph_error + port_type" where
  "resolve_ref x R = rbind (case x of Inl s \<Rightarrow> type_ref_parse s | Inr r \<Rightarrow> Inr r)
     (\<lambda>r. resolve (tr_name r) (tr_version r) R)"

definition registry_definitions :: "registry \<Rightarrow> port_type list" where
  "registry_definitions R = map (\<lambda>k. the (map_of R k)) (sort (dkeys R))"

definition default_policies :: "(string \<times> transfer_policy) list" where
  "default_policies = [(''NG_MODEL'', HANDLE), (''NG_MODEL_INFO'', INLINE), (''NG_TEXT_ENCODER'', HANDLE),
     (''NG_VAE'', HANDLE), (''NG_CONDITIONING'', HANDLE), (''NG_LATENT'', HANDLE), (''NG_IMAGE'', HANDLE),
     (''NG_MASK'', HANDLE), (''NG_LORA_STACK'', INLINE), (''NG_SAMPLER_CONFIG'', INLINE),
     (''NG_ARTIFACT'', INLINE), (''NG_JOB_REFERENCE'', INLINE)]"

definition default_types :: "graph_error + port_type list" where
  "default_types = rmap (\<lambda>(name, policy).
     rbind (type_ref_post_init \<lparr>tr_name = name, tr_version = 1\<rparr>) (\<lambda>r.
       mk_port_type r (Frozen (JObj [(ustr ''type'', JStr (ustr ''string'')),
           (ustr ''x-comfyng-type'', JStr (ustr (name @ ''@1'')))]))
         (if policy = HANDLE then SHARED_HANDLE else JSON) policy)) default_policies"

definition default_registry :: "graph_error + registry" where
  "default_registry = rbind default_types (\<lambda>ds. new_registry ds [])"

section \<open>Tensor handles\<close>

record tensor_handle =
  th_id :: uuid
  th_storage :: string
  th_shape :: "int list"
  th_dtype :: string
  th_device :: string
  th_owner_worker :: string
  th_byte_size :: int

definition tensor_post_init :: "tensor_handle \<Rightarrow> graph_error + tensor_handle" where
  "tensor_post_init t = rbind (checks
     [require (th_storage t \<noteq> []) ''storage'', require (th_dtype t \<noteq> []) ''dtype'',
      require (th_device t \<noteq> []) ''device'', require (th_owner_worker t \<noteq> []) ''owner_worker'',
      require (th_shape t \<noteq> []) ''shape must be a non-empty tuple'',
      require (list_all (\<lambda>d. 0 < d) (th_shape t)) ''shape dimensions must be positive integers'',
      require (0 \<le> th_byte_size t) ''byte_size must be non-negative'']) (\<lambda>_. Inr t)"

section \<open>Graphs\<close>

record node =
  n_id :: uuid
  n_type_id :: string
  n_type_version :: string
  n_inputs :: "(string, json) dict"
  n_metadata :: "(ustr, json) dict"

definition json_members :: "json \<Rightarrow> (ustr \<times> json) list" where
  "json_members j = (case j of JObj ms \<Rightarrow> ms | _ \<Rightarrow> [])"

definition port_key :: "ustr \<Rightarrow> string option" where
  "port_key k = (if list_all (\<lambda>c. c < 256) k \<and> port_name (map char_of k) then Some (map char_of k) else None)"

definition port_members :: "(ustr \<times> json) list \<Rightarrow> graph_error + (string, json) dict" where
  "port_members ms = rmap (\<lambda>(k, j). case port_key k of
     None \<Rightarrow> Inl (GIdent (IdentifierValidationError ''input name'')) | Some s \<Rightarrow> Inr (s, j)) ms"

definition mk_node :: "uuid \<Rightarrow> string \<Rightarrow> string \<Rightarrow> field_value \<Rightarrow> field_value \<Rightarrow> graph_error + node" where
  "mk_node i ty ver inp meta =
     rbind (checks [ident (validate_node_id ty), ident (validate_semver ''type_version'' ver),
       require (field_mapping inp) ''inputs must be a JSON object'']) (\<lambda>_.
     rbind (freeze_graph_field ''$.inputs'' inp) (\<lambda>ji.
     rbind (port_members (json_members ji)) (\<lambda>ps.
     rbind (require (field_mapping meta) ''metadata must be a JSON object'') (\<lambda>_.
     rbind (freeze_graph_field ''$.metadata'' meta) (\<lambda>jm.
       Inr \<lparr>n_id = i, n_type_id = ty, n_type_version = ver, n_inputs = ps, n_metadata = json_members jm\<rparr>)))))"

record edge =
  e_source :: uuid
  e_source_port :: string
  e_target :: uuid
  e_target_port :: string

definition edge_post_init :: "edge \<Rightarrow> graph_error + edge" where
  "edge_post_init e = rbind (checks [ident (validate_port_name ''source_port'' (e_source_port e)),
     ident (validate_port_name ''target_port'' (e_target_port e))]) (\<lambda>_. Inr e)"

text \<open>\<open>InputBinding\<close> and \<open>OutputBinding\<close> have the same fields and checks.\<close>

record port_binding =
  b_node :: uuid
  b_port :: string

definition binding_post_init :: "string \<Rightarrow> port_binding \<Rightarrow> graph_error + port_binding" where
  "binding_post_init field b = rbind (ident (validate_port_name field (b_port b))) (\<lambda>_. Inr b)"

record graph =
  g_id :: uuid
  g_version :: int
  g_nodes :: "node list"
  g_edges :: "edge list"
  g_inputs :: "(string, port_binding) dict"
  g_outputs :: "(string, port_binding) dict"

definition graph_post_init :: "graph \<Rightarrow> graph_error + graph" where
  "graph_post_init g = rbind (checks
     ([require (0 < g_version g) ''graph version must be a positive integer'']
      @ map (\<lambda>k. ident (validate_port_name ''graph inputs name'' k)) (dkeys (g_inputs g))
      @ map (\<lambda>k. ident (validate_port_name ''graph outputs name'' k)) (dkeys (g_outputs g)))) (\<lambda>_. Inr g)"

section \<open>Constructed values\<close>

text \<open>What every value that passed its constructor satisfies.\<close>

definition valid_node :: "node \<Rightarrow> bool" where
  "valid_node n = (dotted_id (n_type_id n) \<and> semver (n_type_version n)
     \<and> list_all port_name (dkeys (n_inputs n)) \<and> wf_dict (n_inputs n))"

definition valid_edge :: "edge \<Rightarrow> bool" where
  "valid_edge e = (port_name (e_source_port e) \<and> port_name (e_target_port e))"

definition valid_bindings :: "(string, port_binding) dict \<Rightarrow> bool" where
  "valid_bindings d = (wf_dict d \<and> list_all (\<lambda>(k, b). port_name k \<and> port_name (b_port b)) d)"

definition valid_graph :: "graph \<Rightarrow> bool" where
  "valid_graph g = (0 < g_version g \<and> list_all valid_node (g_nodes g) \<and> list_all valid_edge (g_edges g)
     \<and> valid_bindings (g_inputs g) \<and> valid_bindings (g_outputs g))"

lemma validator_iffs [simp]:
  "is_ok (validate_port_name f s) \<longleftrightarrow> port_name s" "is_ok (validate_node_id s) \<longleftrightarrow> dotted_id s"
  "is_ok (validate_semver f s) \<longleftrightarrow> semver s" "is_ok (validate_type_name s) \<longleftrightarrow> type_name s"
  "is_ok (validate_sha256 s) \<longleftrightarrow> sha256_hex s" "is_ok (validate_package_id s) \<longleftrightarrow> dotted_id s"
  "is_ok (validate_entrypoint s) \<longleftrightarrow> entrypoint s"
  by (auto simp: validate_port_name_def validate_node_id_def validate_dotted_id_def validate_semver_def
      validate_type_name_def validate_sha256_def validate_package_id_def validate_entrypoint_def)

lemma edge_post_init_Inr [simp]: "edge_post_init e = Inr e' \<longleftrightarrow> e' = e \<and> valid_edge e"
  by (auto simp: edge_post_init_def rbind_Inr_iff valid_edge_def)

lemma binding_post_init_Inr [simp]: "binding_post_init f b = Inr b' \<longleftrightarrow> b' = b \<and> port_name (b_port b)"
  by (auto simp: binding_post_init_def rbind_Inr_iff)

lemma graph_post_init_Inr [simp]: "graph_post_init g = Inr g' \<longleftrightarrow> g' = g \<and> 0 < g_version g
   \<and> list_all port_name (dkeys (g_inputs g)) \<and> list_all port_name (dkeys (g_outputs g))"
  by (auto simp: graph_post_init_def rbind_Inr_iff list.pred_map o_def)

section \<open>Round trip of type references\<close>

lemma type_ref_post_init_Inr [simp]:
  "type_ref_post_init r = Inr r' \<longleftrightarrow> r' = r \<and> type_name (tr_name r) \<and> 0 < tr_version r"
  by (auto simp: type_ref_post_init_def rbind_Inr_iff)

lemma type_name_chars: "type_name s \<Longrightarrow> CHR ''@'' \<notin> set s"
proof
  assume t: "type_name s" and a: "CHR ''@'' \<in> set s"
  have seg: "\<And>w. w \<in> set (py_split CHR ''_'' (drop 3 s)) \<Longrightarrow> CHR ''@'' \<notin> set w"
  proof -
    fix w assume w: "w \<in> set (py_split CHR ''_'' (drop 3 s))"
    have "\<not> (is_upper CHR ''@'' \<or> is_digit CHR ''@'')" by code_simp
    with w t show "CHR ''@'' \<notin> set w" by (auto simp: type_name_def list_all_iff)
  qed
  have "set (joined c ws) \<subseteq> insert c (\<Union> (set ` set ws))" for c ws
    by (induction c ws rule: joined.induct) auto
  from this [of "CHR ''_''" "py_split CHR ''_'' (drop 3 s)"] seg have "CHR ''@'' \<notin> set (drop 3 s)" by auto
  moreover have "CHR ''@'' \<notin> set (take 3 s)" using t by (simp add: type_name_def)
  ultimately show False using a by (metis append_take_drop_id in_set_conv_decomp set_append Un_iff)
qed

lemma show_nat_no_at: "CHR ''@'' \<notin> set (show_nat n)"
  using show_nat_digits [of n] by (auto simp: list_all_iff is_digit_def in_range_def)

lemma type_ref_parse_str:
  assumes "type_name (tr_name r)" and "0 < tr_version r" and "type_ref_str r = Inr s"
  shows "type_ref_parse s = Inr r"
proof -
  from assms(2,3) have s: "s = tr_name r @ CHR ''@'' # show_nat (nat (tr_version r))"
      and len: "length (show_nat (nat (tr_version r))) \<le> 4300"
    by (auto simp: type_ref_str_def py_str_int_def show_int_def split: if_splits)
  have "py_split CHR ''@'' s = [tr_name r, show_nat (nat (tr_version r))]"
    unfolding s using type_name_chars [OF assms(1)] show_nat_no_at by (simp add: py_split_sep py_split_none)
  with assms len show ?thesis
    by (simp add: type_ref_parse_def show_nat_digits py_int_def)
qed

lemma type_ref_parse_valid: "type_ref_parse s = Inr r \<Longrightarrow> type_name (tr_name r) \<and> 0 < tr_version r"
  by (auto simp: type_ref_parse_def split: list.splits if_splits sum.splits)

lemma length_show_digits: "s \<noteq> [] \<Longrightarrow> list_all is_digit s \<Longrightarrow> length (show_nat (digits_value s)) \<le> length s"
proof (induction s rule: rev_induct)
  case (snoc c s)
  have c: "is_digit c" using snoc.prems by simp
  show ?case
  proof (cases "digits_value s = 0")
    case True
    with digit_of_char [OF c] show ?thesis by (subst show_nat.simps) simp
  next
    case False
    then have "s \<noteq> []" by auto
    with snoc have "length (show_nat (digits_value s)) \<le> length s" by simp
    with digit_of_char [OF c] False show ?thesis by (subst show_nat.simps) simp
  qed
qed simp

lemma type_ref_parse_parts:
  assumes "type_ref_parse t = Inr r"
  obtains raw where "t = tr_name r @ CHR ''@'' # raw" "raw \<noteq> []" "list_all is_digit raw" "length raw \<le> 4300"
    "tr_version r = int (digits_value raw)"
proof -
  from assms obtain name raw where sp: "py_split CHR ''@'' t = [name, raw]"
    by (auto simp: type_ref_parse_def split: list.splits)
  have "t = name @ CHR ''@'' # raw" using joined_split [of "CHR ''@''" t] unfolding sp by simp
  with assms sp that [of raw] show thesis
    by (auto simp: type_ref_parse_def py_int_def split: if_splits sum.splits)
qed

lemma show_digits_canonical:
  assumes "raw \<noteq> []" and "list_all is_digit raw" and "0 < digits_value raw"
  shows "show_nat (digits_value raw) = raw \<longleftrightarrow> hd raw \<noteq> CHR ''0''"
proof
  assume "hd raw \<noteq> CHR ''0''"
  with assms(1,2) have "numeric_id raw" by (simp add: numeric_id_def)
  then show "show_nat (digits_value raw) = raw" by (rule show_digits_value)
next
  have hd: "hd (show_nat n) \<noteq> CHR ''0''" if "0 < n" for n
    using that
  proof (induction n rule: show_nat.induct)
    case (1 n)
    show ?case
    proof (cases "n < 10")
      case True
      have "n \<in> {1, 2, 3, 4, 5, 6, 7, 8, 9}" using True 1(2) by auto
      with True show ?thesis by (subst show_nat.simps) (auto simp: char_of_def)
    next
      case False
      then have "hd (show_nat n) = hd (show_nat (n div 10))"
        by (subst show_nat.simps) (simp add: show_nat_digits)
      with 1(1) False show ?thesis by simp
    qed
  qed
  assume "show_nat (digits_value raw) = raw"
  with hd [OF assms(3)] show "hd raw \<noteq> CHR ''0''" by simp
qed

text \<open>C9. Round trip of type references. A reference that can be printed is read back as itself.
  Whatever text is read is a valid reference, its name and a decimal version joined by an at sign;
  the reference prints, and it prints as the text it was read from exactly when the version has
  no leading zero.\<close>

theorem type_ref_roundtrip:
  "(type_ref_post_init r = Inr r \<and> type_ref_str r = Inr s \<longrightarrow> type_ref_parse s = Inr r)
   \<and> (type_ref_parse t = Inr r \<longrightarrow> type_ref_post_init r = Inr r
      \<and> (\<exists>z raw. type_ref_str r = Inr z \<and> t = tr_name r @ CHR ''@'' # raw \<and> (z = t \<longleftrightarrow> hd raw \<noteq> CHR ''0'')))"
proof (intro conjI impI)
  assume "type_ref_post_init r = Inr r \<and> type_ref_str r = Inr s"
  then show "type_ref_parse s = Inr r" by (intro type_ref_parse_str) auto
next
  assume t: "type_ref_parse t = Inr r"
  show "type_ref_post_init r = Inr r" using type_ref_parse_valid [OF t] by simp
  obtain raw where raw: "t = tr_name r @ CHR ''@'' # raw" "raw \<noteq> []" "list_all is_digit raw" "length raw \<le> 4300"
      "tr_version r = int (digits_value raw)" by (rule type_ref_parse_parts [OF t])
  have pos: "0 < digits_value raw" using type_ref_parse_valid [OF t] raw(5) by simp
  have "type_ref_str r = Inr (tr_name r @ CHR ''@'' # show_nat (digits_value raw))"
    using length_show_digits [OF raw(2,3)] raw(4,5) by (simp add: type_ref_str_def py_str_int_def show_int_def)
  with raw(1) show_digits_canonical [OF raw(2,3) pos]
  show "\<exists>z raw. type_ref_str r = Inr z \<and> t = tr_name r @ CHR ''@'' # raw \<and> (z = t \<longleftrightarrow> hd raw \<noteq> CHR ''0'')" by auto
qed

lemma type_ref_roundtrip_witness:
  "type_ref_parse ''NG_LATENT@1'' = Inr \<lparr>tr_name = ''NG_LATENT'', tr_version = 1\<rparr>
   \<and> (\<exists>z raw. type_ref_str \<lparr>tr_name = ''NG_LATENT'', tr_version = 1\<rparr> = Inr z \<and> ''NG_LATENT@01'' = ''NG_LATENT'' @ CHR ''@'' # raw
       \<and> (z = ''NG_LATENT@01'' \<longleftrightarrow> hd raw \<noteq> CHR ''0''))"
proof -
  let ?r = "\<lparr>tr_name = ''NG_LATENT'', tr_version = 1\<rparr>"
  have "type_ref_post_init ?r = Inr ?r" "type_ref_str ?r = Inr ''NG_LATENT@1''" "type_ref_parse ''NG_LATENT@01'' = Inr ?r"
    by code_simp+
  with type_ref_roundtrip [of ?r "''NG_LATENT@1''" "''NG_LATENT@01''"] show ?thesis by auto
qed

section \<open>The default registry\<close>

text \<open>The twelve built-in types register without an error, in the order of the table.\<close>

lemma default_registry_ok:
  "(case default_registry of Inl _ \<Rightarrow> False
     | Inr R \<Rightarrow> dkeys R = map (\<lambda>(name, _). (name, 1)) default_policies \<and> length R = 12)"
  by code_simp

end
