(* ===== verification/Outcomes.thy ===== *)
theory Outcomes
  imports Prelude
begin

text \<open>
  Partial correctness with errors: \<open>outcome P Q r\<close> says that \<open>r\<close> is a result with \<open>P\<close> or an error
  with \<open>Q\<close>. One rule for each way the code composes computations that may raise.
\<close>

definition outcome :: "('a \<Rightarrow> bool) \<Rightarrow> ('e \<Rightarrow> bool) \<Rightarrow> 'e + 'a \<Rightarrow> bool" where
  "outcome P Q r = (case r of Inl e \<Rightarrow> Q e | Inr x \<Rightarrow> P x)"

named_theorems outcome_rules "introduction rules for outcomes"

lemma outcome_simps [simp]: "outcome P Q (Inl e) = Q e" "outcome P Q (Inr x) = P x"
  by (simp_all add: outcome_def)

lemma outcome_Inr: "outcome P Q r \<Longrightarrow> r = Inr x \<Longrightarrow> P x"
  by simp

lemma outcome_Inl: "outcome P Q r \<Longrightarrow> r = Inl e \<Longrightarrow> Q e"
  by simp

lemma outcome_mono:
  "outcome P Q r \<Longrightarrow> (\<And>x. r = Inr x \<Longrightarrow> P x \<Longrightarrow> P' x) \<Longrightarrow> (\<And>e. r = Inl e \<Longrightarrow> Q e \<Longrightarrow> Q' e) \<Longrightarrow> outcome P' Q' r"
  by (cases r) auto

lemma outcome_conj: "outcome P Q r \<Longrightarrow> outcome P' Q r \<Longrightarrow> outcome (\<lambda>x. P x \<and> P' x) Q r"
  by (cases r) auto

lemma outcome_rbind [outcome_rules]:
  "outcome P Q m \<Longrightarrow> (\<And>x. m = Inr x \<Longrightarrow> P x \<Longrightarrow> outcome P' Q (f x)) \<Longrightarrow> outcome P' Q (rbind m f)"
  by (cases m) auto

lemma outcome_if [outcome_rules]:
  "(b \<Longrightarrow> outcome P Q x) \<Longrightarrow> (\<not> b \<Longrightarrow> outcome P Q y) \<Longrightarrow> outcome P Q (if b then x else y)"
  by simp

lemma map_sum_Inr [simp]: "map_sum f id r = Inr x \<longleftrightarrow> r = Inr x"
  by (cases r) auto

lemma outcome_option:
  "(v = None \<Longrightarrow> outcome P Q x) \<Longrightarrow> (\<And>y. v = Some y \<Longrightarrow> outcome P Q (f y)) \<Longrightarrow>
   outcome P Q (case v of None \<Rightarrow> x | Some y \<Rightarrow> f y)"
  by (cases v) auto

lemma outcome_prod: "(\<And>a b. v = (a, b) \<Longrightarrow> outcome P Q (f a b)) \<Longrightarrow> outcome P Q (case v of (a, b) \<Rightarrow> f a b)"
  by (cases v) auto

lemmas outcome_cases = outcome_option outcome_prod

lemma outcome_map_sum: "outcome P Q (map_sum f g r) \<longleftrightarrow> outcome (\<lambda>x. P (g x)) (\<lambda>e. Q (f e)) r"
  by (cases r) auto

lemma outcome_rmap:
  assumes "\<And>x. x \<in> set xs \<Longrightarrow> outcome (P x) Q (f x)"
  shows "outcome (\<lambda>ys. list_all2 P xs ys) Q (rmap f xs)"
  using assms
proof (induction xs)
  case (Cons x xs)
  then have "outcome (P x) Q (f x)" "outcome (\<lambda>ys. list_all2 P xs ys) Q (rmap f xs)" by auto
  then show ?case by (cases "f x"; cases "rmap f xs") auto
qed simp

lemma outcome_fold:
  assumes "outcome P Q acc" and "\<And>x a. x \<in> set xs \<Longrightarrow> P a \<Longrightarrow> outcome P Q (f x a)"
  shows "outcome P Q (fold (\<lambda>x acc. rbind acc (f x)) xs acc)"
  using assms
proof (induction xs arbitrary: acc)
  case (Cons x xs)
  have "outcome P Q (rbind acc (f x))" using Cons.prems by (intro outcome_rbind) auto
  with Cons show ?case by simp
qed simp

lemma outcome_checks:
  assumes "\<And>c. c \<in> set cs \<Longrightarrow> outcome (\<lambda>_. True) Q c"
  shows "outcome (\<lambda>_. list_all (\<lambda>c. c = Inr ()) cs) Q (checks cs)"
  using assms
proof (induction cs)
  case (Cons c cs)
  then have "outcome (\<lambda>_. True) Q c" "outcome (\<lambda>_. list_all (\<lambda>c. c = Inr ()) cs) Q (checks cs)" by auto
  then show ?case by (cases c) auto
qed simp

lemma outcome_guard [simp]: "outcome P Q (guard_or b e) \<longleftrightarrow> (if b then P () else Q e)"
  by (simp add: guard_or_def)

end
