(* ===== verification/Manifest.thy ===== *)
theory Manifest
  imports GraphTypes Outcomes
begin

text \<open>
  plugins/manifest.py: the declarative manifests of plugin packages. A TOML document is a \<open>toml\<close>
  tree, a resolved path the list of its components, and the file system a record of what the code
  asks it. The text of a JSON file is the tree it parses to, with repeated keys still in place (a
  repeated key that is met before any other error is in the tree); NaN and the infinities, which
  \<open>json.loads\<close> reads and freezing refuses, are left out of it.

  Reading and parsing a file, resolving a path and checking a schema may fail with any exception: a
  \<open>failure\<close> is its class, as far as the \<open>except\<close> clauses of the module tell classes apart. Each
  clause catches the classes it names and no other, so a failure may escape: an integer of over 4300
  digits makes both parsers raise a plain \<open>ValueError\<close>, a deep nesting a \<open>RecursionError\<close>.

  An exception raised from another keeps its cause, whose text the message contains. Every
  exception class of the module is a \<open>ValueError\<close>.
\<close>

text \<open>
  \<open>DecodeFailure\<close> stands for \<open>TOMLDecodeError\<close> and \<open>JSONDecodeError\<close>; it and \<open>UnicodeFailure\<close> are
  value errors too, and \<open>RecursionFailure\<close> is a runtime error.
\<close>

datatype failure = OSFailure | UnicodeFailure | DecodeFailure | ValueFailure | RuntimeFailure | RecursionFailure
  | SchemaFailure

datatype manifest_error = ManifestValidationError string "manifest_error option"
  | PathContainmentError string | Plain graph_error | PyError failure

type_synonym path = "string list"

datatype toml = TStr string | TInt int | TFloat pyfloat | TBool bool | TDate
  | TArr "toml list" | TTable "(string \<times> toml) list"

record files =
  fs_resolve :: "path \<Rightarrow> string \<Rightarrow> failure + path"
  fs_is_file :: "path \<Rightarrow> bool"
  fs_is_dir :: "path \<Rightarrow> bool"
  fs_glob :: "path \<Rightarrow> path list"
  fs_toml :: "path \<Rightarrow> failure + toml"
  fs_json :: "path \<Rightarrow> failure + json"
  fs_check_schema :: "json \<Rightarrow> failure + unit"

text \<open>\<open>except (...) as exc: raise ManifestValidationError(...) from exc\<close> with the classes it names.\<close>

definition expecting :: "failure set \<Rightarrow> string \<Rightarrow> failure + 'a \<Rightarrow> manifest_error + 'a" where
  "expecting caught msg r = (case r of Inr x \<Rightarrow> Inr x
   | Inl f \<Rightarrow> Inl (if f \<in> caught then ManifestValidationError msg (Some (PyError f)) else PyError f))"

lemma expecting_Inr [simp]: "expecting S m r = Inr x \<longleftrightarrow> r = Inr x"
  by (cases r) (simp_all add: expecting_def)

text \<open>\<open>(OSError, RuntimeError)\<close>; \<open>(OSError, UnicodeError, TOMLDecodeError)\<close>, or with \<open>JSONDecodeError\<close>.\<close>

definition not_found :: "failure set" where
  "not_found = {OSFailure, RuntimeFailure, RecursionFailure}"

definition unreadable :: "failure set" where
  "unreadable = {OSFailure, UnicodeFailure, DecodeFailure}"

definition value_failure :: "failure \<Rightarrow> bool" where
  "value_failure f = (f \<in> {UnicodeFailure, DecodeFailure, ValueFailure})"

definition invalid :: "string \<Rightarrow> manifest_error + 'a" where
  "invalid msg = Inl (ManifestValidationError msg None)"

definition demand :: "bool \<Rightarrow> string \<Rightarrow> manifest_error + unit" where
  "demand b msg = guard_or b (ManifestValidationError msg None)"

definition value_error :: "manifest_error \<Rightarrow> bool" where
  "value_error e = (case e of Plain g \<Rightarrow> is_value_error g | PyError f \<Rightarrow> value_failure f | _ \<Rightarrow> True)"

text \<open>\<open>except ValueError as exc: raise ManifestValidationError(...) from exc\<close>\<close>

definition wrapped :: "string \<Rightarrow> manifest_error + 'a \<Rightarrow> manifest_error + 'a" where
  "wrapped msg r = (case r of Inr x \<Rightarrow> Inr x
   | Inl e \<Rightarrow> Inl (if value_error e then ManifestValidationError msg (Some e) else e))"

text \<open>The same after \<open>except (ManifestValidationError, PathContainmentError): raise\<close>.\<close>

definition wrapped_plain :: "string \<Rightarrow> manifest_error + 'a \<Rightarrow> manifest_error + 'a" where
  "wrapped_plain msg r = (case r of Inl (Plain g) \<Rightarrow> wrapped msg r
   | Inl (PyError f) \<Rightarrow> wrapped msg r | _ \<Rightarrow> r)"

abbreviation core :: "graph_error + 'a \<Rightarrow> manifest_error + 'a" where
  "core r \<equiv> map_sum Plain id r"

section \<open>Reading TOML values\<close>

definition m_string :: "string \<Rightarrow> toml \<Rightarrow> manifest_error + string" where
  "m_string field v = (case v of
     TStr s \<Rightarrow> if py_strip s = [] then invalid (field @ '' must be a non-empty string'') else Inr s
   | _ \<Rightarrow> invalid (field @ '' must be a string''))"

definition m_integer :: "string \<Rightarrow> int \<Rightarrow> toml \<Rightarrow> manifest_error + int" where
  "m_integer field minimum v = (case v of
     TInt i \<Rightarrow> if i < minimum then invalid (field @ '' must be an integer'') else Inr i
   | _ \<Rightarrow> invalid (field @ '' must be an integer''))"

definition m_boolean :: "string \<Rightarrow> toml \<Rightarrow> manifest_error + bool" where
  "m_boolean field v = (case v of TBool b \<Rightarrow> Inr b | _ \<Rightarrow> invalid (field @ '' must be a boolean''))"

definition m_table :: "string \<Rightarrow> string set \<Rightarrow> string set \<Rightarrow> toml \<Rightarrow> manifest_error + (string, toml) dict" where
  "m_table context required optional v = (case v of
     TTable t \<Rightarrow>
       if \<not> required \<subseteq> set (dkeys t) then invalid (context @ '' is missing required fields'')
       else if \<not> set (dkeys t) \<subseteq> required \<union> optional then invalid (context @ '' contains unknown fields'')
       else Inr t
   | _ \<Rightarrow> invalid (context @ '' must be a TOML table''))"

definition item :: "(string, toml) dict \<Rightarrow> string \<Rightarrow> toml" where
  "item t k = the (map_of t k)"

text \<open>A validator of core/ids.py on any value: what is not a string is refused like a bad string.\<close>

definition m_ident :: "(string \<Rightarrow> id_error + string) \<Rightarrow> toml \<Rightarrow> manifest_error + string" where
  "m_ident f v = map_sum (\<lambda>e. Plain (GIdent e)) id (f (case v of TStr s \<Rightarrow> s | _ \<Rightarrow> []))"

text \<open>Lookup of an enum member by its value.\<close>

definition m_enum :: "('a \<times> string) list \<Rightarrow> toml \<Rightarrow> manifest_error + 'a" where
  "m_enum members v = (case List.find (\<lambda>(x, s). v = TStr s) members of
     Some (x, s) \<Rightarrow> Inr x | None \<Rightarrow> Inl (Plain (GValue ''not a member of the enum'')))"

definition isolations :: "(runtime_isolation \<times> string) list" where
  "isolations = [(PLUGIN_WORKER, ''plugin_worker''), (GPU_MODEL_WORKER, ''gpu_model_worker''),
     (CPU_WORKER, ''cpu_worker''), (IO_WORKER, ''io_worker''), (ISOLATED_PROCESS, ''isolated_process'')]"

definition load_policies :: "(load_policy \<times> string) list" where
  "load_policies = [(LOAD_ON_EXECUTION, ''LOAD_ON_EXECUTION''), (PRELOAD_ON_WORKFLOW_OPEN, ''PRELOAD_ON_WORKFLOW_OPEN''),
     (PRELOAD_ON_QUEUE, ''PRELOAD_ON_QUEUE''), (KEEP_WARM, ''KEEP_WARM'')]"

definition unload_policies :: "(unload_policy \<times> string) list" where
  "unload_policies = [(UNLOAD_AFTER_EXECUTION, ''UNLOAD_AFTER_EXECUTION''), (UNLOAD_AFTER_IDLE, ''UNLOAD_AFTER_IDLE''),
     (UNLOAD_ON_MEMORY_PRESSURE, ''UNLOAD_ON_MEMORY_PRESSURE''), (PERSISTENT, ''PERSISTENT'')]"

definition gpu_requirements :: "(gpu_requirement \<times> string) list" where
  "gpu_requirements = [(GPU_NONE, ''none''), (GPU_OPTIONAL, ''optional''), (GPU_REQUIRED, ''required'')]"

section \<open>JSON schemas\<close>

definition json_get :: "(ustr \<times> json) list \<Rightarrow> string \<Rightarrow> json option" where
  "json_get ms k = map_of ms (ustr k)"

text \<open>\<open>_unique_object\<close>, called for every object of the text.\<close>

fun unique_object :: "json \<Rightarrow> bool" where
  "unique_object (JArr js) = list_all unique_object js"
| "unique_object (JObj ms) = (distinct (map fst ms) \<and> list_all (\<lambda>m. unique_object (snd m)) ms)"
| "unique_object _ = True"

text \<open>
  \<open>freeze_json_value\<close> of a tree that has just been parsed: there are no cycles and every float is
  finite, so what is left to refuse are surrogates and integers beyond 64 bits.
\<close>

fun freeze_tree :: "json \<Rightarrow> bool" where
  "freeze_tree (JStr s) = utf8_encodable s"
| "freeze_tree (JInt i) = (MIN_JSON_INTEGER \<le> i \<and> i \<le> MAX_JSON_INTEGER)"
| "freeze_tree (JArr js) = list_all freeze_tree js"
| "freeze_tree (JObj ms) = list_all (\<lambda>m. utf8_encodable (fst m) \<and> freeze_tree (snd m)) ms"
| "freeze_tree _ = True"

text \<open>Code points beyond 255 are in no identifier; for parsing, the last character stands for them.\<close>

definition latin :: "ustr \<Rightarrow> string" where
  "latin s = map (\<lambda>c. char_of (min c 255)) s"

definition parse_port_type :: "json \<Rightarrow> graph_error + type_ref" where
  "parse_port_type j = (case j of JStr s \<Rightarrow> type_ref_parse (latin s)
   | _ \<Rightarrow> Inl (GValue ''type reference must use NG_NAME@VERSION syntax''))"

definition type_key :: ustr where
  "type_key = ustr ''x-comfyng-type''"

definition known_type :: "json \<Rightarrow> bool" where
  "known_type j = (j = JNull \<or> is_ok (rbind default_registry (\<lambda>R. rbind (parse_port_type j) (\<lambda>r. resolve_ref (Inr r) R))))"

fun validate_type_references :: "json \<Rightarrow> bool" where
  "validate_type_references (JObj ms) =
     ((case map_of ms type_key of None \<Rightarrow> True | Some t \<Rightarrow> known_type t)
      \<and> list_all (\<lambda>m. fst m = type_key \<or> validate_type_references (snd m)) ms)"
| "validate_type_references (JArr js) = list_all validate_type_references js"
| "validate_type_references _ = True"

definition str_items :: "json option \<Rightarrow> ustr list option" where
  "str_items v = (case v of None \<Rightarrow> Some []
   | Some (JArr js) \<Rightarrow> those (map (\<lambda>j. case j of JStr s \<Rightarrow> Some s | _ \<Rightarrow> None) js)
   | Some _ \<Rightarrow> None)"

definition properties_of :: "(ustr \<times> json) list \<Rightarrow> (ustr \<times> json) list" where
  "properties_of ms = (case json_get ms ''properties'' of Some (JObj ps) \<Rightarrow> ps | _ \<Rightarrow> [])"

definition required_of :: "(ustr \<times> json) list \<Rightarrow> ustr list" where
  "required_of ms = (case str_items (json_get ms ''required'') of Some rs \<Rightarrow> rs | None \<Rightarrow> [])"

definition optional_of :: "(ustr \<times> json) list \<Rightarrow> ustr list" where
  "optional_of ms = (case str_items (json_get ms ''x-comfyng-optional'') of Some os \<Rightarrow> os | None \<Rightarrow> [])"

definition dialect :: json where
  "dialect = JStr (ustr ''https://json-schema.org/draft/2020-12/schema'')"

definition schema_checks :: "files \<Rightarrow> (ustr \<times> json) list \<Rightarrow> (manifest_error + unit) list" where
  "schema_checks fs ms =
    [demand (json_get ms ''$schema'' = Some dialect) ''must declare the dialect'',
     demand (json_get ms ''type'' = Some (JStr (ustr ''object''))) ''root type must be object'',
     expecting {SchemaFailure} ''is not valid Draft 2020-12 JSON Schema'' (fs_check_schema fs (JObj ms)),
     demand (case json_get ms ''properties'' of None \<Rightarrow> True | Some p \<Rightarrow> is_object p) ''properties must be an object'',
     demand (str_items (json_get ms ''required'') \<noteq> None) ''required must be a string array'',
     demand (distinct (required_of ms)) ''required contains duplicates'',
     demand (set (required_of ms) \<subseteq> set (dkeys (properties_of ms))) ''required references unknown properties'',
     demand (str_items (json_get ms ''x-comfyng-optional'') \<noteq> None) ''x-comfyng-optional must be a string array'',
     demand (list_all utf8_encodable (optional_of ms)) ''entry must contain valid Unicode scalar values'',
     demand (distinct (optional_of ms)) ''x-comfyng-optional contains duplicates'',
     demand (set (optional_of ms) \<subseteq> set (dkeys (properties_of ms))) ''x-comfyng-optional references unknown properties'',
     demand (set (optional_of ms) \<inter> set (required_of ms) = {}) ''x-comfyng-optional overlaps required properties'',
     demand (validate_type_references (JObj ms)) ''has invalid x-comfyng-type'']"

definition load_json_schema :: "files \<Rightarrow> path \<Rightarrow> manifest_error + (ustr \<times> json) list" where
  "load_json_schema fs p = rbind (expecting unreadable ''invalid JSON schema'' (fs_json fs p)) (\<lambda>j.
     rbind (demand (unique_object j) ''JSON schema contains duplicate key'') (\<lambda>_.
       case j of JObj ms \<Rightarrow> rbind (checks (schema_checks fs ms)) (\<lambda>_. Inr ms)
       | _ \<Rightarrow> invalid ''must be a JSON object''))"

definition lower_char :: "char \<Rightarrow> char" where
  "lower_char c = (if is_upper c then char_of (of_char c + 32 :: nat) else c)"

text \<open>\<open>resolved.suffix.lower() == ".json"\<close>; leading dots belong to the stem.\<close>

definition json_suffix :: "path \<Rightarrow> bool" where
  "json_suffix p = (p \<noteq> [] \<and> (let name = last p; n = length name - 5 in
     map lower_char (drop n name) = ''.json'' \<and> \<not> list_all (\<lambda>c. c = CHR ''.'') (take n name)))"

definition relative_to :: "path \<Rightarrow> path \<Rightarrow> bool" where
  "relative_to p base = (take (length base) p = base)"

definition resolve_schema_path :: "files \<Rightarrow> path \<Rightarrow> path \<Rightarrow> toml \<Rightarrow> manifest_error + path" where
  "resolve_schema_path fs manifest base raw = rbind (m_string ''node schema path'' raw) (\<lambda>s.
     if hd s = CHR ''/'' then Inl (PathContainmentError ''node schema paths must be relative'')
     else rbind (expecting not_found ''node schema does not exist'' (fs_resolve fs (butlast manifest) s)) (\<lambda>p.
         if \<not> relative_to p base then Inl (PathContainmentError ''node schema path escapes catalogue root'')
         else if \<not> fs_is_file fs p \<or> \<not> json_suffix p then invalid ''node schema must be a JSON file''
         else Inr p))"

section \<open>The contracts\<close>

record package_metadata =
  pm_id :: string
  pm_name :: string
  pm_version :: string
  pm_publisher :: string
  pm_license :: string
  pm_description :: "string option"

text \<open>An optional text, any value of which but None must pass \<open>_string\<close>.\<close>

definition optional_string :: "string \<Rightarrow> toml option \<Rightarrow> manifest_error + string option" where
  "optional_string field v = (case v of None \<Rightarrow> Inr None | Some t \<Rightarrow> rbind (m_string field t) (\<lambda>s. Inr (Some s)))"

definition mk_package :: "string \<Rightarrow> string \<Rightarrow> string \<Rightarrow> string \<Rightarrow> string \<Rightarrow> toml option \<Rightarrow> manifest_error + package_metadata" where
  "mk_package i name version publisher license description =
     rbind (core (ident (validate_package_id i))) (\<lambda>_.
     rbind (m_string ''package.name'' (TStr name)) (\<lambda>_.
     rbind (core (ident (validate_semver ''package.version'' version))) (\<lambda>_.
     rbind (m_string ''package.publisher'' (TStr publisher)) (\<lambda>_.
     rbind (m_string ''package.license'' (TStr license)) (\<lambda>_.
     rbind (optional_string ''package.description'' description) (\<lambda>d.
       Inr \<lparr>pm_id = i, pm_name = name, pm_version = version, pm_publisher = publisher,
         pm_license = license, pm_description = d\<rparr>))))))"

record runtime_definition =
  rd_language :: string
  rd_python :: string
  rd_entrypoint :: string
  rd_isolation :: runtime_isolation
  rd_load_policy :: load_policy
  rd_unload_policy :: unload_policy
  rd_idle_timeout_seconds :: int

definition runtime_post_init :: "runtime_definition \<Rightarrow> graph_error + runtime_definition" where
  "runtime_post_init r = rbind (checks
     [require (rd_language r = ''python'') ''runtime.language must be python'',
      require (rd_python r = ''>=3.14'') ''runtime.python must be >=3.14'',
      ident (validate_entrypoint (rd_entrypoint r)),
      require (0 \<le> rd_idle_timeout_seconds r) ''runtime.idle_timeout_seconds must be non-negative'']) (\<lambda>_. Inr r)"

record resource_requirements =
  rr_gpu :: gpu_requirement
  rr_estimated_ram_mb :: int
  rr_estimated_vram_mb :: int
  rr_network :: bool

definition resources_post_init :: "resource_requirements \<Rightarrow> graph_error + resource_requirements" where
  "resources_post_init r = rbind (checks
     [require (0 \<le> rr_estimated_ram_mb r) ''resources.estimated_ram_mb must be non-negative'',
      require (0 \<le> rr_estimated_vram_mb r) ''resources.estimated_vram_mb must be non-negative'']) (\<lambda>_. Inr r)"

record execution_traits =
  ex_pure :: bool
  ex_deterministic :: bool
  ex_cache_policy :: string
  ex_fusion_kind :: "string option"
  ex_side_effects :: "string list"

definition repeatable :: "execution_traits \<Rightarrow> bool" where
  "repeatable t = (ex_pure t \<and> ex_deterministic t \<and> ex_side_effects t = [])"

definition traits_post_init :: "execution_traits \<Rightarrow> graph_error + execution_traits" where
  "traits_post_init t = rbind (checks
     ([require (ex_cache_policy t \<in> {''never'', ''content''}) ''execution cache_policy must be never or content'',
       (case ex_fusion_kind t of None \<Rightarrow> Inr () | Some k \<Rightarrow> ident (validate_port_name ''execution.fusion_kind'' k))]
      @ map (\<lambda>s. ident (validate_port_name ''execution side effect'' s)) (ex_side_effects t) @
      [require (distinct (ex_side_effects t)) ''execution.side_effects must be unique'',
       require (\<not> (ex_pure t \<and> ex_side_effects t \<noteq> [])) ''pure execution cannot declare side effects'',
       require (\<not> (ex_cache_policy t = ''content'' \<and> \<not> repeatable t)) ''content execution cache requires pure deterministic behavior'',
       require (\<not> (ex_fusion_kind t \<noteq> None \<and> \<not> repeatable t)) ''execution fusion requires pure deterministic behavior''])) (\<lambda>_. Inr t)"

definition default_traits :: execution_traits where
  "default_traits = \<lparr>ex_pure = False, ex_deterministic = False, ex_cache_policy = ''never'', ex_fusion_kind = None,
     ex_side_effects = []\<rparr>"

text \<open>A schema of a definition is the frozen object, given by its members.\<close>

record node_definition =
  nd_id :: string
  nd_version :: string
  nd_display_name :: string
  nd_package_id :: string
  nd_input_path :: path
  nd_output_path :: path
  nd_input_schema :: "(ustr, json) dict"
  nd_output_schema :: "(ustr, json) dict"
  nd_execution :: execution_traits
  nd_category :: "string option"
  nd_description :: "string option"

definition mk_definition :: "string \<Rightarrow> string \<Rightarrow> string \<Rightarrow> string \<Rightarrow> path \<Rightarrow> path \<Rightarrow> (ustr \<times> json) list \<Rightarrow>
    (ustr \<times> json) list \<Rightarrow> execution_traits \<Rightarrow> toml option \<Rightarrow> toml option \<Rightarrow> manifest_error + node_definition" where
  "mk_definition i version display package input_path output_path input_schema output_schema execution category description =
     rbind (core (ident (validate_node_id i))) (\<lambda>_.
     rbind (core (ident (validate_semver ''node.version'' version))) (\<lambda>_.
     rbind (m_string ''node.display_name'' (TStr display)) (\<lambda>_.
     rbind (core (ident (validate_package_id package))) (\<lambda>_.
     rbind (core (require (freeze_tree (JObj input_schema)) ''$.input_schema'')) (\<lambda>_.
     rbind (core (require (freeze_tree (JObj output_schema)) ''$.output_schema'')) (\<lambda>_.
     rbind (optional_string ''node.category'' category) (\<lambda>c.
     rbind (optional_string ''node.description'' description) (\<lambda>d.
       Inr \<lparr>nd_id = i, nd_version = version, nd_display_name = display, nd_package_id = package,
         nd_input_path = input_path, nd_output_path = output_path, nd_input_schema = input_schema,
         nd_output_schema = output_schema, nd_execution = execution, nd_category = c, nd_description = d\<rparr>))))))))"

datatype permission = Allowed bool | Granted "string list"

record plugin_manifest =
  mf_package :: package_metadata
  mf_runtime :: runtime_definition
  mf_resources :: resource_requirements
  mf_nodes :: "node_definition list"
  mf_source_path :: path
  mf_permissions :: "(string, permission) dict"
  mf_dependencies :: "string list"
  mf_signature :: "string option"

definition text_items :: "toml \<Rightarrow> string list option" where
  "text_items v = (case v of
     TArr ts \<Rightarrow> those (map (\<lambda>t. case t of TStr s \<Rightarrow> Some s | _ \<Rightarrow> None) ts) | _ \<Rightarrow> None)"

definition permission_of :: "toml \<Rightarrow> permission option" where
  "permission_of v = (case v of TBool b \<Rightarrow> Some (Allowed b)
     | _ \<Rightarrow> (case text_items v of Some ss \<Rightarrow> if [] \<in> set ss then None else Some (Granted ss) | None \<Rightarrow> None))"

definition normalize_permission :: "string \<times> toml \<Rightarrow> manifest_error + string \<times> permission" where
  "normalize_permission kv = (case kv of (name, v) \<Rightarrow>
     rbind (core (ident (validate_port_name ''manifest permission name'' name))) (\<lambda>_.
       case permission_of v of None \<Rightarrow> Inl (Plain (GValue ''manifest permission values must be booleans or string arrays''))
       | Some p \<Rightarrow> Inr (name, p)))"

definition node_def_key :: "node_definition \<Rightarrow> string \<times> string" where
  "node_def_key n = (nd_id n, nd_version n)"

definition mk_manifest :: "int \<Rightarrow> package_metadata \<Rightarrow> runtime_definition \<Rightarrow> resource_requirements \<Rightarrow>
    node_definition list \<Rightarrow> path \<Rightarrow> (string \<times> toml) list \<Rightarrow> string list \<Rightarrow> string option \<Rightarrow> manifest_error + plugin_manifest" where
  "mk_manifest version package runtime resources nodes source permissions dependencies signature =
     rbind (core (checks [require (version = 1) ''manifest schema_version must be 1'',
       require (nodes \<noteq> []) ''manifest nodes must be a non-empty tuple'',
       require (distinct (map node_def_key nodes)) ''manifest contains duplicate node id/version pairs''])) (\<lambda>_.
     rbind (rmap normalize_permission permissions) (\<lambda>ps.
     rbind (core (require ([] \<notin> set dependencies) ''manifest dependencies must be non-empty strings'')) (\<lambda>_.
     rbind (optional_string ''manifest.signature'' (map_option TStr signature)) (\<lambda>sig.
       Inr \<lparr>mf_package = package, mf_runtime = runtime, mf_resources = resources, mf_nodes = nodes,
         mf_source_path = source, mf_permissions = ps, mf_dependencies = dependencies, mf_signature = sig\<rparr>))))"

section \<open>Parsing a manifest\<close>

definition parse_package :: "toml \<Rightarrow> manifest_error + package_metadata" where
  "parse_package raw =
     rbind (m_table ''package'' {''id'', ''name'', ''version'', ''publisher'', ''license''} {''description''} raw) (\<lambda>t.
     wrapped ''package'' (
       rbind (m_ident validate_package_id (item t ''id'')) (\<lambda>i.
       rbind (m_string ''package.name'' (item t ''name'')) (\<lambda>name.
       rbind (m_ident (validate_semver ''package.version'') (item t ''version'')) (\<lambda>version.
       rbind (m_string ''package.publisher'' (item t ''publisher'')) (\<lambda>publisher.
       rbind (m_string ''package.license'' (item t ''license'')) (\<lambda>license.
         mk_package i name version publisher license (map_of t ''description''))))))))"

definition parse_runtime :: "toml \<Rightarrow> manifest_error + runtime_definition" where
  "parse_runtime raw =
     rbind (m_table ''runtime'' {''language'', ''python'', ''entrypoint'', ''isolation'', ''unload_policy'',
       ''idle_timeout_seconds''} {''load_policy''} raw) (\<lambda>t.
     wrapped ''invalid runtime metadata'' (
       rbind (m_string ''runtime.language'' (item t ''language'')) (\<lambda>language.
       rbind (m_string ''runtime.python'' (item t ''python'')) (\<lambda>python.
       rbind (m_ident validate_entrypoint (item t ''entrypoint'')) (\<lambda>entry.
       rbind (m_enum isolations (item t ''isolation'')) (\<lambda>isolation.
       rbind (m_enum load_policies (case map_of t ''load_policy'' of None \<Rightarrow> TStr ''LOAD_ON_EXECUTION'' | Some v \<Rightarrow> v)) (\<lambda>lp.
       rbind (m_enum unload_policies (item t ''unload_policy'')) (\<lambda>up.
       rbind (m_integer ''runtime.idle_timeout_seconds'' 0 (item t ''idle_timeout_seconds'')) (\<lambda>idle.
         core (runtime_post_init \<lparr>rd_language = language, rd_python = python, rd_entrypoint = entry,
           rd_isolation = isolation, rd_load_policy = lp, rd_unload_policy = up, rd_idle_timeout_seconds = idle\<rparr>))))))))))"

definition parse_resources :: "toml \<Rightarrow> manifest_error + resource_requirements" where
  "parse_resources raw =
     rbind (m_table ''resources'' {''gpu'', ''estimated_ram_mb'', ''estimated_vram_mb'', ''network''} {} raw) (\<lambda>t.
     wrapped ''invalid resource metadata'' (
       rbind (m_enum gpu_requirements (item t ''gpu'')) (\<lambda>gpu.
       rbind (m_integer ''resources.estimated_ram_mb'' 0 (item t ''estimated_ram_mb'')) (\<lambda>ram.
       rbind (m_integer ''resources.estimated_vram_mb'' 0 (item t ''estimated_vram_mb'')) (\<lambda>vram.
       rbind (m_boolean ''resources.network'' (item t ''network'')) (\<lambda>network.
         core (resources_post_init \<lparr>rr_gpu = gpu, rr_estimated_ram_mb = ram, rr_estimated_vram_mb = vram,
           rr_network = network\<rparr>)))))))"

definition parse_traits :: "toml option \<Rightarrow> manifest_error + execution_traits" where
  "parse_traits v = (case v of None \<Rightarrow> Inr default_traits
   | Some raw \<Rightarrow>
     rbind (m_table ''execution'' {''pure'', ''deterministic'', ''cache_policy''} {''fusion_kind'', ''side_effects''} raw) (\<lambda>t.
     case text_items (case map_of t ''side_effects'' of None \<Rightarrow> TArr [] | Some s \<Rightarrow> s) of
       None \<Rightarrow> invalid ''execution.side_effects must be an array of strings''
     | Some effects \<Rightarrow>
       rbind (m_boolean ''execution.pure'' (item t ''pure'')) (\<lambda>pure.
       rbind (m_boolean ''execution.deterministic'' (item t ''deterministic'')) (\<lambda>det.
       rbind (m_string ''execution.cache_policy'' (item t ''cache_policy'')) (\<lambda>policy.
         core (traits_post_init \<lparr>ex_pure = pure, ex_deterministic = det, ex_cache_policy = policy,
           ex_fusion_kind = map_option (\<lambda>k. case k of TStr s \<Rightarrow> s | _ \<Rightarrow> []) (map_of t ''fusion_kind''),
           ex_side_effects = effects\<rparr>))))))"

definition parse_node :: "files \<Rightarrow> package_metadata \<Rightarrow> path \<Rightarrow> path \<Rightarrow> (string \<times> string) set \<Rightarrow> toml \<Rightarrow>
    manifest_error + node_definition" where
  "parse_node fs package p base seen raw =
     rbind (m_table ''nodes'' {''id'', ''display_name'', ''input_schema'', ''output_schema''}
       {''version'', ''category'', ''description'', ''execution''} raw) (\<lambda>t.
     wrapped_plain ''invalid nodes'' (
       rbind (m_ident validate_node_id (item t ''id'')) (\<lambda>i.
       rbind (m_ident (validate_semver ''node.version'')
         (case map_of t ''version'' of None \<Rightarrow> TStr (pm_version package) | Some v \<Rightarrow> v)) (\<lambda>version.
       rbind (demand ((i, version) \<notin> seen) ''duplicate node definition'') (\<lambda>_.
       rbind (resolve_schema_path fs p base (item t ''input_schema'')) (\<lambda>input_path.
       rbind (resolve_schema_path fs p base (item t ''output_schema'')) (\<lambda>output_path.
       rbind (parse_traits (map_of t ''execution'')) (\<lambda>execution.
       rbind (m_string ''node.display_name'' (item t ''display_name'')) (\<lambda>display.
       rbind (load_json_schema fs input_path) (\<lambda>input_schema.
       rbind (load_json_schema fs output_path) (\<lambda>output_schema.
         mk_definition i version display (pm_id package) input_path output_path input_schema output_schema
           execution (map_of t ''category'') (map_of t ''description''))))))))))))"

fun parse_nodes :: "files \<Rightarrow> package_metadata \<Rightarrow> path \<Rightarrow> path \<Rightarrow> (string \<times> string) set \<Rightarrow> toml list \<Rightarrow>
    manifest_error + node_definition list" where
  "parse_nodes fs package p base seen [] = Inr []"
| "parse_nodes fs package p base seen (raw # raws) =
     rbind (parse_node fs package p base seen raw) (\<lambda>n.
     rbind (parse_nodes fs package p base (insert (node_def_key n) seen) raws) (\<lambda>ns. Inr (n # ns)))"

definition parse_manifest :: "files \<Rightarrow> toml \<Rightarrow> path \<Rightarrow> path \<Rightarrow> manifest_error + plugin_manifest" where
  "parse_manifest fs payload p base =
     rbind (m_table ''manifest'' {''schema_version'', ''package'', ''runtime'', ''resources'', ''nodes''}
       {''permissions'', ''dependencies'', ''signature''} payload) (\<lambda>top.
     rbind (m_integer ''manifest.schema_version'' 1 (item top ''schema_version'')) (\<lambda>version.
     rbind (demand (version = 1) ''unsupported manifest schema_version'') (\<lambda>_.
     rbind (parse_package (item top ''package'')) (\<lambda>package.
     rbind (parse_runtime (item top ''runtime'')) (\<lambda>runtime.
     rbind (parse_resources (item top ''resources'')) (\<lambda>resources.
     rbind (case item top ''nodes'' of TArr (raw # raws) \<Rightarrow> Inr (raw # raws)
        | _ \<Rightarrow> invalid ''manifest.nodes must be a non-empty array of tables'') (\<lambda>raws.
     rbind (parse_nodes fs package p base {} raws) (\<lambda>nodes.
     rbind (case map_of top ''permissions'' of None \<Rightarrow> Inr [] | Some (TTable ps) \<Rightarrow> Inr ps
        | _ \<Rightarrow> invalid ''permissions must be a TOML table'') (\<lambda>permissions.
     rbind (demand (list_all (\<lambda>(k, v). permission_of v \<noteq> None) permissions)
       ''permission values must be booleans or string arrays'') (\<lambda>_.
     rbind (case text_items (case map_of top ''dependencies'' of None \<Rightarrow> TArr [] | Some d \<Rightarrow> d) of
         Some ds \<Rightarrow> if [] \<in> set ds then invalid ''dependencies must be an array of strings'' else Inr ds
       | None \<Rightarrow> invalid ''dependencies must be an array of strings'') (\<lambda>dependencies.
     rbind (optional_string ''manifest.signature'' (map_of top ''signature'')) (\<lambda>signature.
       wrapped ''manifest'' (mk_manifest version package runtime resources nodes p permissions dependencies signature)))))))))))))"

text \<open>A path that is still to be resolved is a directory and a path relative to it.\<close>

definition load :: "files \<Rightarrow> path \<times> string \<Rightarrow> (path \<times> string) option \<Rightarrow> manifest_error + plugin_manifest" where
  "load fs raw raw_root =
     rbind (expecting not_found ''manifest does not exist'' (fs_resolve fs (fst raw) (snd raw))) (\<lambda>p.
     rbind (demand (fs_is_file fs p \<and> p \<noteq> [] \<and> last p = ''ng-node.toml'') ''manifest path must name an ng-node.toml file'') (\<lambda>_.
     rbind (expecting not_found ''catalogue root does not exist''
       (case raw_root of None \<Rightarrow> Inr (butlast p) | Some r \<Rightarrow> fs_resolve fs (fst r) (snd r))) (\<lambda>base.
     rbind (demand (fs_is_dir fs base) ''catalogue root must be a directory'') (\<lambda>_.
     if \<not> relative_to p base then Inl (PathContainmentError ''manifest path escapes catalogue root'')
     else rbind (expecting unreadable ''invalid TOML manifest'' (fs_toml fs p)) (\<lambda>payload.
       parse_manifest fs payload p base)))))"

section \<open>What a parsed manifest satisfies\<close>

definition sound_schema :: "(ustr, json) dict \<Rightarrow> bool" where
  "sound_schema ms = (wf_dict ms \<and> unique_object (JObj ms) \<and> freeze_tree (JObj ms)
     \<and> distinct (required_of ms) \<and> set (required_of ms) \<subseteq> set (dkeys (properties_of ms))
     \<and> set (optional_of ms) \<subseteq> set (dkeys (properties_of ms)) - set (required_of ms)
     \<and> validate_type_references (JObj ms))"

definition sound_traits :: "execution_traits \<Rightarrow> bool" where
  "sound_traits t = (ex_cache_policy t \<in> {''never'', ''content''}
     \<and> (ex_cache_policy t = ''content'' \<or> ex_fusion_kind t \<noteq> None \<longrightarrow> repeatable t)
     \<and> (ex_pure t \<longrightarrow> ex_side_effects t = []) \<and> distinct (ex_side_effects t)
     \<and> (case ex_fusion_kind t of None \<Rightarrow> True | Some k \<Rightarrow> port_name k))"

definition sound_definition :: "node_definition \<Rightarrow> bool" where
  "sound_definition n = (dotted_id (nd_id n) \<and> semver (nd_version n) \<and> sound_traits (nd_execution n)
     \<and> sound_schema (nd_input_schema n) \<and> sound_schema (nd_output_schema n))"

text \<open>A schema file below the root of the catalogue, and its content.\<close>

definition schema_at :: "files \<Rightarrow> path \<Rightarrow> path \<Rightarrow> (ustr, json) dict \<Rightarrow> bool" where
  "schema_at fs base p ms = (relative_to p base \<and> fs_is_file fs p \<and> fs_json fs p = Inr (JObj ms)
     \<and> fs_check_schema fs (JObj ms) = Inr ())"

definition sound_package :: "package_metadata \<Rightarrow> runtime_definition \<Rightarrow> resource_requirements \<Rightarrow> bool" where
  "sound_package p r q = (dotted_id (pm_id p) \<and> semver (pm_version p) \<and> entrypoint (rd_entrypoint r)
     \<and> 0 \<le> rr_estimated_ram_mb q \<and> 0 \<le> rr_estimated_vram_mb q)"

definition sound_manifest :: "files \<Rightarrow> path \<Rightarrow> plugin_manifest \<Rightarrow> bool" where
  "sound_manifest fs base m = (mf_nodes m \<noteq> [] \<and> distinct (map node_def_key (mf_nodes m))
     \<and> sound_package (mf_package m) (mf_runtime m) (mf_resources m)
     \<and> (\<forall>n\<in>set (mf_nodes m). sound_definition n \<and> nd_package_id n = pm_id (mf_package m)
          \<and> schema_at fs base (nd_input_path n) (nd_input_schema n)
          \<and> schema_at fs base (nd_output_path n) (nd_output_schema n)))"

definition manifest_fault :: "manifest_error \<Rightarrow> bool" where
  "manifest_fault e = (case e of ManifestValidationError _ _ \<Rightarrow> True | PathContainmentError _ \<Rightarrow> True | _ \<Rightarrow> False)"

text \<open>
  The failures that escape: from the schema files, past the handlers of \<open>load_json_schema\<close>, of
  \<open>_resolve_schema_path\<close> and of the loop over the nodes; and from \<open>load\<close>.
\<close>

definition schema_leak :: "files \<Rightarrow> failure \<Rightarrow> bool" where
  "schema_leak fs f = (\<not> value_failure f \<and> ((\<exists>p. fs_json fs p = Inl f \<and> f \<noteq> OSFailure)
     \<or> (\<exists>j. fs_check_schema fs j = Inl f \<and> f \<noteq> SchemaFailure) \<or> (\<exists>d t. fs_resolve fs d t = Inl f \<and> f \<notin> not_found)))"

definition load_leak :: "files \<Rightarrow> failure \<Rightarrow> bool" where
  "load_leak fs f = ((\<exists>p. fs_toml fs p = Inl f \<and> f \<notin> unreadable) \<or> (\<exists>d t. fs_resolve fs d t = Inl f \<and> f \<notin> not_found)
     \<or> schema_leak fs f)"

definition inner_fault :: "files \<Rightarrow> manifest_error \<Rightarrow> bool" where
  "inner_fault fs e = (value_error e \<or> (\<exists>f. e = PyError f \<and> schema_leak fs f))"

definition outer_fault :: "files \<Rightarrow> manifest_error \<Rightarrow> bool" where
  "outer_fault fs e = (manifest_fault e \<or> (\<exists>f. e = PyError f \<and> schema_leak fs f))"

definition load_fault :: "files \<Rightarrow> manifest_error \<Rightarrow> bool" where
  "load_fault fs e = (manifest_fault e \<or> (\<exists>f. e = PyError f \<and> load_leak fs f))"

lemma outcome_inner: "outcome P value_error r \<Longrightarrow> outcome P (inner_fault fs) r"
  by (erule outcome_mono) (simp_all add: inner_fault_def)

lemma outcome_outer: "outcome P manifest_fault r \<Longrightarrow> outcome P (outer_fault fs) r"
  by (erule outcome_mono) (simp_all add: outer_fault_def)

lemma outcome_load: "outcome P manifest_fault r \<Longrightarrow> outcome P (load_fault fs) r"
  by (erule outcome_mono) (simp_all add: load_fault_def)

lemma outcome_load_outer: "outcome P (outer_fault fs) r \<Longrightarrow> outcome P (load_fault fs) r"
  by (erule outcome_mono) (auto simp: load_fault_def outer_fault_def load_leak_def)

lemma outcome_expecting:
  "(\<And>f. r = Inl f \<Longrightarrow> f \<in> S \<Longrightarrow> Q (ManifestValidationError m (Some (PyError f)))) \<Longrightarrow>
   (\<And>f. r = Inl f \<Longrightarrow> f \<notin> S \<Longrightarrow> Q (PyError f)) \<Longrightarrow> outcome (\<lambda>x. r = Inr x) Q (expecting S m r)"
  by (cases r) (simp_all add: expecting_def)

lemma value_error_simps [simp]:
  "value_error (ManifestValidationError m c)" "value_error (PathContainmentError m)"
  "value_error (Plain (GIdent i))" "value_error (Plain (GValue m))"
  "manifest_fault (ManifestValidationError m c)" "manifest_fault (PathContainmentError m)"
  by (simp_all add: value_error_def manifest_fault_def is_value_error_def)

lemma outcome_invalid [simp]: "outcome P value_error (invalid m)" "outcome P manifest_fault (invalid m)"
  by (simp_all add: invalid_def)

lemma outcome_demand [outcome_rules]:
  "outcome (\<lambda>_. b) value_error (demand b m)" "outcome (\<lambda>_. b) manifest_fault (demand b m)"
  by (simp_all add: demand_def)

lemma demand_Inr [simp]: "demand b m = Inr u \<longleftrightarrow> b"
  by (simp add: demand_def)

lemma outcome_wrapped [outcome_rules]: "outcome P value_error r \<Longrightarrow> outcome P manifest_fault (wrapped m r)"
  by (cases r) (auto simp: wrapped_def)

lemma outcome_wrapped_plain [outcome_rules]: "outcome P value_error r \<Longrightarrow> outcome P manifest_fault (wrapped_plain m r)"
  by (cases r) (auto simp: wrapped_def wrapped_plain_def manifest_fault_def split: manifest_error.split)

lemma outcome_wrapped_node: "outcome P (inner_fault fs) r \<Longrightarrow> outcome P (outer_fault fs) (wrapped_plain m r)"
proof (cases r)
  case (Inl e)
  assume "outcome P (inner_fault fs) r"
  with Inl show ?thesis
    by (cases e) (auto simp: wrapped_def wrapped_plain_def inner_fault_def outer_fault_def manifest_fault_def
        value_error_def schema_leak_def)
qed (simp add: wrapped_plain_def)

lemma outcome_core_ident [outcome_rules]: "outcome (\<lambda>_. is_ok r) value_error (core (ident r))"
  by (cases r) (auto simp: ident_def)

lemma outcome_core_require [outcome_rules]: "outcome (\<lambda>_. b) value_error (core (require b m))"
  by (cases b) auto

lemma checks_value_error:
  assumes "checks cs = Inl e" and "\<And>c e. c \<in> set cs \<Longrightarrow> c = Inl e \<Longrightarrow> is_value_error e"
  shows "is_value_error e"
  using assms
proof (induction cs)
  case (Cons c cs)
  then show ?case by (cases c) auto
qed simp

lemma ident_value_error: "ident r = Inl e \<Longrightarrow> is_value_error e"
  by (cases r) (auto simp: ident_def is_value_error_def)

lemma require_value_error: "require b m = Inl e \<Longrightarrow> is_value_error e"
  by (auto simp: is_value_error_def)

lemmas plain_value_errors = ident_value_error require_value_error
  sym [THEN ident_value_error] sym [THEN require_value_error]

lemma outcome_core_checks:
  assumes "\<And>c e. c \<in> set cs \<Longrightarrow> c = Inl e \<Longrightarrow> is_value_error e"
  shows "outcome (\<lambda>_. list_all (\<lambda>c. c = Inr ()) cs) value_error (core (checks cs))"
proof (cases "checks cs")
  case (Inl e)
  then have "is_value_error e" using assms by (rule checks_value_error)
  with Inl show ?thesis by (simp add: value_error_def)
next
  case (Inr u)
  then have "list_all (\<lambda>c. c = Inr ()) cs" by simp
  with Inr show ?thesis by (simp del: checks_Inr_iff)
qed

lemma outcome_m_ident: "outcome (\<lambda>_. True) value_error (m_ident f v)"
  unfolding m_ident_def by (cases "f (case v of TStr s \<Rightarrow> s | _ \<Rightarrow> [])") auto

lemma outcome_fields:
  "outcome (\<lambda>_. True) value_error (m_string f v)" "outcome (\<lambda>_. True) manifest_fault (m_string f v)"
  "outcome (\<lambda>_. True) value_error (m_integer f k v)" "outcome (\<lambda>_. True) manifest_fault (m_integer f k v)"
  "outcome (\<lambda>_. True) value_error (m_boolean f v)"
  "outcome (\<lambda>_. True) manifest_fault (m_table c req opt v)" "outcome (\<lambda>_. True) value_error (m_table c req opt v)"
  "outcome (\<lambda>_. True) value_error (m_enum ms v)"
  "outcome (\<lambda>_. True) value_error (optional_string f w)" "outcome (\<lambda>_. True) manifest_fault (optional_string f w)"
  by (auto simp: m_string_def m_integer_def m_boolean_def m_table_def m_ident_def m_enum_def optional_string_def
      rbind_def outcome_def invalid_def split: toml.split if_splits option.split sum.split sum.splits)


lemmas field_outcomes = outcome_fields outcome_m_ident

lemma outcome_mk_package: "outcome (\<lambda>p. pm_id p = i \<and> dotted_id (pm_id p) \<and> semver (pm_version p)) value_error (mk_package i name version publisher license description)"
  unfolding mk_package_def by (rule outcome_rules field_outcomes | simp)+

lemma parse_package_ok: "outcome (\<lambda>p. dotted_id (pm_id p) \<and> semver (pm_version p)) manifest_fault (parse_package raw)"
  unfolding parse_package_def
  by (rule outcome_rules field_outcomes outcome_mono [OF outcome_mk_package] | simp)+

lemma outcome_post_init:
  assumes "\<And>c e. c \<in> set cs \<Longrightarrow> c = Inl e \<Longrightarrow> is_value_error e"
  shows "outcome (\<lambda>y. y = x \<and> list_all (\<lambda>c. c = Inr ()) cs) value_error (core (rbind (checks cs) (\<lambda>_. Inr x)))"
proof -
  have "outcome (\<lambda>_. list_all (\<lambda>c. c = Inr ()) cs) value_error (core (checks cs))"
    by (rule outcome_core_checks) (rule assms)
  then show ?thesis by (cases "checks cs") (auto simp del: checks_Inr_iff)
qed

lemma outcome_runtime: "outcome (\<lambda>r. entrypoint (rd_entrypoint r)) value_error (core (runtime_post_init r))"
  unfolding runtime_post_init_def by (rule outcome_mono, rule outcome_post_init) (auto dest: plain_value_errors)

lemma outcome_resources: "outcome (\<lambda>q. 0 \<le> rr_estimated_ram_mb q \<and> 0 \<le> rr_estimated_vram_mb q) value_error (core (resources_post_init r))"
  unfolding resources_post_init_def by (rule outcome_mono, rule outcome_post_init) (auto dest: plain_value_errors)

lemma outcome_traits: "outcome sound_traits value_error (core (traits_post_init t))"
  unfolding traits_post_init_def
  by (rule outcome_mono, rule outcome_post_init)
    (auto dest: plain_value_errors simp: sound_traits_def repeatable_def split: option.splits)

lemma sound_default_traits [simp]: "sound_traits default_traits"
  by (simp add: sound_traits_def default_traits_def)

lemma parse_runtime_ok: "outcome (\<lambda>r. entrypoint (rd_entrypoint r)) manifest_fault (parse_runtime raw)"
  unfolding parse_runtime_def by (rule outcome_rules field_outcomes outcome_runtime | simp)+

lemma parse_resources_ok: "outcome (\<lambda>q. 0 \<le> rr_estimated_ram_mb q \<and> 0 \<le> rr_estimated_vram_mb q) manifest_fault (parse_resources raw)"
  unfolding parse_resources_def by (rule outcome_rules field_outcomes outcome_resources | simp)+

lemma parse_traits_ok: "outcome sound_traits value_error (parse_traits v)"
proof (cases v)
  case (Some raw)
  have "outcome sound_traits value_error (case text_items e of None \<Rightarrow> invalid m | Some effects \<Rightarrow> r effects)"
    if "\<And>effects. outcome sound_traits value_error (r effects)" for e m r
    using that by (cases "text_items e") auto
  note effects = this
  show ?thesis unfolding parse_traits_def Some option.case
    by (rule outcome_rules field_outcomes effects outcome_traits | (simp; fail))+
qed (simp add: parse_traits_def)

lemma schema_checks_sound:
  assumes "list_all (\<lambda>c. c = Inr ()) (schema_checks fs ms)" and "unique_object (JObj ms)" and "freeze_tree (JObj ms)"
  shows "sound_schema ms" and "fs_check_schema fs (JObj ms) = Inr ()"
  using assms by (auto simp: schema_checks_def sound_schema_def)

lemma load_json_schema_ok:
  "outcome (\<lambda>ms. fs_json fs p = Inr (JObj ms) \<and> unique_object (JObj ms) \<and> list_all (\<lambda>c. c = Inr ()) (schema_checks fs ms))
     (inner_fault fs) (load_json_schema fs p)"
proof -
  have valid: "outcome (\<lambda>_. True) (inner_fault fs) (expecting {SchemaFailure} m (fs_check_schema fs j))" for m j
    by (rule outcome_mono [OF outcome_expecting]) (auto simp: inner_fault_def schema_leak_def value_error_def)
  have dem: "outcome (\<lambda>_. True) (inner_fault fs) (demand b m)" for b m
    by (rule outcome_mono [OF outcome_inner [OF outcome_demand(1)]]) simp_all
  have chk: "outcome (\<lambda>_. list_all (\<lambda>c. c = Inr ()) (schema_checks fs ms)) (inner_fault fs) (checks (schema_checks fs ms))" for ms
    by (rule outcome_checks) (auto simp: schema_checks_def intro: valid dem)
  have obj: "outcome (\<lambda>ms. j = JObj ms \<and> list_all (\<lambda>c. c = Inr ()) (schema_checks fs ms)) (inner_fault fs)
      (case j of JObj ms \<Rightarrow> rbind (checks (schema_checks fs ms)) (\<lambda>_. Inr ms) | _ \<Rightarrow> invalid m)" for m j
    by (cases j) (simp_all add: outcome_inner, rule outcome_rbind [OF chk], simp)
  have readable: "outcome (\<lambda>j. fs_json fs p = Inr j) (inner_fault fs) (expecting unreadable m (fs_json fs p))" for m
    by (rule outcome_expecting) (auto simp: inner_fault_def schema_leak_def value_error_def unreadable_def)
  show ?thesis unfolding load_json_schema_def
    by (rule outcome_rbind, rule readable, rule outcome_rbind, rule outcome_inner, rule outcome_demand,
        rule outcome_mono [OF obj]) auto
qed

lemma resolve_schema_path_ok:
  "outcome (\<lambda>p. relative_to p base \<and> fs_is_file fs p) (inner_fault fs) (resolve_schema_path fs m base raw)"
proof -
  have found: "outcome (\<lambda>p. True) (inner_fault fs) (expecting not_found m (fs_resolve fs d t))" for m d t
    by (rule outcome_mono [OF outcome_expecting])
      (auto simp: inner_fault_def schema_leak_def value_error_def)
  show ?thesis unfolding resolve_schema_path_def
    by (rule outcome_rules found | rule outcome_inner, rule field_outcomes | (simp add: outcome_inner inner_fault_def; fail))+
qed

lemma parse_node_ok:
  "outcome (\<lambda>n. sound_definition n \<and> nd_package_id n = pm_id package \<and> node_def_key n \<notin> seen
     \<and> schema_at fs base (nd_input_path n) (nd_input_schema n) \<and> schema_at fs base (nd_output_path n) (nd_output_schema n))
   (outer_fault fs) (parse_node fs package p base seen raw)"
  unfolding parse_node_def mk_definition_def
  by (rule outcome_rbind outcome_outer [OF field_outcomes(6)] outcome_wrapped_node resolve_schema_path_ok load_json_schema_ok
      outcome_inner [OF outcome_demand(1)] outcome_inner [OF parse_traits_ok] outcome_inner [OF outcome_core_ident]
      outcome_inner [OF outcome_core_require] outcome_inner [OF field_outcomes(1)] outcome_inner [OF outcome_m_ident]
      outcome_inner [OF field_outcomes(9)]
    | (auto simp: sound_definition_def schema_at_def node_def_key_def dest: schema_checks_sound; fail))+

lemma parse_nodes_ok:
  "outcome (\<lambda>ns. distinct (map node_def_key ns) \<and> node_def_key ` set ns \<inter> seen = {} \<and> length ns = length raws
     \<and> (\<forall>n\<in>set ns. sound_definition n \<and> nd_package_id n = pm_id package
          \<and> schema_at fs base (nd_input_path n) (nd_input_schema n) \<and> schema_at fs base (nd_output_path n) (nd_output_schema n)))
   (outer_fault fs) (parse_nodes fs package p base seen raws)"
proof (induction raws arbitrary: seen)
  case (Cons raw raws)
  show ?case unfolding parse_nodes.simps
    by (rule outcome_rbind, rule parse_node_ok, rule outcome_rbind, rule Cons.IH) auto
qed simp

lemma normalize_permissions_ok: "outcome (\<lambda>_. True) value_error (rmap normalize_permission ps)"
proof -
  have "outcome (\<lambda>_. True) value_error (normalize_permission kv)" for kv
    unfolding normalize_permission_def by (rule outcome_cases outcome_rules | simp)+
  then show ?thesis by (rule outcome_mono [OF outcome_rmap]) simp_all
qed

lemma mk_manifest_ok:
  "outcome (\<lambda>m. mf_nodes m = nodes \<and> mf_package m = package \<and> mf_runtime m = runtime \<and> mf_resources m = resources \<and> nodes \<noteq> [] \<and> distinct (map node_def_key nodes))
     value_error (mk_manifest version package runtime resources nodes source permissions dependencies signature)"
  unfolding mk_manifest_def
  by (rule outcome_rbind, rule outcome_core_checks, fastforce dest: plain_value_errors)
    (rule outcome_rules field_outcomes normalize_permissions_ok | simp)+

lemma parse_manifest_ok: "outcome (sound_manifest fs base) (outer_fault fs) (parse_manifest fs payload p base)"
proof -
  have cases: "outcome (\<lambda>_. True) manifest_fault (case v of TArr (raw # raws) \<Rightarrow> Inr (raw # raws) | _ \<Rightarrow> invalid m)"
    "outcome (\<lambda>_. True) manifest_fault (case w of None \<Rightarrow> Inr [] | Some (TTable ps) \<Rightarrow> Inr ps | _ \<Rightarrow> invalid m')"
    "outcome (\<lambda>_. True) manifest_fault (case text_items u of None \<Rightarrow> invalid m'' | Some ds \<Rightarrow> if [] \<in> set ds then invalid m'' else Inr ds)"
    for v w u m m' m''
    by (auto split: toml.split list.split option.split)
  show ?thesis unfolding parse_manifest_def
    apply (rule outcome_rbind, rule outcome_outer, rule field_outcomes)
    apply (rule outcome_rbind, rule outcome_outer, rule field_outcomes)
    apply (rule outcome_rbind, rule outcome_outer, rule outcome_demand)
    apply (rule outcome_rbind, rule outcome_outer, rule parse_package_ok)
    apply (rule outcome_rbind, rule outcome_outer, rule parse_runtime_ok)
    apply (rule outcome_rbind, rule outcome_outer, rule parse_resources_ok)
    apply (rule outcome_rbind, rule outcome_outer, rule cases)
    apply (rule outcome_rbind, rule parse_nodes_ok)
    apply (rule outcome_rbind, rule outcome_outer, rule cases)
    apply (rule outcome_rbind, rule outcome_outer, rule outcome_demand)
    apply (rule outcome_rbind, rule outcome_outer, rule cases)
    apply (rule outcome_rbind, rule outcome_outer, rule field_outcomes)
    apply (rule outcome_outer, rule outcome_wrapped, rule outcome_mono [OF mk_manifest_ok])
    by (auto simp: sound_manifest_def sound_package_def)
qed

lemma load_ok: "outcome (\<lambda>m. \<exists>base. fs_is_dir fs base \<and> sound_manifest fs base m) (load_fault fs) (load fs raw raw_root)"
proof -
  have found: "outcome (\<lambda>p. True) (load_fault fs) (expecting not_found m (fs_resolve fs d t))" for m d t
    by (rule outcome_mono [OF outcome_expecting]) (auto simp: load_fault_def load_leak_def)
  have base: "outcome (\<lambda>p. True) (load_fault fs) (expecting not_found m
      (case raw_root of None \<Rightarrow> Inr b | Some r \<Rightarrow> fs_resolve fs (fst r) (snd r)))" for m b
    using found by (cases raw_root) (simp_all add: expecting_def)
  have readable: "outcome (\<lambda>t. True) (load_fault fs) (expecting unreadable m (fs_toml fs p))" for m p
    by (rule outcome_mono [OF outcome_expecting]) (auto simp: load_fault_def load_leak_def)
  have parsed: "outcome (\<lambda>m. \<exists>base. fs_is_dir fs base \<and> sound_manifest fs base m) (load_fault fs) (parse_manifest fs payload p base)"
    if "fs_is_dir fs base" for payload p base
    by (rule outcome_mono [OF outcome_load_outer [OF parse_manifest_ok]]) (use that in auto)
  show ?thesis unfolding load_def
    by (rule outcome_rbind, rule found, rule outcome_rbind, rule outcome_load, rule outcome_demand, rule outcome_rbind, rule base,
        rule outcome_rbind, rule outcome_load, rule outcome_demand, rule outcome_if, simp add: load_fault_def,
        rule outcome_rbind, rule readable, rule parsed)
qed


text \<open>A package with one node, in the directory \<open>/pack\<close>.\<close>

definition sample_schema :: "(ustr, json) dict" where
  "sample_schema = [(ustr ''$schema'', dialect), (ustr ''type'', JStr (ustr ''object'')),
     (ustr ''properties'', JObj [(ustr ''image'', JObj [(type_key, JStr (ustr ''NG_IMAGE@1''))])]),
     (ustr ''required'', JArr [JStr (ustr ''image'')])]"

definition sample_node_table :: toml where
  "sample_node_table = TTable [(''id'', TStr ''ng.image.blur''), (''display_name'', TStr ''Blur''),
     (''input_schema'', TStr ''blur.json''), (''output_schema'', TStr ''blur.json''),
     (''execution'', TTable [(''pure'', TBool True), (''deterministic'', TBool True), (''cache_policy'', TStr ''content'')])]"

definition sample_payload :: toml where
  "sample_payload = TTable [(''schema_version'', TInt 1),
     (''package'', TTable [(''id'', TStr ''ng.pack''), (''name'', TStr ''Pack''), (''version'', TStr ''1.0.0''),
        (''publisher'', TStr ''NG''), (''license'', TStr ''MIT'')]),
     (''runtime'', TTable [(''language'', TStr ''python''), (''python'', TStr ''>=3.14''), (''entrypoint'', TStr ''pack:run''),
        (''isolation'', TStr ''cpu_worker''), (''unload_policy'', TStr ''PERSISTENT''), (''idle_timeout_seconds'', TInt 0)]),
     (''resources'', TTable [(''gpu'', TStr ''none''), (''estimated_ram_mb'', TInt 64), (''estimated_vram_mb'', TInt 0),
        (''network'', TBool False)]),
     (''nodes'', TArr [sample_node_table])]"

definition sample_files :: files where
  "sample_files = \<lparr>fs_resolve = \<lambda>d s. Inr (if d = [] then (if s = ''/pack'' then [''pack''] else [''pack'', ''ng-node.toml''])
       else if s = [] then d else d @ [s]),
     fs_is_file = \<lambda>p. p \<noteq> [''pack''], fs_is_dir = \<lambda>p. p = [''pack''], fs_glob = \<lambda>p. [[''pack'', ''ng-node.toml'']],
     fs_toml = \<lambda>p. Inr sample_payload, fs_json = \<lambda>p. Inr (JObj sample_schema), fs_check_schema = \<lambda>j. Inr ()\<rparr>"

definition sample_manifest :: plugin_manifest where
  "sample_manifest = \<lparr>mf_package = \<lparr>pm_id = ''ng.pack'', pm_name = ''Pack'', pm_version = ''1.0.0'', pm_publisher = ''NG'',
       pm_license = ''MIT'', pm_description = None\<rparr>,
     mf_runtime = \<lparr>rd_language = ''python'', rd_python = ''>=3.14'', rd_entrypoint = ''pack:run'', rd_isolation = CPU_WORKER,
       rd_load_policy = LOAD_ON_EXECUTION, rd_unload_policy = PERSISTENT, rd_idle_timeout_seconds = 0\<rparr>,
     mf_resources = \<lparr>rr_gpu = GPU_NONE, rr_estimated_ram_mb = 64, rr_estimated_vram_mb = 0, rr_network = False\<rparr>,
     mf_nodes = [\<lparr>nd_id = ''ng.image.blur'', nd_version = ''1.0.0'', nd_display_name = ''Blur'', nd_package_id = ''ng.pack'',
       nd_input_path = [''pack'', ''blur.json''], nd_output_path = [''pack'', ''blur.json''],
       nd_input_schema = sample_schema, nd_output_schema = sample_schema,
       nd_execution = \<lparr>ex_pure = True, ex_deterministic = True, ex_cache_policy = ''content'', ex_fusion_kind = None, ex_side_effects = []\<rparr>,
       nd_category = None, nd_description = None\<rparr>],
     mf_source_path = [''pack'', ''ng-node.toml''], mf_permissions = [], mf_dependencies = [], mf_signature = None\<rparr>"

lemma sample_schema_loads: "load_json_schema sample_files p = Inr sample_schema"
proof -
  have "unique_object (JObj sample_schema)" and "checks (schema_checks sample_files sample_schema) = Inr ()"
    by code_simp+
  then show ?thesis by (simp add: load_json_schema_def sample_files_def demand_def expecting_def del: unique_object.simps checks_Inr_iff)
qed

lemma sample_parts:
  "parse_package (TTable [(''id'', TStr ''ng.pack''), (''name'', TStr ''Pack''), (''version'', TStr ''1.0.0''),
        (''publisher'', TStr ''NG''), (''license'', TStr ''MIT'')]) = Inr (mf_package sample_manifest)"
  "parse_runtime (TTable [(''language'', TStr ''python''), (''python'', TStr ''>=3.14''), (''entrypoint'', TStr ''pack:run''),
        (''isolation'', TStr ''cpu_worker''), (''unload_policy'', TStr ''PERSISTENT''), (''idle_timeout_seconds'', TInt 0)])
     = Inr (mf_runtime sample_manifest)"
  "parse_resources (TTable [(''gpu'', TStr ''none''), (''estimated_ram_mb'', TInt 64), (''estimated_vram_mb'', TInt 0),
        (''network'', TBool False)]) = Inr (mf_resources sample_manifest)"
  "resolve_schema_path sample_files [''pack'', ''ng-node.toml''] [''pack''] (TStr ''blur.json'') = Inr [''pack'', ''blur.json'']"
  "parse_traits (Some (TTable [(''pure'', TBool True), (''deterministic'', TBool True), (''cache_policy'', TStr ''content'')]))
     = Inr (nd_execution (hd (mf_nodes sample_manifest)))"
  by code_simp+

lemma sample_node_parsed:
  "parse_node sample_files (mf_package sample_manifest) [''pack'', ''ng-node.toml''] [''pack''] {} sample_node_table
   = Inr (hd (mf_nodes sample_manifest))"
proof -
  have ok: "dotted_id ''ng.image.blur''" "semver ''1.0.0''" "dotted_id ''ng.pack''" "m_string ''node.display_name'' (TStr ''Blur'') = Inr ''Blur''"
    by code_simp+
  have frozen: "freeze_tree (JObj sample_schema)"
    by (simp add: sample_schema_def dialect_def type_key_def utf8_encodable_def ustr_def)
  have "mk_definition ''ng.image.blur'' ''1.0.0'' ''Blur'' ''ng.pack'' [''pack'', ''blur.json''] [''pack'', ''blur.json'']
      sample_schema sample_schema (nd_execution (hd (mf_nodes sample_manifest))) None None = Inr (hd (mf_nodes sample_manifest))"
    using ok frozen by (simp add: mk_definition_def optional_string_def sample_manifest_def del: freeze_tree.simps)
  moreover have "m_ident validate_node_id (TStr ''ng.image.blur'') = Inr ''ng.image.blur''"
    "m_ident (validate_semver ''node.version'') (TStr ''1.0.0'') = Inr ''1.0.0''"
    "m_string ''node.display_name'' (TStr ''Blur'') = Inr ''Blur''"
    "pm_id (mf_package sample_manifest) = ''ng.pack''" "pm_version (mf_package sample_manifest) = ''1.0.0''"
    by code_simp+
  ultimately show ?thesis
    by (simp add: parse_node_def sample_node_table_def m_table_def item_def wrapped_plain_def sample_parts sample_schema_loads demand_def)
qed

lemma sample_parsed:
  "parse_manifest sample_files sample_payload [''pack'', ''ng-node.toml''] [''pack''] = Inr sample_manifest"
  by (simp add: parse_manifest_def sample_payload_def m_table_def item_def m_integer_def demand_def sample_parts
      sample_node_parsed text_items_def optional_string_def)
    (simp add: mk_manifest_def wrapped_def sample_manifest_def optional_string_def)

lemma sample_load:
  "load sample_files ([], ''/pack/ng-node.toml'') None = Inr sample_manifest"
  "load sample_files ([''pack'', ''ng-node.toml''], []) (Some ([''pack''], [])) = Inr sample_manifest"
  using sample_parsed by (simp_all add: load_def sample_files_def demand_def relative_to_def expecting_def)


end
