(* ===== verification/Catalogue.thy ===== *)
theory Catalogue
  imports Manifest
begin

text \<open>
  plugins/catalogue.py: the nodes of all manifests below a root, indexed by identifier and version.
  The versions of a node are sorted by semantic version; \<open>get\<close> without a version gives the last.
\<close>

datatype catalogue_error = CatalogueDiscoveryError string | DuplicateNodeDefinitionError string string
  | UnknownNodeDefinitionError string "string option" | FromManifest manifest_error | FromVersion id_error
  | FromPython failure

record catalogue =
  cat_manifests :: "plugin_manifest list"
  cat_nodes :: "node_definition list"
  cat_index :: "(string \<times> string, node_definition) dict"
  cat_versions :: "(string, node_definition list) dict"

section \<open>The index\<close>

fun index_nodes :: "node_definition list \<Rightarrow> (string \<times> string, node_definition) dict \<Rightarrow> (string, node_definition list) dict \<Rightarrow>
    catalogue_error + ((string \<times> string, node_definition) dict \<times> (string, node_definition list) dict)" where
  "index_nodes [] ix vs = Inr (ix, vs)"
| "index_nodes (n # ns) ix vs =
    (if node_def_key n \<in> set (dkeys ix) then Inl (DuplicateNodeDefinitionError (nd_id n) (nd_version n))
     else index_nodes ns (AList.update (node_def_key n) n ix)
       (AList.update (nd_id n) ((case map_of vs (nd_id n) of None \<Rightarrow> [] | Some xs \<Rightarrow> xs) @ [n]) vs))"

definition sort_versions :: "node_definition list \<Rightarrow> catalogue_error + node_definition list" where
  "sort_versions ns = rbind (rmap (\<lambda>n. rbind (map_sum FromVersion id (semver_sort_key (nd_version n))) (\<lambda>k. Inr (k, n))) ns)
     (\<lambda>kns. Inr (map snd (sort_key fst kns)))"

definition catalogue_post_init :: "plugin_manifest list \<Rightarrow> node_definition list \<Rightarrow> catalogue_error + catalogue" where
  "catalogue_post_init ms ns = rbind (index_nodes ns [] []) (\<lambda>(ix, vs).
     rbind (rmap (\<lambda>(i, xs). rbind (sort_versions xs) (\<lambda>ys. Inr (i, ys))) vs) (\<lambda>ordered.
       Inr \<lparr>cat_manifests = ms, cat_nodes = ns, cat_index = ix, cat_versions = ordered\<rparr>))"

definition get :: "catalogue \<Rightarrow> string \<Rightarrow> string option \<Rightarrow> catalogue_error + node_definition" where
  "get c i version = (case version of
     Some v \<Rightarrow> (case map_of (cat_index c) (i, v) of
        None \<Rightarrow> Inl (UnknownNodeDefinitionError i (Some v)) | Some n \<Rightarrow> Inr n)
   | None \<Rightarrow> (case map_of (cat_versions c) i of
        None \<Rightarrow> Inl (UnknownNodeDefinitionError i None) | Some ns \<Rightarrow> Inr (last ns)))"

definition display_names :: "catalogue \<Rightarrow> string list" where
  "display_names c = map nd_display_name (cat_nodes c)"

section \<open>Discovery\<close>

definition manifest_paths :: "files \<Rightarrow> string \<Rightarrow> catalogue_error + path \<times> path list" where
  "manifest_paths fs raw = (case fs_resolve fs [] raw of
     Inl f \<Rightarrow> Inl (if f \<in> not_found then CatalogueDiscoveryError ''catalogue path does not exist'' else FromPython f)
   | Inr p \<Rightarrow>
       if fs_is_file fs p then
         (if p = [] \<or> last p \<noteq> ''ng-node.toml'' then Inl (CatalogueDiscoveryError ''catalogue file must be named ng-node.toml'')
          else Inr (butlast p, [p]))
       else if \<not> fs_is_dir fs p then Inl (CatalogueDiscoveryError ''catalogue root must be a directory'')
       else let (base, scan) =
           (if p \<noteq> [] \<and> last p = ''runtimes'' \<and> fs_is_dir fs (butlast p @ [''schemas'']) then (butlast p, p)
            else if fs_is_dir fs (p @ [''runtimes'']) then (p, p @ [''runtimes'']) else (p, p)) in
         (if fs_glob fs scan = [] then Inl (CatalogueDiscoveryError ''no ng-node.toml manifests found'')
          else Inr (base, sort (fs_glob fs scan))))"

text \<open>The loop over the manifests, with the package and node keys seen so far.\<close>

fun collect_manifest :: "node_definition list \<Rightarrow> (string \<times> string) set \<Rightarrow> catalogue_error + (string \<times> string) set" where
  "collect_manifest [] seen = Inr seen"
| "collect_manifest (n # ns) seen =
    (if node_def_key n \<in> seen then Inl (DuplicateNodeDefinitionError (nd_id n) (nd_version n))
     else collect_manifest ns (insert (node_def_key n) seen))"

fun collect_nodes :: "plugin_manifest list \<Rightarrow> (string \<times> string) set \<Rightarrow> (string \<times> string) set \<Rightarrow>
    catalogue_error + node_definition list" where
  "collect_nodes [] packages seen = Inr []"
| "collect_nodes (m # ms) packages seen = (let key = (pm_id (mf_package m), pm_version (mf_package m)) in
     if key \<in> packages then Inl (DuplicateNodeDefinitionError (fst key) (snd key))
     else rbind (collect_manifest (mf_nodes m) seen) (\<lambda>seen'.
          rbind (collect_nodes ms (insert key packages) seen') (\<lambda>ns. Inr (mf_nodes m @ ns))))"

definition discover :: "files \<Rightarrow> string \<Rightarrow> catalogue_error + catalogue" where
  "discover fs raw = rbind (manifest_paths fs raw) (\<lambda>(base, ps).
     rbind (map_sum FromManifest id (rmap (\<lambda>p. load fs (p, []) (Some (base, []))) ps)) (\<lambda>ms.
     rbind (collect_nodes ms {} {}) (\<lambda>ns.
       catalogue_post_init ms (sort_key node_def_key ns))))"

section \<open>What the index holds\<close>

declare map_of_eq_Some_iff [simp del]

definition versions_of :: "node_definition list \<Rightarrow> string \<Rightarrow> node_definition list" where
  "versions_of ns i = filter (\<lambda>n. nd_id n = i) ns"

lemma index_nodes_Inr:
  assumes "index_nodes ns ix vs = Inr (ix', vs')"
  shows "distinct (map node_def_key ns) \<and> set (map node_def_key ns) \<inter> set (dkeys ix) = {}
    \<and> map_of ix' = map_of ix ++ map_of (map (\<lambda>n. (node_def_key n, n)) ns)
    \<and> (\<forall>i. map_of vs' i = (if versions_of ns i = [] then map_of vs i
          else Some ((case map_of vs i of None \<Rightarrow> [] | Some xs \<Rightarrow> xs) @ versions_of ns i)))
    \<and> (wf_dict vs \<longrightarrow> wf_dict vs')"
  using assms
proof (induction ns arbitrary: ix vs)
  case (Cons n ns)
  then have new: "node_def_key n \<notin> set (dkeys ix)" by (auto split: if_splits)
  let ?vs = "AList.update (nd_id n) ((case map_of vs (nd_id n) of None \<Rightarrow> [] | Some xs \<Rightarrow> xs) @ [n]) vs"
  from Cons.prems new have "index_nodes ns (AList.update (node_def_key n) n ix) ?vs = Inr (ix', vs')" by simp
  note IH = Cons.IH [OF this]
  have old: "node_def_key n \<notin> node_def_key ` set ns" using IH by auto
  then have "node_def_key n \<notin> dom (map_of (map (\<lambda>n. (node_def_key n, n)) ns))"
    by (auto simp: dom_map_of_conv_image_fst)
  then have "(map_of ix)(node_def_key n \<mapsto> n) ++ map_of (map (\<lambda>n. (node_def_key n, n)) ns)
      = map_of ix ++ map_of (map (\<lambda>n. (node_def_key n, n)) (n # ns))"
    by (simp only: map_add_upd_left not_False_eq_True list.map map_of.simps fst_conv snd_conv map_add_upd)
  moreover have "map_of ix' = (map_of ix)(node_def_key n \<mapsto> n) ++ map_of (map (\<lambda>n. (node_def_key n, n)) ns)"
    using IH unfolding map_of_update by blast
  ultimately have "map_of ix' = map_of ix ++ map_of (map (\<lambda>n. (node_def_key n, n)) (n # ns))" by (simp only:)
  moreover have "map_of vs' i = (if versions_of (n # ns) i = [] then map_of vs i
      else Some ((case map_of vs i of None \<Rightarrow> [] | Some xs \<Rightarrow> xs) @ versions_of (n # ns) i))" for i
    using IH by (auto simp: map_of_update versions_of_def)
  moreover have "wf_dict vs \<longrightarrow> wf_dict vs'" using IH by (simp add: distinct_update)
  moreover have "set (map node_def_key (n # ns)) \<inter> set (dkeys ix) = {}" using IH new by auto
  moreover have "distinct (map node_def_key (n # ns))" using IH old by auto
  ultimately show ?case by blast
qed (auto simp: versions_of_def)

lemma index_nodes_total:
  "distinct (map node_def_key ns) \<Longrightarrow> set (map node_def_key ns) \<inter> set (dkeys ix) = {} \<Longrightarrow> is_ok (index_nodes ns ix vs)"
  by (induction ns arbitrary: ix vs) auto

lemma map_of_rmap_values:
  assumes "rmap (\<lambda>(i, x). rbind (f x) (\<lambda>y. Inr (i, y))) vs = Inr vs'"
  shows "(map_of vs i = None \<longrightarrow> map_of vs' i = None) \<and> (\<forall>x. map_of vs i = Some x \<longrightarrow> (\<exists>y. f x = Inr y \<and> map_of vs' i = Some y))"
  using assms by (induction vs arbitrary: vs') (auto simp: rbind_Inr_iff)

text \<open>\<open>ks\<close> are the sort keys of \<open>ns\<close>, which exist unless a number has more than 4300 digits.\<close>

lemma sort_versions_Inr:
  assumes "sort_versions ns = Inr xs"
  shows "mset xs = mset ns" and "n \<in> set xs \<Longrightarrow> \<exists>k. semver_sort_key (nd_version n) = Inr k"
    and "sorted (map (\<lambda>n. case semver_sort_key (nd_version n) of Inr k \<Rightarrow> k) xs)"
proof -
  from assms obtain kns where kns: "rmap (\<lambda>n. rbind (map_sum FromVersion id (semver_sort_key (nd_version n))) (\<lambda>k. Inr (k, n))) ns = Inr kns"
    and xs: "xs = map snd (sort_key fst kns)" by (auto simp: sort_versions_def rbind_Inr_iff)
  have all: "list_all2 (\<lambda>n kn. snd kn = n \<and> semver_sort_key (nd_version n) = Inr (fst kn)) ns kns"
    using kns by (rule rmap_list_all2) (auto simp: rbind_Inr_iff)
  then have ns: "map snd kns = ns" by (induction rule: list_all2_induct) auto
  have key: "semver_sort_key (nd_version (snd kn)) = Inr (fst kn)" if "kn \<in> set kns" for kn
    using all that by (induction rule: list_all2_induct) auto
  show "mset xs = mset ns" using ns xs by (metis mset_map mset_sort)
  show "\<exists>k. semver_sort_key (nd_version n) = Inr k" if "n \<in> set xs" using that xs key by auto
  have "map (\<lambda>n. case semver_sort_key (nd_version n) of Inr k \<Rightarrow> k) xs = map fst (sort_key fst kns)"
    unfolding xs map_map by (rule map_cong) (auto simp: key)
  then show "sorted (map (\<lambda>n. case semver_sort_key (nd_version n) of Inr k \<Rightarrow> k) xs)" by simp
qed

text \<open>A catalogue built by its constructor.\<close>

definition good_catalogue :: "catalogue \<Rightarrow> bool" where
  "good_catalogue c = (catalogue_post_init (cat_manifests c) (cat_nodes c) = Inr c)"

lemma post_init_good: "catalogue_post_init ms ns = Inr c \<Longrightarrow> good_catalogue c \<and> cat_manifests c = ms \<and> cat_nodes c = ns"
  by (auto simp: good_catalogue_def catalogue_post_init_def rbind_Inr_iff)

lemma good_catalogue_parts:
  assumes "good_catalogue c"
  obtains vs where "index_nodes (cat_nodes c) [] [] = Inr (cat_index c, vs)"
    and "rmap (\<lambda>(i, xs). rbind (sort_versions xs) (\<lambda>ys. Inr (i, ys))) vs = Inr (cat_versions c)"
  using assms by (cases c) (auto simp: good_catalogue_def catalogue_post_init_def rbind_Inr_iff)

lemma get_exact:
  assumes "good_catalogue c"
  shows "get c i (Some v) = Inr n \<longleftrightarrow> n \<in> set (cat_nodes c) \<and> node_def_key n = (i, v)"
    and "get c i (Some v) = Inl e \<longleftrightarrow> e = UnknownNodeDefinitionError i (Some v) \<and> (i, v) \<notin> node_def_key ` set (cat_nodes c)"
proof -
  from assms obtain vs where ix: "index_nodes (cat_nodes c) [] [] = Inr (cat_index c, vs)"
    by (rule good_catalogue_parts)
  let ?m = "map (\<lambda>n. (node_def_key n, n)) (cat_nodes c)"
  from index_nodes_Inr [OF ix] have d: "distinct (map fst ?m)" and m: "map_of (cat_index c) k = map_of ?m k" for k
    by (auto simp: o_def)
  have mk: "map_of ?m k = Some n \<longleftrightarrow> n \<in> set (cat_nodes c) \<and> node_def_key n = k" for k n
    unfolding map_of_Some_iff [OF d] by auto
  have mn: "map_of ?m k = None \<longleftrightarrow> k \<notin> node_def_key ` set (cat_nodes c)" for k
    unfolding map_of_eq_None_iff by (force simp: image_image)
  show "get c i (Some v) = Inr n \<longleftrightarrow> n \<in> set (cat_nodes c) \<and> node_def_key n = (i, v)"
    using mk [of "(i, v)" n] by (cases "map_of ?m (i, v)") (simp_all add: get_def m)
  show "get c i (Some v) = Inl e \<longleftrightarrow> e = UnknownNodeDefinitionError i (Some v) \<and> (i, v) \<notin> node_def_key ` set (cat_nodes c)"
    using mn [of "(i, v)"] by (auto simp add: get_def m simp del: map_of_eq_None_iff split: option.split)
qed

lemma get_latest:
  assumes "good_catalogue c" and "get c i None = Inr n"
  shows "n \<in> set (cat_nodes c) \<and> nd_id n = i
    \<and> (\<forall>n'\<in>set (cat_nodes c). nd_id n' = i \<longrightarrow>
        (\<exists>k k'. semver_sort_key (nd_version n) = Inr k \<and> semver_sort_key (nd_version n') = Inr k' \<and> k' \<le> k))"
proof -
  from assms(1) obtain vs where ix: "index_nodes (cat_nodes c) [] [] = Inr (cat_index c, vs)"
    and vs: "rmap (\<lambda>(i, xs). rbind (sort_versions xs) (\<lambda>ys. Inr (i, ys))) vs = Inr (cat_versions c)"
    by (rule good_catalogue_parts)
  from assms(2) obtain ys where ys: "map_of (cat_versions c) i = Some ys" "n = last ys"
    by (auto simp: get_def split: option.splits)
  from ys map_of_rmap_values [OF vs, of i] index_nodes_Inr [OF ix]
  have ne: "versions_of (cat_nodes c) i \<noteq> []" and s: "sort_versions (versions_of (cat_nodes c) i) = Inr ys"
    by (cases "map_of vs i"; auto split: if_splits)+
  note sv = sort_versions_Inr [OF s]
  from sv(1) have set: "set ys = set (versions_of (cat_nodes c) i)" by (metis set_mset_mset)
  with ne have "ys \<noteq> []" by auto
  with ys(2) have n: "n \<in> set ys" by simp
  let ?key = "\<lambda>n. case semver_sort_key (nd_version n) of Inr k \<Rightarrow> k"
  have le: "?key n' \<le> ?key n" if "n' \<in> set ys" for n'
    using that sv(3) ys(2) by (cases ys rule: rev_cases) (auto simp: sorted_append)
  have "\<exists>k k'. semver_sort_key (nd_version n) = Inr k \<and> semver_sort_key (nd_version n') = Inr k' \<and> k' \<le> k"
    if "n' \<in> set (cat_nodes c)" "nd_id n' = i" for n'
  proof -
    have "n' \<in> set ys" using that set by (simp add: versions_of_def)
    with sv(2) [OF n] sv(2) [of n'] le [of n'] show ?thesis by auto
  qed
  moreover have "n \<in> set (cat_nodes c) \<and> nd_id n = i" using n set by (simp add: versions_of_def)
  ultimately show ?thesis by blast
qed

lemma get_latest_total:
  assumes "good_catalogue c" and "n \<in> set (cat_nodes c)"
  shows "is_ok (get c (nd_id n) None)"
proof -
  from assms(1) obtain vs where ix: "index_nodes (cat_nodes c) [] [] = Inr (cat_index c, vs)"
    and vs: "rmap (\<lambda>(i, xs). rbind (sort_versions xs) (\<lambda>ys. Inr (i, ys))) vs = Inr (cat_versions c)"
    by (rule good_catalogue_parts)
  have "n \<in> set (versions_of (cat_nodes c) (nd_id n))" using assms(2) by (simp add: versions_of_def)
  then have "map_of vs (nd_id n) = Some (versions_of (cat_nodes c) (nd_id n))" using index_nodes_Inr [OF ix] by force
  with map_of_rmap_values [OF vs, of "nd_id n"] show ?thesis by (auto simp: get_def)
qed

section \<open>What discovery finds\<close>

definition sound_catalogue :: "catalogue \<Rightarrow> bool" where
  "sound_catalogue c = (good_catalogue c \<and> list_all sound_definition (cat_nodes c)
     \<and> list_all (\<lambda>m. sound_package (mf_package m) (mf_runtime m) (mf_resources m)) (cat_manifests c)
     \<and> set (cat_nodes c) = (\<Union>m\<in>set (cat_manifests c). set (mf_nodes m)))"

lemma collect_manifest_Inr:
  "collect_manifest ns seen = Inr seen' \<Longrightarrow>
   distinct (map node_def_key ns) \<and> set (map node_def_key ns) \<inter> seen = {} \<and> seen' = seen \<union> set (map node_def_key ns)"
proof (induction ns arbitrary: seen)
  case (Cons n ns)
  then have "node_def_key n \<notin> seen" "collect_manifest ns (insert (node_def_key n) seen) = Inr seen'" by (auto split: if_splits)
  with Cons.IH [OF this(2)] show ?case by auto
qed simp

lemma collect_nodes_Inr:
  "collect_nodes ms packages seen = Inr ns \<Longrightarrow>
   ns = concat (map mf_nodes ms) \<and> distinct (map node_def_key ns) \<and> set (map node_def_key ns) \<inter> seen = {}
   \<and> distinct (map (\<lambda>m. (pm_id (mf_package m), pm_version (mf_package m))) ms)
   \<and> (\<lambda>m. (pm_id (mf_package m), pm_version (mf_package m))) ` set ms \<inter> packages = {}"
proof (induction ms arbitrary: packages seen ns)
  case (Cons m ms)
  let ?key = "(pm_id (mf_package m), pm_version (mf_package m))"
  from Cons.prems obtain seen' ns' where new: "?key \<notin> packages" and c: "collect_manifest (mf_nodes m) seen = Inr seen'"
    and r: "collect_nodes ms (insert ?key packages) seen' = Inr ns'" and ns: "ns = mf_nodes m @ ns'"
    by (auto simp: Let_def rbind_Inr_iff split: if_splits)
  note c = collect_manifest_Inr [OF c] and r = Cons.IH [OF r]
  from c r have "set (map node_def_key (mf_nodes m)) \<inter> set (map node_def_key ns') = {}" by blast
  with c r have "distinct (map node_def_key ns)" unfolding ns by (simp only: map_append distinct_append) blast
  moreover have "set (map node_def_key ns) \<inter> seen = {}" using c r unfolding ns map_append set_append by blast
  moreover have "ns = concat (map mf_nodes (m # ms))" using r ns by simp
  ultimately show ?case using r new by auto
qed simp

lemma discover_sound:
  assumes "discover fs raw = Inr c"
  shows "sound_catalogue c" and "sorted (map node_def_key (cat_nodes c))"
    and "distinct (map (\<lambda>m. (pm_id (mf_package m), pm_version (mf_package m))) (cat_manifests c))"
    and "\<forall>m\<in>set (cat_manifests c). \<exists>base. sound_manifest fs base m"
proof -
  from assms obtain base ps ms ns where
    ms: "rmap (\<lambda>p. load fs (p, []) (Some (base, []))) ps = Inr ms"
    and ns: "collect_nodes ms {} {} = Inr ns" and c: "catalogue_post_init ms (sort_key node_def_key ns) = Inr c"
    by (auto simp: discover_def rbind_Inr_iff)
  note good = post_init_good [OF c] and nodes = collect_nodes_Inr [OF ns]
  have "\<exists>base. sound_manifest fs base m" if "m \<in> set ms" for m
  proof -
    from ms that obtain p where "load fs (p, []) (Some (base, [])) = Inr m"
      by (auto simp: rmap_Inr_iff list_all2_conv_all_nth in_set_conv_nth)
    with load_ok [of fs "(p, [])" "Some (base, [])"] show ?thesis by auto
  qed
  with good show sm: "\<forall>m\<in>set (cat_manifests c). \<exists>base. sound_manifest fs base m" by simp
  show "distinct (map (\<lambda>m. (pm_id (mf_package m), pm_version (mf_package m))) (cat_manifests c))"
    using good nodes by simp
  show "sorted (map node_def_key (cat_nodes c))" using good by simp
  have all: "set (cat_nodes c) = (\<Union>m\<in>set (cat_manifests c). set (mf_nodes m))" using good nodes by auto
  with sm have "\<forall>n\<in>set (cat_nodes c). sound_definition n" by (fastforce simp: sound_manifest_def)
  moreover from sm have "\<forall>m\<in>set (cat_manifests c). sound_package (mf_package m) (mf_runtime m) (mf_resources m)"
    by (auto simp: sound_manifest_def)
  ultimately show "sound_catalogue c" using all good by (simp add: sound_catalogue_def list_all_iff)
qed

text \<open>C5. The catalogue that discovery builds. Its nodes are exactly those of its manifests, sorted by
  identifier and version, and all of them sound. Looking up an identifier with a version finds the
  node with exactly that key, and fails when there is none; without a version it finds, for every
  known identifier, a node of it whose version no other version of the node precedes.\<close>

theorem catalogue_lookup:
  assumes "discover fs raw = Inr c"
  shows "set (cat_nodes c) = (\<Union>m\<in>set (cat_manifests c). set (mf_nodes m)) \<and> sorted (map node_def_key (cat_nodes c))
    \<and> (\<forall>n\<in>set (cat_nodes c). sound_definition n)
    \<and> (get c i (Some v) = Inr n \<longleftrightarrow> n \<in> set (cat_nodes c) \<and> nd_id n = i \<and> nd_version n = v)
    \<and> (get c i (Some v) = Inl e \<longleftrightarrow> e = UnknownNodeDefinitionError i (Some v)
         \<and> (\<forall>n\<in>set (cat_nodes c). \<not> (nd_id n = i \<and> nd_version n = v)))
    \<and> ((\<exists>n. get c i None = Inr n) \<longleftrightarrow> i \<in> nd_id ` set (cat_nodes c))
    \<and> (get c i None = Inr n \<longrightarrow> n \<in> set (cat_nodes c) \<and> nd_id n = i
         \<and> (\<forall>n'\<in>set (cat_nodes c). nd_id n' = i \<longrightarrow> (\<exists>k k'. semver_sort_key (nd_version n) = Inr k
               \<and> semver_sort_key (nd_version n') = Inr k' \<and> k' \<le> k)))"
proof -
  note ds = discover_sound [OF assms]
  from ds(1) have good: "good_catalogue c" and all: "set (cat_nodes c) = (\<Union>m\<in>set (cat_manifests c). set (mf_nodes m))"
    and sd: "\<forall>n\<in>set (cat_nodes c). sound_definition n" by (simp_all add: sound_catalogue_def list_all_iff)
  have known: "(\<exists>n. get c i None = Inr n) \<longleftrightarrow> i \<in> nd_id ` set (cat_nodes c)"
    using get_latest [OF good] get_latest_total [OF good] by (auto simp: isl_def) (metis Inr_Inl_False sum.exhaust)
  have none: "get c i (Some v) = Inl e \<longleftrightarrow> e = UnknownNodeDefinitionError i (Some v)
      \<and> (\<forall>n\<in>set (cat_nodes c). \<not> (nd_id n = i \<and> nd_version n = v))"
    using get_exact(2) [OF good] by (auto simp: node_def_key_def)
  have some: "get c i (Some v) = Inr n \<longleftrightarrow> n \<in> set (cat_nodes c) \<and> nd_id n = i \<and> nd_version n = v"
    using get_exact(1) [OF good] by (auto simp: node_def_key_def)
  show ?thesis using all ds(2) sd some none known get_latest [OF good, of i n] by blast
qed

definition sample_catalogue :: catalogue where
  "sample_catalogue = (let n = hd (mf_nodes sample_manifest) in \<lparr>cat_manifests = [sample_manifest], cat_nodes = [n],
     cat_index = [((''ng.image.blur'', ''1.0.0''), n)], cat_versions = [(''ng.image.blur'', [n])]\<rparr>)"

lemma sample_discover: "discover sample_files ''/pack'' = Inr sample_catalogue"
proof -
  have paths: "manifest_paths sample_files ''/pack'' = Inr ([''pack''], [[''pack'', ''ng-node.toml'']])"
    by (simp add: manifest_paths_def sample_files_def)
  have key: "semver_sort_key ''1.0.0'' = Inr (1, 0, 0, 1, [])" by code_simp
  have one: "mf_nodes sample_manifest = [hd (mf_nodes sample_manifest)]"
    and n: "nd_id (hd (mf_nodes sample_manifest)) = ''ng.image.blur''" "nd_version (hd (mf_nodes sample_manifest)) = ''1.0.0''"
    by (simp_all add: sample_manifest_def)
  have "collect_nodes [sample_manifest] {} {} = Inr [hd (mf_nodes sample_manifest)]"
    by (simp add: Let_def) (subst one, subst (2) one, simp)
  then show ?thesis using sample_load(2)
    by (simp add: discover_def paths catalogue_post_init_def sort_versions_def key n node_def_key_def sample_catalogue_def Let_def)
qed

lemma catalogue_lookup_witness:
  "get sample_catalogue ''ng.image.blur'' None = Inr (hd (mf_nodes sample_manifest))
   \<and> get sample_catalogue ''ng.image.blur'' (Some ''2.0.0'') = Inl (UnknownNodeDefinitionError ''ng.image.blur'' (Some ''2.0.0''))"
proof -
  note lookup = catalogue_lookup [OF sample_discover]
  have n: "cat_nodes sample_catalogue = [hd (mf_nodes sample_manifest)]" "nd_id (hd (mf_nodes sample_manifest)) = ''ng.image.blur''"
    "nd_version (hd (mf_nodes sample_manifest)) = ''1.0.0''"
    by (simp_all add: sample_catalogue_def Let_def sample_manifest_def)
  have "\<exists>m. get sample_catalogue ''ng.image.blur'' None = Inr m"
    using lookup [of "''ng.image.blur''"] unfolding n by (auto simp only: n list.set image_insert image_empty)
  then obtain m where m: "get sample_catalogue ''ng.image.blur'' None = Inr m" ..
  moreover have "m = hd (mf_nodes sample_manifest)"
    using lookup [of "''ng.image.blur''" _ m] m n(1) by simp
  moreover have "get sample_catalogue ''ng.image.blur'' (Some ''2.0.0'') = Inl (UnknownNodeDefinitionError ''ng.image.blur'' (Some ''2.0.0''))"
    using lookup [of "''ng.image.blur''" "''2.0.0''"] n by simp
  ultimately show ?thesis by simp
qed

end
