(* ===== verification/Topology.thy ===== *)
theory Topology
  imports GraphTypes
begin

text \<open>
  graph/topology.py: Kahn's algorithm in layers, and the critical path. Nodes are sorted by
  \<open>key=str\<close>, which is the order of the UUIDs as numbers. The dictionaries of the code are kept;
  the \<open>defaultdict\<close> of outgoing targets is the function from a node to its list.

  The specification is on the relation \<open>edge_rel\<close>: layers exist exactly when it has no cycle, and
  then a node's layer is determined by its predecessors; lengths are those of longest walks.
\<close>

datatype topo_error = TopoValue string | CycleError "uuid list" | TopoKey uuid

section \<open>Layers\<close>

definition graph_parts :: "graph \<Rightarrow> uuid list \<times> edge list" where
  "graph_parts g = (map n_id (g_nodes g), g_edges g)"

definition outgoing :: "edge list \<Rightarrow> uuid \<Rightarrow> uuid list" where
  "outgoing es n = sort (map e_target (filter (\<lambda>e. e_source e = n) es))"

definition count_in :: "edge list \<Rightarrow> (uuid, int) dict \<Rightarrow> (uuid, int) dict" where
  "count_in es d = fold (\<lambda>e d. case map_of d (e_target e) of None \<Rightarrow> d
      | Some k \<Rightarrow> AList.update (e_target e) (k + 1) d) es d"

text \<open>The inner loop over the targets of one node: the dictionary and \<open>next_ready\<close>.\<close>

fun visit_targets :: "uuid list \<Rightarrow> (uuid, int) dict \<Rightarrow> uuid list \<Rightarrow> (uuid, int) dict \<times> uuid list" where
  "visit_targets [] d nr = (d, nr)"
| "visit_targets (t # ts) d nr = (case map_of d t of
     None \<Rightarrow> visit_targets ts d nr
   | Some k \<Rightarrow> visit_targets ts (AList.update t (k - 1) d) (if k - 1 = 0 then nr @ [t] else nr))"

fun visit_layer :: "edge list \<Rightarrow> uuid list \<Rightarrow> (uuid, int) dict \<Rightarrow> uuid list \<Rightarrow> (uuid, int) dict \<times> uuid list" where
  "visit_layer es [] d nr = (d, nr)"
| "visit_layer es (n # ns) d nr = (case visit_targets (outgoing es n) d nr of (d', nr') \<Rightarrow> visit_layer es ns d' nr')"

definition waiting :: "(uuid, int) dict \<Rightarrow> uuid set" where
  "waiting d = {n \<in> fst ` set d. \<exists>k. map_of d n = Some k \<and> 0 < k}"

lemma finite_waiting [simp]: "finite (waiting d)"
  by (simp add: waiting_def)

lemma visit_targets_spec:
  assumes "visit_targets ts d nr = (d', nr')"
  shows "map_of d' n = map_option (\<lambda>k. k - int (count_list ts n)) (map_of d n)
    \<and> fst ` set d' = fst ` set d
    \<and> (\<exists>xs. nr' = nr @ xs \<and> distinct xs
        \<and> (\<forall>n. n \<in> set xs \<longleftrightarrow> (\<exists>k. map_of d n = Some k \<and> 0 < k \<and> k \<le> int (count_list ts n))))"
  using assms
proof (induction ts d nr arbitrary: d' nr' n rule: visit_targets.induct)
  case (1 d nr)
  then show ?case by (cases "map_of d n") auto
next
  case (2 t ts d nr)
  show ?case
  proof (cases "map_of d t")
    case None
    with 2(3) have "visit_targets ts d nr = (d', nr')" by simp
    note IH = 2(1) [OF None this]
    from None IH have map: "map_of d' n = map_option (\<lambda>k. k - int (count_list (t # ts) n)) (map_of d n)" for n
      by (cases "n = t") auto
    have "(\<exists>k. map_of d n = Some k \<and> 0 < k \<and> k \<le> int (count_list ts n))
      \<longleftrightarrow> (\<exists>k. map_of d n = Some k \<and> 0 < k \<and> k \<le> int (count_list (t # ts) n))" for n
      using None by (cases "n = t") auto
    with map IH show ?thesis by simp
  next
    case (Some k)
    let ?d = "AList.update t (k - 1) d" and ?nr = "if k - 1 = 0 then nr @ [t] else nr"
    from Some 2(3) have "visit_targets ts ?d ?nr = (d', nr')" by simp
    note IH = 2(2) [OF Some this]
    have map: "map_of d' n = map_option (\<lambda>k. k - int (count_list (t # ts) n)) (map_of d n)" for n
      using Some IH by (cases "n = t") (auto simp: map_of_update)
    have keys: "fst ` set d' = fst ` set d"
      using IH Some by (auto simp: insert_absorb dest!: map_of_SomeD) (metis fst_conv image_eqI)
    from IH obtain xs where xs: "nr' = ?nr @ xs" "distinct xs"
        "\<And>n. n \<in> set xs \<longleftrightarrow> (\<exists>j. map_of ?d n = Some j \<and> 0 < j \<and> j \<le> int (count_list ts n))" by blast
    let ?xs = "(if k = 1 then [t] else []) @ xs"
    have "t \<notin> set xs" if "k = 1" using that xs(3) [of t] by (simp add: map_of_update)
    then have "distinct ?xs" using xs(2) by auto
    moreover have "nr' = nr @ ?xs" using xs(1) by auto
    moreover have "n \<in> set ?xs \<longleftrightarrow> (\<exists>j. map_of d n = Some j \<and> 0 < j \<and> j \<le> int (count_list (t # ts) n))" for n
      using xs(3) [of n] Some by (cases "n = t") (auto simp: map_of_update)
    ultimately show ?thesis using map keys by blast
  qed
qed

lemma visit_targets_wf: "visit_targets ts d nr = (d', nr') \<Longrightarrow> wf_dict d \<Longrightarrow> wf_dict d'"
  by (induction ts d nr arbitrary: d' nr' rule: visit_targets.induct) (auto split: option.splits intro: wf_dict_update)

lemma visit_layer_targets: "visit_layer es ns d nr = visit_targets (concat (map (outgoing es) ns)) d nr"
proof -
  have app: "visit_targets (as @ bs) d nr = (case visit_targets as d nr of (d', nr') \<Rightarrow> visit_targets bs d' nr')" for as bs d nr
    by (induction as d nr rule: visit_targets.induct) (auto split: option.split)
  show ?thesis by (induction es ns d nr rule: visit_layer.induct) (auto simp: app split: prod.split)
qed

lemma visit_layer_waiting:
  assumes "visit_layer es ns d [] = (d', nr')"
  shows "waiting d' \<subseteq> waiting d" and "nr' \<noteq> [] \<Longrightarrow> waiting d' \<subset> waiting d"
proof -
  let ?ts = "concat (map (outgoing es) ns)"
  have v: "visit_targets ?ts d [] = (d', nr')" using assms by (simp add: visit_layer_targets)
  note s = visit_targets_spec [OF v]
  show sub: "waiting d' \<subseteq> waiting d"
    using s by (auto simp: waiting_def)
  assume "nr' \<noteq> []"
  then obtain n where n: "n \<in> set nr'" by (cases nr') auto
  with s obtain k where k: "map_of d n = Some k" "0 < k" "k \<le> int (count_list ?ts n)" by auto
  have "n \<in> waiting d" using k by (auto simp: waiting_def dest!: map_of_SomeD intro!: rev_image_eqI)
  moreover have "n \<notin> waiting d'" using k s by (auto simp: waiting_def)
  ultimately show "waiting d' \<subset> waiting d" using sub by blast
qed

text \<open>The \<open>while\<close> loop: the layers and the final in-degrees.\<close>

function kahn :: "edge list \<Rightarrow> uuid list \<Rightarrow> (uuid, int) dict \<Rightarrow> uuid list list \<times> (uuid, int) dict" where
  "kahn es ready d =
    (if ready = [] then ([], d)
     else case visit_layer es ready d [] of (d', nr) \<Rightarrow>
       (case kahn es (sort nr) d' of (ls, d'') \<Rightarrow> (ready # ls, d'')))"
  by pat_completeness auto
termination
proof (relation "measures [\<lambda>(es, ready, d). card (waiting d), \<lambda>(es, ready, d). if ready = [] then 0 else 1]", goal_cases)
  case (2 es ready d d' nr)
  then have ready: "ready \<noteq> []" and v: "visit_layer es ready d [] = (d', nr)" by auto
  show ?case
  proof (cases "nr = []")
    case True
    have "card (waiting d') \<le> card (waiting d)" using visit_layer_waiting(1) [OF v] by (simp add: card_mono)
    with True ready show ?thesis by auto
  next
    case False
    have "card (waiting d') < card (waiting d)" using visit_layer_waiting(2) [OF v False] by (simp add: psubset_card_mono)
    then show ?thesis by simp
  qed
qed simp

declare kahn.simps [simp del]

definition topological_layers :: "uuid list \<Rightarrow> edge list \<Rightarrow> topo_error + uuid list list" where
  "topological_layers ns es =
    (if \<not> distinct ns then Inl (TopoValue ''topological sorting requires unique node ids'')
     else if \<not> list_all (\<lambda>e. e_source e \<in> set ns \<and> e_target e \<in> set ns) es
       then Inl (TopoValue ''topological sorting requires valid edge endpoints'')
     else let d0 = count_in es (map (\<lambda>n. (n, 0)) ns);
              ready = sort (map fst (filter (\<lambda>(n, k). k = 0) d0)) in
       (case kahn es ready d0 of (layers, d) \<Rightarrow>
          if length (concat layers) \<noteq> length ns
          then Inl (CycleError (sort (map fst (filter (\<lambda>(n, k). 0 < k) d))))
          else Inr layers))"

definition topological_sort :: "uuid list \<Rightarrow> edge list \<Rightarrow> topo_error + uuid list" where
  "topological_sort ns es = rbind (topological_layers ns es) (\<lambda>ls. Inr (concat ls))"

section \<open>The critical path\<close>

definition successors :: "edge list \<Rightarrow> uuid \<Rightarrow> uuid list" where
  "successors es n = remdups (map e_target (filter (\<lambda>e. e_source e = n) es))"

definition lookup :: "(uuid, int) dict \<Rightarrow> uuid \<Rightarrow> topo_error + int" where
  "lookup d n = (case map_of d n of None \<Rightarrow> Inl (TopoKey n) | Some k \<Rightarrow> Inr k)"

text \<open>\<open>max(..., default=0)\<close>\<close>

definition max_default :: "int list \<Rightarrow> int" where
  "max_default ks = (case ks of [] \<Rightarrow> 0 | k # ks \<Rightarrow> fold max ks k)"

fun path_lengths :: "edge list \<Rightarrow> uuid list \<Rightarrow> (uuid, int) dict \<Rightarrow> topo_error + (uuid, int) dict" where
  "path_lengths es [] L = Inr L"
| "path_lengths es (n # ns) L = rbind (rmap (lookup L) (successors es n)) (\<lambda>ks.
     path_lengths es ns (AList.update n (1 + max_default ks) L))"

definition critical_path_lengths :: "uuid list \<Rightarrow> edge list \<Rightarrow> topo_error + (uuid, int) dict" where
  "critical_path_lengths order es = path_lengths es (rev order) []"

definition by_key :: "(uuid \<Rightarrow> 'k::linorder) \<Rightarrow> uuid list \<Rightarrow> uuid" where
  "by_key k xs = arg_min_list k xs"

lemma by_key_in: "xs \<noteq> [] \<Longrightarrow> by_key k xs \<in> set xs"
  by (simp add: by_key_def arg_min_list_in)

lemma by_key_le: "x \<in> set xs \<Longrightarrow> k (by_key k xs) \<le> k x"
  by (simp add: by_key_def arg_min_list_le)

text \<open>
  The \<open>while\<close> loop of \<open>select_critical_path\<close>, from the current node on. Where the code raises on a
  missing length, so does \<open>lookup\<close>.
\<close>

function follow :: "edge list \<Rightarrow> (uuid, int) dict \<Rightarrow> uuid \<Rightarrow> topo_error + uuid list" where
  "follow es L cur = rbind (lookup L cur) (\<lambda>k.
     if k \<le> 1 then Inr []
     else rbind (rmap (lookup L) (successors es cur)) (\<lambda>ks.
       let cands = filter (\<lambda>t. map_of L t = Some (k - 1)) (successors es cur) in
       if cands = [] then Inr []
       else let nxt = by_key (\<lambda>n. n) cands in rbind (follow es L nxt) (\<lambda>p. Inr (nxt # p))))"
  by pat_completeness auto
termination
proof (relation "measure (\<lambda>(es, L, n). case map_of L n of None \<Rightarrow> 0 | Some k \<Rightarrow> nat k)", goal_cases)
  case (2 es L cur k ks cands nxt)
  then have "nxt \<in> set cands" using by_key_in [of cands "\<lambda>n. n"] by blast
  with 2(1,2,4) show ?case by (auto simp: lookup_def split: option.splits)
qed simp

declare follow.simps [simp del]

definition select_critical_path :: "uuid list \<Rightarrow> edge list \<Rightarrow> (uuid, int) dict option \<Rightarrow> topo_error + uuid list" where
  "select_critical_path order es lengths =
    (if order = [] then Inr []
     else rbind (case lengths of Some (p # L) \<Rightarrow> Inr (p # L) | _ \<Rightarrow> critical_path_lengths order es) (\<lambda>L.
       rbind (rmap (\<lambda>e. if e_target e \<in> set order then Inr () else Inl (TopoKey (e_target e))) es) (\<lambda>_.
       let roots = filter (\<lambda>n. n \<notin> e_target ` set es) order in
       rbind (rmap (lookup L) roots) (\<lambda>ks.
       if roots = [] then Inl (TopoValue ''min() iterable argument is empty'')
       else let cur = by_key (\<lambda>n. (- the (map_of L n), n)) roots in
         rbind (follow es L cur) (\<lambda>p. Inr (cur # p))))))"

section \<open>What a layer does\<close>

definition edge_rel :: "edge list \<Rightarrow> (uuid \<times> uuid) set" where
  "edge_rel es = (\<lambda>e. (e_source e, e_target e)) ` set es"

definition remaining :: "edge list \<Rightarrow> uuid set \<Rightarrow> uuid \<Rightarrow> nat" where
  "remaining es P n = length (filter (\<lambda>e. e_target e = n \<and> e_source e \<notin> P) es)"

lemma edge_rel_iff: "(m, n) \<in> edge_rel es \<longleftrightarrow> (\<exists>e \<in> set es. e_source e = m \<and> e_target e = n)"
  by (auto simp: edge_rel_def)

lemma finite_edge_rel [simp]: "finite (edge_rel es)"
  by (simp add: edge_rel_def)

lemma remaining_zero: "remaining es P n = 0 \<longleftrightarrow> (\<forall>m. (m, n) \<in> edge_rel es \<longrightarrow> m \<in> P)"
  by (auto simp: remaining_def edge_rel_iff filter_empty_conv)

lemma count_list_perm: "mset xs = mset ys \<Longrightarrow> count_list xs n = count_list ys n"
  by (simp add: count_list_eq_length_filter) (metis mset_filter size_mset)

lemma count_outgoing: "count_list (outgoing es m) n = length (filter (\<lambda>e. e_target e = n \<and> e_source e = m) es)"
proof -
  have "count_list (outgoing es m) n = count_list (map e_target (filter (\<lambda>e. e_source e = m) es)) n"
    unfolding outgoing_def by (rule count_list_perm) simp
  also have "\<dots> = length (filter (\<lambda>e. e_target e = n \<and> e_source e = m) es)" by (induction es) auto
  finally show ?thesis .
qed

lemma count_layer:
  "distinct ns \<Longrightarrow> count_list (concat (map (outgoing es) ns)) n
    = length (filter (\<lambda>e. e_target e = n \<and> e_source e \<in> set ns) es)"
proof (induction ns)
  case (Cons m ns)
  have "length (filter (\<lambda>e. e_target e = n \<and> e_source e \<in> set (m # ns)) es)
      = length (filter (\<lambda>e. e_target e = n \<and> e_source e = m) es) + length (filter (\<lambda>e. e_target e = n \<and> e_source e \<in> set ns) es)"
    using Cons.prems by (induction es) auto
  with Cons show ?case by (simp add: count_outgoing)
qed simp

lemma remaining_split:
  assumes "P \<inter> L = {}"
  shows "remaining es P n = length (filter (\<lambda>e. e_target e = n \<and> e_source e \<in> L) es) + remaining es (P \<union> L) n"
  using assms unfolding remaining_def by (induction es) auto

text \<open>The invariant of the loop, for the set \<open>P\<close> of nodes already placed in a layer.\<close>

definition kinv :: "edge list \<Rightarrow> uuid set \<Rightarrow> uuid set \<Rightarrow> uuid list \<Rightarrow> (uuid, int) dict \<Rightarrow> bool" where
  "kinv es N P ready d =
    (wf_dict d \<and> fst ` set d = N \<and> (\<forall>n\<in>N. map_of d n = Some (int (remaining es P n)))
     \<and> P \<subseteq> N \<and> sorted ready \<and> distinct ready \<and> set ready = {n \<in> N - P. remaining es P n = 0}
     \<and> (\<forall>n\<in>P. remaining es P n = 0))"

lemma remaining_mono: "P \<subseteq> Q \<Longrightarrow> remaining es P n = 0 \<Longrightarrow> remaining es Q n = 0"
  by (auto simp: remaining_zero)

lemma kinv_step:
  assumes inv: "kinv es N P ready d" and v: "visit_layer es ready d [] = (d', nr)"
  shows "kinv es N (P \<union> set ready) (sort nr) d'" and "n \<in> set nr \<Longrightarrow> \<exists>m\<in>set ready. (m, n) \<in> edge_rel es"
proof -
  let ?P = "P \<union> set ready" and ?ts = "concat (map (outgoing es) ready)"
  have i: "fst ` set d = N" "\<And>n. n \<in> N \<Longrightarrow> map_of d n = Some (int (remaining es P n))" "P \<subseteq> N" "distinct ready"
      "set ready = {n \<in> N - P. remaining es P n = 0}" "\<And>n. n \<in> P \<Longrightarrow> remaining es P n = 0"
    using inv by (auto simp: kinv_def)
  have disj: "P \<inter> set ready = {}" using i(5) by auto
  have cnt: "remaining es P n = count_list ?ts n + remaining es ?P n" for n
    using remaining_split [OF disj] count_layer [OF i(4)] by simp
  have vt: "visit_targets ?ts d [] = (d', nr)" using v by (simp add: visit_layer_targets)
  note s = visit_targets_spec [OF vt]
  have none: "map_of d n = None" if "n \<notin> N" for n
    using that i(1) by (auto simp: map_of_eq_None_iff)
  have nr: "distinct nr" "\<And>n. n \<in> set nr \<longleftrightarrow> n \<in> N \<and> 0 < remaining es P n \<and> remaining es ?P n = 0"
  proof -
    from s obtain xs where "nr = xs" "distinct xs"
        "\<And>n. n \<in> set xs \<longleftrightarrow> (\<exists>k. map_of d n = Some k \<and> 0 < k \<and> k \<le> int (count_list ?ts n))" by auto
    then have x: "distinct nr" "\<And>n. n \<in> set nr \<longleftrightarrow> (\<exists>k. map_of d n = Some k \<and> 0 < k \<and> k \<le> int (count_list ?ts n))"
      by simp_all
    show "distinct nr" by (rule x(1))
    show "n \<in> set nr \<longleftrightarrow> n \<in> N \<and> 0 < remaining es P n \<and> remaining es ?P n = 0" for n
    proof (cases "n \<in> N")
      case True
      with x(2) [of n] i(2) [OF True] cnt [of n] show ?thesis by auto
    next
      case False
      with x(2) [of n] none [OF False] show ?thesis by simp
    qed
  qed
  have "map_of d' n = Some (int (remaining es ?P n))" if "n \<in> N" for n
    using s i(2) [OF that] cnt [of n] by simp
  moreover have "set nr = {n \<in> N - ?P. remaining es ?P n = 0}"
    using nr(2) i(5,6) by (auto dest: remaining_mono [of P ?P])
  moreover have "remaining es ?P n = 0" if "n \<in> ?P" for n
  proof (rule remaining_mono [of P])
    show "remaining es P n = 0" using that i(5,6) by blast
  qed simp
  moreover have "wf_dict d'" using visit_targets_wf [OF vt] inv by (simp add: kinv_def)
  ultimately show "kinv es N ?P (sort nr) d'" using s i(1,3,5) nr(1) by (auto simp: kinv_def)
  assume "n \<in> set nr"
  with nr(2) have "0 < remaining es P n" "remaining es ?P n = 0" by auto
  then show "\<exists>m\<in>set ready. (m, n) \<in> edge_rel es" by (auto simp: remaining_zero) (metis UnE neq0_conv remaining_zero)
qed

section \<open>All layers\<close>

text \<open>Layers over a set \<open>P\<close> of nodes placed before them.\<close>

fun layered :: "edge list \<Rightarrow> uuid set \<Rightarrow> uuid list list \<Rightarrow> bool" where
  "layered es P [] = True"
| "layered es P (l # ls) = (l \<noteq> [] \<and> sorted l \<and> distinct l \<and> set l \<inter> P = {}
     \<and> (\<forall>m. \<forall>n\<in>set l. (m, n) \<in> edge_rel es \<longrightarrow> m \<in> P)
     \<and> (ls \<noteq> [] \<longrightarrow> (\<forall>n\<in>set (hd ls). \<exists>m\<in>set l. (m, n) \<in> edge_rel es))
     \<and> layered es (P \<union> set l) ls)"

lemma kahn_spec:
  assumes "kinv es N P ready d" and "kahn es ready d = (ls, d')"
  shows "layered es P ls \<and> (ls \<noteq> [] \<longrightarrow> hd ls = ready) \<and> set (concat ls) \<subseteq> N
    \<and> kinv es N (P \<union> set (concat ls)) [] d'"
  using assms
proof (induction es ready d arbitrary: P ls d' rule: kahn.induct)
  case (1 es ready d)
  show ?case
  proof (cases "ready = []")
    case True
    with 1(2,3) show ?thesis by (subst (asm) kahn.simps) auto
  next
    case False
    obtain d1 nr where v: "visit_layer es ready d [] = (d1, nr)" by fastforce
    obtain ls1 d2 where k: "kahn es (sort nr) d1 = (ls1, d2)" by fastforce
    from 1(3) False v k have r: "ls = ready # ls1" "d' = d2" by (subst (asm) kahn.simps; simp)+
    note step = kinv_step [OF 1(2) v]
    note IH = 1(1) [OF False v [symmetric] step(1) k]
    have "m \<in> P" if "(m, n) \<in> edge_rel es" "n \<in> set ready" for m n
      using that 1(2) by (auto simp: kinv_def remaining_zero)
    moreover have "\<forall>n\<in>set (hd ls1). \<exists>m\<in>set ready. (m, n) \<in> edge_rel es" if "ls1 \<noteq> []"
      using IH that step(2) by auto
    ultimately show ?thesis using r IH False 1(2) by (auto simp: kinv_def Un_assoc)
  qed
qed

lemma map_of_count_in:
  assumes "\<forall>e\<in>set es. e_target e \<in> fst ` set d"
  shows "map_of (count_in es d) n = map_option (\<lambda>k. k + int (length (filter (\<lambda>e. e_target e = n) es))) (map_of d n)
    \<and> fst ` set (count_in es d) = fst ` set d"
  using assms
proof (induction es arbitrary: d)
  case Nil
  then show ?case by (cases "map_of d n") (auto simp: count_in_def)
next
  case (Cons e es)
  then obtain k where k: "map_of d (e_target e) = Some k" by (metis list.set_intros(1) map_of_eq_None_iff not_None_eq)
  let ?d = "AList.update (e_target e) (k + 1) d"
  have keys: "fst ` set ?d = fst ` set d" using Cons.prems by auto
  have "count_in (e # es) d = count_in es ?d" using k by (simp add: count_in_def)
  moreover have "\<forall>e\<in>set es. e_target e \<in> fst ` set ?d" using Cons.prems keys by simp
  note Cons.IH [OF this]
  ultimately show ?case using k keys by (cases "map_of d n"; auto simp: map_of_update)
qed

lemma kinv_init:
  assumes "distinct ns" and "\<forall>e\<in>set es. e_source e \<in> set ns \<and> e_target e \<in> set ns"
    and "d0 = count_in es (map (\<lambda>n. (n, 0)) ns)"
  shows "kinv es (set ns) {} (sort (map fst (filter (\<lambda>(n, k). k = 0) d0))) d0"
proof -
  let ?d = "map (\<lambda>n. (n, 0 :: int)) ns"
  have keys0: "fst ` set ?d = set ns" by force
  with assms(2) have e: "\<forall>e\<in>set es. e_target e \<in> fst ` set ?d" by simp
  note c = map_of_count_in [OF e, folded assms(3)]
  have at0: "map_of ?d n = Some 0" if "n \<in> set ns" for n
    using that by (simp add: map_of_map_restrict)
  have m: "map_of d0 n = Some (int (remaining es {} n))" if "n \<in> set ns" for n
    using c at0 [OF that] by (simp add: remaining_def)
  have keys: "fst ` set d0 = set ns" using c keys0 by simp
  have "dkeys (count_in es d) = dkeys d" if "\<forall>e\<in>set es. e_target e \<in> fst ` set d" for d
    using that
  proof (induction es arbitrary: d)
    case (Cons e es)
    then obtain k where k: "map_of d (e_target e) = Some k" by (metis list.set_intros(1) map_of_eq_None_iff not_None_eq)
    let ?d = "AList.update (e_target e) (k + 1) d"
    have same: "dkeys ?d = dkeys d" using Cons.prems by (simp add: update_keys)
    have "\<forall>e\<in>set es. e_target e \<in> fst ` set ?d" using Cons.prems by simp
    from Cons.IH [OF this] have "dkeys (count_in es ?d) = dkeys d" unfolding same .
    moreover have "count_in (e # es) d = count_in es ?d" using k by (simp add: count_in_def)
    ultimately show ?case by (simp only:)
  qed (simp add: count_in_def)
  from this [OF e] have wf: "wf_dict d0" using assms(1,3) by (simp add: o_def)
  have "(n, k) \<in> set d0 \<longleftrightarrow> n \<in> set ns \<and> k = int (remaining es {} n)" for n k
  proof (cases "n \<in> set ns")
    case True
    with map_of_Some_iff [OF wf, of n k] m [OF True] show ?thesis by auto
  next
    case False
    with keys show ?thesis by force
  qed
  moreover have "n \<in> set (map fst (filter (\<lambda>(n, k). k = 0) d0)) \<longleftrightarrow> (n, 0) \<in> set d0" for n by force
  ultimately have "set (map fst (filter (\<lambda>(n, k). k = 0) d0)) = {n \<in> set ns. remaining es {} n = 0}" by auto
  moreover have "distinct (map fst (filter (\<lambda>(n, k). k = 0) d0))" using wf by (simp add: distinct_map_filter)
  ultimately show ?thesis using m keys wf by (simp add: kinv_def)
qed

section \<open>Cycles\<close>

text \<open>A finite set closed under picking a predecessor lies downstream of cycles in it.\<close>

lemma upstream_cycle:
  assumes "finite A" and "\<And>x. x \<in> A \<Longrightarrow> \<exists>y\<in>A. (y, x) \<in> r" and "x \<in> A"
  shows "\<exists>m. (m, m) \<in> r\<^sup>+ \<and> (m, x) \<in> r\<^sup>*"
proof (rule ccontr)
  assume no: "\<not> ?thesis"
  define B where "B = {y \<in> A. (y, x) \<in> r\<^sup>*}"
  let ?s = "r \<inter> B \<times> B"
  have "acyclic ?s"
  proof (rule acyclicI, intro allI notI)
    fix m assume m: "(m, m) \<in> ?s\<^sup>+"
    then have "m \<in> B" by (metis IntD2 SigmaD1 tranclD)
    moreover have "(m, m) \<in> r\<^sup>+" using m by (rule trancl_mono) auto
    ultimately show False using no by (auto simp: B_def)
  qed
  moreover have "finite ?s" using assms(1) by (simp add: B_def)
  ultimately have "wf ?s" by (simp add: finite_acyclic_wf)
  moreover have "x \<in> B" using assms(3) by (simp add: B_def)
  ultimately obtain z where z: "z \<in> B" "\<forall>y. (y, z) \<in> ?s \<longrightarrow> y \<notin> B"
    unfolding wf_eq_minimal by blast
  from z(1) assms(2) obtain y where y: "y \<in> A" "(y, z) \<in> r" by (auto simp: B_def)
  with z(1) have "y \<in> B" by (auto simp: B_def intro: converse_rtrancl_into_rtrancl)
  with z(1) y(2) have "(y, z) \<in> ?s" by blast
  with z(2) \<open>y \<in> B\<close> show False by blast
qed

text \<open>The layers from \<open>P\<close> on, as a rank: edges inside them go to later layers.\<close>

lemma layered_nth:
  assumes "layered es P ls" and "i < length ls" and "n \<in> set (ls ! i)" and "(m, n) \<in> edge_rel es"
  shows "m \<in> P \<or> (\<exists>j<i. m \<in> set (ls ! j))"
  using assms
proof (induction es P ls arbitrary: i rule: layered.induct)
  case (2 es P l ls)
  show ?case
  proof (cases i)
    case 0
    with 2(2-) show ?thesis by auto
  next
    case (Suc k)
    with 2 have "m \<in> P \<union> set l \<or> (\<exists>j<k. m \<in> set (ls ! j))" by simp
    then show ?thesis
    proof (elim disjE exE conjE)
      fix j assume "j < k" "m \<in> set (ls ! j)"
      with Suc show ?thesis by (intro disjI2 exI [of _ "Suc j"]) simp
    qed (use Suc in auto)
  qed
qed simp

lemma layered_prev:
  assumes "layered es P ls" and "Suc i < length ls" and "n \<in> set (ls ! Suc i)"
  shows "\<exists>m\<in>set (ls ! i). (m, n) \<in> edge_rel es"
  using assms
proof (induction es P ls arbitrary: i rule: layered.induct)
  case (2 es P l ls)
  then show ?case by (cases i) (auto simp: hd_conv_nth)
qed simp

lemma layered_distinct:
  assumes "layered es P ls"
  shows "distinct (concat ls) \<and> set (concat ls) \<inter> P = {} \<and> (\<forall>l\<in>set ls. l \<noteq> [] \<and> sorted l \<and> distinct l)"
  using assms
proof (induction es P ls rule: layered.induct)
  case (2 es P l ls)
  then show ?case by simp blast
qed simp

lemma layered_acyclic:
  assumes "layered es {} ls" and "(m, m) \<in> (edge_rel es)\<^sup>+"
  shows "m \<notin> set (concat ls)"
proof
  assume "m \<in> set (concat ls)"
  then obtain l where "l \<in> set ls" "m \<in> set l" by auto
  then obtain i where i: "i < length ls" "m \<in> set (ls ! i)" by (metis in_set_conv_nth)
  have "\<exists>j. j < i \<and> j < length ls \<and> a \<in> set (ls ! j)" if "(a, m) \<in> (edge_rel es)\<^sup>+" for a
    using that
  proof (induction rule: converse_trancl_induct)
    case (base a)
    from layered_nth [OF assms(1) i base] i(1) show ?case by force
  next
    case (step a b)
    then obtain j where j: "j < i" "j < length ls" "b \<in> set (ls ! j)" by blast
    from layered_nth [OF assms(1) j(2,3) step(1)] obtain k where "k < j" "a \<in> set (ls ! k)" by auto
    with j show ?case by (auto intro!: exI [of _ k])
  qed
  from this [OF assms(2)] obtain j where j: "j < i" "m \<in> set (ls ! j)" "j < length ls" by blast
  have "distinct (concat ls)" using layered_distinct [OF assms(1)] by blast
  moreover have "set (ls ! j) \<inter> set (ls ! i) = {}"
  proof -
    have "concat ls = concat (take i ls) @ ls ! i @ concat (drop (Suc i) ls)"
      using id_take_nth_drop [OF i(1)] by (metis concat.simps(2) concat_append)
    moreover have "ls ! j \<in> set (take i ls)" using j(1) i(1) by (metis in_set_conv_nth length_take min.strict_order_iff min_less_iff_conj nth_take j(3))
    ultimately show ?thesis using \<open>distinct (concat ls)\<close> by auto
  qed
  ultimately show False using i j by blast
qed

text \<open>Predecessors of a placed node are placed.\<close>

lemma placed_upstream:
  assumes "\<And>n. n \<in> Q \<Longrightarrow> remaining es Q n = 0" and "(m, n) \<in> (edge_rel es)\<^sup>*" and "n \<in> Q"
  shows "m \<in> Q"
  using assms(2,3)
proof (induction rule: converse_rtrancl_induct)
  case (step a b)
  with assms(1) show ?case by (auto simp: remaining_zero)
qed

lemma topological_layers_ok:
  assumes "topological_layers ns es = Inr ls"
  shows "distinct ns" and "\<And>e. e \<in> set es \<Longrightarrow> e_source e \<in> set ns \<and> e_target e \<in> set ns"
    and "layered es {} ls" and "mset (concat ls) = mset ns" and "set (concat ls) = set ns"
proof -
  show d: "distinct ns" and "\<And>e. e \<in> set es \<Longrightarrow> e_source e \<in> set ns \<and> e_target e \<in> set ns"
    using assms by (auto simp: topological_layers_def list_all_iff split: if_splits)
  then have e: "\<forall>e\<in>set es. e_source e \<in> set ns \<and> e_target e \<in> set ns" by blast
  define d0 where "d0 = count_in es (map (\<lambda>n. (n, 0)) ns)"
  define ready where "ready = sort (map fst (filter (\<lambda>(n, k). k = 0) d0))"
  obtain ls' d' where k: "kahn es ready d0 = (ls', d')" by fastforce
  from assms d e k have ls: "ls' = ls" "length (concat ls) = length ns"
    by (auto simp: topological_layers_def Let_def d0_def [symmetric] ready_def [symmetric] list_all_iff split: if_splits)
  have sp: "layered es {} ls" "set (concat ls) \<subseteq> set ns"
    using kahn_spec [OF kinv_init [OF d e d0_def, folded ready_def] k] ls by auto
  show "layered es {} ls" by (rule sp(1))
  note ld = layered_distinct [OF sp(1)]
  show eq: "set (concat ls) = set ns" using ls(2) ld d sp(2) by (metis card_subset_eq distinct_card List.finite_set)
  show "mset (concat ls) = mset ns" using ld d eq by (metis set_eq_iff_mset_eq_distinct)
qed

lemma layers_spec:
  assumes "distinct ns" and "\<forall>e\<in>set es. e_source e \<in> set ns \<and> e_target e \<in> set ns"
  shows "case topological_layers ns es of
      Inr ls \<Rightarrow> acyclic (edge_rel es) \<and> mset (concat ls) = mset ns
        \<and> (\<forall>l\<in>set ls. l \<noteq> [] \<and> sorted_wrt (<) l)
        \<and> (\<forall>i<length ls. \<forall>n\<in>set (ls ! i).
              (\<forall>m. (m, n) \<in> edge_rel es \<longrightarrow> (\<exists>j<i. m \<in> set (ls ! j)))
            \<and> (0 < i \<longrightarrow> (\<exists>m\<in>set (ls ! (i - 1)). (m, n) \<in> edge_rel es)))
    | Inl err \<Rightarrow> \<not> acyclic (edge_rel es) \<and> (\<exists>ids. err = CycleError ids \<and> sorted_wrt (<) ids
        \<and> (\<forall>n. n \<in> set ids \<longleftrightarrow> (\<exists>m. (m, m) \<in> (edge_rel es)\<^sup>+ \<and> (m, n) \<in> (edge_rel es)\<^sup>*)))"
proof -
  let ?E = "edge_rel es"
  define d0 where "d0 = count_in es (map (\<lambda>n. (n, 0)) ns)"
  define ready where "ready = sort (map fst (filter (\<lambda>(n, k). k = 0) d0))"
  obtain ls d where k: "kahn es ready d0 = (ls, d)" by fastforce
  let ?Q = "set (concat ls)"
  have sp: "layered es {} ls" "?Q \<subseteq> set ns" "kinv es (set ns) ?Q [] d"
    using kahn_spec [OF kinv_init [OF assms d0_def, folded ready_def] k] by auto
  note ld = layered_distinct [OF sp(1)]
  have T: "topological_layers ns es = (if length (concat ls) \<noteq> length ns
      then Inl (CycleError (sort (map fst (filter (\<lambda>(n, k). 0 < k) d)))) else Inr ls)"
    using assms k by (simp add: topological_layers_def Let_def d0_def [symmetric] ready_def [symmetric] list_all_iff)
  have kd: "fst ` set d = set ns" "\<And>n. n \<in> set ns \<Longrightarrow> map_of d n = Some (int (remaining es ?Q n))"
      "\<And>n. n \<in> ?Q \<Longrightarrow> remaining es ?Q n = 0" "\<And>n. n \<in> set ns - ?Q \<Longrightarrow> remaining es ?Q n \<noteq> 0" "wf_dict d"
    using sp(3) by (auto simp: kinv_def)
  have up: "\<exists>m. (m, m) \<in> ?E\<^sup>+ \<and> (m, n) \<in> ?E\<^sup>*" if "n \<in> set ns - ?Q" for n
  proof (rule upstream_cycle [of "set ns - ?Q"])
    fix x assume "x \<in> set ns - ?Q"
    from kd(4) [OF this] obtain m where "(m, x) \<in> ?E" "m \<notin> ?Q" unfolding remaining_zero by blast
    with assms(2) show "\<exists>y\<in>set ns - ?Q. (y, x) \<in> ?E" by (auto simp: edge_rel_iff)
  qed (use that in auto)
  show ?thesis
  proof (cases "length (concat ls) = length ns")
    case True
    have "?Q = set ns" "mset (concat ls) = mset ns"
      using topological_layers_ok(4,5) [of ns es ls] T True by simp_all
    moreover have "acyclic ?E"
    proof (rule acyclicI, intro allI notI)
      fix m assume m: "(m, m) \<in> ?E\<^sup>+"
      then obtain k where "(m, k) \<in> ?E" by (metis tranclD)
      then have "m \<in> set ns" using assms(2) by (auto simp: edge_rel_iff)
      with \<open>?Q = set ns\<close> have "m \<in> ?Q" by (simp only:)
      with layered_acyclic [OF sp(1) m] show False by contradiction
    qed
    moreover have "\<forall>l\<in>set ls. l \<noteq> [] \<and> sorted_wrt (<) l" using ld by (simp add: strict_sorted_iff)
    ultimately show ?thesis using True T layered_nth [OF sp(1)] layered_prev [OF sp(1)]
      by (auto simp: gr0_conv_Suc)
  next
    case False
    let ?ids = "sort (map fst (filter (\<lambda>(n, k). 0 < k) d))"
    have mem: "(n, k) \<in> set d \<longleftrightarrow> n \<in> set ns \<and> k = int (remaining es ?Q n)" for n k
    proof (cases "n \<in> set ns")
      case True
      with map_of_Some_iff [OF kd(5), of n k] kd(2) [OF True] show ?thesis by auto
    next
      case False
      with kd(1) show ?thesis by force
    qed
    have ids: "set ?ids = set ns - ?Q"
    proof (rule set_eqI)
      fix n
      have "n \<in> set ?ids \<longleftrightarrow> n \<in> set ns \<and> remaining es ?Q n \<noteq> 0" using mem by force
      also have "\<dots> \<longleftrightarrow> n \<in> set ns - ?Q" using kd(3) [of n] kd(4) [of n] by (metis Diff_iff)
      finally show "n \<in> set ?ids \<longleftrightarrow> n \<in> set ns - ?Q" .
    qed
    have sorted: "sorted_wrt (<) ?ids" using kd(5) by (simp add: strict_sorted_iff distinct_map_filter)
    have "n \<in> set ns - ?Q" if m: "(m, m) \<in> ?E\<^sup>+" "(m, n) \<in> ?E\<^sup>*" for m n
    proof -
      have "(m, n) \<in> ?E\<^sup>+" using m by (rule trancl_rtrancl_trancl)
      then obtain k where "(k, n) \<in> ?E" by (metis tranclD2)
      then have "n \<in> set ns" using assms(2) by (auto simp: edge_rel_iff)
      moreover have "n \<notin> ?Q" using placed_upstream [OF kd(3) m(2)] layered_acyclic [OF sp(1) m(1)] by blast
      ultimately show ?thesis by blast
    qed
    with up ids have ex: "n \<in> set ?ids \<longleftrightarrow> (\<exists>m. (m, m) \<in> ?E\<^sup>+ \<and> (m, n) \<in> ?E\<^sup>*)" for n by blast
    have "?Q \<noteq> set ns" using False ld assms(1) by (metis distinct_card)
    with sp(2) obtain n where "n \<in> set ns - ?Q" by blast
    from up [OF this] have "\<not> acyclic ?E" by (auto simp: acyclic_def)
    with T False ex sorted show ?thesis by simp
  qed
qed

text \<open>C7. Layers. On distinct nodes and edges between them, the answer is a list of layers exactly
  when the graph has no cycle. The layers partition the nodes, each is non-empty and in increasing
  order, all predecessors of a node lie in earlier layers, and one of them in the layer just
  before: a node's layer is the length of the longest walk that leads to it. Otherwise the error
  names, in increasing order, exactly the nodes on a cycle or downstream of one.\<close>

theorem layers_of_graph:
  assumes "distinct ns" and "\<forall>e\<in>set es. e_source e \<in> set ns \<and> e_target e \<in> set ns"
  shows "case topological_layers ns es of
      Inr ls \<Rightarrow> acyclic (edge_rel es) \<and> mset (concat ls) = mset ns
        \<and> (\<forall>l\<in>set ls. l \<noteq> [] \<and> sorted_wrt (<) l)
        \<and> (\<forall>i<length ls. \<forall>n\<in>set (ls ! i).
              (\<forall>m. (m, n) \<in> edge_rel es \<longrightarrow> (\<exists>j<i. m \<in> set (ls ! j)))
            \<and> (0 < i \<longrightarrow> (\<exists>m\<in>set (ls ! (i - 1)). (m, n) \<in> edge_rel es)))
    | Inl err \<Rightarrow> \<not> acyclic (edge_rel es) \<and> (\<exists>ids. err = CycleError ids \<and> sorted_wrt (<) ids
        \<and> (\<forall>n. n \<in> set ids \<longleftrightarrow> (\<exists>m. (m, m) \<in> (edge_rel es)\<^sup>+ \<and> (m, n) \<in> (edge_rel es)\<^sup>*)))"
  using assms by (rule layers_spec)

lemma layers_of_graph_witness:
  "(case topological_layers [1, 2, 3] [\<lparr>e_source = 1, e_source_port = ''a'', e_target = 2, e_target_port = ''b''\<rparr>,
       \<lparr>e_source = 2, e_source_port = ''a'', e_target = 1, e_target_port = ''b''\<rparr>,
       \<lparr>e_source = 2, e_source_port = ''c'', e_target = 3, e_target_port = ''d''\<rparr>] of
     Inl err \<Rightarrow> \<exists>ids. err = CycleError ids \<and> sorted_wrt (<) ids | Inr ls \<Rightarrow> False)"
proof -
  let ?es = "[\<lparr>e_source = 1, e_source_port = ''a'', e_target = 2, e_target_port = ''b''\<rparr>,
       \<lparr>e_source = 2, e_source_port = ''a'', e_target = 1, e_target_port = ''b''\<rparr>,
       \<lparr>e_source = 2, e_source_port = ''c'', e_target = 3, e_target_port = ''d''\<rparr>] :: edge list"
  have "(1, 2) \<in> edge_rel ?es" "(2, 1) \<in> edge_rel ?es" by (simp_all add: edge_rel_def)
  then have "\<not> acyclic (edge_rel ?es)" unfolding acyclic_def by (meson trancl.simps)
  then show ?thesis using layers_of_graph [of "[1, 2, 3]" ?es] by (auto split: sum.splits)
qed

section \<open>Longest walks\<close>

fun walk :: "edge list \<Rightarrow> uuid list \<Rightarrow> bool" where
  "walk es [] = False"
| "walk es [n] = True"
| "walk es (n # m # p) = ((n, m) \<in> edge_rel es \<and> walk es (m # p))"

text \<open>The longest walks from \<open>n\<close> have \<open>k\<close> nodes.\<close>

definition longest :: "edge list \<Rightarrow> uuid \<Rightarrow> int \<Rightarrow> bool" where
  "longest es n k = ((\<exists>p. walk es (n # p) \<and> k = 1 + int (length p)) \<and> (\<forall>p. walk es (n # p) \<longrightarrow> 1 + int (length p) \<le> k))"

lemma set_successors: "t \<in> set (successors es n) \<longleftrightarrow> (n, t) \<in> edge_rel es"
  by (auto simp: successors_def edge_rel_iff)

lemma max_default_Max: "ks \<noteq> [] \<Longrightarrow> max_default ks = Max (set ks)"
  by (cases ks) (simp_all only: max_default_def list.case Max.set_eq_fold)

lemma max_default_ge: "k \<in> set ks \<Longrightarrow> k \<le> max_default ks"
  using max_default_Max [of ks] by (cases "ks = []") simp_all

lemma max_default_in: "ks \<noteq> [] \<Longrightarrow> max_default ks \<in> set ks"
  using max_default_Max [of ks] by simp

lemma longest_step:
  assumes "list_all2 (longest es) (successors es n) ks"
  shows "longest es n (1 + max_default ks)"
  unfolding longest_def
proof (intro conjI allI impI)
  show "\<exists>p. walk es (n # p) \<and> 1 + max_default ks = 1 + int (length p)"
  proof (cases "ks = []")
    case True
    then show ?thesis by (intro exI [of _ "[]"]) (simp add: max_default_def)
  next
    case False
    from max_default_in [OF this] assms obtain t where t: "t \<in> set (successors es n)" "longest es t (max_default ks)"
      by (metis list_all2_conv_all_nth in_set_conv_nth)
    then obtain p where "walk es (t # p)" "max_default ks = 1 + int (length p)" by (auto simp: longest_def)
    with t(1) show ?thesis by (intro exI [of _ "t # p"]) (simp add: set_successors)
  qed
next
  fix p assume p: "walk es (n # p)"
  show "1 + int (length p) \<le> 1 + max_default ks"
  proof (cases p)
    case Nil
    have "0 \<le> max_default ks"
    proof (cases "ks = []")
      case False
      from max_default_in [OF this] assms obtain t where "longest es t (max_default ks)"
        by (metis list_all2_conv_all_nth in_set_conv_nth)
      then show ?thesis by (auto simp: longest_def)
    qed (simp add: max_default_def)
    with Nil show ?thesis by simp
  next
    case (Cons t q)
    with p have "t \<in> set (successors es n)" and w: "walk es (t # q)" by (auto simp: set_successors)
    with assms obtain k where "k \<in> set ks" "longest es t k" by (metis list_all2_conv_all_nth in_set_conv_nth)
    with w Cons max_default_ge [of k ks] show ?thesis by (fastforce simp: longest_def)
  qed
qed

lemma longest_unique: "longest es n k \<Longrightarrow> longest es n j \<Longrightarrow> j = k"
  unfolding longest_def by (meson antisym)

lemma longest_ge1: "longest es n k \<Longrightarrow> 1 \<le> k"
  by (auto simp: longest_def)

text \<open>Lists whose nodes come after their successors; the lengths are then found in order.\<close>

fun after_targets :: "edge list \<Rightarrow> uuid set \<Rightarrow> uuid list \<Rightarrow> bool" where
  "after_targets es P [] = True"
| "after_targets es P (n # ns) = (set (successors es n) \<subseteq> P \<and> after_targets es (insert n P) ns)"

definition knows :: "edge list \<Rightarrow> (uuid, int) dict \<Rightarrow> uuid set \<Rightarrow> bool" where
  "knows es L P = (\<forall>n\<in>P. \<exists>k. map_of L n = Some k \<and> longest es n k)"

lemma lookup_targets:
  assumes "knows es L P" and "set ts \<subseteq> P"
  shows "\<exists>ks. rmap (lookup L) ts = Inr ks \<and> list_all2 (longest es) ts ks"
  using assms(2)
proof (induction ts)
  case (Cons t ts)
  then obtain ks where ks: "rmap (lookup L) ts = Inr ks" "list_all2 (longest es) ts ks" by auto
  from Cons.prems assms(1) obtain k where "map_of L t = Some k" "longest es t k" unfolding knows_def by auto
  then have "lookup L t = Inr k" "longest es t k" by (simp_all add: lookup_def)
  with ks show ?case by simp
qed simp

lemma path_lengths_ok:
  assumes "after_targets es P ns" and "knows es L P"
  shows "\<exists>L'. path_lengths es ns L = Inr L' \<and> knows es L' (P \<union> set ns)"
  using assms
proof (induction es P ns arbitrary: L rule: after_targets.induct)
  case (2 es P n ns)
  then obtain ks where ks: "rmap (lookup L) (successors es n) = Inr ks" "list_all2 (longest es) (successors es n) ks"
    using lookup_targets by (metis after_targets.simps(2))
  let ?L = "AList.update n (1 + max_default ks) L"
  have "knows es ?L (insert n P)"
    using 2(3) longest_step [OF ks(2)] by (auto simp: knows_def map_of_update)
  with 2 obtain L' where "path_lengths es ns ?L = Inr L'" "knows es L' (insert n P \<union> set ns)" by auto
  with ks(1) show ?case by auto
qed simp

lemma after_targets_append: "after_targets es P (xs @ ys) \<longleftrightarrow> after_targets es P xs \<and> after_targets es (P \<union> set xs) ys"
  by (induction es P xs rule: after_targets.induct) auto

lemma after_targets_layer: "(\<And>n. n \<in> set l \<Longrightarrow> set (successors es n) \<subseteq> P) \<Longrightarrow> after_targets es P l"
proof (induction l arbitrary: P)
  case (Cons n l)
  have "after_targets es (insert n P) l" by (rule Cons.IH) (use Cons.prems in auto)
  with Cons.prems show ?case by simp
qed simp

lemma after_targets_layers:
  assumes "layered es P ls" and "\<And>m n. (m, n) \<in> edge_rel es \<Longrightarrow> n \<in> P \<union> set (concat ls)"
    and "\<And>m n. (m, n) \<in> edge_rel es \<Longrightarrow> n \<in> P \<Longrightarrow> m \<in> P"
  shows "after_targets es {} (rev (concat ls))"
  using assms
proof (induction es P ls rule: layered.induct)
  case (2 es P l ls)
  have "after_targets es {} (rev (concat ls))"
    using 2 by (intro 2(1)) auto
  moreover have "after_targets es (set (concat ls)) (rev l)"
  proof (rule after_targets_layer)
    fix n assume n: "n \<in> set (rev l)"
    show "set (successors es n) \<subseteq> set (concat ls)"
    proof
      fix t assume "t \<in> set (successors es n)"
      then have e: "(n, t) \<in> edge_rel es" by (simp add: set_successors)
      have "n \<notin> P" using n 2(2) by auto
      then have "t \<notin> set l" using e 2(2) by auto
      moreover have "t \<notin> P" using 2(4) [OF e] \<open>n \<notin> P\<close> by blast
      ultimately show "t \<in> set (concat ls)" using 2(3) [OF e] by auto
    qed
  qed
  ultimately show ?case by (simp add: after_targets_append)
qed simp

section \<open>The critical path\<close>

lemma follow_ok:
  assumes "knows es L P" and "\<And>m n. (m, n) \<in> edge_rel es \<Longrightarrow> n \<in> P" and "n \<in> P" and "longest es n k"
  shows "\<exists>p. follow es L n = Inr p \<and> walk es (n # p) \<and> 1 + int (length p) = k"
  using assms(3,4)
proof (induction "nat k" arbitrary: n k rule: less_induct)
  case less
  from assms(1) less(2,3) have at: "map_of L n = Some k" unfolding knows_def by (metis longest_unique)
  show ?case
  proof (cases "k \<le> 1")
    case True
    with longest_ge1 [OF less(3)] have "k = 1" by simp
    with at show ?thesis by (intro exI [of _ "[]"]) (simp add: follow.simps [of es L n] lookup_def)
  next
    case False
    have sub: "set (successors es n) \<subseteq> P" using assms(2) by (auto simp: set_successors)
    obtain ks where ks: "rmap (lookup L) (successors es n) = Inr ks" using lookup_targets [OF assms(1) sub] by blast
    let ?c = "filter (\<lambda>t. map_of L t = Some (k - 1)) (successors es n)"
    have "?c \<noteq> []"
    proof -
      from less(3) obtain p where p: "walk es (n # p)" "k = 1 + int (length p)" by (auto simp: longest_def)
      with False obtain t q where q: "p = t # q" by (cases p) auto
      with p have e: "(n, t) \<in> edge_rel es" and w: "walk es (t # q)" by auto
      have "t \<in> P" by (rule assms(2) [OF e])
      with assms(1) obtain j where j: "map_of L t = Some j" "longest es t j" unfolding knows_def by blast
      have "k - 1 \<le> j" using j(2) w p(2) q by (auto simp: longest_def)
      moreover obtain r where r: "walk es (t # r)" "j = 1 + int (length r)" using j(2) by (auto simp: longest_def)
      have "walk es (n # t # r)" using e r(1) by simp
      with less(3) have "1 + int (length (t # r)) \<le> k" unfolding longest_def by blast
      then have "1 + j \<le> k" using r(2) by simp
      ultimately have "t \<in> set ?c" using j(1) e by (simp add: set_successors)
      then show ?thesis by (metis empty_iff list.set(1))
    qed
    define nxt where "nxt = by_key (\<lambda>n. n) ?c"
    have nxt: "nxt \<in> set (successors es n)" "map_of L nxt = Some (k - 1)"
      using by_key_in [OF \<open>?c \<noteq> []\<close>, of "\<lambda>n. n"] by (auto simp: nxt_def)
    then have "nxt \<in> P" using sub by auto
    moreover have "longest es nxt (k - 1)" using assms(1) \<open>nxt \<in> P\<close> nxt(2) by (auto simp: knows_def)
    moreover have "nat (k - 1) < nat k" using False by simp
    ultimately obtain p where p: "follow es L nxt = Inr p" "walk es (nxt # p)" "1 + int (length p) = k - 1"
      using less(1) by blast
    have "follow es L n = Inr (nxt # p)"
      using at False ks \<open>?c \<noteq> []\<close> p(1) by (simp add: follow.simps [of es L n] lookup_def nxt_def Let_def)
    with p nxt(1) show ?thesis by (intro exI [of _ "nxt # p"]) (simp add: set_successors)
  qed
qed

lemma root_above:
  assumes "layered es {} ls" and "i < length ls" and "n \<in> set (ls ! i)" and "walk es (n # p)"
  shows "\<exists>r q. r \<in> set (concat ls) \<and> (\<forall>m. (m, r) \<notin> edge_rel es) \<and> walk es (r # q) \<and> length p \<le> length q"
  using assms(2-)
proof (induction i arbitrary: n p rule: less_induct)
  case (less i)
  show ?case
  proof (cases "\<exists>m. (m, n) \<in> edge_rel es")
    case False
    moreover have "n \<in> set (concat ls)" using less(2,3) by auto
    ultimately show ?thesis using less(4) by blast
  next
    case True
    then obtain m where m: "(m, n) \<in> edge_rel es" by blast
    with layered_nth [OF assms(1) less(2,3)] obtain j where j: "j < i" "m \<in> set (ls ! j)" by blast
    have "walk es (m # n # p)" using m less(4) by simp
    from less(1) [OF j(1) _ j(2) this] j(1) less(2) show ?thesis by fastforce
  qed
qed

lemma arg_min_roots:
  fixes L :: "(uuid, int) dict"
  assumes "roots \<noteq> []" and "r \<in> set roots"
  shows "the (map_of L r) \<le> the (map_of L (by_key (\<lambda>n. (- the (map_of L n), n)) roots))"
  using by_key_le [OF assms(2), of "\<lambda>n. (- the (map_of L n), n)"] by (auto simp: less_eq_prod_def)

lemma walk_nodes:
  assumes "walk es (n # p)" and "n \<in> P" and "\<And>m n. (m, n) \<in> edge_rel es \<Longrightarrow> n \<in> P"
  shows "set (n # p) \<subseteq> P"
  using assms(1,2)
proof (induction p arbitrary: n)
  case (Cons m p)
  then have "(n, m) \<in> edge_rel es" "walk es (m # p)" by auto
  with Cons assms(3) show ?case by auto
qed simp

lemma critical_path_spec:
  assumes "topological_layers ns es = Inr ls" and "ns \<noteq> []"
  shows "\<exists>L p. critical_path_lengths (concat ls) es = Inr L
    \<and> (\<forall>n\<in>set ns. \<exists>q. walk es (n # q) \<and> map_of L n = Some (1 + int (length q)) \<and> (\<forall>r. walk es (n # r) \<longrightarrow> length r \<le> length q))
    \<and> select_critical_path (concat ls) es (Some L) = Inr p \<and> select_critical_path (concat ls) es None = Inr p
    \<and> walk es p \<and> set p \<subseteq> set ns \<and> (\<forall>m. (m, hd p) \<notin> edge_rel es) \<and> (\<forall>q. walk es q \<longrightarrow> length q \<le> length p)"
proof -
  note ok = topological_layers_ok [OF assms(1)]
  have inE: "m \<in> set ns \<and> n \<in> set ns" if "(m, n) \<in> edge_rel es" for m n
    using that ok(2) by (auto simp: edge_rel_iff)
  have "after_targets es {} (rev (concat ls))"
    using ok(3) inE ok(5) by (intro after_targets_layers) auto
  from path_lengths_ok [OF this, of "[]"] obtain L where L: "critical_path_lengths (concat ls) es = Inr L" "knows es L (set ns)"
    unfolding critical_path_lengths_def using ok(5) by (auto simp del: set_concat simp: knows_def [of es "[]"])
  have Lne: "L \<noteq> []" using L(2) assms(2) by (cases ns) (auto simp: knows_def)
  let ?order = "concat ls"
  define roots where "roots = filter (\<lambda>n. n \<notin> e_target ` set es) ?order"
  have root: "r \<in> set roots \<longleftrightarrow> r \<in> set ns \<and> (\<forall>m. (m, r) \<notin> edge_rel es)" for r
    using ok(5) by (auto simp: roots_def edge_rel_iff)
  have above: "\<exists>r q. r \<in> set roots \<and> walk es (r # q) \<and> length w \<le> length q" if "n \<in> set ns" "walk es (n # w)" for n w
  proof -
    from that(1) ok(5) obtain l where "l \<in> set ls" "n \<in> set l" by auto
    then obtain i where "i < length ls" "n \<in> set (ls ! i)" by (metis in_set_conv_nth)
    from root_above [OF ok(3) this that(2)] show ?thesis using root ok(5) by auto
  qed
  have ne: "roots \<noteq> []" using above [of "hd ns" "[]"] assms(2) by auto
  obtain ks where ks: "rmap (lookup L) roots = Inr ks" using lookup_targets [OF L(2), of roots] root by blast
  have ends: "rmap (\<lambda>e. if e_target e \<in> set ?order then Inr () else Inl (TopoKey (e_target e))) es = Inr (map (\<lambda>_. ()) es)"
    using ok(2,5) by (intro rmap_map) auto
  define cur where "cur = by_key (\<lambda>n. (- the (map_of L n), n)) roots"
  have cur: "cur \<in> set roots" unfolding cur_def by (rule by_key_in [OF ne])
  with root L(2) obtain k where k: "map_of L cur = Some k" "longest es cur k" unfolding knows_def by blast
  have "cur \<in> set ns" using cur root by blast
  from follow_ok [OF L(2) _ this k(2)] inE obtain q where q: "follow es L cur = Inr q" "walk es (cur # q)" "1 + int (length q) = k"
    by blast
  have order: "?order \<noteq> []" using ok(5) assms(2) by (metis set_empty)
  have sel: "select_critical_path ?order es x = Inr (cur # q)" if "x = Some L \<or> x = None" for x
  proof -
    have "(case x of Some (p # L) \<Rightarrow> Inr (p # L) | _ \<Rightarrow> critical_path_lengths ?order es) = Inr L"
      using that L(1) Lne by (cases L) auto
    then show ?thesis
      using order ends ks ne q(1) by (simp add: select_critical_path_def Let_def roots_def [symmetric] cur_def [symmetric])
  qed
  have best: "length w \<le> length (cur # q)" if w: "walk es w" for w
  proof (cases w)
    case (Cons n t)
    show ?thesis
    proof (cases t)
      case (Cons m u)
      with w \<open>w = n # t\<close> inE have "n \<in> set ns" by auto
      with above [of n t] w \<open>w = n # t\<close> obtain r v where r: "r \<in> set roots" "walk es (r # v)" "length t \<le> length v" by auto
      with root L(2) obtain j where j: "map_of L r = Some j" "longest es r j" unfolding knows_def by blast
      have "1 + int (length v) \<le> j" using j(2) r(2) by (simp add: longest_def)
      also have "j \<le> k" using arg_min_roots [OF ne r(1), of L] j(1) k(1) by (simp add: cur_def)
      finally show ?thesis using r(3) q(3) \<open>w = n # t\<close> by simp
    qed (use \<open>w = n # t\<close> in simp)
  qed simp
  have "set (cur # q) \<subseteq> set ns" using walk_nodes [OF q(2) \<open>cur \<in> set ns\<close>] inE by blast
  moreover have "\<exists>q. walk es (n # q) \<and> map_of L n = Some (1 + int (length q)) \<and> (\<forall>r. walk es (n # r) \<longrightarrow> length r \<le> length q)"
    if "n \<in> set ns" for n
  proof -
    from that L(2) obtain j where j: "map_of L n = Some j" "longest es n j" unfolding knows_def by blast
    then obtain t where "walk es (n # t)" "j = 1 + int (length t)" by (auto simp: longest_def)
    with j show ?thesis by (intro exI [of _ t]) (auto simp: longest_def)
  qed
  moreover have "\<forall>m. (m, hd (cur # q)) \<notin> edge_rel es" using cur root by simp
  ultimately show ?thesis using L(1) sel q(2) best by blast
qed

text \<open>C8. The critical path. Over the layers of a graph, \<open>critical_path_lengths\<close> finds for every node
  the number of nodes on a longest walk that starts there, and \<open>select_critical_path\<close>, given these
  lengths or none, returns a walk of the graph that no other walk exceeds in length and that starts
  at a node without predecessor.\<close>

theorem critical_path:
  assumes "topological_layers ns es = Inr ls" and "ns \<noteq> []"
  shows "\<exists>L p. critical_path_lengths (concat ls) es = Inr L
    \<and> (\<forall>n\<in>set ns. \<exists>q. walk es (n # q) \<and> map_of L n = Some (1 + int (length q)) \<and> (\<forall>r. walk es (n # r) \<longrightarrow> length r \<le> length q))
    \<and> select_critical_path (concat ls) es (Some L) = Inr p \<and> select_critical_path (concat ls) es None = Inr p
    \<and> walk es p \<and> set p \<subseteq> set ns \<and> (\<forall>m. (m, hd p) \<notin> edge_rel es) \<and> (\<forall>q. walk es q \<longrightarrow> length q \<le> length p)"
  using assms by (rule critical_path_spec)

lemma critical_path_witness:
  "\<exists>L p. critical_path_lengths [1, 2, 3] [\<lparr>e_source = 1, e_source_port = ''a'', e_target = 2, e_target_port = ''b''\<rparr>,
       \<lparr>e_source = 2, e_source_port = ''a'', e_target = 3, e_target_port = ''b''\<rparr>] = Inr L
    \<and> select_critical_path [1, 2, 3] [\<lparr>e_source = 1, e_source_port = ''a'', e_target = 2, e_target_port = ''b''\<rparr>,
       \<lparr>e_source = 2, e_source_port = ''a'', e_target = 3, e_target_port = ''b''\<rparr>] (Some L) = Inr p \<and> 3 \<le> length p"
proof -
  let ?es = "[\<lparr>e_source = 1, e_source_port = ''a'', e_target = 2, e_target_port = ''b''\<rparr>,
       \<lparr>e_source = 2, e_source_port = ''a'', e_target = 3, e_target_port = ''b''\<rparr>] :: edge list"
  have top: "topological_layers [3, 1, 2] ?es = Inr [[1], [2], [3]]" by code_simp
  have "walk ?es [1, 2, 3]" by (simp add: edge_rel_def)
  with critical_path [OF top] show ?thesis by (fastforce dest: spec [of _ "[1, 2, 3]"])
qed

end
