(* ===== verification/Subgraphs.thy ===== *)
theory Subgraphs
  imports Topology Outcomes
begin

text \<open>
  graph/subgraphs.py: nodes whose type is registered as a subgraph are replaced by a copy of that
  graph, recursively. \<open>uuid5\<close> is SHA-1 of a namespace and a name; the model takes it as the
  parameter \<open>u5\<close>, any function of the two, and assumes nothing of it: where the code relies on its
  not colliding, the code checks. Nothing in \<open>expand\<close> bounds the loop by itself, so it is a partial
  function, and \<open>expand_total\<close> shows that it returns.
\<close>

type_synonym sub_key = "string \<times> string"
type_synonym sub_registry = "(sub_key, graph) dict"
type_synonym uuid5 = "uuid \<Rightarrow> string \<Rightarrow> uuid"

datatype expand_error = SubgraphExpansionError string "uuid option" | ExpandValue graph_error

abbreviation plain :: "graph_error + 'a \<Rightarrow> expand_error + 'a" where
  "plain r \<equiv> map_sum ExpandValue id r"

section \<open>Traces\<close>

definition construct_kinds :: "string list" where
  "construct_kinds = [''subgraph'', ''function'', ''macro'']"

record trace =
  t_kind :: string
  t_call :: uuid
  t_parent :: "uuid option"
  t_type_id :: string
  t_type_version :: string
  t_source_graph :: uuid
  t_source_version :: int
  t_members :: "uuid list"
  t_depth :: int

definition trace_post_init :: "trace \<Rightarrow> graph_error + trace" where
  "trace_post_init t = rbind (checks
     [require (t_kind t \<in> set construct_kinds) ''subgraph trace kind must be subgraph, function or macro'',
      require (t_parent t \<noteq> Some (t_call t)) ''a subgraph trace cannot be its own parent'',
      ident (validate_node_id (t_type_id t)), ident (validate_semver ''node_type_version'' (t_type_version t)),
      require (0 < t_source_version t) ''source_graph_version must be positive'',
      require (t_members t \<noteq> []) ''subgraph trace must contain expanded member nodes'',
      require (distinct (t_members t)) ''member_node_ids must be unique'',
      require (0 \<le> t_depth t) ''subgraph trace depth must be non-negative'',
      require ((t_parent t = None) = (t_depth t = 0)) ''only root subgraph traces may have depth zero'']) (\<lambda>_. Inr t)"

section \<open>Inlining one call\<close>

definition node_key :: "node \<Rightarrow> sub_key" where
  "node_key n = (n_type_id n, n_type_version n)"

definition sub_registry :: "((string + sub_key) \<times> graph) list \<Rightarrow> expand_error + sub_registry" where
  "sub_registry kvs = fold (\<lambda>(kv :: (string + sub_key) \<times> graph) acc. rbind acc (\<lambda>R. case kv of (raw, g) \<Rightarrow>
     let key = (case raw of Inl s \<Rightarrow> (s, ''1.0.0'') | Inr k \<Rightarrow> k) in
     if key \<in> set (dkeys R) then Inl (ExpandValue (GValue ''duplicate subgraph registration''))
     else Inr (AList.update key g R))) kvs (Inr [])"

definition cloned_id :: "uuid5 \<Rightarrow> uuid \<Rightarrow> graph \<Rightarrow> uuid \<Rightarrow> uuid" where
  "cloned_id u5 call g inner = u5 call (uuid_str (g_id g) @ CHR '':'' # show_int (g_version g) @ CHR '':'' # uuid_str inner)"

definition cloned_ids :: "uuid5 \<Rightarrow> uuid \<Rightarrow> graph \<Rightarrow> (uuid, uuid) dict" where
  "cloned_ids u5 call g = map (\<lambda>n. (n_id n, cloned_id u5 call g (n_id n))) (g_nodes g)"

definition clone_binding :: "uuid \<Rightarrow> (uuid, uuid) dict \<Rightarrow> port_binding \<Rightarrow> expand_error + port_binding" where
  "clone_binding call ids b = (case map_of ids (b_node b) of
     None \<Rightarrow> Inl (SubgraphExpansionError ''invalid_subgraph_binding'' (Some call))
   | Some i \<Rightarrow> plain (binding_post_init ''binding port'' \<lparr>b_node = i, b_port = b_port b\<rparr>))"

definition port_of :: "string \<Rightarrow> uuid \<Rightarrow> (string, port_binding) dict \<Rightarrow> string \<Rightarrow> expand_error + port_binding" where
  "port_of code call ports p = (case map_of ports p of
     None \<Rightarrow> Inl (SubgraphExpansionError code (Some call)) | Some b \<Rightarrow> Inr b)"

text \<open>\<open>literal_overrides\<close>: for each inner node, the literals the call passes to its ports.\<close>

definition literal_overrides :: "node \<Rightarrow> graph \<Rightarrow> expand_error + (uuid, (string, json) dict) dict" where
  "literal_overrides call child = fold (\<lambda>pv acc. rbind acc (\<lambda>ov. case pv of (p, v) \<Rightarrow>
     rbind (port_of ''unknown_subgraph_input'' (n_id call) (g_inputs child) p) (\<lambda>b.
       let old = (case map_of ov (b_node b) of None \<Rightarrow> [] | Some d \<Rightarrow> d) in
       Inr (AList.update (b_node b) (AList.update (b_port b) v old) ov)))) (n_inputs call) (Inr [])"

definition override_inputs :: "uuid \<Rightarrow> (string, json) dict \<Rightarrow> (string, json) dict \<Rightarrow> expand_error + (string, json) dict" where
  "override_inputs call ov inputs = fold (\<lambda>pv acc. rbind acc (\<lambda>d. case pv of (p, v) \<Rightarrow>
     if p \<in> set (dkeys d) then Inl (SubgraphExpansionError ''multiple_subgraph_input'' (Some call))
     else Inr (AList.update p v d))) ov (Inr inputs)"

text \<open>The dictionary of inputs as the JSON object that \<open>NodeInstance\<close> checks again.\<close>

definition input_object :: "(string, json) dict \<Rightarrow> json" where
  "input_object d = JObj (map (\<lambda>(p, v). (ustr p, v)) d)"

definition clone_node :: "uuid5 \<Rightarrow> node \<Rightarrow> graph \<Rightarrow> (uuid, (string, json) dict) dict \<Rightarrow> node \<Rightarrow> expand_error + node" where
  "clone_node u5 call child ov n =
     rbind (override_inputs (n_id call) (case map_of ov (n_id n) of None \<Rightarrow> [] | Some d \<Rightarrow> d) (n_inputs n)) (\<lambda>inputs.
       plain (mk_node (cloned_id u5 (n_id call) child (n_id n)) (n_type_id n) (n_type_version n)
         (Frozen (input_object inputs)) (Frozen (JObj (n_metadata n)))))"

definition rewrite_edge :: "node \<Rightarrow> graph \<Rightarrow> (uuid, uuid) dict \<Rightarrow> edge \<Rightarrow> expand_error + edge" where
  "rewrite_edge call child ids e =
    (if e_target e = n_id call
     then rbind (port_of ''unknown_subgraph_input'' (n_id call) (g_inputs child) (e_target_port e)) (\<lambda>b.
          rbind (clone_binding (n_id call) ids b) (\<lambda>c. plain (edge_post_init
            \<lparr>e_source = e_source e, e_source_port = e_source_port e, e_target = b_node c, e_target_port = b_port c\<rparr>)))
     else if e_source e = n_id call
     then rbind (port_of ''unknown_subgraph_output'' (n_id call) (g_outputs child) (e_source_port e)) (\<lambda>b.
          rbind (clone_binding (n_id call) ids b) (\<lambda>c. plain (edge_post_init
            \<lparr>e_source = b_node c, e_source_port = b_port c, e_target = e_target e, e_target_port = e_target_port e\<rparr>)))
     else Inr e)"

definition child_edge :: "uuid \<Rightarrow> (uuid, uuid) dict \<Rightarrow> edge \<Rightarrow> expand_error + edge" where
  "child_edge call ids e = (case (map_of ids (e_source e), map_of ids (e_target e)) of
     (Some s, Some t) \<Rightarrow> plain (edge_post_init
       \<lparr>e_source = s, e_source_port = e_source_port e, e_target = t, e_target_port = e_target_port e\<rparr>)
   | _ \<Rightarrow> Inl (SubgraphExpansionError ''invalid_subgraph_edge'' (Some call)))"

definition rewrite_bindings :: "string \<Rightarrow> uuid \<Rightarrow> (uuid, uuid) dict \<Rightarrow> (string, port_binding) dict \<Rightarrow>
    (string, port_binding) dict \<Rightarrow> expand_error + (string, port_binding) dict" where
  "rewrite_bindings code call ids ports bs = rmap (\<lambda>(name, b).
     if b_node b \<noteq> call then Inr (name, b)
     else rbind (port_of code call ports (b_port b)) (\<lambda>cb. rbind (clone_binding call ids cb) (\<lambda>c. Inr (name, c)))) bs"

definition inline_call :: "uuid5 \<Rightarrow> graph \<Rightarrow> node \<Rightarrow> graph \<Rightarrow> expand_error + graph" where
  "inline_call u5 g call child = (let i = n_id call; ids = cloned_ids u5 i child in
     if \<exists>n\<in>set (g_nodes g). n_id n \<noteq> i \<and> n_id n \<in> set (dvalues ids)
     then Inl (SubgraphExpansionError ''subgraph_node_collision'' (Some i))
     else rbind (literal_overrides call child) (\<lambda>ov.
     rbind (rmap (clone_node u5 call child ov) (g_nodes child)) (\<lambda>clones.
     if \<exists>e\<in>set (g_edges g). e_target e = i \<and> e_target_port e \<in> set (dkeys (n_inputs call))
     then Inl (SubgraphExpansionError ''multiple_subgraph_input'' (Some i))
     else rbind (rmap (rewrite_edge call child ids) (g_edges g)) (\<lambda>es.
     rbind (rmap (child_edge i ids) (g_edges child)) (\<lambda>ces.
     rbind (rewrite_bindings ''unknown_subgraph_input'' i ids (g_inputs child) (g_inputs g)) (\<lambda>ins.
     rbind (rewrite_bindings ''unknown_subgraph_output'' i ids (g_outputs child) (g_outputs g)) (\<lambda>outs.
       plain (graph_post_init \<lparr>g_id = g_id g, g_version = g_version g,
         g_nodes = filter (\<lambda>n. n_id n \<noteq> i) (g_nodes g) @ clones, g_edges = es @ ces,
         g_inputs = ins, g_outputs = outs\<rparr>))))))))"

section \<open>Expansion\<close>

definition trace_kind :: "node \<Rightarrow> expand_error + string" where
  "trace_kind call = (case map_of (n_metadata call) (ustr ''construct_kind'') of
     None \<Rightarrow> Inr ''subgraph''
   | Some (JStr k) \<Rightarrow> (case List.find (\<lambda>s. ustr s = k) construct_kinds of
        Some s \<Rightarrow> Inr s | None \<Rightarrow> Inl (SubgraphExpansionError ''invalid_subgraph_kind'' (Some (n_id call))))
   | Some _ \<Rightarrow> Inl (SubgraphExpansionError ''invalid_subgraph_kind'' (Some (n_id call))))"

definition rebased_trace :: "uuid5 \<Rightarrow> node \<Rightarrow> graph \<Rightarrow> trace \<Rightarrow> expand_error + trace" where
  "rebased_trace u5 outer child t = (let ns = cloned_id u5 (n_id outer) child in
     plain (trace_post_init (t\<lparr>t_call := ns (t_call t),
       t_parent := Some (case t_parent t of None \<Rightarrow> n_id outer | Some p \<Rightarrow> ns p),
       t_members := map ns (t_members t), t_depth := t_depth t + 1\<rparr>)))"

definition calls_of :: "sub_registry \<Rightarrow> graph \<Rightarrow> node list" where
  "calls_of R g = filter (\<lambda>n. node_key n \<in> set (dkeys R)) (g_nodes g)"

text \<open>One pass of the loop after the child has been expanded: the traces it adds and the new graph.\<close>

definition expand_call :: "uuid5 \<Rightarrow> graph \<Rightarrow> node \<Rightarrow> graph \<Rightarrow> trace list \<Rightarrow> expand_error + (trace list \<times> graph)" where
  "expand_call u5 g call child ctraces =
    (if g_nodes child = [] then Inl (SubgraphExpansionError ''empty_subgraph'' (Some (n_id call)))
     else rbind (trace_kind call) (\<lambda>kind.
     rbind (plain (trace_post_init \<lparr>t_kind = kind, t_call = n_id call, t_parent = None, t_type_id = n_type_id call,
         t_type_version = n_type_version call, t_source_graph = g_id child, t_source_version = g_version child,
         t_members = map (\<lambda>n. cloned_id u5 (n_id call) child (n_id n)) (g_nodes child), t_depth = 0\<rparr>)) (\<lambda>tr.
     rbind (rmap (rebased_trace u5 call child) ctraces) (\<lambda>nested.
     rbind (inline_call u5 g call child) (\<lambda>g'. Inr (tr # nested, g'))))))"

partial_function (option) expand :: "uuid5 \<Rightarrow> sub_registry \<Rightarrow> nat \<Rightarrow> sub_key list \<Rightarrow> graph \<Rightarrow> trace list \<Rightarrow>
    (expand_error + (graph \<times> trace list)) option" where
  "expand u5 R max_depth stack g traces =
    (if max_depth < length stack then Some (Inl (SubgraphExpansionError ''subgraph_depth_exceeded'' None))
     else if calls_of R g = [] then Some (Inr (g, traces))
     else let call = arg_min_list n_id (calls_of R g); key = node_key call in
       if key \<in> set stack then Some (Inl (SubgraphExpansionError ''recursive_subgraph'' (Some (n_id call))))
       else Option.bind (expand u5 R max_depth (stack @ [key]) (the (map_of R key)) []) (\<lambda>r. case r of
           Inl e \<Rightarrow> Some (Inl e)
         | Inr (child, ctraces) \<Rightarrow> (case expand_call u5 g call child ctraces of
             Inl e \<Rightarrow> Some (Inl e)
           | Inr (trs, g') \<Rightarrow> expand u5 R max_depth stack g' (traces @ trs))))"

declare expand.simps [code]

definition expand_subgraphs_with_trace :: "uuid5 \<Rightarrow> graph \<Rightarrow> ((string + sub_key) \<times> graph) list \<Rightarrow> int \<Rightarrow>
    (expand_error + (graph \<times> trace list)) option" where
  "expand_subgraphs_with_trace u5 g subs max_depth =
    (if max_depth \<le> 0 then Some (Inl (ExpandValue (GValue ''max_depth must be a positive integer'')))
     else case sub_registry subs of Inl e \<Rightarrow> Some (Inl e)
       | Inr R \<Rightarrow> expand u5 R (nat max_depth) [] g [])"

definition expand_subgraphs :: "uuid5 \<Rightarrow> graph \<Rightarrow> ((string + sub_key) \<times> graph) list \<Rightarrow> int \<Rightarrow> (expand_error + graph) option" where
  "expand_subgraphs u5 g subs max_depth =
     map_option (map_sum id fst) (expand_subgraphs_with_trace u5 g subs max_depth)"

section \<open>What inlining keeps\<close>

text \<open>
  A graph is wired when it passed its constructors, its node ids are distinct, and every edge and
  binding refers to its nodes. No call may be its own neighbour: the code redirects only one end
  of such an edge.
\<close>

definition node_ids :: "graph \<Rightarrow> uuid set" where
  "node_ids g = n_id ` set (g_nodes g)"

definition self_call :: "sub_registry \<Rightarrow> graph \<Rightarrow> bool" where
  "self_call R g = (\<exists>e\<in>set (g_edges g). e_source e = e_target e \<and> e_source e \<in> n_id ` set (calls_of R g))"

definition wired :: "sub_registry \<Rightarrow> graph \<Rightarrow> bool" where
  "wired R g = (valid_graph g \<and> distinct (map n_id (g_nodes g))
     \<and> (\<forall>e\<in>set (g_edges g). e_source e \<in> node_ids g \<and> e_target e \<in> node_ids g) \<and> \<not> self_call R g
     \<and> (\<forall>b\<in>snd ` set (g_inputs g) \<union> snd ` set (g_outputs g). b_node b \<in> node_ids g))"

text \<open>The errors an expansion of wired graphs may end with.\<close>

definition expansion_error :: "expand_error \<Rightarrow> bool" where
  "expansion_error e = (case e of
     SubgraphExpansionError code _ \<Rightarrow> code \<in> {''subgraph_depth_exceeded'', ''recursive_subgraph'', ''empty_subgraph'',
       ''invalid_subgraph_kind'', ''subgraph_node_collision'', ''unknown_subgraph_input'', ''unknown_subgraph_output'',
       ''multiple_subgraph_input''}
   | ExpandValue (GValue msg) \<Rightarrow> msg \<in> {''member_node_ids must be unique'', ''a subgraph trace cannot be its own parent''}
   | _ \<Rightarrow> False)"

definition good_inputs :: "(string, json) dict \<Rightarrow> bool" where
  "good_inputs d = (wf_dict d \<and> list_all port_name (dkeys d))"

lemma good_inputs_simps [simp]: "good_inputs []"
  by (simp add: good_inputs_def)

lemma good_inputs_update: "good_inputs d \<Longrightarrow> port_name p \<Longrightarrow> good_inputs (AList.update p v d)"
  unfolding good_inputs_def by (simp add: list_all_iff wf_dict_update)

lemma valid_node_inputs: "valid_node n \<Longrightarrow> good_inputs (n_inputs n)"
  by (simp add: valid_node_def good_inputs_def)

lemma port_key_ustr: "port_name p \<Longrightarrow> port_key (ustr p) = Some p"
  by (simp add: port_key_def ustr_def list_all_iff o_def)

lemma mk_node_frozen:
  assumes "dotted_id ty" and "semver ver" and "good_inputs d"
  shows "mk_node i ty ver (Frozen (input_object d)) (Frozen (JObj m))
    = Inr \<lparr>n_id = i, n_type_id = ty, n_type_version = ver, n_inputs = d, n_metadata = m\<rparr>"
proof -
  have "port_members (map (\<lambda>(p, v). (ustr p, v)) d) = Inr (map (\<lambda>(p, v). (p, v)) d)"
    unfolding port_members_def using assms(3)
    by (induction d) (auto simp: good_inputs_def port_key_ustr)
  with assms(1,2) show ?thesis
    by (simp add: mk_node_def field_mapping_def is_object_def input_object_def freeze_graph_field_def json_members_def)
qed

lemma values_update: "snd ` set (AList.update k v d) \<subseteq> insert v (snd ` set d)"
  by (induction d) auto

lemma literal_overrides_ok:
  assumes "valid_bindings (g_inputs child)"
  shows "outcome (\<lambda>ov. \<forall>d\<in>snd ` set ov. good_inputs d) expansion_error (literal_overrides call child)"
  unfolding literal_overrides_def
proof (rule outcome_fold, goal_cases)
  case (2 x ov)
  obtain p v where x: "x = (p, v)" by (cases x)
  show ?case
  proof (cases "map_of (g_inputs child) p")
    case None
    then show ?thesis by (simp add: x port_of_def expansion_error_def)
  next
    case (Some b)
    let ?old = "case map_of ov (b_node b) of None \<Rightarrow> [] | Some d \<Rightarrow> d"
    have "port_name (b_port b)" using assms Some by (force simp: valid_bindings_def list_all_iff dest: map_of_SomeD)
    moreover have "good_inputs ?old" using 2 by (auto split: option.split dest!: map_of_SomeD)
    ultimately have new: "good_inputs (AList.update (b_port b) v ?old)" by (rule good_inputs_update [rotated])
    have "good_inputs d" if "d \<in> snd ` set (AList.update (b_node b) (AList.update (b_port b) v ?old) ov)" for d
    proof -
      have "d \<in> insert (AList.update (b_port b) v ?old) (snd ` set ov)" using that values_update by (rule subsetD [rotated])
      with new 2 show ?thesis by (metis insertE)
    qed
    with Some show ?thesis by (simp add: x port_of_def Let_def)
  qed
qed simp

lemma override_inputs_ok:
  assumes "good_inputs ov" and "good_inputs inputs"
  shows "outcome good_inputs expansion_error (override_inputs call ov inputs)"
  unfolding override_inputs_def
proof (rule outcome_fold, goal_cases)
  case (2 x d)
  obtain p v where x: "x = (p, v)" by (cases x)
  have "port_name p" using 2(1) x assms(1) by (force simp: good_inputs_def list_all_iff)
  with 2(2) x show ?case by (simp add: expansion_error_def good_inputs_update)
qed (use assms in simp)

lemma clone_node_ok:
  assumes "valid_node n" and "\<forall>d\<in>snd ` set ov. good_inputs d"
  shows "outcome (\<lambda>m. valid_node m \<and> n_id m = cloned_id u5 (n_id call) child (n_id n) \<and> node_key m = node_key n)
    expansion_error (clone_node u5 call child ov n)"
  unfolding clone_node_def
proof (rule outcome_rbind)
  have "good_inputs (case map_of ov (n_id n) of None \<Rightarrow> [] | Some d \<Rightarrow> d)"
    using assms(2) by (auto split: option.split dest!: map_of_SomeD)
  then show "outcome good_inputs expansion_error
      (override_inputs (n_id call) (case map_of ov (n_id n) of None \<Rightarrow> [] | Some d \<Rightarrow> d) (n_inputs n))"
    using valid_node_inputs [OF assms(1)] by (rule override_inputs_ok)
  fix d assume "good_inputs d"
  with assms(1) show "outcome (\<lambda>m. valid_node m \<and> n_id m = cloned_id u5 (n_id call) child (n_id n) \<and> node_key m = node_key n)
    expansion_error (plain (mk_node (cloned_id u5 (n_id call) child (n_id n)) (n_type_id n) (n_type_version n)
         (Frozen (input_object d)) (Frozen (JObj (n_metadata n)))))"
    by (simp add: mk_node_frozen valid_node_def node_key_def good_inputs_def)
qed

lemma clone_binding_ok:
  assumes "b_node b \<in> set (dkeys ids) \<and> port_name (b_port b)"
  shows "outcome (\<lambda>c. b_node c \<in> set (dvalues ids) \<and> port_name (b_port c)) Q (clone_binding call ids b)"
proof -
  from assms obtain i where i: "map_of ids (b_node b) = Some i" by (auto simp: map_of_eq_None_iff dest!: weak_map_of_SomeI)
  then have "i \<in> set (dvalues ids)" by (force dest: map_of_SomeD)
  moreover have "binding_post_init ''binding port'' \<lparr>b_node = i, b_port = b_port b\<rparr> = Inr \<lparr>b_node = i, b_port = b_port b\<rparr>"
    using assms by simp
  ultimately show ?thesis using assms i by (simp add: clone_binding_def del: binding_post_init_Inr)
qed

lemma port_of_ok:
  assumes "valid_bindings ports" and "\<forall>b\<in>snd ` set ports. b_node b \<in> set (dkeys ids)"
    and "code \<in> {''unknown_subgraph_input'', ''unknown_subgraph_output''}"
  shows "outcome (\<lambda>b. b_node b \<in> set (dkeys ids) \<and> port_name (b_port b)) expansion_error (port_of code call ports p)"
proof (cases "map_of ports p")
  case None
  then show ?thesis using assms(3) by (auto simp: port_of_def expansion_error_def)
next
  case (Some b)
  then have "(p, b) \<in> set ports" by (rule map_of_SomeD)
  with assms(1,2) Some show ?thesis by (force simp: port_of_def valid_bindings_def list_all_iff)
qed

lemma rewrite_edge_ok:
  assumes ch: "valid_bindings (g_inputs child)" "valid_bindings (g_outputs child)"
      "\<forall>b\<in>snd ` set (g_inputs child). b_node b \<in> set (dkeys ids)" "\<forall>b\<in>snd ` set (g_outputs child). b_node b \<in> set (dkeys ids)"
    and e: "valid_edge e" "e_source e \<in> N" "e_target e \<in> N" "\<not> (e_source e = n_id call \<and> e_target e = n_id call)"
  shows "outcome (\<lambda>e'. valid_edge e' \<and> e_source e' \<in> N - {n_id call} \<union> set (dvalues ids)
      \<and> e_target e' \<in> N - {n_id call} \<union> set (dvalues ids)
      \<and> (e' = e \<or> e_source e' \<in> set (dvalues ids) \<or> e_target e' \<in> set (dvalues ids)))
    expansion_error (rewrite_edge call child ids e)"
proof -
  have ep: "edge_post_init x = Inr x" if "valid_edge x" for x using that by simp
  consider "e_target e = n_id call" | "e_target e \<noteq> n_id call" "e_source e = n_id call"
    | "e_target e \<noteq> n_id call" "e_source e \<noteq> n_id call" by blast
  then show ?thesis
  proof cases
    case 1
    show ?thesis unfolding rewrite_edge_def 1 if_P [OF refl]
      by (intro outcome_rbind [OF port_of_ok [OF ch(1,3)]] outcome_rbind [OF clone_binding_ok])
        (use e 1 in \<open>auto simp: ep valid_edge_def simp del: edge_post_init_Inr\<close>)
  next
    case 2
    show ?thesis unfolding rewrite_edge_def if_not_P [OF 2(1)] if_P [OF 2(2)]
      by (intro outcome_rbind [OF port_of_ok [OF ch(2,4)]] outcome_rbind [OF clone_binding_ok])
        (use e 2 in \<open>auto simp: ep valid_edge_def simp del: edge_post_init_Inr\<close>)
  next
    case 3
    with e show ?thesis by (simp add: rewrite_edge_def)
  qed
qed

lemma child_edge_ok:
  assumes "valid_edge e" and "e_source e \<in> set (dkeys ids)" and "e_target e \<in> set (dkeys ids)"
  shows "outcome (\<lambda>e'. valid_edge e' \<and> e_source e' \<in> set (dvalues ids) \<and> e_target e' \<in> set (dvalues ids))
    Q (child_edge call ids e)"
proof -
  have "\<exists>i. map_of ids x = Some i \<and> i \<in> set (dvalues ids)" if x: "x \<in> set (dkeys ids)" for x
  proof -
    from x obtain i where "map_of ids x = Some i" by (auto simp: map_of_eq_None_iff dest!: weak_map_of_SomeI)
    then show ?thesis by (force dest: map_of_SomeD)
  qed
  from this [OF assms(2)] this [OF assms(3)] obtain s t where st: "map_of ids (e_source e) = Some s" "s \<in> set (dvalues ids)"
    "map_of ids (e_target e) = Some t" "t \<in> set (dvalues ids)" by blast
  have ep: "edge_post_init x = Inr x" if "valid_edge x" for x using that by simp
  show ?thesis using assms(1) st by (simp add: child_edge_def ep valid_edge_def del: edge_post_init_Inr)
qed

lemma rewrite_bindings_ok:
  assumes "valid_bindings ports" and "\<forall>b\<in>snd ` set ports. b_node b \<in> set (dkeys ids)"
    and "code \<in> {''unknown_subgraph_input'', ''unknown_subgraph_output''}"
    and "valid_bindings bs" and "\<forall>b\<in>snd ` set bs. b_node b \<in> N"
  shows "outcome (\<lambda>bs'. valid_bindings bs' \<and> (\<forall>b\<in>snd ` set bs'. b_node b \<in> N - {call} \<union> set (dvalues ids)))
    expansion_error (rewrite_bindings code call ids ports bs)"
proof -
  let ?P = "\<lambda>(nm :: string, b :: port_binding) (nm' :: string, b' :: port_binding). nm' = nm \<and> port_name (b_port b') \<and> b_node b' \<in> N - {call} \<union> set (dvalues ids)"
  have "outcome (\<lambda>bs'. list_all2 ?P bs bs') expansion_error (rewrite_bindings code call ids ports bs)"
    unfolding rewrite_bindings_def
  proof (rule outcome_rmap)
    fix x assume x: "x \<in> set bs"
    obtain nm b where nb: "x = (nm, b)" by (cases x)
    have b: "port_name (b_port b)" "b_node b \<in> N" using x nb assms(4,5) by (force simp: valid_bindings_def list_all_iff)+
    show "outcome (?P x) expansion_error (case x of (name, b) \<Rightarrow> if b_node b \<noteq> call then Inr (name, b)
        else rbind (port_of code call ports (b_port b)) (\<lambda>cb. rbind (clone_binding call ids cb) (\<lambda>c. Inr (name, c))))"
    proof (cases "b_node b = call")
      case True
      then have nc: "\<not> b_node b \<noteq> call" by simp
      show ?thesis unfolding nb prod.case if_not_P [OF nc]
        by (intro outcome_rbind [OF port_of_ok [OF assms(1-3)]] outcome_rbind [OF clone_binding_ok]) auto
    qed (use b nb in simp)
  qed
  then show ?thesis
  proof (rule outcome_mono)
    fix bs' assume l: "list_all2 ?P bs bs'"
    then have keys: "dkeys bs' = dkeys bs" by (induction rule: list_all2_induct) auto
    have "\<forall>(nm, b)\<in>set bs'. port_name (b_port b) \<and> b_node b \<in> N - {call} \<union> set (dvalues ids)"
      using l by (induction rule: list_all2_induct) auto
    then have v: "port_name (b_port b) \<and> b_node b \<in> N - {call} \<union> set (dvalues ids)" if "(nm, b) \<in> set bs'" for nm b
      using that by auto
    have "port_name nm" if "(nm, b) \<in> set bs'" for nm b
    proof -
      have "nm \<in> set (dkeys bs)" using that keys by (metis fst_conv image_eqI set_map)
      then show ?thesis using assms(4) by (auto simp: valid_bindings_def list_all_iff)
    qed
    then show "valid_bindings bs' \<and> (\<forall>b\<in>snd ` set bs'. b_node b \<in> N - {call} \<union> set (dvalues ids))"
    proof (intro conjI ballI)
      show "valid_bindings bs'"
        using v \<open>\<And>nm b. (nm, b) \<in> set bs' \<Longrightarrow> port_name nm\<close> assms(4) keys by (auto simp: valid_bindings_def list_all_iff)
      fix b assume "b \<in> snd ` set bs'"
      then obtain nm where "(nm, b) \<in> set bs'" by auto
      from v [OF this] show "b_node b \<in> N - {call} \<union> set (dvalues ids)" by blast
    qed
  qed
qed

definition inlined :: "uuid5 \<Rightarrow> graph \<Rightarrow> node \<Rightarrow> graph \<Rightarrow> graph \<Rightarrow> bool" where
  "inlined u5 g call child g' = (g_id g' = g_id g \<and> g_version g' = g_version g
     \<and> (\<exists>clones. g_nodes g' = filter (\<lambda>n. n_id n \<noteq> n_id call) (g_nodes g) @ clones
          \<and> map n_id clones = map (\<lambda>n. cloned_id u5 (n_id call) child (n_id n)) (g_nodes child)
          \<and> map node_key clones = map node_key (g_nodes child)))"

lemma list_all2_all: "list_all2 P xs ys \<Longrightarrow> (\<And>x y. x \<in> set xs \<Longrightarrow> P x y \<Longrightarrow> Q y) \<Longrightarrow> \<forall>y\<in>set ys. Q y"
  by (induction rule: list_all2_induct) auto

lemma list_all2_map_eq: "list_all2 (\<lambda>x y. f y = g x) xs ys \<Longrightarrow> map f ys = map g xs"
  by (induction rule: list_all2_induct) auto

lemma mk_node_key: "mk_node i ty ver inp meta = Inr m \<Longrightarrow> n_id m = i \<and> node_key m = (ty, ver)"
  by (auto simp: mk_node_def rbind_Inr_iff node_key_def)

lemma inline_call_shape:
  assumes "inline_call u5 g call child = Inr g'"
  shows "inlined u5 g call child g'" and "\<forall>n\<in>set (g_nodes g). n_id n \<noteq> n_id call \<longrightarrow> n_id n \<notin> set (dvalues (cloned_ids u5 (n_id call) child))"
proof -
  from assms show col: "\<forall>n\<in>set (g_nodes g). n_id n \<noteq> n_id call \<longrightarrow> n_id n \<notin> set (dvalues (cloned_ids u5 (n_id call) child))"
    by (auto simp: inline_call_def Let_def split: if_splits)
  from assms obtain ov clones es ces ins outs where c: "rmap (clone_node u5 call child ov) (g_nodes child) = Inr clones"
      "plain (graph_post_init \<lparr>g_id = g_id g, g_version = g_version g,
         g_nodes = filter (\<lambda>n. n_id n \<noteq> n_id call) (g_nodes g) @ clones, g_edges = es @ ces, g_inputs = ins, g_outputs = outs\<rparr>) = Inr g'"
    by (auto simp: inline_call_def Let_def rbind_Inr_iff split: if_splits)
  from c(2) have g': "g' = \<lparr>g_id = g_id g, g_version = g_version g,
         g_nodes = filter (\<lambda>n. n_id n \<noteq> n_id call) (g_nodes g) @ clones, g_edges = es @ ces, g_inputs = ins, g_outputs = outs\<rparr>"
    by (cases "graph_post_init \<lparr>g_id = g_id g, g_version = g_version g,
         g_nodes = filter (\<lambda>n. n_id n \<noteq> n_id call) (g_nodes g) @ clones, g_edges = es @ ces, g_inputs = ins, g_outputs = outs\<rparr>") auto
  have node: "n_id m = cloned_id u5 (n_id call) child (n_id n) \<and> node_key m = node_key n" if "clone_node u5 call child ov n = Inr m" for n m
    using that by (auto simp: clone_node_def rbind_Inr_iff node_key_def dest!: mk_node_key)
  have "list_all2 (\<lambda>n m. n_id m = cloned_id u5 (n_id call) child (n_id n)) (g_nodes child) clones"
      "list_all2 (\<lambda>n m. node_key m = node_key n) (g_nodes child) clones"
    using c(1) node by (auto simp: rmap_Inr_iff elim!: list.rel_mono_strong)
  note list_all2_map_eq [OF this(1)] list_all2_map_eq [OF this(2)]
  then show "inlined u5 g call child g'" unfolding inlined_def g' by (intro conjI exI [of _ clones]) simp_all
qed

lemma calls_of_inlined:
  assumes "inlined u5 g call child g'" and "calls_of R child = []"
  shows "calls_of R g' = filter (\<lambda>n. n_id n \<noteq> n_id call) (calls_of R g)"
proof -
  from assms(1) obtain clones where cl: "g_nodes g' = filter (\<lambda>n. n_id n \<noteq> n_id call) (g_nodes g) @ clones"
      "map node_key clones = map node_key (g_nodes child)" by (auto simp: inlined_def)
  have eq: "node_key ` set clones = node_key ` set (g_nodes child)" using arg_cong [OF cl(2), of set] by simp
  have "filter (\<lambda>n. node_key n \<in> set (dkeys R)) clones = []"
    unfolding filter_empty_conv
  proof
    fix m assume "m \<in> set clones"
    then have "node_key m \<in> node_key ` set (g_nodes child)" using eq by blast
    then show "node_key m \<notin> set (dkeys R)" using assms(2) unfolding calls_of_def filter_empty_conv by force
  qed
  with cl(1) show ?thesis by (simp add: calls_of_def conj_commute)
qed

lemma inline_call_ok:
  assumes g: "wired R g" and call: "call \<in> set (calls_of R g)"
    and child: "wired R child" "calls_of R child = []"
    and dist: "distinct (map (\<lambda>n. cloned_id u5 (n_id call) child (n_id n)) (g_nodes child))"
  shows "outcome (wired R) expansion_error (inline_call u5 g call child)"
proof -
  let ?ids = "cloned_ids u5 (n_id call) child" and ?i = "n_id call"
  let ?N = "node_ids g" and ?C = "set (dvalues (cloned_ids u5 (n_id call) child))"
  have vg: "valid_graph g" "valid_graph child" using g child(1) by (auto simp: wired_def)
  have keys: "set (dkeys ?ids) = node_ids child" by (force simp: cloned_ids_def node_ids_def)
  have i: "?i \<in> ?N" using call by (auto simp: calls_of_def node_ids_def)
  have chb: "valid_bindings (g_inputs child)" "valid_bindings (g_outputs child)" using vg(2) by (auto simp: valid_graph_def)
  have chi: "\<forall>b\<in>snd ` set (g_inputs child). b_node b \<in> set (dkeys ?ids)" "\<forall>b\<in>snd ` set (g_outputs child). b_node b \<in> set (dkeys ?ids)"
    using child(1) unfolding wired_def keys by blast+
  have ge: "valid_edge e" "e_source e \<in> ?N" "e_target e \<in> ?N" "\<not> (e_source e = ?i \<and> e_target e = ?i)" if "e \<in> set (g_edges g)" for e
    using that g vg(1) call by (auto simp: wired_def valid_graph_def list_all_iff self_call_def)
  have ce: "valid_edge e" "e_source e \<in> set (dkeys ?ids)" "e_target e \<in> set (dkeys ?ids)" if "e \<in> set (g_edges child)" for e
    using that child(1) vg(2) unfolding wired_def keys by (auto simp: valid_graph_def list_all_iff)
  have gb: "valid_bindings (g_inputs g)" "valid_bindings (g_outputs g)" "\<forall>b\<in>snd ` set (g_inputs g). b_node b \<in> ?N"
      "\<forall>b\<in>snd ` set (g_outputs g). b_node b \<in> ?N"
    using g vg(1) by (auto simp: wired_def valid_graph_def)
  have cn: "valid_node n" if "n \<in> set (g_nodes child)" for n using that vg(2) by (simp add: valid_graph_def list_all_iff)
  define E where "E e' \<longleftrightarrow> valid_edge e' \<and> e_source e' \<in> ?N - {?i} \<union> ?C \<and> e_target e' \<in> ?N - {?i} \<union> ?C
    \<and> (e' \<in> set (g_edges g) \<or> e_source e' \<in> ?C \<or> e_target e' \<in> ?C)" for e'
  define B where "B bs \<longleftrightarrow> valid_bindings bs \<and> (\<forall>b\<in>snd ` set bs. b_node b \<in> ?N - {?i} \<union> ?C)" for bs :: "(string, port_binding) dict"
  have clones: "outcome (\<lambda>ms. \<forall>m\<in>set ms. valid_node m) expansion_error (rmap (clone_node u5 call child ov) (g_nodes child))"
    if "\<forall>d\<in>snd ` set ov. good_inputs d" for ov
    by (rule outcome_mono [OF outcome_rmap [OF clone_node_ok [OF cn that]]]) (auto elim!: list_all2_all)
  have es: "outcome (\<lambda>es. \<forall>e\<in>set es. E e) expansion_error (rmap (rewrite_edge call child ?ids) (g_edges g))"
    by (rule outcome_mono [OF outcome_rmap [OF rewrite_edge_ok [OF chb chi ge]]])
      (auto simp only: E_def elim!: list_all2_all)
  have ces: "outcome (\<lambda>es. \<forall>e\<in>set es. E e) expansion_error (rmap (child_edge ?i ?ids) (g_edges child))"
    by (rule outcome_mono [OF outcome_rmap [OF child_edge_ok [OF ce]]]) (auto simp only: E_def elim!: list_all2_all)
  have ins: "outcome B expansion_error (rewrite_bindings ''unknown_subgraph_input'' ?i ?ids (g_inputs child) (g_inputs g))"
    unfolding B_def by (rule rewrite_bindings_ok [OF chb(1) chi(1) _ gb(1,3)]) simp
  have outs: "outcome B expansion_error (rewrite_bindings ''unknown_subgraph_output'' ?i ?ids (g_outputs child) (g_outputs g))"
    unfolding B_def by (rule rewrite_bindings_ok [OF chb(2) chi(2) _ gb(2,4)]) simp
  have final: "wired R g'" if shape: "inlined u5 g call child g'"
      and col: "\<forall>n\<in>set (g_nodes g). n_id n \<noteq> ?i \<longrightarrow> n_id n \<notin> ?C"
      and parts: "\<forall>m\<in>set (drop (length (filter (\<lambda>n. n_id n \<noteq> ?i) (g_nodes g))) (g_nodes g')). valid_node m"
        "\<forall>e\<in>set (g_edges g'). E e" "B (g_inputs g')" "B (g_outputs g')" for g'
  proof -
    from shape obtain clones where sh: "g_id g' = g_id g" "g_version g' = g_version g"
        "g_nodes g' = filter (\<lambda>n. n_id n \<noteq> ?i) (g_nodes g) @ clones"
        "map n_id clones = map (\<lambda>n. cloned_id u5 ?i child (n_id n)) (g_nodes child)"
      unfolding inlined_def by blast
    have C: "n_id ` set clones = ?C" using sh(4) by (force simp: cloned_ids_def dest: arg_cong [of _ _ set])
    have ids: "node_ids g' = ?N - {?i} \<union> ?C" using sh(3) C by (auto simp: node_ids_def)
    have "valid_graph g'"
      using vg(1) sh(1-3) parts unfolding valid_graph_def B_def E_def by (auto simp: list_all_iff)
    moreover have "distinct (map n_id (g_nodes g'))"
    proof -
      have "distinct (map n_id (filter (\<lambda>n. n_id n \<noteq> ?i) (g_nodes g)))" using g by (simp add: wired_def distinct_map_filter)
      moreover have "distinct (map n_id clones)" using sh(4) dist by simp
      moreover have "n_id ` set (filter (\<lambda>n. n_id n \<noteq> ?i) (g_nodes g)) \<inter> n_id ` set clones = {}" using col C by auto
      ultimately show ?thesis using sh(3) by simp
    qed
    moreover have "\<forall>e\<in>set (g_edges g'). e_source e \<in> node_ids g' \<and> e_target e \<in> node_ids g'"
      using parts(2) unfolding E_def ids by blast
    moreover have "\<not> self_call R g'"
    proof
      assume "self_call R g'"
      then obtain e where e: "e \<in> set (g_edges g')" "e_source e = e_target e" "e_source e \<in> n_id ` set (calls_of R g')"
        unfolding self_call_def by blast
      from e(3) calls_of_inlined [OF shape child(2)] have c: "e_source e \<in> n_id ` set (calls_of R g)" "e_source e \<noteq> ?i" by auto
      then obtain n where "n \<in> set (g_nodes g)" "n_id n = e_source e" unfolding calls_of_def by auto
      with c(2) col have "e_source e \<notin> ?C" by metis
      with parts(2) e(1,2) have "e \<in> set (g_edges g)" unfolding E_def by metis
      with e(2) c(1) g show False by (auto simp: wired_def self_call_def)
    qed
    moreover have "\<forall>b\<in>snd ` set (g_inputs g') \<union> snd ` set (g_outputs g'). b_node b \<in> node_ids g'"
      using parts(3,4) unfolding B_def ids by blast
    ultimately show ?thesis unfolding wired_def by blast
  qed
  show ?thesis
  proof (rule outcome_mono [of "\<lambda>g'. (\<forall>m\<in>set (drop (length (filter (\<lambda>n. n_id n \<noteq> ?i) (g_nodes g))) (g_nodes g')). valid_node m)
      \<and> (\<forall>e\<in>set (g_edges g'). E e) \<and> B (g_inputs g') \<and> B (g_outputs g')" expansion_error])
    have gp: "graph_post_init x = Inr x" if "0 < g_version x" "B (g_inputs x)" "B (g_outputs x)" for x
      using that by (auto simp: B_def valid_bindings_def list_all_iff)
    show "outcome (\<lambda>g'. (\<forall>m\<in>set (drop (length (filter (\<lambda>n. n_id n \<noteq> ?i) (g_nodes g))) (g_nodes g')). valid_node m)
      \<and> (\<forall>e\<in>set (g_edges g'). E e) \<and> B (g_inputs g') \<and> B (g_outputs g')) expansion_error (inline_call u5 g call child)"
      unfolding inline_call_def Let_def
      by (intro outcome_if outcome_rbind [OF literal_overrides_ok [OF chb(1)]]
          outcome_rbind [OF clones] outcome_rbind [OF es] outcome_rbind [OF ces] outcome_rbind [OF ins] outcome_rbind [OF outs])
        (use vg(1) in \<open>auto simp: expansion_error_def gp valid_graph_def simp del: graph_post_init_Inr\<close>)
  qed (use final inline_call_shape in blast)+
qed

section \<open>Traces of an expansion\<close>

definition traces_ok :: "uuid set \<Rightarrow> trace list \<Rightarrow> bool" where
  "traces_ok ids ts = (\<forall>t\<in>set ts. trace_post_init t = Inr t \<and> set (t_members t) \<subseteq> ids
     \<and> (case t_parent t of None \<Rightarrow> t_depth t = 0
        | Some p \<Rightarrow> \<exists>q\<in>set ts. t_call q = p \<and> t_depth t = t_depth q + 1 \<and> set (t_members t) \<subseteq> set (t_members q)))"

lemma trace_post_init_Inr: "trace_post_init t = Inr t' \<longleftrightarrow> t' = t \<and> t_kind t \<in> set construct_kinds
   \<and> t_parent t \<noteq> Some (t_call t) \<and> dotted_id (t_type_id t) \<and> semver (t_type_version t) \<and> 0 < t_source_version t
   \<and> t_members t \<noteq> [] \<and> distinct (t_members t) \<and> 0 \<le> t_depth t \<and> (t_parent t = None) = (t_depth t = 0)"
  by (auto simp: trace_post_init_def rbind_Inr_iff)

lemma trace_post_init_outcome:
  assumes "t_kind t \<in> set construct_kinds" "dotted_id (t_type_id t)" "semver (t_type_version t)" "0 < t_source_version t"
    "t_members t \<noteq> []" "0 \<le> t_depth t" "(t_parent t = None) = (t_depth t = 0)"
  shows "outcome (\<lambda>t'. t' = t \<and> trace_post_init t = Inr t) expansion_error (plain (trace_post_init t))"
proof -
  have f: "require False m = Inl (GValue m)" for m by (simp add: require_def)
  have "trace_post_init t = (if t_parent t = Some (t_call t) then Inl (GValue ''a subgraph trace cannot be its own parent'')
      else if distinct (t_members t) then Inr t else Inl (GValue ''member_node_ids must be unique''))"
    using assms by (simp add: trace_post_init_def f)
  then show ?thesis by (simp add: expansion_error_def)
qed

lemma trace_kind_ok: "outcome (\<lambda>k. k \<in> set construct_kinds) expansion_error (trace_kind call)"
  by (auto simp: trace_kind_def expansion_error_def construct_kinds_def outcome_def split: option.splits json.splits dest!: find_SomeD)

definition rebase :: "uuid5 \<Rightarrow> node \<Rightarrow> graph \<Rightarrow> trace \<Rightarrow> trace" where
  "rebase u5 outer child t = (let ns = cloned_id u5 (n_id outer) child in
     t\<lparr>t_call := ns (t_call t), t_parent := Some (case t_parent t of None \<Rightarrow> n_id outer | Some p \<Rightarrow> ns p),
       t_members := map ns (t_members t), t_depth := t_depth t + 1\<rparr>)"

lemma rebased_traces_ok:
  assumes "traces_ok ids ts"
  shows "outcome (\<lambda>nested. nested = map (rebase u5 call child) ts \<and> (\<forall>t\<in>set nested. trace_post_init t = Inr t))
    expansion_error (rmap (rebased_trace u5 call child) ts)"
proof (rule outcome_mono [OF outcome_rmap])
  fix t assume "t \<in> set ts"
  with assms have t: "trace_post_init t = Inr t" by (auto simp: traces_ok_def)
  have "rebased_trace u5 call child t = plain (trace_post_init (rebase u5 call child t))"
    by (simp add: rebased_trace_def rebase_def Let_def)
  moreover have "outcome (\<lambda>t'. t' = rebase u5 call child t \<and> trace_post_init (rebase u5 call child t) = Inr (rebase u5 call child t))
      expansion_error (plain (trace_post_init (rebase u5 call child t)))"
    by (rule trace_post_init_outcome) (use t in \<open>auto simp: trace_post_init_Inr rebase_def Let_def\<close>)
  ultimately show "outcome (\<lambda>t'. t' = rebase u5 call child t \<and> trace_post_init (rebase u5 call child t) = Inr (rebase u5 call child t))
      expansion_error (rebased_trace u5 call child t)" by simp
next
  fix nested
  assume l: "list_all2 (\<lambda>t t'. t' = rebase u5 call child t \<and> trace_post_init (rebase u5 call child t) = Inr (rebase u5 call child t)) ts nested"
  then show "nested = map (rebase u5 call child) ts \<and> (\<forall>t\<in>set nested. trace_post_init t = Inr t)"
    by (induction rule: list_all2_induct) auto
qed

lemma traces_ok_append: "traces_ok ids ts \<Longrightarrow> traces_ok ids us \<Longrightarrow> traces_ok ids (ts @ us)"
  unfolding traces_ok_def by (auto split: option.splits) blast+

lemma traces_ok_mono: "traces_ok ids ts \<Longrightarrow> ids \<subseteq> ids' \<Longrightarrow> traces_ok ids' ts"
  unfolding traces_ok_def by blast

lemma traces_ok_call:
  assumes ch: "traces_ok (node_ids child) cts"
    and tr: "trace_post_init tr = Inr tr" "t_call tr = n_id call" "t_parent tr = None" "t_depth tr = 0"
      "t_members tr = map (\<lambda>n. cloned_id u5 (n_id call) child (n_id n)) (g_nodes child)"
    and ne: "\<forall>t\<in>set (map (rebase u5 call child) cts). trace_post_init t = Inr t"
    and ids: "set (t_members tr) \<subseteq> ids"
  shows "traces_ok ids (tr # map (rebase u5 call child) cts)"
  unfolding traces_ok_def
proof
  let ?ns = "cloned_id u5 (n_id call) child" and ?rb = "rebase u5 call child"
  have mem: "set (t_members tr) = ?ns ` node_ids child" by (auto simp: tr(5) node_ids_def)
  fix t assume "t \<in> set (tr # map ?rb cts)"
  then consider "t = tr" | u where "u \<in> set cts" "t = ?rb u" by auto
  then show "trace_post_init t = Inr t \<and> set (t_members t) \<subseteq> ids
     \<and> (case t_parent t of None \<Rightarrow> t_depth t = 0
        | Some p \<Rightarrow> \<exists>q\<in>set (tr # map ?rb cts). t_call q = p \<and> t_depth t = t_depth q + 1 \<and> set (t_members t) \<subseteq> set (t_members q))"
  proof cases
    case 1
    with tr ids show ?thesis by simp
  next
    case 2
    with ch have u: "set (t_members u) \<subseteq> node_ids child" "case t_parent u of None \<Rightarrow> t_depth u = 0
        | Some p \<Rightarrow> \<exists>q\<in>set cts. t_call q = p \<and> t_depth u = t_depth q + 1 \<and> set (t_members u) \<subseteq> set (t_members q)"
      by (auto simp: traces_ok_def)
    have sub: "set (t_members t) \<subseteq> set (t_members tr)" using u(1) unfolding 2(2) mem by (auto simp: rebase_def Let_def)
    show ?thesis
    proof (cases "t_parent u")
      case None
      with u(2) 2(2) tr sub ne 2(1) ids show ?thesis by (auto simp: rebase_def Let_def)
    next
      case (Some p)
      with u(2) obtain q where q: "q \<in> set cts" "t_call q = p" "t_depth u = t_depth q + 1" "set (t_members u) \<subseteq> set (t_members q)" by auto
      have "t_parent t = Some (?ns p)" using Some 2(2) by (simp add: rebase_def Let_def)
      moreover have "?rb q \<in> set (tr # map ?rb cts)" "t_call (?rb q) = ?ns p" "t_depth t = t_depth (?rb q) + 1"
          "set (t_members t) \<subseteq> set (t_members (?rb q))"
        using q 2(2) by (auto simp: rebase_def Let_def)
      moreover have "trace_post_init t = Inr t" using ne 2 by simp
      ultimately show ?thesis using sub ids by auto
    qed
  qed
qed

section \<open>Expansion returns\<close>

definition plain_nodes :: "sub_registry \<Rightarrow> graph \<Rightarrow> node set" where
  "plain_nodes R g = {n \<in> set (g_nodes g). node_key n \<notin> set (dkeys R)}"

text \<open>How a graph in the middle of its expansion relates to an earlier one.\<close>

definition grown :: "sub_registry \<Rightarrow> graph \<Rightarrow> graph \<Rightarrow> bool" where
  "grown R g g' = (wired R g' \<and> g_id g' = g_id g \<and> g_version g' = g_version g \<and> plain_nodes R g \<subseteq> plain_nodes R g')"

lemma grown_trans: "grown R g g' \<Longrightarrow> grown R g' g'' \<Longrightarrow> grown R g g''"
  by (auto simp: grown_def)

lemma expand_call_ok:
  assumes g: "wired R g" and call: "call \<in> set (calls_of R g)"
    and child: "wired R child" "calls_of R child = []" "traces_ok (n_id ` plain_nodes R child) cts"
  shows "outcome (\<lambda>(trs, g'). grown R g g' \<and> calls_of R g' = filter (\<lambda>n. n_id n \<noteq> n_id call) (calls_of R g)
      \<and> traces_ok (n_id ` plain_nodes R g') trs) expansion_error (expand_call u5 g call child cts)"
proof -
  let ?mem = "map (\<lambda>n. cloned_id u5 (n_id call) child (n_id n)) (g_nodes child)"
  let ?tr = "\<lambda>kind. \<lparr>t_kind = kind, t_call = n_id call, t_parent = None, t_type_id = n_type_id call,
         t_type_version = n_type_version call, t_source_graph = g_id child, t_source_version = g_version child,
         t_members = ?mem, t_depth = 0\<rparr>"
  have vc: "valid_node call" "0 < g_version child" using g call child(1)
    by (auto simp: wired_def valid_graph_def list_all_iff calls_of_def)
  have tr: "outcome (\<lambda>t. t = ?tr k \<and> trace_post_init (?tr k) = Inr (?tr k)) expansion_error (plain (trace_post_init (?tr k)))"
    if "k \<in> set construct_kinds" "g_nodes child \<noteq> []" for k
    by (rule trace_post_init_outcome) (use that vc in \<open>auto simp: valid_node_def\<close>)
  have plain_child: "plain_nodes R child = set (g_nodes child)"
    using child(2) by (auto simp: plain_nodes_def calls_of_def filter_empty_conv)
  have cts: "traces_ok (node_ids child) cts" using child(3) by (simp add: plain_child node_ids_def)
  have inl: "outcome (\<lambda>g'. wired R g' \<and> inlined u5 g call child g') expansion_error (inline_call u5 g call child)"
    if "distinct ?mem"
    using inline_call_ok [OF g call child(1,2) that] inline_call_shape(1) [of u5 g call child]
    by (cases "inline_call u5 g call child") auto
  have result: "grown R g g' \<and> calls_of R g' = filter (\<lambda>n. n_id n \<noteq> n_id call) (calls_of R g)
      \<and> traces_ok (n_id ` plain_nodes R g') (?tr k # map (rebase u5 call child) cts)"
    if g': "wired R g'" "inlined u5 g call child g'" and t: "trace_post_init (?tr k) = Inr (?tr k)"
      and nested: "\<forall>t\<in>set (map (rebase u5 call child) cts). trace_post_init t = Inr t" for g' k
  proof -
    from g'(2) obtain clones where sh: "g_id g' = g_id g" "g_version g' = g_version g"
        "g_nodes g' = filter (\<lambda>n. n_id n \<noteq> n_id call) (g_nodes g) @ clones" "map n_id clones = ?mem"
        "map node_key clones = map node_key (g_nodes child)"
      unfolding inlined_def by blast
    have "n_id n \<noteq> n_id call" if "n \<in> plain_nodes R g" for n
    proof -
      have "call \<in> set (g_nodes g)" "node_key call \<in> set (dkeys R)" using call by (auto simp: calls_of_def)
      moreover have "inj_on n_id (set (g_nodes g))" using g by (simp add: wired_def distinct_map)
      ultimately show ?thesis using that unfolding plain_nodes_def by (auto dest: inj_onD)
    qed
    then have "plain_nodes R g \<subseteq> plain_nodes R g'" using sh(3) by (auto simp: plain_nodes_def)
    moreover have "set ?mem \<subseteq> n_id ` plain_nodes R g'"
    proof -
      have "set clones \<subseteq> plain_nodes R g'"
      proof
        fix m assume m: "m \<in> set clones"
        then have "node_key m \<in> node_key ` set (g_nodes child)" using arg_cong [OF sh(5), of set] by auto
        moreover have "\<forall>n\<in>set (g_nodes child). node_key n \<notin> set (dkeys R)"
          using child(2) unfolding calls_of_def filter_empty_conv .
        ultimately have "node_key m \<notin> set (dkeys R)" unfolding image_iff by metis
        with m sh(3) show "m \<in> plain_nodes R g'" by (simp add: plain_nodes_def)
      qed
      then show ?thesis unfolding sh(4) [symmetric] by auto
    qed
    then have "traces_ok (n_id ` plain_nodes R g') (?tr k # map (rebase u5 call child) cts)"
      using t nested by (intro traces_ok_call [OF cts]) simp_all
    ultimately show ?thesis using g'(1) sh(1,2) calls_of_inlined [OF g'(2) child(2)] by (simp add: grown_def)
  qed
  show ?thesis unfolding expand_call_def
  proof (intro outcome_if outcome_rbind [OF trace_kind_ok] outcome_rbind [OF tr] outcome_rbind [OF rebased_traces_ok [OF cts]]
      outcome_rbind [OF inl], goal_cases)
    case 1
    then show ?case by (simp add: expansion_error_def)
  next
    case (5 k t nested g')
    then show ?case using result by auto
  qed (auto simp: trace_post_init_Inr)
qed

abbreviation expanded :: "sub_registry \<Rightarrow> graph \<Rightarrow> expand_error + (graph \<times> trace list) \<Rightarrow> bool" where
  "expanded R g \<equiv> outcome (\<lambda>(g', ts). grown R g g' \<and> calls_of R g' = [] \<and> traces_ok (n_id ` plain_nodes R g') ts) expansion_error"

lemma expand_loop:
  assumes R: "\<forall>child\<in>snd ` set R. wired R child"
    and deeper: "\<And>key. key \<in> set (dkeys R) \<Longrightarrow>
      \<exists>r. expand u5 R md (stack @ [key]) (the (map_of R key)) [] = Some r \<and> expanded R (the (map_of R key)) r"
    and len: "length stack \<le> md" and g: "wired R g" and ts: "traces_ok (n_id ` plain_nodes R g) ts"
  shows "\<exists>r. expand u5 R md stack g ts = Some r \<and> expanded R g r"
  using g ts
proof (induction "length (calls_of R g)" arbitrary: g ts rule: less_induct)
  case less
  show ?case
  proof (cases "calls_of R g = []")
    case True
    have "expand u5 R md stack g ts = Some (Inr (g, ts))" using len True by (subst expand.simps) simp
    with less(2,3) True show ?thesis by (simp add: grown_def)
  next
    case False
    define call where "call = arg_min_list n_id (calls_of R g)"
    have call: "call \<in> set (calls_of R g)" unfolding call_def by (rule arg_min_list_in [OF False])
    then have key: "node_key call \<in> set (dkeys R)" by (simp add: calls_of_def)
    have unf: "expand u5 R md stack g ts = (if node_key call \<in> set stack
        then Some (Inl (SubgraphExpansionError ''recursive_subgraph'' (Some (n_id call))))
        else Option.bind (expand u5 R md (stack @ [node_key call]) (the (map_of R (node_key call))) []) (\<lambda>r. case r of
           Inl e \<Rightarrow> Some (Inl e)
         | Inr (child, ctraces) \<Rightarrow> (case expand_call u5 g call child ctraces of
             Inl e \<Rightarrow> Some (Inl e)
           | Inr (trs, g') \<Rightarrow> expand u5 R md stack g' (ts @ trs))))"
      using len False by (subst expand.simps) (simp add: call_def [symmetric] Let_def)
    show ?thesis
    proof (cases "node_key call \<in> set stack")
      case True
      with unf show ?thesis by (simp add: expansion_error_def)
    next
      case nostack: False
      from deeper [OF key] obtain r where r: "expand u5 R md (stack @ [node_key call]) (the (map_of R (node_key call))) [] = Some r"
          "expanded R (the (map_of R (node_key call))) r" by blast
      show ?thesis
      proof (cases r)
        case (Inl e)
        with unf nostack r show ?thesis by simp
      next
        case (Inr p)
        obtain child cts where p: "p = (child, cts)" by (cases p)
        with Inr r(2) have child: "wired R child" "calls_of R child = []" "traces_ok (n_id ` plain_nodes R child) cts"
          by (auto simp: grown_def)
        note ec = expand_call_ok [OF less(2) call child, of u5]
        show ?thesis
        proof (cases "expand_call u5 g call child cts")
          case (Inl e)
          with ec unf nostack r \<open>r = Inr p\<close> p show ?thesis by simp
        next
          case (Inr q)
          obtain trs g' where q: "q = (trs, g')" by (cases q)
          with Inr ec have g': "grown R g g'" "calls_of R g' = filter (\<lambda>n. n_id n \<noteq> n_id call) (calls_of R g)"
              "traces_ok (n_id ` plain_nodes R g') trs" by auto
          have "length (calls_of R g') < length (calls_of R g)"
            using g'(2) call by (simp add: length_filter_less)
          moreover have "traces_ok (n_id ` plain_nodes R g') (ts @ trs)"
            using g'(1) by (intro traces_ok_append [OF traces_ok_mono [OF less(3)] g'(3)]) (auto simp: grown_def)
          moreover have "wired R g'" using g'(1) by (simp add: grown_def)
          ultimately obtain r' where r': "expand u5 R md stack g' (ts @ trs) = Some r'" "expanded R g' r'"
            using less(1) by blast
          have "expand u5 R md stack g ts = Some r'"
            using unf nostack r(1) \<open>r = Inr p\<close> p Inr q r'(1) by simp
          moreover have "expanded R g r'" by (rule outcome_mono [OF r'(2)]) (auto intro: grown_trans [OF g'(1)])
          ultimately show ?thesis by blast
        qed
      qed
    qed
  qed
qed

lemma expand_total:
  assumes R: "\<forall>child\<in>snd ` set R. wired R child" and g: "wired R g"
    and ts: "traces_ok (n_id ` plain_nodes R g) ts"
  shows "\<exists>r. expand u5 R md stack g ts = Some r \<and> expanded R g r"
  using g ts
proof (induction "Suc md - length stack" arbitrary: stack g ts rule: less_induct)
  case less
  show ?case
  proof (cases "md < length stack")
    case True
    then have "expand u5 R md stack g ts = Some (Inl (SubgraphExpansionError ''subgraph_depth_exceeded'' None))"
      by (subst expand.simps) simp
    then show ?thesis by (simp add: expansion_error_def)
  next
    case False
    show ?thesis
    proof (rule expand_loop [OF R _ _ less(2,3)])
      fix key assume "key \<in> set (dkeys R)"
      then obtain child where c: "map_of R key = Some child" by (auto simp: map_of_eq_None_iff dest!: weak_map_of_SomeI)
      then have "wired R child" using R by (force dest: map_of_SomeD)
      moreover have "Suc md - length (stack @ [key]) < Suc md - length stack" using False by simp
      ultimately show "\<exists>r. expand u5 R md (stack @ [key]) (the (map_of R key)) [] = Some r \<and> expanded R (the (map_of R key)) r"
        using less(1) c by (simp add: traces_ok_def)
    qed (use False in simp)
  qed
qed

text \<open>C6. Subgraph expansion. On wired graphs, expansion always returns. If it succeeds, no call is
  left at any depth; the result is wired again (valid, distinct ids, every edge and binding between
  its own nodes), keeps the id, the version and all ordinary nodes of the graph; and every trace is
  valid, lists nodes of the result, and is nested in the trace of its parent, one level deeper. If
  it fails, it is with one of the errors listed: an edge or a binding of a subgraph is never found
  dangling, and of the checks on traces only those against colliding identifiers can fail.\<close>

theorem expansion:
  assumes "0 < max_depth" and "sub_registry subs = Inr R"
    and "wired R g" and "\<forall>child\<in>snd ` set R. wired R child"
  shows "\<exists>r. expand_subgraphs_with_trace u5 g subs max_depth = Some r \<and> (case r of
      Inr (g', ts) \<Rightarrow> calls_of R g' = [] \<and> wired R g' \<and> g_id g' = g_id g \<and> g_version g' = g_version g
        \<and> (\<forall>n\<in>set (g_nodes g). node_key n \<notin> set (dkeys R) \<longrightarrow> n \<in> set (g_nodes g')) \<and> traces_ok (node_ids g') ts
    | Inl e \<Rightarrow> expansion_error e)"
proof -
  have "traces_ok X []" for X by (simp add: traces_ok_def)
  from expand_total [OF assms(4,3) this] obtain r where r: "expand u5 R (nat max_depth) [] g [] = Some r" "expanded R g r" by blast
  have "expand_subgraphs_with_trace u5 g subs max_depth = Some r"
    using assms(1,2) r(1) by (simp add: expand_subgraphs_with_trace_def)
  moreover have "traces_ok (node_ids g') ts" if "traces_ok (n_id ` plain_nodes R g') ts" for g' ts
    using that by (rule traces_ok_mono) (auto simp: plain_nodes_def node_ids_def)
  ultimately show ?thesis using r(2) by (cases r) (auto simp: grown_def plain_nodes_def)
qed

definition sample_node :: "uuid \<Rightarrow> string \<Rightarrow> node" where
  "sample_node i ty = \<lparr>n_id = i, n_type_id = ty, n_type_version = ''1.0.0'', n_inputs = [], n_metadata = []\<rparr>"

definition sample_child :: graph where
  "sample_child = \<lparr>g_id = 9, g_version = 1, g_nodes = [sample_node 1 ''ng.load''], g_edges = [],
     g_inputs = [], g_outputs = [(''image'', \<lparr>b_node = 1, b_port = ''out''\<rparr>)]\<rparr>"

definition sample_graph :: graph where
  "sample_graph = \<lparr>g_id = 8, g_version = 1, g_nodes = [sample_node 2 ''my.sub'', sample_node 3 ''ng.save''],
     g_edges = [\<lparr>e_source = 2, e_source_port = ''image'', e_target = 3, e_target_port = ''image''\<rparr>],
     g_inputs = [], g_outputs = []\<rparr>"

definition sample_result :: graph where
  "sample_result = \<lparr>g_id = 8, g_version = 1, g_nodes = [sample_node 3 ''ng.save'', sample_node 7 ''ng.load''],
     g_edges = [\<lparr>e_source = 7, e_source_port = ''out'', e_target = 3, e_target_port = ''image''\<rparr>],
     g_inputs = [], g_outputs = []\<rparr>"

lemma sample_inline: "inline_call (\<lambda>_ _. 7) sample_graph (sample_node 2 ''my.sub'') sample_child = Inr sample_result"
proof -
  have cid: "cloned_id (\<lambda>_ _. 7) c g i = 7" for c g i by (simp add: cloned_id_def)
  have p: "port_name ''out''" "port_name ''image''" "dotted_id ''ng.load''" "semver ''1.0.0''" by code_simp+
  show ?thesis
    by (simp add: inline_call_def Let_def cid cloned_ids_def sample_graph_def sample_child_def sample_node_def sample_result_def
        literal_overrides_def clone_node_def override_inputs_def mk_node_frozen p rewrite_edge_def port_of_def clone_binding_def
        rewrite_bindings_def binding_post_init_def edge_post_init_def graph_post_init_def)
qed
lemma expansion_witness:
  "\<exists>g' ts. expand_subgraphs_with_trace (\<lambda>_ _. 7) sample_graph [(Inl ''my.sub'', sample_child)] 4 = Some (Inr (g', ts))
    \<and> wired [((''my.sub'', ''1.0.0''), sample_child)] g' \<and> sample_node 3 ''ng.save'' \<in> set (g_nodes g')"
proof -
  let ?R = "[((''my.sub'', ''1.0.0''), sample_child)]"
  have reg: "sub_registry [(Inl ''my.sub'', sample_child)] = Inr ?R" by (simp add: sub_registry_def)
  have w: "wired ?R sample_graph" "wired ?R sample_child" by code_simp+
  have calls: "calls_of ?R sample_child = []" "calls_of ?R sample_graph = [sample_node 2 ''my.sub'']"
      "node_key (sample_node 2 ''my.sub'') = (''my.sub'', ''1.0.0'')" by code_simp+
  have inner: "expand (\<lambda>_ _. 7) ?R 4 [(''my.sub'', ''1.0.0'')] sample_child [] = Some (Inr (sample_child, []))"
    using calls(1) by (subst expand.simps) simp
  have ok: "trace_kind (sample_node 2 ''my.sub'') = Inr ''subgraph''" "dotted_id ''my.sub''" "semver ''1.0.0''"
      "calls_of ?R sample_result = []" by code_simp+
  obtain trs where outer: "expand_call (\<lambda>_ _. 7) sample_graph (sample_node 2 ''my.sub'') sample_child [] = Inr (trs, sample_result)"
    using ok(1-3) sample_inline
    by (simp add: expand_call_def trace_post_init_def sample_child_def sample_node_def construct_kinds_def)
  have last: "expand (\<lambda>_ _. 7) ?R 4 [] sample_result trs = Some (Inr (sample_result, trs))"
    using ok(4) by (subst expand.simps) simp
  have "expand (\<lambda>_ _. 7) ?R 4 [] sample_graph [] = Some (Inr (sample_result, trs))"
    using calls inner outer last by (subst expand.simps) (simp add: Let_def)
  then have e: "expand_subgraphs_with_trace (\<lambda>_ _. 7) sample_graph [(Inl ''my.sub'', sample_child)] 4 = Some (Inr (sample_result, trs))"
    using reg by (simp add: expand_subgraphs_with_trace_def)
  have "sample_node 3 ''ng.save'' \<in> set (g_nodes sample_graph)" "node_key (sample_node 3 ''ng.save'') \<notin> set (dkeys ?R)" by code_simp+
  with expansion [OF _ reg w(1), of 4 "\<lambda>_ _. 7"] w(2) e show ?thesis by auto
qed

end
