(* ===== verification/Validation.thy ===== *)
theory Validation
  imports Catalogue Subgraphs
begin

text \<open>
  graph/validation.py: the diagnostics of a graph. The JSON Schema validator is the parameter
  \<open>lit\<close>: the messages of its errors for a schema and a value. The loops of the code that append
  diagnostics and fill dictionaries are split: what a loop collects without raising is a list of its
  own, and the diagnostics are collected in the same order. Only the length of the lists in
  \<open>incoming\<close> and \<open>external_inputs\<close> is used, so they are lists of ports.

  The schemas are those \<open>load_json_schema\<close> accepts: \<open>properties\<close> is an object and \<open>required\<close> a list
  of strings. Property names and property schemas are arbitrary, though, and there the code can
  raise: \<open>port_diagnostic\<close> and \<open>schema_members\<close>.
\<close>

type_synonym members = "(ustr \<times> json) list"
type_synonym literal_validator = "json \<Rightarrow> json \<Rightarrow> string list"

datatype validation_error = InvalidDiagnostic graph_error | NotAMapping | TopologyError topo_error

record validation_context =
  cx_catalogue :: catalogue
  cx_registry :: registry
  cx_subgraphs :: "((string + sub_key) \<times> graph) list"
  cx_max_loop_iterations :: int

section \<open>Diagnostics\<close>

record diagnostic =
  dg_code :: string
  dg_severity :: string
  dg_message :: string
  dg_node :: "uuid option"
  dg_edge :: "int option"
  dg_port :: "string option"

definition diagnostic_post_init :: "diagnostic \<Rightarrow> graph_error + diagnostic" where
  "diagnostic_post_init d = rbind (checks
     [require (dg_code d \<noteq> []) ''code must be non-empty'', require (dg_message d \<noteq> []) ''message must be non-empty'',
      require (dg_severity d \<in> {''error'', ''warning''}) ''diagnostic severity must be error or warning'',
      require (case dg_edge d of None \<Rightarrow> True | Some i \<Rightarrow> 0 \<le> i) ''edge_index must be non-negative'',
      (case dg_port d of None \<Rightarrow> Inr () | Some p \<Rightarrow> ident (validate_port_name ''port'' p))]) (\<lambda>_. Inr d)"

type_synonym findings = "validation_error + diagnostic list"

definition diag :: "string \<Rightarrow> string \<Rightarrow> string \<Rightarrow> uuid option \<Rightarrow> nat option \<Rightarrow> string option \<Rightarrow> findings" where
  "diag severity code message node edge port = map_sum InvalidDiagnostic (\<lambda>d. [d]) (diagnostic_post_init
     \<lparr>dg_code = code, dg_severity = severity, dg_message = message, dg_node = node,
      dg_edge = map_option int edge, dg_port = port\<rparr>)"

abbreviation err :: "string \<Rightarrow> string \<Rightarrow> uuid option \<Rightarrow> nat option \<Rightarrow> string option \<Rightarrow> findings" where
  "err \<equiv> diag ''error''"

text \<open>A diagnostic about a property of a schema, whose name need not be a port name.\<close>

definition port_diagnostic :: "ustr \<Rightarrow> (string \<Rightarrow> findings) \<Rightarrow> findings" where
  "port_diagnostic k f = (case port_key k of
     None \<Rightarrow> Inl (InvalidDiagnostic (GIdent (IdentifierValidationError ''port''))) | Some p \<Rightarrow> f p)"

definition nothing :: findings where
  "nothing = Inr []"

definition both :: "findings \<Rightarrow> findings \<Rightarrow> findings" where
  "both a b = rbind a (\<lambda>xs. rbind b (\<lambda>ys. Inr (xs @ ys)))"

definition collect :: "('a \<Rightarrow> findings) \<Rightarrow> 'a list \<Rightarrow> findings" where
  "collect f xs = rbind (rmap f xs) (\<lambda>dss. Inr (concat dss))"

definition quoted :: "string \<Rightarrow> string" where
  "quoted s = CHR 39 # s @ [CHR 39]"

definition diag_key :: "diagnostic \<Rightarrow> nat \<times> string \<times> nat \<times> string \<times> int \<times> string" where
  "diag_key d = (if dg_severity d = ''error'' then 0 else 1, dg_code d,
     case dg_node d of None \<Rightarrow> 0 | Some u \<Rightarrow> Suc (unat u), case dg_port d of None \<Rightarrow> [] | Some p \<Rightarrow> p,
     case dg_edge d of None \<Rightarrow> - 1 | Some i \<Rightarrow> i, dg_message d)"

section \<open>Types of ports\<close>

definition schema_members :: "json \<Rightarrow> validation_error + members" where
  "schema_members j = (case j of JObj ms \<Rightarrow> Inr ms | _ \<Rightarrow> Inl NotAMapping)"

definition type_ref_of :: "members \<Rightarrow> graph_error + type_ref option" where
  "type_ref_of ms = (case json_get ms ''x-comfyng-type'' of
     None \<Rightarrow> Inr None | Some JNull \<Rightarrow> Inr None | Some j \<Rightarrow> rbind (parse_port_type j) (\<lambda>r. Inr (Some r)))"

definition all_json_types :: "ustr list" where
  "all_json_types = map ustr [''null'', ''boolean'', ''object'', ''array'', ''number'', ''string'', ''integer'']"

definition json_types :: "members \<Rightarrow> ustr list option" where
  "json_types ms = (case json_get ms ''type'' of
     None \<Rightarrow> None | Some JNull \<Rightarrow> None | Some (JStr s) \<Rightarrow> Some [s]
   | Some j \<Rightarrow> (case str_items (Some j) of Some ss \<Rightarrow> Some ss | None \<Rightarrow> Some []))"

definition is_wildcard :: "members \<Rightarrow> bool" where
  "is_wildcard ms = (case json_types ms of None \<Rightarrow> True | Some ts \<Rightarrow> set all_json_types \<subseteq> set ts)"

definition json_compatible :: "members \<Rightarrow> members \<Rightarrow> bool" where
  "json_compatible source target = (case (json_types source, json_types target) of
     (Some ss, Some ts) \<Rightarrow> list_all (\<lambda>s. s = ustr ''integer'' \<and> (ustr ''integer'' \<in> set ts \<or> ustr ''number'' \<in> set ts)
        \<or> s \<in> set ts) ss
   | _ \<Rightarrow> True)"

text \<open>\<open>str(exc)\<close> of the errors that parsing a type reference can raise.\<close>

definition error_text :: "graph_error \<Rightarrow> string" where
  "error_text e = (case e of
     GValue msg \<Rightarrow> msg
   | GIdent (IdentifierValidationError _) \<Rightarrow> ''type name must use uppercase NG_NAME syntax''
   | GIdent (DigitLimit n) \<Rightarrow> ''Exceeds the limit (4300 digits) for integer string conversion: value has '' @ show_nat n
       @ '' digits; use sys.set_int_max_str_digits() to increase the limit''
   | _ \<Rightarrow> [])"

definition ref_text :: "type_ref \<Rightarrow> string" where
  "ref_text r = tr_name r @ CHR ''@'' # show_int (tr_version r)"

definition edge_type_diagnostics :: "edge \<Rightarrow> nat \<Rightarrow> json \<Rightarrow> json \<Rightarrow> registry \<Rightarrow> findings" where
  "edge_type_diagnostics e i source target R = (let e1 = (\<lambda>code msg. err code msg None (Some i) (Some (e_target_port e))) in
     rbind (schema_members source) (\<lambda>sm.
     case type_ref_of sm of Inl x \<Rightarrow> e1 ''invalid_type_reference'' (error_text x)
     | Inr sr \<Rightarrow>
     rbind (schema_members target) (\<lambda>tm.
     case type_ref_of tm of Inl x \<Rightarrow> e1 ''invalid_type_reference'' (error_text x)
     | Inr tr \<Rightarrow>
       rbind (collect (\<lambda>r. if is_ok (resolve_ref (Inr r) R) then nothing
           else e1 ''unknown_type'' (''unknown type definition '' @ ref_text r))
         ((case sr of None \<Rightarrow> [] | Some r \<Rightarrow> [r]) @ (case tr of None \<Rightarrow> [] | Some r \<Rightarrow> [r]))) (\<lambda>unknown.
       if unknown \<noteq> [] then Inr unknown
       else case (sr, tr) of
         (Some s, Some t) \<Rightarrow>
           if tr_name s \<noteq> tr_name t then e1 ''incompatible_types'' (ref_text s @ '' cannot connect to '' @ ref_text t)
           else if tr_version s \<noteq> tr_version t then e1 ''type_version_mismatch'' (ref_text s @ '' cannot connect to '' @ ref_text t)
           else nothing
       | (Some s, None) \<Rightarrow> if is_wildcard tm then nothing else e1 ''incompatible_types'' ''typed and untyped ports are not compatible''
       | (None, Some t) \<Rightarrow> if is_wildcard sm then nothing else e1 ''incompatible_types'' ''typed and untyped ports are not compatible''
       | (None, None) \<Rightarrow> if json_compatible sm tm then nothing
           else e1 ''incompatible_types'' ''source JSON type is not accepted by target port''))))"

section \<open>Validating an expanded graph\<close>

definition node_dict :: "node list \<Rightarrow> (uuid, node) dict" where
  "node_dict ns = fold (\<lambda>n d. AList.update (n_id n) n d) ns []"

definition sorted_nodes :: "graph \<Rightarrow> node list" where
  "sorted_nodes g = sort_key n_id (g_nodes g)"

definition definition_of :: "catalogue \<Rightarrow> node \<Rightarrow> node_definition option" where
  "definition_of c n = (case get c (n_type_id n) (Some (n_type_version n)) of Inr d \<Rightarrow> Some d | Inl _ \<Rightarrow> None)"

text \<open>A dictionary filled in a loop over the sorted nodes, with an entry for the nodes that have a value.\<close>

definition node_table :: "(node \<Rightarrow> 'a option) \<Rightarrow> graph \<Rightarrow> (uuid, 'a) dict" where
  "node_table f g = fold (\<lambda>n d. case f n of None \<Rightarrow> d | Some x \<Rightarrow> AList.update (n_id n) x d) (sorted_nodes g) []"

definition definitions :: "catalogue \<Rightarrow> graph \<Rightarrow> (uuid, node_definition) dict" where
  "definitions c g = node_table (definition_of c) g"

definition occurrences :: "uuid \<Rightarrow> node list \<Rightarrow> nat" where
  "occurrences i ns = length (filter (\<lambda>n. n_id n = i) ns)"

definition duplicate_ids :: "string \<Rightarrow> node list \<Rightarrow> findings" where
  "duplicate_ids label ns = collect (\<lambda>i. if 1 < occurrences i ns
       then err ''duplicate_node_id'' (label @ ''node id '' @ uuid_str i @ '' occurs '' @ show_nat (occurrences i ns) @ '' times'') (Some i) None None
       else nothing) (sort (remdups (map n_id ns)))"

definition unknown_definitions :: "catalogue \<Rightarrow> graph \<Rightarrow> findings" where
  "unknown_definitions c g = collect (\<lambda>n. if definition_of c n = None
       then err ''unknown_node_definition'' (''unknown node definition '' @ n_type_id n @ CHR ''@'' # n_type_version n) (Some (n_id n)) None None
       else nothing) (sorted_nodes g)"

definition port_schema :: "members \<Rightarrow> string \<Rightarrow> json option" where
  "port_schema ms p = (case map_of (properties_of ms) (ustr p) of Some JNull \<Rightarrow> None | s \<Rightarrow> s)"

definition has_port :: "members \<Rightarrow> string \<Rightarrow> bool" where
  "has_port ms p = (ustr p \<in> set (dkeys (properties_of ms)))"

definition sorted_edges :: "graph \<Rightarrow> (nat \<times> edge) list" where
  "sorted_edges g = sort_key (\<lambda>(i, e). (e_source e, e_source_port e, e_target e, e_target_port e, i)) (enumerate 0 (g_edges g))"

text \<open>What the loop over the edges collects: edges between nodes, ports fed and ports used.\<close>

definition endpoint_edges :: "graph \<Rightarrow> edge list" where
  "endpoint_edges g = filter (\<lambda>e. e_source e \<in> set (dkeys (node_dict (g_nodes g)))
     \<and> e_target e \<in> set (dkeys (node_dict (g_nodes g)))) (map snd (sorted_edges g))"

definition edge_schemas :: "catalogue \<Rightarrow> graph \<Rightarrow> edge \<Rightarrow> (json option \<times> json option) option" where
  "edge_schemas c g e = (case (map_of (definitions c g) (e_source e), map_of (definitions c g) (e_target e)) of
     (Some s, Some t) \<Rightarrow> Some (port_schema (nd_output_schema s) (e_source_port e), port_schema (nd_input_schema t) (e_target_port e))
   | _ \<Rightarrow> None)"

definition incoming_ports :: "catalogue \<Rightarrow> graph \<Rightarrow> (uuid \<times> string) list" where
  "incoming_ports c g = map (\<lambda>e. (e_target e, e_target_port e)) (filter (\<lambda>e. case edge_schemas c g e of
     Some (s, Some t) \<Rightarrow> True | _ \<Rightarrow> False) (endpoint_edges g))"

definition used_by_edges :: "catalogue \<Rightarrow> graph \<Rightarrow> (uuid \<times> string) list" where
  "used_by_edges c g = map (\<lambda>e. (e_source e, e_source_port e)) (filter (\<lambda>e. case edge_schemas c g e of
     Some (Some s, t) \<Rightarrow> True | _ \<Rightarrow> False) (endpoint_edges g))"

definition edge_diagnostics :: "validation_context \<Rightarrow> graph \<Rightarrow> nat \<times> edge \<Rightarrow> findings" where
  "edge_diagnostics cx g ie = (case ie of (i, e) \<Rightarrow>
     let known = set (dkeys (node_dict (g_nodes g))) in
     both (if e_source e \<in> known then nothing else err ''missing_source_node''
       (''edge source node '' @ uuid_str (e_source e) @ '' does not exist'') None (Some i) (Some (e_source_port e)))
     (both (if e_target e \<in> known then nothing else err ''missing_target_node''
       (''edge target node '' @ uuid_str (e_target e) @ '' does not exist'') None (Some i) (Some (e_target_port e)))
     (if e_source e \<notin> known \<or> e_target e \<notin> known then nothing
      else case edge_schemas (cx_catalogue cx) g e of None \<Rightarrow> nothing
      | Some (s, t) \<Rightarrow>
        both (if s \<noteq> None then nothing else err ''missing_source_port''
          (''node '' @ uuid_str (e_source e) @ '' has no output port '' @ quoted (e_source_port e))
          (Some (e_source e)) (Some i) (Some (e_source_port e)))
        (both (if t \<noteq> None then nothing else err ''missing_target_port''
          (''node '' @ uuid_str (e_target e) @ '' has no input port '' @ quoted (e_target_port e))
          (Some (e_target e)) (Some i) (Some (e_target_port e)))
        (case (s, t) of (Some ss, Some ts) \<Rightarrow> edge_type_diagnostics e i ss ts (cx_registry cx) | _ \<Rightarrow> nothing)))))"

text \<open>The bindings of the graph, in the order of their names; the ports they bind.\<close>

definition bound_port :: "catalogue \<Rightarrow> graph \<Rightarrow> (node_definition \<Rightarrow> members) \<Rightarrow> port_binding \<Rightarrow> bool" where
  "bound_port c g schema b = (b_node b \<in> set (dkeys (node_dict (g_nodes g)))
     \<and> (case map_of (definitions c g) (b_node b) of None \<Rightarrow> True | Some d \<Rightarrow> has_port (schema d) (b_port b)))"

definition binding_diagnostics :: "string \<Rightarrow> catalogue \<Rightarrow> graph \<Rightarrow> (node_definition \<Rightarrow> members) \<Rightarrow>
    (string, port_binding) dict \<Rightarrow> findings" where
  "binding_diagnostics kind c g schema bs = collect (\<lambda>(name, b).
     if b_node b \<notin> set (dkeys (node_dict (g_nodes g)))
     then err (''missing_graph_'' @ kind @ ''_node'') (''graph '' @ kind @ CHR '' '' # quoted name @ '' references a missing node'')
       (Some (b_node b)) None (Some (b_port b))
     else if \<not> bound_port c g schema b
     then err (''missing_graph_'' @ kind @ ''_port'') (''graph '' @ kind @ CHR '' '' # quoted name @ '' references unknown port '' @ quoted (b_port b))
       (Some (b_node b)) None (Some (b_port b))
     else nothing) (sort_key fst bs)"

definition external_ports :: "catalogue \<Rightarrow> graph \<Rightarrow> (uuid \<times> string) list" where
  "external_ports c g = map (\<lambda>(_, b). (b_node b, b_port b)) (filter (\<lambda>(_, b). bound_port c g nd_input_schema b) (sort_key fst (g_inputs g)))"

definition used_outputs :: "catalogue \<Rightarrow> graph \<Rightarrow> (uuid \<times> string) list" where
  "used_outputs c g = used_by_edges c g
     @ map (\<lambda>(_, b). (b_node b, b_port b)) (filter (\<lambda>(_, b). bound_port c g nd_output_schema b) (sort_key fst (g_outputs g)))"

text \<open>\<open>sources\<close>: how many literals, edges and graph inputs feed a port of a node.\<close>

definition sources :: "catalogue \<Rightarrow> graph \<Rightarrow> node \<Rightarrow> string \<Rightarrow> nat" where
  "sources c g n p = (if p \<in> set (dkeys (n_inputs n)) then 1 else 0)
     + count_list (incoming_ports c g) (n_id n, p) + count_list (external_ports c g) (n_id n, p)"

definition key_sources :: "catalogue \<Rightarrow> graph \<Rightarrow> node \<Rightarrow> ustr \<Rightarrow> nat" where
  "key_sources c g n k = (case port_key k of None \<Rightarrow> 0 | Some p \<Rightarrow> sources c g n p)"

definition literal_diagnostics :: "literal_validator \<Rightarrow> node_definition \<Rightarrow> node \<Rightarrow> findings" where
  "literal_diagnostics lit d n = collect (\<lambda>(p, v). case port_schema (nd_input_schema d) p of
     None \<Rightarrow> err ''unknown_literal_input'' (''node '' @ uuid_str (n_id n) @ '' has no input port '' @ quoted p) (Some (n_id n)) None (Some p)
   | Some s \<Rightarrow> (case lit s v of [] \<Rightarrow> nothing
       | msg # _ \<Rightarrow> err ''invalid_literal_input'' (''invalid literal for '' @ quoted p @ '': '' @ msg) (Some (n_id n)) None (Some p)))
     (sort_key fst (n_inputs n))"

definition required_diagnostics :: "catalogue \<Rightarrow> graph \<Rightarrow> node_definition \<Rightarrow> node \<Rightarrow> findings" where
  "required_diagnostics c g d n = collect (\<lambda>k.
     if key_sources c g n k = 0 then port_diagnostic k (\<lambda>p. err ''missing_required_input''
       (''required input '' @ quoted p @ '' is not bound'') (Some (n_id n)) None (Some p))
     else if 1 < key_sources c g n k then port_diagnostic k (\<lambda>p. err ''multiple_input_bindings''
       (''input '' @ quoted p @ '' has more than one binding'') (Some (n_id n)) None (Some p))
     else nothing) (sort (required_of (nd_input_schema d)))"

definition optional_diagnostics :: "catalogue \<Rightarrow> graph \<Rightarrow> node_definition \<Rightarrow> node \<Rightarrow> findings" where
  "optional_diagnostics c g d n = collect (\<lambda>k.
     if 1 < key_sources c g n k \<and> k \<notin> set (required_of (nd_input_schema d)) then port_diagnostic k (\<lambda>p. err ''multiple_input_bindings''
       (''input '' @ quoted p @ '' has more than one binding'') (Some (n_id n)) None (Some p))
     else nothing) (sort (dkeys (properties_of (nd_input_schema d))))"

definition for_each :: string where
  "for_each = ''ng.control.for_each''"

definition loop_bound :: "node \<Rightarrow> int option" where
  "loop_bound n = (case map_of (n_inputs n) ''items'' of
     Some (JArr js) \<Rightarrow> Some (int (length js))
   | _ \<Rightarrow> (case map_of (n_metadata n) (ustr ''max_iterations'') of
        Some (JInt k) \<Rightarrow> if 0 < k then Some k else None | _ \<Rightarrow> None))"

definition loop_diagnostics :: "validation_context \<Rightarrow> node \<Rightarrow> findings" where
  "loop_diagnostics cx n = (if n_type_id n \<noteq> for_each then nothing else case loop_bound n of
     None \<Rightarrow> err ''unbounded_loop'' ''dynamic for-each nodes require metadata.max_iterations'' (Some (n_id n)) None None
   | Some k \<Rightarrow> if cx_max_loop_iterations cx < k then err ''loop_bound_exceeded''
       (''loop bound '' @ show_int k @ '' exceeds '' @ show_int (cx_max_loop_iterations cx)) (Some (n_id n)) None None
     else nothing)"

definition unused_diagnostics :: "catalogue \<Rightarrow> graph \<Rightarrow> node_definition \<Rightarrow> node \<Rightarrow> findings" where
  "unused_diagnostics c g d n = collect (\<lambda>k.
     if case port_key k of None \<Rightarrow> False | Some p \<Rightarrow> (n_id n, p) \<in> set (used_outputs c g) then nothing
     else port_diagnostic k (\<lambda>p. diag ''warning'' ''unused_output'' (''output '' @ quoted p @ '' is not consumed'') (Some (n_id n)) None (Some p)))
     (sort (dkeys (properties_of (nd_output_schema d))))"

definition node_diagnostics :: "literal_validator \<Rightarrow> validation_context \<Rightarrow> graph \<Rightarrow> node \<Rightarrow> findings" where
  "node_diagnostics lit cx g n = (let c = cx_catalogue cx in case map_of (definitions c g) (n_id n) of None \<Rightarrow> nothing
   | Some d \<Rightarrow> both (literal_diagnostics lit d n) (both (required_diagnostics c g d n)
       (both (optional_diagnostics c g d n) (both (loop_diagnostics cx n) (unused_diagnostics c g d n)))))"

definition cycle_text :: "uuid list \<Rightarrow> string" where
  "cycle_text ids = ''graph contains a cycle involving: '' @ concat (case map uuid_str ids of [] \<Rightarrow> [] | s # ss \<Rightarrow> s # map (\<lambda>t. '', '' @ t) ss)"

definition cycle_diagnostics :: "graph \<Rightarrow> findings" where
  "cycle_diagnostics g = (if length (node_dict (g_nodes g)) \<noteq> length (g_nodes g) then nothing
     else case topological_layers (dkeys (node_dict (g_nodes g))) (endpoint_edges g) of
       Inr _ \<Rightarrow> nothing
     | Inl (CycleError ids) \<Rightarrow> err ''cycle'' (cycle_text ids) (case ids of [] \<Rightarrow> None | i # _ \<Rightarrow> Some i) None None
     | Inl e \<Rightarrow> Inl (TopologyError e))"

definition validate_graph :: "literal_validator \<Rightarrow> graph \<Rightarrow> validation_context \<Rightarrow> findings" where
  "validate_graph lit g cx = (let c = cx_catalogue cx in
     rbind (both (duplicate_ids [] (g_nodes g)) (both (unknown_definitions c g)
       (both (collect (edge_diagnostics cx g) (sorted_edges g))
       (both (binding_diagnostics ''input'' c g nd_input_schema (g_inputs g))
       (both (binding_diagnostics ''output'' c g nd_output_schema (g_outputs g))
       (both (collect (node_diagnostics lit cx g) (sorted_nodes g)) (cycle_diagnostics g)))))))
     (\<lambda>ds. Inr (sort_key diag_key ds)))"

section \<open>Validating the structure before expansion\<close>

definition subgraph_registry :: "((string + sub_key) \<times> graph) list \<Rightarrow> sub_registry" where
  "subgraph_registry kvs = fold (\<lambda>(raw, g) R. AList.update (case raw of Inl s \<Rightarrow> (s, ''1.0.0'') | Inr k \<Rightarrow> k) g R) kvs []"

text \<open>The input or output ports of a node, where its type is a subgraph or has a definition.\<close>

definition input_ports_of :: "sub_registry \<Rightarrow> catalogue \<Rightarrow> node \<Rightarrow> ustr list option" where
  "input_ports_of R c n = (case map_of R (node_key n) of
     Some child \<Rightarrow> Some (map ustr (dkeys (g_inputs child)))
   | None \<Rightarrow> map_option (\<lambda>d. dkeys (properties_of (nd_input_schema d))) (definition_of c n))"

definition output_ports_of :: "sub_registry \<Rightarrow> catalogue \<Rightarrow> node \<Rightarrow> ustr list option" where
  "output_ports_of R c n = (case map_of R (node_key n) of
     Some child \<Rightarrow> Some (map ustr (dkeys (g_outputs child)))
   | None \<Rightarrow> map_option (\<lambda>d. dkeys (properties_of (nd_output_schema d))) (definition_of c n))"

definition offers :: "(uuid, ustr list) dict \<Rightarrow> uuid \<Rightarrow> string \<Rightarrow> bool" where
  "offers table i p = (case map_of table i of None \<Rightarrow> False | Some ps \<Rightarrow> ustr p \<in> set ps)"

definition call_diagnostics :: "string \<Rightarrow> sub_registry \<Rightarrow> catalogue \<Rightarrow> node \<Rightarrow> findings" where
  "call_diagnostics label R c n = (case map_of R (node_key n) of
     Some child \<Rightarrow>
       both (if case map_of (n_metadata n) (ustr ''construct_kind'') of None \<Rightarrow> True
             | Some (JStr k) \<Rightarrow> k \<in> ustr ` set construct_kinds | Some _ \<Rightarrow> False then nothing
           else err ''invalid_subgraph_kind'' (label @ '': construct_kind must be subgraph, function or macro'') (Some (n_id n)) None None)
         (collect (\<lambda>p. if p \<in> set (dkeys (g_inputs child)) then nothing
           else err ''unknown_subgraph_input'' (label @ '': subgraph call has no input port '' @ quoted p) (Some (n_id n)) None (Some p))
           (sort (dkeys (n_inputs n))))
   | None \<Rightarrow> if definition_of c n = None
       then err ''unknown_node_definition'' (''unknown node definition '' @ n_type_id n @ CHR ''@'' # n_type_version n) (Some (n_id n)) None None
       else nothing)"

definition structure_edge :: "string \<Rightarrow> uuid set \<Rightarrow> (uuid, ustr list) dict \<Rightarrow> (uuid, ustr list) dict \<Rightarrow> nat \<times> edge \<Rightarrow> findings" where
  "structure_edge label ids ins outs ie = (case ie of (i, e) \<Rightarrow>
     both (if e_source e \<in> ids then nothing else err ''missing_source_node''
       (label @ '': edge source node '' @ uuid_str (e_source e) @ '' does not exist'') None (Some i) (Some (e_source_port e)))
     (both (if e_target e \<in> ids then nothing else err ''missing_target_node''
       (label @ '': edge target node '' @ uuid_str (e_target e) @ '' does not exist'') None (Some i) (Some (e_target_port e)))
     (both (if label \<noteq> ''root'' \<and> (e_source e \<notin> ids \<or> e_target e \<notin> ids) then err ''invalid_subgraph_edge''
       (label @ '': subgraph edge references a missing node'') None (Some i) None else nothing)
     (both (if e_source e \<in> ids \<and> \<not> offers outs (e_source e) (e_source_port e) then err ''missing_source_port''
       (label @ '': node '' @ uuid_str (e_source e) @ '' has no output '' @ quoted (e_source_port e))
       (Some (e_source e)) (Some i) (Some (e_source_port e)) else nothing)
     (if e_target e \<in> ids \<and> \<not> offers ins (e_target e) (e_target_port e) then err ''missing_target_port''
       (label @ '': node '' @ uuid_str (e_target e) @ '' has no input '' @ quoted (e_target_port e))
       (Some (e_target e)) (Some i) (Some (e_target_port e)) else nothing)))))"

definition structure_bindings :: "string \<Rightarrow> string \<Rightarrow> uuid set \<Rightarrow> (uuid, ustr list) dict \<Rightarrow> (string, port_binding) dict \<Rightarrow> findings" where
  "structure_bindings label kind ids table bs = collect (\<lambda>(name, b).
     if b_node b \<notin> ids
     then err (''missing_graph_'' @ kind @ ''_node'') (label @ '': graph '' @ kind @ CHR '' '' # quoted name @ '' references a missing node'')
       (Some (b_node b)) None (Some (b_port b))
     else if \<not> offers table (b_node b) (b_port b)
     then err (''missing_graph_'' @ kind @ ''_port'')
       (label @ '': graph '' @ kind @ CHR '' '' # quoted name @ '' references unknown port '' @ quoted (b_port b))
       (Some (b_node b)) None (Some (b_port b))
     else nothing) (sort_key fst bs)"

definition structure_of :: "sub_registry \<Rightarrow> catalogue \<Rightarrow> string \<times> graph \<Rightarrow> findings" where
  "structure_of R c lg = (case lg of (label, g) \<Rightarrow>
     let ids = n_id ` set (g_nodes g); ins = node_table (input_ports_of R c) g; outs = node_table (output_ports_of R c) g in
     both (duplicate_ids (label @ '': '') (g_nodes g))
     (both (collect (call_diagnostics label R c) (sorted_nodes g))
     (both (collect (structure_edge label ids ins outs) (enumerate 0 (g_edges g)))
     (both (structure_bindings label ''input'' ids ins (g_inputs g))
       (structure_bindings label ''output'' ids outs (g_outputs g))))))"

definition validate_graph_structure :: "graph \<Rightarrow> validation_context \<Rightarrow> findings" where
  "validate_graph_structure g cx = (let R = subgraph_registry (cx_subgraphs cx) in
     rbind (collect (structure_of R (cx_catalogue cx))
       ((''root'', g) # map (\<lambda>(k, child). (fst k @ CHR ''@'' # snd k, child)) (sort_key fst R)))
     (\<lambda>ds. Inr (sort_key diag_key (remdups ds))))"

section \<open>Findings without errors\<close>

definition clean :: "findings \<Rightarrow> bool" where
  "clean r = (case r of Inl _ \<Rightarrow> False | Inr ds \<Rightarrow> list_all (\<lambda>d. dg_severity d \<noteq> ''error'') ds)"

lemma clean_simps [simp]: "clean nothing" "\<not> clean (Inl e)" "clean (both a b) \<longleftrightarrow> clean a \<and> clean b"
    "clean (collect f xs) \<longleftrightarrow> (\<forall>x\<in>set xs. clean (f x))"
proof -
  show "clean nothing" "\<not> clean (Inl e)" by (simp_all add: clean_def nothing_def)
  show "clean (both a b) \<longleftrightarrow> clean a \<and> clean b"
    by (cases a; cases b) (auto simp: clean_def both_def)
  show "clean (collect f xs) \<longleftrightarrow> (\<forall>x\<in>set xs. clean (f x))"
    unfolding collect_def
  proof (induction xs)
    case (Cons x xs)
    then show ?case by (cases "f x"; cases "rmap f xs") (auto simp: clean_def)
  qed (simp add: clean_def)
qed

lemma isl_simps [simp]: "\<not> isl nothing" "isl (both a b) \<longleftrightarrow> isl a \<or> isl b" "isl (collect f xs) \<longleftrightarrow> (\<exists>x\<in>set xs. isl (f x))"
    "isl (if c then a else b) \<longleftrightarrow> c \<and> isl a \<or> \<not> c \<and> isl b"
    "isl (case v of None \<Rightarrow> a | Some x \<Rightarrow> g x) \<longleftrightarrow> v = None \<and> isl a \<or> (\<exists>x. v = Some x \<and> isl (g x))"
    "isl (case ys of [] \<Rightarrow> a | y # zs \<Rightarrow> h y zs) \<longleftrightarrow> ys = [] \<and> isl a \<or> (\<exists>y zs. ys = y # zs \<and> isl (h y zs))"
proof -
  show "isl (case v of None \<Rightarrow> a | Some x \<Rightarrow> g x) \<longleftrightarrow> v = None \<and> isl a \<or> (\<exists>x. v = Some x \<and> isl (g x))"
    "isl (case ys of [] \<Rightarrow> a | y # zs \<Rightarrow> h y zs) \<longleftrightarrow> ys = [] \<and> isl a \<or> (\<exists>y zs. ys = y # zs \<and> isl (h y zs))"
    by (auto split: option.splits list.splits)
  show "\<not> isl nothing" "isl (both a b) \<longleftrightarrow> isl a \<or> isl b" "isl (if c then a else b) \<longleftrightarrow> c \<and> isl a \<or> \<not> c \<and> isl b"
    by (auto simp: nothing_def both_def rbind_def split: sum.split)
  show "isl (collect f xs) \<longleftrightarrow> (\<exists>x\<in>set xs. isl (f x))"
    unfolding collect_def
  proof (induction xs)
    case (Cons x xs)
    then show ?case by (cases "f x"; cases "rmap f xs") auto
  qed simp
qed

lemma diag_post: "s \<in> {''error'', ''warning''} \<Longrightarrow> code \<noteq> [] \<Longrightarrow> msg \<noteq> [] \<Longrightarrow> (case p of None \<Rightarrow> True | Some q \<Rightarrow> port_name q) \<Longrightarrow>
    diag s code msg n e p = Inr [\<lparr>dg_code = code, dg_severity = s, dg_message = msg, dg_node = n, dg_edge = map_option int e, dg_port = p\<rparr>]"
  by (auto simp: diag_def diagnostic_post_init_def split: option.splits)

lemma clean_err [simp]: "\<not> clean (err code msg n e p)"
  by (auto simp: diag_def diagnostic_post_init_def clean_def rbind_def split: sum.split)

lemma clean_warning [simp]: "clean (diag ''warning'' code msg n e p) \<longleftrightarrow> is_ok (diag ''warning'' code msg n e p)"
  by (auto simp: diag_def diagnostic_post_init_def clean_def rbind_def split: sum.split)

lemma isl_diag [simp]: "isl (diag s code msg n e p) \<longleftrightarrow>
    \<not> (s \<in> {''error'', ''warning''} \<and> code \<noteq> [] \<and> msg \<noteq> [] \<and> (case p of None \<Rightarrow> True | Some q \<Rightarrow> port_name q))"
  by (auto simp: diag_def diagnostic_post_init_def rbind_def checks_Inr_iff split: sum.split option.splits)

lemma clean_if [simp]: "clean (if b then x else y) \<longleftrightarrow> (if b then clean x else clean y)"
  by simp

section \<open>Well-typed graphs\<close>

definition known_ref :: "registry \<Rightarrow> type_ref option \<Rightarrow> bool" where
  "known_ref R r = (case r of None \<Rightarrow> True | Some x \<Rightarrow> (tr_name x, tr_version x) \<in> set (dkeys R))"

text \<open>When a value of the source schema may flow into a port with the target schema.\<close>

definition compatible :: "registry \<Rightarrow> json \<Rightarrow> json \<Rightarrow> bool" where
  "compatible R source target = (\<exists>sm tm sr tr. source = JObj sm \<and> target = JObj tm
     \<and> type_ref_of sm = Inr sr \<and> type_ref_of tm = Inr tr \<and> known_ref R sr \<and> known_ref R tr
     \<and> (case (sr, tr) of (Some s, Some t) \<Rightarrow> s = t | (Some s, None) \<Rightarrow> is_wildcard tm | (None, Some t) \<Rightarrow> is_wildcard sm
        | (None, None) \<Rightarrow> (\<forall>ss ts. json_types sm = Some ss \<longrightarrow> json_types tm = Some ts \<longrightarrow>
            (\<forall>s\<in>set ss. s \<in> set ts \<or> s = ustr ''integer'' \<and> ustr ''number'' \<in> set ts))))"

definition typed_at :: "catalogue \<Rightarrow> graph \<Rightarrow> uuid \<Rightarrow> node_definition \<Rightarrow> bool" where
  "typed_at c g i d = (\<exists>n\<in>set (g_nodes g). n_id n = i \<and> definition_of c n = Some d)"

definition edge_typed :: "validation_context \<Rightarrow> graph \<Rightarrow> edge \<Rightarrow> bool" where
  "edge_typed cx g e = (\<exists>dm dn s t. typed_at (cx_catalogue cx) g (e_source e) dm \<and> typed_at (cx_catalogue cx) g (e_target e) dn
     \<and> map_of (properties_of (nd_output_schema dm)) (ustr (e_source_port e)) = Some s
     \<and> map_of (properties_of (nd_input_schema dn)) (ustr (e_target_port e)) = Some t \<and> compatible (cx_registry cx) s t)"

definition binding_typed :: "catalogue \<Rightarrow> graph \<Rightarrow> (node_definition \<Rightarrow> members) \<Rightarrow> port_binding \<Rightarrow> bool" where
  "binding_typed c g schema b = (\<exists>d. typed_at c g (b_node b) d \<and> has_port (schema d) (b_port b))"

text \<open>How many literals, edges and graph inputs feed a port.\<close>

definition fed :: "graph \<Rightarrow> node \<Rightarrow> string \<Rightarrow> nat" where
  "fed g n p = (if p \<in> set (dkeys (n_inputs n)) then 1 else 0)
     + length (filter (\<lambda>e. e_target e = n_id n \<and> e_target_port e = p) (g_edges g))
     + length (filter (\<lambda>(_, b). b_node b = n_id n \<and> b_port b = p) (g_inputs g))"

definition node_typed :: "literal_validator \<Rightarrow> validation_context \<Rightarrow> graph \<Rightarrow> node \<Rightarrow> bool" where
  "node_typed lit cx g n = (\<exists>d. definition_of (cx_catalogue cx) n = Some d
     \<and> (\<forall>(p, v)\<in>set (n_inputs n). \<exists>s. map_of (properties_of (nd_input_schema d)) (ustr p) = Some s \<and> lit s v = [])
     \<and> (\<forall>p. ustr p \<in> set (required_of (nd_input_schema d)) \<longrightarrow> fed g n p = 1)
     \<and> (\<forall>p. has_port (nd_input_schema d) p \<longrightarrow> fed g n p \<le> 1)
     \<and> (n_type_id n = for_each \<longrightarrow> (\<exists>k. loop_bound n = Some k \<and> k \<le> cx_max_loop_iterations cx)))"

definition well_typed :: "literal_validator \<Rightarrow> validation_context \<Rightarrow> graph \<Rightarrow> bool" where
  "well_typed lit cx g = (distinct (map n_id (g_nodes g)) \<and> (\<forall>n\<in>set (g_nodes g). node_typed lit cx g n)
     \<and> (\<forall>e\<in>set (g_edges g). edge_typed cx g e)
     \<and> (\<forall>(_, b)\<in>set (g_inputs g). binding_typed (cx_catalogue cx) g nd_input_schema b)
     \<and> (\<forall>(_, b)\<in>set (g_outputs g). binding_typed (cx_catalogue cx) g nd_output_schema b)
     \<and> acyclic (edge_rel (g_edges g)))"

text \<open>
  The schemas for which the code cannot raise: every property is named like a port and has an
  object as its schema. (JSON Schema also allows other names, and \<open>true\<close> or \<open>false\<close> as a schema.)
\<close>

definition presentable :: "members \<Rightarrow> bool" where
  "presentable ms = (list_all (\<lambda>(k, s). port_key k \<noteq> None \<and> is_object s) (properties_of ms)
     \<and> set (required_of ms) \<subseteq> set (dkeys (properties_of ms)))"

definition presentable_catalogue :: "catalogue \<Rightarrow> bool" where
  "presentable_catalogue c = (good_catalogue c \<and>
     list_all (\<lambda>d. presentable (nd_input_schema d) \<and> presentable (nd_output_schema d)) (cat_nodes c))"

section \<open>Edges\<close>

lemma ustr_inj [simp]: "ustr a = ustr b \<longleftrightarrow> a = b"
proof
  assume "ustr a = ustr b"
  then have "map char_of (ustr a) = (map char_of (ustr b) :: string)" by simp
  then show "a = b" by (simp add: ustr_def o_def)
qed simp

lemma port_key_Some: "port_key k = Some p \<longleftrightarrow> k = ustr p \<and> port_name p"
proof
  assume p: "port_key k = Some p"
  then have "list_all (\<lambda>c. c < 256) k" "p = map char_of k" "port_name p" by (auto simp: port_key_def split: if_splits)
  moreover from this(1) have "map (\<lambda>c. of_char (char_of c :: char)) k = map id k"
    by (intro map_cong) (auto simp: list_all_iff)
  ultimately show "k = ustr p \<and> port_name p" by (simp add: ustr_def o_def)
qed (simp add: port_key_ustr)

lemma type_ref_error_text: "type_ref_of ms = Inl e \<Longrightarrow> error_text e \<noteq> []"
  by (auto simp: type_ref_of_def parse_port_type_def type_ref_parse_def type_ref_post_init_def rbind_Inl_iff error_text_def
      py_int_def validate_type_name_def ident_def require_def guard_or_def
      split: option.splits json.splits list.splits if_splits sum.splits id_error.splits)

lemma resolve_known: "is_ok (resolve_ref (Inr r) R) \<longleftrightarrow> known_ref R (Some r)"
  by (auto simp: resolve_ref_def resolve_def known_ref_def map_of_eq_None_iff split: option.split)
    (metis map_of_eq_None_iff option.distinct(1))

lemma collect_all: "(\<And>x. x \<in> set xs \<Longrightarrow> f x = nothing) \<Longrightarrow> collect f xs = Inr []"
proof -
  assume "\<And>x. x \<in> set xs \<Longrightarrow> f x = nothing"
  then have "rmap f xs = Inr (map (\<lambda>x. []) xs)" by (intro rmap_map) (simp add: nothing_def)
  then show ?thesis by (simp add: collect_def)
qed

lemma clean_unless: "\<not> clean c \<Longrightarrow> \<not> clean (rbind c (\<lambda>ds. if ds \<noteq> [] then Inr ds else r))"
  by (cases c) (auto simp: clean_def)

lemma json_compatible_iff: "json_compatible sm tm \<longleftrightarrow> (\<forall>ss ts. json_types sm = Some ss \<longrightarrow> json_types tm = Some ts \<longrightarrow>
    (\<forall>s\<in>set ss. s \<in> set ts \<or> s = ustr ''integer'' \<and> ustr ''number'' \<in> set ts))"
  by (auto simp: json_compatible_def list_all_iff split: option.split)

lemma edge_types_clean: "clean (edge_type_diagnostics e i source target R) \<longleftrightarrow> compatible R source target"
proof (cases "\<exists>sm tm sr tr. source = JObj sm \<and> target = JObj tm \<and> type_ref_of sm = Inr sr \<and> type_ref_of tm = Inr tr")
  case True
  then obtain sm tm sr tr where p: "source = JObj sm" "target = JObj tm" "type_ref_of sm = Inr sr" "type_ref_of tm = Inr tr" by blast
  let ?rs = "(case sr of None \<Rightarrow> [] | Some r \<Rightarrow> [r]) @ (case tr of None \<Rightarrow> [] | Some r \<Rightarrow> [r])"
  let ?c = "collect (\<lambda>r. if is_ok (resolve_ref (Inr r) R) then nothing
      else err ''unknown_type'' (''unknown type definition '' @ ref_text r) None (Some i) (Some (e_target_port e))) ?rs"
  have all: "(\<forall>r\<in>set ?rs. is_ok (resolve_ref (Inr r) R)) \<longleftrightarrow> known_ref R sr \<and> known_ref R tr"
    unfolding resolve_known by (auto simp: known_ref_def split: option.splits)
  show ?thesis
  proof (cases "known_ref R sr \<and> known_ref R tr")
    case True
    then have "?c = Inr []" using all by (intro collect_all) simp
    then show ?thesis using p True
      by (auto simp: edge_type_diagnostics_def schema_members_def compatible_def json_compatible_iff Let_def
          split: option.split)
  next
    case False
    then have "\<not> clean ?c" using all by auto
    then show ?thesis using False p
      by (auto simp add: edge_type_diagnostics_def schema_members_def compatible_def Let_def simp del: clean_simps(4) dest: clean_unless)
  qed
next
  case False
  then show ?thesis
    by (auto simp: edge_type_diagnostics_def schema_members_def compatible_def Let_def split: json.splits sum.splits)
qed

lemma edge_types_ok:
  assumes "is_object source" and "is_object target" and "port_name (e_target_port e)"
  shows "is_ok (edge_type_diagnostics e i source target R)"
proof -
  from assms obtain sm tm where o: "source = JObj sm" "target = JObj tm" by (auto simp: is_object_def split: json.splits)
  have [simp]: "is_ok (rbind c (\<lambda>ds. if ds \<noteq> [] then Inr ds else r)) \<longleftrightarrow> is_ok c \<and> (c = Inr [] \<longrightarrow> is_ok r)" for c r :: findings
    by (cases c) auto
  show ?thesis using assms(3) type_ref_error_text
    by (auto simp: edge_type_diagnostics_def o schema_members_def Let_def ref_text_def split: sum.split option.split)
qed

section \<open>Tables of the nodes\<close>

lemma set_sorted_nodes [simp]: "set (sorted_nodes g) = set (g_nodes g)"
  by (simp add: sorted_nodes_def)

lemma keys_node_dict [simp]: "fst ` set (node_dict ns) = n_id ` set ns"
proof -
  have "set (dkeys (fold (\<lambda>n d. AList.update (n_id n) n d) ns d)) = set (dkeys d) \<union> n_id ` set ns" for d
    by (induction ns arbitrary: d) auto
  from this [of "[]"] show ?thesis by (simp add: node_dict_def)
qed

lemma wf_node_dict: "wf_dict (node_dict ns)"
proof -
  have "wf_dict d \<Longrightarrow> wf_dict (fold (\<lambda>n d. AList.update (n_id n) n d) ns d)" for d
    by (induction ns arbitrary: d) (auto intro: wf_dict_update)
  then show ?thesis by (simp add: node_dict_def)
qed

lemma length_node_dict: "length (node_dict ns) = length ns \<longleftrightarrow> distinct (map n_id ns)"
proof -
  have "length (node_dict ns) = card (set (dkeys (node_dict ns)))"
    using wf_node_dict [of ns] by (metis distinct_card length_map)
  also have "\<dots> = card (set (map n_id ns))" by simp
  finally show ?thesis by (metis card_distinct distinct_card length_map)
qed

lemma node_table_lookup:
  assumes "distinct (map n_id (g_nodes g))"
  shows "map_of (node_table f g) i = Some x \<longleftrightarrow> (\<exists>n\<in>set (g_nodes g). n_id n = i \<and> f n = Some x)"
proof -
  let ?F = "\<lambda>n d. case f n of None \<Rightarrow> d | Some x \<Rightarrow> AList.update (n_id n) x d"
  have "map_of (fold ?F ns d) i = Some x \<longleftrightarrow> (\<exists>n\<in>set ns. n_id n = i \<and> f n = Some x)
      \<or> (\<forall>n\<in>set ns. n_id n = i \<longrightarrow> f n = None) \<and> map_of d i = Some x" if "distinct (map n_id ns)" for ns d
    using that
  proof (induction ns arbitrary: d)
    case (Cons n ns)
    then have IH: "map_of (fold ?F ns (?F n d)) i = Some x \<longleftrightarrow> (\<exists>n\<in>set ns. n_id n = i \<and> f n = Some x)
      \<or> (\<forall>n\<in>set ns. n_id n = i \<longrightarrow> f n = None) \<and> map_of (?F n d) i = Some x" by simp
    show ?case
    proof (cases "n_id n = i")
      case True
      with Cons.prems have "i \<notin> n_id ` set ns" by auto
      then have no: "m \<in> set ns \<Longrightarrow> n_id m \<noteq> i" for m by blast
      with True IH show ?thesis by (cases "f n") (auto simp: map_of_update)
    next
      case False
      then have "map_of (?F n d) i = map_of d i" by (cases "f n") (simp_all add: map_of_update)
      with False IH show ?thesis by simp
    qed
  qed simp
  moreover have "distinct (map n_id (sorted_nodes g))"
    using assms by (simp add: sorted_nodes_def distinct_map)
  ultimately show ?thesis by (simp add: node_table_def) 
qed

lemma typed_at_lookup:
  "distinct (map n_id (g_nodes g)) \<Longrightarrow> map_of (definitions c g) i = Some d \<longleftrightarrow> typed_at c g i d"
  by (auto simp: definitions_def node_table_lookup typed_at_def)

lemma set_sorted_edges [simp]: "snd ` set (sorted_edges g) = set (g_edges g)"
proof -
  have "snd ` set (sorted_edges g) = set (map snd (enumerate 0 (g_edges g)))"
    by (simp only: sorted_edges_def set_sort set_map)
  then show ?thesis by (simp only: map_snd_enumerate)
qed

lemma mset_sorted_edges: "mset (map snd (sorted_edges g)) = mset (g_edges g)"
  by (simp only: sorted_edges_def mset_map mset_sort) (simp only: mset_map [symmetric] map_snd_enumerate)

lemma count_filter: "count_list (map f (filter P xs)) y = length (filter (\<lambda>x. P x \<and> f x = y) xs)"
  by (induction xs) auto

lemma length_filter_mset: "mset xs = mset ys \<Longrightarrow> length (filter P xs) = length (filter P ys)"
  by (metis mset_filter size_mset)

section \<open>Exactness\<close>

text \<open>A graph whose nodes are distinct and all known, as the lemmas below assume.\<close>

definition resolved :: "catalogue \<Rightarrow> graph \<Rightarrow> bool" where
  "resolved c g = (distinct (map n_id (g_nodes g)) \<and> (\<forall>n\<in>set (g_nodes g). definition_of c n \<noteq> None))"

lemma resolved_lookup:
  "resolved c g \<Longrightarrow> map_of (definitions c g) i = Some d \<longleftrightarrow> typed_at c g i d"
  "resolved c g \<Longrightarrow> map_of (definitions c g) i = None \<longleftrightarrow> i \<notin> n_id ` set (g_nodes g)"
proof -
  assume r: "resolved c g"
  then show l: "map_of (definitions c g) i = Some d \<longleftrightarrow> typed_at c g i d" for d by (simp add: resolved_def typed_at_lookup)
  have "(\<exists>d. typed_at c g i d) \<longleftrightarrow> i \<in> n_id ` set (g_nodes g)"
    using r unfolding typed_at_def resolved_def by blast
  with l show "map_of (definitions c g) i = None \<longleftrightarrow> i \<notin> n_id ` set (g_nodes g)"
    by (metis not_None_eq)
qed

lemma resolved_typed: "resolved c g \<Longrightarrow> i \<in> n_id ` set (g_nodes g) \<Longrightarrow> \<exists>d. typed_at c g i d"
  using resolved_lookup by (metis not_None_eq)

lemma typed_at_fun: "resolved c g \<Longrightarrow> typed_at c g i d \<Longrightarrow> typed_at c g i d' \<Longrightarrow> d' = d"
  using resolved_lookup(1) by (metis option.inject)

lemma typed_at_ids: "typed_at c g i d \<Longrightarrow> i \<in> n_id ` set (g_nodes g)"
  unfolding typed_at_def by blast

lemma edge_typed_ends: "edge_typed cx g e \<Longrightarrow> e_source e \<in> n_id ` set (g_nodes g) \<and> e_target e \<in> n_id ` set (g_nodes g)"
  unfolding edge_typed_def using typed_at_ids by blast

lemma resolved_at: "resolved c g \<Longrightarrow> n \<in> set (g_nodes g) \<Longrightarrow> typed_at c g (n_id n) d \<longleftrightarrow> definition_of c n = Some d"
  by (auto simp: typed_at_def resolved_def distinct_map inj_on_def)

lemma duplicates_clean: "clean (duplicate_ids label ns) \<longleftrightarrow> distinct (map n_id ns)"
proof -
  have "occurrences i ns = count_list (map n_id ns) i" for i
    by (induction ns) (auto simp: occurrences_def)
  moreover have "distinct xs \<longleftrightarrow> (\<forall>i\<in>set xs. count_list xs i \<le> 1)" for xs :: "uuid list"
  proof (induction xs)
    case (Cons x xs)
    show ?case
    proof (cases "x \<in> set xs")
      case True
      then have "count_list xs x \<noteq> 0" by (simp add: count_list_0_iff)
      with True show ?thesis by simp
    next
      case False
      then have "count_list (x # xs) i = count_list xs i" if "i \<in> set xs" for i using that by auto
      moreover have "count_list (x # xs) x = 1" using False by simp
      ultimately show ?thesis using Cons False by simp
    qed
  qed simp
  ultimately show ?thesis by (simp add: duplicate_ids_def not_less)
qed

lemma unknown_clean: "clean (unknown_definitions c g) \<longleftrightarrow> (\<forall>n\<in>set (g_nodes g). definition_of c n \<noteq> None)"
  by (auto simp: unknown_definitions_def)

lemma port_schema_eq:
  assumes "presentable ms"
  shows "port_schema ms p = map_of (properties_of ms) (ustr p)"
proof -
  have "map_of (properties_of ms) (ustr p) \<noteq> Some JNull"
    using assms by (auto simp: presentable_def list_all_iff is_object_def dest!: map_of_SomeD)
  then show ?thesis by (auto simp: port_schema_def split: option.split json.split)
qed

lemma port_schema_presentable:
  "presentable ms \<Longrightarrow> port_schema ms p = Some s \<longleftrightarrow> map_of (properties_of ms) (ustr p) = Some s"
  "presentable ms \<Longrightarrow> port_schema ms p = None \<longleftrightarrow> \<not> has_port ms p"
  "presentable ms \<Longrightarrow> port_schema ms p = Some s \<Longrightarrow> is_object s"
proof -
  assume p: "presentable ms"
  note eq = port_schema_eq [OF this, of p]
  then show "port_schema ms p = Some s \<longleftrightarrow> map_of (properties_of ms) (ustr p) = Some s" by simp
  show "port_schema ms p = None \<longleftrightarrow> \<not> has_port ms p" using eq by (simp add: has_port_def map_of_eq_None_iff)
  show "port_schema ms p = Some s \<Longrightarrow> is_object s"
    using p eq by (auto simp: presentable_def list_all_iff dest!: map_of_SomeD)
qed

lemma presentable_definitions:
  "presentable_catalogue c \<Longrightarrow> definition_of c n = Some d \<Longrightarrow> presentable (nd_input_schema d) \<and> presentable (nd_output_schema d)"
  using get_exact(1) by (auto simp: presentable_catalogue_def definition_of_def list_all_iff split: sum.splits)

lemma presentable_at:
  "presentable_catalogue c \<Longrightarrow> typed_at c g i d \<Longrightarrow> presentable (nd_input_schema d) \<and> presentable (nd_output_schema d)"
  using presentable_definitions by (auto simp: typed_at_def)

lemma edge_schemas_typed:
  assumes "resolved c g" and "presentable_catalogue c"
  shows "edge_schemas c g e = Some (s, t) \<longleftrightarrow> (\<exists>dm dn. typed_at c g (e_source e) dm \<and> typed_at c g (e_target e) dn
    \<and> s = map_of (properties_of (nd_output_schema dm)) (ustr (e_source_port e))
    \<and> t = map_of (properties_of (nd_input_schema dn)) (ustr (e_target_port e)))"
proof -
  have pres: "map_of (definitions c g) i = Some d \<Longrightarrow> presentable (nd_input_schema d) \<and> presentable (nd_output_schema d)" for i d
    using presentable_at [OF assms(2)] resolved_lookup(1) [OF assms(1)] by blast
  show ?thesis unfolding resolved_lookup(1) [OF assms(1), symmetric]
    by (auto simp: edge_schemas_def port_schema_eq pres split: option.splits)
qed

lemma edge_clean:
  assumes "resolved (cx_catalogue cx) g" and "presentable_catalogue (cx_catalogue cx)"
  shows "clean (edge_diagnostics cx g (i, e)) \<longleftrightarrow> edge_typed cx g e"
proof (cases "e_source e \<in> n_id ` set (g_nodes g) \<and> e_target e \<in> n_id ` set (g_nodes g)")
  case True
  then obtain dm dn where d: "typed_at (cx_catalogue cx) g (e_source e) dm" "typed_at (cx_catalogue cx) g (e_target e) dn"
    using resolved_typed [OF assms(1)] by blast
  let ?s = "map_of (properties_of (nd_output_schema dm)) (ustr (e_source_port e))"
    and ?t = "map_of (properties_of (nd_input_schema dn)) (ustr (e_target_port e))"
  have es: "edge_schemas (cx_catalogue cx) g e = Some (?s, ?t)" using d edge_schemas_typed [OF assms] by blast
  have "edge_typed cx g e \<longleftrightarrow> (\<exists>s t. ?s = Some s \<and> ?t = Some t \<and> compatible (cx_registry cx) s t)"
    using d typed_at_fun [OF assms(1) d(1)] typed_at_fun [OF assms(1) d(2)] unfolding edge_typed_def by blast
  then show ?thesis using True
    by (auto simp: edge_diagnostics_def es Let_def edge_types_clean split: option.split)
next
  case False
  with edge_typed_ends have "\<not> edge_typed cx g e" by blast
  with False show ?thesis by (auto simp: edge_diagnostics_def Let_def)
qed

lemma bindings_clean:
  assumes "resolved c g"
  shows "clean (binding_diagnostics kind c g schema bs) \<longleftrightarrow> (\<forall>(_, b)\<in>set bs. binding_typed c g schema b)"
proof -
  have "binding_typed c g schema b \<longleftrightarrow> b_node b \<in> n_id ` set (g_nodes g) \<and> bound_port c g schema b" for b
    using resolved_lookup(2) [OF assms, of "b_node b"] unfolding binding_typed_def resolved_lookup(1) [OF assms, symmetric]
    by (cases "map_of (definitions c g) (b_node b)") (auto simp: bound_port_def)
  then have "clean (case x of (name, b) \<Rightarrow>
     if b_node b \<notin> set (dkeys (node_dict (g_nodes g))) then err (m1 name) (m2 name) (o1 b) (o2 b) (o3 b)
     else if \<not> bound_port c g schema b then err (m3 name) (m4 b name) (o1 b) (o2 b) (o3 b) else nothing)
     \<longleftrightarrow> (case x of (_, b) \<Rightarrow> binding_typed c g schema b)" for x :: "string \<times> port_binding" and m1 m2 m3 m4 o1 o2 o3
    by (cases x) simp
  then show ?thesis by (simp add: binding_diagnostics_def)
qed

text \<open>With every edge and binding in order, \<open>sources\<close> counts all of them.\<close>

lemma sources_fed:
  assumes "resolved (cx_catalogue cx) g" and "presentable_catalogue (cx_catalogue cx)"
    and "\<forall>e\<in>set (g_edges g). edge_typed cx g e" and "\<forall>(_, b)\<in>set (g_inputs g). binding_typed (cx_catalogue cx) g nd_input_schema b"
  shows "sources (cx_catalogue cx) g n p = fed g n p"
proof -
  let ?c = "cx_catalogue cx"
  have ends: "e_source e \<in> n_id ` set (g_nodes g) \<and> e_target e \<in> n_id ` set (g_nodes g)" if "e \<in> set (g_edges g)" for e
    using assms(3) that edge_typed_ends by blast
  have "\<exists>s t. edge_schemas ?c g e = Some (s, Some t)" if "e \<in> set (g_edges g)" for e
  proof -
    from assms(3) that obtain dm dn s t where e: "typed_at ?c g (e_source e) dm" "typed_at ?c g (e_target e) dn"
      "map_of (properties_of (nd_input_schema dn)) (ustr (e_target_port e)) = Some t" by (auto simp: edge_typed_def)
    then have "edge_schemas ?c g e = Some (map_of (properties_of (nd_output_schema dm)) (ustr (e_source_port e)), Some t)"
      using edge_schemas_typed [OF assms(1,2)] by metis
    then show ?thesis by blast
  qed
  then have good: "(case edge_schemas ?c g e of Some (s, Some t) \<Rightarrow> True | _ \<Rightarrow> False) \<and> e_source e \<in> set (dkeys (node_dict (g_nodes g)))
      \<and> e_target e \<in> set (dkeys (node_dict (g_nodes g)))" if "e \<in> set (g_edges g)" for e
    using that ends [OF that] by fastforce
  have es: "set (map snd (sorted_edges g)) = set (g_edges g)" by simp
  have "incoming_ports ?c g = map (\<lambda>e. (e_target e, e_target_port e)) (map snd (sorted_edges g))"
    unfolding incoming_ports_def endpoint_edges_def filter_filter using good es by (intro arg_cong [of _ _ "map _"] filter_True) metis
  then have "count_list (incoming_ports ?c g) (n_id n, p)
      = length (filter (\<lambda>e. e_target e = n_id n \<and> e_target_port e = p) (map snd (sorted_edges g)))"
    using count_filter [of "\<lambda>e. (e_target e, e_target_port e)" "\<lambda>_. True" "map snd (sorted_edges g)"] by (simp only: filter_True) simp
  also have "\<dots> = length (filter (\<lambda>e. e_target e = n_id n \<and> e_target_port e = p) (g_edges g))"
    by (rule length_filter_mset [OF mset_sorted_edges])
  finally have inc: "count_list (incoming_ports ?c g) (n_id n, p)
      = length (filter (\<lambda>e. e_target e = n_id n \<and> e_target_port e = p) (g_edges g))" .
  have "bound_port ?c g nd_input_schema (snd b)" if "b \<in> set (g_inputs g)" for b
    using assms(4) that resolved_lookup [OF assms(1), of "b_node (snd b)"]
    unfolding binding_typed_def resolved_lookup(1) [OF assms(1), symmetric]
    by (cases "map_of (definitions ?c g) (b_node (snd b))") (auto simp: bound_port_def split_beta)
  then have "external_ports ?c g = map (\<lambda>(_, b). (b_node b, b_port b)) (sort_key fst (g_inputs g))"
    unfolding external_ports_def by (intro arg_cong [of _ _ "map _"] filter_True) (auto simp: split_beta)
  then have "count_list (external_ports ?c g) (n_id n, p)
      = length (filter (\<lambda>(_, b). b_node b = n_id n \<and> b_port b = p) (sort_key fst (g_inputs g)))"
    using count_filter [of "\<lambda>(_, b). (b_node b, b_port b)" "\<lambda>_. True" "sort_key fst (g_inputs g)"] by (simp add: case_prod_unfold)
  also have "\<dots> = length (filter (\<lambda>(_, b). b_node b = n_id n \<and> b_port b = p) (g_inputs g))"
    by (rule length_filter_mset) simp
  finally show ?thesis using inc by (simp add: sources_def fed_def)
qed

lemma key_sources_fed:
  assumes "resolved (cx_catalogue cx) g" and "presentable_catalogue (cx_catalogue cx)"
    and "\<forall>e\<in>set (g_edges g). edge_typed cx g e" and "\<forall>(_, b)\<in>set (g_inputs g). binding_typed (cx_catalogue cx) g nd_input_schema b"
    and "port_key k \<noteq> None"
  shows "\<exists>p. k = ustr p \<and> key_sources (cx_catalogue cx) g n k = fed g n p"
  using assms(5) sources_fed [OF assms(1-4)] by (auto simp: key_sources_def port_key_Some port_key_ustr)

lemma port_diagnostic_simps [simp]: "port_key k = Some p \<Longrightarrow> port_diagnostic k f = f p"
  by (simp add: port_diagnostic_def)

lemma node_clean:
  assumes "resolved (cx_catalogue cx) g" and "presentable_catalogue (cx_catalogue cx)"
    and "\<forall>e\<in>set (g_edges g). edge_typed cx g e" and "\<forall>(_, b)\<in>set (g_inputs g). binding_typed (cx_catalogue cx) g nd_input_schema b"
    and "n \<in> set (g_nodes g)"
  shows "clean (node_diagnostics lit cx g n) \<longleftrightarrow> node_typed lit cx g n"
proof -
  let ?c = "cx_catalogue cx"
  from assms(1,5) obtain d where d: "definition_of ?c n = Some d" by (auto simp: resolved_def)
  have at: "map_of (definitions ?c g) (n_id n) = Some d"
    using d resolved_lookup(1) [OF assms(1)] resolved_at [OF assms(1,5)] by blast
  note pres = presentable_definitions [OF assms(2) d]
  from pres have keys: "port_key k \<noteq> None" if "k \<in> set (dkeys (properties_of (nd_input_schema d)))" for k
    using that by (auto simp: presentable_def list_all_iff)
  have reqk: "port_key k \<noteq> None" if "k \<in> set (required_of (nd_input_schema d))" for k
    using that pres keys [of k] unfolding presentable_def by auto
  have outk: "port_key k \<noteq> None" if "k \<in> set (dkeys (properties_of (nd_output_schema d)))" for k
    using that pres by (auto simp: presentable_def list_all_iff)
  note kf = key_sources_fed [OF assms(1-4), of _ n]
  have lit: "clean (literal_diagnostics lit d n) \<longleftrightarrow>
      (\<forall>(p, v)\<in>set (n_inputs n). \<exists>s. map_of (properties_of (nd_input_schema d)) (ustr p) = Some s \<and> lit s v = [])"
  proof -
    have "clean (case port_schema (nd_input_schema d) p of None \<Rightarrow> err a1 a2 a3 a4 a5
        | Some s \<Rightarrow> (case lit s v of [] \<Rightarrow> nothing | msg # ms \<Rightarrow> err b1 (b2 msg) a3 a4 a5))
      \<longleftrightarrow> (\<exists>s. map_of (properties_of (nd_input_schema d)) (ustr p) = Some s \<and> lit s v = [])" for p v a1 a2 a3 a4 a5 b1 b2
      using port_schema_eq [of "nd_input_schema d" p] pres
      by (simp split: option.split list.split)
    then show ?thesis by (auto simp: literal_diagnostics_def split_beta)
  qed
  have req: "clean (required_diagnostics ?c g d n) \<longleftrightarrow> (\<forall>k\<in>set (required_of (nd_input_schema d)). key_sources ?c g n k = 1)"
    using reqk by (auto simp: required_diagnostics_def) (fastforce simp: not_less)+
  have opt: "clean (optional_diagnostics ?c g d n) \<longleftrightarrow> (\<forall>k\<in>set (dkeys (properties_of (nd_input_schema d))).
      k \<notin> set (required_of (nd_input_schema d)) \<longrightarrow> key_sources ?c g n k \<le> 1)"
    using keys by (auto simp: optional_diagnostics_def) (fastforce simp: not_less)+
  have loop: "clean (loop_diagnostics cx n) \<longleftrightarrow> (n_type_id n = for_each \<longrightarrow> (\<exists>k. loop_bound n = Some k \<and> k \<le> cx_max_loop_iterations cx))"
    by (auto simp: loop_diagnostics_def split: option.split)
  have unused: "clean (unused_diagnostics ?c g d n)"
    using outk by (fastforce simp: unused_diagnostics_def port_key_Some)
  have fedR: "(\<forall>k\<in>set (required_of (nd_input_schema d)). key_sources ?c g n k = 1)
      \<longleftrightarrow> (\<forall>p. ustr p \<in> set (required_of (nd_input_schema d)) \<longrightarrow> fed g n p = 1)"
    using kf reqk by (metis ustr_inj)
  have fedO: "(\<forall>k\<in>set (dkeys (properties_of (nd_input_schema d))). key_sources ?c g n k \<le> 1)
      \<longleftrightarrow> (\<forall>p. has_port (nd_input_schema d) p \<longrightarrow> fed g n p \<le> 1)"
    using kf keys unfolding has_port_def by (metis ustr_inj)
  have "(\<forall>k\<in>set (required_of (nd_input_schema d)). key_sources ?c g n k = 1) \<and>
      (\<forall>k\<in>set (dkeys (properties_of (nd_input_schema d))). k \<notin> set (required_of (nd_input_schema d)) \<longrightarrow> key_sources ?c g n k \<le> 1)
    \<longleftrightarrow> (\<forall>k\<in>set (required_of (nd_input_schema d)). key_sources ?c g n k = 1) \<and>
      (\<forall>k\<in>set (dkeys (properties_of (nd_input_schema d))). key_sources ?c g n k \<le> 1)"
    by (metis order_refl)
  moreover have "node_diagnostics lit cx g n = both (literal_diagnostics lit d n) (both (required_diagnostics ?c g d n)
       (both (optional_diagnostics ?c g d n) (both (loop_diagnostics cx n) (unused_diagnostics ?c g d n))))"
    by (simp add: node_diagnostics_def Let_def at)
  ultimately have "clean (node_diagnostics lit cx g n) \<longleftrightarrow>
      (\<forall>(p, v)\<in>set (n_inputs n). \<exists>s. map_of (properties_of (nd_input_schema d)) (ustr p) = Some s \<and> lit s v = [])
      \<and> (\<forall>p. ustr p \<in> set (required_of (nd_input_schema d)) \<longrightarrow> fed g n p = 1)
      \<and> (\<forall>p. has_port (nd_input_schema d) p \<longrightarrow> fed g n p \<le> 1)
      \<and> (n_type_id n = for_each \<longrightarrow> (\<exists>k. loop_bound n = Some k \<and> k \<le> cx_max_loop_iterations cx))"
    by (simp only: clean_simps lit req opt loop unused fedR fedO simp_thms) (use fedR fedO in blast)
  then show ?thesis using d unfolding node_typed_def by auto
qed

lemma cycle_clean:
  assumes "distinct (map n_id (g_nodes g))" and "\<forall>e\<in>set (g_edges g). e_source e \<in> n_id ` set (g_nodes g) \<and> e_target e \<in> n_id ` set (g_nodes g)"
  shows "clean (cycle_diagnostics g) \<longleftrightarrow> acyclic (edge_rel (g_edges g))"
proof -
  have es: "set (endpoint_edges g) = set (g_edges g)"
    using assms(2) by (force simp: endpoint_edges_def image_iff [symmetric])
  then have rel: "edge_rel (endpoint_edges g) = edge_rel (g_edges g)" by (simp add: edge_rel_def)
  have "\<forall>e\<in>set (endpoint_edges g). e_source e \<in> set (dkeys (node_dict (g_nodes g))) \<and> e_target e \<in> set (dkeys (node_dict (g_nodes g)))"
    by (simp add: endpoint_edges_def)
  from layers_spec [OF wf_node_dict this] show ?thesis
    using length_node_dict [of "g_nodes g"] assms(1) unfolding rel
    by (auto simp: cycle_diagnostics_def split: sum.splits)
qed

lemma clean_sorted: "clean (rbind r (\<lambda>ds. Inr (sort_key diag_key ds))) \<longleftrightarrow> clean r"
  by (cases r) (simp_all add: clean_def list_all_iff)

lemma validate_graph_exact:
  assumes "presentable_catalogue (cx_catalogue cx)"
  shows "clean (validate_graph lit g cx) \<longleftrightarrow> well_typed lit cx g"
proof (cases "resolved (cx_catalogue cx) g")
  case True
  note r = True and edge = edge_clean [OF True assms] and bind = bindings_clean [OF True]
  show ?thesis
  proof (cases "(\<forall>e\<in>set (g_edges g). edge_typed cx g e)
      \<and> (\<forall>(_, b)\<in>set (g_inputs g). binding_typed (cx_catalogue cx) g nd_input_schema b)")
    case True
    then have e: "\<forall>e\<in>set (g_edges g). edge_typed cx g e"
      and b: "\<forall>(_, b)\<in>set (g_inputs g). binding_typed (cx_catalogue cx) g nd_input_schema b" by blast+
    have cyc: "clean (cycle_diagnostics g) \<longleftrightarrow> acyclic (edge_rel (g_edges g))"
      using e edge_typed_ends r by (intro cycle_clean) (auto simp: resolved_def)
    have "(\<forall>x\<in>set (sorted_edges g). clean (edge_diagnostics cx g x)) \<longleftrightarrow> (\<forall>e\<in>snd ` set (sorted_edges g). edge_typed cx g e)"
      using edge by (metis image_iff prod.collapse snd_conv)
    then show ?thesis using r e b node_clean [OF r assms e b]
      by (simp add: validate_graph_def Let_def clean_sorted duplicates_clean unknown_clean bind cyc well_typed_def resolved_def) auto
  next
    case False
    have "(\<forall>x\<in>set (sorted_edges g). clean (edge_diagnostics cx g x)) \<Longrightarrow> (\<forall>e\<in>snd ` set (sorted_edges g). edge_typed cx g e)"
      using edge by (metis image_iff prod.collapse snd_conv)
    with False show ?thesis
      by (auto simp add: validate_graph_def Let_def clean_sorted bind well_typed_def)
  qed
next
  case False
  then show ?thesis
    by (auto simp: validate_graph_def Let_def clean_sorted duplicates_clean unknown_clean resolved_def well_typed_def node_typed_def)
qed

section \<open>Validation returns\<close>

lemma isl_port_diagnostic: "isl (port_diagnostic k f) \<Longrightarrow> port_key k \<noteq> None \<Longrightarrow> \<exists>p. port_name p \<and> isl (f p)"
  by (auto simp: port_diagnostic_def port_key_Some port_key_ustr)

lemma definitions_presentable:
  assumes "presentable_catalogue c" and "map_of (definitions c g) i = Some d"
  shows "presentable (nd_input_schema d)" and "presentable (nd_output_schema d)"
proof -
  have "\<exists>n. definition_of c n = Some d"
  proof -
    have "map_of (fold (\<lambda>n t. case definition_of c n of None \<Rightarrow> t | Some x \<Rightarrow> AList.update (n_id n) x t) ns t) i = Some d \<Longrightarrow>
        (\<exists>n. definition_of c n = Some d) \<or> map_of t i = Some d" for ns t
    proof (induction ns arbitrary: t)
      case (Cons n ns)
      then show ?case by (cases "definition_of c n") (fastforce simp: map_of_update split: if_splits)+
    qed simp
    from this [of "sorted_nodes g" "[]"] assms(2) show ?thesis by (simp add: definitions_def node_table_def)
  qed
  then show "presentable (nd_input_schema d)" "presentable (nd_output_schema d)"
    using presentable_definitions [OF assms(1)] by blast+
qed

lemma presentable_keys:
  "presentable ms \<Longrightarrow> k \<in> set (dkeys (properties_of ms)) \<Longrightarrow> port_key k \<noteq> None"
  "presentable ms \<Longrightarrow> k \<in> set (required_of ms) \<Longrightarrow> port_key k \<noteq> None"
proof -
  show "presentable ms \<Longrightarrow> k \<in> set (dkeys (properties_of ms)) \<Longrightarrow> port_key k \<noteq> None" for k
    by (auto simp: presentable_def list_all_iff)
  then show "presentable ms \<Longrightarrow> k \<in> set (required_of ms) \<Longrightarrow> port_key k \<noteq> None"
    unfolding presentable_def by blast
qed

lemma edge_schemas_objects:
  assumes "presentable_catalogue c" and "edge_schemas c g e = Some (s, t)"
  shows "s = Some x \<Longrightarrow> is_object x" and "t = Some x \<Longrightarrow> is_object x"
proof -
  from assms(2) obtain dm dn where d: "map_of (definitions c g) (e_source e) = Some dm" "map_of (definitions c g) (e_target e) = Some dn"
    and st: "s = port_schema (nd_output_schema dm) (e_source_port e)" "t = port_schema (nd_input_schema dn) (e_target_port e)"
    by (auto simp: edge_schemas_def split: option.splits)
  show "s = Some x \<Longrightarrow> is_object x"
    using port_schema_presentable(3) [OF definitions_presentable(2) [OF assms(1) d(1)]] st(1) by metis
  show "t = Some x \<Longrightarrow> is_object x"
    using port_schema_presentable(3) [OF definitions_presentable(1) [OF assms(1) d(2)]] st(2) by metis
qed

lemma edge_ok:
  assumes "presentable_catalogue (cx_catalogue cx)" and "valid_edge e"
  shows "is_ok (edge_diagnostics cx g (i, e))"
  using assms(2) edge_schemas_objects [OF assms(1)]
  by (auto simp: edge_diagnostics_def Let_def valid_edge_def edge_types_ok split: option.split)

lemma bindings_ok: "valid_bindings bs \<Longrightarrow> is_ok (binding_diagnostics kind c g schema bs)"
  by (auto simp: binding_diagnostics_def valid_bindings_def list_all_iff)

lemma node_ok:
  assumes "presentable_catalogue (cx_catalogue cx)" and "valid_node n"
  shows "is_ok (node_diagnostics lit cx g n)"
proof (cases "map_of (definitions (cx_catalogue cx) g) (n_id n)")
  case (Some d)
  note p = definitions_presentable [OF assms(1) Some]
  have "is_ok (literal_diagnostics lit d n)"
    using assms(2) by (auto simp: literal_diagnostics_def valid_node_def list_all_iff split: option.split list.split)
  moreover have "is_ok (required_diagnostics (cx_catalogue cx) g d n)"
    using presentable_keys(2) [OF p(1)] by (auto simp: required_diagnostics_def dest!: isl_port_diagnostic)
  moreover have "is_ok (optional_diagnostics (cx_catalogue cx) g d n)"
    using presentable_keys(1) [OF p(1)] by (auto simp: optional_diagnostics_def dest!: isl_port_diagnostic)
  moreover have "is_ok (loop_diagnostics cx n)" by (auto simp: loop_diagnostics_def split: option.split)
  moreover have "is_ok (unused_diagnostics (cx_catalogue cx) g d n)"
    using presentable_keys(1) [OF p(2)] by (auto simp: unused_diagnostics_def dest!: isl_port_diagnostic)
  ultimately show ?thesis by (simp add: node_diagnostics_def Let_def Some)
qed (simp add: node_diagnostics_def Let_def)

lemma cycle_ok: "is_ok (cycle_diagnostics g)"
proof -
  have "\<forall>e\<in>set (endpoint_edges g). e_source e \<in> set (dkeys (node_dict (g_nodes g))) \<and> e_target e \<in> set (dkeys (node_dict (g_nodes g)))"
    by (simp add: endpoint_edges_def)
  from layers_spec [OF wf_node_dict this] show ?thesis
    by (auto simp: cycle_diagnostics_def cycle_text_def split: sum.splits)
qed

lemma validate_graph_returns:
  assumes "presentable_catalogue (cx_catalogue cx)" and "valid_graph g"
  shows "\<exists>ds. validate_graph lit g cx = Inr ds \<and> sorted (map diag_key ds)"
proof -
  have e: "\<forall>x\<in>set (sorted_edges g). is_ok (edge_diagnostics cx g x)"
  proof
    fix x assume "x \<in> set (sorted_edges g)"
    then have "snd x \<in> set (g_edges g)" by (metis imageI set_sorted_edges)
    with assms(2) have "valid_edge (snd x)" by (simp add: valid_graph_def list_all_iff)
    from edge_ok [OF assms(1) this, of g "fst x"] show "is_ok (edge_diagnostics cx g x)" by simp
  qed
  have n: "\<forall>n\<in>set (sorted_nodes g). is_ok (node_diagnostics lit cx g n)"
    using assms(2) node_ok [OF assms(1)] unfolding valid_graph_def list_all_iff set_sorted_nodes by blast
  have "is_ok (duplicate_ids [] (g_nodes g))" "is_ok (unknown_definitions (cx_catalogue cx) g)"
    by (auto simp: duplicate_ids_def unknown_definitions_def)
  with e n cycle_ok assms(2) have "is_ok (both (duplicate_ids [] (g_nodes g)) (both (unknown_definitions (cx_catalogue cx) g)
       (both (collect (edge_diagnostics cx g) (sorted_edges g))
       (both (binding_diagnostics ''input'' (cx_catalogue cx) g nd_input_schema (g_inputs g))
       (both (binding_diagnostics ''output'' (cx_catalogue cx) g nd_output_schema (g_outputs g))
       (both (collect (node_diagnostics lit cx g) (sorted_nodes g)) (cycle_diagnostics g)))))))"
    by (simp add: valid_graph_def bindings_ok)
  then obtain ds where "both (duplicate_ids [] (g_nodes g)) (both (unknown_definitions (cx_catalogue cx) g)
       (both (collect (edge_diagnostics cx g) (sorted_edges g))
       (both (binding_diagnostics ''input'' (cx_catalogue cx) g nd_input_schema (g_inputs g))
       (both (binding_diagnostics ''output'' (cx_catalogue cx) g nd_output_schema (g_outputs g))
       (both (collect (node_diagnostics lit cx g) (sorted_nodes g)) (cycle_diagnostics g)))))) = Inr ds"
    unfolding isl_def by (metis sum.exhaust)
  then show ?thesis by (simp add: validate_graph_def Let_def)
qed

text \<open>C3. Validation decides well-typedness. Over a catalogue whose property names are port names and
  whose property schemas are objects, validating a graph always returns a sorted list of
  diagnostics, and none of them is an error exactly when the graph is well typed: its nodes are
  distinct and known, every edge joins existing ports of compatible types, every required input is
  fed exactly once and every other at most once, literals satisfy their schemas, loops are bounded,
  the graph's own inputs and outputs name existing ports, and there is no cycle.\<close>

theorem validation_decides_typing:
  assumes "presentable_catalogue (cx_catalogue cx)" and "valid_graph g"
  shows "\<exists>ds. validate_graph lit g cx = Inr ds \<and> sorted (map diag_key ds)
    \<and> ((\<forall>d\<in>set ds. dg_severity d \<noteq> ''error'') \<longleftrightarrow> well_typed lit cx g)"
proof -
  obtain ds where ds: "validate_graph lit g cx = Inr ds" "sorted (map diag_key ds)"
    using validate_graph_returns [OF assms] by blast
  then have "(\<forall>d\<in>set ds. dg_severity d \<noteq> ''error'') \<longleftrightarrow> clean (validate_graph lit g cx)"
    by (simp add: clean_def list_all_iff)
  with validate_graph_exact [OF assms(1), of lit g]
  have "(\<forall>d\<in>set ds. dg_severity d \<noteq> ''error'') \<longleftrightarrow> well_typed lit cx g" by (simp only:)
  with ds show ?thesis by blast
qed

definition sample_context :: validation_context where
  "sample_context = \<lparr>cx_catalogue = sample_catalogue, cx_registry = [((''NG_IMAGE'', 1),
     \<lparr>pt_ref = \<lparr>tr_name = ''NG_IMAGE'', tr_version = 1\<rparr>, pt_schema = JNull, pt_serialization = JSON, pt_transfer = INLINE\<rparr>)],
     cx_subgraphs = [], cx_max_loop_iterations = 8\<rparr>"

text \<open>Two blurs in a row, the first fed from outside.\<close>

definition sample_pipeline :: graph where
  "sample_pipeline = (let blur = (\<lambda>i. \<lparr>n_id = i, n_type_id = ''ng.image.blur'', n_type_version = ''1.0.0'', n_inputs = [], n_metadata = []\<rparr>) in
     \<lparr>g_id = 9, g_version = 1, g_nodes = [blur 1, blur 2],
      g_edges = [\<lparr>e_source = 1, e_source_port = ''image'', e_target = 2, e_target_port = ''image''\<rparr>],
      g_inputs = [(''picture'', \<lparr>b_node = 1, b_port = ''image''\<rparr>)], g_outputs = [(''result'', \<lparr>b_node = 2, b_port = ''image''\<rparr>)]\<rparr>)"

lemma sample_presentable: "presentable_catalogue sample_catalogue"
proof -
  have "good_catalogue sample_catalogue"
    using discover_sound(1) [OF sample_discover] by (simp add: sound_catalogue_def)
  moreover have "presentable sample_schema"
    by code_simp
  ultimately show ?thesis
    by (simp add: presentable_catalogue_def) (simp add: sample_catalogue_def sample_manifest_def Let_def)
qed

lemma sample_definition:
  "n_type_id n = ''ng.image.blur'' \<Longrightarrow> n_type_version n = ''1.0.0'' \<Longrightarrow>
   definition_of sample_catalogue n = Some (hd (mf_nodes sample_manifest))"
  by (simp add: definition_of_def get_def sample_catalogue_def Let_def)

lemma sample_valid: "valid_graph sample_pipeline"
  by code_simp

lemma sample_well_typed: "well_typed (\<lambda>_ _. []) sample_context sample_pipeline"
proof -
  let ?d = "hd (mf_nodes sample_manifest)"
  have props: "properties_of sample_schema = [(ustr ''image'', JObj [(type_key, JStr (ustr ''NG_IMAGE@1''))])]"
    "required_of sample_schema = [ustr ''image'']" by code_simp+
  have d: "nd_input_schema ?d = sample_schema" "nd_output_schema ?d = sample_schema" by (simp_all add: sample_manifest_def)
  have parse: "parse_port_type (JStr (ustr ''NG_IMAGE@1'')) = Inr \<lparr>tr_name = ''NG_IMAGE'', tr_version = 1\<rparr>" by code_simp
  have comp: "compatible (cx_registry sample_context) (JObj [(type_key, JStr (ustr ''NG_IMAGE@1''))]) (JObj [(type_key, JStr (ustr ''NG_IMAGE@1''))])"
    by (simp add: compatible_def type_ref_of_def json_get_def type_key_def parse known_ref_def sample_context_def)
  have at: "typed_at sample_catalogue sample_pipeline 1 ?d" "typed_at sample_catalogue sample_pipeline 2 ?d"
    by (simp_all add: typed_at_def sample_pipeline_def Let_def sample_definition)
  have edge: "edge_typed sample_context sample_pipeline e" if "e \<in> set (g_edges sample_pipeline)" for e
    using that at comp unfolding edge_typed_def
    by (intro exI [of _ ?d] exI [of _ "JObj [(type_key, JStr (ustr ''NG_IMAGE@1''))]"])
      (simp add: sample_pipeline_def sample_context_def Let_def d props)
  have "has_port sample_schema p \<longleftrightarrow> p = ''image''" for p by (simp add: has_port_def props)
  then have node: "node_typed (\<lambda>_ _. []) sample_context sample_pipeline n" if "n \<in> set (g_nodes sample_pipeline)" for n
  proof -
    have t: "n_type_id n = ''ng.image.blur''" "n_type_version n = ''1.0.0''" "n_inputs n = []" and id: "n_id n = 1 \<or> n_id n = 2"
      using that by (auto simp: sample_pipeline_def Let_def)
    have "fed sample_pipeline n ''image'' = 1"
      using id t(3) by (auto simp: fed_def sample_pipeline_def Let_def)
    moreover have "ustr p = ustr ''image'' \<longleftrightarrow> p = ''image''" for p by (rule ustr_inj)
    moreover have "n_type_id n \<noteq> for_each" by (simp add: t for_each_def)
    moreover have "cx_catalogue sample_context = sample_catalogue" by (simp add: sample_context_def)
    ultimately show ?thesis using \<open>\<And>p. has_port sample_schema p \<longleftrightarrow> p = ''image''\<close> sample_definition [OF t(1,2)]
      unfolding node_typed_def by (intro exI [of _ ?d]) (simp add: t d props del: ustr_inj)
  qed
  have rel: "edge_rel (g_edges sample_pipeline) = {(1, 2)}" by (simp add: edge_rel_def sample_pipeline_def Let_def)
  have bind: "binding_typed sample_catalogue sample_pipeline nd_input_schema \<lparr>b_node = 1, b_port = ''image''\<rparr>"
    "binding_typed sample_catalogue sample_pipeline nd_output_schema \<lparr>b_node = 2, b_port = ''image''\<rparr>"
    using at by (auto simp: binding_typed_def has_port_def d props)
  have parts: "map n_id (g_nodes sample_pipeline) = [1, 2]" "g_inputs sample_pipeline = [(''picture'', \<lparr>b_node = 1, b_port = ''image''\<rparr>)]"
    "g_outputs sample_pipeline = [(''result'', \<lparr>b_node = 2, b_port = ''image''\<rparr>)]" "cx_catalogue sample_context = sample_catalogue"
    by (simp_all add: sample_pipeline_def Let_def sample_context_def)
  have "acyclic {(1 :: uuid, 2)}" by (simp add: acyclic_insert) (simp add: acyclic_def)
  then show ?thesis using edge node bind unfolding well_typed_def rel parts by auto
qed

lemma validation_decides_typing_witness:
  "\<exists>ds. validate_graph (\<lambda>_ _. []) sample_pipeline sample_context = Inr ds \<and> (\<forall>d\<in>set ds. dg_severity d \<noteq> ''error'')"
proof -
  have "presentable_catalogue (cx_catalogue sample_context)" by (simp add: sample_context_def sample_presentable)
  from validation_decides_typing [OF this sample_valid] sample_well_typed show ?thesis by blast
qed

text \<open>Where a property schema is \<open>true\<close>, which JSON Schema allows, an edge to it raises.\<close>

lemma boolean_schema_raises: "edge_type_diagnostics e i (JBool True) target R = Inl NotAMapping"
  by (simp add: edge_type_diagnostics_def schema_members_def)

end
