(* ===== verification/Plans.thy ===== *)
theory Plans
  imports Validation
begin

text \<open>
  graph/cache.py and the contracts of graph/compiler.py: cache keys, the annotations of a step, and
  the checks by which an execution plan refuses to be inconsistent.

  A value that is hashed is the JSON tree of \<open>_canonical_value\<close>. \<open>json.dumps\<close>, the UTF-8 encoding and
  SHA-256 are the parameter \<open>hash\<close> from such a tree to a text; nothing is assumed of it but that it
  gives 64 hexadecimal digits. A contract is hashed as the object of its fields, which \<open>to_builtins\<close>
  gives: an enum as its value, a tuple as an array.
\<close>

type_synonym hash = "json \<Rightarrow> string"

datatype compile_error = GraphCompilationError "diagnostic list" | CompileValue graph_error
  | CompileKey uuid | CompileValidation validation_error | CompileTopology topo_error
  | CompileCatalogue catalogue_error | CompileExpansion expand_error

section \<open>Cache keys\<close>

fun canonical_value :: "json \<Rightarrow> json" where
  "canonical_value (JObj ms) = JObj (sort_key fst (map (\<lambda>m. (fst m, canonical_value (snd m))) ms))"
| "canonical_value (JArr js) = JArr (map canonical_value js)"
| "canonical_value j = j"

definition content_cache_key :: "hash \<Rightarrow> json \<Rightarrow> string" where
  "content_cache_key H j = H (canonical_value j)"

definition jstr :: "string \<Rightarrow> json" where
  "jstr s = JStr (ustr s)"

definition jopt :: "('a \<Rightarrow> json) \<Rightarrow> 'a option \<Rightarrow> json" where
  "jopt f v = (case v of None \<Rightarrow> JNull | Some x \<Rightarrow> f x)"

definition jfields :: "(string \<times> json) list \<Rightarrow> json" where
  "jfields fs = JObj (map (\<lambda>(k, v). (ustr k, v)) fs)"

definition node_cache_key :: "hash \<Rightarrow> node \<Rightarrow> (string, json) dict \<Rightarrow> int \<Rightarrow> graph_error + string" where
  "node_cache_key H n upstream version = rbind (require (0 < version) ''cache_key_version must be a positive integer'') (\<lambda>_.
     Inr (content_cache_key H (jfields [(''cache_key_version'', JInt version), (''node_type'', jstr (n_type_id n)),
       (''node_version'', jstr (n_type_version n)), (''inputs'', jfields (n_inputs n)),
       (''metadata'', JObj (n_metadata n)), (''upstream'', jfields upstream)])))"

section \<open>Annotations\<close>

definition need :: "bool \<Rightarrow> string \<Rightarrow> compile_error + unit" where
  "need b msg = guard_or b (CompileValue (GValue msg))"

abbreviation valid_id :: "id_error + 'a \<Rightarrow> compile_error + unit" where
  "valid_id r \<equiv> map_sum CompileValue id (ident r)"

record resource_annotation =
  ra_gpu :: string
  ra_ram_mb :: int
  ra_vram_mb :: int
  ra_network :: bool

definition resource_annotation_post_init :: "resource_annotation \<Rightarrow> compile_error + resource_annotation" where
  "resource_annotation_post_init r = rbind (checks
     [need (ra_gpu r \<in> {''none'', ''optional'', ''required''}) ''gpu must be none, optional or required'',
      need (0 \<le> ra_ram_mb r) ''estimated_ram_mb must be non-negative'',
      need (0 \<le> ra_vram_mb r) ''estimated_vram_mb must be non-negative'']) (\<lambda>_. Inr r)"

record control_annotation =
  ca_kind :: string
  ca_max_iterations :: "int option"
  ca_selected_branch :: "string option"
  ca_branches :: "string list"

definition non_negative :: "int option \<Rightarrow> bool" where
  "non_negative v = (case v of None \<Rightarrow> True | Some i \<Rightarrow> 0 \<le> i)"

definition control_annotation_post_init :: "control_annotation \<Rightarrow> compile_error + control_annotation" where
  "control_annotation_post_init a = rbind (checks
     [need (ca_kind a \<in> {''loop'', ''condition''}) ''control kind must be loop or condition'',
      need (non_negative (ca_max_iterations a)) ''max_iterations must be non-negative'',
      need (case ca_selected_branch a of None \<Rightarrow> True | Some b \<Rightarrow> b \<in> set (ca_branches a)) ''selected_branch must be one of branches'']) (\<lambda>_. Inr a)"

section \<open>Control regions\<close>

record control_branch =
  cb_name :: string
  cb_source_port :: string
  cb_members :: "uuid list"
  cb_entries :: "uuid list"
  cb_exits :: "uuid list"

definition control_branch_post_init :: "control_branch \<Rightarrow> compile_error + control_branch" where
  "control_branch_post_init b = rbind (checks
     [valid_id (validate_port_name ''branch name'' (cb_name b)), valid_id (validate_port_name ''branch source port'' (cb_source_port b)),
      need (distinct (cb_members b)) ''member_step_ids must contain unique values'',
      need (distinct (cb_entries b)) ''entry_step_ids must contain unique values'',
      need (distinct (cb_exits b)) ''exit_step_ids must contain unique values'',
      need (set (cb_entries b) \<subseteq> set (cb_members b)) ''branch entry_step_ids must be branch members'',
      need (set (cb_exits b) \<subseteq> set (cb_members b)) ''branch exit_step_ids must be branch members'',
      need (cb_members b = [] \<or> cb_entries b \<noteq> [] \<and> cb_exits b \<noteq> []) ''non-empty branches require entry and exit steps'']) (\<lambda>_. Inr b)"

record control_region =
  cr_kind :: string
  cr_controller :: uuid
  cr_parent :: "uuid option"
  cr_depth :: int
  cr_branches :: "control_branch list"
  cr_iterable :: "uuid list"
  cr_body :: "uuid list"
  cr_boundary :: "uuid list"
  cr_max_iterations :: "int option"

fun disjoint_branches :: "uuid set \<Rightarrow> control_branch list \<Rightarrow> bool" where
  "disjoint_branches seen [] = True"
| "disjoint_branches seen (b # bs) = (seen \<inter> set (cb_members b) = {} \<and> disjoint_branches (seen \<union> set (cb_members b)) bs)"

definition control_region_post_init :: "control_region \<Rightarrow> compile_error + control_region" where
  "control_region_post_init r = rbind (checks
    ([need (cr_kind r \<in> {''condition'', ''loop''}) ''control region kind must be condition or loop'',
      need (cr_parent r \<noteq> Some (cr_controller r)) ''a control region cannot be its own parent'',
      need (0 \<le> cr_depth r) ''nesting_depth must be non-negative'',
      need ((cr_parent r = None) = (cr_depth r = 0)) ''only root control regions may have depth zero'',
      need (distinct (cr_iterable r)) ''iterable_step_ids must contain unique values'',
      need (distinct (cr_body r)) ''body_step_ids must contain unique values'',
      need (distinct (cr_boundary r)) ''boundary_step_ids must contain unique values'',
      need (cr_controller r \<notin> set (cr_iterable r) \<union> set (cr_body r) \<union> set (cr_boundary r)) ''controller step cannot be a region member'']
     @ (if cr_kind r = ''condition'' then
         [need (2 \<le> length (cr_branches r)) ''condition regions require at least two branches'',
          need (distinct (map cb_name (cr_branches r))) ''condition branch names must be unique'',
          need (disjoint_branches {} (cr_branches r)) ''condition branch members must be disjoint'',
          need (cr_iterable r = [] \<and> cr_body r = [] \<and> cr_boundary r = [] \<and> cr_max_iterations r = None)
            ''condition regions cannot define loop fields'']
        else
         [need (cr_branches r = []) ''loop regions cannot define branches'',
          need (cr_max_iterations r \<noteq> None \<and> non_negative (cr_max_iterations r)) ''loop regions require a non-negative max_iterations'',
          need (set (cr_iterable r) \<inter> set (cr_body r) = {}) ''loop iterable and body steps must be disjoint'',
          need (set (cr_body r) \<inter> set (cr_boundary r) = {}) ''loop body and boundary steps must be disjoint'']))) (\<lambda>_. Inr r)"

section \<open>Fusion evidence\<close>

record fusion_evidence =
  fe_kind :: string
  fe_members :: "uuid list"
  fe_links :: "edge list"
  fe_package_id :: string
  fe_package_version :: string
  fe_entrypoint :: string
  fe_isolation :: string
  fe_resource_fingerprint :: string
  fe_schema_fingerprints :: "string list"
  fe_pure :: bool
  fe_deterministic :: bool
  fe_one_to_one :: bool
  fe_control_free :: bool

fun links_follow :: "uuid list \<Rightarrow> edge list \<Rightarrow> bool" where
  "links_follow (a # b # ms) (e # es) = (e_source e = a \<and> e_target e = b \<and> links_follow (b # ms) es)"
| "links_follow ms es = (es = [])"

definition fusion_post_init :: "fusion_evidence \<Rightarrow> compile_error + fusion_evidence" where
  "fusion_post_init f = rbind (checks
    ([valid_id (validate_port_name ''fusion kind'' (fe_kind f)),
      need (2 \<le> length (fe_members f)) ''fusion must contain at least two nodes'',
      need (distinct (fe_members f)) ''fusion member_node_ids must be unique'',
      need (length (fe_links f) = length (fe_members f) - 1) ''fusion links must connect every adjacent member'',
      need (links_follow (fe_members f) (fe_links f)) ''fusion links must follow member_node_ids'',
      valid_id (validate_package_id (fe_package_id f)), valid_id (validate_semver ''fusion package_version'' (fe_package_version f)),
      need (fe_entrypoint f \<noteq> [] \<and> CHR '':'' \<in> set (fe_entrypoint f)) ''fusion runtime_entrypoint must be an entrypoint'',
      need (fe_isolation f \<in> snd ` set isolations) ''fusion runtime_isolation is invalid'',
      valid_id (validate_sha256 (fe_resource_fingerprint f)),
      need (length (fe_schema_fingerprints f) = length (fe_links f)) ''fusion requires one schema fingerprint per link'']
     @ map (\<lambda>s. valid_id (validate_sha256 s)) (fe_schema_fingerprints f)
     @ [need (fe_pure f \<and> fe_deterministic f \<and> fe_one_to_one f \<and> fe_control_free f) ''fusion safety evidence must be affirmative''])) (\<lambda>_. Inr f)"

section \<open>Steps and groups\<close>

record execution_step =
  st_index :: int
  st_group :: int
  st_node :: uuid
  st_type_id :: string
  st_type_version :: string
  st_inputs :: "(string, json) dict"
  st_metadata :: "(ustr, json) dict"
  st_incoming :: "edge list"
  st_dependencies :: "uuid list"
  st_dependents :: "uuid list"
  st_cache_key :: string
  st_is_constant :: bool
  st_cacheable :: bool
  st_critical_length :: int
  st_on_critical_path :: bool
  st_resources :: resource_annotation
  st_control :: "control_annotation option"
  st_members :: "uuid list"
  st_fusion :: "fusion_evidence option"

text \<open>The constructor puts the node itself for an empty list of members.\<close>

definition step_post_init :: "execution_step \<Rightarrow> compile_error + execution_step" where
  "step_post_init s = (let members = (if st_members s = [] then [st_node s] else st_members s) in rbind (checks
     [need (0 \<le> st_index s) ''index must be non-negative'', need (0 \<le> st_group s) ''group_index must be non-negative'',
      valid_id (validate_node_id (st_type_id s)), valid_id (validate_semver ''node_type_version'' (st_type_version s)),
      need (distinct (st_incoming s)) ''incoming_edges must be unique'',
      need (distinct (st_dependencies s)) ''dependencies must contain unique values'',
      need (st_node s \<notin> set (st_dependencies s)) ''dependencies cannot contain the step itself'',
      need (distinct (st_dependents s)) ''dependents must contain unique values'',
      need (st_node s \<notin> set (st_dependents s)) ''dependents cannot contain the step itself'',
      valid_id (validate_sha256 (st_cache_key s)), need (0 < st_critical_length s) ''critical_path_length must be positive'',
      need (distinct members) ''member_node_ids must be unique'',
      need (hd members = st_node s) ''node_id must be the first member_node_id'',
      need (set members \<inter> set (st_dependencies s) = {}) ''dependencies cannot contain fused member nodes'',
      need (set members \<inter> set (st_dependents s) = {}) ''dependents cannot contain fused member nodes'',
      need (list_all (\<lambda>e. e_target e \<in> set members) (st_incoming s)) ''incoming_edges must target a step member'',
      need (list_all (\<lambda>e. e_source e \<notin> set members) (st_incoming s)) ''incoming_edges cannot contain internal fused links'',
      (case st_fusion s of None \<Rightarrow> need (length members = 1) ''multi-node steps require fusion evidence''
       | Some f \<Rightarrow> need (fe_members f = members) ''fusion members must match step members''),
      need (\<not> (st_control s \<noteq> None \<and> st_fusion s \<noteq> None)) ''control steps cannot be fused'']) (\<lambda>_. Inr (s\<lparr>st_members := members\<rparr>)))"

record execution_group =
  gr_index :: int
  gr_steps :: "execution_step list"
  gr_dependencies :: "int list"
  gr_resources :: resource_annotation
  gr_critical_length :: int

definition group_post_init :: "execution_group \<Rightarrow> compile_error + execution_group" where
  "group_post_init g = rbind (checks
     [need (0 \<le> gr_index g) ''index must be non-negative'',
      need (gr_steps g \<noteq> []) ''execution groups must contain at least one step'',
      need (list_all (\<lambda>s. st_group s = gr_index g) (gr_steps g)) ''step group_index must match its execution group'',
      need (distinct (concat (map st_members (gr_steps g)))) ''execution group steps must have unique members'',
      need (list_all (\<lambda>d. 0 \<le> d) (gr_dependencies g)) ''dependency_groups must be non-negative integers'',
      need (distinct (gr_dependencies g)) ''dependency_groups must be unique'',
      need (sorted (gr_dependencies g)) ''dependency_groups must be sorted'',
      need (list_all (\<lambda>d. d < gr_index g) (gr_dependencies g)) ''dependency_groups must precede the current group'',
      need (0 < gr_critical_length g) ''critical_path_length must be positive'']) (\<lambda>_. Inr g)"

definition parallel :: "execution_group \<Rightarrow> bool" where
  "parallel g = (1 < length (gr_steps g))"

section \<open>Execution plans\<close>

record execution_plan =
  pl_graph_id :: uuid
  pl_graph_version :: int
  pl_cache_key :: string
  pl_graph :: graph
  pl_steps :: "execution_step list"
  pl_groups :: "execution_group list"
  pl_order :: "uuid list"
  pl_critical_path :: "uuid list"
  pl_peak :: resource_annotation
  pl_diagnostics :: "diagnostic list"
  pl_outputs :: "(string, port_binding) dict"
  pl_fusions :: "fusion_evidence list"
  pl_regions :: "control_region list"
  pl_traces :: "trace list"

definition key_or :: "('a, 'b) dict \<Rightarrow> ('a \<Rightarrow> uuid) \<Rightarrow> 'a \<Rightarrow> compile_error + 'b" where
  "key_or d name k = (case map_of d k of None \<Rightarrow> Inl (CompileKey (name k)) | Some v \<Rightarrow> Inr v)"

abbreviation item_of :: "(uuid, 'b) dict \<Rightarrow> uuid \<Rightarrow> compile_error + 'b" where
  "item_of d k \<equiv> key_or d (\<lambda>i. i) k"

definition indexes :: "uuid list \<Rightarrow> (uuid, nat) dict" where
  "indexes order = zip order [0..<length order]"

definition order_checks :: "execution_plan \<Rightarrow> (compile_error + unit) list" where
  "order_checks p = (let ids = set (map n_id (g_nodes (pl_graph p))); ix = indexes (pl_order p) in
     [need (0 < pl_graph_version p) ''graph_version must be positive'', valid_id (validate_sha256 (pl_cache_key p)),
      need (pl_graph_id p = g_id (pl_graph p)) ''graph_id must match expanded_graph'',
      need (pl_graph_version p = g_version (pl_graph p)) ''graph_version must match expanded_graph'',
      need (distinct (pl_order p) \<and> set (pl_order p) = ids) ''topological_order must contain every expanded graph node exactly once'']
     @ map (\<lambda>e. rbind (item_of ix (e_source e)) (\<lambda>i. rbind (item_of ix (e_target e)) (\<lambda>j.
         need (i < j) ''topological_order does not respect graph edges''))) (g_edges (pl_graph p))
     @ [need (distinct (pl_critical_path p)) ''critical_path must contain unique nodes'',
      need (set (pl_critical_path p) \<subseteq> ids) ''critical_path must reference expanded graph nodes'',
      need (sort_key (\<lambda>i. the (map_of ix i)) (pl_critical_path p) = pl_critical_path p) ''critical_path must follow topological_order''])"

definition step_table :: "execution_step list \<Rightarrow> (uuid, execution_step) dict" where
  "step_table ss = fold (\<lambda>s d. AList.update (st_node s) s d) ss []"

definition mutual :: "(uuid, execution_step) dict \<Rightarrow> execution_step \<Rightarrow> (execution_step \<Rightarrow> uuid list) \<Rightarrow> uuid \<Rightarrow> compile_error + unit" where
  "mutual d s back i = rbind (item_of d i) (\<lambda>t.
     need (st_node s \<in> set (back t)) ''step dependencies/dependents must be symmetric'')"

definition step_checks :: "execution_plan \<Rightarrow> (compile_error + unit) list" where
  "step_checks p = (let ss = pl_steps p; d = step_table ss; ids = set (map n_id (g_nodes (pl_graph p)));
       members = concat (map st_members ss) in
     [need (map st_index ss = map int [0..<length ss]) ''execution step indexes must be contiguous'',
      need (distinct (map st_node ss)) ''execution step node ids must be unique'',
      need (distinct members \<and> set members = ids) ''execution steps must partition expanded graph nodes'']
     @ concat (map (\<lambda>s.
         [need (set (st_dependencies s) \<subseteq> set (dkeys d)) ''step dependencies must reference execution steps'',
          need (set (st_dependents s) \<subseteq> set (dkeys d)) ''step dependents must reference execution steps'']
         @ map (mutual d s st_dependents) (st_dependencies s) @ map (mutual d s st_dependencies) (st_dependents s)) ss))"

definition group_table :: "execution_group list \<Rightarrow> (uuid, int) dict" where
  "group_table gs = fold (\<lambda>g d. fold (\<lambda>s d. AList.update (st_node s) (gr_index g) d) (gr_steps g) d) gs []"

text \<open>\<open>tuple(sorted({...}))\<close> of the groups other than its own on which a group depends.\<close>

definition group_dependencies :: "(uuid \<Rightarrow> int) \<Rightarrow> int \<Rightarrow> execution_step list \<Rightarrow> int list" where
  "group_dependencies group_of i ss =
     sort (remdups (filter (\<lambda>j. j \<noteq> i) (map group_of (concat (map st_dependencies ss)))))"

definition group_checks :: "execution_plan \<Rightarrow> (compile_error + unit) list" where
  "group_checks p = (let gs = pl_groups p; d = group_table gs in
     [need (map gr_index gs = map int [0..<length gs]) ''execution groups must have contiguous indexes'',
      need (concat (map gr_steps gs) = pl_steps p) ''execution groups must partition plan steps in order'']
     @ map (\<lambda>g. rbind (rmap (item_of d) (concat (map st_dependencies (gr_steps g)))) (\<lambda>_.
         need (gr_dependencies g = group_dependencies (\<lambda>i. the (map_of d i)) (gr_index g) (gr_steps g))
           ''execution groups have inconsistent dependencies'')) gs
     @ [need (pl_fusions p = List.map_filter st_fusion (pl_steps p)) ''plan fusions must match fused steps''])"

definition region_references :: "control_region \<Rightarrow> uuid set" where
  "region_references r = set (cr_iterable r) \<union> set (cr_body r) \<union> set (cr_boundary r) \<union> (\<Union>b\<in>set (cr_branches r). set (cb_members b))"

definition region_table :: "control_region list \<Rightarrow> (uuid, control_region) dict" where
  "region_table rs = fold (\<lambda>r d. AList.update (cr_controller r) r d) rs []"

definition region_checks :: "execution_plan \<Rightarrow> (compile_error + unit) list" where
  "region_checks p = (let rs = pl_regions p; d = region_table rs; steps = step_table (pl_steps p);
       controls = step_table (filter (\<lambda>s. st_control s \<noteq> None) (pl_steps p)) in
     [need (distinct (map cr_controller rs)) ''control region controllers must be unique'',
      need (set (map cr_controller rs) = set (dkeys controls)) ''control regions must match control execution steps'']
     @ concat (map (\<lambda>r.
         [need (map_option ca_kind (Option.bind (map_of controls (cr_controller r)) st_control) = Some (cr_kind r))
            ''control region kind must match its controller'',
          need (region_references r \<subseteq> set (dkeys steps)) ''control regions must reference execution steps'',
          (case cr_parent r of None \<Rightarrow> need (cr_depth r = 0) ''root control region depth must be zero''
           | Some i \<Rightarrow> (case map_of d i of None \<Rightarrow> need False ''control region parent must exist''
              | Some q \<Rightarrow> need (cr_depth r = cr_depth q + 1) ''control region nesting depth is inconsistent''))]) rs))"

definition trace_table :: "trace list \<Rightarrow> (uuid, trace) dict" where
  "trace_table ts = fold (\<lambda>t d. AList.update (t_call t) t d) ts []"

definition trace_checks :: "execution_plan \<Rightarrow> (compile_error + unit) list" where
  "trace_checks p = (let ts = pl_traces p; d = trace_table ts; ids = set (map n_id (g_nodes (pl_graph p))) in
     [need (length d = length ts) ''subgraph trace call ids must be unique'']
     @ concat (map (\<lambda>t.
         [need (set (t_members t) \<subseteq> ids) ''subgraph traces must reference expanded graph nodes'',
          (case t_parent t of None \<Rightarrow> need (t_depth t = 0) ''root subgraph trace depth must be zero''
           | Some i \<Rightarrow> (case map_of d i of None \<Rightarrow> need False ''subgraph trace parent must exist''
              | Some q \<Rightarrow> checks [need (t_depth t = t_depth q + 1) ''subgraph trace depth is inconsistent'',
                  need (set (t_members t) \<subseteq> set (t_members q)) ''nested subgraph members must belong to their parent'']))]) ts))"

definition same_dict :: "('k, 'v) dict \<Rightarrow> ('k, 'v) dict \<Rightarrow> bool" where
  "same_dict d e = (length d = length e \<and> list_all (\<lambda>(k, v). map_of e k = Some v) d)"

definition output_checks :: "execution_plan \<Rightarrow> (compile_error + unit) list" where
  "output_checks p = (let ids = set (map n_id (g_nodes (pl_graph p))) in
     concat (map (\<lambda>(name, b). [valid_id (validate_port_name ''plan output name'' name),
       need (b_node b \<in> ids) ''plan outputs must reference expanded graph nodes'']) (pl_outputs p))
     @ [need (same_dict (pl_outputs p) (g_outputs (pl_graph p))) ''plan outputs must match expanded_graph outputs''])"

definition plan_post_init :: "execution_plan \<Rightarrow> compile_error + execution_plan" where
  "plan_post_init p = rbind (checks (order_checks p @ step_checks p @ group_checks p @ region_checks p
     @ trace_checks p @ output_checks p)) (\<lambda>_. Inr p)"

definition plan_valid :: "execution_plan \<Rightarrow> bool" where
  "plan_valid p = list_all (\<lambda>d. dg_severity d \<noteq> ''error'') (pl_diagnostics p)"

definition step_for_node :: "execution_plan \<Rightarrow> uuid \<Rightarrow> compile_error + execution_step" where
  "step_for_node p i = (case List.find (\<lambda>s. i \<in> set (st_members s)) (pl_steps p) of
     None \<Rightarrow> Inl (CompileKey i) | Some s \<Rightarrow> Inr s)"

end
