(* ===== verification/Fusion.thy ===== *)
theory Fusion
  imports Plans
begin

text \<open>
  graph/compiler.py: the resources of a step, and the fusion of chains of nodes into one step. The
  loop that grows a chain has nothing that bounds it on a cyclic graph, so it is a partial function;
  a computation that may raise and may not return is an optional result, composed by \<open>obind\<close>.
\<close>

definition obind :: "('e + 'a) option \<Rightarrow> ('a \<Rightarrow> ('e + 'b) option) \<Rightarrow> ('e + 'b) option" where
  "obind m f = (case m of None \<Rightarrow> None | Some (Inl e) \<Rightarrow> Some (Inl e) | Some (Inr x) \<Rightarrow> f x)"

section \<open>Resources\<close>

definition zero_resources :: resource_annotation where
  "zero_resources = \<lparr>ra_gpu = ''none'', ra_ram_mb = 0, ra_vram_mb = 0, ra_network = False\<rparr>"

definition gpu_value :: "gpu_requirement \<Rightarrow> string" where
  "gpu_value g = the (map_of gpu_requirements g)"

definition resource_annotation_of :: "resource_requirements option \<Rightarrow> compile_error + resource_annotation" where
  "resource_annotation_of v = (case v of None \<Rightarrow> Inr zero_resources
   | Some r \<Rightarrow> resource_annotation_post_init \<lparr>ra_gpu = gpu_value (rr_gpu r), ra_ram_mb = rr_estimated_ram_mb r,
       ra_vram_mb = rr_estimated_vram_mb r, ra_network = rr_network r\<rparr>)"

definition gpu_rank :: "string \<Rightarrow> int" where
  "gpu_rank s = the (map_of [(''none'', 0), (''optional'', 1), (''required'', 2)] s)"

text \<open>\<open>max\<close> with a key returns the first item with a greatest key.\<close>

definition combine_resources :: "bool \<Rightarrow> resource_annotation list \<Rightarrow> compile_error + resource_annotation" where
  "combine_resources peak rs = (if rs = [] then Inr zero_resources
     else let total = (if peak then max_default else sum_list) in resource_annotation_post_init
       \<lparr>ra_gpu = ra_gpu (arg_min_list (\<lambda>r. - gpu_rank (ra_gpu r)) rs), ra_ram_mb = total (map ra_ram_mb rs),
        ra_vram_mb = total (map ra_vram_mb rs), ra_network = list_ex ra_network rs\<rparr>)"

definition resource_index :: "catalogue \<Rightarrow> (string \<times> string, resource_requirements) dict" where
  "resource_index c = fold (\<lambda>m d. fold (\<lambda>n d. AList.update (node_def_key n) (mf_resources m) d) (mf_nodes m) d) (cat_manifests c) []"

section \<open>Fusion profiles\<close>

definition resources_json :: "resource_requirements \<Rightarrow> json" where
  "resources_json r = jfields [(''gpu'', jstr (gpu_value (rr_gpu r))), (''estimated_ram_mb'', JInt (rr_estimated_ram_mb r)),
     (''estimated_vram_mb'', JInt (rr_estimated_vram_mb r)), (''network'', JBool (rr_network r))]"

definition isolation_value :: "runtime_isolation \<Rightarrow> string" where
  "isolation_value i = the (map_of isolations i)"

definition runtime_json :: "runtime_definition \<Rightarrow> json" where
  "runtime_json r = jfields [(''language'', jstr (rd_language r)), (''python'', jstr (rd_python r)),
     (''entrypoint'', jstr (rd_entrypoint r)), (''isolation'', jstr (isolation_value (rd_isolation r))),
     (''load_policy'', jstr (the (map_of load_policies (rd_load_policy r)))),
     (''unload_policy'', jstr (the (map_of unload_policies (rd_unload_policy r)))),
     (''idle_timeout_seconds'', JInt (rd_idle_timeout_seconds r))]"

record fusion_profile =
  fp_definition :: node_definition
  fp_manifest :: plugin_manifest
  fp_resource :: string
  fp_runtime :: string

type_synonym profiles = "(string \<times> string, fusion_profile) dict"

definition fusion_profile :: "hash \<Rightarrow> plugin_manifest \<Rightarrow> node_definition \<Rightarrow> fusion_profile" where
  "fusion_profile H m d = \<lparr>fp_definition = d, fp_manifest = m, fp_resource = content_cache_key H (resources_json (mf_resources m)),
     fp_runtime = content_cache_key H (jfields [(''package_id'', jstr (pm_id (mf_package m))),
       (''package_version'', jstr (pm_version (mf_package m))), (''runtime'', runtime_json (mf_runtime m)),
       (''resources'', resources_json (mf_resources m))])\<rparr>"

definition fusion_profile_index :: "hash \<Rightarrow> catalogue \<Rightarrow> profiles" where
  "fusion_profile_index H c = fold (\<lambda>m P. fold (\<lambda>n P. case get c (nd_id n) (Some (nd_version n)) of
       Inl _ \<Rightarrow> P
     | Inr d \<Rightarrow> if nd_package_id d \<noteq> pm_id (mf_package m) \<or> nd_package_id n \<noteq> pm_id (mf_package m) then P
         else AList.update (node_def_key n) (fusion_profile H m d) P) (mf_nodes m) P) (cat_manifests c) []"

section \<open>One link\<close>

definition edges_from :: "graph \<Rightarrow> uuid \<Rightarrow> edge list" where
  "edges_from g i = filter (\<lambda>e. e_source e = i) (g_edges g)"

definition edges_to :: "graph \<Rightarrow> uuid \<Rightarrow> edge list" where
  "edges_to g i = filter (\<lambda>e. e_target e = i) (g_edges g)"

definition bound_nodes :: "(string, port_binding) dict \<Rightarrow> uuid set" where
  "bound_nodes bs = b_node ` set (dvalues bs)"

text \<open>The conditions on the definitions and the wiring, tested before any step is looked up.\<close>

definition fusable :: "graph \<Rightarrow> node \<Rightarrow> node \<Rightarrow> execution_traits \<Rightarrow> execution_traits \<Rightarrow> bool" where
  "fusable g s t a b = (ex_fusion_kind a \<noteq> None \<and> ex_fusion_kind a = ex_fusion_kind b
     \<and> ex_pure a \<and> ex_deterministic a \<and> ex_pure b \<and> ex_deterministic b \<and> ex_side_effects a = [] \<and> ex_side_effects b = []
     \<and> length (edges_from g (n_id s)) = 1 \<and> length (edges_to g (n_id t)) = 1
     \<and> n_id s \<notin> bound_nodes (g_outputs g) \<and> n_id t \<notin> bound_nodes (g_inputs g))"

definition link_schema :: "hash \<Rightarrow> fusion_profile \<Rightarrow> fusion_profile \<Rightarrow> edge \<Rightarrow> string option" where
  "link_schema H p q e = (case (port_schema (nd_output_schema (fp_definition p)) (e_source_port e),
       port_schema (nd_input_schema (fp_definition q)) (e_target_port e)) of
     (Some a, Some b) \<Rightarrow> if content_cache_key H a = content_cache_key H b then Some (content_cache_key H a) else None
   | _ \<Rightarrow> None)"

definition fusion_link_evidence :: "hash \<Rightarrow> graph \<Rightarrow> (uuid, execution_step) dict \<Rightarrow> profiles \<Rightarrow> edge \<Rightarrow>
    compile_error + (fusion_profile \<times> string \<times> string) option" where
  "fusion_link_evidence H g steps P e = (let nodes = node_dict (g_nodes g) in
     rbind (item_of nodes (e_source e)) (\<lambda>s. rbind (item_of nodes (e_target e)) (\<lambda>t.
     case (map_of P (node_key s), map_of P (node_key t)) of
       (Some p, Some q) \<Rightarrow>
         if \<not> fusable g s t (nd_execution (fp_definition p)) (nd_execution (fp_definition q)) then Inr None
         else rbind (item_of steps (n_id s)) (\<lambda>a. if st_control a \<noteq> None then Inr None
         else rbind (item_of steps (n_id t)) (\<lambda>b. if st_control b \<noteq> None then Inr None
         else if fp_runtime p \<noteq> fp_runtime q \<or> rr_network (mf_resources (fp_manifest p)) then Inr None
         else Inr (map_option (\<lambda>f. (p, the (ex_fusion_kind (nd_execution (fp_definition p))), f)) (link_schema H p q e))))
     | _ \<Rightarrow> Inr None)))"

section \<open>Chains\<close>

record fusion_chain =
  ch_members :: "uuid list"
  ch_links :: "edge list"
  ch_schemas :: "string list"
  ch_profile :: "(fusion_profile \<times> string) option"

definition grown_by :: "fusion_chain \<Rightarrow> edge \<Rightarrow> fusion_profile \<Rightarrow> string \<Rightarrow> string \<Rightarrow> fusion_chain" where
  "grown_by ch e p k f = \<lparr>ch_members = ch_members ch @ [e_target e], ch_links = ch_links ch @ [e],
     ch_schemas = ch_schemas ch @ [f], ch_profile = Some (p, k)\<rparr>"

definition chain_accepts :: "fusion_chain \<Rightarrow> fusion_profile \<Rightarrow> string \<Rightarrow> bool" where
  "chain_accepts ch p k = (case ch_profile ch of None \<Rightarrow> True | Some (q, j) \<Rightarrow> fp_runtime p = fp_runtime q \<and> k = j)"

partial_function (option) grow_chain :: "hash \<Rightarrow> graph \<Rightarrow> (uuid, execution_step) dict \<Rightarrow> profiles \<Rightarrow> uuid set \<Rightarrow>
    fusion_chain \<Rightarrow> (compile_error + fusion_chain) option" where
  "grow_chain H g steps P consumed ch = (case edges_from g (last (ch_members ch)) of
     [e] \<Rightarrow>
       if e_target e \<in> consumed then Some (Inr ch)
       else (case fusion_link_evidence H g steps P e of
         Inl x \<Rightarrow> Some (Inl x)
       | Inr None \<Rightarrow> Some (Inr ch)
       | Inr (Some (p, k, f)) \<Rightarrow>
           if \<not> chain_accepts ch p k then Some (Inr ch)
           else grow_chain H g steps P consumed (grown_by ch e p k f))
   | _ \<Rightarrow> Some (Inr ch))"

declare grow_chain.simps [code]

record fusion_unit =
  fu_members :: "uuid list"
  fu_evidence :: "fusion_evidence option"

definition fu_node :: "fusion_unit \<Rightarrow> uuid" where
  "fu_node u = hd (fu_members u)"

definition unit_of_chain :: "fusion_chain \<Rightarrow> compile_error + fusion_unit" where
  "unit_of_chain ch = (case ch_profile ch of
     None \<Rightarrow> Inr \<lparr>fu_members = ch_members ch, fu_evidence = None\<rparr>
   | Some (p, k) \<Rightarrow> rbind (fusion_post_init \<lparr>fe_kind = k, fe_members = ch_members ch, fe_links = ch_links ch,
         fe_package_id = pm_id (mf_package (fp_manifest p)), fe_package_version = pm_version (mf_package (fp_manifest p)),
         fe_entrypoint = rd_entrypoint (mf_runtime (fp_manifest p)),
         fe_isolation = isolation_value (rd_isolation (mf_runtime (fp_manifest p))),
         fe_resource_fingerprint = fp_resource p, fe_schema_fingerprints = ch_schemas ch,
         fe_pure = True, fe_deterministic = True, fe_one_to_one = True, fe_control_free = True\<rparr>)
       (\<lambda>f. Inr \<lparr>fu_members = ch_members ch, fu_evidence = Some f\<rparr>))"

fun fusion_units :: "hash \<Rightarrow> graph \<Rightarrow> (uuid, execution_step) dict \<Rightarrow> profiles \<Rightarrow> uuid set \<Rightarrow> uuid list \<Rightarrow>
    (compile_error + fusion_unit list) option" where
  "fusion_units H g steps P consumed [] = Some (Inr [])"
| "fusion_units H g steps P consumed (i # order) = (if i \<in> consumed then fusion_units H g steps P consumed order
     else obind (grow_chain H g steps P consumed \<lparr>ch_members = [i], ch_links = [], ch_schemas = [], ch_profile = None\<rparr>) (\<lambda>ch.
          obind (Some (unit_of_chain ch)) (\<lambda>u.
          obind (fusion_units H g steps P (consumed \<union> set (ch_members ch)) order) (\<lambda>us. Some (Inr (u # us))))))"

section \<open>Collapsing the steps\<close>

definition representatives :: "fusion_unit list \<Rightarrow> (uuid, uuid) dict" where
  "representatives us = fold (\<lambda>u d. fold (\<lambda>i d. AList.update i (fu_node u) d) (fu_members u) d) us []"

text \<open>The edges between different units, each redirected to the representatives.\<close>

definition external :: "(uuid, uuid) dict \<Rightarrow> edge \<Rightarrow> bool" where
  "external R e = (map_of R (e_source e) \<noteq> map_of R (e_target e))"

definition synthetic_edges :: "(uuid, uuid) dict \<Rightarrow> edge list \<Rightarrow> compile_error + edge list" where
  "synthetic_edges R es = rbind (rmap (\<lambda>e. rbind (item_of R (e_source e)) (\<lambda>s. rbind (item_of R (e_target e)) (\<lambda>t.
       if s = t then Inr [] else map_sum CompileValue (\<lambda>e. [e]) (edge_post_init
         \<lparr>e_source = s, e_source_port = e_source_port e, e_target = t, e_target_port = e_target_port e\<rparr>)))) es)
     (\<lambda>ess. Inr (concat ess))"

definition layer_indexes :: "uuid list list \<Rightarrow> (uuid, int) dict" where
  "layer_indexes ls = concat (map (\<lambda>(k, l). map (\<lambda>i. (i, int k)) l) (enumerate 0 ls))"

definition edge_json :: "edge \<Rightarrow> json" where
  "edge_json e = jfields [(''source_node_id'', jstr (uuid_str (e_source e))), (''source_port'', jstr (e_source_port e)),
     (''target_node_id'', jstr (uuid_str (e_target e))), (''target_port'', jstr (e_target_port e))]"

definition evidence_json :: "fusion_evidence \<Rightarrow> json" where
  "evidence_json f = jfields [(''kind'', jstr (fe_kind f)), (''member_node_ids'', JArr (map (\<lambda>i. jstr (uuid_str i)) (fe_members f))),
     (''links'', JArr (map edge_json (fe_links f))), (''package_id'', jstr (fe_package_id f)),
     (''package_version'', jstr (fe_package_version f)), (''runtime_entrypoint'', jstr (fe_entrypoint f)),
     (''runtime_isolation'', jstr (fe_isolation f)), (''resource_fingerprint'', jstr (fe_resource_fingerprint f)),
     (''schema_fingerprints'', JArr (map jstr (fe_schema_fingerprints f))), (''pure'', JBool (fe_pure f)),
     (''deterministic'', JBool (fe_deterministic f)), (''one_to_one'', JBool (fe_one_to_one f)),
     (''control_free'', JBool (fe_control_free f))]"

definition unit_cache_key :: "hash \<Rightarrow> fusion_unit \<Rightarrow> execution_step list \<Rightarrow> string" where
  "unit_cache_key H u ms = (case fu_evidence u of None \<Rightarrow> st_cache_key (hd ms)
   | Some f \<Rightarrow> content_cache_key H (jfields [(''fusion'', evidence_json f),
       (''member_cache_keys'', JArr (map (\<lambda>s. jstr (st_cache_key s)) ms))]))"

definition neighbours :: "(uuid, uuid) dict \<Rightarrow> (edge \<Rightarrow> uuid) \<Rightarrow> edge list \<Rightarrow> uuid list" where
  "neighbours R f es = sort (remdups (map (\<lambda>e. the (map_of R (f e))) es))"

definition collapse_unit :: "hash \<Rightarrow> graph \<Rightarrow> (uuid, execution_step) dict \<Rightarrow> (uuid, uuid) dict \<Rightarrow> (uuid, int) dict \<Rightarrow>
    nat \<times> fusion_unit \<Rightarrow> compile_error + execution_step" where
  "collapse_unit H g base R groups ku = (case ku of (k, u) \<Rightarrow> rbind (rmap (item_of base) (fu_members u)) (\<lambda>ms.
     let i = fu_node u; first = hd ms;
         ins = filter (\<lambda>e. external R e \<and> map_of R (e_target e) = Some i) (g_edges g);
         outs = filter (\<lambda>e. external R e \<and> map_of R (e_source e) = Some i) (g_edges g) in
     rbind (combine_resources True (map st_resources ms)) (\<lambda>rs. step_post_init
       \<lparr>st_index = int k, st_group = the (map_of groups i), st_node = i,
        st_type_id = st_type_id first, st_type_version = st_type_version first, st_inputs = st_inputs first,
        st_metadata = st_metadata first, st_incoming = ins, st_dependencies = neighbours R e_source ins,
        st_dependents = neighbours R e_target outs, st_cache_key = unit_cache_key H u ms,
        st_is_constant = list_all st_is_constant ms, st_cacheable = list_all st_cacheable ms,
        st_critical_length = max_default (map st_critical_length ms), st_on_critical_path = list_ex st_on_critical_path ms,
        st_resources = rs, st_control = (if length ms = 1 then st_control first else None),
        st_members = fu_members u, st_fusion = fu_evidence u\<rparr>)))"

definition unit_table :: "fusion_unit list \<Rightarrow> (uuid, fusion_unit) dict" where
  "unit_table us = fold (\<lambda>u d. AList.update (fu_node u) u d) us []"

definition collapse_units :: "hash \<Rightarrow> graph \<Rightarrow> (uuid, execution_step) dict \<Rightarrow> fusion_unit list \<Rightarrow>
    compile_error + execution_step list \<times> uuid list list" where
  "collapse_units H g base us = (let R = representatives us in
     rbind (synthetic_edges R (g_edges g)) (\<lambda>es.
     rbind (map_sum CompileTopology id (topological_layers (map fu_node us) es)) (\<lambda>layers.
     rbind (rmap (item_of (unit_table us)) (concat layers)) (\<lambda>ordered.
     rbind (rmap (collapse_unit H g base R (layer_indexes layers)) (enumerate 0 ordered)) (\<lambda>ss. Inr (ss, layers))))))"

definition collapse_fused_steps :: "hash \<Rightarrow> graph \<Rightarrow> uuid list \<Rightarrow> execution_step list \<Rightarrow> catalogue \<Rightarrow>
    (compile_error + execution_step list \<times> uuid list list) option" where
  "collapse_fused_steps H g order ss c = (let base = step_table ss in
     obind (fusion_units H g base (fusion_profile_index H c) {} order) (\<lambda>us. Some (collapse_units H g base us)))"

end
