(* ===== verification/Regions.thy ===== *)
theory Regions
  imports Fusion
begin

text \<open>
  graph/compiler.py: the control regions of a plan. The nodes between a for-each and its collects,
  the branches of a switch, and the nesting of these regions in one another. A set of nodes is the
  list of its members; where its order reaches the plan, it has been sorted by the index of a step.
\<close>

section \<open>Closures\<close>

text \<open>
  \<open>_closure\<close>: the stack \<open>pending\<close> with its top in front. Every pass that adds to the stack also adds
  to the visited nodes, of which there are finitely many.
\<close>

function closure :: "(uuid \<Rightarrow> uuid list) \<Rightarrow> uuid list \<Rightarrow> uuid list \<Rightarrow> uuid list" where
  "closure adj [] visited = visited"
| "closure adj (n # pending) visited = (if n \<in> set visited then closure adj pending visited
     else closure adj (sort (remdups (filter (\<lambda>m. m \<notin> set (n # visited)) (adj n))) @ pending) (n # visited))"
  by pat_completeness auto
termination
proof (relation "measures [\<lambda>(adj, ps, vs). card (- set vs), \<lambda>(adj, ps, vs). length ps]", goal_cases)
  case (3 adj n ps vs)
  then have "- set (n # vs) \<subset> - set vs" by auto
  then have "card (- set (n # vs)) < card (- set vs)" by (intro psubset_card_mono) auto
  then show ?case by simp
qed auto

definition closure_of :: "(uuid \<Rightarrow> uuid list) \<Rightarrow> uuid list \<Rightarrow> uuid list" where
  "closure_of adj start = closure adj (sort (remdups start)) []"

definition targets_of :: "graph \<Rightarrow> uuid \<Rightarrow> uuid list" where
  "targets_of g i = map e_target (edges_from g i)"

definition sources_of :: "graph \<Rightarrow> uuid \<Rightarrow> uuid list" where
  "sources_of g i = map e_source (edges_to g i)"

text \<open>The sources of the edges into one port of a node.\<close>

definition port_sources :: "graph \<Rightarrow> uuid \<Rightarrow> string \<Rightarrow> uuid list" where
  "port_sources g i p = map e_source (filter (\<lambda>e. e_target_port e = p) (edges_to g i))"

section \<open>Loops\<close>

definition collect_type :: string where
  "collect_type = ''ng.control.collect''"

record loop_sets =
  lp_body :: "uuid list"
  lp_boundary :: "uuid list"
  lp_iterable :: "uuid list"

abbreviation finding :: "findings \<Rightarrow> compile_error + diagnostic list" where
  "finding r \<equiv> map_sum CompileValidation id r"

definition loop_sets_of :: "graph \<Rightarrow> node \<Rightarrow> compile_error + loop_sets \<times> diagnostic list" where
  "loop_sets_of g n = (let i = n_id n; below = closure_of (targets_of g) (targets_of g i) in
     rbind (rmap (item_of (node_dict (g_nodes g))) below) (\<lambda>ms.
     let boundary = map fst (filter (\<lambda>(j, m). n_type_id m = collect_type) (zip below ms));
         above = concat (map (\<lambda>b. closure_of (sources_of g) (sources_of g b)) boundary);
         body = filter (\<lambda>j. j \<in> set above \<and> j \<notin> set boundary \<and> j \<noteq> i) below;
         iterable = filter (\<lambda>j. j \<noteq> i) (closure_of (sources_of g) (port_sources g i ''items'')) in
     rbind (if below \<noteq> [] \<and> boundary = []
       then finding (err ''malformed_loop_region'' ''a for-each body must terminate at an NG Collect boundary'' (Some i) None None)
       else Inr []) (\<lambda>ds.
     Inr (\<lparr>lp_body = body, lp_boundary = boundary, lp_iterable = iterable\<rparr>, ds))))"

text \<open>The three dictionaries over the loops, as one, and the diagnostics.\<close>

definition all_loops :: "graph \<Rightarrow> compile_error + (uuid, loop_sets) dict \<times> diagnostic list" where
  "all_loops g = (let loops = filter (\<lambda>n. n_type_id n = for_each) (g_nodes g) in
     rbind (rmap (loop_sets_of g) loops) (\<lambda>rs.
       Inr (fold (\<lambda>(n, l, ds) d. AList.update (n_id n) l d) (zip loops rs) [], concat (map snd rs))))"

section \<open>Drafts\<close>

definition step_indexes :: "execution_step list \<Rightarrow> uuid \<Rightarrow> int" where
  "step_indexes ss i = st_index (the (map_of (step_table ss) i))"

definition member_steps :: "execution_step list \<Rightarrow> (uuid, uuid) dict" where
  "member_steps ss = fold (\<lambda>s d. fold (\<lambda>i d. AList.update i (st_node s) d) (st_members s) d) ss []"

definition ordered_representatives :: "execution_step list \<Rightarrow> uuid list \<Rightarrow> uuid list" where
  "ordered_representatives ss is = sort_key (step_indexes ss) (remdups (List.map_filter (map_of (member_steps ss)) is))"

record region_draft =
  dr_kind :: string
  dr_controller :: uuid
  dr_branches :: "control_branch list"
  dr_iterable :: "uuid list"
  dr_body :: "uuid list"
  dr_boundary :: "uuid list"
  dr_max_iterations :: "int option"

definition draft_members :: "region_draft \<Rightarrow> uuid set" where
  "draft_members d = set (dr_iterable d) \<union> set (dr_body d) \<union> set (dr_boundary d) \<union> (\<Union>b\<in>set (dr_branches d). set (cb_members b))"

text \<open>The members of a branch that depend on no other member, or on which none depends.\<close>

definition outermost :: "(uuid, execution_step) dict \<Rightarrow> (execution_step \<Rightarrow> uuid list) \<Rightarrow> uuid list \<Rightarrow> compile_error + uuid list" where
  "outermost d f is = rbind (rmap (\<lambda>i. rbind (item_of d i) (\<lambda>s. Inr (i, s))) is) (\<lambda>ps.
     Inr (map fst (filter (\<lambda>(i, s). set is \<inter> set (f s) = {}) ps)))"

definition branch_of :: "execution_step list \<Rightarrow> uuid set \<Rightarrow> string \<times> uuid list \<Rightarrow> compile_error + control_branch" where
  "branch_of ss excluded nb = (case nb of (name, ns) \<Rightarrow>
     let is = ordered_representatives ss (filter (\<lambda>n. n \<notin> excluded) ns) in
     rbind (outermost (step_table ss) st_dependencies is) (\<lambda>entries.
     rbind (outermost (step_table ss) st_dependents is) (\<lambda>exits. control_branch_post_init
       \<lparr>cb_name = name, cb_source_port = name, cb_members = is, cb_entries = entries, cb_exits = exits\<rparr>)))"

definition shared_nodes :: "uuid list list \<Rightarrow> uuid set" where
  "shared_nodes bs = (case bs of [] \<Rightarrow> {} | b # cs \<Rightarrow> fold (\<lambda>c s. s \<inter> set c) cs (set b))"

definition excluded_nodes :: "graph \<Rightarrow> (uuid, loop_sets) dict \<Rightarrow> uuid \<Rightarrow> uuid list list \<Rightarrow> uuid set" where
  "excluded_nodes g loops i bs = shared_nodes bs \<union> set (closure_of (sources_of g) (port_sources g i ''condition''))
     \<union> {i} \<union> set (map fst (filter (\<lambda>(l, sets). i \<in> set (lp_body sets)) loops))"

definition condition_draft :: "graph \<Rightarrow> execution_step list \<Rightarrow> (uuid, loop_sets) dict \<Rightarrow> uuid \<Rightarrow> uuid \<Rightarrow> control_annotation \<Rightarrow>
    compile_error + region_draft" where
  "condition_draft g ss loops controller i c = (let names = sort (ca_branches c);
       nodes = map (\<lambda>p. closure_of (sources_of g) (port_sources g i p)) names in
     rbind (rmap (branch_of ss (excluded_nodes g loops i nodes)) (zip names nodes)) (\<lambda>bs.
       Inr \<lparr>dr_kind = ''condition'', dr_controller = controller, dr_branches = bs, dr_iterable = [], dr_body = [],
         dr_boundary = [], dr_max_iterations = None\<rparr>))"

definition loop_draft :: "execution_step list \<Rightarrow> (uuid, loop_sets) dict \<Rightarrow> uuid \<Rightarrow> control_annotation \<Rightarrow> region_draft" where
  "loop_draft ss loops i c = (let sets = (case map_of loops i of Some l \<Rightarrow> l
       | None \<Rightarrow> \<lparr>lp_body = [], lp_boundary = [], lp_iterable = []\<rparr>) in
     \<lparr>dr_kind = ''loop'', dr_controller = i, dr_branches = [], dr_iterable = ordered_representatives ss (lp_iterable sets),
      dr_body = ordered_representatives ss (lp_body sets), dr_boundary = ordered_representatives ss (lp_boundary sets),
      dr_max_iterations = ca_max_iterations c\<rparr>)"

definition draft_of :: "graph \<Rightarrow> execution_step list \<Rightarrow> (uuid, loop_sets) dict \<Rightarrow> execution_step \<Rightarrow> compile_error + region_draft list" where
  "draft_of g ss loops s = (case st_control s of None \<Rightarrow> Inr []
   | Some c \<Rightarrow> rbind (item_of (node_dict (g_nodes g)) (st_node s)) (\<lambda>n.
       if ca_kind c = ''condition'' then rbind (condition_draft g ss loops (st_node s) (n_id n) c) (\<lambda>d. Inr [d])
       else Inr [loop_draft ss loops (st_node s) c]))"

section \<open>Nesting\<close>

text \<open>The smallest other region that has the controller among its members, the earliest of equals.\<close>

definition parent_of :: "execution_step list \<Rightarrow> region_draft list \<Rightarrow> region_draft \<Rightarrow> uuid option" where
  "parent_of ss ds d = (let cands = filter (\<lambda>e. dr_controller e \<noteq> dr_controller d \<and> dr_controller d \<in> draft_members e) ds in
     if cands = [] then None
     else Some (dr_controller (arg_min_list (\<lambda>e. (card (draft_members e), step_indexes ss (dr_controller e))) cands)))"

definition parent_table :: "execution_step list \<Rightarrow> region_draft list \<Rightarrow> (uuid, uuid option) dict" where
  "parent_table ss ds = fold (\<lambda>d t. AList.update (dr_controller d) (parent_of ss ds d) t) ds []"

type_synonym depth_state = "(uuid, int) dict \<times> diagnostic list"

definition nesting_diagnostic :: "uuid \<Rightarrow> compile_error + diagnostic list" where
  "nesting_diagnostic i = finding (err ''invalid_control_nesting'' ''control region nesting is cyclic'' (Some i) None None)"

text \<open>\<open>resolve_depth\<close>, with the dictionary and the diagnostics it updates. The stack never repeats a controller.\<close>

function resolve_depth :: "(uuid, uuid option) dict \<Rightarrow> uuid \<Rightarrow> uuid list \<Rightarrow> depth_state \<Rightarrow> compile_error + int \<times> depth_state" where
  "resolve_depth parents i stack st =
    (case map_of (fst st) i of Some k \<Rightarrow> Inr (k, st)
     | None \<Rightarrow>
        if i \<in> set stack then rbind (nesting_diagnostic i) (\<lambda>ds. Inr (0, AList.update i 0 (fst st), snd st @ ds))
        else rbind (item_of parents i) (\<lambda>p. case p of
            None \<Rightarrow> Inr (0, AList.update i 0 (fst st), snd st)
          | Some j \<Rightarrow> rbind (resolve_depth parents j (stack @ [i]) st) (\<lambda>(k, st').
              Inr (k + 1, AList.update i (k + 1) (fst st'), snd st'))))"
  by pat_completeness auto
termination
proof (relation "measure (\<lambda>(ps, i, stack, st). card (- set stack))", goal_cases)
  case (2 ps i stack st p j)
  then have "- set (stack @ [i]) \<subset> - set stack" by auto
  then show ?case by (simp add: psubset_card_mono)
qed simp

declare resolve_depth.simps [simp del]

definition resolve_depths :: "(uuid, uuid option) dict \<Rightarrow> uuid list \<Rightarrow> depth_state \<Rightarrow> compile_error + depth_state" where
  "resolve_depths parents is st = fold (\<lambda>i acc. rbind acc (\<lambda>st. rbind (resolve_depth parents i [] st) (\<lambda>(k, st'). Inr st'))) is (Inr st)"

section \<open>Regions\<close>

definition region_of :: "(uuid, uuid option) dict \<Rightarrow> (uuid, int) dict \<Rightarrow> region_draft \<Rightarrow> compile_error + control_region" where
  "region_of parents depths d = rbind (item_of parents (dr_controller d)) (\<lambda>p. rbind (item_of depths (dr_controller d)) (\<lambda>k.
     control_region_post_init \<lparr>cr_kind = dr_kind d, cr_controller = dr_controller d, cr_parent = p, cr_depth = k,
       cr_branches = dr_branches d, cr_iterable = dr_iterable d, cr_body = dr_body d, cr_boundary = dr_boundary d,
       cr_max_iterations = dr_max_iterations d\<rparr>))"

definition derive_control_regions :: "graph \<Rightarrow> execution_step list \<Rightarrow> compile_error + control_region list \<times> diagnostic list" where
  "derive_control_regions g ss =
     rbind (all_loops g) (\<lambda>(loops, malformed).
     rbind (rmap (draft_of g ss loops) ss) (\<lambda>dss.
     let drafts = concat dss; parents = parent_table ss drafts in
     rbind (resolve_depths parents (remdups (map dr_controller drafts)) ([], malformed)) (\<lambda>(depths, ds).
     rbind (rmap (region_of parents depths) (sort_key (\<lambda>d. step_indexes ss (dr_controller d)) drafts)) (\<lambda>rs.
       Inr (rs, ds)))))"

end
