(* ===== verification/Compiler.thy ===== *)
theory Compiler
  imports Regions
begin

text \<open>
  graph/compiler.py: \<open>GraphCompiler.compile\<close>, from a graph and its context to an execution plan. The
  errors of the model keep the code of a failed expansion and not its text, so the diagnostic made
  of one has its code for a message.
\<close>

section \<open>The context\<close>

record compile_context = validation_context +
  cc_max_subgraph_depth :: int

definition context_post_init :: "compile_context \<Rightarrow> compile_error + compile_context" where
  "context_post_init cx = rbind (checks
     [need (0 < cx_max_loop_iterations cx) ''max_loop_iterations must be a positive integer'',
      need (0 < cc_max_subgraph_depth cx) ''max_subgraph_depth must be a positive integer'']) (\<lambda>_. Inr cx)"

definition context_of :: "catalogue \<Rightarrow> compile_error + compile_context" where
  "context_of c = rbind (map_sum CompileValue id default_registry) (\<lambda>R. context_post_init
     \<lparr>cx_catalogue = c, cx_registry = R, cx_subgraphs = [], cx_max_loop_iterations = 1024, cc_max_subgraph_depth = 32\<rparr>)"

datatype context_argument = NoContext | OfContext compile_context | OfCatalogue catalogue

definition coerce_context :: "files \<Rightarrow> string \<Rightarrow> context_argument \<Rightarrow> compile_error + compile_context" where
  "coerce_context fs default_root a = (case a of
     NoContext \<Rightarrow> rbind (map_sum CompileCatalogue id (discover fs default_root)) context_of
   | OfContext cx \<Rightarrow> Inr cx | OfCatalogue c \<Rightarrow> context_of c)"

section \<open>Steps before fusion\<close>

definition switch_type :: string where
  "switch_type = ''ng.control.switch''"

definition control_annotation_of :: "node \<Rightarrow> compile_error + control_annotation option" where
  "control_annotation_of n =
    (if n_type_id n = for_each then rbind (control_annotation_post_init \<lparr>ca_kind = ''loop'',
         ca_max_iterations = (case map_of (n_inputs n) ''items'' of Some (JArr js) \<Rightarrow> Some (int (length js))
           | _ \<Rightarrow> (case map_of (n_metadata n) (ustr ''max_iterations'') of Some (JInt k) \<Rightarrow> Some k | _ \<Rightarrow> None)),
         ca_selected_branch = None, ca_branches = []\<rparr>) (\<lambda>a. Inr (Some a))
     else if n_type_id n = switch_type then rbind (control_annotation_post_init \<lparr>ca_kind = ''condition'', ca_max_iterations = None,
         ca_selected_branch = (case map_of (n_inputs n) ''condition'' of
             Some (JBool b) \<Rightarrow> Some (if b then ''true_value'' else ''false_value'') | _ \<Rightarrow> None),
         ca_branches = [''true_value'', ''false_value'']\<rparr>) (\<lambda>a. Inr (Some a))
     else Inr None)"

definition incoming_of :: "graph \<Rightarrow> uuid \<Rightarrow> edge list" where
  "incoming_of g i = sort_key (\<lambda>e. (e_target_port e, e_source e, e_source_port e, e_target e)) (edges_to g i)"

definition external_targets :: "graph \<Rightarrow> (uuid \<times> string, string) dict" where
  "external_targets g = fold (\<lambda>(name, b) d. AList.update (b_node b, b_port b) name d) (g_inputs g) []"

definition upstream_of :: "graph \<Rightarrow> (uuid, string) dict \<Rightarrow> uuid \<Rightarrow> compile_error + (string, json) dict" where
  "upstream_of g keys i = rbind (rmap (\<lambda>e. rbind (item_of keys (e_source e)) (\<lambda>k. Inr (e_target_port e,
       jfields [(''cache_key'', jstr k), (''source_port'', jstr (e_source_port e))]))) (incoming_of g i)) (\<lambda>kvs.
     let external = sort_key fst (filter (\<lambda>(t, name). fst t = i) (external_targets g)) in
     Inr (fold (\<lambda>(p, j) d. AList.update p j d)
       (kvs @ map (\<lambda>((n, p), name). (p, jfields [(''graph_input'', jstr name)])) external) []))"

record build_state =
  bs_constants :: "(uuid, bool) dict"
  bs_keys :: "(uuid, string) dict"
  bs_steps :: "execution_step list"

definition cacheable_step :: "bool \<Rightarrow> execution_traits \<Rightarrow> control_annotation option \<Rightarrow> resource_annotation \<Rightarrow> bool" where
  "cacheable_step constant t c r = (constant \<and> ex_pure t \<and> ex_deterministic t \<and> ex_cache_policy t = ''content''
     \<and> ex_side_effects t = [] \<and> c = None \<and> \<not> ra_network r)"

record layout =
  ly_groups :: "(uuid, int) dict"
  ly_lengths :: "(uuid, int) dict"
  ly_critical :: "uuid list"

text \<open>One pass of the loop over the topological order.\<close>

definition build_step :: "hash \<Rightarrow> compile_context \<Rightarrow> graph \<Rightarrow> layout \<Rightarrow> uuid \<Rightarrow> build_state \<Rightarrow> compile_error + build_state" where
  "build_step H cx g ly i st = rbind (item_of (node_dict (g_nodes g)) i) (\<lambda>n.
     let dependencies = sort (remdups (sources_of g i)) in
     rbind (if i \<in> set (map fst (dkeys (external_targets g))) then Inr False
       else rbind (rmap (item_of (bs_constants st)) dependencies) (\<lambda>bs. Inr (list_all (\<lambda>b. b) bs))) (\<lambda>constant.
     rbind (upstream_of g (bs_keys st) i) (\<lambda>upstream.
     rbind (map_sum CompileValue id (node_cache_key H n upstream 1)) (\<lambda>key.
     rbind (resource_annotation_of (map_of (resource_index (cx_catalogue cx)) (node_key n))) (\<lambda>rs.
     rbind (map_sum CompileCatalogue id (get (cx_catalogue cx) (n_type_id n) (Some (n_type_version n)))) (\<lambda>d.
     rbind (control_annotation_of n) (\<lambda>c.
     rbind (item_of (ly_groups ly) i) (\<lambda>group.
     rbind (item_of (ly_lengths ly) i) (\<lambda>len.
     rbind (step_post_init \<lparr>st_index = int (length (bs_steps st)), st_group = group, st_node = i,
         st_type_id = n_type_id n, st_type_version = n_type_version n, st_inputs = n_inputs n, st_metadata = n_metadata n,
         st_incoming = incoming_of g i, st_dependencies = dependencies, st_dependents = sort (remdups (targets_of g i)),
         st_cache_key = key, st_is_constant = constant, st_cacheable = cacheable_step constant (nd_execution d) c rs,
         st_critical_length = len, st_on_critical_path = (i \<in> set (ly_critical ly)), st_resources = rs, st_control = c,
         st_members = [i], st_fusion = None\<rparr>) (\<lambda>s.
       Inr \<lparr>bs_constants = AList.update i constant (bs_constants st), bs_keys = AList.update i key (bs_keys st),
         bs_steps = bs_steps st @ [s]\<rparr>))))))))))"

definition build_steps :: "hash \<Rightarrow> compile_context \<Rightarrow> graph \<Rightarrow> layout \<Rightarrow> uuid list \<Rightarrow> compile_error + build_state" where
  "build_steps H cx g ly order = fold (\<lambda>i acc. rbind acc (build_step H cx g ly i)) order
     (Inr \<lparr>bs_constants = [], bs_keys = [], bs_steps = []\<rparr>)"

section \<open>Groups and the plan\<close>

definition build_group :: "(uuid, execution_step) dict \<Rightarrow> (uuid, int) dict \<Rightarrow> nat \<times> uuid list \<Rightarrow> compile_error + execution_group" where
  "build_group d groups kl = (case kl of (k, layer) \<Rightarrow>
     rbind (rmap (item_of d) layer) (\<lambda>ss.
     rbind (rmap (item_of groups) (concat (map st_dependencies ss))) (\<lambda>_.
     rbind (combine_resources False (map st_resources ss)) (\<lambda>rs. group_post_init
       \<lparr>gr_index = int k, gr_steps = ss, gr_dependencies = group_dependencies (\<lambda>i. the (map_of groups i)) (int k) ss,
        gr_resources = rs, gr_critical_length = max_default (map st_critical_length ss)\<rparr>))))"

definition plan_cache_key :: "hash \<Rightarrow> graph \<Rightarrow> (uuid, string) dict \<Rightarrow> execution_step list \<Rightarrow> compile_error + string" where
  "plan_cache_key H g keys ss = rbind (rmap (\<lambda>(name, b). rbind (item_of keys (b_node b)) (\<lambda>k. Inr (name,
       jfields [(''cache_key'', jstr k), (''port'', jstr (b_port b))]))) (sort_key fst (g_outputs g))) (\<lambda>outputs.
     Inr (content_cache_key H (jfields [(''plan_version'', JInt 2), (''graph_version'', JInt (g_version g)),
       (''steps'', JArr (map jstr (sort (map st_cache_key ss)))), (''outputs'', jfields outputs)])))"

definition control_key :: "diagnostic \<Rightarrow> nat \<times> string \<times> nat" where
  "control_key d = (case diag_key d of (severity, code, node, _) \<Rightarrow> (severity, code, node))"

definition has_error :: "diagnostic list \<Rightarrow> bool" where
  "has_error ds = list_ex (\<lambda>d. dg_severity d = ''error'') ds"

definition refuse :: "diagnostic list \<Rightarrow> compile_error + unit" where
  "refuse ds = guard_or (\<not> has_error ds) (GraphCompilationError ds)"

text \<open>The rest of \<open>compile\<close> after the fusion of steps.\<close>

definition assemble_plan :: "hash \<Rightarrow> graph \<Rightarrow> trace list \<Rightarrow> diagnostic list \<Rightarrow> uuid list \<Rightarrow> uuid list \<Rightarrow> (uuid, string) dict \<Rightarrow>
    execution_step list \<times> uuid list list \<Rightarrow> compile_error + execution_plan" where
  "assemble_plan H g traces ds order critical keys collapsed = (case collapsed of (ss, layers) \<Rightarrow>
     rbind (derive_control_regions g ss) (\<lambda>(regions, cds).
     let ds' = (if cds = [] then ds else sort_key control_key (ds @ cds)) in
     rbind (if has_error cds then Inl (GraphCompilationError ds') else Inr ()) (\<lambda>_.
     rbind (rmap (build_group (step_table ss) (layer_indexes layers)) (enumerate 0 layers)) (\<lambda>groups.
     rbind (combine_resources True (map gr_resources groups)) (\<lambda>peak.
     rbind (plan_cache_key H g keys ss) (\<lambda>key. plan_post_init
       \<lparr>pl_graph_id = g_id g, pl_graph_version = g_version g, pl_cache_key = key, pl_graph = g, pl_steps = ss,
        pl_groups = groups, pl_order = order, pl_critical_path = critical, pl_peak = peak, pl_diagnostics = ds',
        pl_outputs = g_outputs g, pl_fusions = List.map_filter st_fusion ss, pl_regions = regions, pl_traces = traces\<rparr>))))))"

abbreviation topo :: "topo_error + 'a \<Rightarrow> compile_error + 'a" where
  "topo r \<equiv> map_sum CompileTopology id r"

text \<open>The part of \<open>compile\<close> after expansion and validation.\<close>

definition plan_graph :: "hash \<Rightarrow> compile_context \<Rightarrow> graph \<Rightarrow> trace list \<Rightarrow> diagnostic list \<Rightarrow> (compile_error + execution_plan) option" where
  "plan_graph H cx g traces ds = (
     obind (Some (topo (topological_layers (map n_id (g_nodes g)) (g_edges g)))) (\<lambda>layers.
     let order = concat layers in
     obind (Some (topo (critical_path_lengths order (g_edges g)))) (\<lambda>lengths.
     obind (Some (topo (select_critical_path order (g_edges g) (Some lengths)))) (\<lambda>critical.
     obind (Some (build_steps H cx g \<lparr>ly_groups = layer_indexes layers, ly_lengths = lengths, ly_critical = critical\<rparr> order)) (\<lambda>st.
     obind (collapse_fused_steps H g order (bs_steps st) (cx_catalogue cx)) (\<lambda>collapsed.
       Some (assemble_plan H g traces ds order critical (bs_keys st) collapsed)))))))"

definition expansion_diagnostic :: "expand_error \<Rightarrow> compile_error" where
  "expansion_diagnostic e = (case e of
     SubgraphExpansionError code node \<Rightarrow> GraphCompilationError [\<lparr>dg_code = code, dg_severity = ''error'', dg_message = code,
       dg_node = node, dg_edge = None, dg_port = None\<rparr>]
   | _ \<Rightarrow> CompileExpansion e)"

definition compile_graph :: "hash \<Rightarrow> uuid5 \<Rightarrow> literal_validator \<Rightarrow> graph \<Rightarrow> compile_context \<Rightarrow> (compile_error + execution_plan) option" where
  "compile_graph H u5 lit g cx = (let vx = validation_context.truncate cx in
     obind (Some (finding (validate_graph_structure g vx))) (\<lambda>sds.
     obind (Some (refuse sds)) (\<lambda>_.
     obind (map_option (map_sum expansion_diagnostic id)
       (expand_subgraphs_with_trace u5 g (cx_subgraphs cx) (cc_max_subgraph_depth cx))) (\<lambda>(expanded, traces).
     obind (Some (finding (validate_graph lit expanded vx))) (\<lambda>ds.
     obind (Some (refuse ds)) (\<lambda>_. plan_graph H cx expanded traces ds))))))"

definition compile :: "files \<Rightarrow> string \<Rightarrow> hash \<Rightarrow> uuid5 \<Rightarrow> literal_validator \<Rightarrow> graph \<Rightarrow> context_argument \<Rightarrow>
    (compile_error + execution_plan) option" where
  "compile fs default_root H u5 lit g a = obind (Some (coerce_context fs default_root a)) (compile_graph H u5 lit g)"

end
