(* ===== verification/Chains.thy ===== *)
theory Chains
  imports Compiler
begin

text \<open>
  Fusion is a contraction: on an acyclic graph every chain is finite, the units partition the
  nodes, an edge between different units leads from the last member of one to the first member of
  the other, and so the contracted graph is acyclic again.
\<close>

declare map_of_eq_Some_iff [simp del]

section \<open>Tables\<close>

text \<open>A dictionary filled in a loop over a list, as all the tables of the compiler are.\<close>

lemma table_lookup:
  "map_of (fold (\<lambda>x d. AList.update (f x) (h x) d) xs d) k
     = (case map_of (rev (map (\<lambda>x. (f x, h x)) xs)) k of None \<Rightarrow> map_of d k | Some v \<Rightarrow> Some v)"
  by (induction xs arbitrary: d) (auto simp: map_of_update map_add_Some_iff map_add_def split: option.splits)

lemma map_of_rev_distinct: "wf_dict d \<Longrightarrow> map_of (rev d) = map_of d"
  by (rule ext) (metis distinct_rev map_of_Some_iff not_None_eq rev_map set_rev)

lemma table_Some:
  assumes "distinct (map f xs)"
  shows "map_of (fold (\<lambda>x d. AList.update (f x) (h x) d) xs []) k = Some v \<longleftrightarrow> (\<exists>x\<in>set xs. f x = k \<and> h x = v)"
proof -
  have "map_of (rev (map (\<lambda>x. (f x, h x)) xs)) = map_of (map (\<lambda>x. (f x, h x)) xs)"
    using assms by (intro map_of_rev_distinct) (simp add: o_def)
  moreover have "map_of (map (\<lambda>x. (f x, h x)) xs) k = Some v \<longleftrightarrow> (k, v) \<in> (\<lambda>x. (f x, h x)) ` set xs"
    using assms by (subst map_of_Some_iff) (auto simp: o_def)
  ultimately show ?thesis by (auto simp: table_lookup split: option.splits)
qed

lemma table_keys: "fst ` set (fold (\<lambda>x d. AList.update (f x) (h x) d) xs d) = fst ` set d \<union> f ` set xs"
  by (induction xs arbitrary: d) auto

lemma table_length:
  "distinct (map f xs) \<Longrightarrow> f ` set xs \<inter> fst ` set d = {} \<Longrightarrow>
   length (fold (\<lambda>x d. AList.update (f x) (h x) d) xs d) = length d + length xs"
proof (induction xs arbitrary: d)
  case (Cons x xs)
  then have "AList.update (f x) (h x) d = d @ [(f x, h x)]" by (intro update_new) auto
  with Cons show ?case by auto
qed simp

lemma node_dict_Some: "distinct (map n_id ns) \<Longrightarrow> map_of (node_dict ns) i = Some n \<longleftrightarrow> n \<in> set ns \<and> n_id n = i"
  unfolding node_dict_def by (subst table_Some) auto

lemma step_table_Some: "distinct (map st_node ss) \<Longrightarrow> map_of (step_table ss) i = Some s \<longleftrightarrow> s \<in> set ss \<and> st_node s = i"
  unfolding step_table_def by (subst table_Some) auto

lemma step_table_keys [simp]: "fst ` set (step_table ss) = st_node ` set ss"
  unfolding step_table_def by (simp add: table_keys)

lemma item_of_Inr [simp]: "key_or d nm k = Inr v \<longleftrightarrow> map_of d k = Some v"
  by (simp add: key_or_def split: option.split)

section \<open>Linked graphs\<close>

text \<open>What the compiler relies on of a validated graph.\<close>

definition linked :: "graph \<Rightarrow> bool" where
  "linked g = (distinct (map n_id (g_nodes g)) \<and> distinct (g_edges g) \<and> list_all valid_edge (g_edges g)
     \<and> (\<forall>e\<in>set (g_edges g). e_source e \<in> node_ids g \<and> e_target e \<in> node_ids g) \<and> acyclic (edge_rel (g_edges g)))"

abbreviation arcs :: "graph \<Rightarrow> (uuid \<times> uuid) set" where
  "arcs g \<equiv> edge_rel (g_edges g)"

lemma walk_reaches: "walk es (n # p) \<Longrightarrow> m \<in> set p \<Longrightarrow> (n, m) \<in> (edge_rel es)\<^sup>+"
proof (induction p arbitrary: n)
  case (Cons k p)
  then have "(n, k) \<in> edge_rel es" "walk es (k # p)" by auto
  with Cons show ?case by (cases "m = k") (auto intro: trancl_into_trancl2)
qed simp

lemma walk_distinct: "acyclic (edge_rel es) \<Longrightarrow> walk es p \<Longrightarrow> distinct p"
proof (induction p)
  case (Cons n p)
  show ?case
  proof (cases p)
    case (Cons m q)
    with Cons.prems have "walk es p" by simp
    moreover have "n \<notin> set p" using walk_reaches [OF Cons.prems(2)] Cons.prems(1) by (auto simp: acyclic_def)
    ultimately show ?thesis using Cons.IH Cons.prems(1) by simp
  qed simp
qed simp

text \<open>A chain of nodes and the links between them.\<close>

fun chained :: "uuid list \<Rightarrow> edge list \<Rightarrow> bool" where
  "chained [a] [] = True"
| "chained (a # b # ms) (e # es) = (e_source e = a \<and> e_target e = b \<and> chained (b # ms) es)"
| "chained _ _ = False"

lemma chained_follow: "chained ms es \<Longrightarrow> links_follow ms es \<and> length ms = Suc (length es)"
  by (induction ms es rule: chained.induct) auto

lemma chained_walk: "chained ms es \<Longrightarrow> set es \<subseteq> set Es \<Longrightarrow> walk Es ms"
  by (induction ms es rule: chained.induct) (auto simp: edge_rel_iff)

lemma chained_snoc: "chained ms es \<Longrightarrow> e_source e = last ms \<Longrightarrow> chained (ms @ [e_target e]) (es @ [e])"
  by (induction ms es rule: chained.induct) auto

lemma chained_next: "chained ms es \<Longrightarrow> i \<in> set ms \<Longrightarrow> i \<noteq> last ms \<Longrightarrow> \<exists>e\<in>set es. e_source e = i \<and> e_target e \<in> set ms"
  by (induction ms es rule: chained.induct) (auto split: if_splits)

lemma chained_prev: "chained ms es \<Longrightarrow> i \<in> set ms \<Longrightarrow> i \<noteq> hd ms \<Longrightarrow> \<exists>e\<in>set es. e_target e = i \<and> e_source e \<in> set ms"
  by (induction ms es rule: chained.induct) (auto split: if_splits)

section \<open>Evidence for a link\<close>

definition hex_hash :: "hash \<Rightarrow> bool" where
  "hex_hash H = (\<forall>j. sha256_hex (H j))"

lemma content_hex: "hex_hash H \<Longrightarrow> sha256_hex (content_cache_key H j)"
  by (simp add: hex_hash_def content_cache_key_def)

definition sound_profile :: "catalogue \<Rightarrow> (string \<times> string) \<Rightarrow> fusion_profile \<Rightarrow> bool" where
  "sound_profile c k p = (fp_definition p \<in> set (cat_nodes c) \<and> node_def_key (fp_definition p) = k
     \<and> fp_manifest p \<in> set (cat_manifests c) \<and> sha256_hex (fp_resource p))"

lemma fold_all: "P d \<Longrightarrow> (\<And>x d. x \<in> set xs \<Longrightarrow> P d \<Longrightarrow> P (f x d)) \<Longrightarrow> P (fold f xs d)"
  by (induction xs arbitrary: d) auto

lemma profiles_sound:
  assumes "hex_hash H" and "good_catalogue c" and "map_of (fusion_profile_index H c) k = Some p"
  shows "sound_profile c k p"
proof -
  let ?ok = "\<lambda>P. \<forall>k p. map_of P k = Some p \<longrightarrow> sound_profile c k p"
  have "?ok (fusion_profile_index H c)"
    unfolding fusion_profile_index_def
  proof (rule fold_all, simp, rule fold_all, assumption)
    fix m P n P'
    assume m: "m \<in> set (cat_manifests c)" and ok: "?ok P'"
    show "?ok (case get c (nd_id n) (Some (nd_version n)) of Inl _ \<Rightarrow> P'
       | Inr d \<Rightarrow> if nd_package_id d \<noteq> pm_id (mf_package m) \<or> nd_package_id n \<noteq> pm_id (mf_package m) then P'
         else AList.update (node_def_key n) (fusion_profile H m d) P')"
    proof (cases "get c (nd_id n) (Some (nd_version n))")
      case (Inr d)
      then have "d \<in> set (cat_nodes c)" "node_def_key d = node_def_key n"
        using get_exact(1) [OF assms(2)] by (auto simp: node_def_key_def)
      then have "sound_profile c (node_def_key n) (fusion_profile H m d)"
        using m assms(1) by (simp add: sound_profile_def fusion_profile_def content_hex)
      with ok Inr show ?thesis by (auto simp: map_of_update)
    qed (use ok in simp)
  qed
  with assms(3) show ?thesis by blast
qed

text \<open>What is left of a node that was found fusable.\<close>

definition fused_node :: "catalogue \<Rightarrow> graph \<Rightarrow> (uuid, execution_step) dict \<Rightarrow> uuid \<Rightarrow> bool" where
  "fused_node c g steps i = ((\<exists>n\<in>set (g_nodes g). n_id n = i \<and> (\<exists>d\<in>set (cat_nodes c). node_def_key d = node_key n
     \<and> ex_fusion_kind (nd_execution d) \<noteq> None)) \<and> (\<exists>s. map_of steps i = Some s \<and> st_control s = None))"

definition sole_link :: "graph \<Rightarrow> edge \<Rightarrow> bool" where
  "sole_link g e = (edges_from g (e_source e) = [e] \<and> edges_to g (e_target e) = [e])"

lemma edges_from_mem: "e \<in> set (edges_from g i) \<longleftrightarrow> e \<in> set (g_edges g) \<and> e_source e = i"
  by (auto simp: edges_from_def)

lemma edges_to_mem: "e \<in> set (edges_to g i) \<longleftrightarrow> e \<in> set (g_edges g) \<and> e_target e = i"
  by (auto simp: edges_to_def)

lemma singleton_list: "length xs = 1 \<Longrightarrow> x \<in> set xs \<Longrightarrow> xs = [x]"
  by (cases xs) auto

lemma link_evidence:
  assumes g: "linked g" and base: "\<forall>i\<in>node_ids g. map_of steps i \<noteq> None" and H: "hex_hash H"
    and c: "good_catalogue c" "list_all sound_definition (cat_nodes c)"
    and e: "e \<in> set (g_edges g)"
  shows "\<exists>v. fusion_link_evidence H g steps (fusion_profile_index H c) e = Inr v \<and> (case v of None \<Rightarrow> True
    | Some (p, k, f) \<Rightarrow> sole_link g e \<and> fp_manifest p \<in> set (cat_manifests c) \<and> sha256_hex (fp_resource p) \<and> port_name k
        \<and> sha256_hex f \<and> fused_node c g steps (e_source e) \<and> fused_node c g steps (e_target e))"
proof -
  let ?P = "fusion_profile_index H c"
  have d: "distinct (map n_id (g_nodes g))" using g by (simp add: linked_def)
  from g e have "e_source e \<in> node_ids g" "e_target e \<in> node_ids g" by (auto simp: linked_def)
  then obtain s t where s: "s \<in> set (g_nodes g)" "n_id s = e_source e" and t: "t \<in> set (g_nodes g)" "n_id t = e_target e"
    unfolding node_ids_def by force
  from s t base obtain a b where ab: "map_of steps (n_id s) = Some a" "map_of steps (n_id t) = Some b"
    unfolding node_ids_def by (metis image_eqI option.exhaust)
  have nodes: "item_of (node_dict (g_nodes g)) (e_source e) = Inr s" "item_of (node_dict (g_nodes g)) (e_target e) = Inr t"
      "item_of steps (n_id s) = Inr a" "item_of steps (n_id t) = Inr b"
    using s t ab by (simp_all add: node_dict_Some [OF d])
  note unf = fusion_link_evidence_def Let_def nodes rbind_simps
  show ?thesis
  proof (cases "map_of ?P (node_key s)")
    case None
    then show ?thesis by (simp add: unf)
  next
    case p: (Some p)
    show ?thesis
    proof (cases "map_of ?P (node_key t)")
      case None
      then show ?thesis by (simp add: unf p)
    next
      case q: (Some q)
      note sp = profiles_sound [OF H c(1) p, unfolded sound_profile_def] and sq = profiles_sound [OF H c(1) q, unfolded sound_profile_def]
      show ?thesis
      proof (cases "fusable g s t (nd_execution (fp_definition p)) (nd_execution (fp_definition q))
          \<and> st_control a = None \<and> st_control b = None \<and> fp_runtime p = fp_runtime q \<and> \<not> rr_network (mf_resources (fp_manifest p))")
        case False
        then show ?thesis by (auto simp: unf p q)
      next
        case True
        then obtain k where k: "ex_fusion_kind (nd_execution (fp_definition p)) = Some k"
            "ex_fusion_kind (nd_execution (fp_definition q)) = Some k" by (auto simp: fusable_def)
        have "sound_definition (fp_definition p)" using c(2) sp by (simp add: list_all_iff)
        then have "port_name k" using k by (simp add: sound_definition_def sound_traits_def)
        moreover have "sole_link g e"
          using True s t e unfolding sole_link_def fusable_def by (metis (no_types, lifting) singleton_list edges_from_mem edges_to_mem)
        moreover have "fused_node c g steps (e_source e)" "fused_node c g steps (e_target e)"
          using s t k sp sq ab True unfolding fused_node_def by (metis option.distinct(1))+
        moreover have "sha256_hex f" if "link_schema H p q e = Some f" for f
          using that content_hex [OF H] by (auto simp: link_schema_def split: option.splits if_splits)
        ultimately show ?thesis using True sp by (auto simp: unf p q k split: option.split)
      qed
    qed
  qed
qed

section \<open>Chains\<close>

definition chain_ok :: "catalogue \<Rightarrow> graph \<Rightarrow> (uuid, execution_step) dict \<Rightarrow> uuid set \<Rightarrow> fusion_chain \<Rightarrow> bool" where
  "chain_ok c g steps consumed ch = (chained (ch_members ch) (ch_links ch) \<and> set (ch_members ch) \<subseteq> node_ids g - consumed
     \<and> (\<forall>e\<in>set (ch_links ch). e \<in> set (g_edges g) \<and> sole_link g e)
     \<and> length (ch_schemas ch) = length (ch_links ch) \<and> list_all sha256_hex (ch_schemas ch)
     \<and> (case ch_profile ch of None \<Rightarrow> ch_links ch = []
        | Some (p, k) \<Rightarrow> ch_links ch \<noteq> [] \<and> fp_manifest p \<in> set (cat_manifests c) \<and> sha256_hex (fp_resource p) \<and> port_name k
            \<and> (\<forall>i\<in>set (ch_members ch). fused_node c g steps i)))"

lemma chain_distinct:
  assumes "linked g" and "chain_ok c g steps consumed ch"
  shows "distinct (ch_members ch)" and "walk (g_edges g) (ch_members ch)"
proof -
  show "walk (g_edges g) (ch_members ch)"
    using assms(2) by (intro chained_walk [of _ "ch_links ch"]) (auto simp: chain_ok_def)
  then show "distinct (ch_members ch)" using assms(1) by (intro walk_distinct) (auto simp: linked_def)
qed

lemma finite_node_ids [simp]: "finite (node_ids g)"
  by (simp add: node_ids_def)

lemma grow_chain_ok:
  assumes g: "linked g" and base: "\<forall>i\<in>node_ids g. map_of steps i \<noteq> None" and H: "hex_hash H"
    and c: "good_catalogue c" "list_all sound_definition (cat_nodes c)"
    and ch: "chain_ok c g steps consumed ch"
  shows "\<exists>ch'. grow_chain H g steps (fusion_profile_index H c) consumed ch = Some (Inr ch')
    \<and> chain_ok c g steps consumed ch' \<and> hd (ch_members ch') = hd (ch_members ch)"
  using ch
proof (induction "card (node_ids g) - length (ch_members ch)" arbitrary: ch rule: less_induct)
  case less
  let ?P = "fusion_profile_index H c"
  let ?rec = "grow_chain H g steps ?P consumed"
  have stop: ?case if "?rec ch = Some (Inr ch)" using that less(2) by blast
  show ?case
  proof (cases "\<exists>e. edges_from g (last (ch_members ch)) = [e]")
    case False
    have "?rec ch = Some (Inr ch)" using False by (subst grow_chain.simps) (auto split: list.split)
    then show ?thesis by (rule stop)
  next
    case True
    then obtain e where ef: "edges_from g (last (ch_members ch)) = [e]" by blast
    then have e: "e \<in> set (g_edges g)" "e_source e = last (ch_members ch)" by (metis edges_from_mem list.set_intros(1))+
    obtain v where v: "fusion_link_evidence H g steps ?P e = Inr v"
      and facts: "case v of None \<Rightarrow> True | Some (p, k, f) \<Rightarrow> sole_link g e \<and> fp_manifest p \<in> set (cat_manifests c) \<and> sha256_hex (fp_resource p)
        \<and> port_name k \<and> sha256_hex f \<and> fused_node c g steps (e_source e) \<and> fused_node c g steps (e_target e)"
      using link_evidence [OF g base H c e(1)] by blast
    show ?thesis
    proof (cases "e_target e \<notin> consumed \<and> (\<exists>p k f. v = Some (p, k, f) \<and> chain_accepts ch p k)")
      case False
      then have "?rec ch = Some (Inr ch)"
        by (subst grow_chain.simps) (auto simp: ef v split: option.split)
      then show ?thesis by (rule stop)
    next
      case True
      then obtain p k f where pk: "v = Some (p, k, f)" "chain_accepts ch p k" and nc: "e_target e \<notin> consumed" by blast
      let ?ch = "grown_by ch e p k f"
      have "?rec ch = ?rec ?ch" using nc pk by (subst grow_chain.simps) (simp add: ef v)
      moreover have ok: "chain_ok c g steps consumed ?ch"
      proof -
        have "e_target e \<in> node_ids g" using g e(1) by (auto simp: linked_def)
        moreover have "\<forall>i\<in>set (ch_members ch). fused_node c g steps i"
        proof (cases "ch_profile ch")
          case None
          then have "chained (ch_members ch) []" using less(2) by (auto simp: chain_ok_def)
          then have "ch_members ch = [e_source e]" using e(2) by (cases "ch_members ch" rule: list.exhaust; cases "tl (ch_members ch)") auto
          with facts pk show ?thesis by simp
        qed (use less(2) in \<open>auto simp: chain_ok_def\<close>)
        ultimately show ?thesis using less(2) facts pk nc e chained_snoc [of "ch_members ch" "ch_links ch" e]
          by (auto simp: chain_ok_def grown_by_def)
      qed
      moreover have "card (node_ids g) - length (ch_members ?ch) < card (node_ids g) - length (ch_members ch)"
      proof -
        have "distinct (ch_members ?ch)" "set (ch_members ?ch) \<subseteq> node_ids g"
          using chain_distinct(1) [OF g ok] ok by (auto simp: chain_ok_def)
        then have "length (ch_members ?ch) \<le> card (node_ids g)" by (metis card_mono distinct_card finite_node_ids)
        then show ?thesis by (simp add: grown_by_def)
      qed
      ultimately obtain ch' where "?rec ch = Some (Inr ch')" "chain_ok c g steps consumed ch'" "hd (ch_members ch') = hd (ch_members ?ch)"
        using less(1) by metis
      moreover have "hd (ch_members ?ch) = hd (ch_members ch)"
      proof -
        have "ch_members ch \<noteq> []" using less(2) by (auto simp: chain_ok_def)
        then show ?thesis by (simp add: grown_by_def)
      qed
      ultimately show ?thesis by auto
    qed
  qed
qed

section \<open>Units\<close>

definition unit_ok :: "catalogue \<Rightarrow> graph \<Rightarrow> (uuid, execution_step) dict \<Rightarrow> fusion_unit \<Rightarrow> bool" where
  "unit_ok c g steps u = (\<exists>links. chained (fu_members u) links \<and> set (fu_members u) \<subseteq> node_ids g
     \<and> (\<forall>e\<in>set links. e \<in> set (g_edges g) \<and> sole_link g e)
     \<and> (case fu_evidence u of None \<Rightarrow> links = []
        | Some f \<Rightarrow> links \<noteq> [] \<and> fe_members f = fu_members u \<and> (\<forall>i\<in>set (fu_members u). fused_node c g steps i)))"

lemma need_Inr [simp]: "need b m = Inr u \<longleftrightarrow> b"
  by (simp add: need_def)

lemma entrypoint_colon: "entrypoint s \<Longrightarrow> s \<noteq> [] \<and> CHR '':'' \<in> set s"
  using py_split_none [of "CHR '':''" s] by (cases "CHR '':'' \<in> set s") (auto simp: entrypoint_def)

lemma isolation_value_mem: "isolation_value i \<in> snd ` set isolations"
  by (cases i) (simp_all add: isolation_value_def isolations_def)

definition sound_packages :: "catalogue \<Rightarrow> bool" where
  "sound_packages c = list_all (\<lambda>m. sound_package (mf_package m) (mf_runtime m) (mf_resources m)) (cat_manifests c)"

lemma unit_of_chain_ok:
  assumes g: "linked g" and m: "sound_packages c" and ch: "chain_ok c g steps consumed ch"
  shows "\<exists>u. unit_of_chain ch = Inr u \<and> fu_members u = ch_members ch \<and> unit_ok c g steps u"
proof (cases "ch_profile ch")
  case None
  with ch show ?thesis by (auto simp: unit_of_chain_def unit_ok_def chain_ok_def)
next
  case (Some pk)
  obtain p k where pk: "pk = (p, k)" by (cases pk)
  note facts = ch [unfolded chain_ok_def Some pk option.case prod.case]
  have pkg: "sound_package (mf_package (fp_manifest p)) (mf_runtime (fp_manifest p)) (mf_resources (fp_manifest p))"
    using m facts by (auto simp: sound_packages_def list_all_iff)
  have fl: "links_follow (ch_members ch) (ch_links ch)" "length (ch_members ch) = Suc (length (ch_links ch))"
    using chained_follow facts by blast+
  obtain f where f: "unit_of_chain ch = Inr \<lparr>fu_members = ch_members ch, fu_evidence = Some f\<rparr>" "fe_members f = ch_members ch"
    using facts pkg fl entrypoint_colon [of "rd_entrypoint (mf_runtime (fp_manifest p))"] chain_distinct(1) [OF g ch]
    by (auto simp: unit_of_chain_def Some pk fusion_post_init_def rbind_Inr_iff sound_package_def isolation_value_mem
        list_all_iff Suc_le_eq)
  with facts show ?thesis by (auto simp: unit_ok_def)
qed

definition all_members :: "fusion_unit list \<Rightarrow> uuid list" where
  "all_members us = concat (map fu_members us)"

lemma obind_Some [simp]: "obind (Some (Inr x)) f = f x" "obind (Some (Inl e)) f = Some (Inl e)"
  by (simp_all add: obind_def)

lemma fusion_units_ok:
  assumes g: "linked g" and base: "\<forall>i\<in>node_ids g. map_of steps i \<noteq> None" and H: "hex_hash H"
    and c: "good_catalogue c" "list_all sound_definition (cat_nodes c)" and m: "sound_packages c"
    and "set order \<subseteq> node_ids g"
  shows "\<exists>us. fusion_units H g steps (fusion_profile_index H c) consumed order = Some (Inr us)
    \<and> list_all (unit_ok c g steps) us \<and> distinct (all_members us) \<and> set (all_members us) \<inter> consumed = {}
    \<and> set order \<subseteq> consumed \<union> set (all_members us) \<and> set (all_members us) \<subseteq> node_ids g"
  using assms(7)
proof (induction order arbitrary: consumed)
  case (Cons i order)
  show ?case
  proof (cases "i \<in> consumed")
    case True
    with Cons show ?thesis by auto
  next
    case False
    let ?ch = "\<lparr>ch_members = [i], ch_links = [], ch_schemas = [], ch_profile = None\<rparr>"
    have "chain_ok c g steps consumed ?ch" using False Cons.prems by (simp add: chain_ok_def)
    from grow_chain_ok [OF g base H c this] obtain ch where
      ch: "grow_chain H g steps (fusion_profile_index H c) consumed ?ch = Some (Inr ch)" "chain_ok c g steps consumed ch"
        "hd (ch_members ch) = i" by auto
    obtain u where u: "unit_of_chain ch = Inr u" "fu_members u = ch_members ch" "unit_ok c g steps u"
      using unit_of_chain_ok [OF g m ch(2)] by blast
    obtain us where us: "fusion_units H g steps (fusion_profile_index H c) (consumed \<union> set (ch_members ch)) order = Some (Inr us)"
      "list_all (unit_ok c g steps) us" "distinct (all_members us)" "set (all_members us) \<inter> (consumed \<union> set (ch_members ch)) = {}"
      "set order \<subseteq> consumed \<union> set (ch_members ch) \<union> set (all_members us)" "set (all_members us) \<subseteq> node_ids g"
      using Cons.IH [of "consumed \<union> set (ch_members ch)"] Cons.prems by auto
    have "ch_members ch \<noteq> []" using ch(2) by (auto simp: chain_ok_def)
    then have i: "i \<in> set (ch_members ch)" using ch(3) by (metis list.set_sel(1))
    have "fusion_units H g steps (fusion_profile_index H c) consumed (i # order) = Some (Inr (u # us))"
      using False ch(1) u(1) us(1) by simp
    moreover have "set (ch_members ch) \<subseteq> node_ids g - consumed" using ch(2) by (simp add: chain_ok_def)
    ultimately show ?thesis using us(2-) u chain_distinct(1) [OF g ch(2)] i by (auto simp: all_members_def)
  qed
qed (simp add: all_members_def)

section \<open>Contraction\<close>

text \<open>A partition of the nodes into units, as \<open>fusion_units\<close> returns it for a whole topological order.\<close>

definition partition_ok :: "catalogue \<Rightarrow> graph \<Rightarrow> (uuid, execution_step) dict \<Rightarrow> fusion_unit list \<Rightarrow> bool" where
  "partition_ok c g steps us = (list_all (unit_ok c g steps) us \<and> distinct (all_members us) \<and> set (all_members us) = node_ids g)"

lemma unit_members: "unit_ok c g steps u \<Longrightarrow> fu_members u \<noteq> [] \<and> fu_node u \<in> set (fu_members u)"
  by (cases "fu_members u") (auto simp: unit_ok_def fu_node_def)

lemma fold_nested: "fold (\<lambda>x. fold F (h x)) xs d = fold F (concat (map h xs)) d"
  by (induction xs arbitrary: d) auto

lemma representatives_Some:
  assumes p: "partition_ok c g steps us"
  shows "map_of (representatives us) i = Some r \<longleftrightarrow> (\<exists>u\<in>set us. i \<in> set (fu_members u) \<and> fu_node u = r)"
proof -
  have "(\<lambda>u. fold (\<lambda>i d. AList.update i (fu_node u) d) (fu_members u))
      = (\<lambda>u. fold (\<lambda>x d. AList.update (fst x) (snd x) d) (map (\<lambda>i. (i, fu_node u)) (fu_members u)))"
    by (simp add: fold_map o_def)
  then have "representatives us = fold (\<lambda>x d. AList.update (fst x) (snd x) d) (concat (map (\<lambda>u. map (\<lambda>i. (i, fu_node u)) (fu_members u)) us)) []"
    unfolding representatives_def by (simp only: fold_nested)
  moreover have "distinct (map fst (concat (map (\<lambda>u. map (\<lambda>i. (i, fu_node u)) (fu_members u)) us)))"
    using p by (simp add: partition_ok_def all_members_def map_concat o_def)
  ultimately show ?thesis by (auto simp: table_Some)
qed

lemma walk_ends:
  assumes "walk es p" and "i \<in> set p"
  shows "(hd p, i) \<in> (edge_rel es)\<^sup>*" and "(i, last p) \<in> (edge_rel es)\<^sup>*"
proof -
  show "(hd p, i) \<in> (edge_rel es)\<^sup>*"
    using assms walk_reaches [of es "hd p" "tl p" i] by (cases p) auto
  show "(i, last p) \<in> (edge_rel es)\<^sup>*"
    using assms
  proof (induction es p arbitrary: i rule: walk.induct)
    case (3 es n m p)
    then have "(m, last (m # p)) \<in> (edge_rel es)\<^sup>*" by simp
    with 3 show ?case by (cases "i = n") (auto intro: converse_rtrancl_into_rtrancl)
  qed auto
qed

lemma unit_walk: "unit_ok c g steps u \<Longrightarrow> walk (g_edges g) (fu_members u)"
  unfolding unit_ok_def by (auto intro!: chained_walk)

lemmas unit_ends = walk_ends [OF unit_walk]

text \<open>The only edge that leaves a member but the last is the next link; dually for the first.\<close>

lemma inner_source:
  assumes "unit_ok c g steps u" and "(a, b) \<in> arcs g" and "a \<in> set (fu_members u)" and "a \<noteq> last (fu_members u)"
  shows "b \<in> set (fu_members u)"
proof -
  from assms(1) obtain links where l: "chained (fu_members u) links" "\<forall>e\<in>set links. e \<in> set (g_edges g) \<and> sole_link g e"
    by (auto simp: unit_ok_def)
  obtain e where e: "e \<in> set links" "e_source e = a" "e_target e \<in> set (fu_members u)" using chained_next [OF l(1) assms(3,4)] by blast
  from assms(2) obtain e' where "e' \<in> set (edges_from g a)" "e_target e' = b" by (auto simp: edge_rel_iff edges_from_mem)
  with l(2) e show ?thesis by (auto simp: sole_link_def)
qed

lemma inner_target:
  assumes "unit_ok c g steps u" and "(a, b) \<in> arcs g" and "b \<in> set (fu_members u)" and "b \<noteq> hd (fu_members u)"
  shows "a \<in> set (fu_members u)"
proof -
  from assms(1) obtain links where l: "chained (fu_members u) links" "\<forall>e\<in>set links. e \<in> set (g_edges g) \<and> sole_link g e"
    by (auto simp: unit_ok_def)
  obtain e where e: "e \<in> set links" "e_target e = b" "e_source e \<in> set (fu_members u)" using chained_prev [OF l(1) assms(3,4)] by blast
  from assms(2) obtain e' where "e' \<in> set (edges_to g b)" "e_source e' = a" by (auto simp: edge_rel_iff edges_to_mem)
  with l(2) e show ?thesis by (auto simp: sole_link_def)
qed

lemma unit_leave:
  assumes u: "unit_ok c g steps u" and "(a, x) \<in> (arcs g)\<^sup>+" and "a \<in> set (fu_members u)" and "x \<notin> set (fu_members u)"
  shows "(last (fu_members u), x) \<in> (arcs g)\<^sup>+"
  using assms(2,3)
proof (induction rule: converse_trancl_induct)
  case (base a)
  with inner_source [OF u base(1)] assms(4) show ?case by (cases "a = last (fu_members u)") auto
next
  case (step a b)
  show ?case
  proof (cases "a = last (fu_members u)")
    case True
    with step(1,2) show ?thesis by (auto intro: trancl_into_trancl2)
  next
    case False
    with step inner_source [OF u step(1)] show ?thesis by blast
  qed
qed

text \<open>What one member reaches that has a way out, every member reaches.\<close>

lemma unit_reach:
  assumes u: "unit_ok c g steps u" and "x \<in> set (fu_members u)" and y: "y \<in> set (fu_members u)"
    and "(x, z) \<in> (arcs g)\<^sup>*" and "(z, w) \<in> arcs g" and "w \<notin> set (fu_members u)"
  shows "(y, z) \<in> (arcs g)\<^sup>*"
proof (cases "z \<in> set (fu_members u)")
  case True
  with inner_source [OF u assms(5)] assms(6) have "z = last (fu_members u)" by blast
  with unit_ends(2) [OF u y] show ?thesis by simp
next
  case False
  with assms(2,4) have "(x, z) \<in> (arcs g)\<^sup>+" by (metis rtranclD)
  from unit_leave [OF u this assms(2) False] unit_ends(2) [OF u y] show ?thesis by (meson rtrancl_trancl_trancl trancl_into_rtrancl)
qed

lemma unit_unique:
  assumes "partition_ok c g steps us" and "u \<in> set us" "v \<in> set us" and "i \<in> set (fu_members u)" "i \<in> set (fu_members v)"
  shows "u = v"
proof -
  have "distinct (concat (map fu_members us))" using assms(1) by (simp add: partition_ok_def all_members_def)
  then show ?thesis using assms(2-)
  proof (induction us)
    case (Cons w us)
    then show ?case by (auto simp: disjoint_iff)
  qed simp
qed

lemma partition_unit: "partition_ok c g steps us \<Longrightarrow> u \<in> set us \<Longrightarrow> unit_ok c g steps u"
  by (simp add: partition_ok_def list_all_iff)

lemma partition_nodes:
  assumes "partition_ok c g steps us"
  shows "distinct (map fu_node us)"
proof -
  have "distinct (concat (map fu_members us))" "\<forall>u\<in>set us. fu_members u \<noteq> []"
    using assms unit_members [OF partition_unit [OF assms]] by (auto simp: partition_ok_def all_members_def)
  then show ?thesis
  proof (induction us)
    case (Cons u us)
    then have "fu_node u \<notin> fu_node ` set us" unfolding fu_node_def by (auto simp: disjoint_iff) (metis list.set_sel(1))
    with Cons show ?case by simp
  qed simp
qed

lemma representative_total:
  assumes "partition_ok c g steps us" and "i \<in> node_ids g"
  obtains u where "u \<in> set us" "i \<in> set (fu_members u)" "map_of (representatives us) i = Some (fu_node u)"
proof -
  from assms obtain u where "u \<in> set us" "i \<in> set (fu_members u)" by (auto simp: partition_ok_def all_members_def)
  with that representatives_Some [OF assms(1)] show ?thesis by blast
qed

lemma external_ends:
  assumes p: "partition_ok c g steps us" and e: "e \<in> set (g_edges g)" "external (representatives us) e"
    and u: "u \<in> set us" "e_source e \<in> set (fu_members u)" and v: "v \<in> set us" "e_target e \<in> set (fu_members v)"
  shows "e_source e = last (fu_members u)" and "e_target e = fu_node v" and "u \<noteq> v"
proof -
  have r: "map_of (representatives us) (e_source e) = Some (fu_node u)" "map_of (representatives us) (e_target e) = Some (fu_node v)"
    using representatives_Some [OF p] u v by blast+
  with e(2) show uv: "u \<noteq> v" by (auto simp: external_def)
  have a: "(e_source e, e_target e) \<in> arcs g" using e(1) by (auto simp: edge_rel_iff)
  show "e_source e = last (fu_members u)"
    using inner_source [OF partition_unit [OF p u(1)] a u(2)] unit_unique [OF p u(1) v(1) _ v(2)] uv by blast
  show "e_target e = fu_node v"
    using inner_target [OF partition_unit [OF p v(1)] a v(2)] unit_unique [OF p v(1) u(1) _ u(2)] uv by (auto simp: fu_node_def)
qed

definition redirected :: "(uuid, uuid) dict \<Rightarrow> edge \<Rightarrow> edge" where
  "redirected R e = \<lparr>e_source = the (map_of R (e_source e)), e_source_port = e_source_port e,
     e_target = the (map_of R (e_target e)), e_target_port = e_target_port e\<rparr>"

lemma concat_map_filter: "concat (map (\<lambda>x. if P x then [f x] else []) xs) = map f (filter P xs)"
  by (induction xs) auto

lemma synthetic_edges_ok:
  assumes g: "linked g" and p: "partition_ok c g steps us"
  shows "synthetic_edges (representatives us) (g_edges g)
    = Inr (map (redirected (representatives us)) (filter (external (representatives us)) (g_edges g)))"
proof -
  let ?R = "representatives us"
  have "rmap (\<lambda>e. rbind (item_of ?R (e_source e)) (\<lambda>s. rbind (item_of ?R (e_target e)) (\<lambda>t.
       if s = t then Inr [] else map_sum CompileValue (\<lambda>e. [e]) (edge_post_init
         \<lparr>e_source = s, e_source_port = e_source_port e, e_target = t, e_target_port = e_target_port e\<rparr>)))) (g_edges g)
    = Inr (map (\<lambda>e. if external ?R e then [redirected ?R e] else []) (g_edges g))"
  proof (rule rmap_map)
    fix e assume e: "e \<in> set (g_edges g)"
    with g have ends: "e_source e \<in> node_ids g" "e_target e \<in> node_ids g" "valid_edge e"
      by (auto simp: linked_def list_all_iff)
    obtain s t where st: "map_of ?R (e_source e) = Some s" "map_of ?R (e_target e) = Some t"
      using representative_total [OF p] ends by metis
    let ?e = "\<lparr>e_source = s, e_source_port = e_source_port e, e_target = t, e_target_port = e_target_port e\<rparr>"
    have "edge_post_init ?e = Inr ?e" using ends(3) by (simp add: valid_edge_def)
    then have "map_sum CompileValue (\<lambda>e. [e]) (edge_post_init ?e) = (Inr [?e] :: compile_error + edge list)"
      by (simp del: edge_post_init_Inr)
    with st show "rbind (item_of ?R (e_source e)) (\<lambda>s. rbind (item_of ?R (e_target e)) (\<lambda>t.
       if s = t then Inr [] else map_sum CompileValue (\<lambda>e. [e]) (edge_post_init
         \<lparr>e_source = s, e_source_port = e_source_port e, e_target = t, e_target_port = e_target_port e\<rparr>)))
      = (Inr (if external ?R e then [redirected ?R e] else []) :: compile_error + edge list)"
      by (simp add: key_or_def external_def redirected_def)
  qed
  then show ?thesis by (simp only: synthetic_edges_def rbind_simps concat_map_filter)
qed

lemma contraction:
  assumes g: "linked g" and p: "partition_ok c g steps us"
  defines "es \<equiv> map (redirected (representatives us)) (filter (external (representatives us)) (g_edges g))"
  shows "edge_rel es \<subseteq> (arcs g)\<^sup>+" and "acyclic (edge_rel es)"
    and "\<forall>e\<in>set es. e_source e \<in> set (map fu_node us) \<and> e_target e \<in> set (map fu_node us)"
proof -
  let ?R = "representatives us"
  have edge: "\<exists>u v. u \<in> set us \<and> v \<in> set us \<and> e_source (redirected ?R e) = fu_node u \<and> e_target (redirected ?R e) = fu_node v
      \<and> (fu_node u, fu_node v) \<in> (arcs g)\<^sup>+" if e: "e \<in> set (g_edges g)" "external ?R e" for e
  proof -
    from g e have "e_source e \<in> node_ids g" "e_target e \<in> node_ids g" by (auto simp: linked_def)
    then obtain u v where u: "u \<in> set us" "e_source e \<in> set (fu_members u)" "map_of ?R (e_source e) = Some (fu_node u)"
      and v: "v \<in> set us" "e_target e \<in> set (fu_members v)" "map_of ?R (e_target e) = Some (fu_node v)"
      using representative_total [OF p] by metis
    have "(fu_node u, e_source e) \<in> (arcs g)\<^sup>*" using unit_ends(1) [OF partition_unit [OF p u(1)] u(2)] by (simp add: fu_node_def)
    moreover have "(e_source e, fu_node v) \<in> arcs g"
      using e(1) external_ends(2) [OF p e u(1,2) v(1,2)] by (auto simp: edge_rel_iff)
    ultimately have "(fu_node u, fu_node v) \<in> (arcs g)\<^sup>+" by (rule rtrancl_into_trancl1)
    with u v show ?thesis by (auto simp: redirected_def)
  qed
  show sub: "edge_rel es \<subseteq> (arcs g)\<^sup>+" using edge by (fastforce simp: es_def edge_rel_def)
  show "\<forall>e\<in>set es. e_source e \<in> set (map fu_node us) \<and> e_target e \<in> set (map fu_node us)"
    using edge by (fastforce simp: es_def)
  have "acyclic ((arcs g)\<^sup>+)" using g by (simp add: linked_def acyclic_def)
  with sub show "acyclic (edge_rel es)" by (rule acyclic_subset [rotated])
qed

end
