(* ===== verification/Steps.thy ===== *)
theory Steps
  imports Chains
begin

text \<open>
  The steps before fusion: over a well-typed graph and a sound catalogue none of their checks
  fails, and a step is constant exactly when no input of the graph reaches it.
\<close>

declare map_of_eq_Some_iff [simp del]

section \<open>The graph\<close>

text \<open>
  What the compiler needs of its context: a catalogue as discovery builds it, whose schemas the
  validator can present, and no collect node that may be fused (it would be a boundary of a loop
  and a part of its body in one).
\<close>

definition good_context :: "compile_context \<Rightarrow> bool" where
  "good_context cx = (sound_catalogue (cx_catalogue cx) \<and> presentable_catalogue (cx_catalogue cx)
     \<and> list_all (\<lambda>d. nd_id d = collect_type \<longrightarrow> ex_fusion_kind (nd_execution d) = None) (cat_nodes (cx_catalogue cx))
     \<and> 0 < cc_max_subgraph_depth cx)"

lemma good_context_parts:
  assumes "good_context cx"
  shows "good_catalogue (cx_catalogue cx)" "list_all sound_definition (cat_nodes (cx_catalogue cx))" "sound_packages (cx_catalogue cx)"
  using assms by (simp_all add: good_context_def sound_catalogue_def sound_packages_def)

lemma duplicate_filter:
  assumes "\<not> distinct xs"
  obtains x where "x \<in> set xs" and "\<And>P. P x \<Longrightarrow> 2 \<le> length (filter P xs)"
proof -
  obtain as bs cs x where xs: "xs = as @ [x] @ bs @ [x] @ cs" using not_distinct_decomp [OF assms] by blast
  then have "x \<in> set xs" "\<And>P. P x \<Longrightarrow> 2 \<le> length (filter P xs)" by simp_all
  then show thesis by (rule that)
qed

lemma well_typed_linked:
  assumes v: "valid_graph g" and w: "well_typed lit vx g"
  shows "linked g"
proof -
  have d: "distinct (map n_id (g_nodes g))" using w by (simp add: well_typed_def)
  have "distinct (g_edges g)"
  proof (rule ccontr)
    assume "\<not> distinct (g_edges g)"
    then obtain e where e: "e \<in> set (g_edges g)" "\<And>P. P e \<Longrightarrow> 2 \<le> length (filter P (g_edges g))"
      by (rule duplicate_filter) blast
    from w e(1) have "edge_typed vx g e" by (simp add: well_typed_def)
    then obtain dn n where n: "n \<in> set (g_nodes g)" "n_id n = e_target e" "definition_of (cx_catalogue vx) n = Some dn"
      and port: "has_port (nd_input_schema dn) (e_target_port e)"
      by (force simp: edge_typed_def typed_at_def has_port_def dest: map_of_SomeD)
    from w n(1) have "node_typed lit vx g n" by (simp add: well_typed_def)
    with n(3) port have "fed g n (e_target_port e) \<le> 1" by (auto simp: node_typed_def)
    with e(2) [of "\<lambda>x. e_target x = n_id n \<and> e_target_port x = e_target_port e"] n(2) show False by (simp add: fed_def)
  qed
  moreover have "e_source e \<in> node_ids g \<and> e_target e \<in> node_ids g" if "e \<in> set (g_edges g)" for e
    using that w edge_typed_ends by (auto simp: well_typed_def node_ids_def)
  ultimately show ?thesis using v w d by (simp add: linked_def valid_graph_def well_typed_def)
qed

section \<open>Annotations\<close>

definition sound_annotation :: "resource_annotation \<Rightarrow> bool" where
  "sound_annotation r = (ra_gpu r \<in> {''none'', ''optional'', ''required''} \<and> 0 \<le> ra_ram_mb r \<and> 0 \<le> ra_vram_mb r)"

lemma annotation_Inr [simp]: "resource_annotation_post_init r = Inr r' \<longleftrightarrow> r' = r \<and> sound_annotation r"
  by (auto simp: resource_annotation_post_init_def rbind_Inr_iff sound_annotation_def)

lemma sound_zero [simp]: "sound_annotation zero_resources"
  by (simp add: sound_annotation_def zero_resources_def)

lemma post_init_ok: "sound_annotation r \<Longrightarrow> resource_annotation_post_init r = Inr r"
  by simp

lemma combine_resources_ok:
  assumes "list_all sound_annotation rs"
  shows "\<exists>r. combine_resources peak rs = Inr r \<and> sound_annotation r"
proof (cases "rs = []")
  case False
  let ?total = "if peak then max_default else sum_list"
  let ?r = "\<lparr>ra_gpu = ra_gpu (arg_min_list (\<lambda>r. - gpu_rank (ra_gpu r)) rs), ra_ram_mb = ?total (map ra_ram_mb rs),
     ra_vram_mb = ?total (map ra_vram_mb rs), ra_network = list_ex ra_network rs\<rparr>"
  have nn: "0 \<le> ?total (map f rs)" if "\<And>r. r \<in> set rs \<Longrightarrow> 0 \<le> f r" for f
  proof (cases peak)
    case True
    have "map f rs \<noteq> []" using False by simp
    from max_default_in [OF this] that True show ?thesis by auto
  qed (use that in \<open>simp add: sum_list_map_nonneg\<close>)
  have "arg_min_list (\<lambda>r. - gpu_rank (ra_gpu r)) rs \<in> set rs" using False by (rule arg_min_list_in)
  then have "sound_annotation ?r" using assms nn [of ra_ram_mb] nn [of ra_vram_mb]
    by (auto simp: sound_annotation_def list_all_iff)
  with False show ?thesis by (auto simp: combine_resources_def Let_def)
qed (simp add: combine_resources_def)

lemma resource_index_sound:
  assumes "sound_packages c"
  shows "\<exists>r. resource_annotation_of (map_of (resource_index c) k) = Inr r \<and> sound_annotation r"
proof -
  let ?ok = "\<lambda>d :: (string \<times> string, resource_requirements) dict. \<forall>k r. map_of d k = Some r \<longrightarrow> 0 \<le> rr_estimated_ram_mb r \<and> 0 \<le> rr_estimated_vram_mb r"
  have "?ok (resource_index c)" unfolding resource_index_def
  proof (rule fold_all, simp, rule fold_all, assumption)
    fix m n d d'
    assume "m \<in> set (cat_manifests c)" and "?ok d'"
    with assms show "?ok (AList.update (node_def_key n) (mf_resources m) d')"
      by (auto simp: map_of_update sound_packages_def list_all_iff sound_package_def)
  qed
  moreover have "gpu_value x \<in> {''none'', ''optional'', ''required''}" for x
    by (cases x) (simp_all add: gpu_value_def gpu_requirements_def)
  ultimately have "sound_annotation \<lparr>ra_gpu = gpu_value (rr_gpu r), ra_ram_mb = rr_estimated_ram_mb r,
      ra_vram_mb = rr_estimated_vram_mb r, ra_network = rr_network r\<rparr>" if "map_of (resource_index c) k = Some r" for r
    using that by (cases k) (auto simp: sound_annotation_def)
  then show ?thesis by (cases "map_of (resource_index c) k") (simp_all add: resource_annotation_of_def)
qed

definition sound_control :: "control_annotation \<Rightarrow> bool" where
  "sound_control a = (if ca_kind a = ''loop'' then \<exists>k\<ge>0. ca_max_iterations a = Some k
     else ca_kind a = ''condition'' \<and> ca_branches a = [''true_value'', ''false_value''])"

lemma need_True [simp]: "need True m = Inr ()"
  by simp

lemma control_annotation_ok:
  assumes "n_type_id n = for_each \<Longrightarrow> loop_bound n \<noteq> None"
  shows "\<exists>a. control_annotation_of n = Inr a \<and> (case a of None \<Rightarrow> n_type_id n \<notin> {for_each, switch_type}
    | Some x \<Rightarrow> sound_control x \<and> (ca_kind x = ''loop'' \<longleftrightarrow> n_type_id n = for_each))"
proof -
  let ?m = "case map_of (n_inputs n) ''items'' of Some (JArr js) \<Rightarrow> Some (int (length js))
           | _ \<Rightarrow> (case map_of (n_metadata n) (ustr ''max_iterations'') of Some (JInt k) \<Rightarrow> Some k | _ \<Rightarrow> None)"
  let ?sel = "case map_of (n_inputs n) ''condition'' of
             Some (JBool b) \<Rightarrow> Some (if b then ''true_value'' else ''false_value'') | _ \<Rightarrow> None"
  let ?loop = "\<lparr>ca_kind = ''loop'', ca_max_iterations = ?m, ca_selected_branch = None, ca_branches = []\<rparr>"
  let ?switch = "\<lparr>ca_kind = ''condition'', ca_max_iterations = None, ca_selected_branch = ?sel, ca_branches = [''true_value'', ''false_value'']\<rparr>"
  have "\<exists>k\<ge>0. ?m = Some k" if "loop_bound n \<noteq> None"
    using that unfolding loop_bound_def by (cases "map_of (n_inputs n) ''items''") (auto split: option.splits json.splits if_splits)
  then have loop: "control_annotation_post_init ?loop = Inr ?loop \<and> sound_control ?loop" if "loop_bound n \<noteq> None"
    using that by (auto simp: control_annotation_post_init_def sound_control_def non_negative_def rbind_Inr_iff)
  have sel: "?sel = None \<or> ?sel = Some ''true_value'' \<or> ?sel = Some ''false_value''"
    by (cases "map_of (n_inputs n) ''condition''") (auto split: json.split)
  have switch: "control_annotation_post_init ?switch = Inr ?switch \<and> sound_control ?switch"
    using sel by (elim disjE) (simp_all add: control_annotation_post_init_def sound_control_def non_negative_def)
  have "for_each \<noteq> switch_type" by (simp add: for_each_def switch_type_def)
  then show ?thesis using assms loop switch unfolding control_annotation_of_def
    by (cases "n_type_id n = for_each"; cases "n_type_id n = switch_type") simp_all
qed

section \<open>One step\<close>

lemma set_sources: "m \<in> set (sources_of g i) \<longleftrightarrow> (m, i) \<in> arcs g"
  by (auto simp: sources_of_def edges_to_def edge_rel_iff)

lemma set_targets: "m \<in> set (targets_of g i) \<longleftrightarrow> (i, m) \<in> arcs g"
  by (auto simp: targets_of_def edges_from_def edge_rel_iff)

lemma external_nodes: "set (map fst (dkeys (external_targets g))) = bound_nodes (g_inputs g)"
proof -
  have "external_targets g = fold (\<lambda>x d. AList.update (b_node (snd x), b_port (snd x)) (fst x) d) (g_inputs g) []"
    by (simp add: external_targets_def case_prod_unfold)
  then have "fst ` set (external_targets g) = (\<lambda>x. (b_node (snd x), b_port (snd x))) ` set (g_inputs g)"
    by (simp only: table_keys) simp
  then have "fst ` fst ` set (external_targets g) = fst ` (\<lambda>x. (b_node (snd x), b_port (snd x))) ` set (g_inputs g)"
    by (simp only:)
  then show ?thesis by (simp add: bound_nodes_def image_image)
qed

lemma no_loop: "linked g \<Longrightarrow> (i, i) \<notin> arcs g"
  by (auto simp: linked_def acyclic_def)

text \<open>A node that some input of the graph reaches.\<close>

definition reached :: "graph \<Rightarrow> uuid \<Rightarrow> bool" where
  "reached g i = (\<exists>j\<in>bound_nodes (g_inputs g). (j, i) \<in> (arcs g)\<^sup>*)"

lemma reached_step: "reached g i \<longleftrightarrow> i \<in> bound_nodes (g_inputs g) \<or> (\<exists>j. (j, i) \<in> arcs g \<and> reached g j)"
proof
  assume "reached g i"
  then obtain j where j: "j \<in> bound_nodes (g_inputs g)" "(j, i) \<in> (arcs g)\<^sup>*" by (auto simp: reached_def)
  from j(2) show "i \<in> bound_nodes (g_inputs g) \<or> (\<exists>j. (j, i) \<in> arcs g \<and> reached g j)"
    by (cases rule: rtranclE) (use j(1) in \<open>auto simp: reached_def\<close>)
next
  assume "i \<in> bound_nodes (g_inputs g) \<or> (\<exists>j. (j, i) \<in> arcs g \<and> reached g j)"
  then show "reached g i" by (auto simp: reached_def intro: rtrancl_into_rtrancl)
qed

text \<open>What a step before fusion says of its node.\<close>

definition base_step :: "compile_context \<Rightarrow> graph \<Rightarrow> layout \<Rightarrow> execution_step \<Rightarrow> bool" where
  "base_step cx g ly s = (sha256_hex (st_cache_key s) \<and> dotted_id (st_type_id s) \<and> semver (st_type_version s)
     \<and> sound_annotation (st_resources s) \<and> map_of (ly_lengths ly) (st_node s) = Some (st_critical_length s)
     \<and> (st_is_constant s \<longleftrightarrow> \<not> reached g (st_node s)) \<and> st_members s = [st_node s] \<and> st_fusion s = None
     \<and> (\<exists>n\<in>set (g_nodes g). \<exists>d. n_id n = st_node s \<and> definition_of (cx_catalogue cx) n = Some d
          \<and> control_annotation_of n = Inr (st_control s)
          \<and> (st_cacheable s \<longleftrightarrow> cacheable_step (st_is_constant s) (nd_execution d) (st_control s) (st_resources s))))"

definition built :: "compile_context \<Rightarrow> graph \<Rightarrow> layout \<Rightarrow> uuid list \<Rightarrow> build_state \<Rightarrow> bool" where
  "built cx g ly xs st = (map st_node (bs_steps st) = xs \<and> list_all (base_step cx g ly) (bs_steps st)
     \<and> (\<forall>i\<in>set xs. map_of (bs_constants st) i = Some (\<not> reached g i)) \<and> (\<forall>i\<in>set xs. map_of (bs_keys st) i \<noteq> None)
     \<and> (\<forall>k\<in>snd ` set (bs_keys st). sha256_hex k))"

lemma upstream_ok:
  assumes "\<And>j. (j, i) \<in> arcs g \<Longrightarrow> map_of keys j \<noteq> None"
  shows "\<exists>u. upstream_of g keys i = Inr u"
proof -
  have "rmap (\<lambda>e. rbind (item_of keys (e_source e)) (\<lambda>k. Inr (e_target_port e,
       jfields [(''cache_key'', jstr k), (''source_port'', jstr (e_source_port e))]))) (incoming_of g i)
    = Inr (map (\<lambda>e. (e_target_port e, jfields [(''cache_key'', jstr (the (map_of keys (e_source e)))),
        (''source_port'', jstr (e_source_port e))])) (incoming_of g i))"
  proof (rule rmap_map)
    fix e assume "e \<in> set (incoming_of g i)"
    then have "(e_source e, i) \<in> arcs g" by (auto simp: incoming_of_def edges_to_def edge_rel_iff)
    with assms obtain k where "map_of keys (e_source e) = Some k" by blast
    then show "rbind (item_of keys (e_source e)) (\<lambda>k. Inr (e_target_port e,
       jfields [(''cache_key'', jstr k), (''source_port'', jstr (e_source_port e))]))
      = (Inr (e_target_port e, jfields [(''cache_key'', jstr (the (map_of keys (e_source e)))),
        (''source_port'', jstr (e_source_port e))]) :: compile_error + string \<times> json)"
      by (simp add: key_or_def)
  qed
  then show ?thesis by (simp add: upstream_of_def Let_def)
qed

lemma node_cache_key_ok: "hex_hash H \<Longrightarrow> \<exists>k. node_cache_key H n u 1 = Inr k \<and> sha256_hex k"
  by (simp add: node_cache_key_def content_hex)

lemma incoming_distinct: "linked g \<Longrightarrow> distinct (incoming_of g i)"
  by (simp add: incoming_of_def edges_to_def linked_def)

lemma constant_of:
  assumes "\<forall>j. (j, i) \<in> arcs g \<longrightarrow> map_of cs j = Some (\<not> reached g j)"
  shows "(if i \<in> set (map fst (dkeys (external_targets g))) then Inr False
       else rbind (rmap (item_of cs) (sort (remdups (sources_of g i)))) (\<lambda>bs. Inr (list_all (\<lambda>b. b) bs)))
    = (Inr (\<not> reached g i) :: compile_error + bool)"
proof (cases "i \<in> bound_nodes (g_inputs g)")
  case True
  with reached_step [of g i] show ?thesis unfolding external_nodes by simp
next
  case False
  have "rmap (item_of cs) (sort (remdups (sources_of g i))) = (Inr (map (\<lambda>j. \<not> reached g j) (sort (remdups (sources_of g i))))
      :: compile_error + bool list)"
    by (rule rmap_map) (simp add: set_sources assms)
  then show ?thesis using False reached_step [of g i] unfolding external_nodes
    by (auto simp: list_all_iff set_sources)
qed

lemma build_step_ok:
  assumes H: "hex_hash H" and cx: "good_context cx" and g: "linked g" "valid_graph g" "well_typed lit (validation_context.truncate cx) g"
    and n: "i \<in> node_ids g" and src: "\<And>j. (j, i) \<in> arcs g \<Longrightarrow> j \<in> set xs"
    and ly: "map_of (ly_groups ly) i = Some gr" "0 \<le> gr" "map_of (ly_lengths ly) i = Some len" "0 < len"
    and st: "built cx g ly xs st"
  shows "\<exists>st'. build_step H cx g ly i st = Inr st' \<and> built cx g ly (xs @ [i]) st'"
proof -
  let ?c = "cx_catalogue cx"
  have d: "distinct (map n_id (g_nodes g))" using g by (simp add: linked_def)
  from n obtain m where m: "m \<in> set (g_nodes g)" "n_id m = i" by (auto simp: node_ids_def)
  have vm: "valid_node m" using g(2) m by (simp add: valid_graph_def list_all_iff)
  have "node_typed lit (validation_context.truncate cx) g m" using g(3) m by (simp add: well_typed_def)
  then obtain dn where dn: "definition_of ?c m = Some dn" and lb: "n_type_id m = for_each \<Longrightarrow> loop_bound m \<noteq> None"
    by (auto simp: node_typed_def validation_context.truncate_def)
  from dn have get: "get ?c (n_type_id m) (Some (n_type_version m)) = Inr dn"
    by (auto simp: definition_of_def split: sum.splits)
  obtain a where a: "control_annotation_of m = Inr a" using control_annotation_ok [OF lb] by blast
  obtain rs where rs: "resource_annotation_of (map_of (resource_index ?c) (node_key m)) = Inr rs" "sound_annotation rs"
    using resource_index_sound [OF good_context_parts(3) [OF cx]] by blast
  have keys: "\<And>j. (j, i) \<in> arcs g \<Longrightarrow> map_of (bs_keys st) j \<noteq> None" using st src by (auto simp: built_def)
  obtain u where u: "upstream_of g (bs_keys st) i = Inr u" using upstream_ok [OF keys] by blast
  obtain key where key: "node_cache_key H m u 1 = Inr key" "sha256_hex key" using node_cache_key_ok [OF H] by blast
  have const: "(if i \<in> set (map fst (dkeys (external_targets g))) then Inr False
       else rbind (rmap (item_of (bs_constants st)) (sort (remdups (sources_of g i)))) (\<lambda>bs. Inr (list_all (\<lambda>b. b) bs)))
    = (Inr (\<not> reached g i) :: compile_error + bool)"
    using st src by (intro constant_of) (auto simp: built_def)
  have item: "item_of (node_dict (g_nodes g)) i = Inr m" using m by (simp add: node_dict_Some [OF d])
  let ?s = "\<lparr>st_index = int (length (bs_steps st)), st_group = gr, st_node = i,
         st_type_id = n_type_id m, st_type_version = n_type_version m, st_inputs = n_inputs m, st_metadata = n_metadata m,
         st_incoming = incoming_of g i, st_dependencies = sort (remdups (sources_of g i)), st_dependents = sort (remdups (targets_of g i)),
         st_cache_key = key, st_is_constant = \<not> reached g i, st_cacheable = cacheable_step (\<not> reached g i) (nd_execution dn) a rs,
         st_critical_length = len, st_on_critical_path = (i \<in> set (ly_critical ly)), st_resources = rs, st_control = a,
         st_members = [i], st_fusion = None\<rparr>"
  have inc: "\<forall>e\<in>set (incoming_of g i). e_target e = i \<and> e_source e \<noteq> i"
    using no_loop [OF g(1), of i] by (auto simp: incoming_of_def edges_to_def edge_rel_iff)
  have step: "step_post_init ?s = Inr ?s"
    using ly vm key(2) incoming_distinct [OF g(1), of i] no_loop [OF g(1), of i] inc
    by (simp add: step_post_init_def rbind_Inr_iff valid_node_def set_sources set_targets list_all_iff)
  have ix: "item_of (ly_groups ly) i = Inr gr" "item_of (ly_lengths ly) i = Inr len" using ly by simp_all
  let ?st = "\<lparr>bs_constants = AList.update i (\<not> reached g i) (bs_constants st), bs_keys = AList.update i key (bs_keys st),
         bs_steps = bs_steps st @ [?s]\<rparr>"
  have "build_step H cx g ly i st = Inr ?st"
    unfolding build_step_def Let_def by (simp only: item const u key(1) rs(1) get a ix step rbind_simps map_sum.simps id_apply)
  have "base_step cx g ly ?s"
    using vm key(2) rs(2) ly m dn a by (auto simp: base_step_def valid_node_def)
  moreover have "\<forall>k\<in>snd ` set (AList.update i key (bs_keys st)). sha256_hex k"
    using st key(2) values_update [of i key "bs_keys st"] unfolding built_def by blast
  ultimately have "built cx g ly (xs @ [i]) ?st"
    using st by (simp add: built_def map_of_update)
  with \<open>build_step H cx g ly i st = Inr ?st\<close> show ?thesis by blast
qed

lemma build_steps_ok:
  assumes H: "hex_hash H" and cx: "good_context cx" and g: "linked g" "valid_graph g" "well_typed lit (validation_context.truncate cx) g"
    and order: "set order \<subseteq> node_ids g" and src: "\<And>xs i ys j. order = xs @ i # ys \<Longrightarrow> (j, i) \<in> arcs g \<Longrightarrow> j \<in> set xs"
    and ly: "\<forall>i\<in>set order. \<exists>k len. map_of (ly_groups ly) i = Some k \<and> 0 \<le> k \<and> map_of (ly_lengths ly) i = Some len \<and> 0 < len"
  shows "\<exists>st. build_steps H cx g ly order = Inr st \<and> built cx g ly order st"
  using order src ly
proof (induction order rule: rev_induct)
  case Nil
  then show ?case by (simp add: build_steps_def built_def)
next
  case (snoc i order)
  have "\<exists>st. build_steps H cx g ly order = Inr st \<and> built cx g ly order st"
  proof (rule snoc.IH)
    fix xs j ys k assume "order = xs @ j # ys" "(k, j) \<in> arcs g"
    with snoc.prems(2) [of xs j "ys @ [i]" k] show "k \<in> set xs" by simp
  qed (use snoc.prems in auto)
  then obtain st where st: "build_steps H cx g ly order = Inr st" "built cx g ly order st" by blast
  obtain k len where k: "map_of (ly_groups ly) i = Some k" "0 \<le> k" "map_of (ly_lengths ly) i = Some len" "0 < len"
    using snoc.prems(3) by auto
  have "\<exists>st'. build_step H cx g ly i st = Inr st' \<and> built cx g ly (order @ [i]) st'"
    by (rule build_step_ok [OF H cx g _ _ k st(2)]) (use snoc.prems in auto)
  with st(1) show ?case by (simp add: build_steps_def)
qed

end
