(* ===== verification/Collapse.thy ===== *)
theory Collapse
  imports Steps
begin

text \<open>
  Collapsing the units into steps: the contracted graph has layers, every check of the new steps
  passes, and their dependencies are the arcs of the contracted graph.
\<close>

declare map_of_eq_Some_iff [simp del]

section \<open>Layer indexes\<close>

lemma enumerate_mem: "(k, x) \<in> set (enumerate 0 xs) \<longleftrightarrow> k < length xs \<and> xs ! k = x"
  by (auto simp: in_set_enumerate_eq)

lemma layer_indexes_keys: "map fst (layer_indexes ls) = concat ls"
proof -
  have "map fst (layer_indexes ls) = concat (map snd (enumerate 0 ls))"
    by (simp add: layer_indexes_def map_concat o_def case_prod_unfold)
  then show ?thesis by simp
qed

lemma layer_indexes_Some:
  assumes "distinct (concat ls)"
  shows "map_of (layer_indexes ls) i = Some k \<longleftrightarrow> (\<exists>j<length ls. i \<in> set (ls ! j) \<and> k = int j)"
proof -
  have "map_of (layer_indexes ls) i = Some k \<longleftrightarrow> (i, k) \<in> set (layer_indexes ls)"
    using assms by (intro map_of_Some_iff) (simp add: layer_indexes_keys)
  also have "\<dots> \<longleftrightarrow> (\<exists>j l. (j, l) \<in> set (enumerate 0 ls) \<and> i \<in> set l \<and> k = int j)"
    by (force simp: layer_indexes_def)
  finally show ?thesis by (auto simp: enumerate_mem)
qed

lemma layer_indexes_total:
  assumes "distinct (concat ls)" and "i \<in> set (concat ls)"
  obtains j where "j < length ls" "i \<in> set (ls ! j)" "map_of (layer_indexes ls) i = Some (int j)"
proof -
  from assms(2) obtain l where "l \<in> set ls" "i \<in> set l" by auto
  then obtain j where "j < length ls" "i \<in> set (ls ! j)" by (metis in_set_conv_nth)
  with that layer_indexes_Some [OF assms(1)] show ?thesis by blast
qed

section \<open>One unit\<close>

definition contracted :: "graph \<Rightarrow> fusion_unit list \<Rightarrow> edge list" where
  "contracted g us = map (redirected (representatives us)) (filter (external (representatives us)) (g_edges g))"

definition collapsed_step :: "graph \<Rightarrow> (uuid, execution_step) dict \<Rightarrow> edge list \<Rightarrow> fusion_unit \<Rightarrow> execution_step \<Rightarrow> bool" where
  "collapsed_step g base es u s = (st_node s = fu_node u \<and> st_members s = fu_members u \<and> st_fusion s = fu_evidence u
     \<and> set (st_dependencies s) = {j. (j, fu_node u) \<in> edge_rel es} \<and> set (st_dependents s) = {j. (fu_node u, j) \<in> edge_rel es}
     \<and> sound_annotation (st_resources s) \<and> 0 < st_critical_length s \<and> sha256_hex (st_cache_key s)
     \<and> (st_is_constant s \<longleftrightarrow> (\<forall>i\<in>set (fu_members u). \<not> reached g i))
     \<and> st_control s = (if length (fu_members u) = 1 then Option.bind (map_of base (fu_node u)) st_control else None))"

text \<open>The table of the steps before fusion.\<close>

definition base_table :: "compile_context \<Rightarrow> graph \<Rightarrow> layout \<Rightarrow> (uuid, execution_step) dict \<Rightarrow> bool" where
  "base_table cx g ly base = ((\<forall>i\<in>node_ids g. \<exists>s. map_of base i = Some s)
     \<and> (\<forall>i s. map_of base i = Some s \<longrightarrow> st_node s = i \<and> base_step cx g ly s \<and> 0 < st_critical_length s))"

lemma built_table:
  assumes "built cx g ly order st" and "distinct order" and "set order = node_ids g"
    and "\<forall>i\<in>set order. \<exists>len. map_of (ly_lengths ly) i = Some len \<and> 0 < len"
  shows "base_table cx g ly (step_table (bs_steps st))"
proof -
  have d: "distinct (map st_node (bs_steps st))" using assms by (simp add: built_def)
  have keys: "st_node ` set (bs_steps st) = node_ids g" using assms by (auto simp: built_def)
  have pos: "0 < st_critical_length s" if "s \<in> set (bs_steps st)" for s
  proof -
    have "map_of (ly_lengths ly) (st_node s) = Some (st_critical_length s)" "st_node s \<in> set order"
      using that assms(1) by (auto simp: built_def list_all_iff base_step_def)
    with assms(4) show ?thesis by force
  qed
  have all: "\<forall>s\<in>set (bs_steps st). base_step cx g ly s" using assms(1) by (simp add: built_def list_all_iff)
  show ?thesis unfolding base_table_def
  proof (intro conjI ballI allI impI)
    fix i assume "i \<in> node_ids g"
    with keys obtain s where "s \<in> set (bs_steps st)" "st_node s = i" by force
    then show "\<exists>s. map_of (step_table (bs_steps st)) i = Some s" by (auto simp: step_table_Some [OF d])
  qed (use pos all in \<open>auto simp: step_table_Some [OF d]\<close>)
qed

lemma neighbours_dependencies:
  assumes g: "linked g" and p: "partition_ok c g steps us"
  defines "R \<equiv> representatives us"
  shows "set (neighbours R e_source (filter (\<lambda>e. external R e \<and> map_of R (e_target e) = Some i) (g_edges g)))
      = {j. (j, i) \<in> edge_rel (contracted g us)}"
    and "set (neighbours R e_target (filter (\<lambda>e. external R e \<and> map_of R (e_source e) = Some i) (g_edges g)))
      = {j. (i, j) \<in> edge_rel (contracted g us)}"
proof -
  have tot: "map_of R (e_source e) \<noteq> None \<and> map_of R (e_target e) \<noteq> None" if "e \<in> set (g_edges g)" for e
  proof -
    from that g have ends: "e_source e \<in> node_ids g" "e_target e \<in> node_ids g" by (auto simp: linked_def)
    obtain u where "map_of R (e_source e) = Some (fu_node u)" using representative_total [OF p ends(1)] unfolding R_def by blast
    moreover obtain v where "map_of R (e_target e) = Some (fu_node v)" using representative_total [OF p ends(2)] unfolding R_def by blast
    ultimately show ?thesis by simp
  qed
  have rel: "(j, k) \<in> edge_rel (contracted g us) \<longleftrightarrow>
      (\<exists>e\<in>set (g_edges g). external R e \<and> the (map_of R (e_source e)) = j \<and> the (map_of R (e_target e)) = k)" for j k
    by (auto simp: edge_rel_iff contracted_def redirected_def R_def)
  show "set (neighbours R e_source (filter (\<lambda>e. external R e \<and> map_of R (e_target e) = Some i) (g_edges g)))
      = {j. (j, i) \<in> edge_rel (contracted g us)}"
    using tot by (force simp: rel neighbours_def)
  show "set (neighbours R e_target (filter (\<lambda>e. external R e \<and> map_of R (e_source e) = Some i) (g_edges g)))
      = {j. (i, j) \<in> edge_rel (contracted g us)}"
    using tot by (force simp: rel neighbours_def)
qed

lemma max_default_pos:
  assumes "xs \<noteq> []" and "\<And>x. x \<in> set xs \<Longrightarrow> (0::int) < f x"
  shows "0 < max_default (map f xs)"
proof -
  have "map f xs \<noteq> []" using assms(1) by simp
  from max_default_in [OF this] assms(2) show ?thesis by auto
qed

lemma unit_singleton:
  assumes "unit_ok c g steps u"
  shows "length (fu_members u) = 1 \<longleftrightarrow> fu_evidence u = None"
    and "fu_evidence u = Some f \<Longrightarrow> fe_members f = fu_members u"
proof -
  from assms obtain links where l: "chained (fu_members u) links"
      "case fu_evidence u of None \<Rightarrow> links = [] | Some f \<Rightarrow> links \<noteq> [] \<and> fe_members f = fu_members u \<and> (\<forall>i\<in>set (fu_members u). fused_node c g steps i)"
    by (auto simp: unit_ok_def)
  have "length (fu_members u) = Suc (length links)" using chained_follow [OF l(1)] by simp
  with l(2) show "length (fu_members u) = 1 \<longleftrightarrow> fu_evidence u = None" by (auto split: option.splits)
  show "fu_evidence u = Some f \<Longrightarrow> fe_members f = fu_members u" using l(2) by simp
qed

lemma collapse_unit_ok:
  assumes H: "hex_hash H" and g: "linked g" and base: "base_table cx g ly base"
    and p: "partition_ok c g base us" and u: "u \<in> set us"
    and groups: "map_of groups (fu_node u) = Some k'" "0 \<le> k'"
  shows "\<exists>s. collapse_unit H g base (representatives us) groups (k, u) = Inr s \<and> collapsed_step g base (contracted g us) u s
    \<and> st_index s = int k \<and> st_group s = k'"
proof -
  let ?R = "representatives us" and ?i = "fu_node u"
  note uo = partition_unit [OF p u] and um = unit_members [OF partition_unit [OF p u]]
  have sub: "set (fu_members u) \<subseteq> node_ids g" using uo by (auto simp: unit_ok_def)
  define b where "b i = the (map_of base i)" for i
  define ms where "ms = map b (fu_members u)"
  have m: "map_of base i = Some (b i)" if "i \<in> set (fu_members u)" for i
    using that sub base by (fastforce simp: base_table_def b_def)
  have rm: "rmap (item_of base) (fu_members u) = Inr ms"
    unfolding ms_def by (rule rmap_map) (simp add: m)
  have bs: "base_step cx g ly s" "0 < st_critical_length s" if "s \<in> set ms" for s
    using that m base by (auto simp: ms_def base_table_def)
  have ne: "ms \<noteq> []" and len: "length ms = length (fu_members u)" using um by (auto simp: ms_def)
  have hd: "hd ms = b ?i" using um by (simp add: ms_def fu_node_def hd_map)
  have hdm: "hd ms \<in> set ms" using ne by simp
  obtain rs where rs: "combine_resources True (map st_resources ms) = Inr rs" "sound_annotation rs"
    using combine_resources_ok [of "map st_resources ms" True] bs(1) by (auto simp: list_all_iff base_step_def)
  let ?ins = "filter (\<lambda>e. external ?R e \<and> map_of ?R (e_target e) = Some ?i) (g_edges g)"
  let ?outs = "filter (\<lambda>e. external ?R e \<and> map_of ?R (e_source e) = Some ?i) (g_edges g)"
  note deps = neighbours_dependencies [OF g p, of ?i]
  let ?s = "\<lparr>st_index = int k, st_group = the (map_of groups ?i), st_node = ?i,
        st_type_id = st_type_id (hd ms), st_type_version = st_type_version (hd ms), st_inputs = st_inputs (hd ms),
        st_metadata = st_metadata (hd ms), st_incoming = ?ins, st_dependencies = neighbours ?R e_source ?ins,
        st_dependents = neighbours ?R e_target ?outs, st_cache_key = unit_cache_key H u ms,
        st_is_constant = list_all st_is_constant ms, st_cacheable = list_all st_cacheable ms,
        st_critical_length = max_default (map st_critical_length ms), st_on_critical_path = list_ex st_on_critical_path ms,
        st_resources = rs, st_control = (if length ms = 1 then st_control (hd ms) else None),
        st_members = fu_members u, st_fusion = fu_evidence u\<rparr>"
  have irr: "(j, j) \<notin> edge_rel (contracted g us)" for j
    using contraction(2) [OF g p] by (auto simp: acyclic_def contracted_def)
  have nodes: "j \<in> fu_node ` set us \<and> k \<in> fu_node ` set us" if "(j, k) \<in> edge_rel (contracted g us)" for j k
    using that contraction(3) [OF g p] by (auto simp: edge_rel_iff contracted_def)
  have own: "j = ?i" if "j \<in> fu_node ` set us" "j \<in> set (fu_members u)" for j
    using that unit_unique [OF p _ u] unit_members [OF partition_unit [OF p]] by blast
  have key: "sha256_hex (unit_cache_key H u ms)"
    using content_hex [OF H] bs(1) [OF hdm] by (auto simp: unit_cache_key_def base_step_def split: option.split)
  have dist: "distinct (fu_members u)" using walk_distinct [OF _ unit_walk [OF uo]] g by (simp add: linked_def)
  have target: "e_target e \<in> set (fu_members u) \<and> e_source e \<notin> set (fu_members u)" if "e \<in> set ?ins" for e
  proof -
    from that obtain v where "v \<in> set us" "e_target e \<in> set (fu_members v)" "fu_node v = ?i" and x: "external ?R e"
      using representatives_Some [OF p] by auto
    then have t: "e_target e \<in> set (fu_members u)"
      using own [of "fu_node v"] unit_unique [OF p _ u] unit_members [OF partition_unit [OF p]] by (metis um)
    moreover have "e_source e \<notin> set (fu_members u)"
      using x t u representatives_Some [OF p] unfolding external_def by metis
    ultimately show ?thesis by blast
  qed
  have crit: "0 < max_default (map st_critical_length ms)" using max_default_pos [OF ne] bs(2) by blast
  have "step_post_init ?s = Inr ?s"
  proof -
    have 1: "?i \<notin> set (neighbours ?R e_source ?ins)" "?i \<notin> set (neighbours ?R e_target ?outs)" unfolding deps using irr by auto
    have 2: "set (fu_members u) \<inter> set (neighbours ?R e_source ?ins) = {}" "set (fu_members u) \<inter> set (neighbours ?R e_target ?outs) = {}"
    proof -
      have "(j, ?i) \<notin> edge_rel (contracted g us) \<and> (?i, j) \<notin> edge_rel (contracted g us)" if "j \<in> set (fu_members u)" for j
        using own [OF _ that] nodes [of j ?i] nodes [of ?i j] irr [of ?i] by metis
      then show "set (fu_members u) \<inter> set (neighbours ?R e_source ?ins) = {}" "set (fu_members u) \<inter> set (neighbours ?R e_target ?outs) = {}"
        unfolding deps by blast+
    qed
    have 3: "distinct (neighbours ?R e_source ?ins)" "distinct (neighbours ?R e_target ?outs)" "distinct ?ins"
      using g by (simp_all add: neighbours_def linked_def)
    have 4: "list_all (\<lambda>e. e_target e \<in> set (fu_members u)) ?ins" "list_all (\<lambda>e. e_source e \<notin> set (fu_members u)) ?ins"
      unfolding list_all_iff using target by blast+
    have 5: "dotted_id (st_type_id (hd ms))" "semver (st_type_version (hd ms))" using bs(1) [OF hdm] by (simp_all add: base_step_def)
    have 6: "case fu_evidence u of None \<Rightarrow> length (fu_members u) = 1 | Some f \<Rightarrow> fe_members f = fu_members u"
      using unit_singleton [OF uo] by (auto split: option.split)
    have 7: "hd (fu_members u) = ?i" "fu_members u \<noteq> []" using um by (simp_all add: fu_node_def)
    have 8: "\<not> ((if length ms = 1 then st_control (hd ms) else None) \<noteq> None \<and> fu_evidence u \<noteq> None)"
      using unit_singleton(1) [OF uo] len by auto
    show ?thesis using groups 1 2 3 4 5 6 7 8 key dist crit unfolding step_post_init_def Let_def
      by (auto simp: rbind_Inr_iff split: option.splits)
  qed
  then have "collapse_unit H g base ?R groups (k, u) = Inr ?s"
    unfolding collapse_unit_def Let_def prod.case by (simp only: rm rs(1) rbind_simps)
  moreover have "collapsed_step g base (contracted g us) u ?s"
  proof -
    have "list_all st_is_constant ms \<longleftrightarrow> (\<forall>i\<in>set (fu_members u). \<not> reached g i)"
    proof -
      have "st_is_constant (b i) \<longleftrightarrow> \<not> reached g i" if "i \<in> set (fu_members u)" for i
        using m [OF that] base by (auto simp: base_table_def base_step_def)
      then show ?thesis by (simp add: ms_def list_all_iff)
    qed
    moreover have "Option.bind (map_of base ?i) st_control = st_control (hd ms)" using m [of ?i] um hd by (metis Option.bind.bind_lunit)
    ultimately show ?thesis using deps rs(2) crit key len by (simp add: collapsed_step_def)
  qed
  ultimately show ?thesis using groups by (intro exI [of _ ?s]) simp
qed

section \<open>All units\<close>

lemma rmap_ex:
  assumes "\<And>x. x \<in> set xs \<Longrightarrow> \<exists>y. f x = Inr y \<and> P x y"
  shows "\<exists>ys. rmap f xs = Inr ys \<and> list_all2 P xs ys"
  using assms
proof (induction xs)
  case (Cons x xs)
  then obtain ys where "rmap f xs = Inr ys" "list_all2 P xs ys" by auto
  moreover obtain y where "f x = Inr y" "P x y" using Cons.prems by auto
  ultimately show ?case by auto
qed simp

lemma unit_table_Some:
  "partition_ok c g steps us \<Longrightarrow> map_of (unit_table us) i = Some u \<longleftrightarrow> u \<in> set us \<and> fu_node u = i"
  unfolding unit_table_def by (subst table_Some) (auto intro: partition_nodes)

definition collapsed_ok :: "graph \<Rightarrow> (uuid, execution_step) dict \<Rightarrow> fusion_unit list \<Rightarrow> execution_step list \<Rightarrow> uuid list list \<Rightarrow> bool" where
  "collapsed_ok g base us ss layers = (topological_layers (map fu_node us) (contracted g us) = Inr layers
     \<and> map st_node ss = concat layers \<and> map st_index ss = map int [0..<length ss]
     \<and> (\<forall>s\<in>set ss. map_of (layer_indexes layers) (st_node s) = Some (st_group s)
          \<and> (\<exists>u\<in>set us. collapsed_step g base (contracted g us) u s)))"

lemma collapse_units_ok:
  assumes H: "hex_hash H" and g: "linked g" and base: "base_table cx g ly base" and p: "partition_ok c g base us"
  shows "\<exists>ss layers. collapse_units H g base us = Inr (ss, layers) \<and> collapsed_ok g base us ss layers"
proof -
  let ?R = "representatives us" and ?C = "contracted g us"
  note con = contraction [OF g p, folded contracted_def]
  have "distinct (map fu_node us)" using p by (rule partition_nodes)
  with con(3) obtain layers where l: "topological_layers (map fu_node us) ?C = Inr layers"
    using layers_spec [of "map fu_node us" ?C] con(2) by (auto split: sum.splits)
  note ok = topological_layers_ok [OF l]
  have dl: "distinct (concat layers)" using ok(3) layered_distinct by blast
  have "\<exists>us'. rmap (item_of (unit_table us)) (concat layers) = Inr us' \<and> list_all2 (\<lambda>i u. u \<in> set us \<and> fu_node u = i) (concat layers) us'"
  proof (rule rmap_ex)
    fix i assume "i \<in> set (concat layers)"
    with ok(5) obtain u where "u \<in> set us" "fu_node u = i" by auto
    then have "item_of (unit_table us) i = Inr u \<and> u \<in> set us \<and> fu_node u = i" using unit_table_Some [OF p] by simp
    then show "\<exists>u. item_of (unit_table us) i = Inr u \<and> u \<in> set us \<and> fu_node u = i" by blast
  qed
  then obtain us' where us': "rmap (item_of (unit_table us)) (concat layers) = Inr us'"
    and us2: "list_all2 (\<lambda>i u. u \<in> set us \<and> fu_node u = i) (concat layers) us'" by blast
  have nodes: "map fu_node us' = concat layers"
    using us2 by (simp add: list_all2_conv_all_nth list_eq_iff_nth_eq)
  have in_us: "u \<in> set us" if "u \<in> set us'" for u
    using us2 that by (auto simp: list_all2_conv_all_nth in_set_conv_nth)
  have "\<exists>ss. rmap (collapse_unit H g base ?R (layer_indexes layers)) (enumerate 0 us') = Inr ss
    \<and> list_all2 (\<lambda>(k, u) s. collapsed_step g base ?C u s \<and> st_index s = int k \<and> map_of (layer_indexes layers) (fu_node u) = Some (st_group s))
        (enumerate 0 us') ss"
  proof (rule rmap_ex)
    fix ku assume "ku \<in> set (enumerate 0 us')"
    moreover obtain k u where ku1: "ku = (k, u)" by (cases ku)
    ultimately have ku: "ku = (k, u)" "u \<in> set us'" by (simp_all only: enumerate_mem) auto
    then have u: "u \<in> set us" "fu_node u \<in> set (concat layers)" using in_us nodes by (auto simp flip: nodes)
    obtain j where j: "map_of (layer_indexes layers) (fu_node u) = Some (int j)" by (rule layer_indexes_total [OF dl u(2)])
    from collapse_unit_ok [OF H g base p u(1) j, of k] obtain s where
      "collapse_unit H g base ?R (layer_indexes layers) (k, u) = Inr s" "collapsed_step g base ?C u s" "st_index s = int k" "st_group s = int j"
      by auto
    with j ku show "\<exists>s. collapse_unit H g base ?R (layer_indexes layers) ku = Inr s \<and> (case ku of (k, u) \<Rightarrow> \<lambda>s.
        collapsed_step g base ?C u s \<and> st_index s = int k \<and> map_of (layer_indexes layers) (fu_node u) = Some (st_group s)) s" by auto
  qed
  then obtain ss where ss: "rmap (collapse_unit H g base ?R (layer_indexes layers)) (enumerate 0 us') = Inr ss"
    and s2: "list_all2 (\<lambda>(k, u) s. collapsed_step g base ?C u s \<and> st_index s = int k \<and> map_of (layer_indexes layers) (fu_node u) = Some (st_group s))
        (enumerate 0 us') ss" by blast
  have len: "length ss = length us'" using list_all2_lengthD [OF s2] by simp
  have nth: "collapsed_step g base ?C (us' ! k) (ss ! k) \<and> st_index (ss ! k) = int k
      \<and> map_of (layer_indexes layers) (fu_node (us' ! k)) = Some (st_group (ss ! k))" if "k < length ss" for k
    using list_all2_nthD [OF s2, of k] that len by (simp add: nth_enumerate_eq)
  have "st_node (ss ! k) = fu_node (us' ! k)" "st_index (ss ! k) = int k" if "k < length ss" for k
    using nth [OF that] by (simp_all add: collapsed_step_def)
  note same = this
  have "map st_node ss = map fu_node us'" by (rule nth_equalityI) (simp_all add: len same(1) [unfolded len])
  moreover have "map st_index ss = map int [0..<length ss]" by (rule nth_equalityI) (simp_all add: same(2))
  moreover have "map_of (layer_indexes layers) (st_node s) = Some (st_group s) \<and> (\<exists>u\<in>set us. collapsed_step g base ?C u s)"
    if "s \<in> set ss" for s
  proof -
    from that obtain k where k: "k < length ss" "ss ! k = s" by (auto simp: in_set_conv_nth)
    then have "us' ! k \<in> set us" using in_us [of "us' ! k"] len by simp
    with nth [OF k(1)] k(2) show ?thesis by (auto simp: collapsed_step_def)
  qed
  ultimately have "collapsed_ok g base us ss layers" using l nodes by (simp add: collapsed_ok_def)
  moreover have "collapse_units H g base us = Inr (ss, layers)"
    unfolding collapse_units_def Let_def
    using synthetic_edges_ok [OF g p, folded contracted_def] l us' ss by simp
  ultimately show ?thesis by blast
qed

end
