(* ===== verification/Control.thy ===== *)
theory Control
  imports Collapse
begin

text \<open>
  The control regions: closures are reachability, the sets of a loop are what lies between it and
  its collects, and every check of the regions passes.
\<close>

declare map_of_eq_Some_iff [simp del]

section \<open>Closures\<close>

abbreviation adjacent :: "(uuid \<Rightarrow> uuid list) \<Rightarrow> (uuid \<times> uuid) set" where
  "adjacent adj \<equiv> {(a, b). b \<in> set (adj a)}"

lemma closure_sub: "set (closure adj ps vs) \<subseteq> set vs \<union> (adjacent adj)\<^sup>* `` set ps"
proof (induction adj ps vs rule: closure.induct)
  case (2 adj n ps vs)
  show ?case
  proof (cases "n \<in> set vs")
    case False
    have "(n, m) \<in> (adjacent adj)\<^sup>*" if "b \<in> set (adj n)" "(b, m) \<in> (adjacent adj)\<^sup>*" for b m
      using that by (intro converse_rtrancl_into_rtrancl [of n b]) auto
    with 2(2) [OF False] False show ?thesis by fastforce
  qed (use 2(1) in auto)
qed auto

lemma closure_sup: "set vs \<union> set ps \<subseteq> set (closure adj ps vs)"
  by (induction adj ps vs rule: closure.induct) auto

lemma closure_closed:
  "(\<And>a b. a \<in> set vs \<Longrightarrow> b \<in> set (adj a) \<Longrightarrow> b \<in> set vs \<union> set ps) \<Longrightarrow>
   a \<in> set (closure adj ps vs) \<Longrightarrow> b \<in> set (adj a) \<Longrightarrow> b \<in> set (closure adj ps vs)"
proof (induction adj ps vs rule: closure.induct)
  case (2 adj n ps vs)
  show ?case
  proof (cases "n \<in> set vs")
    case True
    have "b \<in> set (closure adj ps vs)"
    proof (rule 2(1) [OF True])
      fix x y assume "x \<in> set vs" "y \<in> set (adj x)"
      with 2(3) [of x y] True show "y \<in> set vs \<union> set ps" by auto
    qed (use 2(4,5) True in auto)
    with True show ?thesis by simp
  next
    case False
    have "b \<in> set (closure adj (sort (remdups (filter (\<lambda>m. m \<notin> set (n # vs)) (adj n))) @ ps) (n # vs))"
    proof (rule 2(2) [OF False])
      fix x y assume "x \<in> set (n # vs)" "y \<in> set (adj x)"
      with 2(3) [of x y] show "y \<in> set (n # vs) \<union> set (sort (remdups (filter (\<lambda>m. m \<notin> set (n # vs)) (adj n))) @ ps)"
        by auto
    qed (use 2(4,5) False in auto)
    with False show ?thesis by simp
  qed
qed auto

lemma closure_distinct: "distinct vs \<Longrightarrow> distinct (closure adj ps vs)"
  by (induction adj ps vs rule: closure.induct) auto

lemma set_closure_of: "set (closure_of adj start) = (adjacent adj)\<^sup>* `` set start"
proof
  show "set (closure_of adj start) \<subseteq> (adjacent adj)\<^sup>* `` set start"
    unfolding closure_of_def using closure_sub [of adj "sort (remdups start)" "[]"] by simp
  have closed: "b \<in> set (closure_of adj start)" if "a \<in> set (closure_of adj start)" "b \<in> set (adj a)" for a b
    using closure_closed [of "[]" adj _ a b] that unfolding closure_of_def by simp
  show "(adjacent adj)\<^sup>* `` set start \<subseteq> set (closure_of adj start)"
  proof clarify
    fix n m assume n: "n \<in> set start" and "(n, m) \<in> (adjacent adj)\<^sup>*"
    from this(2) show "m \<in> set (closure_of adj start)"
    proof (induction rule: rtrancl_induct)
      case base
      with n closure_sup [of "[]" "sort (remdups start)" adj] show ?case by (simp add: closure_of_def subset_iff)
    qed (use closed in auto)
  qed
qed

lemma adjacent_arcs: "adjacent (targets_of g) = arcs g" "adjacent (sources_of g) = (arcs g)\<inverse>"
  by (auto simp: set_targets set_sources)

lemma trancl_first: "(i, j) \<in> r\<^sup>+ \<longleftrightarrow> (\<exists>k. (i, k) \<in> r \<and> (k, j) \<in> r\<^sup>*)"
  by (blast dest: tranclD intro: rtrancl_into_trancl2)

lemma trancl_last: "(i, j) \<in> r\<^sup>+ \<longleftrightarrow> (\<exists>k. (i, k) \<in> r\<^sup>* \<and> (k, j) \<in> r)"
  by (blast dest: tranclD2 intro: rtrancl_into_trancl1)

lemma below_iff: "j \<in> set (closure_of (targets_of g) (targets_of g i)) \<longleftrightarrow> (i, j) \<in> (arcs g)\<^sup>+"
  unfolding set_closure_of adjacent_arcs
  by (auto simp: set_targets trancl_first)

lemma above_iff: "j \<in> set (closure_of (sources_of g) start) \<longleftrightarrow> (\<exists>s\<in>set start. (j, s) \<in> (arcs g)\<^sup>*)"
  unfolding set_closure_of adjacent_arcs by (auto simp: rtrancl_converse)

lemma above_sources: "j \<in> set (closure_of (sources_of g) (sources_of g i)) \<longleftrightarrow> (j, i) \<in> (arcs g)\<^sup>+"
  unfolding above_iff by (auto simp: set_sources trancl_last)

lemma port_sources_arc: "s \<in> set (port_sources g i p) \<Longrightarrow> (s, i) \<in> arcs g"
  by (auto simp: port_sources_def edges_to_def edge_rel_iff)

section \<open>The sets of a loop\<close>

definition collects :: "graph \<Rightarrow> uuid set" where
  "collects g = {n_id m |m. m \<in> set (g_nodes g) \<and> n_type_id m = collect_type}"

definition loop_spec :: "graph \<Rightarrow> uuid \<Rightarrow> loop_sets \<Rightarrow> bool" where
  "loop_spec g i l = (set (lp_boundary l) = {j \<in> collects g. (i, j) \<in> (arcs g)\<^sup>+}
     \<and> set (lp_body l) = {j. j \<notin> collects g \<and> (i, j) \<in> (arcs g)\<^sup>+ \<and> (\<exists>b\<in>collects g. (j, b) \<in> (arcs g)\<^sup>+)}
     \<and> set (lp_iterable l) = {j. \<exists>s\<in>set (port_sources g i ''items''). (j, s) \<in> (arcs g)\<^sup>*})"

lemma arcs_nodes: "linked g \<Longrightarrow> (a, b) \<in> arcs g \<Longrightarrow> a \<in> node_ids g \<and> b \<in> node_ids g"
  by (auto simp: linked_def edge_rel_iff)

lemma trancl_nodes: "linked g \<Longrightarrow> (a, b) \<in> (arcs g)\<^sup>+ \<Longrightarrow> a \<in> node_ids g \<and> b \<in> node_ids g"
  using arcs_nodes by (meson tranclD tranclD2)

lemma linked_acyclic: "linked g \<Longrightarrow> (a, a) \<notin> (arcs g)\<^sup>+"
  by (simp add: linked_def acyclic_def)

definition control_error :: "diagnostic \<Rightarrow> bool" where
  "control_error d = (dg_severity d = ''error'' \<and> dg_code d \<in> {''malformed_loop_region'', ''invalid_control_nesting''})"

lemma loop_sets_ok:
  assumes g: "linked g" and n: "n \<in> set (g_nodes g)"
  shows "\<exists>l ds. loop_sets_of g n = Inr (l, ds) \<and> loop_spec g (n_id n) l \<and> list_all control_error ds
    \<and> (ds = [] \<longleftrightarrow> (\<exists>j\<in>collects g. (n_id n, j) \<in> (arcs g)\<^sup>+) \<or> (\<forall>j. (n_id n, j) \<notin> arcs g))"
proof -
  let ?i = "n_id n"
  define below where "below = closure_of (targets_of g) (targets_of g ?i)"
  have d: "distinct (map n_id (g_nodes g))" using g by (simp add: linked_def)
  have below: "j \<in> set below \<longleftrightarrow> (?i, j) \<in> (arcs g)\<^sup>+" for j by (simp add: below_def below_iff)
  define f where "f j = the (map_of (node_dict (g_nodes g)) j)" for j
  have f: "map_of (node_dict (g_nodes g)) j = Some (f j)" if "j \<in> node_ids g" for j
    using that keys_node_dict [of "g_nodes g"] by (cases "map_of (node_dict (g_nodes g)) j") (auto simp: f_def map_of_eq_None_iff node_ids_def)
  have fn: "f j \<in> set (g_nodes g) \<and> n_id (f j) = j" if "j \<in> node_ids g" for j
    using f [OF that] node_dict_Some [OF d] by blast
  have ids: "j \<in> node_ids g" if "j \<in> set below" for j using that below trancl_nodes [OF g] by blast
  have ms: "rmap (item_of (node_dict (g_nodes g))) below = Inr (map f below)"
    by (rule rmap_map) (simp only: item_of_Inr f ids)
  have collect: "j \<in> collects g \<longleftrightarrow> n_type_id (f j) = collect_type" if "j \<in> node_ids g" for j
  proof
    assume "j \<in> collects g"
    then obtain m where m: "m \<in> set (g_nodes g)" "n_id m = j" "n_type_id m = collect_type" by (auto simp: collects_def)
    then have "map_of (node_dict (g_nodes g)) j = Some m" using node_dict_Some [OF d] by blast
    with m(3) show "n_type_id (f j) = collect_type" by (simp add: f_def)
  qed (use fn [OF that] in \<open>force simp: collects_def\<close>)
  define boundary where "boundary = map fst (filter (\<lambda>(j, m). n_type_id m = collect_type) (zip below (map f below)))"
  have "boundary = filter (\<lambda>j. n_type_id (f j) = collect_type) below"
    unfolding boundary_def by (induction below) auto
  then have boundary: "set boundary = {j \<in> collects g. (?i, j) \<in> (arcs g)\<^sup>+}"
    using collect ids below by auto
  define above where "above = concat (map (\<lambda>b. closure_of (sources_of g) (sources_of g b)) boundary)"
  have above: "j \<in> set above \<longleftrightarrow> (\<exists>b\<in>set boundary. (j, b) \<in> (arcs g)\<^sup>+)" for j
    by (simp add: above_def above_sources)
  define ds where "ds = (if below \<noteq> [] \<and> boundary = [] then [\<lparr>dg_code = ''malformed_loop_region'', dg_severity = ''error'',
      dg_message = ''a for-each body must terminate at an NG Collect boundary'', dg_node = Some ?i, dg_edge = None, dg_port = None\<rparr>] else [])"
  have dse: "(if below \<noteq> [] \<and> boundary = []
       then finding (err ''malformed_loop_region'' ''a for-each body must terminate at an NG Collect boundary'' (Some ?i) None None)
       else Inr []) = Inr ds"
    by (simp add: ds_def diag_post)
  define l where "l = \<lparr>lp_body = filter (\<lambda>j. j \<in> set above \<and> j \<notin> set boundary \<and> j \<noteq> ?i) below, lp_boundary = boundary,
      lp_iterable = filter (\<lambda>j. j \<noteq> ?i) (closure_of (sources_of g) (port_sources g ?i ''items''))\<rparr>"
  have "loop_sets_of g n = Inr (l, ds)"
    unfolding loop_sets_of_def Let_def below_def [symmetric] ms rbind_simps boundary_def [symmetric] above_def [symmetric] dse
    by (simp add: l_def)
  moreover have "set (lp_body l) = {j. j \<notin> collects g \<and> (?i, j) \<in> (arcs g)\<^sup>+ \<and> (\<exists>b\<in>collects g. (j, b) \<in> (arcs g)\<^sup>+)}"
    unfolding l_def using below above boundary linked_acyclic [OF g] by (auto intro: trancl_trans)
  moreover have "set (lp_iterable l) = {j. \<exists>s\<in>set (port_sources g ?i ''items''). (j, s) \<in> (arcs g)\<^sup>*}"
    unfolding l_def using linked_acyclic [OF g, of ?i] port_sources_arc [of _ g ?i "''items''"]
    by (auto simp: above_iff intro: rtrancl_into_trancl1)
  moreover have "list_all control_error ds" by (simp add: ds_def control_error_def)
  moreover have "ds = [] \<longleftrightarrow> (\<exists>j\<in>collects g. (?i, j) \<in> (arcs g)\<^sup>+) \<or> (\<forall>j. (?i, j) \<notin> arcs g)"
  proof -
    have "below = [] \<longleftrightarrow> (\<forall>j. (?i, j) \<notin> arcs g)"
      using below by (metis empty_iff empty_set list.set_intros(1) neq_Nil_conv r_into_trancl' tranclD)
    moreover have "boundary = [] \<longleftrightarrow> \<not> (\<exists>j\<in>collects g. (?i, j) \<in> (arcs g)\<^sup>+)" using boundary by (metis (no_types, lifting) Collect_empty_eq set_empty)
    ultimately show ?thesis by (auto simp: ds_def)
  qed
  ultimately show ?thesis using boundary by (intro exI [of _ l] exI [of _ ds]) (simp add: loop_spec_def l_def)
qed

section \<open>The steps after fusion\<close>

text \<open>Whatever one member reaches that has a way out of the step, every member reaches.\<close>

definition common_exit :: "graph \<Rightarrow> uuid set \<Rightarrow> bool" where
  "common_exit g M = (\<forall>x\<in>M. \<forall>y\<in>M. \<forall>z w. (x, z) \<in> (arcs g)\<^sup>* \<longrightarrow> (z, w) \<in> arcs g \<longrightarrow> w \<notin> M \<longrightarrow> (y, z) \<in> (arcs g)\<^sup>*)"

definition node_step :: "node \<Rightarrow> execution_step \<Rightarrow> bool" where
  "node_step n s = ((n_type_id n \<in> {for_each, switch_type, collect_type} \<longrightarrow> st_members s = [n_id n])
     \<and> (st_members s = [n_id n] \<longrightarrow> control_annotation_of n = Inr (st_control s)))"

definition settled_step :: "graph \<Rightarrow> edge list \<Rightarrow> uuid list list \<Rightarrow> execution_step \<Rightarrow> bool" where
  "settled_step g C layers s = (st_node s \<in> set (st_members s) \<and> walk (g_edges g) (st_members s)
     \<and> set (st_dependencies s) = {j. (j, st_node s) \<in> edge_rel C} \<and> set (st_dependents s) = {j. (st_node s, j) \<in> edge_rel C}
     \<and> sound_annotation (st_resources s) \<and> 0 < st_critical_length s \<and> sha256_hex (st_cache_key s)
     \<and> map_of (layer_indexes layers) (st_node s) = Some (st_group s) \<and> common_exit g (set (st_members s))
     \<and> (\<forall>n\<in>set (g_nodes g). n_id n \<in> set (st_members s) \<longrightarrow> node_step n s)
     \<and> (length (st_members s) \<noteq> 1 \<longrightarrow> st_control s = None)
     \<and> (st_is_constant s \<longleftrightarrow> (\<forall>i\<in>set (st_members s). \<not> reached g i)))"

definition settled :: "graph \<Rightarrow> edge list \<Rightarrow> execution_step list \<Rightarrow> uuid list list \<Rightarrow> bool" where
  "settled g C ss layers = (linked g \<and> acyclic (edge_rel C) \<and> layered C {} layers
     \<and> map st_node ss = concat layers \<and> map st_index ss = map int [0..<length ss]
     \<and> distinct (concat (map st_members ss)) \<and> set (concat (map st_members ss)) = node_ids g
     \<and> (\<forall>s\<in>set ss. settled_step g C layers s) \<and> (\<forall>(j, k)\<in>edge_rel C. j \<in> st_node ` set ss \<and> k \<in> st_node ` set ss)
     \<and> (\<forall>e\<in>set (g_edges g). \<forall>s\<in>set ss. \<forall>t\<in>set ss. e_source e \<in> set (st_members s) \<longrightarrow> e_target e \<in> set (st_members t) \<longrightarrow>
          s = t \<or> (st_node s, st_node t) \<in> edge_rel C)
     \<and> (\<forall>n\<in>set (g_nodes g). n_type_id n = for_each \<longrightarrow> loop_bound n \<noteq> None))"

lemma unit_common_exit: "unit_ok c g base u \<Longrightarrow> common_exit g (set (fu_members u))"
  unfolding common_exit_def using unit_reach by blast

lemma special_types: "for_each \<noteq> collect_type" "switch_type \<noteq> collect_type" "for_each \<noteq> switch_type"
  by (simp_all add: for_each_def collect_type_def switch_type_def)

lemma unit_node_step:
  assumes cx: "good_context cx" and g: "linked g" and lb: "\<forall>n\<in>set (g_nodes g). n_type_id n = for_each \<longrightarrow> loop_bound n \<noteq> None"
    and base: "base_table cx g ly base" and u: "unit_ok (cx_catalogue cx) g base u" and s: "collapsed_step g base es u s"
    and n: "n \<in> set (g_nodes g)" "n_id n \<in> set (fu_members u)"
  shows "node_step n s"
proof -
  have d: "distinct (map n_id (g_nodes g))" using g by (simp add: linked_def)
  have "n_id n \<in> node_ids g" using n by (auto simp: node_ids_def)
  then obtain b where b: "map_of base (n_id n) = Some b" "st_node b = n_id n" "base_step cx g ly b" using base by (auto simp: base_table_def)
  then obtain m where "m \<in> set (g_nodes g)" "n_id m = n_id n" "control_annotation_of m = Inr (st_control b)" by (auto simp: base_step_def)
  moreover from this(1,2) n(1) d have "m = n" by (auto simp: distinct_map dest: inj_onD)
  ultimately have ca: "control_annotation_of n = Inr (st_control b)" by simp
  obtain a where a: "control_annotation_of n = Inr a" "case a of None \<Rightarrow> n_type_id n \<notin> {for_each, switch_type}
      | Some x \<Rightarrow> sound_control x \<and> (ca_kind x = ''loop'' \<longleftrightarrow> n_type_id n = for_each)"
    using control_annotation_ok [of n] lb n(1) by blast
  with ca have cb: "n_type_id n \<in> {for_each, switch_type} \<Longrightarrow> st_control b \<noteq> None" by (auto split: option.splits)
  have single: "fu_members u = [n_id n]" if "length (fu_members u) = 1"
    using that n(2) by (metis singleton_list)
  have "length (fu_members u) = 1" if special: "n_type_id n \<in> {for_each, switch_type, collect_type}"
  proof (rule ccontr)
    assume "length (fu_members u) \<noteq> 1"
    then obtain f where "fu_evidence u = Some f" using unit_singleton(1) [OF u] by auto
    with u n(2) have "fused_node (cx_catalogue cx) g base (n_id n)" by (auto simp: unit_ok_def)
    then obtain m dn where m: "m \<in> set (g_nodes g)" "n_id m = n_id n" "dn \<in> set (cat_nodes (cx_catalogue cx))"
        "node_def_key dn = node_key m" "ex_fusion_kind (nd_execution dn) \<noteq> None" and c: "st_control b = None"
      using b(1) by (auto simp: fused_node_def)
    from m(1,2) n(1) d have "m = n" by (auto simp: distinct_map dest: inj_onD)
    with m have "nd_id dn = n_type_id n" by (simp add: node_def_key_def node_key_def)
    with m(3,5) cx have "n_type_id n \<noteq> collect_type" by (auto simp: good_context_def list_all_iff)
    with special cb c show False by auto
  qed
  moreover have "control_annotation_of n = Inr (st_control s)" if "fu_members u = [n_id n]"
    using that s b(1) ca by (simp add: collapsed_step_def fu_node_def)
  moreover have "st_members s = fu_members u" using s by (simp add: collapsed_step_def)
  ultimately show ?thesis using single unfolding node_step_def by presburger
qed

lemma settle:
  assumes cx: "good_context cx" and g: "linked g" and lb: "\<forall>n\<in>set (g_nodes g). n_type_id n = for_each \<longrightarrow> loop_bound n \<noteq> None"
    and base: "base_table cx g ly base" and p: "partition_ok (cx_catalogue cx) g base us"
    and c: "collapsed_ok g base us ss layers"
  shows "settled g (contracted g us) ss layers"
proof -
  let ?C = "contracted g us"
  note con = contraction [OF g p, folded contracted_def]
  from c have l: "topological_layers (map fu_node us) ?C = Inr layers" and nodes: "map st_node ss = concat layers"
    and ix: "map st_index ss = map int [0..<length ss]"
    and steps: "\<And>s. s \<in> set ss \<Longrightarrow> map_of (layer_indexes layers) (st_node s) = Some (st_group s) \<and> (\<exists>u\<in>set us. collapsed_step g base ?C u s)"
    by (auto simp: collapsed_ok_def)
  note ok = topological_layers_ok [OF l]
  have dn: "distinct (map st_node ss)" using layered_distinct [OF ok(3)] nodes by simp
  have unit: "\<exists>u\<in>set us. collapsed_step g base ?C u s \<and> st_members s = fu_members u \<and> st_node s = fu_node u" if "s \<in> set ss" for s
    using steps [OF that] by (auto simp: collapsed_step_def)
  have same: "s = t" if st: "s \<in> set ss" "t \<in> set ss" and i: "i \<in> set (st_members s)" "i \<in> set (st_members t)" for s t i
  proof -
    obtain u v where "u \<in> set us" "st_members s = fu_members u" "st_node s = fu_node u"
        "v \<in> set us" "st_members t = fu_members v" "st_node t = fu_node v" using unit [OF st(1)] unit [OF st(2)] by blast
    with i unit_unique [OF p] have "st_node s = st_node t" by metis
    with dn st show ?thesis by (auto simp: distinct_map dest: inj_onD)
  qed
  have mem: "st_node s \<in> set (st_members s)" "distinct (st_members s)" if s: "s \<in> set ss" for s
  proof -
    obtain u where u: "u \<in> set us" "st_members s = fu_members u" "st_node s = fu_node u" using unit [OF s] by blast
    note uo = partition_unit [OF p u(1)]
    show "st_node s \<in> set (st_members s)" using u unit_members [OF uo] by simp
    show "distinct (st_members s)" using u(2) walk_distinct [OF _ unit_walk [OF uo]] g by (simp add: linked_def)
  qed
  have "distinct (map st_members ss)"
  proof (rule distinct_map [THEN iffD2], intro conjI inj_onI)
    show "distinct ss" using dn by (simp add: distinct_map)
    fix s t assume "s \<in> set ss" "t \<in> set ss" "st_members s = st_members t"
    with same mem(1) show "s = t" by metis
  qed
  then have dm: "distinct (concat (map st_members ss))"
  proof (rule distinct_concat)
    fix ys assume "ys \<in> set (map st_members ss)"
    with mem(2) show "distinct ys" by auto
  next
    fix ys zs assume "ys \<in> set (map st_members ss)" "zs \<in> set (map st_members ss)" "ys \<noteq> zs"
    then obtain s t where "s \<in> set ss" "t \<in> set ss" "ys = st_members s" "zs = st_members t" by auto
    with same \<open>ys \<noteq> zs\<close> show "set ys \<inter> set zs = {}" by blast
  qed
  have cover: "set (concat (map st_members ss)) = node_ids g"
  proof
    show "set (concat (map st_members ss)) \<subseteq> node_ids g"
      using unit partition_unit [OF p] by (fastforce simp: unit_ok_def)
    show "node_ids g \<subseteq> set (concat (map st_members ss))"
    proof
      fix i assume "i \<in> node_ids g"
      then obtain u where u: "u \<in> set us" "i \<in> set (fu_members u)" using p by (auto simp: partition_ok_def all_members_def)
      then have "fu_node u \<in> st_node ` set ss" using ok(5) nodes by (metis image_eqI list.set_map)
      then obtain s where s: "s \<in> set ss" "st_node s = fu_node u" by auto
      from unit [OF s(1)] obtain v where v: "v \<in> set us" "st_members s = fu_members v" "st_node s = fu_node v" by blast
      have "u = v" using unit_unique [OF p u(1) v(1), of "fu_node u"] unit_members [OF partition_unit [OF p]] u v s by metis
      then have "i \<in> set (st_members s)" using u(2) v(2) by simp
      with s(1) show "i \<in> set (concat (map st_members ss))" by auto
    qed
  qed
  have ss: "settled_step g ?C layers s" if s: "s \<in> set ss" for s
  proof -
    obtain u where u: "u \<in> set us" "collapsed_step g base ?C u s" "st_members s = fu_members u" using unit [OF s] by blast
    note uo = partition_unit [OF p u(1)]
    show ?thesis
      unfolding settled_step_def using u steps [OF s] mem(1) [OF s] unit_common_exit [OF uo] unit_walk [OF uo]
        unit_node_step [OF cx g lb base uo u(2)]
      by (auto simp: collapsed_step_def)
  qed
  have arc: "s = t \<or> (st_node s, st_node t) \<in> edge_rel ?C"
    if e: "e \<in> set (g_edges g)" and s: "s \<in> set ss" "e_source e \<in> set (st_members s)" and t: "t \<in> set ss" "e_target e \<in> set (st_members t)" for e s t
  proof (cases "s = t")
    case False
    obtain u v where u: "u \<in> set us" "st_members s = fu_members u" "st_node s = fu_node u"
        and v: "v \<in> set us" "st_members t = fu_members v" "st_node t = fu_node v" using unit [OF s(1)] unit [OF t(1)] by blast
    have R: "map_of (representatives us) (e_source e) = Some (st_node s)" "map_of (representatives us) (e_target e) = Some (st_node t)"
      using representatives_Some [OF p] u v s t by metis+
    have "st_node s \<noteq> st_node t" using False dn s t by (auto simp: distinct_map dest: inj_onD)
    with R have "external (representatives us) e" by (simp add: external_def)
    with e R show ?thesis by (force simp: edge_rel_iff contracted_def redirected_def)
  qed simp
  have ends: "\<forall>(j, k)\<in>edge_rel ?C. j \<in> st_node ` set ss \<and> k \<in> st_node ` set ss"
  proof -
    have "st_node ` set ss = set (map fu_node us)" using ok(5) nodes by (metis list.set_map)
    with con(3) show ?thesis by (auto simp: edge_rel_def)
  qed
  show ?thesis unfolding settled_def using g con(2) ok(3) nodes ix dm cover ss arc ends lb by blast
qed

end
