(* ===== verification/Drafts.thy ===== *)
theory Drafts
  imports Control
begin

text \<open>
  The drafts of the control regions of a settled sequence of steps: the members of a branch or of a
  loop are the steps that hold its nodes, and the branches, the body and the iterable are disjoint.
\<close>

declare map_of_eq_Some_iff [simp del]

section \<open>Settled steps\<close>

lemma settled_nodes:
  assumes "settled g C ss layers"
  shows "distinct (map st_node ss)" and "st_node ` set ss = set (concat layers)" and "distinct (concat layers)"
proof -
  show "distinct (concat layers)" using assms layered_distinct by (auto simp: settled_def)
  with assms show "distinct (map st_node ss)" by (simp add: settled_def)
  from assms have "map st_node ss = concat layers" by (simp add: settled_def)
  then show "st_node ` set ss = set (concat layers)" by (metis list.set_map)
qed

lemma settled_member: "settled g C ss layers \<Longrightarrow> s \<in> set ss \<Longrightarrow> settled_step g C layers s"
  by (auto simp: settled_def)

lemma settled_same:
  assumes "settled g C ss layers" and "s \<in> set ss" "t \<in> set ss" and "i \<in> set (st_members s)" "i \<in> set (st_members t)"
  shows "s = t"
proof -
  let ?ms = "map st_members ss"
  have d: "distinct (concat ?ms)" using assms(1) by (simp add: settled_def)
  have "[] \<notin> set ?ms" using settled_member [OF assms(1)] by (force simp: settled_step_def)
  then have "removeAll [] ?ms = ?ms" by simp
  with d have "distinct ?ms" and dis: "\<And>ys zs. ys \<in> set ?ms \<Longrightarrow> zs \<in> set ?ms \<Longrightarrow> ys \<noteq> zs \<Longrightarrow> set ys \<inter> set zs = {}"
    unfolding distinct_concat_iff by auto
  have "st_members s = st_members t" using dis [of "st_members s" "st_members t"] assms(2-5) by auto
  with \<open>distinct ?ms\<close> assms(2,3) show ?thesis by (auto simp: distinct_map dest: inj_onD)
qed

lemma settled_node:
  assumes "settled g C ss layers" and "s \<in> set ss"
  shows "st_node s \<in> node_ids g"
proof -
  from assms have "st_node s \<in> set (st_members s)" by (auto simp: settled_def settled_step_def)
  with assms(2) have "st_node s \<in> set (concat (map st_members ss))" by auto
  with assms(1) show ?thesis by (simp add: settled_def)
qed

lemma member_steps_Some:
  assumes "settled g C ss layers"
  shows "map_of (member_steps ss) i = Some r \<longleftrightarrow> (\<exists>s\<in>set ss. i \<in> set (st_members s) \<and> st_node s = r)"
proof -
  have "member_steps ss = fold (\<lambda>s. fold (\<lambda>x d. AList.update (fst x) (snd x) d) (map (\<lambda>i. (i, st_node s)) (st_members s))) ss []"
    unfolding member_steps_def by (simp add: fold_map o_def)
  then have "member_steps ss = fold (\<lambda>x d. AList.update (fst x) (snd x) d) (concat (map (\<lambda>s. map (\<lambda>i. (i, st_node s)) (st_members s)) ss)) []"
    by (simp only: fold_nested)
  moreover have "distinct (map fst (concat (map (\<lambda>s. map (\<lambda>i. (i, st_node s)) (st_members s)) ss)))"
    using assms by (simp add: settled_def map_concat o_def)
  ultimately show ?thesis by (auto simp: table_Some)
qed

text \<open>The steps that hold some of the nodes.\<close>

definition holders :: "execution_step list \<Rightarrow> uuid set \<Rightarrow> uuid set" where
  "holders ss N = {st_node s |s. s \<in> set ss \<and> set (st_members s) \<inter> N \<noteq> {}}"

lemma holders_nodes: "holders ss N \<subseteq> st_node ` set ss"
  by (auto simp: holders_def)

lemma set_map_filter: "set (List.map_filter f xs) = {y. \<exists>x\<in>set xs. f x = Some y}"
  by (induction xs) (auto simp: List.map_filter_simps split: option.split)

lemma ordered_representatives_ok:
  assumes "settled g C ss layers"
  shows "distinct (ordered_representatives ss vs)" and "set (ordered_representatives ss vs) = holders ss (set vs)"
  using member_steps_Some [OF assms] by (auto simp: ordered_representatives_def holders_def set_map_filter)

lemma control_single:
  assumes "settled g C ss layers" and "s \<in> set ss" and "st_control s \<noteq> None"
  shows "st_members s = [st_node s]"
proof -
  from settled_member [OF assms(1,2)] assms(3) have "length (st_members s) = 1" "st_node s \<in> set (st_members s)"
    by (auto simp: settled_step_def)
  then show ?thesis by (metis singleton_list)
qed

lemma controller_free:
  assumes "settled g C ss layers" and "s \<in> set ss" and "st_control s \<noteq> None"
  shows "st_node s \<in> holders ss N \<longleftrightarrow> st_node s \<in> N"
proof -
  have "t = s" if "t \<in> set ss" "st_node t = st_node s" for t
    using that assms(2) settled_nodes(1) [OF assms(1)] by (auto simp: distinct_map dest: inj_onD)
  then have "st_node s \<in> holders ss N \<longleftrightarrow> set (st_members s) \<inter> N \<noteq> {}" using assms(2) by (auto simp: holders_def)
  then show ?thesis unfolding control_single [OF assms] by simp
qed

text \<open>
  What reaches a node on a way out of its step reaches it from every member, so two sets of which
  one is closed this way share no step when they share no node.
\<close>

lemma holders_disjoint:
  assumes "settled g C ss layers" and "i \<in> node_ids g"
    and "\<And>x. x \<in> A \<Longrightarrow> x \<noteq> i \<and> (\<exists>z. (x, z) \<in> (arcs g)\<^sup>* \<and> z \<in> Z)" and Z: "\<And>z. z \<in> Z \<Longrightarrow> (z, i) \<in> arcs g"
    and single: "\<And>s. s \<in> set ss \<Longrightarrow> i \<in> set (st_members s) \<Longrightarrow> st_members s = [i]"
    and no: "\<And>x y z. x \<in> A \<Longrightarrow> y \<in> B \<Longrightarrow> z \<in> Z \<Longrightarrow> (x, z) \<in> (arcs g)\<^sup>* \<Longrightarrow> (y, z) \<in> (arcs g)\<^sup>* \<Longrightarrow> False"
  shows "holders ss A \<inter> holders ss B = {}"
proof (rule ccontr)
  assume "holders ss A \<inter> holders ss B \<noteq> {}"
  then obtain s t x y where st: "s \<in> set ss" "t \<in> set ss" "st_node s = st_node t" "x \<in> set (st_members s)" "x \<in> A"
      "y \<in> set (st_members t)" "y \<in> B" by (auto simp: holders_def)
  have "s = t" using st(1-3) settled_nodes(1) [OF assms(1)] by (auto simp: distinct_map dest: inj_onD)
  with st have y: "y \<in> set (st_members s)" by simp
  from assms(3) [OF st(5)] obtain z where z: "x \<noteq> i" "(x, z) \<in> (arcs g)\<^sup>*" "z \<in> Z" by blast
  have "i \<notin> set (st_members s)" using single [OF st(1)] st(4) z(1) by auto
  moreover have "common_exit g (set (st_members s))" using settled_member [OF assms(1) st(1)] by (simp add: settled_step_def)
  ultimately have "(y, z) \<in> (arcs g)\<^sup>*" using st(4) y z(2) Z [OF z(3)] unfolding common_exit_def by blast
  with no [OF st(5,7) z(3,2)] show False .
qed

section \<open>Branches\<close>

lemma outermost_ok:
  assumes "\<And>i. i \<in> set vs \<Longrightarrow> map_of d i = Some (b i)"
  shows "outermost d f vs = Inr (filter (\<lambda>i. set vs \<inter> set (f (b i)) = {}) vs)"
proof -
  have "rmap (\<lambda>i. rbind (item_of d i) (\<lambda>s. Inr (i, s))) vs = (Inr (map (\<lambda>i. (i, b i)) vs) :: compile_error + _)"
    using assms by (intro rmap_map) (simp add: key_or_def)
  then show ?thesis by (simp add: outermost_def filter_map o_def)
qed

lemma acyclic_minimal:
  assumes "finite A" and "A \<noteq> {}" and "acyclic r"
  obtains x where "x \<in> A" and "\<And>y. y \<in> A \<Longrightarrow> (y, x) \<notin> r"
proof -
  let ?r = "r \<inter> A \<times> A"
  have "finite ?r" using assms(1) by blast
  moreover have "acyclic ?r" using assms(3) by (rule acyclic_subset) blast
  ultimately have "wf ?r" by (rule finite_acyclic_wf)
  from assms(2) obtain a where "a \<in> A" by blast
  from wfE_min [OF \<open>wf ?r\<close> this] obtain z where "z \<in> A" "\<And>y. (y, z) \<in> ?r \<Longrightarrow> y \<notin> A" by blast
  with that show thesis by blast
qed

lemma outermost_nonempty:
  assumes "acyclic r" and "\<And>i. i \<in> set vs \<Longrightarrow> set (f i) = {j. (j, i) \<in> r}" and "vs \<noteq> []"
  shows "filter (\<lambda>i. set vs \<inter> set (f i) = {}) vs \<noteq> []"
proof -
  from assms(3) obtain x where "x \<in> set vs" "\<And>y. y \<in> set vs \<Longrightarrow> (y, x) \<notin> r"
    using acyclic_minimal [of "set vs" r] assms(1) by auto
  with assms(2) have "x \<in> set (filter (\<lambda>i. set vs \<inter> set (f i) = {}) vs)" by auto
  then show ?thesis by force
qed

lemma branch_names: "port_name ''true_value''" "port_name ''false_value''"
  by (simp_all add: port_name_def is_lower_def is_digit_def in_range_def)

definition good_branch :: "execution_step list \<Rightarrow> uuid set \<Rightarrow> string \<times> uuid list \<Rightarrow> control_branch \<Rightarrow> bool" where
  "good_branch ss X nb b = (cb_name b = fst nb \<and> set (cb_members b) = holders ss (set (snd nb) - X))"

lemma branch_of_ok:
  assumes s: "settled g C ss layers" and name: "name \<in> {''true_value'', ''false_value''}"
  shows "\<exists>b. branch_of ss X (name, ns) = Inr b \<and> good_branch ss X (name, ns) b"
proof -
  define vs where "vs = ordered_representatives ss (filter (\<lambda>n. n \<notin> X) ns)"
  note rep = ordered_representatives_ok [OF s, of "filter (\<lambda>n. n \<notin> X) ns", folded vs_def]
  define b where "b i = the (map_of (step_table ss) i)" for i
  note d = settled_nodes(1) [OF s]
  have b: "map_of (step_table ss) i = Some (b i) \<and> b i \<in> set ss \<and> st_node (b i) = i" if "i \<in> set vs" for i
  proof -
    from that rep(2) obtain t where "t \<in> set ss" "st_node t = i" by (auto simp: holders_def)
    with step_table_Some [OF d] have "map_of (step_table ss) i = Some t" by blast
    with \<open>t \<in> set ss\<close> \<open>st_node t = i\<close> show ?thesis by (simp add: b_def)
  qed
  have rel: "set (st_dependencies (b i)) = {j. (j, i) \<in> edge_rel C} \<and> set (st_dependents (b i)) = {j. (i, j) \<in> edge_rel C}"
    if "i \<in> set vs" for i
    using settled_member [OF s, of "b i"] b [OF that] by (auto simp: settled_step_def)
  have ac: "acyclic (edge_rel C)" "acyclic ((edge_rel C)\<inverse>)" using s by (simp_all add: settled_def acyclic_converse)
  define entries where "entries = filter (\<lambda>i. set vs \<inter> set (st_dependencies (b i)) = {}) vs"
  define exits where "exits = filter (\<lambda>i. set vs \<inter> set (st_dependents (b i)) = {}) vs"
  have en: "vs = [] \<or> entries \<noteq> []"
    unfolding entries_def using outermost_nonempty [of "edge_rel C" vs "\<lambda>i. st_dependencies (b i)", OF ac(1)] rel by auto
  have ex: "vs = [] \<or> exits \<noteq> []"
    unfolding exits_def using outermost_nonempty [of "(edge_rel C)\<inverse>" vs "\<lambda>i. st_dependents (b i)", OF ac(2)] rel by auto
  have out: "outermost (step_table ss) st_dependencies vs = Inr entries" "outermost (step_table ss) st_dependents vs = Inr exits"
    unfolding entries_def exits_def using b by (auto intro!: outermost_ok)
  have port: "port_name name" using name branch_names by auto
  let ?b = "\<lparr>cb_name = name, cb_source_port = name, cb_members = vs, cb_entries = entries, cb_exits = exits\<rparr>"
  have "set entries \<subseteq> set vs" "set exits \<subseteq> set vs" "distinct entries" "distinct exits"
    using rep(1) by (auto simp: entries_def exits_def)
  then have "control_branch_post_init ?b = Inr ?b"
    unfolding control_branch_post_init_def rbind_Inr_iff using rep(1) en ex port by auto
  then have "branch_of ss X (name, ns) = Inr ?b"
    by (simp only: branch_of_def Let_def vs_def [symmetric] out rbind_simps prod.case)
  moreover have "good_branch ss X (name, ns) ?b" using rep(2) by (simp add: good_branch_def set_diff_eq)
  ultimately show ?thesis by blast
qed

section \<open>Loops\<close>

text \<open>The nodes that feed a port of a node, and the nodes between a loop and its collects.\<close>

definition feeds :: "graph \<Rightarrow> uuid \<Rightarrow> string \<Rightarrow> uuid set" where
  "feeds g i p = {j. \<exists>s\<in>set (port_sources g i p). (j, s) \<in> (arcs g)\<^sup>*}"

definition between :: "graph \<Rightarrow> uuid \<Rightarrow> uuid set" where
  "between g i = {j. j \<notin> collects g \<and> (i, j) \<in> (arcs g)\<^sup>+ \<and> (\<exists>b\<in>collects g. (j, b) \<in> (arcs g)\<^sup>+)}"

definition boundary_of :: "graph \<Rightarrow> uuid \<Rightarrow> uuid set" where
  "boundary_of g i = {j \<in> collects g. (i, j) \<in> (arcs g)\<^sup>+}"

lemma loop_spec_sets:
  "loop_spec g i l \<longleftrightarrow> set (lp_boundary l) = boundary_of g i \<and> set (lp_body l) = between g i \<and> set (lp_iterable l) = feeds g i ''items''"
  by (simp add: loop_spec_def boundary_of_def between_def feeds_def)

lemma set_feeds: "set (closure_of (sources_of g) (port_sources g i p)) = feeds g i p"
  by (auto simp: feeds_def above_iff)

lemma feeds_above: "linked g \<Longrightarrow> j \<in> feeds g i p \<Longrightarrow> (j, i) \<in> (arcs g)\<^sup>+"
  using port_sources_arc unfolding feeds_def by (blast intro: rtrancl_into_trancl1)

definition loop_table :: "graph \<Rightarrow> (uuid, loop_sets) dict \<Rightarrow> bool" where
  "loop_table g loops = (wf_dict loops \<and> (\<forall>i. (\<exists>l. map_of loops i = Some l) \<longleftrightarrow> (\<exists>n\<in>set (g_nodes g). n_id n = i \<and> n_type_id n = for_each))
     \<and> (\<forall>i l. map_of loops i = Some l \<longrightarrow> loop_spec g i l))"

lemma wf_dict_fold: "wf_dict d \<Longrightarrow> wf_dict (fold (\<lambda>x d. AList.update (f x) (h x) d) xs d)"
  by (induction xs arbitrary: d) (simp_all add: wf_dict_update)

lemma loop_table_Some:
  assumes "loop_table g loops" and "map_of loops i = Some l"
  shows "(\<exists>n\<in>set (g_nodes g). n_id n = i \<and> n_type_id n = for_each)" and "set (lp_body l) = between g i"
    and "set (lp_boundary l) = boundary_of g i" and "set (lp_iterable l) = feeds g i ''items''"
  using assms unfolding loop_table_def loop_spec_sets by blast+

text \<open>Every loop with a body reaches a collect.\<close>

definition closed_loops :: "graph \<Rightarrow> bool" where
  "closed_loops g = (\<forall>n\<in>set (g_nodes g). n_type_id n = for_each \<longrightarrow>
     (\<exists>j\<in>collects g. (n_id n, j) \<in> (arcs g)\<^sup>+) \<or> (\<forall>j. (n_id n, j) \<notin> arcs g))"

lemma all_loops_ok:
  assumes g: "linked g"
  shows "\<exists>loops ds. all_loops g = Inr (loops, ds) \<and> loop_table g loops \<and> list_all control_error ds \<and> (ds = [] \<longleftrightarrow> closed_loops g)"
proof -
  define ns where "ns = filter (\<lambda>n. n_type_id n = for_each) (g_nodes g)"
  have d: "distinct (map n_id ns)" using g unfolding ns_def linked_def by (simp add: distinct_map_filter)
  let ?closed = "\<lambda>n. (\<exists>j\<in>collects g. (n_id n, j) \<in> (arcs g)\<^sup>+) \<or> (\<forall>j. (n_id n, j) \<notin> arcs g)"
  let ?P = "\<lambda>n r. loop_spec g (n_id n) (fst r) \<and> list_all control_error (snd r) \<and> (snd r = [] \<longleftrightarrow> ?closed n)"
  have "\<exists>rs. rmap (loop_sets_of g) ns = Inr rs \<and> list_all2 ?P ns rs"
  proof (rule rmap_ex)
    fix n assume "n \<in> set ns"
    then have "n \<in> set (g_nodes g)" by (simp add: ns_def)
    from loop_sets_ok [OF g this] obtain l ds where "loop_sets_of g n = Inr (l, ds)" "?P n (l, ds)" by auto
    then show "\<exists>r. loop_sets_of g n = Inr r \<and> ?P n r" by blast
  qed
  then obtain rs where rs: "rmap (loop_sets_of g) ns = Inr rs" "list_all2 ?P ns rs" by blast
  have len: "length ns = length rs" using rs(2) by (rule list_all2_lengthD)
  define loops where "loops = fold (\<lambda>x d. AList.update (n_id (fst x)) (fst (snd x)) d) (zip ns rs) []"
  have "map (\<lambda>x. n_id (fst x)) (zip ns rs) = map n_id (map fst (zip ns rs))" by simp
  then have dz: "distinct (map (\<lambda>x. n_id (fst x)) (zip ns rs))" using d len by simp
  have look: "map_of loops i = Some l \<longleftrightarrow> (\<exists>x\<in>set (zip ns rs). n_id (fst x) = i \<and> fst (snd x) = l)" for i l
    unfolding loops_def by (rule table_Some [OF dz])
  have al: "all_loops g = Inr (loops, concat (map snd rs))"
    by (simp add: all_loops_def Let_def ns_def [symmetric] rs(1) loops_def case_prod_unfold)
  have zs: "loop_spec g (n_id (fst x)) (fst (snd x))" if "x \<in> set (zip ns rs)" for x
    using that rs(2) by (auto simp: list_all2_iff)
  have "wf_dict loops" unfolding loops_def by (rule wf_dict_fold) simp
  moreover have "(\<exists>l. map_of loops i = Some l) \<longleftrightarrow> (\<exists>n\<in>set (g_nodes g). n_id n = i \<and> n_type_id n = for_each)" for i
  proof -
    have "(\<exists>l. map_of loops i = Some l) \<longleftrightarrow> i \<in> n_id ` fst ` set (zip ns rs)" unfolding look by blast
    also have "fst ` set (zip ns rs) = set ns" using len by (metis list.set_map map_fst_zip)
    finally show ?thesis by (auto simp: ns_def)
  qed
  moreover have "list_all control_error (snd r)" if "r \<in> set rs" for r
  proof -
    from that obtain k where "k < length rs" "r = rs ! k" by (auto simp: in_set_conv_nth)
    with list_all2_nthD2 [OF rs(2)] show ?thesis by blast
  qed
  then have "list_all control_error (concat (map snd rs))" by (auto simp: list_all_iff)
  moreover have "concat (map snd rs) = [] \<longleftrightarrow> closed_loops g"
  proof -
    have "concat (map snd rs) = [] \<longleftrightarrow> (\<forall>n\<in>set ns. ?closed n)"
      using rs(2) by (induction rule: list_all2_induct) auto
    then show ?thesis by (auto simp: closed_loops_def ns_def)
  qed
  ultimately show ?thesis using al zs look by (auto simp: loop_table_def)
qed

section \<open>Drafts\<close>

abbreviation region_at :: "uuid option \<Rightarrow> int \<Rightarrow> region_draft \<Rightarrow> control_region" where
  "region_at p k d \<equiv> \<lparr>cr_kind = dr_kind d, cr_controller = dr_controller d, cr_parent = p, cr_depth = k,
     cr_branches = dr_branches d, cr_iterable = dr_iterable d, cr_body = dr_body d, cr_boundary = dr_boundary d,
     cr_max_iterations = dr_max_iterations d\<rparr>"

text \<open>What no branch of a condition holds, and what its regions and those of a loop hold.\<close>

definition outside_branches :: "graph \<Rightarrow> uuid \<Rightarrow> uuid set" where
  "outside_branches g i = feeds g i ''false_value'' \<inter> feeds g i ''true_value'' \<union> feeds g i ''condition'' \<union> {i}
     \<union> {n_id n |n. n \<in> set (g_nodes g) \<and> n_type_id n = for_each \<and> i \<in> between g (n_id n)}"

definition region_spec :: "graph \<Rightarrow> execution_step list \<Rightarrow> control_region \<Rightarrow> bool" where
  "region_spec g ss r = (let i = cr_controller r in
     if cr_kind r = ''loop'' then set (cr_body r) = holders ss (between g i) \<and> set (cr_boundary r) = holders ss (boundary_of g i)
       \<and> set (cr_iterable r) = holders ss (feeds g i ''items'')
     else map cb_name (cr_branches r) = [''false_value'', ''true_value'']
       \<and> (\<forall>b\<in>set (cr_branches r). set (cb_members b) = holders ss (feeds g i (cb_name b) - outside_branches g i)))"

definition good_draft :: "graph \<Rightarrow> execution_step list \<Rightarrow> execution_step \<Rightarrow> control_annotation \<Rightarrow> region_draft \<Rightarrow> bool" where
  "good_draft g ss s c d = (dr_controller d = st_node s \<and> dr_kind d = ca_kind c \<and> draft_members d \<subseteq> st_node ` set ss
     \<and> (\<forall>p k. region_spec g ss (region_at p k d)
          \<and> (p \<noteq> Some (st_node s) \<longrightarrow> 0 \<le> k \<longrightarrow> (p = None \<longleftrightarrow> k = 0) \<longrightarrow> control_region_post_init (region_at p k d) = Inr (region_at p k d))))"

lemma outside_branches_eq:
  assumes t: "loop_table g loops"
  shows "excluded_nodes g loops i [closure_of (sources_of g) (port_sources g i ''false_value''), closure_of (sources_of g) (port_sources g i ''true_value'')]
    = outside_branches g i"
proof -
  have "set (map fst (filter (\<lambda>(l, sets). i \<in> set (lp_body sets)) loops))
      = {n_id n |n. n \<in> set (g_nodes g) \<and> n_type_id n = for_each \<and> i \<in> between g (n_id n)}" (is "?L = ?R")
  proof
    show "?L \<subseteq> ?R"
    proof
      fix l assume "l \<in> ?L"
      then obtain sets where sets: "(l, sets) \<in> set loops" "i \<in> set (lp_body sets)" by auto
      from sets(1) have l: "map_of loops l = Some sets" using t by (simp add: loop_table_def)
      with loop_table_Some(1,2) [OF t l] sets(2) show "l \<in> ?R" by blast
    qed
    show "?R \<subseteq> ?L"
    proof
      fix l assume "l \<in> ?R"
      then obtain n where n: "n \<in> set (g_nodes g)" "n_type_id n = for_each" "i \<in> between g l" "n_id n = l" by blast
      then obtain sets where sets: "map_of loops l = Some sets" using t unfolding loop_table_def by blast
      then have "i \<in> set (lp_body sets)" using n(3) loop_table_Some(2) [OF t] by blast
      with map_of_SomeD [OF sets] show "l \<in> ?L" by force
    qed
  qed
  then show ?thesis by (simp add: excluded_nodes_def outside_branches_def shared_nodes_def set_feeds)
qed

lemma single_of:
  assumes s: "settled g C ss layers" "s \<in> set ss" and c: "st_control s \<noteq> None"
    and t: "t \<in> set ss" "st_node s \<in> set (st_members t)"
  shows "st_members t = [st_node s]"
  using control_single [OF s c] settled_same [OF s(1) t(1) s(2), of "st_node s"] t(2) by simp

lemma loop_draft_ok:
  assumes s: "settled g C ss layers" "s \<in> set ss" and t: "loop_table g loops"
    and c: "st_control s = Some c" "sound_control c" "ca_kind c = ''loop''"
    and n: "n \<in> set (g_nodes g)" "n_id n = st_node s" "n_type_id n = for_each"
  shows "good_draft g ss s c (loop_draft ss loops (st_node s) c)"
proof -
  let ?i = "st_node s"
  from t n obtain l where l: "map_of loops ?i = Some l" "loop_spec g ?i l" unfolding loop_table_def by blast
  have g: "linked g" using s(1) by (simp add: settled_def)
  note ac = linked_acyclic [OF g] and rep = ordered_representatives_ok [OF s(1)]
  have c': "st_control s \<noteq> None" using c(1) by simp
  note free = controller_free [OF s c']
  have sets: "set (lp_body l) = between g ?i" "set (lp_boundary l) = boundary_of g ?i" "set (lp_iterable l) = feeds g ?i ''items''"
    using l(2) by (simp_all add: loop_spec_sets)
  define d where "d = loop_draft ss loops ?i c"
  have d: "dr_kind d = ''loop''" "dr_controller d = ?i" "dr_branches d = []" "dr_max_iterations d = ca_max_iterations c"
    "distinct (dr_body d)" "distinct (dr_boundary d)" "distinct (dr_iterable d)"
    "set (dr_body d) = holders ss (between g ?i)" "set (dr_boundary d) = holders ss (boundary_of g ?i)"
    "set (dr_iterable d) = holders ss (feeds g ?i ''items'')"
    using rep l(1) sets by (simp_all add: d_def loop_draft_def)
  have out: "?i \<notin> between g ?i" "?i \<notin> boundary_of g ?i" "?i \<notin> feeds g ?i ''items''"
    using ac feeds_above [OF g] by (auto simp: between_def boundary_of_def)
  have ib: "holders ss (feeds g ?i ''items'') \<inter> holders ss (between g ?i) = {}"
  proof (rule holders_disjoint [OF s(1), where i = ?i and Z = "set (port_sources g ?i ''items'')"])
    show "?i \<in> node_ids g" by (rule settled_node [OF s])
    show "st_members t = [?i]" if "t \<in> set ss" "?i \<in> set (st_members t)" for t using single_of [OF s c' that] .
    fix x y z assume "y \<in> between g ?i" "z \<in> set (port_sources g ?i ''items'')" "(y, z) \<in> (arcs g)\<^sup>*"
    then have "(?i, y) \<in> (arcs g)\<^sup>+" "(y, ?i) \<in> (arcs g)\<^sup>+"
      by (simp add: between_def, meson port_sources_arc rtrancl_into_trancl1)
    with ac show False by (meson trancl_trans)
  qed (use out port_sources_arc in \<open>auto simp: feeds_def\<close>)
  have bb: "holders ss (between g ?i) \<inter> holders ss (boundary_of g ?i) = {}"
  proof (rule ccontr)
    assume "\<not> ?thesis"
    then obtain t u x y where tu: "t \<in> set ss" "u \<in> set ss" "st_node t = st_node u" "x \<in> set (st_members t)" "x \<in> between g ?i"
        "y \<in> set (st_members u)" "y \<in> boundary_of g ?i" by (auto simp: holders_def)
    have "t = u" using tu(1-3) settled_nodes(1) [OF s(1)] by (auto simp: distinct_map dest: inj_onD)
    obtain m where m: "m \<in> set (g_nodes g)" "n_id m = y" "n_type_id m = collect_type" using tu(7) by (auto simp: boundary_of_def collects_def)
    then have "node_step m u" using settled_member [OF s(1) tu(2)] tu(6) by (auto simp: settled_step_def)
    with m have "st_members u = [y]" by (auto simp: node_step_def)
    with tu \<open>t = u\<close> have "x = y" by simp
    with tu(5,7) show False by (simp add: between_def boundary_of_def)
  qed
  obtain k where "ca_max_iterations c = Some k" "0 \<le> k" using c(2,3) by (auto simp: sound_control_def)
  then have "control_region_post_init (region_at p j d) = Inr (region_at p j d)"
    if "p \<noteq> Some ?i" "0 \<le> j" "p = None \<longleftrightarrow> j = 0" for p j
    unfolding control_region_post_init_def rbind_Inr_iff using that d ib bb free out by (simp add: non_negative_def)
  moreover have "region_spec g ss (region_at p j d)" for p j using d by (simp add: region_spec_def)
  moreover have "draft_members d \<subseteq> st_node ` set ss" using d holders_nodes by (simp add: draft_members_def) 
  ultimately show ?thesis using d(1,2) c(3) by (simp add: good_draft_def d_def [symmetric])
qed

lemma sorted_names: "sort [''true_value'', ''false_value''] = [''false_value'', ''true_value'']"
  by code_simp

lemma condition_draft_ok:
  assumes s: "settled g C ss layers" "s \<in> set ss" and t: "loop_table g loops"
    and c: "st_control s = Some c" "sound_control c" "ca_kind c \<noteq> ''loop''"
  shows "\<exists>d. condition_draft g ss loops (st_node s) (st_node s) c = Inr d \<and> good_draft g ss s c d"
proof -
  let ?i = "st_node s" and ?f = "closure_of (sources_of g) (port_sources g (st_node s) ''false_value'')"
    and ?t = "closure_of (sources_of g) (port_sources g (st_node s) ''true_value'')"
  define X where "X = outside_branches g ?i"
  have g: "linked g" using s(1) by (simp add: settled_def)
  have c': "st_control s \<noteq> None" using c(1) by simp
  have k: "ca_kind c = ''condition''" "ca_branches c = [''true_value'', ''false_value'']" using c(2,3) by (auto simp: sound_control_def)
  obtain b where b: "branch_of ss X (''false_value'', ?f) = Inr b" "good_branch ss X (''false_value'', ?f) b"
    using branch_of_ok [OF s(1)] by blast
  obtain b' where b': "branch_of ss X (''true_value'', ?t) = Inr b'" "good_branch ss X (''true_value'', ?t) b'"
    using branch_of_ok [OF s(1)] by blast
  have names: "cb_name b = ''false_value''" "cb_name b' = ''true_value''" using b(2) b'(2) by (simp_all add: good_branch_def)
  have mem: "set (cb_members b) = holders ss (feeds g ?i ''false_value'' - X)" "set (cb_members b') = holders ss (feeds g ?i ''true_value'' - X)"
    using b(2) b'(2) by (simp_all add: good_branch_def set_feeds)
  define d where "d = \<lparr>dr_kind = ''condition'', dr_controller = ?i, dr_branches = [b, b'], dr_iterable = [], dr_body = [],
     dr_boundary = [], dr_max_iterations = None\<rparr>"
  have cd: "condition_draft g ss loops ?i ?i c = Inr d"
    by (simp add: condition_draft_def k(2) sorted_names outside_branches_eq [OF t] X_def [symmetric] b(1) b'(1) d_def)
  have "holders ss (feeds g ?i ''false_value'' - X) \<inter> holders ss (feeds g ?i ''true_value'' - X) = {}"
  proof (rule holders_disjoint [OF s(1), where i = ?i and Z = "set (port_sources g ?i ''false_value'')"])
    show "?i \<in> node_ids g" by (rule settled_node [OF s])
    show "st_members t = [?i]" if "t \<in> set ss" "?i \<in> set (st_members t)" for t using single_of [OF s c' that] .
    fix x y z assume "y \<in> feeds g ?i ''true_value'' - X" "z \<in> set (port_sources g ?i ''false_value'')" "(y, z) \<in> (arcs g)\<^sup>*"
    moreover from this(2,3) have "y \<in> feeds g ?i ''false_value''" by (auto simp: feeds_def)
    ultimately show False by (auto simp: X_def outside_branches_def)
  qed (use port_sources_arc in \<open>auto simp: feeds_def X_def outside_branches_def\<close>)
  then have "control_region_post_init (region_at p j d) = Inr (region_at p j d)"
    if "p \<noteq> Some ?i" "0 \<le> j" "p = None \<longleftrightarrow> j = 0" for p j
    unfolding control_region_post_init_def rbind_Inr_iff using that names mem by (simp add: d_def Int_commute)
  moreover have "region_spec g ss (region_at p j d)" for p j using names mem by (simp add: region_spec_def d_def X_def)
  moreover have "draft_members d \<subseteq> st_node ` set ss" using mem holders_nodes by (simp add: draft_members_def d_def)
  ultimately show ?thesis using cd k(1) by (auto simp: good_draft_def d_def)
qed

lemma draft_of_ok:
  assumes s: "settled g C ss layers" "s \<in> set ss" and t: "loop_table g loops"
  shows "\<exists>ds. draft_of g ss loops s = Inr ds \<and> (case st_control s of None \<Rightarrow> ds = [] | Some c \<Rightarrow> \<exists>d. ds = [d] \<and> good_draft g ss s c d)"
proof (cases "st_control s")
  case (Some c)
  have g: "linked g" and lb: "\<forall>n\<in>set (g_nodes g). n_type_id n = for_each \<longrightarrow> loop_bound n \<noteq> None" using s(1) by (simp_all add: settled_def)
  have d: "distinct (map n_id (g_nodes g))" using g by (simp add: linked_def)
  from settled_node [OF s] obtain n where n: "n \<in> set (g_nodes g)" "n_id n = st_node s" by (auto simp: node_ids_def)
  have look: "map_of (node_dict (g_nodes g)) (st_node s) = Some n" using node_dict_Some [OF d] n by blast
  have m: "st_members s = [n_id n]" using control_single [OF s] Some n(2) by simp
  then have "node_step n s" using settled_member [OF s] n(1) by (auto simp: settled_step_def)
  with m have "control_annotation_of n = Inr (Some c)" using Some by (simp add: node_step_def)
  with control_annotation_ok [of n] lb n(1) have c: "sound_control c" "ca_kind c = ''loop'' \<longleftrightarrow> n_type_id n = for_each" by auto
  show ?thesis
  proof (cases "ca_kind c = ''loop''")
    case True
    with loop_draft_ok [OF s t Some c(1) True n] c(2) look Some show ?thesis by (simp add: draft_of_def key_or_def)
  next
    case False
    then have "ca_kind c = ''condition''" using c(1) by (auto simp: sound_control_def)
    moreover obtain d where "condition_draft g ss loops (st_node s) (st_node s) c = Inr d" "good_draft g ss s c d"
      using condition_draft_ok [OF s t Some c(1) False] by blast
    ultimately show ?thesis using look n(2) Some by (simp add: draft_of_def key_or_def)
  qed
qed (simp add: draft_of_def)

text \<open>A step with a control annotation is a loop or a condition.\<close>

lemma control_node:
  assumes s: "settled g C ss layers" "s \<in> set ss" and c: "st_control s \<noteq> None"
  shows "\<exists>n\<in>set (g_nodes g). n_id n = st_node s \<and> n_type_id n \<in> {for_each, switch_type}"
proof -
  from settled_node [OF s] obtain n where n: "n \<in> set (g_nodes g)" "n_id n = st_node s" by (auto simp: node_ids_def)
  have m: "st_members s = [n_id n]" using control_single [OF s c] n(2) by simp
  then have "node_step n s" using settled_member [OF s] n(1) by (auto simp: settled_step_def)
  with m c have "control_annotation_of n \<noteq> Inr None" by (auto simp: node_step_def)
  with n show ?thesis unfolding control_annotation_of_def by (auto split: if_splits)
qed

end
