(* ===== verification/Nesting.thy ===== *)
theory Nesting
  imports Drafts
begin

text \<open>
  The nesting of the control regions: parents, depths, and what \<open>derive_control_regions\<close> answers.
\<close>

declare map_of_eq_Some_iff [simp del]

section \<open>Depths\<close>

definition depths_ok :: "(uuid, uuid option) dict \<Rightarrow> uuid set \<Rightarrow> (uuid, int) dict \<Rightarrow> bool \<Rightarrow> bool" where
  "depths_ok ps S T calm = (\<forall>j v. map_of T j = Some v \<longrightarrow> 0 \<le> v
     \<and> (j \<notin> S \<longrightarrow> (\<exists>p. map_of ps j = Some p \<and> (p = None \<longleftrightarrow> v = 0)))
     \<and> (calm \<longrightarrow> j \<notin> S \<and> (\<forall>q. map_of ps j = Some (Some q) \<longrightarrow> (\<exists>w. map_of T q = Some w \<and> v = w + 1))))"

definition parents_closed :: "(uuid, uuid option) dict \<Rightarrow> bool" where
  "parents_closed ps = (\<forall>i j. map_of ps i = Some (Some j) \<longrightarrow> map_of ps j \<noteq> None)"

definition extends_dict :: "(uuid, int) dict \<Rightarrow> (uuid, int) dict \<Rightarrow> bool" where
  "extends_dict T T' = (\<forall>j v. map_of T j = Some v \<longrightarrow> map_of T' j = Some v)"

lemma nesting_diagnostic_ok: "\<exists>d. nesting_diagnostic i = Inr [d] \<and> control_error d"
  by (simp add: nesting_diagnostic_def diag_post control_error_def)

lemma resolve_depth_ok:
  assumes "parents_closed ps" and "map_of ps i \<noteq> None" and "depths_ok ps (set S) (fst st) calm"
  shows "\<exists>k T es. resolve_depth ps i S st = Inr (k, T, snd st @ es) \<and> list_all control_error es \<and> map_of T i = Some k
    \<and> 0 \<le> k \<and> depths_ok ps (set S) T (calm \<and> es = []) \<and> extends_dict (fst st) T"
  using assms
proof (induction ps i S st rule: resolve_depth.induct)
  case (1 ps i S st)
  show ?case
  proof (cases "map_of (fst st) i")
    case (Some k)
    moreover from this 1(4) have "0 \<le> k" by (auto simp: depths_ok_def)
    ultimately show ?thesis using 1(4) 
      by (intro exI [of _ k] exI [of _ "fst st"] exI [of _ "[]"]) (simp add: extends_dict_def resolve_depth.simps)
  next
    case None
    note fresh = None
    obtain T ds where st: "st = (T, ds)" by force
    show ?thesis
    proof (cases "i \<in> set S")
      case True
      obtain d where d: "nesting_diagnostic i = Inr [d]" "control_error d" using nesting_diagnostic_ok by blast
      have "resolve_depth ps i S st = Inr (0, AList.update i 0 T, ds @ [d])"
        using fresh True d(1) by (subst resolve_depth.simps) (simp add: st)
      moreover have "depths_ok ps (set S) (AList.update i 0 T) False"
        using 1(4) True by (auto simp: depths_ok_def map_of_update st)
      moreover have "extends_dict T (AList.update i 0 T)" using fresh by (auto simp: extends_dict_def map_of_update st)
      ultimately show ?thesis using d(2) by (auto simp: map_of_update st intro!: exI [of _ "AList.update i 0 T"])
    next
      case False
      obtain p where p: "map_of ps i = Some p" using 1(3) by blast
      then have item: "item_of ps i = (Inr p :: compile_error + _)" by simp
      show ?thesis
      proof (cases p)
        case None
        have "resolve_depth ps i S st = Inr (0, AList.update i 0 T, ds @ [])"
          using fresh False p None by (subst resolve_depth.simps) (simp add: st key_or_def)
        moreover have "depths_ok ps (set S) (AList.update i 0 T) calm"
          using 1(4) fresh False p None by (fastforce simp: depths_ok_def map_of_update st)
        moreover have "extends_dict T (AList.update i 0 T)" using fresh by (auto simp: extends_dict_def map_of_update st)
        ultimately show ?thesis by (intro exI [of _ 0] exI [of _ "AList.update i 0 T"] exI [of _ "[]"]) (simp add: map_of_update st)
      next
        case (Some j)
        have j: "map_of ps j \<noteq> None" using 1(2) p Some by (simp add: parents_closed_def)
        have pre: "depths_ok ps (set (S @ [i])) (fst st) calm"
          using 1(4) fresh by (auto simp: depths_ok_def)
        from 1(1) [OF fresh False item Some 1(2) j pre]
        obtain k T' es where IH: "resolve_depth ps j (S @ [i]) st = Inr (k, T', snd st @ es)" "list_all control_error es"
            "map_of T' j = Some k" "0 \<le> k" "depths_ok ps (set (S @ [i])) T' (calm \<and> es = [])" "extends_dict (fst st) T'" by blast
        have "resolve_depth ps i S st = Inr (k + 1, AList.update i (k + 1) T', snd st @ es)"
          using fresh False p Some IH(1) by (subst resolve_depth.simps) (simp add: key_or_def)
        moreover have "extends_dict (fst st) (AList.update i (k + 1) T')"
          using IH(6) fresh by (auto simp: extends_dict_def map_of_update)
        moreover have "depths_ok ps (set S) (AList.update i (k + 1) T') (calm \<and> es = [])"
          unfolding depths_ok_def
        proof (intro allI impI)
          fix m v assume m: "map_of (AList.update i (k + 1) T') m = Some v"
          let ?T = "AList.update i (k + 1) T'"
          note ok = IH(5) [unfolded depths_ok_def, rule_format]
          have ni: "map_of T' i = None" if "calm \<and> es = []"
            using ok [of i] that by (cases "map_of T' i") auto
          show "0 \<le> v \<and> (m \<notin> set S \<longrightarrow> (\<exists>p. map_of ps m = Some p \<and> (p = None \<longleftrightarrow> v = 0)))
             \<and> (calm \<and> es = [] \<longrightarrow> m \<notin> set S \<and> (\<forall>q. map_of ps m = Some (Some q) \<longrightarrow> (\<exists>w. map_of ?T q = Some w \<and> v = w + 1)))"
          proof (cases "m = i")
            case True
            then have v: "v = k + 1" using m by (simp add: map_of_update)
            have "map_of ?T j = Some k" if "calm \<and> es = []"
              using ni [OF that] IH(3) by (auto simp: map_of_update)
            with v IH(4) p Some True False show ?thesis by auto
          next
            case ne: False
            then have v: "map_of T' m = Some v" using m by (simp add: map_of_update)
            have "\<exists>w. map_of ?T q = Some w \<and> v = w + 1" if "calm \<and> es = []" "map_of ps m = Some (Some q)" for q
            proof -
              from ok [OF v] that obtain w where w: "map_of T' q = Some w" "v = w + 1" by blast
              with ni [OF that(1)] have "q \<noteq> i" by auto
              with w show ?thesis by (simp add: map_of_update)
            qed
            with ok [OF v] ne show ?thesis by auto
          qed
        qed
        ultimately show ?thesis using IH(2,4)
          by (intro exI [of _ "k + 1"] exI [of _ "AList.update i (k + 1) T'"] exI [of _ es]) (simp add: map_of_update)
      qed
    qed
  qed
qed

lemma resolve_depths_ok:
  assumes "parents_closed ps" and "\<forall>i\<in>set vs. map_of ps i \<noteq> None" and "depths_ok ps {} (fst st) calm"
  shows "\<exists>T es. resolve_depths ps vs st = Inr (T, snd st @ es) \<and> list_all control_error es
    \<and> depths_ok ps {} T (calm \<and> es = []) \<and> extends_dict (fst st) T \<and> (\<forall>i\<in>set vs. map_of T i \<noteq> None)"
  using assms
proof (induction vs arbitrary: st calm)
  case Nil
  then show ?case by (intro exI [of _ "fst st"] exI [of _ "[]"]) (simp add: resolve_depths_def extends_dict_def)
next
  case (Cons i vs)
  have "depths_ok ps (set []) (fst st) calm" "map_of ps i \<noteq> None" using Cons.prems(2,3) by simp_all
  from resolve_depth_ok [OF Cons.prems(1) this(2,1)]
  obtain k T es where R: "resolve_depth ps i [] st = Inr (k, T, snd st @ es)" "list_all control_error es" "map_of T i = Some k"
      "depths_ok ps {} T (calm \<and> es = [])" "extends_dict (fst st) T" by auto
  from Cons.IH [OF Cons.prems(1), of "(T, snd st @ es)" "calm \<and> es = []"] Cons.prems(2) R(4)
  obtain T' es' where I: "resolve_depths ps vs (T, snd st @ es) = Inr (T', (snd st @ es) @ es')" "list_all control_error es'"
      "depths_ok ps {} T' ((calm \<and> es = []) \<and> es' = [])" "extends_dict T T'" "\<forall>i\<in>set vs. map_of T' i \<noteq> None" by auto
  have "resolve_depths ps (i # vs) st = Inr (T', snd st @ es @ es')"
    using I(1) R(1) by (simp add: resolve_depths_def)
  with I R show ?case by (intro exI [of _ T'] exI [of _ "es @ es'"]) (auto simp: extends_dict_def)
qed

text \<open>Where no region has a parent, nothing is reported.\<close>

lemma resolve_roots:
  assumes "\<forall>i\<in>set vs. map_of ps i = Some None"
  shows "\<exists>T. resolve_depths ps vs st = Inr (T, snd st)"
  using assms
proof (induction vs arbitrary: st)
  case Nil
  show ?case by (cases st) (simp add: resolve_depths_def)
next
  case (Cons i vs)
  then have i: "map_of ps i = Some None" by simp
  have "\<exists>k T. resolve_depth ps i [] st = Inr (k, T, snd st)"
    by (cases st, subst resolve_depth.simps) (simp add: key_or_def i split: option.split)
  then obtain k T where "resolve_depth ps i [] st = Inr (k, T, snd st)" by blast
  then have "resolve_depths ps (i # vs) st = resolve_depths ps vs (T, snd st)" by (simp add: resolve_depths_def)
  with Cons.IH [of "(T, snd st)"] Cons.prems show ?case by simp
qed

section \<open>Regions\<close>

definition region_ok :: "graph \<Rightarrow> execution_step list \<Rightarrow> control_region list \<Rightarrow> control_region \<Rightarrow> bool" where
  "region_ok g ss rs r = ((\<exists>s\<in>set ss. st_node s = cr_controller r \<and> map_option ca_kind (st_control s) = Some (cr_kind r))
     \<and> region_references r \<subseteq> st_node ` set ss \<and> region_spec g ss r
     \<and> (case cr_parent r of None \<Rightarrow> cr_depth r = 0
        | Some i \<Rightarrow> \<exists>q\<in>set rs. cr_controller q = i \<and> cr_depth r = cr_depth q + 1 \<and> cr_controller r \<in> region_references q))"

definition regions_ok :: "graph \<Rightarrow> execution_step list \<Rightarrow> control_region list \<Rightarrow> bool" where
  "regions_ok g ss rs = (distinct (map cr_controller rs)
     \<and> set (map cr_controller rs) = {st_node s |s. s \<in> set ss \<and> st_control s \<noteq> None} \<and> (\<forall>r\<in>set rs. region_ok g ss rs r))"

lemma parent_of_ok:
  assumes "parent_of ss ds d = Some j"
  shows "\<exists>e\<in>set ds. dr_controller e = j \<and> j \<noteq> dr_controller d \<and> dr_controller d \<in> draft_members e"
proof -
  define cands where "cands = filter (\<lambda>e. dr_controller e \<noteq> dr_controller d \<and> dr_controller d \<in> draft_members e) ds"
  let ?f = "\<lambda>e. (card (draft_members e), step_indexes ss (dr_controller e))"
  from assms have "cands \<noteq> []" "j = dr_controller (arg_min_list ?f cands)"
    by (auto simp: parent_of_def Let_def cands_def [symmetric] split: if_splits)
  with arg_min_list_in [OF this(1), of ?f] show ?thesis by (auto simp: cands_def)
qed

lemma parent_table_Some:
  "distinct (map dr_controller ds) \<Longrightarrow> map_of (parent_table ss ds) i = Some p \<longleftrightarrow> (\<exists>d\<in>set ds. dr_controller d = i \<and> parent_of ss ds d = p)"
  unfolding parent_table_def by (rule table_Some)

lemma drafts_ok:
  assumes s: "settled g C ss layers" and t: "loop_table g loops"
  shows "\<exists>dss. rmap (draft_of g ss loops) ss = Inr dss
    \<and> map dr_controller (concat dss) = map st_node (filter (\<lambda>s. st_control s \<noteq> None) ss)
    \<and> (\<forall>d\<in>set (concat dss). \<exists>s\<in>set ss. \<exists>c. st_control s = Some c \<and> good_draft g ss s c d)"
proof -
  let ?P = "\<lambda>s ds. s \<in> set ss \<and> (case st_control s of None \<Rightarrow> ds = [] | Some c \<Rightarrow> \<exists>d. ds = [d] \<and> good_draft g ss s c d)"
  have "\<exists>dss. rmap (draft_of g ss loops) ss = Inr dss \<and> list_all2 ?P ss dss"
    by (rule rmap_ex) (use draft_of_ok [OF s _ t] in blast)
  then obtain dss where dss: "rmap (draft_of g ss loops) ss = Inr dss" "list_all2 ?P ss dss" by blast
  have "map dr_controller (concat yss) = map st_node (filter (\<lambda>s. st_control s \<noteq> None) xs)
    \<and> (\<forall>d\<in>set (concat yss). \<exists>s\<in>set ss. \<exists>c. st_control s = Some c \<and> good_draft g ss s c d)" if "list_all2 ?P xs yss" for xs yss
    using that
  proof (induction rule: list_all2_induct)
    case (Cons x xs y ys)
    show ?case
    proof (cases "st_control x")
      case (Some c)
      with Cons(1) obtain d where d: "y = [d]" "good_draft g ss x c d" "x \<in> set ss" by auto
      then have "dr_controller d = st_node x" by (simp add: good_draft_def)
      with d Some Cons(3) show ?thesis by auto
    qed (use Cons in simp)
  qed simp
  from this [OF dss(2)] dss(1) show ?thesis by blast
qed

text \<open>At most one loop or condition.\<close>

definition single_control :: "graph \<Rightarrow> bool" where
  "single_control g = (\<forall>n\<in>set (g_nodes g). \<forall>m\<in>set (g_nodes g).
     n_type_id n \<in> {for_each, switch_type} \<longrightarrow> n_type_id m \<in> {for_each, switch_type} \<longrightarrow> n_id n = n_id m)"

lemma derive_control_regions_ok:
  assumes s: "settled g C ss layers"
  shows "\<exists>rs ds. derive_control_regions g ss = Inr (rs, ds) \<and> list_all control_error ds \<and> (ds = [] \<longrightarrow> regions_ok g ss rs)
    \<and> (single_control g \<longrightarrow> (ds = [] \<longleftrightarrow> closed_loops g))"
proof -
  have "linked g" using s by (simp add: settled_def)
  from all_loops_ok [OF this] obtain loops ml where L: "all_loops g = Inr (loops, ml)" "loop_table g loops" "list_all control_error ml" "ml = [] \<longleftrightarrow> closed_loops g" by blast
  from drafts_ok [OF s L(2)] obtain dss where D: "rmap (draft_of g ss loops) ss = Inr dss"
      "map dr_controller (concat dss) = map st_node (filter (\<lambda>s. st_control s \<noteq> None) ss)"
      "\<forall>d\<in>set (concat dss). \<exists>s\<in>set ss. \<exists>c. st_control s = Some c \<and> good_draft g ss s c d" by blast
  define drafts where "drafts = concat dss"
  define ps where "ps = parent_table ss drafts"
  have dd: "distinct (map dr_controller drafts)"
    unfolding drafts_def D(2) using settled_nodes(1) [OF s] by (rule distinct_map_filter)
  note look = parent_table_Some [OF dd, of ss, folded ps_def]
  have closed: "parents_closed ps"
    unfolding parents_closed_def using look parent_of_ok by blast
  have keys: "\<forall>i\<in>set (map dr_controller drafts). map_of ps i \<noteq> None" using look by auto
  have "depths_ok ps {} (fst ([], ml)) True" by (simp add: depths_ok_def)
  from resolve_depths_ok [OF closed keys this] dd obtain T es where T: "resolve_depths ps (remdups (map dr_controller drafts)) ([], ml) = Inr (T, ml @ es)"
      "list_all control_error es" "depths_ok ps {} T (es = [])" "\<forall>i\<in>set (map dr_controller drafts). map_of T i \<noteq> None"
    by (auto simp: distinct_remdups_id)
  define P where "P d = the (map_of ps (dr_controller d))" for d :: region_draft
  define K where "K d = the (map_of T (dr_controller d))" for d :: region_draft
  have PK: "map_of ps (dr_controller d) = Some (P d)" "map_of T (dr_controller d) = Some (K d)" "P d = parent_of ss drafts d" if "d \<in> set drafts" for d
  proof -
    show "map_of ps (dr_controller d) = Some (P d)" using keys that by (auto simp: P_def)
    then show "P d = parent_of ss drafts d" using look that dd by (auto simp: distinct_map dest: inj_onD)
    show "map_of T (dr_controller d) = Some (K d)" using T(4) that by (auto simp: K_def)
  qed
  define region where "region d = region_at (P d) (K d) d" for d
  have depth: "0 \<le> K d" "P d = None \<longleftrightarrow> K d = 0" if "d \<in> set drafts" for d
  proof -
    from T(3) PK(2) [OF that] obtain p where "0 \<le> K d" "map_of ps (dr_controller d) = Some p" "p = None \<longleftrightarrow> K d = 0"
      unfolding depths_ok_def by blast
    with PK(1) [OF that] show "0 \<le> K d" "P d = None \<longleftrightarrow> K d = 0" by simp_all
  qed
  have good: "\<exists>s\<in>set ss. \<exists>c. st_control s = Some c \<and> good_draft g ss s c d" if "d \<in> set drafts" for d
    using D(3) that unfolding drafts_def by blast
  have reg: "region_of ps T d = Inr (region d)" if d: "d \<in> set drafts" for d
  proof -
    from good [OF d] obtain s c where sc: "good_draft g ss s c d" by blast
    have "P d \<noteq> Some (dr_controller d)" using parent_of_ok [of ss drafts d] PK(3) [OF d] by auto
    moreover have "dr_controller d = st_node s" using sc by (simp add: good_draft_def)
    ultimately have "control_region_post_init (region d) = Inr (region d)"
      using sc depth [OF d] unfolding good_draft_def region_def by metis
    with PK [OF d] show ?thesis by (simp add: region_of_def key_or_def region_def)
  qed
  define rs where "rs = map region (sort_key (\<lambda>d. step_indexes ss (dr_controller d)) drafts)"
  have "rmap (region_of ps T) (sort_key (\<lambda>d. step_indexes ss (dr_controller d)) drafts) = Inr rs"
    unfolding rs_def by (rule rmap_map) (use reg in simp)
  then have derive: "derive_control_regions g ss = Inr (rs, ml @ es)"
    by (simp add: derive_control_regions_def L(1) D(1) Let_def drafts_def [symmetric] ps_def [symmetric] T(1))
  have mem: "set rs = region ` set drafts" by (simp add: rs_def)
  have "regions_ok g ss rs" if e: "es = []"
  proof -
    have "distinct (map cr_controller rs)"
    proof -
      have "map cr_controller rs = map dr_controller (sort_key (\<lambda>d. step_indexes ss (dr_controller d)) drafts)" by (simp add: rs_def region_def)
      with dd show ?thesis by (simp add: distinct_map)
    qed
    moreover have "set (map cr_controller rs) = set (map dr_controller drafts)" unfolding set_map mem by (simp add: region_def image_image)
    then have "set (map cr_controller rs) = {st_node s |s. s \<in> set ss \<and> st_control s \<noteq> None}" unfolding drafts_def D(2) by auto
    moreover have "region_ok g ss rs r" if r: "r \<in> set rs" for r
    proof -
      from r obtain d where d: "d \<in> set drafts" "r = region d" by (auto simp: mem)
      from good [OF d(1)] obtain s c where sc: "s \<in> set ss" "st_control s = Some c" "good_draft g ss s c d" by blast
      have "case cr_parent r of None \<Rightarrow> cr_depth r = 0
        | Some i \<Rightarrow> \<exists>q\<in>set rs. cr_controller q = i \<and> cr_depth r = cr_depth q + 1 \<and> cr_controller r \<in> region_references q"
      proof (cases "P d")
        case None
        with depth [OF d(1)] show ?thesis by (simp add: d(2) region_def)
      next
        case (Some j)
        then obtain e' where e': "e' \<in> set drafts" "dr_controller e' = j" "dr_controller d \<in> draft_members e'"
          using parent_of_ok PK(3) [OF d(1)] by metis
        have "K d = K e' + 1" using T(3) e PK(1,2) [OF d(1)] Some PK(2) [OF e'(1)] e'(2) by (fastforce simp: depths_ok_def)
        with e' Some mem show ?thesis
          by (auto simp: d(2) region_def region_references_def draft_members_def)
      qed
      with sc d(2) show ?thesis by (auto simp: region_ok_def good_draft_def region_def region_references_def draft_members_def)
    qed
    ultimately show ?thesis by (simp add: regions_ok_def)
  qed
  moreover have "es = []" if single: "single_control g"
  proof -
    have "map_of ps i = Some None" if i: "i \<in> set (map dr_controller drafts)" for i
    proof -
      from i obtain d where d: "d \<in> set drafts" "dr_controller d = i" by auto
      have same: "dr_controller e = i" if e: "e \<in> set drafts" for e
      proof -
        have "\<exists>n\<in>set (g_nodes g). n_id n = dr_controller x \<and> n_type_id n \<in> {for_each, switch_type}" if "x \<in> set drafts" for x
          using good [OF that] control_node [OF s] by (fastforce simp: good_draft_def)
        from this [OF d(1)] this [OF e] single d(2) show ?thesis unfolding single_control_def by metis
      qed
      have "parent_of ss drafts d = None"
        using parent_of_ok [of ss drafts d] same d(2) by (cases "parent_of ss drafts d") auto
      with PK(1,3) [OF d(1)] d(2) show ?thesis by simp
    qed
    then have "\<forall>i\<in>set (remdups (map dr_controller drafts)). map_of ps i = Some None" by simp
    from resolve_roots [OF this, of "([], ml)"] T(1) show ?thesis by simp
  qed
  ultimately show ?thesis using derive L(3,4) T(2) by auto
qed

end
