(* ===== verification/Assembly.thy ===== *)
theory Assembly
  imports Nesting
begin

text \<open>
  The groups of a settled sequence of steps, and the checks of the plan that is made of them.
\<close>

declare map_of_eq_Some_iff [simp del]

section \<open>Groups\<close>

lemma enumerate_index: "map fst (enumerate 0 xs) = [0..<length xs]"
  by (simp add: map_fst_enumerate)

definition group_of_layer :: "execution_step list \<Rightarrow> uuid list list \<Rightarrow> nat \<times> uuid list \<Rightarrow> execution_group \<Rightarrow> bool" where
  "group_of_layer ss layers kl gr = (gr_index gr = int (fst kl)
     \<and> gr_steps gr = map (\<lambda>i. the (map_of (step_table ss) i)) (snd kl)
     \<and> gr_dependencies gr = group_dependencies (\<lambda>i. the (map_of (layer_indexes layers) i)) (int (fst kl)) (gr_steps gr)
     \<and> sound_annotation (gr_resources gr))"

lemma settled_table:
  assumes "settled g C ss layers" and "i \<in> set (concat layers)"
  shows "\<exists>s. map_of (step_table ss) i = Some s \<and> s \<in> set ss \<and> st_node s = i"
  using assms settled_nodes [OF assms(1)] step_table_Some [of ss i] by (metis image_iff)

lemma distinct_members:
  assumes "distinct ts" and "\<And>t. t \<in> set ts \<Longrightarrow> distinct (st_members t)"
    and "\<And>t u. t \<in> set ts \<Longrightarrow> u \<in> set ts \<Longrightarrow> t \<noteq> u \<Longrightarrow> set (st_members t) \<inter> set (st_members u) = {}"
    and "\<And>t. t \<in> set ts \<Longrightarrow> st_node t \<in> set (st_members t)"
  shows "distinct (concat (map st_members ts))"
  using assms by (induction ts) auto

lemma build_group_ok:
  assumes s: "settled g C ss layers" and k: "k < length layers"
  shows "\<exists>gr. build_group (step_table ss) (layer_indexes layers) (k, layers ! k) = Inr gr \<and> group_of_layer ss layers (k, layers ! k) gr"
proof -
  define b where "b i = the (map_of (step_table ss) i)" for i
  define gs where "gs i = the (map_of (layer_indexes layers) i)" for i
  have gs_eq: "(\<lambda>i. the (map_of (layer_indexes layers) i)) = gs" by (simp add: gs_def fun_eq_iff)
  let ?l = "layers ! k"
  have lay: "layered C {} layers" using s by (simp add: settled_def)
  note dl = settled_nodes(3) [OF s]
  have sub: "set ?l \<subseteq> set (concat layers)" using nth_mem [OF k] by auto
  have b: "map_of (step_table ss) i = Some (b i) \<and> b i \<in> set ss \<and> st_node (b i) = i" if "i \<in> set (concat layers)" for i
    using settled_table [OF s that] by (auto simp: b_def)
  have bl: "map_of (step_table ss) i = Some (b i)" "b i \<in> set ss" "st_node (b i) = i" if "i \<in> set ?l" for i
    using b [of i] sub that by auto
  define ts where "ts = map b ?l"
  have steps: "rmap (item_of (step_table ss)) ?l = (Inr ts :: compile_error + _)"
    unfolding ts_def by (rule rmap_map) (simp add: key_or_def bl(1))
  have tin: "t \<in> set ss \<and> st_node t \<in> set ?l" if "t \<in> set ts" for t using that bl by (auto simp: ts_def)
  have group: "map_of (layer_indexes layers) i = Some (int k)" if "i \<in> set ?l" for i
    using layer_indexes_Some [OF dl] k that by blast
  have deps: "\<exists>j<k. map_of (layer_indexes layers) i = Some (int j)" if t: "t \<in> set ts" "i \<in> set (st_dependencies t)" for t i
  proof -
    have "(i, st_node t) \<in> edge_rel C" using settled_member [OF s] tin [OF t(1)] t(2) by (auto simp: settled_step_def)
    from layered_nth [OF lay k _ this] tin [OF t(1)] obtain j where j: "j < k" "i \<in> set (layers ! j)" by blast
    then have "map_of (layer_indexes layers) i = Some (int j)" unfolding layer_indexes_Some [OF dl] using k by auto
    with j(1) show ?thesis by blast
  qed
  have "rmap (item_of (layer_indexes layers)) (concat (map st_dependencies ts)) = (Inr (map gs (concat (map st_dependencies ts))) :: compile_error + _)"
  proof (rule rmap_map)
    fix i assume "i \<in> set (concat (map st_dependencies ts))"
    then obtain t where "t \<in> set ts" "i \<in> set (st_dependencies t)" by auto
    from deps [OF this] show "item_of (layer_indexes layers) i = Inr (gs i)" by (auto simp: gs_def key_or_def)
  qed
  moreover obtain r where r: "combine_resources False (map st_resources ts) = Inr r" "sound_annotation r"
  proof -
    have "list_all sound_annotation (map st_resources ts)"
      using tin settled_member [OF s] by (auto simp: list_all_iff settled_step_def)
    from combine_resources_ok [OF this] that show thesis by blast
  qed
  moreover
  define gr where "gr = \<lparr>gr_index = int k, gr_steps = ts, gr_dependencies = group_dependencies gs (int k) ts,
    gr_resources = r, gr_critical_length = max_default (map st_critical_length ts)\<rparr>"
  have "group_post_init gr = Inr gr"
  proof -
    have ne: "ts \<noteq> []" using layered_distinct [OF lay] k by (auto simp: ts_def)
    have "st_group t = int k" if "t \<in> set ts" for t
      using settled_member [OF s] tin [OF that] group [of "st_node t"] by (auto simp: settled_step_def)
    moreover have "distinct (concat (map st_members ts))"
    proof -
      have "distinct ts" using layered_distinct [OF lay] k bl(3) by (auto simp: ts_def distinct_map intro!: inj_onI) (metis)
      moreover have "distinct (st_members t)" if "t \<in> set ts" for t
      proof -
        have "distinct (concat (map st_members ss))" using s by (simp add: settled_def)
        with tin [OF that] show ?thesis by (auto simp: distinct_concat_iff)
      qed
      moreover have "set (st_members t) \<inter> set (st_members u) = {}" if "t \<in> set ts" "u \<in> set ts" "t \<noteq> u" for t u
        using settled_same [OF s] tin that by blast
      moreover have "st_node t \<in> set (st_members t)" if "t \<in> set ts" for t
        using settled_member [OF s] tin [OF that] by (auto simp: settled_step_def)
      ultimately show ?thesis by (rule distinct_members)
    qed
    moreover have "0 \<le> d \<and> d < int k" if d: "d \<in> set (group_dependencies gs (int k) ts)" for d
      using d deps by (fastforce simp: group_dependencies_def gs_def)
    moreover have "0 < max_default (map st_critical_length ts)"
      by (rule max_default_pos [OF ne]) (use tin settled_member [OF s] in \<open>auto simp: settled_step_def\<close>)
    moreover have "distinct (group_dependencies gs (int k) ts)" "sorted (group_dependencies gs (int k) ts)"
      by (simp_all add: group_dependencies_def)
    ultimately show ?thesis
      using ne unfolding group_post_init_def rbind_Inr_iff by (simp add: gr_def list_all_iff)
  qed
  ultimately have "build_group (step_table ss) (layer_indexes layers) (k, ?l) = Inr gr"
    by (simp add: build_group_def steps gr_def gs_eq)
  moreover have "group_of_layer ss layers (k, ?l) gr" using r(2) by (simp add: group_of_layer_def gr_def ts_def b_def gs_eq)
  ultimately show ?thesis by blast
qed

definition grouped :: "execution_step list \<Rightarrow> uuid list list \<Rightarrow> execution_group list \<Rightarrow> bool" where
  "grouped ss layers grs = list_all2 (group_of_layer ss layers) (enumerate 0 layers) grs"

lemma build_groups_ok:
  assumes "settled g C ss layers"
  shows "\<exists>grs. rmap (build_group (step_table ss) (layer_indexes layers)) (enumerate 0 layers) = Inr grs \<and> grouped ss layers grs"
  unfolding grouped_def
proof (rule rmap_ex)
  fix kl assume "kl \<in> set (enumerate 0 layers)"
  moreover obtain k l where "kl = (k, l)" by force
  ultimately have "kl = (k, layers ! k)" "k < length layers" by (simp_all add: enumerate_mem)
  with build_group_ok [OF assms] show "\<exists>gr. build_group (step_table ss) (layer_indexes layers) kl = Inr gr \<and> group_of_layer ss layers kl gr"
    by blast
qed

lemma grouped_maps:
  assumes "grouped ss layers grs"
  shows "map gr_index grs = map int [0..<length grs]" and "length grs = length layers"
    and "map gr_steps grs = map (map (\<lambda>i. the (map_of (step_table ss) i))) layers"
proof -
  have L: "list_all2 (group_of_layer ss layers) (enumerate 0 layers) grs" using assms by (simp add: grouped_def)
  show len: "length grs = length layers" using list_all2_lengthD [OF L] by simp
  have "map gr_index grs = map (\<lambda>kl. int (fst kl)) (enumerate 0 layers)"
    using L by (induction rule: list_all2_induct) (auto simp: group_of_layer_def)
  also have "\<dots> = map int (map fst (enumerate 0 layers))" by (simp only: map_map o_def)
  also have "\<dots> = map int [0..<length grs]" unfolding len by (subst enumerate_index) (rule refl)
  finally show "map gr_index grs = map int [0..<length grs]" .
  have "map gr_steps grs = map (\<lambda>kl. map (\<lambda>i. the (map_of (step_table ss) i)) (snd kl)) (enumerate 0 layers)"
    using L by (induction rule: list_all2_induct) (auto simp: group_of_layer_def)
  also have "\<dots> = map (map (\<lambda>i. the (map_of (step_table ss) i))) (map snd (enumerate 0 layers))" by (simp only: map_map o_def)
  finally show "map gr_steps grs = map (map (\<lambda>i. the (map_of (step_table ss) i))) layers" by simp
qed

lemma grouped_steps:
  assumes s: "settled g C ss layers" and "grouped ss layers grs"
  shows "concat (map gr_steps grs) = ss"
proof -
  define b where "b i = the (map_of (step_table ss) i)" for i
  have "concat (map gr_steps grs) = map b (concat layers)"
    unfolding grouped_maps(3) [OF assms(2)] b_def [symmetric] by (simp add: map_concat)
  also have "concat layers = map st_node ss" using s by (simp add: settled_def)
  also have "map b (map st_node ss) = ss"
  proof -
    have "b (st_node t) = t" if "t \<in> set ss" for t
      using step_table_Some [OF settled_nodes(1) [OF s], of "st_node t" t] that by (simp add: b_def)
    then show ?thesis by (simp add: map_idI)
  qed
  finally show ?thesis .
qed

lemma group_table_layers:
  assumes s: "settled g C ss layers" and gr: "grouped ss layers grs"
  shows "map_of (group_table grs) i = map_of (layer_indexes layers) i"
proof -
  have eq: "group_table grs = fold (\<lambda>gr. fold (\<lambda>x d. AList.update (fst x) (snd x) d) (map (\<lambda>s. (st_node s, gr_index gr)) (gr_steps gr))) grs []"
    unfolding group_table_def by (simp add: fold_map o_def)
  have tab: "group_table grs = fold (\<lambda>x d. AList.update (fst x) (snd x) d)
      (concat (map (\<lambda>gr. map (\<lambda>s. (st_node s, gr_index gr)) (gr_steps gr)) grs)) []"
    unfolding eq by (simp only: fold_nested)
  have "map fst (concat (map (\<lambda>gr. map (\<lambda>s. (st_node s, gr_index gr)) (gr_steps gr)) grs)) = map st_node (concat (map gr_steps grs))"
    by (simp add: map_concat o_def)
  then have d: "distinct (map fst (concat (map (\<lambda>gr. map (\<lambda>s. (st_node s, gr_index gr)) (gr_steps gr)) grs)))"
    using settled_nodes(1) [OF s] grouped_steps [OF s gr] by simp
  have L: "list_all2 (group_of_layer ss layers) (enumerate 0 layers) grs" using gr by (simp add: grouped_def)
  have nth: "gr_index (grs ! k) = int k \<and> st_node ` set (gr_steps (grs ! k)) = set (layers ! k)" if k: "k < length layers" for k
  proof -
    have "group_of_layer ss layers (k, layers ! k) (grs ! k)" using list_all2_nthD [OF L, of k] k by (simp add: nth_enumerate_eq)
    then have "gr_index (grs ! k) = int k" "gr_steps (grs ! k) = map (\<lambda>i. the (map_of (step_table ss) i)) (layers ! k)"
      by (simp_all add: group_of_layer_def)
    moreover have "st_node (the (map_of (step_table ss) i)) = i" if "i \<in> set (layers ! k)" for i
    proof -
      have "i \<in> set (concat layers)" using nth_mem [OF k] that by auto
      from settled_table [OF s this] show ?thesis by auto
    qed
    ultimately show ?thesis by (simp add: image_image)
  qed
  have len: "length grs = length layers" by (rule grouped_maps(2) [OF gr])
  have "map_of (group_table grs) i = Some v \<longleftrightarrow> (\<exists>gr\<in>set grs. i \<in> st_node ` set (gr_steps gr) \<and> gr_index gr = v)" for v
    unfolding tab table_Some [OF d] by auto
  also have "\<dots> v \<longleftrightarrow> (\<exists>k<length layers. i \<in> set (layers ! k) \<and> v = int k)" for v
    using nth len by (metis in_set_conv_nth)
  also have "\<dots> v \<longleftrightarrow> map_of (layer_indexes layers) i = Some v" for v
    unfolding layer_indexes_Some [OF settled_nodes(3) [OF s]] ..
  finally show ?thesis by (metis not_None_eq)
qed

section \<open>The checks of the steps and the groups\<close>

lemma step_checks_ok:
  assumes s: "settled (pl_graph p) C (pl_steps p) layers"
  shows "\<forall>r\<in>set (step_checks p). r = Inr ()"
proof -
  let ?ss = "pl_steps p" and ?g = "pl_graph p"
  note d = settled_nodes(1) [OF s]
  have ids: "set (map n_id (g_nodes ?g)) = node_ids ?g" by (simp add: node_ids_def)
  have ends: "j \<in> st_node ` set ?ss" "k \<in> st_node ` set ?ss" if "(j, k) \<in> edge_rel C" for j k
    using s that by (auto simp: settled_def)
  have dep: "set (st_dependencies t) = {j. (j, st_node t) \<in> edge_rel C}" "set (st_dependents t) = {j. (st_node t, j) \<in> edge_rel C}"
    if "t \<in> set ?ss" for t using settled_member [OF s that] by (simp_all add: settled_step_def)
  have look: "\<exists>u. map_of (step_table ?ss) i = Some u \<and> u \<in> set ?ss \<and> st_node u = i" if "i \<in> st_node ` set ?ss" for i
    using step_table_Some [OF d] that by blast
  have m1: "mutual (step_table ?ss) t st_dependents i = Inr ()" if t: "t \<in> set ?ss" "i \<in> set (st_dependencies t)" for t i
  proof -
    have e: "(i, st_node t) \<in> edge_rel C" using t dep(1) by auto
    from look [OF ends(1) [OF e]] obtain u where "map_of (step_table ?ss) i = Some u" "u \<in> set ?ss" "st_node u = i" by blast
    with dep(2) [of u] e show ?thesis by (simp add: mutual_def key_or_def)
  qed
  have m2: "mutual (step_table ?ss) t st_dependencies i = Inr ()" if t: "t \<in> set ?ss" "i \<in> set (st_dependents t)" for t i
  proof -
    have e: "(st_node t, i) \<in> edge_rel C" using t dep(2) by auto
    from look [OF ends(2) [OF e]] obtain u where "map_of (step_table ?ss) i = Some u" "u \<in> set ?ss" "st_node u = i" by blast
    with dep(1) [of u] e show ?thesis by (simp add: mutual_def key_or_def)
  qed
  have sub: "set (st_dependencies t) \<subseteq> st_node ` set ?ss" "set (st_dependents t) \<subseteq> st_node ` set ?ss" if "t \<in> set ?ss" for t
    using dep [OF that] ends by auto
  have "map st_index ?ss = map int [0..<length ?ss]" "distinct (concat (map st_members ?ss))"
    "set (concat (map st_members ?ss)) = node_ids ?g" using s by (simp_all add: settled_def)
  with d sub m1 m2 show ?thesis unfolding step_checks_def Let_def ids by auto
qed

lemma group_checks_ok:
  assumes s: "settled (pl_graph p) C (pl_steps p) layers" and gr: "grouped (pl_steps p) layers (pl_groups p)"
    and f: "pl_fusions p = List.map_filter st_fusion (pl_steps p)"
  shows "\<forall>r\<in>set (group_checks p). r = Inr ()"
proof -
  let ?ss = "pl_steps p" and ?grs = "pl_groups p"
  have each: "rbind (rmap (item_of (group_table ?grs)) (concat (map st_dependencies (gr_steps x)))) (\<lambda>_.
         need (gr_dependencies x = group_dependencies (\<lambda>i. the (map_of (group_table ?grs) i)) (gr_index x) (gr_steps x)) msg) = Inr ()"
    if x: "x \<in> set ?grs" for x msg
  proof -
    have "gr_dependencies x = group_dependencies (\<lambda>i. the (map_of (layer_indexes layers) i)) (gr_index x) (gr_steps x)"
      using gr x by (auto simp: grouped_def group_of_layer_def list_all2_conv_all_nth in_set_conv_nth)
    moreover have "rmap (item_of (group_table ?grs)) (concat (map st_dependencies (gr_steps x)))
      = (Inr (map (\<lambda>i. the (map_of (group_table ?grs) i)) (concat (map st_dependencies (gr_steps x)))) :: compile_error + _)"
    proof (rule rmap_map)
      fix i assume "i \<in> set (concat (map st_dependencies (gr_steps x)))"
      then obtain t where t: "t \<in> set (gr_steps x)" "i \<in> set (st_dependencies t)" by auto
      have "t \<in> set (concat (map gr_steps ?grs))" using t(1) x by auto
      then have "t \<in> set ?ss" using grouped_steps [OF s gr] by simp
      then have "(i, st_node t) \<in> edge_rel C" using t(2) settled_member [OF s] by (auto simp: settled_step_def)
      then have "i \<in> set (concat layers)" using s settled_nodes(2) [OF s] by (auto simp: settled_def)
      from layer_indexes_total [OF settled_nodes(3) [OF s] this] obtain k where "map_of (layer_indexes layers) i = Some k" by metis
      then show "item_of (group_table ?grs) i = Inr (the (map_of (group_table ?grs) i))"
        using group_table_layers [OF s gr] by (simp add: key_or_def)
    qed
    ultimately show ?thesis using group_table_layers [OF s gr] by simp
  qed
  show ?thesis
    using each grouped_maps(1) [OF gr] grouped_steps [OF s gr] f unfolding group_checks_def Let_def by auto
qed

section \<open>The order of the nodes\<close>

lemma layered_before:
  assumes "layered es P ls" and "concat ls = xs @ i # ys" and "(j, i) \<in> edge_rel es"
  shows "j \<in> P \<union> set xs"
  using assms
proof (induction es P ls arbitrary: xs rule: layered.induct)
  case (2 es P l ls)
  from 2(3) have "l @ concat ls = xs @ i # ys" by simp
  then consider us where "xs = l @ us" "concat ls = us @ i # ys" | us where "l = xs @ i # us"
    by (auto simp: append_eq_append_conv2 append_eq_Cons_conv Cons_eq_append_conv)
  then show ?case
  proof cases
    case (1 us)
    with 2 show ?thesis by auto
  next
    case (2 us)
    with "2.prems" show ?thesis by auto
  qed
qed simp

lemma indexes_nth: "distinct order \<Longrightarrow> n < length order \<Longrightarrow> map_of (indexes order) (order ! n) = Some n"
  unfolding indexes_def by (subst map_of_zip_nth) simp_all

lemma index_of:
  assumes "distinct order" and "order = xs @ i # ys"
  shows "map_of (indexes order) i = Some (length xs)"
  using indexes_nth [OF assms(1), of "length xs"] assms(2) by simp

lemma layered_indexes:
  assumes l: "layered es {} ls" and i: "i \<in> set (concat ls)" and e: "(j, i) \<in> edge_rel es"
  shows "\<exists>m n. map_of (indexes (concat ls)) j = Some m \<and> map_of (indexes (concat ls)) i = Some n \<and> m < n"
proof -
  have d: "distinct (concat ls)" using layered_distinct [OF l] by blast
  from i obtain xs ys where xs: "concat ls = xs @ i # ys" by (metis split_list)
  from layered_before [OF l xs e] obtain us vs where us: "xs = us @ j # vs" by (auto dest: split_list)
  with xs have "concat ls = us @ j # (vs @ i # ys)" by simp
  from index_of [OF d xs] index_of [OF d this] us show ?thesis by auto
qed

lemma walk_indexes:
  assumes l: "layered es {} ls" and ends: "\<And>j k. (j, k) \<in> edge_rel es \<Longrightarrow> k \<in> set (concat ls)"
    and "walk es p" and "set p \<subseteq> set (concat ls)"
  shows "sorted (map (\<lambda>i. the (map_of (indexes (concat ls)) i)) p)"
  using assms(3,4)
proof (induction p rule: induct_list012)
  case (3 n m p)
  let ?ix = "\<lambda>i. the (map_of (indexes (concat ls)) i)"
  from 3 have s: "sorted (map ?ix (m # p))" by simp
  have e: "(n, m) \<in> edge_rel es" using 3(3) by simp
  from layered_indexes [OF l ends [OF e] e] have "?ix n < ?ix m" by auto
  with s show ?case by (simp add: order_trans [OF less_imp_le])
qed simp_all

lemma order_checks_ok:
  assumes g: "linked (pl_graph p)" "0 < g_version (pl_graph p)" and l: "layered (g_edges (pl_graph p)) {} ls"
    and o: "pl_order p = concat ls" "set (concat ls) = node_ids (pl_graph p)"
    and c: "pl_critical_path p = [] \<or> walk (g_edges (pl_graph p)) (pl_critical_path p) \<and> set (pl_critical_path p) \<subseteq> node_ids (pl_graph p)"
    and f: "pl_graph_id p = g_id (pl_graph p)" "pl_graph_version p = g_version (pl_graph p)" "sha256_hex (pl_cache_key p)"
  shows "\<forall>r\<in>set (order_checks p). r = Inr ()"
proof -
  let ?g = "pl_graph p" and ?c = "pl_critical_path p"
  have ids: "set (map n_id (g_nodes ?g)) = node_ids ?g" by (simp add: node_ids_def)
  have d: "distinct (concat ls)" using layered_distinct [OF l] by blast
  have edge: "rbind (item_of (indexes (concat ls)) (e_source e)) (\<lambda>i. rbind (item_of (indexes (concat ls)) (e_target e)) (\<lambda>j.
         need (i < j) msg)) = Inr ()" if e: "e \<in> set (g_edges ?g)" for e msg
  proof -
    have "(e_source e, e_target e) \<in> arcs ?g" using e by (auto simp: edge_rel_iff)
    moreover have "e_target e \<in> set (concat ls)" using g(1) e o(2) by (auto simp: linked_def)
    ultimately obtain m n where "map_of (indexes (concat ls)) (e_source e) = Some m" "map_of (indexes (concat ls)) (e_target e) = Some n" "m < n"
      using layered_indexes [OF l] by blast
    then show ?thesis by (simp add: key_or_def)
  qed
  have crit: "distinct ?c" "set ?c \<subseteq> node_ids ?g" "sort_key (\<lambda>i. the (map_of (indexes (concat ls)) i)) ?c = ?c"
  proof -
    have "acyclic (arcs ?g)" using g(1) by (simp add: linked_def)
    with c show "distinct ?c" using walk_distinct [of "g_edges ?g" ?c] by (cases "?c = []") simp_all
    from c show sub: "set ?c \<subseteq> node_ids ?g" by auto
    have "sorted (map (\<lambda>i. the (map_of (indexes (concat ls)) i)) ?c)"
    proof (cases "?c = []")
      case False
      with c have w: "walk (g_edges ?g) ?c" by blast
      show ?thesis by (rule walk_indexes [OF l _ w]) (use sub o(2) arcs_nodes [OF g(1)] in auto)
    qed simp
    then show "sort_key (\<lambda>i. the (map_of (indexes (concat ls)) i)) ?c = ?c" by (rule sort_key_id_if_sorted)
  qed
  show ?thesis
    unfolding order_checks_def Let_def ids o(1) using edge crit d o(2) g(2) f by auto
qed

section \<open>The checks of the regions\<close>

lemma region_table_Some:
  "distinct (map cr_controller rs) \<Longrightarrow> map_of (region_table rs) i = Some r \<longleftrightarrow> r \<in> set rs \<and> cr_controller r = i"
  unfolding region_table_def by (subst table_Some) auto

lemma region_checks_ok:
  assumes d: "distinct (map st_node (pl_steps p))" and rs: "regions_ok g (pl_steps p) (pl_regions p)"
  shows "\<forall>r\<in>set (region_checks p). r = Inr ()"
proof -
  let ?ss = "pl_steps p" and ?rs = "pl_regions p"
  define cs where "cs = filter (\<lambda>s. st_control s \<noteq> None) ?ss"
  have dc: "distinct (map st_node cs)" unfolding cs_def using d by (rule distinct_map_filter)
  have dr: "distinct (map cr_controller ?rs)" using rs by (simp add: regions_ok_def)
  have keys: "cr_controller ` set ?rs = st_node ` set cs" using rs by (auto simp: regions_ok_def cs_def)
  have each: "map_option ca_kind (Option.bind (map_of (step_table cs) (cr_controller r)) st_control) = Some (cr_kind r)"
      "region_references r \<subseteq> st_node ` set ?ss"
      "(case cr_parent r of None \<Rightarrow> need (cr_depth r = 0) m1
           | Some i \<Rightarrow> (case map_of (region_table ?rs) i of None \<Rightarrow> need False m2
              | Some q \<Rightarrow> need (cr_depth r = cr_depth q + 1) m3)) = Inr ()" if r: "r \<in> set ?rs" for r m1 m2 m3
  proof -
    have ok: "region_ok g ?ss ?rs r" using rs r by (simp add: regions_ok_def)
    then obtain s where s: "s \<in> set ?ss" "st_node s = cr_controller r" "map_option ca_kind (st_control s) = Some (cr_kind r)"
      by (auto simp: region_ok_def)
    then have "s \<in> set cs" by (auto simp: cs_def)
    with s(2) have "map_of (step_table cs) (cr_controller r) = Some s" using step_table_Some [OF dc] by blast
    with s(3) show "map_option ca_kind (Option.bind (map_of (step_table cs) (cr_controller r)) st_control) = Some (cr_kind r)" by simp
    from ok show "region_references r \<subseteq> st_node ` set ?ss" by (simp add: region_ok_def)
    from ok have "case cr_parent r of None \<Rightarrow> cr_depth r = 0 | Some i \<Rightarrow> \<exists>q\<in>set ?rs. cr_controller q = i \<and> cr_depth r = cr_depth q + 1"
      by (auto simp: region_ok_def split: option.splits)
    then show "(case cr_parent r of None \<Rightarrow> need (cr_depth r = 0) m1
           | Some i \<Rightarrow> (case map_of (region_table ?rs) i of None \<Rightarrow> need False m2
              | Some q \<Rightarrow> need (cr_depth r = cr_depth q + 1) m3)) = Inr ()"
    proof (cases "cr_parent r")
      case (Some i)
      with \<open>case cr_parent r of None \<Rightarrow> _ | Some i \<Rightarrow> _\<close> obtain q where "q \<in> set ?rs" "cr_controller q = i" "cr_depth r = cr_depth q + 1" by auto
      then have "map_of (region_table ?rs) i = Some q" using region_table_Some [OF dr] by blast
      with Some \<open>cr_depth r = cr_depth q + 1\<close> show ?thesis by simp
    qed simp
  qed
  show ?thesis unfolding region_checks_def Let_def cs_def [symmetric] using dr keys each by auto
qed

section \<open>The checks of the traces and the outputs\<close>

lemma trace_table_Some:
  "distinct (map t_call ts) \<Longrightarrow> map_of (trace_table ts) i = Some t \<longleftrightarrow> t \<in> set ts \<and> t_call t = i"
  unfolding trace_table_def by (subst table_Some) auto

lemma trace_checks_ok:
  assumes d: "distinct (map t_call (pl_traces p))" and ts: "traces_ok (node_ids (pl_graph p)) (pl_traces p)"
  shows "\<forall>r\<in>set (trace_checks p). r = Inr ()"
proof -
  let ?ts = "pl_traces p"
  have ids: "set (map n_id (g_nodes (pl_graph p))) = node_ids (pl_graph p)" by (simp add: node_ids_def)
  have len: "length (trace_table ?ts) = length ?ts"
    unfolding trace_table_def using table_length [OF d, of "[]" "\<lambda>t. t"] by simp
  have each: "(case t_parent t of None \<Rightarrow> need (t_depth t = 0) m1
           | Some i \<Rightarrow> (case map_of (trace_table ?ts) i of None \<Rightarrow> need False m2
              | Some q \<Rightarrow> checks [need (t_depth t = t_depth q + 1) m3, need (set (t_members t) \<subseteq> set (t_members q)) m4])) = Inr ()"
    if t: "t \<in> set ?ts" for t m1 m2 m3 m4
  proof (cases "t_parent t")
    case None
    with ts t show ?thesis by (auto simp: traces_ok_def)
  next
    case (Some i)
    with ts t obtain q where "q \<in> set ?ts" "t_call q = i" "t_depth t = t_depth q + 1" "set (t_members t) \<subseteq> set (t_members q)"
      unfolding traces_ok_def by fastforce
    moreover from this(1,2) have "map_of (trace_table ?ts) i = Some q" using trace_table_Some [OF d] by blast
    ultimately show ?thesis using Some by simp
  qed
  show ?thesis unfolding trace_checks_def Let_def ids using len each ts by (auto simp: traces_ok_def)
qed

lemma same_dict_refl: "wf_dict d \<Longrightarrow> same_dict d d"
  by (auto simp: same_dict_def list_all_iff map_of_Some_iff)

lemma output_checks_ok:
  assumes "pl_outputs p = g_outputs (pl_graph p)" and "valid_bindings (pl_outputs p)"
    and "\<forall>(_, b)\<in>set (pl_outputs p). b_node b \<in> node_ids (pl_graph p)"
  shows "\<forall>r\<in>set (output_checks p). r = Inr ()"
proof -
  have ids: "set (map n_id (g_nodes (pl_graph p))) = node_ids (pl_graph p)" by (simp add: node_ids_def)
  have "same_dict (pl_outputs p) (g_outputs (pl_graph p))" using assms(1,2) by (simp add: valid_bindings_def same_dict_refl)
  then show ?thesis unfolding output_checks_def Let_def ids using assms(2,3) by (auto simp: valid_bindings_def list_all_iff)
qed

end
