(* ===== verification/Compiled.thy ===== *)
theory Compiled
  imports Assembly
begin

text \<open>
  What a compiled plan is, and that the compiler makes one of every well-typed graph whose control
  regions nest.
\<close>

declare map_of_eq_Some_iff [simp del]

section \<open>Plans of a graph\<close>

text \<open>
  A plan of a graph: its order is topological and its critical path a longest walk; its steps are
  walks that partition the nodes, each data edge within a step or to a step that depends on its
  source; a group holds only steps whose dependencies are in the groups before it; a step is
  constant when no input of the graph reaches it; and the control regions hold the nodes they should.
\<close>

definition groups_in_order :: "execution_group list \<Rightarrow> bool" where
  "groups_in_order grs = (\<forall>us gr vs. grs = us @ gr # vs \<longrightarrow>
     (\<forall>s\<in>set (gr_steps gr). set (st_dependencies s) \<subseteq> st_node ` set (concat (map gr_steps us))))"

definition steps_cover :: "graph \<Rightarrow> execution_step list \<Rightarrow> bool" where
  "steps_cover g ss = (distinct (concat (map st_members ss)) \<and> set (concat (map st_members ss)) = node_ids g
     \<and> (\<forall>s\<in>set ss. walk (g_edges g) (st_members s) \<and> (st_is_constant s \<longleftrightarrow> (\<forall>i\<in>set (st_members s). \<not> reached g i)))
     \<and> (\<forall>e\<in>set (g_edges g). \<exists>s\<in>set ss. \<exists>t\<in>set ss. e_source e \<in> set (st_members s) \<and> e_target e \<in> set (st_members t)
          \<and> (s = t \<or> st_node s \<in> set (st_dependencies t))))"

definition plan_for :: "graph \<Rightarrow> execution_plan \<Rightarrow> bool" where
  "plan_for g p = (pl_graph p = g \<and> plan_valid p
     \<and> distinct (pl_order p) \<and> set (pl_order p) = node_ids g
     \<and> (\<forall>us i vs j. pl_order p = us @ i # vs \<longrightarrow> (j, i) \<in> arcs g \<longrightarrow> j \<in> set us)
     \<and> (pl_critical_path p = [] \<or> walk (g_edges g) (pl_critical_path p))
     \<and> (\<forall>q. walk (g_edges g) q \<longrightarrow> set q \<subseteq> node_ids g \<longrightarrow> length q \<le> length (pl_critical_path p))
     \<and> concat (map gr_steps (pl_groups p)) = pl_steps p \<and> groups_in_order (pl_groups p)
     \<and> steps_cover g (pl_steps p) \<and> regions_ok g (pl_steps p) (pl_regions p))"

lemma groups_in_order_ok:
  assumes s: "settled g C ss layers" and gr: "grouped ss layers grs"
  shows "groups_in_order grs"
  unfolding groups_in_order_def
proof (intro allI impI ballI subsetI)
  fix us gr vs s j assume d: "grs = us @ gr # vs" "s \<in> set (gr_steps gr)" "j \<in> set (st_dependencies s)"
  define b where "b i = the (map_of (step_table ss) i)" for i
  have steps: "map gr_steps grs = map (map b) layers" using grouped_maps(3) [OF assms(2)] by (simp add: b_def)
  let ?k = "length us"
  have k: "?k < length layers" using d(1) grouped_maps(2) [OF assms(2)] by simp
  have nth: "gr_steps (grs ! n) = map b (layers ! n)" if "n < length layers" for n
    using that steps grouped_maps(2) [OF assms(2)] by (metis nth_map)
  have node: "st_node (b i) = i" "b i \<in> set ss" if "n < length layers" "i \<in> set (layers ! n)" for i n
  proof -
    have "i \<in> set (concat layers)" using that nth_mem by auto
    from settled_table [OF assms(1) this] show "st_node (b i) = i" "b i \<in> set ss" by (auto simp: b_def)
  qed
  have "gr = grs ! ?k" using d(1) by simp
  with nth [OF k] d(2) obtain i where i: "i \<in> set (layers ! ?k)" "s = b i" by auto
  with node [OF k i(1)] d(3) settled_member [OF assms(1), of s] have "(j, i) \<in> edge_rel C" by (auto simp: settled_step_def)
  moreover have "layered C {} layers" using assms(1) by (simp add: settled_def)
  ultimately obtain m where m: "m < ?k" "j \<in> set (layers ! m)" using layered_nth [OF _ k i(1)] by blast
  with k have "m < length layers" by simp
  with m(2) nth node(1) have "j \<in> st_node ` set (gr_steps (grs ! m))" by force
  moreover have "grs ! m \<in> set us" using m(1) d(1) by (simp add: nth_append)
  ultimately show "j \<in> st_node ` set (concat (map gr_steps us))" by auto
qed

lemma steps_cover_ok:
  assumes s: "settled g C ss layers"
  shows "steps_cover g ss"
proof -
  have "\<exists>s\<in>set ss. \<exists>t\<in>set ss. e_source e \<in> set (st_members s) \<and> e_target e \<in> set (st_members t)
      \<and> (s = t \<or> st_node s \<in> set (st_dependencies t))" if e: "e \<in> set (g_edges g)" for e
  proof -
    have "linked g" and c: "set (concat (map st_members ss)) = node_ids g" using s by (simp_all add: settled_def)
    with e have "e_source e \<in> set (concat (map st_members ss))" "e_target e \<in> set (concat (map st_members ss))"
      unfolding c by (simp_all add: linked_def)
    then obtain u t where ut: "u \<in> set ss" "t \<in> set ss" "e_source e \<in> set (st_members u)" "e_target e \<in> set (st_members t)" by auto
    with s e have "u = t \<or> (st_node u, st_node t) \<in> edge_rel C" unfolding settled_def by blast
    moreover have "set (st_dependencies t) = {j. (j, st_node t) \<in> edge_rel C}"
      using settled_member [OF s ut(2)] by (simp add: settled_step_def)
    ultimately have "u = t \<or> st_node u \<in> set (st_dependencies t)" by simp
    with ut show ?thesis by blast
  qed
  moreover have "walk (g_edges g) (st_members t) \<and> (st_is_constant t \<longleftrightarrow> (\<forall>i\<in>set (st_members t). \<not> reached g i))" if "t \<in> set ss" for t
    using settled_member [OF s that] by (simp add: settled_step_def)
  ultimately show ?thesis using s by (auto simp: steps_cover_def settled_def)
qed

section \<open>Assembling a plan\<close>

text \<open>
  A refusal of the graph with its diagnostics, as when the control regions do not nest, or the one
  check of a plan that may fail: cloned calls of subgraphs may have been given the same identifier.
\<close>

definition refused :: "compile_error \<Rightarrow> bool" where
  "refused e = (case e of GraphCompilationError ds \<Rightarrow> has_error ds | _ \<Rightarrow> False)"

definition repeated_trace :: "trace list \<Rightarrow> compile_error \<Rightarrow> bool" where
  "repeated_trace ts e = (\<not> distinct (map t_call ts) \<and> e = CompileValue (GValue ''subgraph trace call ids must be unique''))"

lemma checks_append: "\<forall>r\<in>set xs. r = Inr () \<Longrightarrow> checks (xs @ ys) = checks ys"
  by (induction xs) auto

lemma repeated_trace_checks:
  assumes "\<not> distinct (map t_call (pl_traces p))"
  shows "\<exists>e. checks (trace_checks p @ rs) = Inl e \<and> repeated_trace (pl_traces p) e"
proof -
  let ?d = "trace_table (pl_traces p)"
  have "wf_dict ?d" unfolding trace_table_def by (rule wf_dict_fold) simp
  then have "length ?d = card (set (dkeys ?d))" by (metis distinct_card length_map)
  also have "set (dkeys ?d) = set (map t_call (pl_traces p))"
    unfolding trace_table_def using table_keys [of t_call "\<lambda>t. t" "pl_traces p" "[]"] by simp
  finally have "length ?d \<noteq> length (pl_traces p)" using assms by (metis card_distinct length_map)
  then show ?thesis using assms by (simp add: trace_checks_def Let_def repeated_trace_def need_def)
qed

lemma has_error_control: "list_all control_error ds \<Longrightarrow> has_error ds \<longleftrightarrow> ds \<noteq> []"
  by (cases ds) (auto simp: has_error_def list_ex_iff list_all_iff control_error_def)

lemma plan_cache_key_ok:
  assumes "hex_hash H" and "\<forall>(_, b)\<in>set (g_outputs g). map_of keys (b_node b) \<noteq> None"
  shows "\<exists>k. plan_cache_key H g keys ss = Inr k \<and> sha256_hex k"
proof -
  have "rmap (\<lambda>(name, b). rbind (item_of keys (b_node b)) (\<lambda>k. Inr (name,
       jfields [(''cache_key'', jstr k), (''port'', jstr (b_port b))]))) (sort_key fst (g_outputs g))
     = (Inr (map (\<lambda>(name, b). (name, jfields [(''cache_key'', jstr (the (map_of keys (b_node b)))), (''port'', jstr (b_port b))]))
         (sort_key fst (g_outputs g))) :: compile_error + _)"
    using assms(2) by (intro rmap_map) (force simp: key_or_def)
  then show ?thesis using content_hex [OF assms(1)] by (simp add: plan_cache_key_def)
qed

lemma assemble_plan_ok:
  assumes H: "hex_hash H" and s: "settled g C ss layers" and vg: "valid_graph g" and w: "well_typed lit vx g"
    and keys: "\<forall>i\<in>node_ids g. map_of keys i \<noteq> None" and ds: "\<not> has_error ds"
    and ts: "traces_ok (node_ids g) ts"
    and l: "layered (g_edges g) {} ls" "set (concat ls) = node_ids g"
    and c: "critical = [] \<or> walk (g_edges g) critical" "set critical \<subseteq> node_ids g"
      "\<forall>q. walk (g_edges g) q \<longrightarrow> set q \<subseteq> node_ids g \<longrightarrow> length q \<le> length critical"
  shows "(case assemble_plan H g ts ds (concat ls) critical keys (ss, layers) of Inl e \<Rightarrow> refused e \<or> repeated_trace ts e
    | Inr p \<Rightarrow> plan_for g p \<and> pl_traces p = ts \<and> pl_steps p = ss)
    \<and> (single_control g \<longrightarrow> distinct (map t_call ts) \<longrightarrow>
        is_ok (assemble_plan H g ts ds (concat ls) critical keys (ss, layers)) = closed_loops g)"
proof -
  have g: "linked g" using s by (simp add: settled_def)
  obtain rs cds where R: "derive_control_regions g ss = Inr (rs, cds)" "list_all control_error cds" "cds = [] \<longrightarrow> regions_ok g ss rs"
      "single_control g \<longrightarrow> (cds = [] \<longleftrightarrow> closed_loops g)"
    using derive_control_regions_ok [OF s] by blast
  show ?thesis
  proof (cases "cds = []")
    case False
    then have e: "has_error cds" using R(2) by (simp add: has_error_control)
    then have "has_error (sort_key control_key (ds @ cds))" by (auto simp: has_error_def list_ex_iff)
    with False e R(1,4) show ?thesis by (simp add: assemble_plan_def Let_def refused_def)
  next
    case True
    obtain grs where G: "rmap (build_group (step_table ss) (layer_indexes layers)) (enumerate 0 layers) = Inr grs" "grouped ss layers grs"
      using build_groups_ok [OF s] by blast
    have "list_all sound_annotation (map gr_resources grs)"
      using G(2) by (auto simp: grouped_def group_of_layer_def list_all_iff list_all2_conv_all_nth in_set_conv_nth)
    from combine_resources_ok [OF this] obtain peak where peak: "combine_resources True (map gr_resources grs) = Inr peak" by blast
    have out: "b_node b \<in> node_ids g" if "(k, b) \<in> set (g_outputs g)" for k b
    proof -
      from w that have "binding_typed (cx_catalogue vx) g nd_output_schema b" by (auto simp: well_typed_def)
      then show ?thesis by (force simp: binding_typed_def typed_at_def node_ids_def)
    qed
    with keys obtain key where key: "plan_cache_key H g keys ss = Inr key" "sha256_hex key"
      using plan_cache_key_ok [OF H, of g keys ss] by blast
    define p where "p = \<lparr>pl_graph_id = g_id g, pl_graph_version = g_version g, pl_cache_key = key, pl_graph = g, pl_steps = ss,
        pl_groups = grs, pl_order = concat ls, pl_critical_path = critical, pl_peak = peak, pl_diagnostics = ds,
        pl_outputs = g_outputs g, pl_fusions = List.map_filter st_fusion ss, pl_regions = rs, pl_traces = ts\<rparr>"
    have p: "pl_graph p = g" "pl_steps p = ss" "pl_groups p = grs" "pl_order p = concat ls" "pl_critical_path p = critical"
      "pl_regions p = rs" "pl_traces p = ts" "pl_outputs p = g_outputs g" "pl_graph_id p = g_id g" "pl_graph_version p = g_version g"
      "pl_cache_key p = key" "pl_fusions p = List.map_filter st_fusion ss" "pl_diagnostics p = ds" by (simp_all add: p_def)
    have checks: "\<forall>r\<in>set (order_checks p). r = Inr ()" "\<forall>r\<in>set (step_checks p). r = Inr ()" "\<forall>r\<in>set (group_checks p). r = Inr ()"
      "\<forall>r\<in>set (region_checks p). r = Inr ()" "\<forall>r\<in>set (output_checks p). r = Inr ()"
    proof -
      show "\<forall>r\<in>set (order_checks p). r = Inr ()"
        by (rule order_checks_ok [of _ ls]) (use g vg l c key p in \<open>auto simp: valid_graph_def\<close>)
      show "\<forall>r\<in>set (step_checks p). r = Inr ()" by (rule step_checks_ok [of _ C layers]) (use s p in simp)
      show "\<forall>r\<in>set (group_checks p). r = Inr ()" by (rule group_checks_ok [of _ C layers]) (use s G(2) p in simp_all)
      show "\<forall>r\<in>set (region_checks p). r = Inr ()"
        by (rule region_checks_ok [of _ g]) (use settled_nodes(1) [OF s] True R(3) p in simp_all)
      show "\<forall>r\<in>set (output_checks p). r = Inr ()"
        by (rule output_checks_ok) (use out vg p in \<open>auto simp: valid_graph_def\<close>)
    qed
    then have "plan_post_init p = rbind (checks (trace_checks p @ output_checks p)) (\<lambda>_. Inr p)"
      unfolding plan_post_init_def
      by (simp only: checks_append [OF checks(1)] checks_append [OF checks(2)] checks_append [OF checks(3)] checks_append [OF checks(4)])
    moreover have "assemble_plan H g ts ds (concat ls) critical keys (ss, layers) = plan_post_init p"
      using R(1) True G(1) peak key(1) by (simp add: assemble_plan_def Let_def has_error_def p_def)
    ultimately have post: "assemble_plan H g ts ds (concat ls) critical keys (ss, layers)
      = rbind (checks (trace_checks p @ output_checks p)) (\<lambda>_. Inr p)" by simp
    show ?thesis
    proof (cases "distinct (map t_call ts)")
      case False
      with repeated_trace_checks [of p "output_checks p"] post p(7) show ?thesis by auto
    next
      case dt: True
    have "\<forall>r\<in>set (trace_checks p). r = Inr ()" by (rule trace_checks_ok) (use ts dt p in simp_all)
    with checks(5) have "assemble_plan H g ts ds (concat ls) critical keys (ss, layers) = Inr p"
      unfolding post rbind_Inr_iff checks_Inr_iff by (auto simp: list_all_iff)
    moreover have "plan_for g p"
      unfolding plan_for_def p
      using ds l c R(3) True layered_distinct [OF l(1)] layered_before [OF l(1)] grouped_steps [OF s G(2)]
        groups_in_order_ok [OF s G(2)] steps_cover_ok [OF s]
      by (fastforce simp: plan_valid_def p has_error_def list_ex_iff list_all_iff)
    ultimately show ?thesis using p R(4) True by simp
    qed
  qed
qed

section \<open>From a well-typed graph to a plan\<close>

lemma well_typed_bounds:
  "well_typed lit vx g \<Longrightarrow> n \<in> set (g_nodes g) \<Longrightarrow> n_type_id n = for_each \<Longrightarrow> loop_bound n \<noteq> None"
  by (auto simp: well_typed_def node_typed_def)

lemma critical_walk:
  assumes l: "topological_layers ns es = Inr ls"
  shows "\<exists>L c. critical_path_lengths (concat ls) es = Inr L \<and> select_critical_path (concat ls) es (Some L) = Inr c
    \<and> (\<forall>n\<in>set ns. \<exists>k. map_of L n = Some k \<and> 0 < k) \<and> (c = [] \<or> walk es c) \<and> set c \<subseteq> set ns
    \<and> (\<forall>q. walk es q \<longrightarrow> set q \<subseteq> set ns \<longrightarrow> length q \<le> length c)"
proof (cases "ns = []")
  case True
  then have e: "concat ls = []" using topological_layers_ok(5) [OF l] by simp
  with True show ?thesis unfolding e
    by (intro exI [of _ "[]"]) (simp add: critical_path_lengths_def select_critical_path_def)
next
  case False
  from critical_path_spec [OF l this] obtain L c where c: "critical_path_lengths (concat ls) es = Inr L"
      "\<forall>n\<in>set ns. \<exists>q. walk es (n # q) \<and> map_of L n = Some (1 + int (length q)) \<and> (\<forall>r. walk es (n # r) \<longrightarrow> length r \<le> length q)"
      "select_critical_path (concat ls) es (Some L) = Inr c" "walk es c" "set c \<subseteq> set ns" "\<forall>q. walk es q \<longrightarrow> length q \<le> length c" by blast
  have "\<exists>k. map_of L n = Some k \<and> 0 < k" if n: "n \<in> set ns" for n
  proof -
    from bspec [OF c(2) n] obtain q :: "uuid list" where "map_of L n = Some (1 + int (length q))" by blast
    then show ?thesis by simp
  qed
  with c(1,3-6) show ?thesis by (intro exI [of _ L] exI [of _ c]) simp
qed

lemma plan_graph_ok:
  assumes H: "hex_hash H" and cx: "good_context cx" and vg: "valid_graph g" and w: "well_typed lit (validation_context.truncate cx) g"
    and ds: "\<not> has_error ds" and ts: "traces_ok (node_ids g) ts"
  shows "\<exists>r. plan_graph H cx g ts ds = Some r \<and> (case r of Inl e \<Rightarrow> refused e \<or> repeated_trace ts e
    | Inr p \<Rightarrow> plan_for g p \<and> pl_traces p = ts)
    \<and> (single_control g \<longrightarrow> distinct (map t_call ts) \<longrightarrow> is_ok r = closed_loops g)"
proof -
  have g: "linked g" by (rule well_typed_linked [OF vg w])
  have ids: "set (map n_id (g_nodes g)) = node_ids g" by (simp add: node_ids_def)
  have "acyclic (arcs g)" "distinct (map n_id (g_nodes g))" using g by (simp_all add: linked_def)
  then obtain ls where l: "topological_layers (map n_id (g_nodes g)) (g_edges g) = Inr ls"
    using layers_spec [of "map n_id (g_nodes g)" "g_edges g"] g unfolding ids linked_def by (auto split: sum.splits)
  note ok = topological_layers_ok [OF l]
  have d: "distinct (concat ls)" using layered_distinct [OF ok(3)] by blast
  have set: "set (concat ls) = node_ids g" using ok(5) ids by simp
  from critical_walk [OF l] obtain L c where c: "critical_path_lengths (concat ls) (g_edges g) = Inr L"
      "select_critical_path (concat ls) (g_edges g) (Some L) = Inr c" "\<forall>n\<in>node_ids g. \<exists>k. map_of L n = Some k \<and> 0 < k"
      "c = [] \<or> walk (g_edges g) c" "set c \<subseteq> node_ids g" "\<forall>q. walk (g_edges g) q \<longrightarrow> set q \<subseteq> node_ids g \<longrightarrow> length q \<le> length c"
    unfolding ids by blast
  define ly where "ly = \<lparr>ly_groups = layer_indexes ls, ly_lengths = L, ly_critical = c\<rparr>"
  have lys: "\<forall>i\<in>set (concat ls). \<exists>k len. map_of (ly_groups ly) i = Some k \<and> 0 \<le> k \<and> map_of (ly_lengths ly) i = Some len \<and> 0 < len"
  proof
    fix i assume i: "i \<in> set (concat ls)"
    then obtain k where "map_of L i = Some k" "0 < k" using c(3) set by blast
    moreover obtain j where "map_of (layer_indexes ls) i = Some (int j)" using layer_indexes_total [OF d i] by blast
    ultimately show "\<exists>k len. map_of (ly_groups ly) i = Some k \<and> 0 \<le> k \<and> map_of (ly_lengths ly) i = Some len \<and> 0 < len"
      by (simp add: ly_def)
  qed
  obtain st where st: "build_steps H cx g ly (concat ls) = Inr st" "built cx g ly (concat ls) st"
    using build_steps_ok [OF H cx g vg w, of "concat ls" ly] set layered_before [OF ok(3)] lys by fastforce
  let ?base = "step_table (bs_steps st)"
  have base: "base_table cx g ly ?base"
    by (rule built_table [OF st(2) d set]) (use lys in blast)
  have keys: "\<forall>i\<in>node_ids g. map_of (bs_keys st) i \<noteq> None" using st(2) unfolding set [symmetric] by (simp add: built_def)
  note parts = good_context_parts [OF cx]
  have "\<forall>i\<in>node_ids g. map_of ?base i \<noteq> None" using base by (auto simp: base_table_def)
  from fusion_units_ok [OF g this H parts, of "concat ls" "{}"] set obtain us
    where us: "fusion_units H g ?base (fusion_profile_index H (cx_catalogue cx)) {} (concat ls) = Some (Inr us)"
      "partition_ok (cx_catalogue cx) g ?base us" by (auto simp: partition_ok_def)
  from collapse_units_ok [OF H g base us(2)] obtain ss layers where ss: "collapse_units H g ?base us = Inr (ss, layers)"
      "collapsed_ok g ?base us ss layers" by blast
  have col: "collapse_fused_steps H g (concat ls) (bs_steps st) (cx_catalogue cx) = Some (Inr (ss, layers))"
    using us(1) ss(1) by (simp add: collapse_fused_steps_def obind_def)
  have s: "settled g (contracted g us) ss layers"
    by (rule settle [OF cx g _ base us(2) ss(2)]) (use well_typed_bounds [OF w] in blast)
  have "plan_graph H cx g ts ds = Some (assemble_plan H g ts ds (concat ls) c (bs_keys st) (ss, layers))"
    using l c(1,2) st(1) col by (simp add: plan_graph_def obind_def ly_def)
  with assemble_plan_ok [OF H s vg w keys ds ts ok(3) set c(4,5,6)] show ?thesis by (auto split: sum.splits)
qed

end
