(* ===== verification/Structure.thy ===== *)
theory Structure
  imports Compiled
begin

text \<open>
  Structural validation, which the compiler does first: it returns on constructed graphs, and what it
  finds no error in is wired, so that expansion can start. The two registries of subgraphs are one.
\<close>

declare map_of_eq_Some_iff [simp del]

section \<open>Structural validation\<close>

lemma structure_returns:
  assumes "valid_graph g"
  shows "is_ok (structure_of R c (label, g))"
proof -
  have dup: "is_ok (duplicate_ids l (g_nodes g))" for l by (auto simp: duplicate_ids_def)
  have "is_ok (call_diagnostics label R c n)" if "n \<in> set (g_nodes g)" for n
  proof -
    have "port_name p" if "p \<in> set (dkeys (n_inputs n))" for p
      using assms \<open>n \<in> set (g_nodes g)\<close> that by (auto simp: valid_graph_def valid_node_def list_all_iff)
    then show ?thesis by (auto simp: call_diagnostics_def)
  qed
  moreover have "is_ok (structure_edge label ids ins outs ie)" if "snd ie \<in> set (g_edges g)" for ids ins outs ie
  proof -
    have "valid_edge (snd ie)" using assms that by (simp add: valid_graph_def list_all_iff)
    then show ?thesis by (cases ie) (auto simp: structure_edge_def valid_edge_def)
  qed
  moreover have "is_ok (structure_bindings label kind ids t bs)" if "valid_bindings bs" for kind ids t bs
    using that by (auto simp: structure_bindings_def valid_bindings_def list_all_iff)
  moreover have "valid_bindings (g_inputs g)" "valid_bindings (g_outputs g)" using assms by (simp_all add: valid_graph_def)
  ultimately show ?thesis
    using dup by (auto simp: structure_of_def Let_def set_sorted_nodes in_set_enumerate_eq)
qed

lemma structure_clean:
  assumes "clean (structure_of R c (label, g))"
  shows "distinct (map n_id (g_nodes g))" and "\<forall>e\<in>set (g_edges g). e_source e \<in> node_ids g \<and> e_target e \<in> node_ids g"
    and "\<forall>b\<in>snd ` set (g_inputs g) \<union> snd ` set (g_outputs g). b_node b \<in> node_ids g"
proof -
  let ?ids = "n_id ` set (g_nodes g)"
  have ids: "?ids = node_ids g" by (simp add: node_ids_def)
  note all = assms [unfolded structure_of_def Let_def prod.case clean_simps]
  show "distinct (map n_id (g_nodes g))" using all duplicates_clean by blast
  show "\<forall>e\<in>set (g_edges g). e_source e \<in> node_ids g \<and> e_target e \<in> node_ids g"
  proof
    fix e assume "e \<in> set (g_edges g)"
    then obtain i where "i < length (g_edges g)" "g_edges g ! i = e" by (auto simp: in_set_conv_nth)
    then have "(i, e) \<in> set (enumerate 0 (g_edges g))" by (simp add: enumerate_mem)
    with all have "clean (structure_edge label ?ids (node_table (input_ports_of R c) g) (node_table (output_ports_of R c) g) (i, e))" by blast
    then show "e_source e \<in> node_ids g \<and> e_target e \<in> node_ids g"
      unfolding ids structure_edge_def by (auto split: if_splits)
  qed
  have "b_node b \<in> node_ids g" if "clean (structure_bindings label kind ?ids t bs)" "(k, b) \<in> set bs" for kind t bs k b
    using that unfolding ids structure_bindings_def by (fastforce split: if_splits)
  with all show "\<forall>b\<in>snd ` set (g_inputs g) \<union> snd ` set (g_outputs g). b_node b \<in> node_ids g" by fastforce
qed

lemma rmap_ok_all: "(\<And>x. x \<in> set xs \<Longrightarrow> is_ok (f x)) \<Longrightarrow> is_ok (collect f xs)"
  by auto

lemma clean_no_error: "clean (Inr ds) \<longleftrightarrow> \<not> has_error ds"
  by (auto simp: clean_def has_error_def list_all_iff list_ex_iff)

lemma validate_structure_ok:
  assumes "valid_graph g" and "\<forall>child\<in>snd ` set (subgraph_registry (cx_subgraphs vx)). valid_graph child"
  shows "\<exists>ds. validate_graph_structure g vx = Inr ds \<and> (\<not> has_error ds \<longrightarrow>
    (\<forall>h\<in>insert g (snd ` set (subgraph_registry (cx_subgraphs vx))). \<not> self_call (subgraph_registry (cx_subgraphs vx)) h
       \<longrightarrow> wired (subgraph_registry (cx_subgraphs vx)) h))"
proof -
  define R where "R = subgraph_registry (cx_subgraphs vx)"
  define gs where "gs = (''root'', g) # map (\<lambda>(k, child). (fst k @ CHR ''@'' # snd k, child)) (sort_key fst R)"
  let ?f = "structure_of R (cx_catalogue vx)"
  have valid: "valid_graph (snd lg)" if "lg \<in> set gs" for lg
    using that assms by (auto simp: gs_def R_def)
  have "is_ok (collect ?f gs)" using structure_returns valid by (auto simp del: isl_simps intro!: rmap_ok_all)
  then obtain ds where ds: "collect ?f gs = Inr ds" by (cases "collect ?f gs") auto
  have v: "validate_graph_structure g vx = Inr (sort_key diag_key (remdups ds))"
    using ds by (simp add: validate_graph_structure_def Let_def R_def gs_def)
  have "wired R h" if e: "\<not> has_error (sort_key diag_key (remdups ds))" and h: "h \<in> insert g (snd ` set R)" "\<not> self_call R h" for h
  proof -
    have "clean (collect ?f gs)" using e by (auto simp: ds clean_no_error has_error_def list_ex_iff)
    then have cl: "\<forall>lg\<in>set gs. clean (?f lg)" by simp
    obtain label where lab: "(label, h) \<in> set gs"
    proof (cases "h = g")
      case False
      with h(1) obtain k where "(k, h) \<in> set R" by auto
      then have "(fst k @ CHR ''@'' # snd k, h) \<in> set gs" by (auto simp: gs_def)
      with that show thesis .
    qed (use that [of "''root''"] in \<open>simp add: gs_def\<close>)
    with cl have "clean (?f (label, h))" by blast
    from structure_clean [OF this] h(2) valid [OF lab] show ?thesis by (auto simp: wired_def)
  qed
  with v show ?thesis unfolding R_def by blast
qed

section \<open>The registry of subgraphs\<close>

definition registry_key :: "string + sub_key \<Rightarrow> sub_key" where
  "registry_key raw = (case raw of Inl s \<Rightarrow> (s, ''1.0.0'') | Inr k \<Rightarrow> k)"

lemma registry_snoc:
  "subgraph_registry (subs @ [(raw, h)]) = AList.update (registry_key raw) h (subgraph_registry subs)"
  "sub_registry (subs @ [(raw, h)]) = rbind (sub_registry subs) (\<lambda>R. if registry_key raw \<in> set (dkeys R)
     then Inl (ExpandValue (GValue ''duplicate subgraph registration'')) else Inr (AList.update (registry_key raw) h R))"
  unfolding registry_key_def by (simp_all add: subgraph_registry_def sub_registry_def Let_def)

lemma sub_registry_eq: "sub_registry subs = Inr (subgraph_registry subs) \<or> sub_registry subs = Inl (ExpandValue (GValue ''duplicate subgraph registration''))"
proof (induction subs rule: rev_induct)
  case (snoc x subs)
  obtain raw h where x: "x = (raw, h)" by force
  from snoc show ?case unfolding x registry_snoc by (elim disjE) simp_all
qed (simp add: sub_registry_def subgraph_registry_def)

lemma update_values: "snd ` set (AList.update k v d) \<subseteq> insert v (snd ` set d)"
  by (induction d) auto

lemma registry_graphs: "snd ` set (subgraph_registry subs) \<subseteq> snd ` set subs"
proof (induction subs rule: rev_induct)
  case (snoc x subs)
  have "snd ` set (subgraph_registry (subs @ [x])) \<subseteq> insert (snd x) (snd ` set (subgraph_registry subs))"
  proof -
    obtain raw h where x: "x = (raw, h)" by force
    show ?thesis unfolding x registry_snoc using update_values by simp
  qed
  also have "\<dots> \<subseteq> insert (snd x) (snd ` set subs)" using snoc by (rule insert_mono)
  finally show ?case by simp
qed (simp add: subgraph_registry_def)

end
