(* ===== verification/Compilation.thy ===== *)
theory Compilation
  imports Structure
begin

text \<open>
  The compiler as a whole: on wired graphs it returns a plan for their expansion or a refusal, and
  without subgraphs the graphs that have a plan are the well-typed ones whose loops are closed.
\<close>

declare map_of_eq_Some_iff [simp del]

section \<open>Compilation\<close>

text \<open>
  The errors that are no refusals: a key registered twice, a call whose clones have the same
  identifiers or the identifier of the call, and two calls with the same identifier.
\<close>

definition identifier_clash :: "compile_error \<Rightarrow> bool" where
  "identifier_clash e = (case e of CompileExpansion (ExpandValue (GValue msg)) \<Rightarrow> msg \<in> {''duplicate subgraph registration'',
        ''member_node_ids must be unique'', ''a subgraph trace cannot be its own parent''}
     | CompileValue (GValue msg) \<Rightarrow> msg = ''subgraph trace call ids must be unique'' | _ \<Rightarrow> False)"

lemma expansion_diagnostic_ok:
  "expansion_error e \<Longrightarrow> refused (expansion_diagnostic e) \<or> identifier_clash (expansion_diagnostic e)"
  by (auto simp: expansion_error_def expansion_diagnostic_def refused_def has_error_def identifier_clash_def
      split: expand_error.splits graph_error.splits)

lemma refuse_cases: "refuse ds = (if has_error ds then Inl (GraphCompilationError ds) else Inr ())"
  by (simp add: refuse_def)

text \<open>What expansion keeps of a graph.\<close>

definition expanded_to :: "sub_registry \<Rightarrow> graph \<Rightarrow> graph \<Rightarrow> bool" where
  "expanded_to R g g' = (calls_of R g' = [] \<and> g_id g' = g_id g \<and> g_version g' = g_version g
     \<and> (\<forall>n\<in>set (g_nodes g). node_key n \<notin> set (dkeys R) \<longrightarrow> n \<in> set (g_nodes g')))"

lemma expansion_outcome:
  assumes "0 < md" and w: "\<forall>h\<in>insert g (snd ` set (subgraph_registry subs)). wired (subgraph_registry subs) h"
  shows "\<exists>r. expand_subgraphs_with_trace u5 g subs md = Some r \<and> (case r of
      Inl e \<Rightarrow> refused (expansion_diagnostic e) \<or> identifier_clash (expansion_diagnostic e)
    | Inr (g', ts) \<Rightarrow> expanded_to (subgraph_registry subs) g g' \<and> valid_graph g' \<and> traces_ok (node_ids g') ts)"
proof (cases "sub_registry subs = Inr (subgraph_registry subs)")
  case True
  let ?R = "subgraph_registry subs"
  obtain r where r: "expand u5 ?R (nat md) [] g [] = Some r" "expanded ?R g r"
    using expand_total [of ?R g "[]" u5 "nat md" "[]"] w by (auto simp: traces_ok_def)
  have "expand_subgraphs_with_trace u5 g subs md = Some r" using True assms(1) r(1) by (simp add: expand_subgraphs_with_trace_def)
  moreover have "traces_ok (node_ids g') ts" if "traces_ok (n_id ` plain_nodes ?R g') ts" for g' ts
    using that by (rule traces_ok_mono) (auto simp: plain_nodes_def node_ids_def)
  ultimately show ?thesis using r(2) expansion_diagnostic_ok
    by (cases r) (auto simp: grown_def plain_nodes_def expanded_to_def wired_def)
next
  case False
  then have "sub_registry subs = Inl (ExpandValue (GValue ''duplicate subgraph registration''))" using sub_registry_eq by blast
  with assms(1) show ?thesis by (simp add: expand_subgraphs_with_trace_def expansion_diagnostic_def identifier_clash_def)
qed

lemma compile_expanded:
  assumes H: "hex_hash H" and cx: "good_context cx" and g: "valid_graph g" and ts: "traces_ok (node_ids g) ts"
  shows "\<exists>r. obind (Some (finding (validate_graph lit g (validation_context.truncate cx)))) (\<lambda>ds.
      obind (Some (refuse ds)) (\<lambda>_. plan_graph H cx g ts ds)) = Some r \<and> (case r of Inl e \<Rightarrow> refused e \<or> identifier_clash e
    | Inr p \<Rightarrow> plan_for g p \<and> well_typed lit (validation_context.truncate cx) g)"
proof -
  let ?vx = "validation_context.truncate cx"
  have pc: "presentable_catalogue (cx_catalogue ?vx)" using cx by (simp add: good_context_def validation_context.defs)
  obtain ds where ds: "validate_graph lit g ?vx = Inr ds" using validate_graph_returns [OF pc g] by blast
  show ?thesis
  proof (cases "has_error ds")
    case True
    then show ?thesis by (simp add: obind_def ds refuse_cases refused_def)
  next
    case False
    have w: "well_typed lit ?vx g" using validate_graph_exact [OF pc, of lit g] False by (simp add: ds clean_no_error)
    from plan_graph_ok [OF H cx g w False ts] obtain r where "plan_graph H cx g ts ds = Some r"
      "case r of Inl e \<Rightarrow> refused e \<or> repeated_trace ts e | Inr p \<Rightarrow> plan_for g p \<and> pl_traces p = ts" by blast
    with False w show ?thesis
      by (cases r) (auto simp: obind_def ds refuse_cases repeated_trace_def identifier_clash_def)
  qed
qed

text \<open>
  C1. Compilation. Let the digests of the hash be well formed, the catalogue sound and
  presentable with no fusable collect, and the graph and the registered subgraphs constructed, none
  with an edge from a subgraph call to itself. Then the compiler returns, whatever the identifiers
  of the clones are. What it returns is a plan for a graph that has no calls left, has the identity
  of the given graph and all of its nodes that are no calls, and is well typed: the nodes are in
  topological order with a longest walk for the critical path, the steps are walks that partition
  them, every data edge is inside a step or declared as a dependency, every dependency of a step
  is in an earlier group, a step is constant exactly when no input reaches it, and each control
  region has the members it should and the depth of its nesting. Otherwise the graph is refused
  with a diagnostic that is an error, or the identifiers of some clones or registrations clash.
\<close>

theorem compiled_plans:
  assumes H: "hex_hash H" and cx: "good_context cx" and g: "valid_graph g"
    and subs: "\<forall>h\<in>snd ` set (cx_subgraphs cx). valid_graph h"
    and loops: "\<forall>h\<in>insert g (snd ` set (cx_subgraphs cx)). \<not> self_call (subgraph_registry (cx_subgraphs cx)) h"
  shows "\<exists>r. compile_graph H u5 lit g cx = Some r \<and> (case r of
      Inr p \<Rightarrow> plan_for (pl_graph p) p \<and> well_typed lit (validation_context.truncate cx) (pl_graph p)
        \<and> expanded_to (subgraph_registry (cx_subgraphs cx)) g (pl_graph p)
    | Inl e \<Rightarrow> refused e \<or> identifier_clash e)"
proof -
  let ?vx = "validation_context.truncate cx" and ?R = "subgraph_registry (cx_subgraphs cx)"
  have vx: "cx_subgraphs ?vx = cx_subgraphs cx" by (simp add: validation_context.defs)
  have R: "snd ` set ?R \<subseteq> snd ` set (cx_subgraphs cx)" by (rule registry_graphs)
  with subs have "\<forall>h\<in>snd ` set (subgraph_registry (cx_subgraphs ?vx)). valid_graph h" unfolding vx by blast
  from validate_structure_ok [OF g this] obtain sds where s: "validate_graph_structure g ?vx = Inr sds"
    "\<not> has_error sds \<Longrightarrow> \<forall>h\<in>insert g (snd ` set ?R). \<not> self_call ?R h \<longrightarrow> wired ?R h" unfolding vx by blast
  show ?thesis
  proof (cases "has_error sds")
    case True
    then show ?thesis by (simp add: compile_graph_def Let_def s(1) obind_def refuse_cases refused_def)
  next
    case False
    with s(2) loops R have w: "\<forall>h\<in>insert g (snd ` set ?R). wired ?R h" by blast
    have "0 < cc_max_subgraph_depth cx" using cx by (simp add: good_context_def)
    from expansion_outcome [OF this w] obtain x where
      x: "expand_subgraphs_with_trace u5 g (cx_subgraphs cx) (cc_max_subgraph_depth cx) = Some x"
        "case x of Inl e \<Rightarrow> refused (expansion_diagnostic e) \<or> identifier_clash (expansion_diagnostic e)
          | Inr (g', ts) \<Rightarrow> expanded_to ?R g g' \<and> valid_graph g' \<and> traces_ok (node_ids g') ts" by blast
    show ?thesis
    proof (cases x)
      case (Inl e)
      with x False show ?thesis by (simp add: compile_graph_def Let_def s(1) obind_def refuse_cases)
    next
      case (Inr gts)
      obtain g' ts where gts: "gts = (g', ts)" by force
      with x(2) Inr have g': "expanded_to ?R g g'" "valid_graph g'" "traces_ok (node_ids g') ts" by auto
      have "compile_graph H u5 lit g cx = obind (Some (finding (validate_graph lit g' ?vx))) (\<lambda>ds.
          obind (Some (refuse ds)) (\<lambda>_. plan_graph H cx g' ts ds))"
        using False x(1) by (simp add: compile_graph_def Let_def s(1) obind_def refuse_cases Inr gts)
      moreover obtain r where r: "obind (Some (finding (validate_graph lit g' ?vx))) (\<lambda>ds.
          obind (Some (refuse ds)) (\<lambda>_. plan_graph H cx g' ts ds)) = Some r"
        "case r of Inl e \<Rightarrow> refused e \<or> identifier_clash e | Inr p \<Rightarrow> plan_for g' p \<and> well_typed lit ?vx g'"
        using compile_expanded [OF H cx g'(2,3), of lit] by blast
      moreover have "pl_graph p = g'" if "plan_for g' p" for p using that by (simp add: plan_for_def)
      ultimately show ?thesis using g'(1) by (cases r) auto
    qed
  qed
qed

section \<open>Graphs without subgraphs\<close>

lemma offers_table:
  assumes "distinct (map n_id (g_nodes g))" and "n \<in> set (g_nodes g)" and "f n = Some ps" and "ustr p \<in> set ps"
  shows "offers (node_table f g) (n_id n) p"
  using node_table_lookup [OF assms(1), of f "n_id n" ps] assms(2-4) by (auto simp: offers_def)

lemma well_typed_structure:
  assumes w: "well_typed lit vx g"
  shows "clean (structure_of [] (cx_catalogue vx) (''root'', g))"
proof -
  let ?c = "cx_catalogue vx"
  have d: "distinct (map n_id (g_nodes g))" using w by (simp add: well_typed_def)
  have ports: "i \<in> n_id ` set (g_nodes g) \<and> (has_port (nd_input_schema dn) p \<longrightarrow> offers (node_table (input_ports_of [] ?c) g) i p)
      \<and> (has_port (nd_output_schema dn) p \<longrightarrow> offers (node_table (output_ports_of [] ?c) g) i p)"
    if t: "typed_at ?c g i dn" for i dn p
  proof -
    from t obtain n where n: "n \<in> set (g_nodes g)" "n_id n = i" "definition_of ?c n = Some dn" by (auto simp: typed_at_def)
    then have "input_ports_of [] ?c n = Some (dkeys (properties_of (nd_input_schema dn)))"
      "output_ports_of [] ?c n = Some (dkeys (properties_of (nd_output_schema dn)))"
      by (simp_all add: input_ports_of_def output_ports_of_def)
    with offers_table [OF d n(1)] n(1,2) show ?thesis unfolding has_port_def by blast
  qed
  have call: "clean (call_diagnostics ''root'' [] ?c n)" if "n \<in> set (g_nodes g)" for n
    using w that by (auto simp: well_typed_def node_typed_def call_diagnostics_def)
  have edge: "clean (structure_edge ''root'' (n_id ` set (g_nodes g)) (node_table (input_ports_of [] ?c) g) (node_table (output_ports_of [] ?c) g) ie)"
    if "snd ie \<in> set (g_edges g)" for ie
  proof -
    obtain i e where ie: "ie = (i, e)" by force
    with w that have "edge_typed vx g e" by (simp add: well_typed_def)
    then obtain dm dn where t: "typed_at ?c g (e_source e) dm" "typed_at ?c g (e_target e) dn"
      "has_port (nd_output_schema dm) (e_source_port e)" "has_port (nd_input_schema dn) (e_target_port e)"
      unfolding edge_typed_def has_port_def by (force dest: map_of_SomeD)
    from ports [OF t(1)] ports [OF t(2)] t(3,4) show ?thesis by (simp add: ie structure_edge_def)
  qed
  have bind: "clean (structure_bindings ''root'' kind (n_id ` set (g_nodes g)) t bs)"
    if "\<forall>(_, b)\<in>set bs. b_node b \<in> n_id ` set (g_nodes g) \<and> offers t (b_node b) (b_port b)" for kind t bs
    using that by (auto simp: structure_bindings_def)
  have "clean (structure_bindings ''root'' ''input'' (n_id ` set (g_nodes g)) (node_table (input_ports_of [] ?c) g) (g_inputs g))"
    by (rule bind) (use w ports in \<open>fastforce simp: well_typed_def binding_typed_def\<close>)
  moreover have "clean (structure_bindings ''root'' ''output'' (n_id ` set (g_nodes g)) (node_table (output_ports_of [] ?c) g) (g_outputs g))"
    by (rule bind) (use w ports in \<open>fastforce simp: well_typed_def binding_typed_def\<close>)
  ultimately show ?thesis
    using d call edge by (auto simp: structure_of_def Let_def duplicates_clean in_set_enumerate_eq)
qed

lemma no_calls: "calls_of [] g = []"
  by (simp add: calls_of_def)

lemma expand_no_calls: "0 < md \<Longrightarrow> expand_subgraphs_with_trace u5 g [] md = Some (Inr (g, []))"
  using no_calls by (subst expand_subgraphs_with_trace_def) (simp add: sub_registry_def expand.simps)

lemma compile_without_subgraphs:
  assumes "hex_hash H" and cx: "good_context cx" and g: "valid_graph g" and subs: "cx_subgraphs cx = []"
  shows "\<exists>r. compile_graph H u5 lit g cx = Some r \<and> (case r of Inl e \<Rightarrow> refused e | Inr p \<Rightarrow> plan_for g p)
    \<and> (is_ok r \<longrightarrow> well_typed lit (validation_context.truncate cx) g)
    \<and> (single_control g \<longrightarrow> well_typed lit (validation_context.truncate cx) g \<longrightarrow> is_ok r = closed_loops g)"
proof -
  define vx where "vx = validation_context.truncate cx"
  have vxs: "cx_subgraphs vx = []" "cx_catalogue vx = cx_catalogue cx" using subs by (simp_all add: vx_def validation_context.defs)
  have pc: "presentable_catalogue (cx_catalogue vx)" using cx by (simp add: vxs good_context_def)
  have md: "0 < cc_max_subgraph_depth cx" using cx by (simp add: good_context_def)
  obtain sds where s: "validate_graph_structure g vx = Inr sds"
    using validate_structure_ok [OF g, of vx] by (auto simp: vxs subgraph_registry_def)
  obtain ds where ds: "validate_graph lit g vx = Inr ds" using validate_graph_returns [OF pc g] by blast
  have typed: "\<not> has_error ds \<longleftrightarrow> well_typed lit vx g"
    using validate_graph_exact [OF pc, of lit g] by (simp add: ds clean_no_error)
  have sound: "\<not> has_error sds" if wt: "well_typed lit vx g"
  proof -
    have "clean (validate_graph_structure g vx)"
    proof -
      obtain xs where "structure_of [] (cx_catalogue vx) (''root'', g) = Inr xs" "list_all (\<lambda>d. dg_severity d \<noteq> ''error'') xs"
        using well_typed_structure [OF wt] by (auto simp: clean_def split: sum.splits)
      then show ?thesis
        by (simp add: validate_graph_structure_def vxs subgraph_registry_def collect_def clean_def list_all_iff)
    qed
    then show ?thesis by (simp add: s clean_no_error)
  qed
  have start: "compile_graph H u5 lit g cx = (if has_error sds then Some (Inl (GraphCompilationError sds))
      else if has_error ds then Some (Inl (GraphCompilationError ds)) else plan_graph H cx g [] ds)"
    by (simp add: compile_graph_def Let_def vx_def [symmetric] s obind_def refuse_cases subs expand_no_calls [OF md] ds)
  show ?thesis
  proof (cases "has_error sds \<or> has_error ds")
    case True
    then have "\<not> well_typed lit vx g" using typed sound by blast
    moreover from True obtain es where "compile_graph H u5 lit g cx = Some (Inl (GraphCompilationError es))" "has_error es"
      using start by (auto split: if_splits)
    ultimately show ?thesis by (simp add: refused_def vx_def)
  next
    case False
    then have w: "well_typed lit vx g" using typed by blast
    have "traces_ok (node_ids g) []" by (simp add: traces_ok_def)
    from plan_graph_ok [OF assms(1) cx g w [unfolded vx_def] _ this] False start obtain r where
      "compile_graph H u5 lit g cx = Some r" "case r of Inl e \<Rightarrow> refused e \<or> repeated_trace [] e | Inr p \<Rightarrow> plan_for g p \<and> pl_traces p = []"
      "single_control g \<longrightarrow> is_ok r = closed_loops g" by auto
    with w show ?thesis by (auto simp: repeated_trace_def vx_def split: sum.splits)
  qed
qed

text \<open>
  C2. Completeness of the compiler. Without subgraphs, a graph of which at most one node is a
  for-each or a switch has a plan if and only if it is well typed and its for-each, if it has a
  body, reaches a collect; the plan is then one for the graph itself, and every other graph is
  refused with a diagnostic that is an error.
\<close>

theorem compiles_exactly:
  assumes "hex_hash H" and "good_context cx" and "valid_graph g" and "cx_subgraphs cx = []" and "single_control g"
  shows "if well_typed lit (validation_context.truncate cx) g \<and> closed_loops g
    then \<exists>p. compile_graph H u5 lit g cx = Some (Inr p) \<and> plan_for g p
    else \<exists>ds. compile_graph H u5 lit g cx = Some (Inl (GraphCompilationError ds)) \<and> has_error ds"
proof -
  obtain r where r: "compile_graph H u5 lit g cx = Some r" "case r of Inl e \<Rightarrow> refused e | Inr p \<Rightarrow> plan_for g p"
      "is_ok r \<longrightarrow> well_typed lit (validation_context.truncate cx) g"
      "single_control g \<longrightarrow> well_typed lit (validation_context.truncate cx) g \<longrightarrow> is_ok r = closed_loops g"
    using compile_without_subgraphs [OF assms(1-4)] by blast
  show ?thesis
  proof (cases r)
    case (Inl e)
    with r assms(5) show ?thesis by (cases e) (auto simp: refused_def)
  next
    case (Inr p)
    with r assms(5) show ?thesis by auto
  qed
qed

section \<open>A sample\<close>

definition sample_hash :: hash where
  "sample_hash j = replicate 64 (CHR ''a'')"

definition sample_compile_context :: compile_context where
  "sample_compile_context = \<lparr>cx_catalogue = sample_catalogue, cx_registry = cx_registry sample_context,
     cx_subgraphs = cx_subgraphs sample_context, cx_max_loop_iterations = cx_max_loop_iterations sample_context, cc_max_subgraph_depth = 32\<rparr>"

lemma sample_hash_hex: "hex_hash sample_hash"
proof -
  have "sha256_hex (replicate 64 (CHR ''a''))" by code_simp
  then show ?thesis by (simp add: hex_hash_def sample_hash_def)
qed

lemma sample_truncated: "validation_context.truncate sample_compile_context = sample_context"
  by (simp add: validation_context.defs sample_compile_context_def sample_context_def)

lemma sample_good_context: "good_context sample_compile_context"
proof -
  have "sound_catalogue sample_catalogue" using discover_sound(1) [OF sample_discover] .
  moreover have "list_all (\<lambda>d. nd_id d = collect_type \<longrightarrow> ex_fusion_kind (nd_execution d) = None) (cat_nodes sample_catalogue)"
    by (simp add: sample_catalogue_def Let_def sample_manifest_def)
  ultimately show ?thesis using sample_presentable by (simp add: good_context_def sample_compile_context_def)
qed

lemma sample_no_subgraphs: "cx_subgraphs sample_compile_context = []"
  by (simp add: sample_compile_context_def sample_context_def)

lemma sample_control: "single_control sample_pipeline" "closed_loops sample_pipeline"
  by (simp_all add: single_control_def closed_loops_def sample_pipeline_def Let_def for_each_def switch_type_def)

lemma compiles_exactly_witness:
  "\<exists>p. compile_graph sample_hash (\<lambda>_ _. 7) (\<lambda>_ _. []) sample_pipeline sample_compile_context = Some (Inr p) \<and> plan_for sample_pipeline p"
  using compiles_exactly [OF sample_hash_hex sample_good_context sample_valid sample_no_subgraphs sample_control(1), of "\<lambda>_ _. []" "\<lambda>_ _. 7"]
    sample_control(2) sample_well_typed by (simp add: sample_truncated)

definition nested_compile_context :: compile_context where
  "nested_compile_context = sample_compile_context\<lparr>cx_subgraphs := [(Inl ''my.sub'', sample_child)]\<rparr>"

lemma compiled_plans_witness:
  "\<exists>r. compile_graph sample_hash (\<lambda>_ _. 7) (\<lambda>_ _. []) sample_graph nested_compile_context = Some r
    \<and> (case r of Inl e \<Rightarrow> refused e \<or> identifier_clash e
       | Inr p \<Rightarrow> plan_for (pl_graph p) p \<and> g_id (pl_graph p) = 8 \<and> sample_node 3 ''ng.save'' \<in> set (g_nodes (pl_graph p)))"
proof -
  have R: "subgraph_registry (cx_subgraphs nested_compile_context) = [((''my.sub'', ''1.0.0''), sample_child)]"
    "snd ` set (cx_subgraphs nested_compile_context) = {sample_child}"
    by (simp_all add: nested_compile_context_def subgraph_registry_def)
  have cx: "good_context nested_compile_context"
    using sample_good_context by (simp add: good_context_def nested_compile_context_def)
  have ok: "valid_graph sample_graph" "valid_graph sample_child"
    "\<not> self_call [((''my.sub'', ''1.0.0''), sample_child)] sample_graph" "\<not> self_call [((''my.sub'', ''1.0.0''), sample_child)] sample_child"
    by code_simp+
  have n: "sample_node 3 ''ng.save'' \<in> set (g_nodes sample_graph)" "node_key (sample_node 3 ''ng.save'') \<noteq> (''my.sub'', ''1.0.0'')"
      "g_id sample_graph = 8" by code_simp+
  from compiled_plans [OF sample_hash_hex cx ok(1), of "\<lambda>_ _. 7" "\<lambda>_ _. []", unfolded R] ok n show ?thesis
    by (auto simp: expanded_to_def split: sum.splits)
qed

end
