(* ===== verification/Workers.thy ===== *)
theory Workers
  imports JsonValues "HOL-Library.Word"
begin

text \<open>
  workers/protocol.py, workers/heartbeat.py and the choice of a start method of workers/process.py:
  what the supervisor and its worker processes say to each other, as frames of bytes. MessagePack is
  the pair of parameters \<open>pack\<close> and \<open>unpack\<close>; the values it carries are JSON trees. The sandbox
  policy of a worker is a value the specification only carries.
\<close>

datatype worker_error = WorkerValue string | FrameError string

definition ensure :: "bool \<Rightarrow> string \<Rightarrow> worker_error + unit" where
  "ensure b msg = guard_or b (WorkerValue msg)"

section \<open>Kinds\<close>

datatype worker_kind = GPU_MODEL | GPU_AUX | CPU_COMPUTE | CPU_LIGHT | IO_KIND | DOWNLOAD | METADATA | PLUGIN_KIND
  | ENCODER | VAE | VIDEO

datatype command_kind = CMD_EXECUTE | CMD_CANCEL | CMD_PING | CMD_UNLOAD | CMD_SHUTDOWN

datatype event_kind = EVT_STARTED | EVT_READY | EVT_HEARTBEAT | EVT_RESULT | EVT_ERROR | EVT_CANCELLED | EVT_UNLOADED
  | EVT_STOPPING | EVT_STOPPED

fun command_value :: "command_kind \<Rightarrow> string" where
  "command_value CMD_EXECUTE = ''execute''"
| "command_value CMD_CANCEL = ''cancel''"
| "command_value CMD_PING = ''ping''"
| "command_value CMD_UNLOAD = ''unload''"
| "command_value CMD_SHUTDOWN = ''shutdown''"

fun event_value :: "event_kind \<Rightarrow> string" where
  "event_value EVT_STARTED = ''started''"
| "event_value EVT_READY = ''ready''"
| "event_value EVT_HEARTBEAT = ''heartbeat''"
| "event_value EVT_RESULT = ''result''"
| "event_value EVT_ERROR = ''error''"
| "event_value EVT_CANCELLED = ''cancelled''"
| "event_value EVT_UNLOADED = ''unloaded''"
| "event_value EVT_STOPPING = ''stopping''"
| "event_value EVT_STOPPED = ''stopped''"

definition command_of :: "ustr \<Rightarrow> command_kind option" where
  "command_of s = List.find (\<lambda>k. ustr (command_value k) = s) [CMD_EXECUTE, CMD_CANCEL, CMD_PING, CMD_UNLOAD, CMD_SHUTDOWN]"

definition event_of :: "ustr \<Rightarrow> event_kind option" where
  "event_of s = List.find (\<lambda>k. ustr (event_value k) = s) [EVT_STARTED, EVT_READY, EVT_HEARTBEAT, EVT_RESULT, EVT_ERROR,
     EVT_CANCELLED, EVT_UNLOADED, EVT_STOPPING, EVT_STOPPED]"

section \<open>Specifications, commands and events\<close>

definition u_isspace :: "nat \<Rightarrow> bool" where
  "u_isspace c = (c \<in> {9, 10, 11, 12, 13, 28, 29, 30, 31, 32, 133, 160, 5760, 8192, 8193, 8194, 8195, 8196, 8197, 8198,
     8199, 8200, 8201, 8202, 8232, 8233, 8239, 8287, 12288})"

definition u_strip :: "ustr \<Rightarrow> ustr" where
  "u_strip s = rev (dropWhile u_isspace (rev (dropWhile u_isspace s)))"

definition validate_identifier :: "ustr \<Rightarrow> string \<Rightarrow> worker_error + unit" where
  "validate_identifier s f = checks
     [ensure (s \<noteq> [] \<and> length s \<le> 160 \<and> s = u_strip s) (f @ '' must be a non-empty trimmed identifier''),
      ensure (utf8_encodable s) (f @ '' must contain valid Unicode'')]"

record 'p worker_spec =
  ws_worker_id :: ustr
  ws_kind :: worker_kind
  ws_entrypoint :: "ustr option"
  ws_start_method :: ustr
  ws_heartbeat_interval :: pyfloat
  ws_heartbeat_timeout :: pyfloat
  ws_startup_timeout :: pyfloat
  ws_shutdown_timeout :: pyfloat
  ws_cancellation_grace :: pyfloat
  ws_restart_limit :: int
  ws_restart_window :: pyfloat
  ws_sandbox :: "'p option"
  ws_sandbox_allow_subprocess :: "bool option"
  ws_thread_environment :: "(ustr, ustr) dict"

definition positive :: "pyfloat \<Rightarrow> bool" where
  "positive v = (isfinite v \<and> \<not> pf_le v (Finite 0))"

definition spec_post_init :: "'p worker_spec \<Rightarrow> worker_error + 'p worker_spec" where
  "spec_post_init w = rbind (checks
     [validate_identifier (ws_worker_id w) ''worker_id'',
      (case ws_entrypoint w of None \<Rightarrow> Inr () | Some e \<Rightarrow> checks [validate_identifier e ''entrypoint'',
         ensure (of_char (CHR '':'') \<in> set e) ''entrypoint must use the 'module:attribute' form'']),
      ensure (ws_start_method w \<in> ustr ` {''auto'', ''spawn'', ''forkserver''}) ''start_method must be auto, spawn or forkserver'',
      ensure (positive (ws_heartbeat_interval w)) ''heartbeat_interval must be a finite positive number'',
      ensure (isfinite (ws_heartbeat_timeout w) \<and> \<not> pf_le (ws_heartbeat_timeout w) (ws_heartbeat_interval w))
        ''heartbeat_timeout must exceed heartbeat_interval'',
      ensure (positive (ws_startup_timeout w)) ''startup_timeout must be a finite positive number'',
      ensure (positive (ws_shutdown_timeout w)) ''shutdown_timeout must be a finite positive number'',
      ensure (positive (ws_cancellation_grace w)) ''cancellation_grace must be a finite positive number'',
      ensure (positive (ws_restart_window w)) ''restart_window must be a finite positive number'',
      ensure (0 \<le> ws_restart_limit w) ''restart_limit must be non-negative'',
      ensure (list_all (\<lambda>k. k \<noteq> []) (dkeys (ws_thread_environment w))) ''thread_environment must contain string key/value pairs'']) (\<lambda>_. Inr w)"

record worker_command =
  wc_command_id :: ustr
  wc_kind :: command_kind
  wc_operation :: "ustr option"
  wc_payload :: "(ustr \<times> json) list"
  wc_target :: "ustr option"

definition command_post_init :: "worker_command \<Rightarrow> worker_error + worker_command" where
  "command_post_init c = rbind (checks
     [validate_identifier (wc_command_id c) ''command_id'',
      (if wc_kind c = CMD_EXECUTE then (case wc_operation c of None \<Rightarrow> ensure False ''execute commands require an operation''
         | Some op \<Rightarrow> validate_identifier op ''operation'')
       else ensure (wc_operation c = None) ''only execute commands may define an operation''),
      ensure (wc_kind c = CMD_CANCEL \<longrightarrow> wc_target c \<noteq> None \<and> wc_target c \<noteq> Some []) ''cancel commands require target_command_id'']) (\<lambda>_. Inr c)"

record worker_event =
  we_worker_id :: ustr
  we_kind :: event_kind
  we_timestamp :: rat
  we_command_id :: "ustr option"
  we_payload :: "(ustr \<times> json) list"

definition event_post_init :: "worker_event \<Rightarrow> worker_error + worker_event" where
  "event_post_init e = rbind (checks [validate_identifier (we_worker_id e) ''worker_id'',
     ensure (0 \<le> we_timestamp e) ''timestamp must be a finite non-negative number'']) (\<lambda>_. Inr e)"

section \<open>Conversion\<close>

text \<open>
  \<open>msgspec.to_builtins\<close> and \<open>msgspec.convert\<close> with \<open>strict=True\<close>: an object of the fields, no others
  allowed, defaults for those left out, then \<open>__post_init__\<close>.
\<close>

definition optional_text :: "ustr option \<Rightarrow> json" where
  "optional_text v = (case v of None \<Rightarrow> JNull | Some s \<Rightarrow> JStr s)"

definition member :: "(ustr \<times> json) list \<Rightarrow> string \<Rightarrow> json option" where
  "member ms k = map_of ms (ustr k)"

definition text_member :: "(ustr \<times> json) list \<Rightarrow> string \<Rightarrow> worker_error + ustr" where
  "text_member ms k = (case member ms k of Some (JStr s) \<Rightarrow> Inr s | _ \<Rightarrow> Inl (WorkerValue k))"

definition optional_member :: "(ustr \<times> json) list \<Rightarrow> string \<Rightarrow> worker_error + ustr option" where
  "optional_member ms k = (case member ms k of None \<Rightarrow> Inr None | Some JNull \<Rightarrow> Inr None
     | Some (JStr s) \<Rightarrow> Inr (Some s) | _ \<Rightarrow> Inl (WorkerValue k))"

definition object_member :: "(ustr \<times> json) list \<Rightarrow> string \<Rightarrow> worker_error + (ustr \<times> json) list" where
  "object_member ms k = (case member ms k of None \<Rightarrow> Inr [] | Some (JObj xs) \<Rightarrow> Inr xs | _ \<Rightarrow> Inl (WorkerValue k))"

definition number_member :: "(ustr \<times> json) list \<Rightarrow> string \<Rightarrow> worker_error + rat" where
  "number_member ms k = (case member ms k of Some (JFloat r) \<Rightarrow> Inr r | Some (JInt i) \<Rightarrow> Inr (of_int i) | _ \<Rightarrow> Inl (WorkerValue k))"

definition kind_member :: "(ustr \<Rightarrow> 'k option) \<Rightarrow> (ustr \<times> json) list \<Rightarrow> string \<Rightarrow> worker_error + 'k" where
  "kind_member f ms k = rbind (text_member ms k) (\<lambda>s. case f s of None \<Rightarrow> Inl (WorkerValue k) | Some x \<Rightarrow> Inr x)"

definition only_fields :: "string list \<Rightarrow> (ustr \<times> json) list \<Rightarrow> worker_error + unit" where
  "only_fields fs ms = ensure (set (dkeys ms) \<subseteq> ustr ` set fs) ''unknown field''"

definition command_builtins :: "worker_command \<Rightarrow> json" where
  "command_builtins c = JObj [(ustr ''command_id'', JStr (wc_command_id c)), (ustr ''kind'', JStr (ustr (command_value (wc_kind c)))),
     (ustr ''operation'', optional_text (wc_operation c)), (ustr ''payload'', JObj (wc_payload c)),
     (ustr ''target_command_id'', optional_text (wc_target c))]"

definition convert_command :: "json \<Rightarrow> worker_error + worker_command" where
  "convert_command j = (case j of JObj ms \<Rightarrow>
       rbind (only_fields [''command_id'', ''kind'', ''operation'', ''payload'', ''target_command_id''] ms) (\<lambda>_.
       rbind (text_member ms ''command_id'') (\<lambda>i. rbind (kind_member command_of ms ''kind'') (\<lambda>k.
       rbind (optional_member ms ''operation'') (\<lambda>op. rbind (object_member ms ''payload'') (\<lambda>p.
       rbind (optional_member ms ''target_command_id'') (\<lambda>t. command_post_init
         \<lparr>wc_command_id = i, wc_kind = k, wc_operation = op, wc_payload = p, wc_target = t\<rparr>))))))
   | _ \<Rightarrow> Inl (WorkerValue ''object''))"

definition event_builtins :: "worker_event \<Rightarrow> json" where
  "event_builtins e = JObj [(ustr ''worker_id'', JStr (we_worker_id e)), (ustr ''kind'', JStr (ustr (event_value (we_kind e)))),
     (ustr ''timestamp'', JFloat (we_timestamp e)), (ustr ''command_id'', optional_text (we_command_id e)),
     (ustr ''payload'', JObj (we_payload e))]"

definition convert_event :: "json \<Rightarrow> worker_error + worker_event" where
  "convert_event j = (case j of JObj ms \<Rightarrow>
       rbind (only_fields [''worker_id'', ''kind'', ''timestamp'', ''command_id'', ''payload''] ms) (\<lambda>_.
       rbind (text_member ms ''worker_id'') (\<lambda>i. rbind (kind_member event_of ms ''kind'') (\<lambda>k.
       rbind (number_member ms ''timestamp'') (\<lambda>t. rbind (optional_member ms ''command_id'') (\<lambda>c.
       rbind (object_member ms ''payload'') (\<lambda>p. event_post_init
         \<lparr>we_worker_id = i, we_kind = k, we_timestamp = t, we_command_id = c, we_payload = p\<rparr>))))))
   | _ \<Rightarrow> Inl (WorkerValue ''object''))"

section \<open>Frames\<close>

text \<open>
  A class of messages is its name with what \<open>to_builtins\<close> and \<open>convert\<close> do on it. A length is four
  bytes, the most significant first.
\<close>

type_synonym bytes = "8 word list"

record 'm message_class =
  mc_name :: string
  mc_builtins :: "'m \<Rightarrow> json"
  mc_convert :: "json \<Rightarrow> worker_error + 'm"

definition command_class :: "worker_command message_class" where
  "command_class = \<lparr>mc_name = ''WorkerCommand'', mc_builtins = command_builtins, mc_convert = convert_command\<rparr>"

definition event_class :: "worker_event message_class" where
  "event_class = \<lparr>mc_name = ''WorkerEvent'', mc_builtins = event_builtins, mc_convert = convert_event\<rparr>"

definition MAX_FRAME_BYTES :: nat where
  "MAX_FRAME_BYTES = 1024 * 1024"

definition HEADER_BYTES :: nat where
  "HEADER_BYTES = 4"

definition to_bytes :: "nat \<Rightarrow> bytes" where
  "to_bytes n = map (\<lambda>i. of_nat (n div 256 ^ i)) [3, 2, 1, 0]"

definition from_bytes :: "bytes \<Rightarrow> nat" where
  "from_bytes bs = foldl (\<lambda>a b. a * 256 + unat b) 0 bs"

definition encode_frame :: "(json \<Rightarrow> bytes option) \<Rightarrow> 'm message_class \<Rightarrow> 'm \<Rightarrow> worker_error + bytes" where
  "encode_frame pack C m = (case pack (JObj [(ustr ''message_type'', JStr (ustr (mc_name C))), (ustr ''payload'', mc_builtins C m)]) of
     None \<Rightarrow> Inl (FrameError ''message cannot be encoded'')
   | Some body \<Rightarrow> rbind (guard_or (length body \<le> MAX_FRAME_BYTES) (FrameError ''frame exceeds the limit'')) (\<lambda>_.
       Inr (to_bytes (length body) @ body)))"

definition decode_frame :: "(bytes \<Rightarrow> json option) \<Rightarrow> 'm message_class \<Rightarrow> bytes \<Rightarrow> worker_error + 'm" where
  "decode_frame unpack C value =
     rbind (guard_or (HEADER_BYTES \<le> length value) (FrameError ''frame is missing its length header'')) (\<lambda>_.
     let declared = from_bytes (take HEADER_BYTES value); body = drop HEADER_BYTES value in
     rbind (guard_or (declared = length body) (FrameError ''frame length mismatch'')) (\<lambda>_.
     rbind (guard_or (declared \<le> MAX_FRAME_BYTES) (FrameError ''frame exceeds the limit'')) (\<lambda>_.
     case unpack body of None \<Rightarrow> Inl (FrameError ''frame payload is invalid'')
     | Some (JObj ms) \<Rightarrow>
         rbind (guard_or (set (dkeys ms) = {ustr ''message_type'', ustr ''payload''})
           (FrameError ''frame envelope must contain message_type and payload'')) (\<lambda>_.
         rbind (guard_or (member ms ''message_type'' = Some (JStr (ustr (mc_name C)))) (FrameError ''frame contains another class'')) (\<lambda>_.
         case member ms ''payload'' of Some j \<Rightarrow> (case mc_convert C j of Inl _ \<Rightarrow> Inl (FrameError ''invalid frame'') | Inr m \<Rightarrow> Inr m)
         | None \<Rightarrow> Inl (FrameError ''invalid frame'')))
     | Some _ \<Rightarrow> Inl (FrameError ''frame envelope must contain message_type and payload''))))"

section \<open>Heartbeats\<close>

record watchdog =
  wd_timeout :: pyfloat
  wd_last_seen :: rat

definition new_watchdog :: "pyfloat \<Rightarrow> rat \<Rightarrow> worker_error + watchdog" where
  "new_watchdog timeout now = rbind (ensure (positive timeout) ''heartbeat timeout must be positive and finite'') (\<lambda>_.
     Inr \<lparr>wd_timeout = timeout, wd_last_seen = now\<rparr>)"

definition wd_age :: "watchdog \<Rightarrow> rat \<Rightarrow> rat" where
  "wd_age w now = max 0 (now - wd_last_seen w)"

definition wd_observe :: "watchdog \<Rightarrow> rat \<Rightarrow> watchdog" where
  "wd_observe w now = w\<lparr>wd_last_seen := now\<rparr>"

definition wd_expired :: "watchdog \<Rightarrow> rat \<Rightarrow> bool" where
  "wd_expired w now = (\<not> pf_le (Finite (wd_age w now)) (wd_timeout w))"

section \<open>Start methods\<close>

definition cuda_workers :: "worker_kind set" where
  "cuda_workers = {GPU_MODEL, GPU_AUX, ENCODER, VAE, VIDEO}"

datatype start_error = StartValue string | StartRuntime string

definition select_start_method :: "worker_kind \<Rightarrow> ustr \<Rightarrow> ustr \<Rightarrow> ustr list \<Rightarrow> start_error + ustr" where
  "select_start_method kind requested platform_name available =
     rbind (guard_or (requested \<noteq> ustr ''fork'') (StartValue ''fork is forbidden for ComfyUI-NG workers'')) (\<lambda>_.
     rbind (guard_or (requested \<in> ustr ` {''auto'', ''spawn'', ''forkserver''}) (StartValue ''unsupported multiprocessing start method'')) (\<lambda>_.
     let selected = (if platform_name = ustr ''darwin'' \<or> kind \<in> cuda_workers then ustr ''spawn''
           else if requested = ustr ''auto'' then (if ustr ''forkserver'' \<in> set available then ustr ''forkserver'' else ustr ''spawn'')
           else requested);
         selected = (if selected = ustr ''forkserver'' \<and> ustr ''forkserver'' \<notin> set available then ustr ''spawn'' else selected) in
     rbind (guard_or (selected \<in> set available) (StartRuntime ''multiprocessing start method is unavailable'')) (\<lambda>_. Inr selected)))"

lemma encode_packed:
  "pack (JObj [(ustr ''message_type'', JStr (ustr (mc_name C))), (ustr ''payload'', mc_builtins C m)]) = Some body
    \<Longrightarrow> length body \<le> MAX_FRAME_BYTES \<Longrightarrow> encode_frame pack C m = Inr (to_bytes (length body) @ body)"
  by (simp add: encode_frame_def guard_or_def rbind_def)

section \<open>The length header\<close>

lemma length_to_bytes [simp]: "length (to_bytes n) = HEADER_BYTES"
  by (simp add: to_bytes_def HEADER_BYTES_def)

lemma split_byte: "(n::nat) = n div 256 * 256 + n mod 256"
  by simp

lemma unat_byte: "unat (of_nat n :: 8 word) = n mod 256"
  by (simp add: unat_of_nat)

lemma from_to_bytes:
  assumes "n < 2 ^ 32" shows "from_bytes (to_bytes n) = n"
proof -
  let ?a = "n div 256" and ?b = "n div 256 div 256" and ?c = "n div 256 div 256 div 256"
  have "?c < 256"
    using assms by (simp add: div_less_iff_less_mult)
  then have "?c mod 256 = ?c"
    by simp
  moreover have "from_bytes (to_bytes n) = ((?c mod 256 * 256 + ?b mod 256) * 256 + ?a mod 256) * 256 + n mod 256"
    by (simp add: from_bytes_def to_bytes_def unat_byte div_mult2_eq [symmetric] del: of_nat_numeral)
  ultimately show ?thesis
    using split_byte [of n] split_byte [of ?a] split_byte [of ?b] by metis
qed

lemma MAX_FRAME_small: "n \<le> MAX_FRAME_BYTES \<Longrightarrow> n < 2 ^ 32"
  by (simp add: MAX_FRAME_BYTES_def)

section \<open>Frames round trip\<close>

text \<open>
  What a class promises: a message that exists, that is one whose checks passed, is what its
  builtins convert to.
\<close>

locale wire_class =
  fixes valid :: "'m \<Rightarrow> bool" and C :: "'m message_class"
  assumes convert_builtins: "valid m \<Longrightarrow> mc_convert C (mc_builtins C m) = Inr m"
begin

lemma frame_shape:
  assumes "encode_frame pack C m = Inr f"
  shows "\<exists>body. pack (JObj [(ustr ''message_type'', JStr (ustr (mc_name C))), (ustr ''payload'', mc_builtins C m)]) = Some body
    \<and> f = to_bytes (length body) @ body \<and> length body \<le> MAX_FRAME_BYTES"
  using assms by (auto simp: encode_frame_def guard_or_def rbind_def split: option.splits if_splits)

lemma frame_decodes:
  assumes codec: "\<forall>v b. pack v = Some b \<longrightarrow> unpack b = Some v" and valid: "valid m"
    and f: "encode_frame pack C m = Inr f"
  shows "decode_frame unpack C f = Inr m" "length f \<le> HEADER_BYTES + MAX_FRAME_BYTES"
proof -
  obtain body where b: "pack (JObj [(ustr ''message_type'', JStr (ustr (mc_name C))), (ustr ''payload'', mc_builtins C m)]) = Some body"
    "f = to_bytes (length body) @ body" "length body \<le> MAX_FRAME_BYTES"
    using frame_shape [OF f] by blast
  then show "length f \<le> HEADER_BYTES + MAX_FRAME_BYTES"
    by simp
  have "unpack body = Some (JObj [(ustr ''message_type'', JStr (ustr (mc_name C))), (ustr ''payload'', mc_builtins C m)])"
    using codec b(1) by blast
  moreover have "ustr ''message_type'' \<noteq> ustr ''payload''"
    by (simp add: ustr_def)
  ultimately show "decode_frame unpack C f = Inr m"
    using b convert_builtins [OF valid] from_to_bytes [OF MAX_FRAME_small [OF b(3)]]
    by (simp add: decode_frame_def guard_or_def rbind_def member_def Let_def insert_commute)
qed

text \<open>A frame cut short, one with bytes behind it, and one of another class are refused.\<close>

lemma frame_refused:
  assumes codec: "\<forall>v b. pack v = Some b \<longrightarrow> unpack b = Some v"
    and f: "encode_frame pack C m = Inr f"
  shows "k < length f \<Longrightarrow> \<exists>e. decode_frame unpack D (take k f) = Inl (FrameError e)"
    "xs \<noteq> [] \<Longrightarrow> decode_frame unpack D (f @ xs) = Inl (FrameError ''frame length mismatch'')"
    "ustr (mc_name D) \<noteq> ustr (mc_name C) \<Longrightarrow> decode_frame unpack D f = Inl (FrameError ''frame contains another class'')"
proof -
  obtain body where b: "pack (JObj [(ustr ''message_type'', JStr (ustr (mc_name C))), (ustr ''payload'', mc_builtins C m)]) = Some body"
    "f = to_bytes (length body) @ body" "length body \<le> MAX_FRAME_BYTES"
    using frame_shape [OF f] by blast
  note len = from_to_bytes [OF MAX_FRAME_small [OF b(3)]]
  show "\<exists>e. decode_frame unpack D (take k f) = Inl (FrameError e)" if "k < length f"
    using that b(2) len by (auto simp: decode_frame_def guard_or_def rbind_def Let_def)
  show "decode_frame unpack D (f @ xs) = Inl (FrameError ''frame length mismatch'')" if "xs \<noteq> []"
    using that b(2) len by (simp add: decode_frame_def guard_or_def rbind_def Let_def)
  have u: "unpack body = Some (JObj [(ustr ''message_type'', JStr (ustr (mc_name C))), (ustr ''payload'', mc_builtins C m)])"
    using codec b(1) by blast
  have ne: "ustr ''message_type'' \<noteq> ustr ''payload''"
    by (simp add: ustr_def)
  show "decode_frame unpack D f = Inl (FrameError ''frame contains another class'')" if "ustr (mc_name D) \<noteq> ustr (mc_name C)"
    using that b u ne len by (auto simp: decode_frame_def guard_or_def rbind_def member_def Let_def)
qed

end

text \<open>Commands and events are such classes.\<close>

lemma find_inverse:
  "inj_on f (set ks) \<Longrightarrow> k \<in> set ks \<Longrightarrow> List.find (\<lambda>x. f x = f k) ks = Some k"
  by (induction ks) (auto dest: inj_onD)

lemma command_of_value [simp]: "command_of (ustr (command_value k)) = Some k"
  by (cases k) (simp_all add: command_of_def ustr_def)

lemma event_of_value [simp]: "event_of (ustr (event_value k)) = Some k"
  by (cases k) (simp_all add: event_of_def ustr_def)

definition command_valid :: "worker_command \<Rightarrow> bool" where
  "command_valid c = (command_post_init c = Inr c)"

definition event_valid :: "worker_event \<Rightarrow> bool" where
  "event_valid e = (event_post_init e = Inr e)"

lemma optional_member_text:
  "member ms k = Some (optional_text v) \<Longrightarrow> optional_member ms k = Inr v"
  by (cases v) (simp_all add: optional_member_def optional_text_def)

lemma command_eta: "\<lparr>wc_command_id = wc_command_id c, wc_kind = wc_kind c, wc_operation = wc_operation c, wc_payload = wc_payload c,
    wc_target = wc_target c\<rparr> = (c :: worker_command)"
  by (cases c) simp

lemma event_eta: "\<lparr>we_worker_id = we_worker_id e, we_kind = we_kind e, we_timestamp = we_timestamp e, we_command_id = we_command_id e,
    we_payload = we_payload e\<rparr> = (e :: worker_event)"
  by (cases e) simp

interpretation commands: wire_class command_valid command_class
proof unfold_locales
  fix c assume v: "command_valid c"
  let ?ms = "[(ustr ''command_id'', JStr (wc_command_id c)), (ustr ''kind'', JStr (ustr (command_value (wc_kind c)))),
     (ustr ''operation'', optional_text (wc_operation c)), (ustr ''payload'', JObj (wc_payload c)),
     (ustr ''target_command_id'', optional_text (wc_target c))]"
  have "member ?ms ''command_id'' = Some (JStr (wc_command_id c))"
    "member ?ms ''kind'' = Some (JStr (ustr (command_value (wc_kind c))))"
    "member ?ms ''operation'' = Some (optional_text (wc_operation c))"
    "member ?ms ''payload'' = Some (JObj (wc_payload c))"
    "member ?ms ''target_command_id'' = Some (optional_text (wc_target c))"
    by (simp_all add: member_def ustr_def)
  then show "mc_convert command_class (mc_builtins command_class c) = Inr c"
    using v unfolding command_class_def command_builtins_def convert_command_def command_valid_def only_fields_def ensure_def
    by (simp add: optional_member_text text_member_def kind_member_def object_member_def guard_or_def rbind_def command_eta)
qed

interpretation events: wire_class event_valid event_class
proof unfold_locales
  fix e assume v: "event_valid e"
  let ?ms = "[(ustr ''worker_id'', JStr (we_worker_id e)), (ustr ''kind'', JStr (ustr (event_value (we_kind e)))),
     (ustr ''timestamp'', JFloat (we_timestamp e)), (ustr ''command_id'', optional_text (we_command_id e)),
     (ustr ''payload'', JObj (we_payload e))]"
  have "member ?ms ''worker_id'' = Some (JStr (we_worker_id e))"
    "member ?ms ''kind'' = Some (JStr (ustr (event_value (we_kind e))))"
    "member ?ms ''timestamp'' = Some (JFloat (we_timestamp e))"
    "member ?ms ''command_id'' = Some (optional_text (we_command_id e))"
    "member ?ms ''payload'' = Some (JObj (we_payload e))"
    by (simp_all add: member_def ustr_def)
  then show "mc_convert event_class (mc_builtins event_class e) = Inr e"
    using v unfolding event_class_def event_builtins_def convert_event_def event_valid_def only_fields_def ensure_def
    by (simp add: optional_member_text text_member_def kind_member_def object_member_def number_member_def guard_or_def rbind_def event_eta)
qed

section \<open>Properties\<close>

text \<open>C24. Frames round trip. With any codec that decodes what it encodes, the frame of a valid command decodes to that
  very command; it is at most 4 bytes longer than the limit; every proper prefix of it, and the frame with bytes
  behind it, is refused with a FrameError; and it is not taken for an event. The same for events.\<close>

theorem frames_roundtrip:
  assumes codec: "\<forall>v b. pack v = Some b \<longrightarrow> unpack b = Some v"
    and c: "command_valid c" "encode_frame pack command_class c = Inr f"
    and v: "event_valid v" "encode_frame pack event_class v = Inr g"
  shows "decode_frame unpack command_class f = Inr c \<and> length f \<le> 4 + 2 ^ 20
      \<and> (\<forall>k<length f. \<exists>e. decode_frame unpack command_class (take k f) = Inl (FrameError e))
      \<and> (\<forall>xs. xs \<noteq> [] \<longrightarrow> decode_frame unpack command_class (f @ xs) = Inl (FrameError ''frame length mismatch''))
      \<and> decode_frame unpack event_class f = Inl (FrameError ''frame contains another class'')
    \<and> decode_frame unpack event_class g = Inr v \<and> length g \<le> 4 + 2 ^ 20
      \<and> (\<forall>k<length g. \<exists>e. decode_frame unpack event_class (take k g) = Inl (FrameError e))
      \<and> (\<forall>xs. xs \<noteq> [] \<longrightarrow> decode_frame unpack event_class (g @ xs) = Inl (FrameError ''frame length mismatch''))
      \<and> decode_frame unpack command_class g = Inl (FrameError ''frame contains another class'')"
proof -
  have names: "ustr (mc_name event_class) \<noteq> ustr (mc_name command_class)"
    by (simp add: event_class_def command_class_def ustr_def)
  have limit: "HEADER_BYTES + MAX_FRAME_BYTES = 4 + 2 ^ 20"
    by (simp add: HEADER_BYTES_def MAX_FRAME_BYTES_def)
  show ?thesis
    by (intro conjI allI impI commands.frame_decodes [OF codec c, unfolded limit] commands.frame_refused [OF codec c(2)]
        events.frame_decodes [OF codec v, unfolded limit] events.frame_refused [OF codec v(2)] names names [symmetric])
qed

definition ping :: worker_command where
  "ping = \<lparr>wc_command_id = ustr ''c1'', wc_kind = CMD_PING, wc_operation = None, wc_payload = [], wc_target = None\<rparr>"

definition beat :: worker_event where
  "beat = \<lparr>we_worker_id = ustr ''gpu'', we_kind = EVT_HEARTBEAT, we_timestamp = 3 / 2, we_command_id = None, we_payload = []\<rparr>"

definition sample_frame :: "string \<Rightarrow> json \<Rightarrow> json" where
  "sample_frame n j = JObj [(ustr ''message_type'', JStr (ustr n)), (ustr ''payload'', j)]"

definition sample_pack :: "json \<Rightarrow> bytes option" where
  "sample_pack j = (if j = sample_frame ''WorkerCommand'' (command_builtins ping) then Some [7]
     else if j = sample_frame ''WorkerEvent'' (event_builtins beat) then Some [8, 9] else None)"

definition sample_unpack :: "bytes \<Rightarrow> json option" where
  "sample_unpack b = (if b = [7] then Some (sample_frame ''WorkerCommand'' (command_builtins ping))
     else if b = [8, 9] then Some (sample_frame ''WorkerEvent'' (event_builtins beat)) else None)"

theorem frames_roundtrip_witness:
  "decode_frame sample_unpack command_class [0, 0, 0, 1, 7] = Inr ping
   \<and> decode_frame sample_unpack event_class [0, 0, 0, 2, 8, 9] = Inr beat"
proof -
  have codec: "\<forall>v b. sample_pack v = Some b \<longrightarrow> sample_unpack b = Some v"
    by (simp add: sample_pack_def sample_unpack_def)
  have valid: "command_valid ping" "event_valid beat"
    by (simp_all add: command_valid_def event_valid_def command_post_init_def event_post_init_def ping_def beat_def
        validate_identifier_def ensure_def guard_or_def rbind_def ustr_def u_strip_def u_isspace_def utf8_encodable_def)
  have "ustr ''WorkerCommand'' \<noteq> ustr ''WorkerEvent''"
    by (simp add: ustr_def)
  then have packed: "sample_pack (sample_frame ''WorkerCommand'' (command_builtins ping)) = Some [7]"
    "sample_pack (sample_frame ''WorkerEvent'' (event_builtins beat)) = Some [8, 9]"
    by (simp_all add: sample_pack_def sample_frame_def)
  have framed: "encode_frame sample_pack command_class ping = Inr (to_bytes (length [7 :: 8 word]) @ [7])"
    by (rule encode_packed) (use packed(1) in \<open>simp_all add: command_class_def sample_frame_def MAX_FRAME_BYTES_def\<close>)
  have framed': "encode_frame sample_pack event_class beat = Inr (to_bytes (length [8 :: 8 word, 9]) @ [8, 9])"
    by (rule encode_packed) (use packed(2) in \<open>simp_all add: event_class_def sample_frame_def MAX_FRAME_BYTES_def\<close>)
  have "to_bytes (length [7 :: 8 word]) @ [7] = [0, 0, 0, 1, 7]" "to_bytes (length [8 :: 8 word, 9]) @ [8, 9] = [0, 0, 0, 2, 8, 9]"
    by (simp_all add: to_bytes_def)
  then have frames: "encode_frame sample_pack command_class ping = Inr [0, 0, 0, 1, 7]"
    "encode_frame sample_pack event_class beat = Inr [0, 0, 0, 2, 8, 9]"
    using framed framed' by (simp_all only:)
  show ?thesis
    using frames_roundtrip [OF codec valid(1) frames(1) valid(2) frames(2)] by blast
qed

section \<open>Start methods and heartbeats\<close>

text \<open>C0. A worker is never forked: the start method selected is spawn or forkserver, one of those available, and
  spawn for every worker of the GPU; asked for fork, the choice is refused, and it fails only when spawn is missing.\<close>

theorem never_forked:
  "(case select_start_method kind requested platform_name available of
      Inr m \<Rightarrow> m \<in> ustr ` {''spawn'', ''forkserver''} \<and> m \<in> set available \<and> requested \<noteq> ustr ''fork''
        \<and> (kind \<in> cuda_workers \<or> platform_name = ustr ''darwin'' \<longrightarrow> m = ustr ''spawn'')
    | Inl (StartValue _) \<Rightarrow> requested \<notin> ustr ` {''auto'', ''spawn'', ''forkserver''}
    | Inl (StartRuntime _) \<Rightarrow> ustr ''spawn'' \<notin> set available)"
proof (cases "requested \<in> ustr ` {''auto'', ''spawn'', ''forkserver''}")
  case True
  have ne: "ustr ''fork'' \<notin> ustr ` {''auto'', ''spawn'', ''forkserver''}" "ustr ''forkserver'' \<noteq> ustr ''spawn''"
    by (simp_all add: ustr_def)
  then have fork: "requested \<noteq> ustr ''fork''"
    using True by blast
  show ?thesis
    using True ne(2) unfolding select_start_method_def Let_def guard_or_def rbind_def if_P [OF fork] if_P [OF True]
    by (auto simp: fork)
next
  case False
  then show ?thesis
    by (auto simp: select_start_method_def guard_or_def rbind_def)
qed

text \<open>A worker seen within its timeout has not expired, and a clock that runs backwards expires none.\<close>

lemma seen_not_expired:
  assumes "new_watchdog timeout t = Inr w" "wd_timeout w = Finite d" "now - s \<le> d"
  shows "\<not> wd_expired (wd_observe w s) now"
  using assms by (auto simp: wd_expired_def wd_observe_def wd_age_def new_watchdog_def ensure_def guard_or_def rbind_def
      positive_def split: if_splits)

end
