(* ===== verification/SharedObjects.thy ===== *)
theory SharedObjects
  imports Workers
begin

text \<open>
  workers/shared_memory.py: segments of shared memory with the leases that workers hold on them. The
  operating system's segments are a map from names to bytes, which the workers also write to and which
  may disappear under the store; sha is the SHA-256 hexadecimal digest.
\<close>

section \<open>Handles and allocations\<close>

datatype shared_error = SharedObjectError string | InvalidSharedObject string | SharedValue string | SharedOS string

record handle =
  h_object_id :: ustr
  h_name :: ustr
  h_byte_size :: int
  h_owner :: ustr
  h_content_type :: ustr
  h_checksum :: ustr

definition handle_post_init :: "handle \<Rightarrow> shared_error + handle" where
  "handle_post_init h = rbind (checks
     [guard_or (h_object_id h \<noteq> [] \<and> h_name h \<noteq> [] \<and> h_owner h \<noteq> []) (SharedValue ''shared object identifiers must not be empty''),
      guard_or (0 \<le> h_byte_size h) (SharedValue ''byte_size must be non-negative''),
      guard_or (h_checksum h = [] \<or> length (h_checksum h) = 64) (SharedValue ''checksum must be a SHA-256 hexadecimal digest'')])
     (\<lambda>_. Inr h)"

record allocation =
  al_handle :: handle
  al_leases :: "ustr set"

type_synonym segments = "ustr \<rightharpoonup> bytes"

record shared_store =
  sh_allocations :: "(ustr, allocation) dict"
  sh_closed :: bool

type_synonym shared_state = "shared_store \<times> segments"

definition new_store :: shared_store where
  "new_store = \<lparr>sh_allocations = [], sh_closed = False\<rparr>"

definition allocated_bytes :: "shared_store \<Rightarrow> int" where
  "allocated_bytes s = sum_list (map (\<lambda>a. h_byte_size (al_handle a)) (dvalues (sh_allocations s)))"

definition object_count :: "shared_store \<Rightarrow> nat" where
  "object_count s = length (sh_allocations s)"

section \<open>Operations\<close>

text \<open>
  The name of the new segment is the system's (\<open>None\<close> when it has no memory to give), the object's
  identifier is fresh. A segment has at least one byte.
\<close>

definition create :: "(bytes \<Rightarrow> ustr) \<Rightarrow> ustr option \<Rightarrow> ustr \<Rightarrow> ustr \<Rightarrow> bytes \<Rightarrow> ustr \<Rightarrow> shared_state
    \<Rightarrow> (shared_error + handle) \<times> shared_state" where
  "create sha name oid owner payload ctype st = (case st of (s, segs) \<Rightarrow>
     if owner = [] then (Inl (SharedValue ''owner_worker must not be empty''), st)
     else if sh_closed s then (Inl (SharedObjectError ''shared object store is closed''), st)
     else (case name of None \<Rightarrow> (Inl (SharedOS ''no segment''), st)
     | Some n \<Rightarrow> (case handle_post_init \<lparr>h_object_id = oid, h_name = n, h_byte_size = int (length payload), h_owner = owner,
           h_content_type = ctype, h_checksum = sha payload\<rparr> of
         Inl e \<Rightarrow> (Inl e, (s, segs(n := None)))
       | Inr h \<Rightarrow> (Inr h, (s\<lparr>sh_allocations := AList.update oid \<lparr>al_handle = h, al_leases = {owner}\<rparr> (sh_allocations s)\<rparr>,
           segs(n \<mapsto> (if payload = [] then [0] else payload)))))))"

definition resolve :: "handle \<Rightarrow> shared_store \<Rightarrow> shared_error + allocation" where
  "resolve h s = (case map_of (sh_allocations s) (h_object_id h) of
     Some a \<Rightarrow> if al_handle a = h then Inr a else Inl (InvalidSharedObject ''shared object handle is not registered'')
   | None \<Rightarrow> Inl (InvalidSharedObject ''shared object handle is not registered''))"

definition read_object :: "(bytes \<Rightarrow> ustr) \<Rightarrow> handle \<Rightarrow> bool \<Rightarrow> shared_state \<Rightarrow> shared_error + bytes" where
  "read_object sha h verify st = rbind (resolve h (fst st)) (\<lambda>a.
     case snd st (h_name (al_handle a)) of None \<Rightarrow> Inl (SharedOS ''segment not found'')
     | Some segment \<Rightarrow> let payload = take (nat (h_byte_size (al_handle a))) segment in
         rbind (guard_or (\<not> (verify \<and> sha payload \<noteq> h_checksum h)) (InvalidSharedObject ''shared object checksum mismatch'')) (\<lambda>_. Inr payload))"

definition acquire :: "handle \<Rightarrow> ustr \<Rightarrow> shared_state \<Rightarrow> (shared_error + unit) \<times> shared_state" where
  "acquire h worker st = (if worker = [] then (Inl (SharedValue ''worker_id must not be empty''), st)
     else case resolve h (fst st) of Inl e \<Rightarrow> (Inl e, st)
     | Inr a \<Rightarrow> (Inr (), (fst st)\<lparr>sh_allocations := AList.update (h_object_id h)
         (a\<lparr>al_leases := insert worker (al_leases a)\<rparr>) (sh_allocations (fst st))\<rparr>, snd st))"

text \<open>A segment that is already gone is nothing to unlink.\<close>

definition reclaim :: "allocation \<Rightarrow> shared_state \<Rightarrow> shared_state" where
  "reclaim a st = ((fst st)\<lparr>sh_allocations := AList.delete (h_object_id (al_handle a)) (sh_allocations (fst st))\<rparr>,
     (snd st)(h_name (al_handle a) := None))"

definition release_lease :: "handle \<Rightarrow> ustr \<Rightarrow> shared_state \<Rightarrow> (shared_error + bool) \<times> shared_state" where
  "release_lease h worker st = (case resolve h (fst st) of Inl e \<Rightarrow> (Inl e, st)
     | Inr a \<Rightarrow> let a' = a\<lparr>al_leases := al_leases a - {worker}\<rparr>;
           st' = ((fst st)\<lparr>sh_allocations := AList.update (h_object_id h) a' (sh_allocations (fst st))\<rparr>, snd st) in
         if al_leases a' \<noteq> {} then (Inr False, st') else (Inr True, reclaim a' st'))"

definition cleanup_owner :: "ustr \<Rightarrow> shared_state \<Rightarrow> int \<times> shared_state" where
  "cleanup_owner owner st = (let owned = List.filter (\<lambda>a. h_owner (al_handle a) = owner) (dvalues (sh_allocations (fst st))) in
     (sum_list (map (\<lambda>a. h_byte_size (al_handle a)) owned), fold reclaim owned st))"

definition close_store :: "shared_state \<Rightarrow> shared_state" where
  "close_store st = (if sh_closed (fst st) then st
     else let st' = fold reclaim (dvalues (sh_allocations (fst st))) st in ((fst st')\<lparr>sh_closed := True\<rparr>, snd st'))"

section \<open>Runs\<close>

text \<open>
  A state with what was stored under each identifier given out so far, and with the names given out. The world may write to a segment and may
  remove one.
\<close>

record world =
  w_state :: shared_state
  w_payloads :: "ustr \<rightharpoonup> bytes"
  w_names :: "ustr set"

inductive shared_step :: "(bytes \<Rightarrow> ustr) \<Rightarrow> world \<Rightarrow> world \<Rightarrow> bool" for sha where
  step_create: "w_payloads w oid = None \<Longrightarrow> (\<And>n. name = Some n \<Longrightarrow> n \<notin> w_names w) \<Longrightarrow>
     create sha name oid owner payload ctype (w_state w) = (r, st) \<Longrightarrow>
     shared_step sha w \<lparr>w_state = st, w_payloads = (w_payloads w)(oid \<mapsto> payload), w_names = set_option name \<union> w_names w\<rparr>"
| step_acquire: "acquire h worker (w_state w) = (r, st) \<Longrightarrow> shared_step sha w (w\<lparr>w_state := st\<rparr>)"
| step_release: "release_lease h worker (w_state w) = (r, st) \<Longrightarrow> shared_step sha w (w\<lparr>w_state := st\<rparr>)"
| step_cleanup: "cleanup_owner owner (w_state w) = (r, st) \<Longrightarrow> shared_step sha w (w\<lparr>w_state := st\<rparr>)"
| step_close: "shared_step sha w (w\<lparr>w_state := close_store (w_state w)\<rparr>)"
| step_write: "snd (w_state w) n = Some old \<Longrightarrow> length new = length old \<Longrightarrow>
     shared_step sha w (w\<lparr>w_state := (fst (w_state w), (snd (w_state w))(n \<mapsto> new))\<rparr>)"
| step_lost: "shared_step sha w (w\<lparr>w_state := (fst (w_state w), (snd (w_state w))(n := None))\<rparr>)"

section \<open>The invariant\<close>

text \<open>
  Every object is registered under its own identifier and its own name, somebody holds a lease on it, and
  every segment that was not there before the store belongs to an object.
\<close>

abbreviation names_of :: "shared_store \<Rightarrow> ustr list" where
  "names_of s \<equiv> map (\<lambda>a. h_name (al_handle a)) (dvalues (sh_allocations s))"

definition allocation_ok :: "(bytes \<Rightarrow> ustr) \<Rightarrow> world \<Rightarrow> ustr \<Rightarrow> allocation \<Rightarrow> bool" where
  "allocation_ok sha w k a = (h_object_id (al_handle a) = k
     \<and> (\<exists>p. w_payloads w k = Some p \<and> h_byte_size (al_handle a) = int (length p) \<and> h_checksum (al_handle a) = sha p)
     \<and> h_name (al_handle a) \<in> w_names w
     \<and> al_leases a \<noteq> {}
     \<and> (\<forall>seg. snd (w_state w) (h_name (al_handle a)) = Some seg \<longrightarrow> h_byte_size (al_handle a) \<le> int (length seg)))"

definition shared_inv :: "(bytes \<Rightarrow> ustr) \<Rightarrow> ustr set \<Rightarrow> world \<Rightarrow> bool" where
  "shared_inv sha base w = (case w_state w of (s, segs) \<Rightarrow> wf_dict (sh_allocations s) \<and> distinct (names_of s)
     \<and> (\<forall>(k, a)\<in>set (sh_allocations s). allocation_ok sha w k a \<and> h_name (al_handle a) \<notin> base)
     \<and> base \<subseteq> w_names w \<and> dom segs \<subseteq> base \<union> set (names_of s) \<and> (sh_closed s \<longrightarrow> sh_allocations s = []))"

definition shared_start :: "ustr set \<Rightarrow> world \<Rightarrow> bool" where
  "shared_start base w = (fst (w_state w) = new_store \<and> dom (snd (w_state w)) = base \<and> base \<subseteq> w_names w)"

lemma reclaim_simps [simp]:
  "sh_allocations (fst (reclaim a st)) = [(k, b) \<leftarrow> sh_allocations (fst st). k \<noteq> h_object_id (al_handle a)]"
  "sh_closed (fst (reclaim a st)) = sh_closed (fst st)"
  "snd (reclaim a st) = (snd st)(h_name (al_handle a) := None)"
  by (simp_all add: reclaim_def AList.delete_eq case_prod_unfold eq_commute)

lemma reclaim_all:
  "sh_allocations (fst (fold reclaim as st)) = [(k, a) \<leftarrow> sh_allocations (fst st). k \<notin> (\<lambda>a. h_object_id (al_handle a)) ` set as]"
  "sh_closed (fst (fold reclaim as st)) = sh_closed (fst st)"
  "snd (fold reclaim as st) = (\<lambda>n. if n \<in> (\<lambda>a. h_name (al_handle a)) ` set as then None else snd st n)"
proof (induction as arbitrary: st)
  case (Cons a as)
  { case 1 show ?case
      by (simp add: Cons.IH case_prod_unfold) }
  { case 2 show ?case
      by (simp add: Cons.IH) }
  { case 3 show ?case
      by (auto simp: Cons.IH fun_eq_iff) }
qed simp_all

lemma set_filter_keys: "set [(k, a) \<leftarrow> d. P k] = {(k, a) \<in> set d. P k}"
  by auto

text \<open>Some of the objects are reclaimed, for whatever reason.\<close>

lemma inv_reclaim:
  assumes inv: "shared_inv sha base w" and as: "set as \<subseteq> snd ` set (sh_allocations (fst (w_state w)))"
  shows "shared_inv sha base (w\<lparr>w_state := fold reclaim as (w_state w)\<rparr>)"
proof -
  obtain s segs where st: "w_state w = (s, segs)"
    by fastforce
  let ?d = "sh_allocations s" and ?d' = "[(k, a) \<leftarrow> sh_allocations s. k \<notin> (\<lambda>a. h_object_id (al_handle a)) ` set as]"
  have key: "h_object_id (al_handle a) = k" if "(k, a) \<in> set ?d" for k a
    using inv that st by (auto simp: shared_inv_def allocation_ok_def)
  have wf: "wf_dict ?d" "distinct (names_of s)"
    using inv st by (auto simp: shared_inv_def)
  have sub: "n \<in> set (map (\<lambda>a. h_name (al_handle a)) (dvalues ?d'))"
    if "n \<in> set (names_of s)" "n \<notin> (\<lambda>a. h_name (al_handle a)) ` set as" for n
  proof -
    from that(1) obtain k a where ka: "(k, a) \<in> set ?d" "n = h_name (al_handle a)"
      by auto
    have "k \<notin> (\<lambda>a. h_object_id (al_handle a)) ` set as"
    proof
      assume "k \<in> (\<lambda>a. h_object_id (al_handle a)) ` set as"
      then obtain b where b: "b \<in> set as" "h_object_id (al_handle b) = k"
        by auto
      then obtain k' where "(k', b) \<in> set ?d"
        using as st by auto
      then have "(k, b) \<in> set ?d"
        using key b(2) by fastforce
      then have "b = a"
        using ka(1) wf(1) by (meson eq_key_imp_eq_value)
      then show False
        using b(1) ka(2) that(2) by auto
    qed
    then show ?thesis
      using ka by force
  qed
  have "distinct (map (\<lambda>a. h_name (al_handle a)) (dvalues ?d'))" "wf_dict ?d'"
    using wf by (auto simp: distinct_map_filter case_prod_unfold comp_def)
  moreover have "dom (\<lambda>n. if n \<in> (\<lambda>a. h_name (al_handle a)) ` set as then None else segs n)
      \<subseteq> base \<union> set (map (\<lambda>a. h_name (al_handle a)) (dvalues ?d'))"
  proof
    fix n assume n: "n \<in> dom (\<lambda>n. if n \<in> (\<lambda>a. h_name (al_handle a)) ` set as then None else segs n)"
    then have "n \<in> base \<union> set (names_of s)" "n \<notin> (\<lambda>a. h_name (al_handle a)) ` set as"
      using inv st by (auto simp: shared_inv_def dom_def split: if_splits)
    then show "n \<in> base \<union> set (map (\<lambda>a. h_name (al_handle a)) (dvalues ?d'))"
      using sub [of n] by blast
  qed
  moreover have "allocation_ok sha (w\<lparr>w_state := fold reclaim as (w_state w)\<rparr>) k a \<and> h_name (al_handle a) \<notin> base"
    if "(k, a) \<in> set ?d'" for k a
  proof -
    have "allocation_ok sha w k a \<and> h_name (al_handle a) \<notin> base"
      using inv st that by (auto simp: shared_inv_def)
    then show ?thesis
      by (auto simp: allocation_ok_def reclaim_all)
  qed
  moreover have "base \<subseteq> w_names w" "sh_closed s \<Longrightarrow> ?d' = []"
    using inv st by (auto simp: shared_inv_def)
  moreover obtain s' segs' where st': "fold reclaim as (w_state w) = (s', segs')"
    by fastforce
  moreover have "sh_allocations s' = ?d'" "sh_closed s' = sh_closed s"
    "segs' = (\<lambda>n. if n \<in> (\<lambda>a. h_name (al_handle a)) ` set as then None else segs n)"
    using reclaim_all [of as "(s, segs)"] st' [unfolded st] by (simp_all cong: if_cong)
  ultimately show ?thesis
    unfolding shared_inv_def by auto
qed

text \<open>Other leases on an object, and other bytes in its segment.\<close>

lemma inv_leases:
  assumes inv: "shared_inv sha base w" and a: "map_of (sh_allocations (fst (w_state w))) k = Some a" and L: "L \<noteq> {}"
  shows "shared_inv sha base (w\<lparr>w_state := ((fst (w_state w))\<lparr>sh_allocations :=
    AList.update k (a\<lparr>al_leases := L\<rparr>) (sh_allocations (fst (w_state w)))\<rparr>, snd (w_state w))\<rparr>)"
proof -
  obtain s segs where st: "w_state w = (s, segs)"
    by fastforce
  let ?b = "a\<lparr>al_leases := L\<rparr>" and ?d = "sh_allocations s"
  have k: "k \<in> set (dkeys ?d)" and wf: "wf_dict ?d" and ka: "(k, a) \<in> set ?d"
    using a inv st by (auto simp: shared_inv_def map_of_eq_None_iff intro: map_of_SomeD) (metis map_of_SomeD fst_conv image_eqI)
  have d: "AList.update k ?b ?d = map (\<lambda>(j, v). (j, if j = k then ?b else v)) ?d"
    using k wf by (rule update_present)
  have "map (\<lambda>a. h_name (al_handle a)) (dvalues (AList.update k ?b ?d)) = names_of s"
    unfolding d using ka wf by (auto simp: case_prod_unfold dest: eq_key_imp_eq_value)
  moreover have "allocation_ok sha (w\<lparr>w_state := t\<rparr>) j v \<and> h_name (al_handle v) \<notin> base"
    if "(j, v) \<in> set (AList.update k ?b ?d)" "snd t = segs" for j v t
  proof -
    note mem = that(1)
    obtain u where u: "(j, u) \<in> set ?d" "v = (if j = k then ?b else u)"
      using mem unfolding d by auto
    have "allocation_ok sha w j u \<and> h_name (al_handle u) \<notin> base" "allocation_ok sha w k a \<and> h_name (al_handle a) \<notin> base"
      using inv st u(1) ka by (auto simp: shared_inv_def)
    then show ?thesis
      using u(2) that(2) st L by (auto simp: allocation_ok_def)
  qed
  moreover have "(\<lambda>x. h_name (al_handle (snd x))) ` set (AList.update k ?b ?d) = (\<lambda>x. h_name (al_handle (snd x))) ` set ?d"
    using arg_cong [OF calculation(1), of set] by (simp add: image_image)
  ultimately show ?thesis
    using inv st wf_dict_update [OF wf] k by (auto simp: shared_inv_def)
qed

lemma inv_segments:
  assumes inv: "shared_inv sha base w"
    and segs: "\<And>n seg. segs' n = Some seg \<Longrightarrow> \<exists>old. snd (w_state w) n = Some old \<and> length old \<le> length seg"
  shows "shared_inv sha base (w\<lparr>w_state := (fst (w_state w), segs')\<rparr>)"
proof -
  have "dom segs' \<subseteq> dom (snd (w_state w))"
    using segs by fastforce
  moreover have "allocation_ok sha (w\<lparr>w_state := (fst (w_state w), segs')\<rparr>) k a" if "allocation_ok sha w k a" for k a
    using that segs by (fastforce simp: allocation_ok_def)
  ultimately show ?thesis
    using inv by (fastforce simp: shared_inv_def split: prod.splits)
qed

lemma inv_create:
  assumes inv: "shared_inv sha base w" and new: "w_payloads w oid = None" "\<And>n. name = Some n \<Longrightarrow> n \<notin> w_names w"
    and c: "create sha name oid owner payload ctype (w_state w) = (r, st)"
  shows "shared_inv sha base \<lparr>w_state = st, w_payloads = (w_payloads w)(oid \<mapsto> payload), w_names = set_option name \<union> w_names w\<rparr>"
proof -
  obtain s segs where st: "w_state w = (s, segs)"
    by fastforce
  let ?d = "sh_allocations s"
  have fresh: "oid \<notin> set (dkeys ?d)"
    using inv new(1) st by (auto simp: shared_inv_def allocation_ok_def)
  have n: "n \<notin> set (names_of s) \<and> n \<notin> base \<and> segs n = None" if "name = Some n" for n
  proof -
    have "set (names_of s) \<subseteq> w_names w" "base \<subseteq> w_names w" "dom segs \<subseteq> base \<union> set (names_of s)"
      using inv st by (auto simp: shared_inv_def allocation_ok_def)
    then show ?thesis
      using new(2) [OF that] by blast
  qed
  have old: "allocation_ok sha \<lparr>w_state = (s', segs'), w_payloads = (w_payloads w)(oid \<mapsto> payload), w_names = set_option name \<union> w_names w\<rparr> k a"
    if "(k, a) \<in> set ?d" "\<And>m. m \<in> set (names_of s) \<Longrightarrow> segs' m = segs m" for s' segs' k a
  proof -
    have "allocation_ok sha w k a" "k \<noteq> oid" "h_name (al_handle a) \<in> set (names_of s)"
      using inv st that(1) fresh by (force simp: shared_inv_def)+
    then show ?thesis
      using that(2) st by (auto simp: allocation_ok_def)
  qed
  show ?thesis
  proof (cases "st = (s, segs)")
    case True
    then show ?thesis
      using inv st old by (auto simp: shared_inv_def)
  next
    case False
    then obtain m where m: "name = Some m" "owner \<noteq> []" "\<not> sh_closed s"
      using c st by (auto simp: create_def split: if_splits option.splits)
    define h where "h = \<lparr>h_object_id = oid, h_name = m, h_byte_size = int (length payload), h_owner = owner,
           h_content_type = ctype, h_checksum = sha payload\<rparr>"
    have post: "handle_post_init h = Inr h"
      using False c st m n [OF m(1)] unfolding h_def
      by (auto simp: create_def handle_post_init_def rbind_def fun_upd_idem split: sum.splits)
    then have new_st: "st = (s\<lparr>sh_allocations := ?d @ [(oid, \<lparr>al_handle = h, al_leases = {owner}\<rparr>)]\<rparr>,
        segs(m \<mapsto> (if payload = [] then [0] else payload)))"
      using c st m by (simp add: create_def h_def [symmetric] update_new [OF fresh])
    have "allocation_ok sha \<lparr>w_state = st, w_payloads = (w_payloads w)(oid \<mapsto> payload), w_names = set_option name \<union> w_names w\<rparr> oid
        \<lparr>al_handle = h, al_leases = {owner}\<rparr>"
      unfolding new_st by (simp add: allocation_ok_def h_def m)
    moreover have "allocation_ok sha \<lparr>w_state = st, w_payloads = (w_payloads w)(oid \<mapsto> payload), w_names = set_option name \<union> w_names w\<rparr> k a"
      if "(k, a) \<in> set ?d" for k a
      unfolding new_st by (rule old [OF that]) (use n [OF m(1)] in auto)
    ultimately show ?thesis
      using inv st n [OF m(1)] m fresh unfolding new_st shared_inv_def by (auto simp: h_def)
  qed
qed

lemma resolve_mem:
  "resolve h s = Inr a \<Longrightarrow> map_of (sh_allocations s) (h_object_id h) = Some a \<and> al_handle a = h"
  by (auto simp: resolve_def split: option.splits if_splits)

lemma release_last:
  assumes "resolve h (fst st) = Inr a" "al_leases a \<subseteq> {worker}"
  shows "release_lease h worker st = (Inr True, reclaim a st)"
proof -
  have "al_leases a - {worker} = {}" "h_object_id (al_handle a) = h_object_id h"
    using assms resolve_mem by blast+
  then show ?thesis
    using assms(1) by (simp add: release_lease_def reclaim_def Let_def delete_update_same)
qed

lemma inv_step: "shared_step sha w w' \<Longrightarrow> shared_inv sha base w \<Longrightarrow> shared_inv sha base w'"
proof (induction rule: shared_step.induct)
  case (step_create w oid name owner payload ctype r st)
  then show ?case
    by (intro inv_create)
next
  case (step_acquire h worker w r st)
  show ?case
  proof (cases "st = w_state w")
    case False
    then obtain a where a: "resolve h (fst (w_state w)) = Inr a"
      "st = ((fst (w_state w))\<lparr>sh_allocations := AList.update (h_object_id h) (a\<lparr>al_leases := insert worker (al_leases a)\<rparr>)
        (sh_allocations (fst (w_state w)))\<rparr>, snd (w_state w))"
      using step_acquire(1) by (auto simp: acquire_def split: if_splits sum.splits)
    then show ?thesis
      using inv_leases [OF step_acquire(2), of "h_object_id h" a] resolve_mem [OF a(1)] by simp
  qed (use step_acquire in \<open>cases w; simp\<close>)
next
  case (step_release h worker w r st)
  show ?case
  proof (cases "resolve h (fst (w_state w))")
    case (Inl e)
    then show ?thesis
      using step_release by (cases w) (simp add: release_lease_def)
  next
    case (Inr a)
    note mem = resolve_mem [OF Inr]
    show ?thesis
    proof (cases "al_leases a \<subseteq> {worker}")
      case True
      then have "st = fold reclaim [a] (w_state w)"
        using release_last [OF Inr] step_release(1) by simp
      then show ?thesis
        using inv_reclaim [OF step_release(2), of "[a]"] mem by (force dest: map_of_SomeD)
    next
      case False
      then have L: "al_leases a - {worker} \<noteq> {}"
        by blast
      then show ?thesis
        using inv_leases [OF step_release(2) conjunct1 [OF mem] L] Inr step_release(1)
        by (simp add: release_lease_def Let_def)
    qed
  qed
next
  case (step_cleanup owner w r st)
  then show ?case
    using inv_reclaim [OF step_cleanup(2)] by (auto simp: cleanup_owner_def Let_def)
next
  case (step_close w)
  have "shared_inv sha base (w\<lparr>w_state := fold reclaim (dvalues (sh_allocations (fst (w_state w)))) (w_state w)\<rparr>)"
    by (rule inv_reclaim [OF step_close]) simp
  moreover have "sh_allocations (fst (fold reclaim (dvalues (sh_allocations (fst (w_state w)))) (w_state w))) = []"
    using step_close by (auto simp: reclaim_all shared_inv_def allocation_ok_def filter_empty_conv image_iff split: prod.splits) force
  ultimately show ?case
    using step_close by (auto simp: close_store_def Let_def shared_inv_def allocation_ok_def split: prod.splits)
next
  case (step_write w n old new)
  then show ?case
    by (intro inv_segments) (auto split: if_splits)
next
  case (step_lost w n)
  then show ?case
    by (intro inv_segments) (auto split: if_splits)
qed

lemma inv_start: "shared_start base w \<Longrightarrow> shared_inv sha base w"
  by (auto simp: shared_start_def shared_inv_def new_store_def split: prod.splits)

interpretation shared: invariant_system "shared_start base" "shared_step sha" "shared_inv sha base" for base sha
  by unfold_locales (auto intro: inv_start inv_step)

text \<open>An identifier that was given out and is not registered any more stays so.\<close>

definition gone :: "ustr \<Rightarrow> world \<Rightarrow> bool" where
  "gone k w = (w_payloads w k \<noteq> None \<and> map_of (sh_allocations (fst (w_state w))) k = None)"

lemma reclaimed_gone: "map_of (sh_allocations (fst st)) k = None \<Longrightarrow> map_of (sh_allocations (fst (fold reclaim as st))) k = None"
  by (auto simp: reclaim_all map_of_eq_None_iff)

lemma create_gone:
  assumes "create sha name oid owner payload ctype st = (r, st')" "map_of (sh_allocations (fst st)) k = None" "k \<noteq> oid"
  shows "map_of (sh_allocations (fst st')) k = None"
  using assms by (cases st) (auto simp: create_def map_of_update split: if_splits option.splits sum.splits)

lemma gone_step: "shared_step sha w w' \<Longrightarrow> gone k w \<Longrightarrow> gone k w'"
proof (induction rule: shared_step.induct)
  case (step_create w oid name owner payload ctype r st)
  then have "k \<noteq> oid"
    by (auto simp: gone_def)
  then show ?case
    using create_gone [OF step_create(3)] step_create(4) by (simp add: gone_def)
next
  case (step_acquire h worker w r st)
  then show ?case
    by (auto simp: gone_def acquire_def map_of_update split: if_splits sum.splits dest!: resolve_mem)
next
  case (step_release h worker w r st)
  then show ?case
    by (auto simp: gone_def release_lease_def Let_def map_of_update reclaim_def map_of_delete split: if_splits sum.splits dest!: resolve_mem)
next
  case (step_cleanup owner w r st)
  then show ?case
    by (auto simp: gone_def cleanup_owner_def Let_def reclaimed_gone)
next
  case (step_close w)
  then show ?case
    by (simp add: gone_def close_store_def Let_def reclaimed_gone)
qed (simp_all add: gone_def)

lemma gone_run: "(shared_step sha)\<^sup>*\<^sup>* w w' \<Longrightarrow> gone k w \<Longrightarrow> gone k w'"
  by (induction rule: rtranclp_induct) (auto intro: gone_step)

lemma gone_resolve: "gone (h_object_id h) w \<Longrightarrow> isl (resolve h (fst (w_state w)))"
  by (simp add: gone_def resolve_def)

section \<open>A run\<close>

text \<open>Worker 97 stores two bytes, and nothing else was there.\<close>

definition sample_sha :: "bytes \<Rightarrow> ustr" where
  "sample_sha b = replicate 64 48"

definition sample_handle :: handle where
  "sample_handle = \<lparr>h_object_id = [111], h_name = [110], h_byte_size = 2, h_owner = [97], h_content_type = [], h_checksum = replicate 64 48\<rparr>"

definition sample_start :: world where
  "sample_start = \<lparr>w_state = (new_store, Map.empty), w_payloads = Map.empty, w_names = {}\<rparr>"

definition sample_world :: world where
  "sample_world = \<lparr>w_state = (\<lparr>sh_allocations = [([111], \<lparr>al_handle = sample_handle, al_leases = {[97]}\<rparr>)], sh_closed = False\<rparr>, [[110] \<mapsto> [1, 2]]),
     w_payloads = [[111] \<mapsto> [1, 2]], w_names = {[110]}\<rparr>"

lemma sample_starts: "shared_start {} sample_start"
  by (simp add: shared_start_def sample_start_def)

lemma sample_run: "(shared_step sample_sha)\<^sup>*\<^sup>* sample_start sample_world"
proof (rule r_into_rtranclp)
  have c: "create sample_sha (Some [110]) [111] [97] [1, 2] [] (w_state sample_start) = (Inr sample_handle, w_state sample_world)"
    by (simp add: create_def sample_start_def sample_world_def new_store_def handle_post_init_def sample_handle_def sample_sha_def)
  show "shared_step sample_sha sample_start sample_world"
    using step_create [OF _ _ c] by (simp add: sample_start_def sample_world_def)
qed

section \<open>Properties\<close>

text \<open>What is left after an owner's objects, or all, are reclaimed.\<close>

lemma others_left:
  assumes "shared_inv sha base w"
  shows "sh_allocations (fst (snd (cleanup_owner owner (w_state w))))
    = [(k, a) \<leftarrow> sh_allocations (fst (w_state w)). h_owner (al_handle a) \<noteq> owner]"
proof -
  let ?d = "sh_allocations (fst (w_state w))"
  have "k \<notin> (\<lambda>a. h_object_id (al_handle a)) ` set [a \<leftarrow> dvalues ?d. h_owner (al_handle a) = owner] \<longleftrightarrow> h_owner (al_handle a) \<noteq> owner"
    if "(k, a) \<in> set ?d" for k a
  proof -
    have wf: "wf_dict ?d" and key: "\<And>j b. (j, b) \<in> set ?d \<Longrightarrow> h_object_id (al_handle b) = j"
      using assms by (auto simp: shared_inv_def allocation_ok_def split: prod.splits)
    show ?thesis
      using that key wf by (force dest: eq_key_imp_eq_value)
  qed
  then show ?thesis
    by (auto simp: cleanup_owner_def Let_def reclaim_all intro!: filter_cong)
qed

lemma bytes_split:
  "sum_list (map f (dvalues d)) = sum_list (map f [a \<leftarrow> dvalues d. P a]) + (sum_list (map f (dvalues [(k, a) \<leftarrow> d. \<not> P a])) :: int)"
  by (induction d) auto

text \<open>C25. No segment leaks. Starting beside the segments base of other programs, whatever the workers do, even
  writing to segments or losing them: every segment beyond base belongs to a registered object, two objects never
  share one, and none is one of base; revoking a worker's objects leaves only those of other workers and returns
  exactly the bytes that went; closing the store leaves no object and no segment of its own.\<close>

theorem no_segment_leaks:
  assumes "shared_start base w0" and "(shared_step sha)\<^sup>*\<^sup>* w0 w"
  shows "dom (snd (w_state w)) \<subseteq> base \<union> set (names_of (fst (w_state w)))
    \<and> distinct (names_of (fst (w_state w))) \<and> set (names_of (fst (w_state w))) \<inter> base = {}
    \<and> (case cleanup_owner owner (w_state w) of (n, st) \<Rightarrow>
        dom (snd st) \<subseteq> base \<union> {h_name (al_handle a) |k a. (k, a) \<in> set (sh_allocations (fst (w_state w))) \<and> h_owner (al_handle a) \<noteq> owner}
        \<and> n = allocated_bytes (fst (w_state w)) - allocated_bytes (fst st))
    \<and> sh_allocations (fst (close_store (w_state w))) = [] \<and> dom (snd (close_store (w_state w))) \<subseteq> base"
proof -
  have inv: "shared_inv sha base w"
    using shared.invar_steps [OF assms(2) inv_start [OF assms(1)]] .
  obtain n st where c: "cleanup_owner owner (w_state w) = (n, st)"
    by (rule prod.exhaust)
  have d: "sh_allocations (fst st) = [(k, a) \<leftarrow> sh_allocations (fst (w_state w)). h_owner (al_handle a) \<noteq> owner]"
    using others_left [OF inv, of owner] c by simp
  have "shared_inv sha base (w\<lparr>w_state := st\<rparr>)"
    using inv_step [OF step_cleanup [OF c] inv] .
  then have "dom (snd st) \<subseteq> base \<union> set (names_of (fst st))"
    by (auto simp: shared_inv_def split: prod.splits)
  also have "\<dots> \<subseteq> base \<union> {h_name (al_handle a) |k a. (k, a) \<in> set (sh_allocations (fst (w_state w))) \<and> h_owner (al_handle a) \<noteq> owner}"
    unfolding d by (auto simp: case_prod_unfold) blast
  finally have left: "dom (snd st) \<subseteq> base \<union> {h_name (al_handle a) |k a. (k, a) \<in> set (sh_allocations (fst (w_state w))) \<and> h_owner (al_handle a) \<noteq> owner}" .
  have "n = allocated_bytes (fst (w_state w)) - allocated_bytes (fst st)"
    using bytes_split [of "\<lambda>a. h_byte_size (al_handle a)" "sh_allocations (fst (w_state w))" "\<lambda>a. h_owner (al_handle a) = owner"] c d
    by (auto simp: allocated_bytes_def cleanup_owner_def Let_def)
  moreover have "shared_inv sha base (w\<lparr>w_state := close_store (w_state w)\<rparr>)"
    using inv_step [OF step_close inv] .
  moreover have "sh_closed (fst (close_store (w_state w)))"
    by (simp add: close_store_def Let_def)
  ultimately show ?thesis
    using inv left c by (auto simp: shared_inv_def split: prod.splits)
qed

theorem no_segment_leaks_witness: "dom (snd (close_store (w_state sample_world))) \<subseteq> {}"
  using no_segment_leaks [OF sample_starts sample_run] by blast

text \<open>C26. Leases keep objects. In every state the store can be in, releasing a lease on a registered object reclaims it, and says
  so, exactly when nobody else holds one: its segment is then gone, and its handle is refused in every later state. Otherwise
  the object stays with the other leases and no segment changes.\<close>

theorem leases_keep_objects:
  assumes "shared_start base w0" and "(shared_step sha)\<^sup>*\<^sup>* w0 w" and r: "release_lease h worker (w_state w) = (Inr b, st)"
  shows "\<exists>a. resolve h (fst (w_state w)) = Inr a \<and> b = (al_leases a \<subseteq> {worker})
    \<and> (if b then snd st (h_name h) = None \<and> (\<forall>w'. (shared_step sha)\<^sup>*\<^sup>* (w\<lparr>w_state := st\<rparr>) w' \<longrightarrow> isl (resolve h (fst (w_state w'))))
       else resolve h (fst st) = Inr (a\<lparr>al_leases := al_leases a - {worker}\<rparr>) \<and> snd st = snd (w_state w))"
proof -
  have inv: "shared_inv sha base w"
    using shared.invar_steps [OF assms(2) inv_start [OF assms(1)]] .
  obtain a where a: "resolve h (fst (w_state w)) = Inr a"
    using r by (auto simp: release_lease_def split: sum.splits)
  note mem = resolve_mem [OF a]
  show ?thesis
  proof (cases "al_leases a \<subseteq> {worker}")
    case True
    then have b: "b" "st = reclaim a (w_state w)"
      using release_last [OF a] r by auto
    have "allocation_ok sha w (h_object_id h) a"
      using inv map_of_SomeD [OF conjunct1 [OF mem]] by (auto simp: shared_inv_def split: prod.splits)
    then have "w_payloads w (h_object_id h) \<noteq> None"
      by (auto simp: allocation_ok_def)
    then have "gone (h_object_id h) (w\<lparr>w_state := st\<rparr>)"
      using b(2) mem by (simp add: gone_def reclaim_def map_of_delete)
    then have "isl (resolve h (fst (w_state w')))" if "(shared_step sha)\<^sup>*\<^sup>* (w\<lparr>w_state := st\<rparr>) w'" for w'
      using gone_resolve gone_run that by blast
    moreover have "snd st (h_name h) = None"
      using b(2) mem by simp
    ultimately show ?thesis
      using a b(1) True by auto
  next
    case False
    then have "al_leases a - {worker} \<noteq> {}"
      by blast
    then have "\<not> b" "st = ((fst (w_state w))\<lparr>sh_allocations := AList.update (h_object_id h) (a\<lparr>al_leases := al_leases a - {worker}\<rparr>)
        (sh_allocations (fst (w_state w)))\<rparr>, snd (w_state w))"
      using r a by (simp_all add: release_lease_def Let_def)
    then show ?thesis
      using a mem False by (auto simp: resolve_def map_of_update)
  qed
qed

theorem leases_keep_objects_witness:
  "\<exists>st. release_lease sample_handle [97] (w_state sample_world) = (Inr True, st) \<and> snd st (h_name sample_handle) = None"
proof -
  have "release_lease sample_handle [97] (w_state sample_world) = (Inr True, reclaim \<lparr>al_handle = sample_handle, al_leases = {[97]}\<rparr> (w_state sample_world))"
    by (rule release_last) (simp_all add: sample_world_def resolve_def sample_handle_def)
  from this leases_keep_objects [OF sample_starts sample_run this] show ?thesis
    by (metis (full_types))
qed

text \<open>C27. Verified reads. A read that checks the digest returns as many bytes as were stored under the handle, with their digest,
  whatever the workers wrote to the segment; with no two payloads of one digest it returns the very bytes that were stored.\<close>

theorem verified_reads:
  assumes "shared_start base w0" and "(shared_step sha)\<^sup>*\<^sup>* w0 w" and r: "read_object sha h True (w_state w) = Inr p"
  shows "\<exists>q. w_payloads w (h_object_id h) = Some q \<and> length p = length q \<and> sha p = sha q \<and> (inj sha \<longrightarrow> p = q)"
proof -
  have inv: "shared_inv sha base w"
    using shared.invar_steps [OF assms(2) inv_start [OF assms(1)]] .
  obtain a seg where a: "resolve h (fst (w_state w)) = Inr a" "snd (w_state w) (h_name (al_handle a)) = Some seg"
    "p = take (nat (h_byte_size (al_handle a))) seg" "sha p = h_checksum h"
    using r by (auto simp: read_object_def rbind_Inr_iff Let_def split: option.splits)
  have "allocation_ok sha w (h_object_id h) a"
    using inv map_of_SomeD [OF conjunct1 [OF resolve_mem [OF a(1)]]] by (auto simp: shared_inv_def split: prod.splits)
  then show ?thesis
    using a resolve_mem [OF a(1)] by (auto simp: allocation_ok_def dest: injD)
qed

theorem verified_reads_witness:
  "\<exists>q. w_payloads sample_world (h_object_id sample_handle) = Some q \<and> length [1, 2 :: 8 word] = length q"
proof -
  have "read_object sample_sha sample_handle True (w_state sample_world) = Inr [1, 2]"
    by (simp add: read_object_def resolve_def sample_world_def sample_handle_def sample_sha_def)
  from verified_reads [OF sample_starts sample_run this] show ?thesis
    by blast
qed

text \<open>
  A dead worker's leases on the objects of others stay: revoking its objects does not touch them, so the
  last worker that is alive and releases such an object does not reclaim it.
\<close>

theorem dead_lease_remains:
  assumes "shared_start base w0" and "(shared_step sha)\<^sup>*\<^sup>* w0 w" and a: "resolve h (fst (w_state w)) = Inr a"
    and dead: "dead \<in> al_leases a" "h_owner h \<noteq> dead" "worker \<noteq> dead"
    and c: "cleanup_owner dead (w_state w) = (n, st)"
  shows "resolve h (fst st) = Inr a \<and> fst (release_lease h worker st) = Inr False"
proof -
  have inv: "shared_inv sha base w"
    using shared.invar_steps [OF assms(2) inv_start [OF assms(1)]] .
  then have wf: "wf_dict (sh_allocations (fst (w_state w)))"
    by (auto simp: shared_inv_def split: prod.splits)
  have "sh_allocations (fst st) = [(k, a) \<leftarrow> sh_allocations (fst (w_state w)). h_owner (al_handle a) \<noteq> dead]"
    using others_left [OF inv, of dead] c by simp
  moreover have "(h_object_id h, a) \<in> set (sh_allocations (fst (w_state w)))" "al_handle a = h"
    using resolve_mem [OF a] by (auto dest: map_of_SomeD)
  ultimately have "map_of (sh_allocations (fst st)) (h_object_id h) = Some a"
    using wf dead(2) by (intro map_of_is_SomeI) (auto simp: distinct_map_filter case_prod_unfold)
  then have "resolve h (fst st) = Inr a"
    using \<open>al_handle a = h\<close> by (simp add: resolve_def)
  moreover have "al_leases a - {worker} \<noteq> {}"
    using dead by blast
  ultimately show ?thesis
    by (simp add: release_lease_def Let_def)
qed

end
