(* ===== verification/Supervisor.thy ===== *)
theory Supervisor
  imports SharedObjects
begin

text \<open>
  workers/supervisor.py: the record of a supervised worker and everything that happens to it. The blocks
  that hold the record's condition are functions on the record and the transports; what the threads do
  between them (the monitor, the requests, those who stop the worker) are the counters of the step
  relation. A send is a blocking write under the condition: while it lasts, no block of another thread runs.
  Processes and pipes are the world: a transport says whether its process is alive, and the steps choose
  what arrives, and when a write ends or fails, if ever.
\<close>

section \<open>Errors and records\<close>

datatype reason = StartupFailed | StartupTimeout | IpcFailure | SendFailed | CancelFailed | Exited | HeartbeatTimeout
  | ExecutionTimeout rat | RestartFailed reason

datatype supervisor_error = Unavailable string | Exists | Busy | Crashed reason | TimedOut rat | Cancelled ustr
  | CircuitOpen | Remote ustr ustr ustr | Frame worker_error | BadValue string

datatype outcome = ResultOf json | ErrorOf supervisor_error | CancelledOf supervisor_error

record transport =
  tr_pid :: int
  tr_start_method :: ustr
  tr_process_group :: "int option"
  tr_alive :: bool

type_synonym transports = "(nat, transport) dict"

record 'p wrecord =
  wr_spec :: "'p worker_spec"
  wr_transport :: "nat option"
  wr_watchdog :: "watchdog option"
  wr_status :: string
  wr_ready :: bool
  wr_circuit_open :: bool
  wr_stop_requested :: bool
  wr_generation :: int
  wr_restart_count :: int
  wr_restart_times :: "rat list"
  wr_pending :: "ustr set"
  wr_outcomes :: "(ustr, outcome) dict"
  wr_forced :: "reason option"
  wr_last_error :: "reason option"

type_synonym 'p guarded = "'p wrecord \<times> transports"

definition new_record :: "'p worker_spec \<Rightarrow> 'p wrecord" where
  "new_record sp = \<lparr>wr_spec = sp, wr_transport = None, wr_watchdog = None, wr_status = ''starting'', wr_ready = False,
     wr_circuit_open = False, wr_stop_requested = False, wr_generation = 0, wr_restart_count = 0, wr_restart_times = [],
     wr_pending = {}, wr_outcomes = [], wr_forced = None, wr_last_error = None\<rparr>"

text \<open>
  The supervisor's table of workers: \<open>start\<close> refuses a closed supervisor and a worker that is not stopped,
  and forgets the record of one that did not come up; \<open>close\<close> stops each of them once.
\<close>

definition register_worker :: "bool \<Rightarrow> 'p worker_spec \<Rightarrow> (ustr, 'p wrecord) dict \<Rightarrow> (supervisor_error + 'p wrecord) \<times> (ustr, 'p wrecord) dict" where
  "register_worker is_closed sp table =
     (if is_closed then (Inl (Unavailable ''worker supervisor is closed''), table)
      else if (\<exists>r. map_of table (ws_worker_id sp) = Some r \<and> wr_status r \<noteq> ''stopped'') then (Inl Exists, table)
      else (Inr (new_record sp), AList.update (ws_worker_id sp) (new_record sp) table))"

definition forget_worker :: "ustr \<Rightarrow> (ustr, 'p wrecord) dict \<Rightarrow> (ustr, 'p wrecord) dict" where
  "forget_worker wid table = AList.delete wid table"

definition get_record :: "ustr \<Rightarrow> (ustr, 'p wrecord) dict \<Rightarrow> supervisor_error + 'p wrecord" where
  "get_record wid table = (case map_of table wid of None \<Rightarrow> Inl (Unavailable ''unknown worker'') | Some r \<Rightarrow> Inr r)"

definition workers_to_stop :: "bool \<Rightarrow> (ustr, 'p wrecord) dict \<Rightarrow> ustr list" where
  "workers_to_stop is_closed table = (if is_closed then [] else dkeys table)"

section \<open>Events from the worker\<close>

definition truthy :: "json option \<Rightarrow> bool" where
  "truthy v = (case v of None \<Rightarrow> False | Some JNull \<Rightarrow> False | Some (JBool b) \<Rightarrow> b | Some (JInt i) \<Rightarrow> i \<noteq> 0
     | Some (JFloat x) \<Rightarrow> x \<noteq> 0 | Some (JStr s) \<Rightarrow> s \<noteq> [] | Some (JArr xs) \<Rightarrow> xs \<noteq> [] | Some (JObj ms) \<Rightarrow> ms \<noteq> [])"

text \<open>\<open>str(payload.get(key, default))\<close>; \<open>repr\<close> is the text of a value that is no string.\<close>

definition text_or :: "(json \<Rightarrow> ustr) \<Rightarrow> (ustr \<times> json) list \<Rightarrow> string \<Rightarrow> string \<Rightarrow> ustr" where
  "text_or repr p key dflt = (case member p key of None \<Rightarrow> ustr dflt | Some (JStr s) \<Rightarrow> s | Some j \<Rightarrow> repr j)"

definition settle_command :: "ustr \<Rightarrow> outcome \<Rightarrow> 'p wrecord \<Rightarrow> 'p wrecord" where
  "settle_command cid out r = r\<lparr>wr_outcomes := AList.update cid out (wr_outcomes r), wr_pending := wr_pending r - {cid},
     wr_status := if wr_ready r then ''ready'' else wr_status r\<rparr>"

definition settle_event :: "ustr option \<Rightarrow> (ustr \<Rightarrow> outcome) \<Rightarrow> 'p wrecord \<Rightarrow> 'p wrecord" where
  "settle_event cid out r = (case cid of None \<Rightarrow> r | Some c \<Rightarrow> settle_command c (out c) r)"

definition started_group :: "int \<Rightarrow> json option \<Rightarrow> transport \<Rightarrow> transport" where
  "started_group pid grp t = (if grp = Some (JInt pid) then t\<lparr>tr_process_group := Some pid\<rparr> else t)"

definition consume_event :: "(json \<Rightarrow> ustr) \<Rightarrow> rat \<Rightarrow> worker_event \<Rightarrow> 'p guarded \<Rightarrow> (supervisor_error + unit) \<times> 'p guarded" where
  "consume_event repr now e g = (case g of (r, ts) \<Rightarrow>
     if we_worker_id e \<noteq> ws_worker_id (wr_spec r) then (Inl (BadValue ''worker event identity mismatch''), g)
     else let r = r\<lparr>wr_watchdog := map_option (\<lambda>w. wd_observe w now) (wr_watchdog r)\<rparr>; p = we_payload e in
     (case we_kind e of
       EVT_STARTED \<Rightarrow> (case wr_transport r of None \<Rightarrow> (Inr (), (r, ts))
         | Some tid \<Rightarrow> (case map_of ts tid of None \<Rightarrow> (Inr (), (r, ts))
           | Some t \<Rightarrow> if member p ''pid'' \<noteq> Some (JInt (tr_pid t)) then (Inl (BadValue ''worker reported an invalid PID''), (r, ts))
               else (Inr (), (r, AList.update tid (started_group (tr_pid t) (member p ''process_group'') t) ts))))
     | EVT_READY \<Rightarrow> (Inr (), (r\<lparr>wr_status := ''ready'', wr_ready := True\<rparr>, ts))
     | EVT_HEARTBEAT \<Rightarrow> (Inr (), (if wr_ready r then r\<lparr>wr_status := if truthy (member p ''busy'') then ''busy'' else ''ready''\<rparr> else r, ts))
     | EVT_RESULT \<Rightarrow> (Inr (), (settle_event (we_command_id e) (\<lambda>_. ResultOf (case member p ''result'' of None \<Rightarrow> JNull | Some j \<Rightarrow> j)) r, ts))
     | EVT_UNLOADED \<Rightarrow> (Inr (), (settle_event (we_command_id e) (\<lambda>_. ResultOf (case member p ''result'' of None \<Rightarrow> JNull | Some j \<Rightarrow> j)) r, ts))
     | EVT_ERROR \<Rightarrow> (Inr (), (settle_event (we_command_id e) (\<lambda>_. ErrorOf (Remote (text_or repr p ''error_type'' ''RemoteError'')
         (text_or repr p ''message'' ''worker execution failed'') (text_or repr p ''traceback'' ''''))) r, ts))
     | EVT_CANCELLED \<Rightarrow> (Inr (), (settle_event (we_command_id e) (\<lambda>c. CancelledOf (Cancelled c)) r, ts))
     | EVT_STOPPING \<Rightarrow> (Inr (), (r\<lparr>wr_status := ''stopping'', wr_ready := False\<rparr>, ts))
     | EVT_STOPPED \<Rightarrow> (Inr (), (r\<lparr>wr_status := ''stopped'', wr_ready := False\<rparr>, ts))))"

section \<open>Starting and recovering\<close>

definition install :: "nat \<Rightarrow> rat \<Rightarrow> 'p wrecord \<Rightarrow> 'p wrecord" where
  "install tid now r = r\<lparr>wr_transport := Some tid, wr_generation := wr_generation r + 1, wr_status := ''starting'', wr_ready := False,
     wr_watchdog := Some \<lparr>wd_timeout = ws_heartbeat_timeout (wr_spec r), wd_last_seen = now\<rparr>\<rparr>"

definition startup_error :: "worker_event \<Rightarrow> bool" where
  "startup_error e = (we_kind e = EVT_ERROR \<and> we_command_id e = None \<and> member (we_payload e) ''phase'' = Some (JStr (ustr ''startup'')))"

definition fail_record :: "nat \<Rightarrow> reason \<Rightarrow> 'p wrecord \<Rightarrow> 'p wrecord option" where
  "fail_record tid why r = (if wr_transport r \<noteq> Some tid \<or> wr_stop_requested r then None
     else Some (r\<lparr>wr_status := ''failed'', wr_ready := False, wr_last_error := Some why\<rparr>))"

definition terminate_tree :: "nat \<Rightarrow> transports \<Rightarrow> transports" where
  "terminate_tree tid ts = (case map_of ts tid of None \<Rightarrow> ts | Some t \<Rightarrow> AList.update tid (t\<lparr>tr_alive := False\<rparr>) ts)"

definition fail_pending :: "supervisor_error \<Rightarrow> 'p wrecord \<Rightarrow> 'p wrecord" where
  "fail_pending err r = r\<lparr>wr_outcomes := fold (\<lambda>c. AList.update c (ErrorOf err)) (sorted_list_of_set (wr_pending r)) (wr_outcomes r),
     wr_pending := {}\<rparr>"

definition outside_window :: "rat \<Rightarrow> 'p wrecord \<Rightarrow> rat \<Rightarrow> bool" where
  "outside_window now r t = pf_less (ws_restart_window (wr_spec r)) (Finite (now - t))"

definition open_circuit :: "'p wrecord \<Rightarrow> 'p wrecord" where
  "open_circuit r = r\<lparr>wr_circuit_open := True, wr_status := ''circuit_open'', wr_transport := None\<rparr>"

text \<open>The second half of \<open>_recover\<close>: whether the worker is to be started again, and the record.\<close>

definition decide_restart :: "reason \<Rightarrow> rat \<Rightarrow> 'p wrecord \<Rightarrow> bool \<times> 'p wrecord" where
  "decide_restart why now r = (let r = fail_pending (Crashed why) r;
       times = dropWhile (outside_window now r) (wr_restart_times r); r = r\<lparr>wr_restart_times := times\<rparr> in
     if ws_restart_limit (wr_spec r) \<le> int (length times) then (False, open_circuit r)
     else (True, r\<lparr>wr_restart_times := times @ [now], wr_restart_count := wr_restart_count r + 1, wr_status := ''restarting'', wr_transport := None\<rparr>))"

definition restart_failed :: "reason \<Rightarrow> 'p wrecord \<Rightarrow> 'p wrecord" where
  "restart_failed why r = (open_circuit r)\<lparr>wr_last_error := Some (RestartFailed why)\<rparr>"

section \<open>Requests\<close>

definition make_command :: "ustr \<Rightarrow> command_kind \<Rightarrow> ustr option \<Rightarrow> (ustr \<times> json) list \<Rightarrow> ustr option \<Rightarrow> worker_error + worker_command" where
  "make_command cid k op p target = command_post_init
     \<lparr>wc_command_id = cid, wc_kind = k, wc_operation = op, wc_payload = p, wc_target = target\<rparr>"

definition execute_command :: "ustr \<Rightarrow> ustr \<Rightarrow> (ustr \<times> json) list \<Rightarrow> supervisor_error + worker_command" where
  "execute_command cid operation p = rbind (guard_or (operation \<noteq> []) (BadValue ''operation must not be empty'')) (\<lambda>_.
     case make_command cid CMD_EXECUTE (Some operation) p None of Inl e \<Rightarrow> Inl (Frame e) | Inr c \<Rightarrow> Inr c)"

definition unload_command :: "ustr \<Rightarrow> supervisor_error + worker_command" where
  "unload_command cid = (case make_command cid CMD_UNLOAD None [] None of Inl e \<Rightarrow> Inl (Frame e) | Inr c \<Rightarrow> Inr c)"

text \<open>The timeout of a request, 30 seconds when none is given, and the record's state while it may still wait.\<close>

definition operation_timeout :: "rat option \<Rightarrow> supervisor_error + rat" where
  "operation_timeout timeout = (let t = (case timeout of None \<Rightarrow> 30 | Some t \<Rightarrow> t) in
     rbind (guard_or (0 < t) (BadValue ''timeout must be positive'')) (\<lambda>_. Inr t))"

definition still_starting :: "'p wrecord \<Rightarrow> bool" where
  "still_starting r = (\<not> wr_ready r \<and> wr_status r \<in> {''starting'', ''restarting''})"

text \<open>
  \<open>transport.send\<close> makes the frame and writes it to the pipe. A frame that cannot be made raises a \<open>ValueError\<close>,
  which nobody catches. The write blocks until the pipe has taken the frame, or fails with an \<open>OSError\<close>;
  all the while the thread holds the record's condition. So a block that sends is in two parts: up to the
  write, here, and from its end on, \<open>send_failed\<close> when it has failed.
\<close>

definition admit_request :: "(json \<Rightarrow> bytes option) \<Rightarrow> worker_command \<Rightarrow> 'p wrecord \<Rightarrow> (supervisor_error + nat) \<times> 'p wrecord" where
  "admit_request pack c r =
     (if wr_circuit_open r then (Inl CircuitOpen, r)
      else case (if wr_ready r then wr_transport r else None) of None \<Rightarrow> (Inl (Unavailable (wr_status r)), r)
      | Some tid \<Rightarrow>
        if wr_pending r \<noteq> {} then (Inl Busy, r)
        else let r = r\<lparr>wr_pending := insert (wc_command_id c) (wr_pending r), wr_status := ''busy''\<rparr> in
          (case encode_frame pack command_class c of Inl e \<Rightarrow> (Inl (Frame e), r) | Inr _ \<Rightarrow> (Inr tid, r)))"

definition send_failed :: "ustr \<Rightarrow> 'p wrecord \<Rightarrow> 'p wrecord" where
  "send_failed cid r = r\<lparr>wr_pending := wr_pending r - {cid}, wr_forced := Some SendFailed\<rparr>"

fun answer :: "outcome \<Rightarrow> supervisor_error + json" where
  "answer (ResultOf j) = Inr j"
| "answer (ErrorOf e) = Inl e"
| "answer (CancelledOf e) = Inl e"

definition collect_outcome :: "ustr \<Rightarrow> 'p wrecord \<Rightarrow> ((supervisor_error + json) \<times> 'p wrecord) option" where
  "collect_outcome cid r = (case map_of (wr_outcomes r) cid of None \<Rightarrow> None
     | Some v \<Rightarrow> Some (answer v, r\<lparr>wr_outcomes := AList.delete cid (wr_outcomes r)\<rparr>))"

definition abandon_request :: "ustr \<Rightarrow> rat \<Rightarrow> 'p wrecord \<Rightarrow> 'p wrecord" where
  "abandon_request cid t r = r\<lparr>wr_outcomes := AList.delete cid (wr_outcomes r), wr_pending := wr_pending r - {cid},
     wr_forced := Some (ExecutionTimeout t)\<rparr>"

definition cancel_command :: "ustr \<Rightarrow> ustr \<Rightarrow> worker_error + worker_command" where
  "cancel_command cid target = make_command cid CMD_CANCEL None [] (Some target)"

text \<open>
  \<open>cancel\<close>: of some command that is pending; the target is an element of the set. Nothing is sent when
  nothing is pending; else the transport to send to.
\<close>

definition cancel_worker :: "(json \<Rightarrow> bytes option) \<Rightarrow> ustr \<Rightarrow> ustr \<Rightarrow> 'p wrecord \<Rightarrow> supervisor_error + nat option" where
  "cancel_worker pack cid target r =
     (if wr_pending r = {} then Inr None
      else case (if wr_ready r then wr_transport r else None) of None \<Rightarrow> Inl (Unavailable (wr_status r))
      | Some tid \<Rightarrow> (case cancel_command cid target of Inl e \<Rightarrow> Inl (Frame e)
        | Inr c \<Rightarrow> (case encode_frame pack command_class c of Inl e \<Rightarrow> Inl (Frame e) | Inr _ \<Rightarrow> Inr (Some tid))))"

definition cancel_failed :: "'p wrecord \<Rightarrow> 'p wrecord" where
  "cancel_failed r = r\<lparr>wr_forced := Some CancelFailed\<rparr>"

section \<open>Stopping\<close>

definition shutdown_command :: "ustr \<Rightarrow> worker_error + worker_command" where
  "shutdown_command cid = make_command cid CMD_SHUTDOWN None [] None"

definition begin_stop :: "'p wrecord \<Rightarrow> 'p wrecord" where
  "begin_stop r = r\<lparr>wr_stop_requested := True, wr_ready := False, wr_status := ''stopping''\<rparr>"

definition finish_stop :: "'p wrecord \<Rightarrow> 'p wrecord" where
  "finish_stop r = (fail_pending (Unavailable ''stopped'') r)\<lparr>wr_transport := None, wr_status := ''stopped''\<rparr>"

section \<open>Snapshots\<close>

record snapshot =
  sn_worker_id :: ustr
  sn_kind :: worker_kind
  sn_status :: string
  sn_pid :: int
  sn_start_method :: ustr
  sn_ready :: bool
  sn_busy :: bool
  sn_circuit_open :: bool
  sn_generation :: int
  sn_restart_count :: int
  sn_last_heartbeat :: rat
  sn_last_error :: "reason option"

definition take_snapshot :: "'p guarded \<Rightarrow> snapshot" where
  "take_snapshot g = (case g of (r, ts) \<Rightarrow> let t = Option.bind (wr_transport r) (map_of ts) in
     \<lparr>sn_worker_id = ws_worker_id (wr_spec r), sn_kind = ws_kind (wr_spec r), sn_status = wr_status r,
      sn_pid = (case t of None \<Rightarrow> 0 | Some t \<Rightarrow> tr_pid t), sn_start_method = (case t of None \<Rightarrow> [] | Some t \<Rightarrow> tr_start_method t),
      sn_ready = wr_ready r, sn_busy = (wr_pending r \<noteq> {}), sn_circuit_open = wr_circuit_open r, sn_generation = wr_generation r,
      sn_restart_count = wr_restart_count r, sn_last_heartbeat = (case wr_watchdog r of None \<Rightarrow> 0 | Some w \<Rightarrow> wd_last_seen w),
      sn_last_error = wr_last_error r\<rparr>)"

section \<open>The threads\<close>

text \<open>
  The monitor: starting a process (for \<open>start\<close> itself when the flag is set, else to recover), at the
  head of its loop, and between the blocks of one round. A request waits for the worker to be ready, is in
  the write of its command, waits for its outcome, is in the write of a cancellation, or waits for that to be
  obeyed. A thread in \<open>stop\<close> is about to terminate the process, to wait for the monitor, or to close the
  record. Whoever is in a write holds the record's condition.
\<close>

datatype monitor_pc = Spawn bool | Starting bool nat rat | SpawnFailed bool nat reason | SpawnKilled bool reason | Head | Poll nat | Check nat | Beat nat
  | Fail nat reason | Kill nat reason | Clean reason | Decide reason | Ended | Rejected

datatype request_pc = AwaitReady worker_command rat rat | Sending nat rat | AwaitOutcome nat rat rat | SendingCancel nat rat
  | AwaitCancel rat rat

datatype stop_pc = StopKill "nat option" | StopJoin rat | StopClean | StopClose

datatype sender = ByRequest ustr | ByCancel | ByStop

record 'p wstate =
  wst_record :: "'p wrecord"
  wst_transports :: transports
  wst_now :: rat
  wst_monitor :: monitor_pc
  wst_requests :: "ustr \<rightharpoonup> request_pc"
  wst_stops :: "stop_pc list"
  wst_sending :: "(nat \<times> sender) option"
  wst_shared :: shared_state
  wst_used :: "ustr set"
  wst_restarts :: "rat list"
  wst_reports :: "worker_event list"
  wst_answers :: "ustr \<rightharpoonup> supervisor_error + json"

text \<open>
  A process object that another thread has closed raises \<open>ValueError\<close> when it is asked anything: the monitor
  dies of it when a stop was faster (\<open>monitor_raises\<close>), and a stop when the monitor was (\<open>stop_raises\<close>).
  \<open>wst_sending\<close> is the write that is going on, to which transport and for whom; the record's condition is free
  when there is none. The last four fields are history: the identifiers used, the times of the restarts, the events consumed
  and what each request returned or raised. \<open>seconds\<close> is the value of a timeout of the specification.
\<close>

definition seconds :: "pyfloat \<Rightarrow> rat" where
  "seconds v = (case v of Finite x \<Rightarrow> x | _ \<Rightarrow> 0)"

definition start_supervision :: "'p worker_spec \<Rightarrow> rat \<Rightarrow> shared_state \<Rightarrow> 'p wstate" where
  "start_supervision sp now st = \<lparr>wst_record = new_record sp, wst_transports = [], wst_now = now, wst_monitor = Spawn True,
     wst_requests = Map.empty, wst_stops = [], wst_sending = None, wst_shared = st, wst_used = {}, wst_restarts = [], wst_reports = [], wst_answers = Map.empty\<rparr>"

abbreviation the_spec :: "'p wstate \<Rightarrow> 'p worker_spec" where
  "the_spec s \<equiv> wr_spec (wst_record s)"

abbreviation free :: "'p wstate \<Rightarrow> bool" where
  "free s \<equiv> wst_sending s = None"

definition on_record :: "('p wrecord \<Rightarrow> 'p wrecord) \<Rightarrow> monitor_pc \<Rightarrow> 'p wstate \<Rightarrow> 'p wstate" where
  "on_record f pc s = s\<lparr>wst_record := f (wst_record s), wst_monitor := pc\<rparr>"

text \<open>\<open>_spawn\<close> has raised: \<open>start\<close> passes the exception on, \<open>_recover\<close> opens the circuit.\<close>

definition spawn_raised :: "bool \<Rightarrow> reason \<Rightarrow> 'p wstate \<Rightarrow> 'p wstate" where
  "spawn_raised initial why s = (if initial then on_record id Rejected s else on_record (restart_failed why) Head s)"

definition receive_event :: "(json \<Rightarrow> ustr) \<Rightarrow> worker_event \<Rightarrow> (supervisor_error + unit \<Rightarrow> monitor_pc) \<Rightarrow> 'p wstate \<Rightarrow> 'p wstate" where
  "receive_event repr e pc s = (case consume_event repr (wst_now s) e (wst_record s, wst_transports s) of (res, r, ts) \<Rightarrow>
     s\<lparr>wst_record := r, wst_transports := ts, wst_monitor := pc res, wst_reports := wst_reports s @ [e]\<rparr>)"

definition starting_event :: "(json \<Rightarrow> ustr) \<Rightarrow> bool \<Rightarrow> nat \<Rightarrow> rat \<Rightarrow> worker_event \<Rightarrow> 'p wstate \<Rightarrow> 'p wstate" where
  "starting_event repr initial tid deadline e s = (if startup_error e then on_record id (SpawnFailed initial tid StartupFailed) s
     else receive_event repr e (\<lambda>res. case res of Inl _ \<Rightarrow> SpawnFailed initial tid IpcFailure
       | Inr _ \<Rightarrow> if we_kind e = EVT_READY then Head else Starting initial tid deadline) s)"

definition alive :: "nat \<Rightarrow> 'p wstate \<Rightarrow> bool" where
  "alive tid s = (\<exists>t. map_of (wst_transports s) tid = Some t \<and> tr_alive t)"

definition head_round :: "'p wstate \<Rightarrow> 'p wstate" where
  "head_round s = (let r = wst_record s in
     if wr_stop_requested r then on_record id Ended s
     else on_record (\<lambda>r. r\<lparr>wr_forced := None\<rparr>) (case wr_transport r of None \<Rightarrow> Ended
       | Some tid \<Rightarrow> (case wr_forced r of None \<Rightarrow> Poll tid | Some why \<Rightarrow> Fail tid why)) s)"

definition overdue :: "nat \<Rightarrow> 'p wstate \<Rightarrow> bool" where
  "overdue tid s = (let r = wst_record s in wr_ready r \<and> wr_transport r = Some tid
     \<and> (case wr_watchdog r of None \<Rightarrow> False | Some w \<Rightarrow> wd_expired w (wst_now s)))"

definition fail_round :: "nat \<Rightarrow> reason \<Rightarrow> 'p wstate \<Rightarrow> 'p wstate" where
  "fail_round tid why s = (case fail_record tid why (wst_record s) of None \<Rightarrow> on_record id Head s
     | Some r \<Rightarrow> on_record (\<lambda>_. r) (Kill tid why) s)"

definition decide_round :: "reason \<Rightarrow> 'p wstate \<Rightarrow> 'p wstate" where
  "decide_round why s = (case decide_restart why (wst_now s) (wst_record s) of
     (True, r) \<Rightarrow> (on_record (\<lambda>_. r) (Spawn False) s)\<lparr>wst_restarts := wst_restarts s @ [wst_now s]\<rparr>
   | (False, r) \<Rightarrow> on_record (\<lambda>_. r) Head s)"

definition answered :: "ustr \<Rightarrow> supervisor_error + json \<Rightarrow> 'p wrecord \<Rightarrow> 'p wstate \<Rightarrow> 'p wstate" where
  "answered cid v r s = s\<lparr>wst_record := r, wst_requests := (wst_requests s)(cid := None), wst_answers := (wst_answers s)(cid \<mapsto> v)\<rparr>"

definition admit_step :: "(json \<Rightarrow> bytes option) \<Rightarrow> ustr \<Rightarrow> worker_command \<Rightarrow> rat \<Rightarrow> 'p wstate \<Rightarrow> 'p wstate" where
  "admit_step pack cid c d s = (case admit_request pack c (wst_record s) of
     (Inl e, r) \<Rightarrow> answered cid (Inl e) r s
   | (Inr tid, r) \<Rightarrow> s\<lparr>wst_record := r, wst_sending := Some (tid, ByRequest cid), wst_requests := (wst_requests s)(cid \<mapsto> Sending tid d)\<rparr>)"

text \<open>The write of the command has ended, or has failed.\<close>

definition sent_step :: "ustr \<Rightarrow> nat \<Rightarrow> rat \<Rightarrow> 'p wstate \<Rightarrow> 'p wstate" where
  "sent_step cid tid d s = s\<lparr>wst_sending := None, wst_requests := (wst_requests s)(cid \<mapsto> AwaitOutcome tid (wst_now s + d) d)\<rparr>"

definition unsent_step :: "ustr \<Rightarrow> 'p wstate \<Rightarrow> 'p wstate" where
  "unsent_step cid s = (answered cid (Inl (Crashed SendFailed)) (send_failed cid (wst_record s)) s)\<lparr>wst_sending := None\<rparr>"

definition timeout_step :: "(json \<Rightarrow> bytes option) \<Rightarrow> ustr \<Rightarrow> ustr \<Rightarrow> nat \<Rightarrow> rat \<Rightarrow> 'p wstate \<Rightarrow> 'p wstate" where
  "timeout_step pack k cid tid d s = (case cancel_command k cid of Inl e \<Rightarrow> answered cid (Inl (Frame e)) (wst_record s) s
     | Inr c \<Rightarrow> (case encode_frame pack command_class c of Inl e \<Rightarrow> answered cid (Inl (Frame e)) (wst_record s) s
       | Inr _ \<Rightarrow> s\<lparr>wst_sending := Some (tid, ByRequest cid), wst_requests := (wst_requests s)(cid \<mapsto> SendingCancel tid d),
           wst_used := insert k (wst_used s)\<rparr>))"

text \<open>The write of the cancellation has ended; that it has failed makes no difference.\<close>

definition grace_step :: "ustr \<Rightarrow> rat \<Rightarrow> 'p wstate \<Rightarrow> 'p wstate" where
  "grace_step cid d s = s\<lparr>wst_sending := None,
     wst_requests := (wst_requests s)(cid \<mapsto> AwaitCancel (wst_now s + seconds (ws_cancellation_grace (the_spec s))) d)\<rparr>"

definition cancel_step :: "(json \<Rightarrow> bytes option) \<Rightarrow> ustr \<Rightarrow> ustr \<Rightarrow> 'p wstate \<Rightarrow> 'p wstate" where
  "cancel_step pack k target s = s\<lparr>wst_used := insert k (wst_used s), wst_sending := (case cancel_worker pack k target (wst_record s) of
     Inr (Some tid) \<Rightarrow> Some (tid, ByCancel) | _ \<Rightarrow> None)\<rparr>"

text \<open>
  The first block of \<open>stop\<close>: a live process is sent a SHUTDOWN command; a frame that cannot be made raises out
  of \<open>stop\<close>, a write that fails is passed over.
\<close>

definition stop_step :: "(json \<Rightarrow> bytes option) \<Rightarrow> ustr \<Rightarrow> 'p wstate \<Rightarrow> 'p wstate" where
  "stop_step pack k s = (let s' = s\<lparr>wst_record := begin_stop (wst_record s), wst_used := insert k (wst_used s)\<rparr>;
       go = s'\<lparr>wst_stops := wst_stops s @ [StopKill (wr_transport (wst_record s))]\<rparr> in
     case wr_transport (wst_record s) of None \<Rightarrow> go
     | Some tid \<Rightarrow> if \<not> alive tid s then go
         else (case rbind (shutdown_command k) (encode_frame pack command_class) of Inl e \<Rightarrow> s'
           | Inr _ \<Rightarrow> s'\<lparr>wst_sending := Some (tid, ByStop)\<rparr>))"

definition kill_process :: "nat option \<Rightarrow> 'p wstate \<Rightarrow> 'p wstate" where
  "kill_process tid s = s\<lparr>wst_transports := (case tid of None \<Rightarrow> wst_transports s | Some t \<Rightarrow> terminate_tree t (wst_transports s))\<rparr>"

definition clean_shared :: "'p wstate \<Rightarrow> 'p wstate" where
  "clean_shared s = s\<lparr>wst_shared := snd (cleanup_owner (ws_worker_id (the_spec s)) (wst_shared s))\<rparr>"

definition monitor_gone :: "'p wstate \<Rightarrow> bool" where
  "monitor_gone s = (wst_monitor s \<in> {Ended, Rejected, Spawn True} \<or> (\<exists>t d w. wst_monitor s \<in> {Starting True t d, SpawnFailed True t w, SpawnKilled True w}))"

definition move_stop :: "nat \<Rightarrow> stop_pc \<Rightarrow> 'p wstate \<Rightarrow> 'p wstate" where
  "move_stop i pc s = s\<lparr>wst_stops := (wst_stops s)[i := pc]\<rparr>"

text \<open>
  A step of a thread that takes the record's condition needs it free; what a thread does without it - the
  clock, the process, the polls, the termination of a process, an event of another worker, which is refused
  before - goes on during a write.
\<close>

inductive sup_step :: "(json \<Rightarrow> bytes option) \<Rightarrow> (json \<Rightarrow> ustr) \<Rightarrow> 'p wstate \<Rightarrow> 'p wstate \<Rightarrow> bool" for pack repr where
  time_passes: "wst_now s \<le> t \<Longrightarrow> sup_step pack repr s (s\<lparr>wst_now := t\<rparr>)"
| process_dies: "sup_step pack repr s (kill_process (Some tid) s)"
| spawn_process: "free s \<Longrightarrow> wst_monitor s = Spawn b \<Longrightarrow> map_of (wst_transports s) tid = None \<Longrightarrow> sup_step pack repr s
     ((on_record (install tid (wst_now s)) (Starting b tid (wst_now s + seconds (ws_startup_timeout (the_spec s)))) s)
       \<lparr>wst_transports := AList.update tid \<lparr>tr_pid = pid, tr_start_method = m, tr_process_group = None, tr_alive = True\<rparr> (wst_transports s)\<rparr>)"
| spawn_refused: "b \<or> free s \<Longrightarrow> wst_monitor s = Spawn b \<Longrightarrow> sup_step pack repr s (spawn_raised b StartupFailed s)"
| start_event: "free s \<or> startup_error e \<or> we_worker_id e \<noteq> ws_worker_id (the_spec s) \<Longrightarrow> wst_monitor s = Starting b tid d \<Longrightarrow>
     sup_step pack repr s (starting_event repr b tid d e s)"
| start_broken: "wst_monitor s = Starting b tid d \<Longrightarrow> sup_step pack repr s (on_record id (SpawnFailed b tid IpcFailure) s)"
| start_exited: "wst_monitor s = Starting b tid d \<Longrightarrow> \<not> alive tid s \<Longrightarrow> sup_step pack repr s (on_record id (SpawnFailed b tid Exited) s)"
| start_late: "wst_monitor s = Starting b tid d \<Longrightarrow> d \<le> wst_now s \<Longrightarrow> sup_step pack repr s (on_record id (SpawnFailed b tid StartupTimeout) s)"
| spawn_kill: "wst_monitor s = SpawnFailed b tid why \<Longrightarrow> sup_step pack repr s (on_record id (SpawnKilled b why) (kill_process (Some tid) s))"
| spawn_failed: "b \<or> free s \<Longrightarrow> wst_monitor s = SpawnKilled b why \<Longrightarrow> sup_step pack repr s (spawn_raised b why s)"
| at_head: "free s \<Longrightarrow> wst_monitor s = Head \<Longrightarrow> sup_step pack repr s (head_round s)"
| poll_quiet: "wst_monitor s = Poll tid \<Longrightarrow> sup_step pack repr s (on_record id (Check tid) s)"
| poll_event: "free s \<or> we_worker_id e \<noteq> ws_worker_id (the_spec s) \<Longrightarrow> wst_monitor s = Poll tid \<Longrightarrow> sup_step pack repr s
     (receive_event repr e (\<lambda>res. case res of Inl _ \<Rightarrow> Fail tid IpcFailure | Inr _ \<Rightarrow> Check tid) s)"
| poll_broken: "wst_monitor s = Poll tid \<Longrightarrow> sup_step pack repr s (on_record id (Fail tid IpcFailure) s)"
| check_alive: "wst_monitor s = Check tid \<Longrightarrow> sup_step pack repr s (on_record id (if alive tid s then Beat tid else Fail tid Exited) s)"
| check_beat: "free s \<Longrightarrow> wst_monitor s = Beat tid \<Longrightarrow> sup_step pack repr s (on_record id (if overdue tid s then Fail tid HeartbeatTimeout else Head) s)"
| recover_fail: "free s \<Longrightarrow> wst_monitor s = Fail tid why \<Longrightarrow> sup_step pack repr s (fail_round tid why s)"
| recover_kill: "wst_monitor s = Kill tid why \<Longrightarrow> sup_step pack repr s (on_record id (Clean why) (kill_process (Some tid) s))"
| monitor_raises: "wst_monitor s = Check tid \<or> wst_monitor s = Kill tid why \<Longrightarrow> wr_stop_requested (wst_record s) \<Longrightarrow>
     sup_step pack repr s (on_record id Ended s)"
| recover_clean: "wst_monitor s = Clean why \<Longrightarrow> sup_step pack repr s (on_record id (Decide why) (clean_shared s))"
| recover_decide: "free s \<Longrightarrow> wst_monitor s = Decide why \<Longrightarrow> sup_step pack repr s (decide_round why s)"
| request: "cid \<notin> wst_used s \<Longrightarrow> wc_command_id c = cid \<Longrightarrow> execute_command cid op p = Inr c \<or> unload_command cid = Inr c \<Longrightarrow>
     operation_timeout timeout = Inr d \<Longrightarrow> sup_step pack repr s (s\<lparr>wst_used := insert cid (wst_used s),
       wst_requests := (wst_requests s)(cid \<mapsto> AwaitReady c (wst_now s + seconds (ws_startup_timeout (the_spec s))) d)\<rparr>)"
| ready_late: "free s \<Longrightarrow> wst_requests s cid = Some (AwaitReady c deadline d) \<Longrightarrow> still_starting (wst_record s) \<Longrightarrow> deadline \<le> wst_now s \<Longrightarrow>
     sup_step pack repr s (answered cid (Inl (Unavailable ''not ready'')) (wst_record s) s)"
| admit: "free s \<Longrightarrow> wst_requests s cid = Some (AwaitReady c deadline d) \<Longrightarrow> \<not> still_starting (wst_record s) \<Longrightarrow>
     sup_step pack repr s (admit_step pack cid c d s)"
| sent: "wst_requests s cid = Some (Sending tid d) \<Longrightarrow> sup_step pack repr s (sent_step cid tid d s)"
| unsent: "wst_requests s cid = Some (Sending tid d) \<Longrightarrow> sup_step pack repr s (unsent_step cid s)"
| collect: "free s \<Longrightarrow> wst_requests s cid = Some (AwaitOutcome tid deadline d) \<Longrightarrow> collect_outcome cid (wst_record s) = Some (v, r) \<Longrightarrow>
     sup_step pack repr s (answered cid v r s)"
| give_up: "free s \<Longrightarrow> wst_requests s cid = Some (AwaitOutcome tid deadline d) \<Longrightarrow> collect_outcome cid (wst_record s) = None \<Longrightarrow>
     deadline \<le> wst_now s \<Longrightarrow> k \<notin> wst_used s \<Longrightarrow> sup_step pack repr s (timeout_step pack k cid tid d s)"
| gave_up: "wst_requests s cid = Some (SendingCancel tid d) \<Longrightarrow> sup_step pack repr s (grace_step cid d s)"
| abandon: "free s \<Longrightarrow> wst_requests s cid = Some (AwaitCancel deadline d) \<Longrightarrow>
     deadline \<le> wst_now s \<or> collect_outcome cid (wst_record s) \<noteq> None \<Longrightarrow>
     sup_step pack repr s (answered cid (Inl (TimedOut d)) (abandon_request cid d (wst_record s)) s)"
| cancel: "free s \<Longrightarrow> k \<notin> wst_used s \<Longrightarrow> wr_pending (wst_record s) = {} \<or> target \<in> wr_pending (wst_record s) \<Longrightarrow>
     sup_step pack repr s (cancel_step pack k target s)"
| cancel_sent: "wst_sending s = Some (tid, ByCancel) \<Longrightarrow> sup_step pack repr s (s\<lparr>wst_sending := None\<rparr>)"
| cancel_unsent: "wst_sending s = Some (tid, ByCancel) \<Longrightarrow>
     sup_step pack repr s (s\<lparr>wst_sending := None, wst_record := cancel_failed (wst_record s)\<rparr>)"
| stop_begin: "free s \<Longrightarrow> wr_status (wst_record s) \<noteq> ''stopped'' \<Longrightarrow> k \<notin> wst_used s \<Longrightarrow> sup_step pack repr s (stop_step pack k s)"
| stop_refused: "free s \<Longrightarrow> wr_status (wst_record s) \<noteq> ''stopped'' \<Longrightarrow> wr_transport (wst_record s) = Some tid \<Longrightarrow> \<not> alive tid s \<Longrightarrow>
     sup_step pack repr s (s\<lparr>wst_record := begin_stop (wst_record s)\<rparr>)"
| stop_sent: "wst_sending s = Some (tid, ByStop) \<Longrightarrow> sup_step pack repr s
     (s\<lparr>wst_sending := None, wst_stops := wst_stops s @ [StopKill (Some tid)]\<rparr>)"
| stop_kill: "i < length (wst_stops s) \<Longrightarrow> wst_stops s ! i = StopKill t \<Longrightarrow> sup_step pack repr s
     (move_stop i (StopJoin (wst_now s + seconds (ws_shutdown_timeout (the_spec s)))) (kill_process t s))"
| stop_raises: "i < length (wst_stops s) \<Longrightarrow> wst_stops s ! i = StopKill (Some tid) \<Longrightarrow> \<not> alive tid s \<Longrightarrow>
     sup_step pack repr s (s\<lparr>wst_stops := take i (wst_stops s) @ drop (Suc i) (wst_stops s)\<rparr>)"
| stop_join: "i < length (wst_stops s) \<Longrightarrow> wst_stops s ! i = StopJoin deadline \<Longrightarrow> monitor_gone s \<or> deadline \<le> wst_now s \<Longrightarrow>
     sup_step pack repr s (move_stop i StopClean s)"
| stop_clean: "i < length (wst_stops s) \<Longrightarrow> wst_stops s ! i = StopClean \<Longrightarrow> sup_step pack repr s (move_stop i StopClose (clean_shared s))"
| stop_close: "free s \<Longrightarrow> i < length (wst_stops s) \<Longrightarrow> wst_stops s ! i = StopClose \<Longrightarrow> sup_step pack repr s
     (s\<lparr>wst_record := finish_stop (wst_record s), wst_stops := take i (wst_stops s) @ drop (Suc i) (wst_stops s)\<rparr>)"

end
