(* ===== verification/SupervisorSafety.thy ===== *)
theory SupervisorSafety
  imports Supervisor
begin

text \<open>
  What every step of a supervised worker keeps: the account of its requests, who is in a write, the circuit
  breaker, the budget of restarts, and the reports behind the answers; and that a write that does not end
  stops the record.
\<close>

declare map_of_eq_Some_iff [simp del]

section \<open>What the blocks leave alone\<close>

lemma settle_event_frame [simp]:
  "wr_spec (settle_event c out r) = wr_spec r" "wr_transport (settle_event c out r) = wr_transport r"
  "wr_ready (settle_event c out r) = wr_ready r" "wr_circuit_open (settle_event c out r) = wr_circuit_open r"
  "wr_stop_requested (settle_event c out r) = wr_stop_requested r" "wr_generation (settle_event c out r) = wr_generation r"
  "wr_restart_count (settle_event c out r) = wr_restart_count r" "wr_restart_times (settle_event c out r) = wr_restart_times r"
  by (simp_all add: settle_event_def settle_command_def split: option.splits)

text \<open>The record after an event.\<close>

abbreviation after_event :: "(json \<Rightarrow> ustr) \<Rightarrow> rat \<Rightarrow> worker_event \<Rightarrow> 'p guarded \<Rightarrow> 'p wrecord" where
  "after_event repr now e g \<equiv> fst (snd (consume_event repr now e g))"

lemmas event_splits = event_kind.split option.split if_split

lemma consume_frame [simp]:
  "wr_spec (after_event repr now e (r, ts)) = wr_spec r" "wr_transport (after_event repr now e (r, ts)) = wr_transport r"
  "wr_circuit_open (after_event repr now e (r, ts)) = wr_circuit_open r"
  "wr_stop_requested (after_event repr now e (r, ts)) = wr_stop_requested r"
  "wr_generation (after_event repr now e (r, ts)) = wr_generation r"
  "wr_restart_count (after_event repr now e (r, ts)) = wr_restart_count r"
  "wr_restart_times (after_event repr now e (r, ts)) = wr_restart_times r"
  unfolding consume_event_def by (simp_all add: Let_def split: event_splits)

lemma consume_ready:
  "wr_ready (after_event repr now e (r, ts)) \<Longrightarrow> wr_ready r \<or> we_kind e = EVT_READY \<and> fst (consume_event repr now e (r, ts)) = Inr ()"
  unfolding consume_event_def by (auto simp: Let_def split: event_kind.splits option.splits if_splits)

lemma settle_event_account:
  "wr_pending (settle_event c out r) = wr_pending r - set_option c"
  "map_of (wr_outcomes (settle_event c out r)) k = (if Some k = c then Some (out k) else map_of (wr_outcomes r) k)"
  by (auto simp: settle_event_def settle_command_def map_of_update split: option.splits)

text \<open>An event settles at most the command it names, with what it reports.\<close>

definition reports :: "ustr \<Rightarrow> worker_event \<Rightarrow> ustr \<Rightarrow> outcome \<Rightarrow> bool" where
  "reports wid e c v = (we_worker_id e = wid \<and> we_command_id e = Some c \<and> (case v of
     ResultOf j \<Rightarrow> we_kind e \<in> {EVT_RESULT, EVT_UNLOADED} \<and> j = (case member (we_payload e) ''result'' of None \<Rightarrow> JNull | Some j \<Rightarrow> j)
   | ErrorOf err \<Rightarrow> we_kind e = EVT_ERROR \<and> (\<exists>t m tb. err = Remote t m tb)
   | CancelledOf err \<Rightarrow> we_kind e = EVT_CANCELLED \<and> err = Cancelled c))"

lemma consume_account:
  "wr_pending (after_event repr now e (r, ts)) = wr_pending r \<and> wr_outcomes (after_event repr now e (r, ts)) = wr_outcomes r
   \<or> (\<exists>c v. reports (ws_worker_id (wr_spec r)) e c v \<and> wr_pending (after_event repr now e (r, ts)) = wr_pending r - {c}
        \<and> map_of (wr_outcomes (after_event repr now e (r, ts))) = (map_of (wr_outcomes r))(c \<mapsto> v))"
proof (cases "fst (consume_event repr now e (r, ts)) = Inr () \<and> we_kind e \<in> {EVT_RESULT, EVT_UNLOADED, EVT_ERROR, EVT_CANCELLED} \<and> we_command_id e \<noteq> None")
  case True
  then obtain c where c: "we_command_id e = Some c" "we_worker_id e = ws_worker_id (wr_spec r)"
    by (auto simp: consume_event_def split: if_splits)
  show ?thesis
    using True c unfolding consume_event_def
    by (auto simp: Let_def reports_def settle_event_account fun_eq_iff split: event_kind.splits)
next
  case False
  then show ?thesis
    unfolding consume_event_def by (auto simp: Let_def settle_event_def split: event_kind.splits option.splits if_splits)
qed

lemma fold_update_outcomes:
  "map_of (fold (\<lambda>c. AList.update c v) cs d) k = (if k \<in> set cs then Some v else map_of d k)"
  by (induction cs arbitrary: d) (auto simp: map_of_update)

lemma fail_pending_account:
  assumes "finite (wr_pending r)"
  shows "wr_pending (fail_pending err r) = {}"
    "map_of (wr_outcomes (fail_pending err r)) k = (if k \<in> wr_pending r then Some (ErrorOf err) else map_of (wr_outcomes r) k)"
  using assms by (simp_all add: fail_pending_def fold_update_outcomes)

lemma fail_pending_frame [simp]:
  "wr_spec (fail_pending err r) = wr_spec r" "wr_transport (fail_pending err r) = wr_transport r"
  "wr_ready (fail_pending err r) = wr_ready r" "wr_circuit_open (fail_pending err r) = wr_circuit_open r"
  "wr_stop_requested (fail_pending err r) = wr_stop_requested r" "wr_generation (fail_pending err r) = wr_generation r"
  "wr_restart_count (fail_pending err r) = wr_restart_count r" "wr_restart_times (fail_pending err r) = wr_restart_times r"
  "wr_status (fail_pending err r) = wr_status r"
  by (simp_all add: fail_pending_def)

lemma open_circuit_frame [simp]:
  "wr_spec (open_circuit r) = wr_spec r" "wr_transport (open_circuit r) = None" "wr_ready (open_circuit r) = wr_ready r"
  "wr_circuit_open (open_circuit r)" "wr_stop_requested (open_circuit r) = wr_stop_requested r"
  "wr_generation (open_circuit r) = wr_generation r" "wr_restart_count (open_circuit r) = wr_restart_count r"
  "wr_restart_times (open_circuit r) = wr_restart_times r" "wr_pending (open_circuit r) = wr_pending r"
  "wr_outcomes (open_circuit r) = wr_outcomes r"
  by (simp_all add: open_circuit_def)

lemma admit_frame:
  assumes "admit_request pack c r = (res, r')"
  shows "wr_spec r' = wr_spec r" "wr_transport r' = wr_transport r" "wr_ready r' = wr_ready r" "wr_circuit_open r' = wr_circuit_open r"
    "wr_stop_requested r' = wr_stop_requested r" "wr_generation r' = wr_generation r" "wr_restart_count r' = wr_restart_count r"
    "wr_restart_times r' = wr_restart_times r" "wr_outcomes r' = wr_outcomes r"
  using assms by (auto simp: admit_request_def Let_def split: if_splits option.splits sum.splits)

lemma admit_pending:
  assumes "admit_request pack c r = (res, r')"
  shows "wr_pending r' = wr_pending r \<or> wr_pending r = {} \<and> wr_pending r' \<subseteq> {wc_command_id c}"
    and "res = Inr tid \<Longrightarrow> wr_pending r = {} \<and> wr_pending r' = {wc_command_id c} \<and> wr_transport r = Some tid \<and> wr_ready r \<and> \<not> wr_circuit_open r"
  using assms by (auto simp: admit_request_def Let_def split: if_splits option.splits sum.splits)

lemma collect_frame:
  assumes "collect_outcome cid r = Some (v, r')"
  shows "r' = r\<lparr>wr_outcomes := AList.delete cid (wr_outcomes r)\<rparr>" "\<exists>o'. map_of (wr_outcomes r) cid = Some o' \<and> v = answer o'"
  using assms by (auto simp: collect_outcome_def split: option.splits)

text \<open>What the steps about a send do, one by one.\<close>

lemma stop_step_frame [simp]:
  "wst_record (stop_step pack k s) = begin_stop (wst_record s)" "wst_requests (stop_step pack k s) = wst_requests s"
  "wst_used (stop_step pack k s) = insert k (wst_used s)" "wst_now (stop_step pack k s) = wst_now s"
  "wst_monitor (stop_step pack k s) = wst_monitor s" "wst_restarts (stop_step pack k s) = wst_restarts s"
  "wst_reports (stop_step pack k s) = wst_reports s" "wst_answers (stop_step pack k s) = wst_answers s"
  by (simp_all add: stop_step_def Let_def split: option.split sum.split)

lemmas send_defs = answered_def sent_step_def unsent_step_def timeout_step_def grace_step_def cancel_step_def send_failed_def
  cancel_failed_def begin_stop_def

section \<open>The account of the requests\<close>

text \<open>
  At most one command is pending. A request that has sent its command finds it pending or answered; one that
  has not is not pending.
\<close>

definition known :: "'p wrecord \<Rightarrow> ustr \<Rightarrow> bool" where
  "known r c = (c \<in> wr_pending r \<or> map_of (wr_outcomes r) c \<noteq> None)"

definition requests_inv :: "'p wstate \<Rightarrow> bool" where
  "requests_inv s = ((\<exists>c. wr_pending (wst_record s) \<subseteq> {c}) \<and> wr_pending (wst_record s) \<subseteq> wst_used s
     \<and> (\<forall>cid pc. wst_requests s cid = Some pc \<longrightarrow> cid \<in> wst_used s \<and> (case pc of
          AwaitReady c _ _ \<Rightarrow> wc_command_id c = cid \<and> cid \<notin> wr_pending (wst_record s)
        | Sending _ _ \<Rightarrow> known (wst_record s) cid | AwaitOutcome _ _ _ \<Rightarrow> known (wst_record s) cid
        | _ \<Rightarrow> True)))"

lemma requests_invD:
  assumes "requests_inv s" "wst_requests s cid = Some pc"
  shows "cid \<in> wst_used s" "pc = AwaitReady c d t \<Longrightarrow> wc_command_id c = cid \<and> cid \<notin> wr_pending (wst_record s)"
    "pc = AwaitOutcome n d t \<or> pc = Sending n d \<Longrightarrow> known (wst_record s) cid"
proof -
  have "cid \<in> wst_used s \<and> (case pc of AwaitReady c _ _ \<Rightarrow> wc_command_id c = cid \<and> cid \<notin> wr_pending (wst_record s)
        | Sending _ _ \<Rightarrow> known (wst_record s) cid | AwaitOutcome _ _ _ \<Rightarrow> known (wst_record s) cid | _ \<Rightarrow> True)"
    using assms unfolding requests_inv_def by blast
  then show "cid \<in> wst_used s" "pc = AwaitReady c d t \<Longrightarrow> wc_command_id c = cid \<and> cid \<notin> wr_pending (wst_record s)"
    "pc = AwaitOutcome n d t \<or> pc = Sending n d \<Longrightarrow> known (wst_record s) cid"
    by auto
qed

lemma requests_invI:
  assumes "wr_pending (wst_record s) \<subseteq> {c}" "wr_pending (wst_record s) \<subseteq> wst_used s"
    and "\<And>cid pc. wst_requests s cid = Some pc \<Longrightarrow> cid \<in> wst_used s"
    and "\<And>cid c d t. wst_requests s cid = Some (AwaitReady c d t) \<Longrightarrow> wc_command_id c = cid \<and> cid \<notin> wr_pending (wst_record s)"
    and "\<And>cid n d t. wst_requests s cid = Some (AwaitOutcome n d t) \<or> wst_requests s cid = Some (Sending n d) \<Longrightarrow> known (wst_record s) cid"
  shows "requests_inv s"
  unfolding requests_inv_def using assms by (auto split: request_pc.splits)

lemma requests_inv_pending:
  assumes "requests_inv s"
  shows "\<exists>c. wr_pending (wst_record s) \<subseteq> {c}" "wr_pending (wst_record s) \<subseteq> wst_used s" "finite (wr_pending (wst_record s))"
  using assms by (auto simp: requests_inv_def intro: finite_subset)

text \<open>A block that only settles commands.\<close>

definition accounts :: "'p wrecord \<Rightarrow> 'p wrecord \<Rightarrow> bool" where
  "accounts r r' = (wr_pending r' \<subseteq> wr_pending r \<and> (\<forall>c. known r c \<longrightarrow> known r' c))"

lemma accounts_refl [simp]: "accounts r r"
  by (simp add: accounts_def)

lemma accounts_same: "wr_pending r' = wr_pending r \<Longrightarrow> wr_outcomes r' = wr_outcomes r \<Longrightarrow> accounts r r'"
  by (simp add: accounts_def known_def)

lemma requests_settled:
  assumes inv: "requests_inv s" and a: "accounts (wst_record s) (wst_record s')"
    and same: "wst_requests s' = wst_requests s" "wst_used s \<subseteq> wst_used s'"
  shows "requests_inv s'"
proof -
  obtain c where c: "wr_pending (wst_record s) \<subseteq> {c}"
    using requests_inv_pending(1) [OF inv] by blast
  have sub: "wr_pending (wst_record s') \<subseteq> wr_pending (wst_record s)"
    using a by (simp add: accounts_def)
  show ?thesis
  proof (rule requests_invI)
    show "wr_pending (wst_record s') \<subseteq> {c}" "wr_pending (wst_record s') \<subseteq> wst_used s'"
      using sub c requests_inv_pending(2) [OF inv] same(2) by blast+
  next
    fix cid pc assume "wst_requests s' cid = Some pc"
    then show "cid \<in> wst_used s'"
      using requests_invD(1) [OF inv] same by auto
  next
    fix cid c d t assume "wst_requests s' cid = Some (AwaitReady c d t)"
    then show "wc_command_id c = cid \<and> cid \<notin> wr_pending (wst_record s')"
      using requests_invD(2) [OF inv] same(1) sub by auto
  next
    fix cid n d t assume "wst_requests s' cid = Some (AwaitOutcome n d t) \<or> wst_requests s' cid = Some (Sending n d)"
    then show "known (wst_record s') cid"
      using requests_invD(3) [OF inv] same(1) a by (auto simp: accounts_def)
  qed
qed

text \<open>The request \<open>cid\<close> moves on; the record changes for \<open>cid\<close> only.\<close>

lemma requests_moved:
  assumes inv: "requests_inv s" and cid: "wst_requests s cid = Some pc"
    and pending: "wr_pending (wst_record s') \<subseteq> wr_pending (wst_record s) \<or> wr_pending (wst_record s') \<subseteq> {cid}"
    and others: "\<And>c. c \<noteq> cid \<Longrightarrow> known (wst_record s) c \<Longrightarrow> known (wst_record s') c"
    and moved: "wst_requests s' = (wst_requests s)(cid := q)" "wst_used s \<subseteq> wst_used s'"
    and q: "\<And>c d t. q \<noteq> Some (AwaitReady c d t)" "\<And>n d t. q = Some (AwaitOutcome n d t) \<or> q = Some (Sending n d) \<Longrightarrow> known (wst_record s') cid"
  shows "requests_inv s'"
proof -
  have used: "cid \<in> wst_used s"
    using requests_invD(1) [OF inv cid] .
  have p: "wr_pending (wst_record s') \<subseteq> wr_pending (wst_record s) \<union> {cid}"
    using pending by blast
  have "\<exists>c. wr_pending (wst_record s') \<subseteq> {c}" "wr_pending (wst_record s') \<subseteq> wst_used s'"
    using pending requests_inv_pending(1,2) [OF inv] used moved(2) by blast+
  then obtain c where c: "wr_pending (wst_record s') \<subseteq> {c}" "wr_pending (wst_record s') \<subseteq> wst_used s'"
    by blast
  show ?thesis
  proof (rule requests_invI [OF c])
    fix k pc assume "wst_requests s' k = Some pc"
    then show "k \<in> wst_used s'"
      using requests_invD(1) [OF inv] used moved by (auto split: if_splits)
  next
    fix k c d t assume k: "wst_requests s' k = Some (AwaitReady c d t)"
    then have "k \<noteq> cid" "wst_requests s k = Some (AwaitReady c d t)"
      using moved(1) q(1) by (auto split: if_splits)
    then show "wc_command_id c = k \<and> k \<notin> wr_pending (wst_record s')"
      using requests_invD(2) [OF inv] p by blast
  next
    fix k n d t assume k: "wst_requests s' k = Some (AwaitOutcome n d t) \<or> wst_requests s' k = Some (Sending n d)"
    show "known (wst_record s') k"
    proof (cases "k = cid")
      case True
      then show ?thesis
        using k moved(1) q(2) by simp
    next
      case False
      then have "wst_requests s k = Some (AwaitOutcome n d t) \<or> wst_requests s k = Some (Sending n d)"
        using k moved(1) by simp
      then show ?thesis
        using others [OF False] requests_invD(3) [OF inv] by blast
    qed
  qed
qed

lemma accounts_event: "accounts r (after_event repr now e (r, ts))"
  using consume_account [of repr now e r ts] by (auto simp: accounts_def known_def split: if_splits)

lemma accounts_fail: "finite (wr_pending r) \<Longrightarrow> accounts r (fail_pending err r)"
  by (auto simp: accounts_def known_def fail_pending_account)

lemma accounts_trans: "accounts r r' \<Longrightarrow> accounts r' r'' \<Longrightarrow> accounts r r''"
  by (auto simp: accounts_def)

lemma accounts_decide:
  assumes "finite (wr_pending r)"
  shows "accounts r (snd (decide_restart why now r))" "wr_pending (snd (decide_restart why now r)) = {}"
proof -
  have *: "wr_pending (snd (decide_restart why now r)) = wr_pending (fail_pending (Crashed why) r)"
    "wr_outcomes (snd (decide_restart why now r)) = wr_outcomes (fail_pending (Crashed why) r)"
    by (simp_all add: decide_restart_def Let_def)
  then show "wr_pending (snd (decide_restart why now r)) = {}"
    using fail_pending_account(1) [OF assms] by simp
  show "accounts r (snd (decide_restart why now r))"
    using accounts_trans [OF accounts_fail [OF assms] accounts_same [OF *]] .
qed

lemma receive_record: "wst_record (receive_event repr e pc s) = after_event repr (wst_now s) e (wst_record s, wst_transports s)"
  "wst_requests (receive_event repr e pc s) = wst_requests s" "wst_sending (receive_event repr e pc s) = wst_sending s" "wst_used (receive_event repr e pc s) = wst_used s"
  "wst_now (receive_event repr e pc s) = wst_now s" "wst_restarts (receive_event repr e pc s) = wst_restarts s"
  "wst_answers (receive_event repr e pc s) = wst_answers s" "wst_stops (receive_event repr e pc s) = wst_stops s"
  "wst_monitor (receive_event repr e pc s) = pc (fst (consume_event repr (wst_now s) e (wst_record s, wst_transports s)))"
  "wst_reports (receive_event repr e pc s) = wst_reports s @ [e]"
  by (simp_all add: receive_event_def split: prod.split)

lemmas round_defs = on_record_def spawn_raised_def starting_event_def head_round_def fail_round_def decide_round_def kill_process_def
  clean_shared_def move_stop_def

lemma rounds_account:
  assumes "finite (wr_pending (wst_record s))"
  shows "accounts (wst_record s) (wst_record (spawn_raised b why s))"
    "accounts (wst_record s) (wst_record (starting_event repr b tid d e s))"
    "accounts (wst_record s) (wst_record (head_round s))"
    "accounts (wst_record s) (wst_record (fail_round tid why s))"
    "accounts (wst_record s) (wst_record (decide_round why s))"
    "accounts (wst_record s) (wst_record (receive_event repr e pcf s))"
  using accounts_event [of "wst_record s" repr "wst_now s" e "wst_transports s"]
    accounts_decide(1) [OF assms, of why "wst_now s"]
  by (auto simp: round_defs receive_record restart_failed_def open_circuit_def fail_record_def Let_def accounts_same
      split: option.splits prod.splits bool.splits)

lemma requests_step: "sup_step pack repr s s' \<Longrightarrow> requests_inv s \<Longrightarrow> requests_inv s'"
proof (induction rule: sup_step.induct)
  case (request cid s c op p timeout d)
  note inv = request(5)
  obtain c' where c': "wr_pending (wst_record s) \<subseteq> {c'}"
    using requests_inv_pending(1) [OF inv] by blast
  have new: "cid \<notin> wr_pending (wst_record s)"
    using request(1) requests_inv_pending(2) [OF inv] by blast
  show ?case
  proof (rule requests_invI [where c = c'], goal_cases)
    case (3 k pc)
    then show ?case
      using requests_invD(1) [OF inv] by (auto split: if_splits)
  next
    case (4 k c d t)
    then show ?case
      using requests_invD(2) [OF inv] new request(2) by (cases "k = cid") auto
  next
    case (5 k n d t)
    then show ?case
      using requests_invD(3) [OF inv] by (cases "k = cid") auto
  qed (use c' requests_inv_pending(2) [OF inv] in auto)
next
  case (ready_late s cid c deadline d)
  show ?case
    by (rule requests_moved [OF ready_late(5,2), where q = None]) (auto simp: answered_def)
next
  case (admit s cid c deadline d)
  obtain res r where a: "admit_request pack c (wst_record s) = (res, r)"
    by (rule prod.exhaust)
  note pend = admit_pending [OF a]
  have id: "wc_command_id c = cid"
    using requests_invD(2) [OF admit(4,2)] by blast
  have others: "known (wst_record s) k \<Longrightarrow> known r k" for k
    using pend(1) admit_frame(9) [OF a] by (auto simp: known_def)
  show ?case
  proof (cases res)
    case (Inl e)
    then have s': "admit_step pack cid c d s = answered cid (Inl e) r s"
      using a by (simp add: admit_step_def)
    show ?thesis
      unfolding s' by (rule requests_moved [OF admit(4,2), where q = None]) (use pend(1) others id in \<open>auto simp: answered_def\<close>)
  next
    case (Inr tid)
    then have s': "admit_step pack cid c d s = s\<lparr>wst_record := r, wst_sending := Some (tid, ByRequest cid),
        wst_requests := (wst_requests s)(cid \<mapsto> Sending tid d)\<rparr>"
      using a by (simp add: admit_step_def)
    show ?thesis
      unfolding s' by (rule requests_moved [OF admit(4,2)]) (use pend(2) [OF Inr] others id in \<open>auto simp: known_def\<close>)
  qed
next
  case (sent s cid tid d)
  show ?case
    by (rule requests_moved [OF sent(2,1)]) (use requests_invD(3) [OF sent(2,1)] in \<open>auto simp: send_defs\<close>)
next
  case (unsent s cid tid d)
  show ?case
    by (rule requests_moved [OF unsent(2,1), where q = None]) (auto simp: send_defs known_def)
next
  case (collect s cid tid deadline d v r)
  show ?case
    by (rule requests_moved [OF collect(4,2), where q = None])
      (auto simp: answered_def known_def collect_frame(1) [OF collect(3)] map_of_delete)
next
  case (give_up s cid tid deadline d k)
  show ?case
    by (rule requests_moved [OF give_up(6,2), where q = "wst_requests (timeout_step pack k cid tid d s) cid"])
      (auto simp: send_defs split: sum.splits)
next
  case (gave_up s cid tid d)
  show ?case
    by (rule requests_moved [OF gave_up(2,1)]) (auto simp: send_defs)
next
  case (abandon s cid deadline d)
  show ?case
    by (rule requests_moved [OF abandon(4,2), where q = None])
      (auto simp: answered_def known_def abandon_request_def map_of_delete)
next
  case (cancel s k target)
  show ?case
    by (rule requests_settled [OF cancel(4)]) (auto simp: send_defs)
next
  case (stop_begin s k)
  show ?case
    by (rule requests_settled [OF stop_begin(4)])
      (auto simp: send_defs accounts_def known_def)
next
  case (stop_close s i)
  show ?case
    by (rule requests_settled [OF stop_close(4)])
      (use accounts_fail [OF requests_inv_pending(3) [OF stop_close(4)], of "Unavailable ''stopped''"] in \<open>auto simp: finish_stop_def accounts_def known_def\<close>)
next
  case (spawn_failed b s why)
  from rounds_account(1) [OF requests_inv_pending(3) [OF spawn_failed(3)], of b why] show ?case
    by (intro requests_settled [OF spawn_failed(3)]) (auto simp: round_defs split: if_splits)
qed (((rule requests_settled, assumption);
      (simp add: rounds_account requests_inv_pending(3) on_record_def kill_process_def clean_shared_def move_stop_def accounts_same install_def
         begin_stop_def cancel_failed_def; fail | auto simp: round_defs receive_record Let_def split: option.splits prod.splits bool.splits))+)

lemma requests_start: "requests_inv (start_supervision sp now st)"
  by (simp add: requests_inv_def start_supervision_def new_record_def)

section \<open>The writes\<close>

text \<open>Only the request that holds the record's condition is in a write.\<close>

fun sends :: "request_pc \<Rightarrow> bool" where
  "sends (Sending _ _) = True"
| "sends (SendingCancel _ _) = True"
| "sends _ = False"

definition sending_inv :: "'p wstate \<Rightarrow> bool" where
  "sending_inv s = (\<forall>cid pc. wst_requests s cid = Some pc \<longrightarrow> sends pc \<longrightarrow> (\<exists>tid. wst_sending s = Some (tid, ByRequest cid)))"

lemma sending_invD:
  "sending_inv s \<Longrightarrow> wst_requests s cid = Some pc \<Longrightarrow> sends pc \<Longrightarrow> \<exists>tid. wst_sending s = Some (tid, ByRequest cid)"
  by (simp add: sending_inv_def)

lemma sending_same:
  assumes "sending_inv s" "wst_requests s' = wst_requests s" "wst_sending s' = wst_sending s \<or> free s \<or> (\<exists>tid who. wst_sending s = Some (tid, who) \<and> (\<forall>c. who \<noteq> ByRequest c))"
  shows "sending_inv s'"
  unfolding sending_inv_def using sending_invD [OF assms(1)] assms(2,3) by fastforce

lemma sending_moved:
  assumes "sending_inv s" "wst_requests s' = (wst_requests s)(cid := q)" "wst_sending s' = wst_sending s \<or> free s \<or> (\<exists>tid. wst_sending s = Some (tid, ByRequest cid))"
    "\<And>pc. q = Some pc \<Longrightarrow> sends pc \<Longrightarrow> \<exists>tid. wst_sending s' = Some (tid, ByRequest cid)"
  shows "sending_inv s'"
  unfolding sending_inv_def
proof (intro allI impI)
  fix k pc assume k: "wst_requests s' k = Some pc" "sends pc"
  show "\<exists>tid. wst_sending s' = Some (tid, ByRequest k)"
  proof (cases "k = cid")
    case True
    then show ?thesis
      using k assms(2,4) by simp
  next
    case False
    then show ?thesis
      using k sending_invD [OF assms(1), of k pc] assms(2,3) by auto
  qed
qed

lemma sending_step: "sup_step pack repr s s' \<Longrightarrow> sending_inv s \<Longrightarrow> sending_inv s'"
proof (induction rule: sup_step.induct)
  case (request cid s c op p timeout d)
  show ?case
    by (rule sending_moved [OF request(5)]) auto
next
  case (ready_late s cid c deadline d)
  show ?case
    by (rule sending_moved [OF ready_late(5), where q = None]) (auto simp: send_defs)
next
  case (admit s cid c deadline d)
  show ?case
    by (rule sending_moved [OF admit(4), where q = "wst_requests (admit_step pack cid c d s) cid"])
      (use admit(1) in \<open>auto simp: admit_step_def send_defs split: sum.splits prod.splits\<close>)
next
  case (sent s cid tid d)
  show ?case
    by (rule sending_moved [OF sent(2)]) (use sending_invD [OF sent(2,1)] in \<open>auto simp: send_defs\<close>)
next
  case (unsent s cid tid d)
  show ?case
    by (rule sending_moved [OF unsent(2), where q = None]) (use sending_invD [OF unsent(2,1)] in \<open>auto simp: send_defs\<close>)
next
  case (collect s cid tid deadline d v r)
  show ?case
    by (rule sending_moved [OF collect(4), where q = None]) (auto simp: send_defs)
next
  case (give_up s cid tid deadline d k)
  show ?case
    by (rule sending_moved [OF give_up(6), where q = "wst_requests (timeout_step pack k cid tid d s) cid"])
      (use give_up(1) in \<open>auto simp: send_defs split: sum.splits\<close>)
next
  case (gave_up s cid tid d)
  show ?case
    by (rule sending_moved [OF gave_up(2)]) (use sending_invD [OF gave_up(2,1)] in \<open>auto simp: send_defs\<close>)
next
  case (abandon s cid deadline d)
  show ?case
    by (rule sending_moved [OF abandon(4), where q = None]) (auto simp: send_defs)
qed (((rule sending_same, assumption); (auto simp: round_defs receive_record send_defs Let_def
      split: option.splits prod.splits bool.splits sum.splits if_splits))+)

lemma sending_start: "sending_inv (start_supervision sp now st)"
  by (simp add: sending_inv_def start_supervision_def)

text \<open>
  While a write lasts and nobody is about to terminate the process, no step of the supervisor changes the
  record or answers a request, and none terminates the process: only the end of the write helps.
\<close>

fun watching :: "monitor_pc \<Rightarrow> bool" where
  "watching Head = True"
| "watching (Poll _) = True"
| "watching (Check _) = True"
| "watching (Beat _) = True"
| "watching (Fail _ _) = True"
| "watching Ended = True"
| "watching _ = False"

theorem send_holds_the_record:
  "sup_step pack repr s s' \<Longrightarrow> sending_inv s \<Longrightarrow> wst_sending s = Some x \<Longrightarrow> wst_stops s = [] \<Longrightarrow> watching (wst_monitor s) \<Longrightarrow>
    free s' \<or> wst_sending s' = Some x \<and> wst_record s' = wst_record s \<and> wst_answers s' = wst_answers s \<and> wst_stops s' = [] \<and> watching (wst_monitor s')"
proof (induction rule: sup_step.induct)
  case (poll_event s e tid)
  then show ?case
    by (simp add: receive_event_def consume_event_def split: prod.splits)
qed (auto simp: on_record_def kill_process_def send_defs)

section \<open>The circuit breaker\<close>

text \<open>
  While the monitor starts or recovers the worker, it is not ready; once the circuit is open there is no
  process, the worker is not ready, and the monitor has nothing left to do.
\<close>

fun calm :: "monitor_pc \<Rightarrow> bool" where
  "calm (Spawn _) = True"
| "calm (Starting _ _ _) = True"
| "calm (SpawnFailed _ _ _) = True"
| "calm (SpawnKilled _ _) = True"
| "calm (Kill _ _) = True"
| "calm (Clean _) = True"
| "calm (Decide _) = True"
| "calm Rejected = True"
| "calm _ = False"

definition circuit_inv :: "'p wstate \<Rightarrow> bool" where
  "circuit_inv s = ((calm (wst_monitor s) \<longrightarrow> \<not> wr_ready (wst_record s))
     \<and> (wr_circuit_open (wst_record s) \<longrightarrow> wr_transport (wst_record s) = None \<and> \<not> wr_ready (wst_record s) \<and> wst_monitor s \<in> {Head, Ended}))"

text \<open>Steps of the other threads.\<close>

lemma circuit_others:
  assumes "circuit_inv s" "wst_monitor s' = wst_monitor s" "wr_ready (wst_record s') \<Longrightarrow> wr_ready (wst_record s)"
    "wr_circuit_open (wst_record s') = wr_circuit_open (wst_record s)"
    "wr_transport (wst_record s') = wr_transport (wst_record s) \<or> wr_transport (wst_record s') = None"
  shows "circuit_inv s'"
  using assms by (auto simp: circuit_inv_def)

lemma decide_frame [simp]:
  "wr_spec (snd (decide_restart why now r)) = wr_spec r" "wr_transport (snd (decide_restart why now r)) = None"
  "wr_ready (snd (decide_restart why now r)) = wr_ready r" "wr_generation (snd (decide_restart why now r)) = wr_generation r"
  "wr_stop_requested (snd (decide_restart why now r)) = wr_stop_requested r"
  by (simp_all add: decide_restart_def Let_def)

lemma circuit_step: "sup_step pack repr s s' \<Longrightarrow> circuit_inv s \<Longrightarrow> circuit_inv s'"
proof (induction rule: sup_step.induct)
  case (start_event s e b tid d)
  then show ?case
    using consume_ready [of repr "wst_now s" e "wst_record s" "wst_transports s"]
    by (auto simp: circuit_inv_def starting_event_def receive_record on_record_def split: sum.splits)
next
  case (at_head s)
  then show ?case
    by (auto simp: circuit_inv_def head_round_def on_record_def Let_def split: option.splits)
next
  case (poll_event s e tid)
  then show ?case
    by (auto simp: circuit_inv_def receive_record split: sum.splits)
next
  case (recover_fail s tid why)
  then show ?case
    by (auto simp: circuit_inv_def fail_round_def fail_record_def on_record_def split: if_splits option.splits)
next
  case (recover_decide s why)
  then show ?case
    by (auto simp: circuit_inv_def decide_round_def decide_restart_def Let_def on_record_def split: if_splits)
next
  case (admit s cid c deadline d)
  obtain res r where a: "admit_request pack c (wst_record s) = (res, r)"
    by (rule prod.exhaust)
  show ?case
    by (rule circuit_others [OF admit(4)])
      (use a admit_frame [OF a] in \<open>auto simp: admit_step_def answered_def split: sum.splits\<close>)
next
  case (collect s cid tid deadline d v r)
  show ?case
    by (rule circuit_others [OF collect(4)]) (auto simp: answered_def collect_frame(1) [OF collect(3)])
next
  case (give_up s cid tid deadline d k)
  show ?case
    by (rule circuit_others [OF give_up(6)]) (auto simp: send_defs split: sum.splits)
next
  case (stop_begin s k)
  show ?case
    by (rule circuit_others [OF stop_begin(4)]) (auto simp: send_defs)
qed (auto simp: circuit_inv_def round_defs install_def restart_failed_def send_defs abandon_request_def finish_stop_def)

lemma circuit_start: "circuit_inv (start_supervision sp now st)"
  by (simp add: circuit_inv_def start_supervision_def new_record_def)

section \<open>The budget of restarts\<close>

text \<open>
  The record keeps the end of the list of all restarts; the others are further back than the window. So
  any restart comes more than a window after the one as many places before it as the limit says.
\<close>

definition spaced :: "nat \<Rightarrow> rat \<Rightarrow> rat list \<Rightarrow> bool" where
  "spaced n w ts = (\<forall>i. i + n < length ts \<longrightarrow> w < ts ! (i + n) - ts ! i)"

definition restart_inv :: "'p worker_spec \<Rightarrow> rat \<Rightarrow> 'p wstate \<Rightarrow> bool" where
  "restart_inv sp w s = (the_spec s = sp \<and> wr_restart_count (wst_record s) = int (length (wst_restarts s))
     \<and> wr_generation (wst_record s) \<le> wr_restart_count (wst_record s) + (case wst_monitor s of Spawn _ \<Rightarrow> 0 | _ \<Rightarrow> 1)
     \<and> (\<exists>old. wst_restarts s = old @ wr_restart_times (wst_record s) \<and> (\<forall>t\<in>set old. w < wst_now s - t))
     \<and> int (length (wr_restart_times (wst_record s))) \<le> ws_restart_limit sp
     \<and> spaced (nat (ws_restart_limit sp)) w (wst_restarts s))"

lemma spaced_append:
  assumes "spaced n w (old @ recent)" "\<forall>t\<in>set old. w < now - t" "length recent < n"
  shows "spaced n w ((old @ recent) @ [now])"
  unfolding spaced_def
proof (intro allI impI)
  fix i assume i: "i + n < length ((old @ recent) @ [now])"
  show "w < ((old @ recent) @ [now]) ! (i + n) - ((old @ recent) @ [now]) ! i"
  proof (cases "i + n < length (old @ recent)")
    case True
    then have "w < (old @ recent) ! (i + n) - (old @ recent) ! i"
      using assms(1) by (simp add: spaced_def)
    moreover have "i < length (old @ recent)"
      using True by simp
    ultimately show ?thesis
      using True by (simp only: nth_append_left)
  next
    case False
    then have n: "i + n = length (old @ recent)" "i < length old"
      using i assms(3) by auto
    then have "((old @ recent) @ [now]) ! (i + n) = now" "((old @ recent) @ [now]) ! i = old ! i"
      by (simp_all add: nth_append)
    then show ?thesis
      using assms(2) n(2) by simp
  qed
qed

lemma restart_same:
  assumes "restart_inv sp w s" "the_spec s' = the_spec s" "wr_restart_count (wst_record s') = wr_restart_count (wst_record s)"
    "wr_generation (wst_record s') = wr_generation (wst_record s)" "wr_restart_times (wst_record s') = wr_restart_times (wst_record s)"
    "wst_restarts s' = wst_restarts s" "wst_now s \<le> wst_now s'" "wst_monitor s' = wst_monitor s \<or> (\<forall>b. wst_monitor s' \<noteq> Spawn b)"
  shows "restart_inv sp w s'"
proof -
  obtain old where old: "wst_restarts s = old @ wr_restart_times (wst_record s)" "\<forall>t\<in>set old. w < wst_now s - t"
    using assms(1) by (auto simp: restart_inv_def)
  have "\<forall>t\<in>set old. w < wst_now s' - t"
    using old(2) assms(7) by force
  moreover have "wr_generation (wst_record s') \<le> wr_restart_count (wst_record s') + (case wst_monitor s' of Spawn _ \<Rightarrow> 0 | _ \<Rightarrow> 1)"
    using assms by (auto simp: restart_inv_def split: monitor_pc.splits)
  ultimately show ?thesis
    using assms old(1) by (simp add: restart_inv_def)
qed

lemma dropped_outside:
  assumes "ws_restart_window (wr_spec r) = Finite w" "t \<in> set (takeWhile (outside_window now r) ts)"
  shows "w < now - t"
  using set_takeWhileD [OF assms(2)] assms(1) by (simp add: outside_window_def)

lemma restart_decided:
  assumes inv: "restart_inv sp w s" and w: "ws_restart_window sp = Finite w" and pc: "wst_monitor s = Decide why"
  shows "restart_inv sp w (decide_round why s)"
proof -
  let ?r = "fail_pending (Crashed why) (wst_record s)" and ?now = "wst_now s" and ?ts = "wr_restart_times (wst_record s)"
  define recent where "recent = dropWhile (outside_window ?now ?r) ?ts"
  obtain old where old: "wst_restarts s = old @ ?ts" "\<forall>t\<in>set old. w < ?now - t"
    using inv by (auto simp: restart_inv_def)
  let ?old = "old @ takeWhile (outside_window ?now ?r) ?ts"
  have sp: "the_spec s = sp"
    using inv by (simp add: restart_inv_def)
  have split: "wst_restarts s = ?old @ recent"
    using old(1) by (simp add: recent_def)
  have out: "\<forall>t\<in>set ?old. w < ?now - t"
    using old(2) dropped_outside [of ?r w _ ?now ?ts] sp w by auto
  have len: "length recent \<le> length ?ts"
    by (simp add: recent_def length_dropWhile_le)
  show ?thesis
  proof (cases "ws_restart_limit sp \<le> int (length recent)")
    case True
    then have "decide_round why s = on_record (\<lambda>_. open_circuit (?r\<lparr>wr_restart_times := recent\<rparr>)) Head s"
      using sp by (simp add: decide_round_def decide_restart_def Let_def recent_def)
    then show ?thesis
      using inv pc split out len sp by (auto simp: restart_inv_def on_record_def)
  next
    case False
    then have d: "decide_round why s = (on_record (\<lambda>_. ?r\<lparr>wr_restart_times := recent @ [?now],
        wr_restart_count := wr_restart_count ?r + 1, wr_status := ''restarting'', wr_transport := None\<rparr>) (Spawn False) s)
        \<lparr>wst_restarts := wst_restarts s @ [?now]\<rparr>"
      using sp by (simp add: decide_round_def decide_restart_def Let_def recent_def)
    have "spaced (nat (ws_restart_limit sp)) w ((?old @ recent) @ [?now])"
      by (rule spaced_append [OF _ out]) (use inv split False in \<open>auto simp: restart_inv_def\<close>)
    then show ?thesis
      using inv pc split out False unfolding d by (auto simp: restart_inv_def on_record_def intro!: exI [of _ ?old])
  qed
qed

lemma restart_step:
  assumes w: "ws_restart_window sp = Finite w"
  shows "sup_step pack repr s s' \<Longrightarrow> restart_inv sp w s \<Longrightarrow> restart_inv sp w s'"
proof (induction rule: sup_step.induct)
  case (spawn_process s b tid pid m)
  then show ?case
    by (auto simp: restart_inv_def on_record_def install_def)
next
  case (recover_decide s why)
  then show ?case
    by (intro restart_decided [OF _ w])
next
  case (admit s cid c deadline d)
  obtain res r where a: "admit_request pack c (wst_record s) = (res, r)"
    by (rule prod.exhaust)
  show ?case
    by (rule restart_same [OF admit(4)])
      (use a admit_frame [OF a] in \<open>auto simp: admit_step_def answered_def split: sum.splits\<close>)
next
  case (collect s cid tid deadline d v r)
  show ?case
    by (rule restart_same [OF collect(4)]) (auto simp: answered_def collect_frame(1) [OF collect(3)])
qed (((rule restart_same, assumption); (auto simp: round_defs receive_record restart_failed_def install_def finish_stop_def
      fail_record_def abandon_request_def send_defs Let_def split: option.splits prod.splits bool.splits sum.splits if_splits))+)

lemma restart_start: "0 \<le> ws_restart_limit sp \<Longrightarrow> restart_inv sp w (start_supervision sp now st)"
  by (simp add: restart_inv_def start_supervision_def new_record_def spaced_def)

section \<open>Reports behind the answers\<close>

definition vouched :: "ustr \<Rightarrow> worker_event list \<Rightarrow> ustr \<Rightarrow> outcome \<Rightarrow> bool" where
  "vouched wid es c v = ((\<exists>e\<in>set es. reports wid e c v) \<or> v = ErrorOf (Unavailable ''stopped'') \<or> (\<exists>why. v = ErrorOf (Crashed why)))"

definition local_error :: "supervisor_error \<Rightarrow> bool" where
  "local_error err = (case err of Remote _ _ _ \<Rightarrow> False | Cancelled _ \<Rightarrow> False | _ \<Rightarrow> True)"

definition reports_inv :: "'p worker_spec \<Rightarrow> 'p wstate \<Rightarrow> bool" where
  "reports_inv sp s = (the_spec s = sp \<and> finite (wr_pending (wst_record s))
     \<and> (\<forall>c v. map_of (wr_outcomes (wst_record s)) c = Some v \<longrightarrow> vouched (ws_worker_id sp) (wst_reports s) c v)
     \<and> (\<forall>c a. wst_answers s c = Some a \<longrightarrow> (\<exists>v. a = answer v \<and> vouched (ws_worker_id sp) (wst_reports s) c v) \<or> (\<exists>err. a = Inl err \<and> local_error err)))"

lemma vouched_more: "vouched wid es c v \<Longrightarrow> set es \<subseteq> set es' \<Longrightarrow> vouched wid es' c v"
  by (auto simp: vouched_def)

text \<open>A step that settles outcomes by what was reported, or by an error of the supervisor.\<close>

lemma reports_kept:
  assumes inv: "reports_inv sp s" and "the_spec s' = the_spec s" "wr_pending (wst_record s') \<subseteq> insert k (wr_pending (wst_record s))"
    and more: "set (wst_reports s) \<subseteq> set (wst_reports s')"
    and outcomes: "\<And>c v. map_of (wr_outcomes (wst_record s')) c = Some v \<Longrightarrow>
      map_of (wr_outcomes (wst_record s)) c = Some v \<or> vouched (ws_worker_id sp) (wst_reports s') c v"
    and answers: "\<And>c a. wst_answers s' c = Some a \<Longrightarrow> wst_answers s c = Some a
      \<or> (\<exists>v. a = answer v \<and> vouched (ws_worker_id sp) (wst_reports s) c v) \<or> (\<exists>err. a = Inl err \<and> local_error err)"
  shows "reports_inv sp s'"
proof -
  have "finite (wr_pending (wst_record s'))"
    using inv assms(3) by (auto simp: reports_inv_def intro: finite_subset)
  moreover have "vouched (ws_worker_id sp) (wst_reports s') c v" if "map_of (wr_outcomes (wst_record s')) c = Some v" for c v
    using outcomes [OF that] inv vouched_more [OF _ more] by (auto simp: reports_inv_def)
  moreover have "(\<exists>v. a = answer v \<and> vouched (ws_worker_id sp) (wst_reports s') c v) \<or> (\<exists>err. a = Inl err \<and> local_error err)"
    if "wst_answers s' c = Some a" for c a
  proof -
    from answers [OF that] inv have "(\<exists>v. a = answer v \<and> vouched (ws_worker_id sp) (wst_reports s) c v) \<or> (\<exists>err. a = Inl err \<and> local_error err)"
      unfolding reports_inv_def by blast
    then show ?thesis
      using vouched_more [OF _ more] by blast
  qed
  ultimately show ?thesis
    using inv assms(2) by (simp add: reports_inv_def)
qed

lemma reports_event: "reports_inv sp s \<Longrightarrow> reports_inv sp (receive_event repr e pc s)"
proof -
  assume inv: "reports_inv sp s"
  have sp: "the_spec s = sp"
    using inv by (simp add: reports_inv_def)
  show ?thesis
  proof (rule reports_kept [OF inv, where k = undefined])
    fix c v assume "map_of (wr_outcomes (wst_record (receive_event repr e pc s))) c = Some v"
    then show "map_of (wr_outcomes (wst_record s)) c = Some v \<or> vouched (ws_worker_id sp) (wst_reports (receive_event repr e pc s)) c v"
      using consume_account [of repr "wst_now s" e "wst_record s" "wst_transports s"] sp
      by (auto simp: receive_record vouched_def split: if_splits)
  qed (use consume_account [of repr "wst_now s" e "wst_record s" "wst_transports s"] in \<open>auto simp: receive_record\<close>)
qed

lemma reports_fail:
  assumes "reports_inv sp s" "err = Unavailable ''stopped'' \<or> (\<exists>why. err = Crashed why)" "map_of (wr_outcomes (fail_pending err (wst_record s))) c = Some v"
  shows "map_of (wr_outcomes (wst_record s)) c = Some v \<or> vouched wid es c v"
  using assms by (auto simp: reports_inv_def fail_pending_account vouched_def split: if_splits)

lemma decide_parts [simp]:
  "wr_pending (snd (decide_restart why now r)) = wr_pending (fail_pending (Crashed why) r)"
  "wr_outcomes (snd (decide_restart why now r)) = wr_outcomes (fail_pending (Crashed why) r)"
  by (simp_all add: decide_restart_def Let_def)

lemma decide_record: "wst_record (decide_round why s) = snd (decide_restart why (wst_now s) (wst_record s))"
  "wst_reports (decide_round why s) = wst_reports s" "wst_answers (decide_round why s) = wst_answers s"
  by (auto simp: decide_round_def on_record_def split: prod.splits bool.splits)

lemma admit_error:
  "admit_request pack c r = (Inl err, r') \<Longrightarrow> local_error err"
  by (auto simp: admit_request_def local_error_def Let_def split: if_splits option.splits sum.splits)

lemma reports_step: "sup_step pack repr s s' \<Longrightarrow> reports_inv sp s \<Longrightarrow> reports_inv sp s'"
proof (induction rule: sup_step.induct)
  case (start_event s e b tid d)
  show ?case
  proof (cases "startup_error e")
    case True
    show ?thesis
      by (rule reports_kept [OF start_event(3), where k = undefined]) (auto simp: starting_event_def on_record_def True)
  next
    case False
    then show ?thesis
      using reports_event [OF start_event(3)] by (simp add: starting_event_def)
  qed
next
  case (poll_event s e tid)
  then show ?case
    by (intro reports_event)
next
  case (recover_decide s why)
  have fin: "finite (wr_pending (wst_record s))"
    using recover_decide(3) by (simp add: reports_inv_def)
  show ?case
    by (rule reports_kept [OF recover_decide(3), where k = undefined])
      (use reports_fail [OF recover_decide(3), of "Crashed why"] fin in \<open>auto simp: decide_record fail_pending_account(1)\<close>)
next
  case (stop_close s i)
  have fin: "finite (wr_pending (wst_record s))"
    using stop_close(4) by (simp add: reports_inv_def)
  show ?case
    by (rule reports_kept [OF stop_close(4), where k = undefined])
      (use reports_fail [OF stop_close(4), of "Unavailable ''stopped''"] fin in \<open>auto simp: finish_stop_def fail_pending_account(1)\<close>)
next
  case (admit s cid c deadline d)
  obtain res r where a: "admit_request pack c (wst_record s) = (res, r)"
    by (rule prod.exhaust)
  show ?case
    by (rule reports_kept [OF admit(4), where k = "wc_command_id c"])
      (use a admit_frame(1,9) [OF a] admit_pending(1) [OF a] in
        \<open>auto simp: admit_step_def answered_def split: sum.splits if_splits dest: admit_error\<close>)
next
  case (collect s cid tid deadline d v r)
  have "\<exists>v'. v = answer v' \<and> vouched (ws_worker_id sp) (wst_reports s) cid v'"
    using collect_frame(2) [OF collect(3)] collect(4) by (auto simp: reports_inv_def)
  then show ?case
    by (intro reports_kept [OF collect(4), where k = undefined])
      (auto simp: answered_def collect_frame(1) [OF collect(3)] map_of_delete split: if_splits)
next
  case (give_up s cid tid deadline d k)
  show ?case
    by (rule reports_kept [OF give_up(6), where k = undefined])
      (auto simp: send_defs local_error_def split: sum.splits if_splits)
next
  case (abandon s cid deadline d)
  show ?case
    by (rule reports_kept [OF abandon(4), where k = undefined])
      (auto simp: answered_def abandon_request_def map_of_delete local_error_def split: if_splits)
next
  case (ready_late s cid c deadline d)
  show ?case
    by (rule reports_kept [OF ready_late(5), where k = undefined])
      (auto simp: answered_def local_error_def split: if_splits)
next
  case (unsent s cid tid d)
  show ?case
    by (rule reports_kept [OF unsent(2), where k = undefined]) (auto simp: send_defs local_error_def split: if_splits)
qed (((rule reports_kept [where k = undefined], assumption); (auto simp: round_defs restart_failed_def open_circuit_def install_def send_defs
      fail_record_def Let_def split: option.splits prod.splits bool.splits sum.splits if_splits))+)

lemma reports_start: "reports_inv sp (start_supervision sp now st)"
  by (simp add: reports_inv_def start_supervision_def new_record_def)

end
