(* ===== verification/SupervisorRuns.thy ===== *)
theory SupervisorRuns
  imports SupervisorSafety
begin

text \<open>
  The properties of the runs of a supervised worker - its restarts, the answers to its requests in endless
  fair runs, the reports behind them - what it does not promise, and sample runs: a request with its answer,
  a stop that comes in the middle of a restart, and a write that a frozen worker does not take.
\<close>

declare map_of_eq_Some_iff [simp del]

section \<open>Properties\<close>

definition supervised :: "'p worker_spec \<Rightarrow> 'p wstate \<Rightarrow> bool" where
  "supervised sp s = (spec_post_init sp = Inr sp \<and> (\<exists>now st. s = start_supervision sp now st))"

lemma valid_spec:
  assumes "spec_post_init sp = Inr sp"
  shows "\<exists>w. ws_restart_window sp = Finite w" "0 \<le> ws_restart_limit sp"
  using assms by (auto simp: spec_post_init_def rbind_Inr_iff ensure_def positive_def elim: isfinite.elims)

definition supervision_inv :: "'p worker_spec \<Rightarrow> 'p wstate \<Rightarrow> bool" where
  "supervision_inv sp s = (requests_inv s \<and> sending_inv s \<and> circuit_inv s \<and> reports_inv sp s \<and> (\<forall>w. ws_restart_window sp = Finite w \<longrightarrow> restart_inv sp w s))"

interpretation supervision: invariant_system "supervised sp" "sup_step pack repr" "supervision_inv sp" for sp pack repr
proof unfold_locales
  fix s :: "'a wstate" assume "supervised sp s"
  then show "supervision_inv sp s"
    using valid_spec(2) by (auto simp: supervised_def supervision_inv_def intro: requests_start sending_start circuit_start reports_start restart_start)
next
  fix s t :: "'a wstate" assume "sup_step pack repr s t" "supervision_inv sp s"
  then show "supervision_inv sp t"
    by (auto simp: supervision_inv_def intro: requests_step sending_step circuit_step reports_step restart_step)
qed

lemma supervision_runs:
  "supervised sp s0 \<Longrightarrow> (sup_step pack repr)\<^sup>*\<^sup>* s0 s \<Longrightarrow> supervision_inv sp s"
  using supervision.invar_steps supervision.invar_start by blast

text \<open>C22. The budget of restarts. In every run of the supervisor, whatever its worker and its callers do: of the restarts made, any one
  comes more than the window after the one \<open>restart_limit\<close> places before it, so no window holds more than the limit; the
  counters count them; and once the circuit is open there is no process, the worker is not ready, and the monitor restarts nothing.\<close>

theorem restart_budget:
  assumes "supervised sp s0" and "(sup_step pack repr)\<^sup>*\<^sup>* s0 s" and w: "ws_restart_window sp = Finite w"
  shows "(\<forall>i. i + nat (ws_restart_limit sp) < length (wst_restarts s) \<longrightarrow>
      w < wst_restarts s ! (i + nat (ws_restart_limit sp)) - wst_restarts s ! i)
    \<and> wr_restart_count (wst_record s) = int (length (wst_restarts s))
    \<and> wr_generation (wst_record s) \<le> wr_restart_count (wst_record s) + 1
    \<and> (wr_circuit_open (wst_record s) \<longrightarrow> wr_transport (wst_record s) = None \<and> \<not> wr_ready (wst_record s) \<and> wst_monitor s \<in> {Head, Ended})"
proof -
  have inv: "restart_inv sp w s" "circuit_inv s"
    using supervision_runs [OF assms(1,2)] w by (simp_all add: supervision_inv_def)
  have "wr_generation (wst_record s) \<le> wr_restart_count (wst_record s) + 1"
    using inv(1) by (auto simp: restart_inv_def split: monitor_pc.splits)
  then show ?thesis
    using inv by (auto simp: restart_inv_def circuit_inv_def spaced_def)
qed

section \<open>Infinite runs\<close>

text \<open>Only finitely many identifiers are ever used.\<close>

lemma used_finite: "sup_step pack repr s s' \<Longrightarrow> finite (wst_used s) \<Longrightarrow> finite (wst_used s')"
  by (induction rule: sup_step.induct)
    (auto simp: round_defs receive_record send_defs admit_step_def Let_def split: option.splits prod.splits bool.splits sum.splits)

interpretation used: invariant_system "supervised sp" "sup_step pack repr" "\<lambda>s. finite (wst_used s)" for sp pack repr
  by unfold_locales (auto simp: supervised_def start_supervision_def intro: used_finite)

text \<open>
  What an infinite run may be assumed to do: the clock goes on, every write ends, and the thread of a request
  that could move again and again moves. A write of which the world takes nothing, to a process that is
  alive and does not read, breaks the second.
\<close>

definition endless :: "(json \<Rightarrow> bytes option) \<Rightarrow> (json \<Rightarrow> ustr) \<Rightarrow> (nat \<Rightarrow> 'p wstate) \<Rightarrow> bool" where
  "endless pack repr \<sigma> = (\<forall>i. sup_step pack repr (\<sigma> i) (\<sigma> (Suc i)))"

definition clock_runs :: "(nat \<Rightarrow> 'p wstate) \<Rightarrow> bool" where
  "clock_runs \<sigma> = (\<forall>t. \<exists>i. t \<le> wst_now (\<sigma> i))"

definition writes_end :: "(nat \<Rightarrow> 'p wstate) \<Rightarrow> bool" where
  "writes_end \<sigma> = (\<forall>i. \<exists>j\<ge>i. free (\<sigma> j))"

definition moves :: "ustr \<Rightarrow> 'p wstate \<Rightarrow> 'p wstate \<Rightarrow> bool" where
  "moves cid s s' = (wst_requests s cid \<noteq> None \<and> wst_requests s' cid \<noteq> wst_requests s cid)"

definition may_move :: "(json \<Rightarrow> bytes option) \<Rightarrow> (json \<Rightarrow> ustr) \<Rightarrow> ustr \<Rightarrow> 'p wstate \<Rightarrow> bool" where
  "may_move pack repr cid s = (free s \<and> (\<exists>s'. sup_step pack repr s s' \<and> moves cid s s'))"

definition scheduled :: "(json \<Rightarrow> bytes option) \<Rightarrow> (json \<Rightarrow> ustr) \<Rightarrow> ustr \<Rightarrow> (nat \<Rightarrow> 'p wstate) \<Rightarrow> bool" where
  "scheduled pack repr cid \<sigma> = ((\<forall>i. \<exists>j\<ge>i. may_move pack repr cid (\<sigma> j)) \<longrightarrow> (\<forall>i. \<exists>j\<ge>i. moves cid (\<sigma> j) (\<sigma> (Suc j))))"

lemma endless_runs: "endless pack repr \<sigma> \<Longrightarrow> (sup_step pack repr)\<^sup>*\<^sup>* (\<sigma> 0) (\<sigma> i)"
  by (induction i) (auto simp: endless_def intro: rtranclp.rtrancl_into_rtrancl)

text \<open>The steps of a request, and when there is one.\<close>

fun rank :: "request_pc \<Rightarrow> nat" where
  "rank (AwaitReady _ _ _) = 5"
| "rank (Sending _ _) = 4"
| "rank (AwaitOutcome _ _ _) = 3"
| "rank (SendingCancel _ _) = 2"
| "rank (AwaitCancel _ _) = 1"

fun deadline_of :: "request_pc \<Rightarrow> rat" where
  "deadline_of (AwaitReady _ t _) = t"
| "deadline_of (AwaitOutcome _ t _) = t"
| "deadline_of (AwaitCancel t _) = t"
| "deadline_of _ = 0"

lemma request_goes_on:
  assumes "sup_step pack repr s s'" "requests_inv s" "wst_requests s cid = Some pc"
  shows "wst_requests s' cid = Some pc \<or> wst_requests s' cid = None \<and> wst_answers s' cid \<noteq> None
    \<or> (\<exists>pc'. wst_requests s' cid = Some pc' \<and> rank pc' < rank pc)"
  using assms
proof (induction rule: sup_step.induct)
  case (request k s c op p timeout d)
  then show ?case
    using requests_invD(1) [OF request(5,6)] by auto
qed (auto simp: round_defs receive_record send_defs admit_step_def Let_def split: option.splits prod.splits bool.splits sum.splits if_splits)

lemma clock_monotone: "sup_step pack repr s s' \<Longrightarrow> wst_now s \<le> wst_now s'"
  by (induction rule: sup_step.induct)
    (auto simp: round_defs receive_record send_defs admit_step_def Let_def split: option.splits prod.splits bool.splits sum.splits)

lemma request_may_move:
  assumes r: "wst_requests s cid = Some pc" "\<not> sends pc" "deadline_of pc \<le> wst_now s" and free: "free s" and fin: "finite (wst_used s)"
  shows "may_move pack repr cid s"
proof -
  have "\<exists>s'. sup_step pack repr s s' \<and> wst_requests s' cid \<noteq> Some pc"
  proof (cases pc)
    case (AwaitReady c dl d)
    show ?thesis
    proof (cases "still_starting (wst_record s)")
      case True
      then show ?thesis
        using ready_late [of s cid c dl d pack repr] free r AwaitReady by (auto simp: answered_def)
    next
      case False
      then have "sup_step pack repr s (admit_step pack cid c d s)"
        using admit [of s cid c dl d pack repr] free r AwaitReady by simp
      moreover have "wst_requests (admit_step pack cid c d s) cid \<noteq> Some pc"
        using AwaitReady by (auto simp: admit_step_def answered_def split: prod.splits sum.splits)
      ultimately show ?thesis
        by blast
    qed
  next
    case (AwaitOutcome tid dl d)
    show ?thesis
    proof (cases "collect_outcome cid (wst_record s)")
      case (Some vr)
      then show ?thesis
        using collect [of s cid tid dl d "fst vr" "snd vr" pack repr] free r AwaitOutcome by (auto simp: answered_def)
    next
      case None
      have "infinite (UNIV :: ustr set)"
        by (simp add: infinite_UNIV_listI)
      then obtain k where k: "k \<notin> wst_used s"
        using ex_new_if_finite fin by blast
      have "sup_step pack repr s (timeout_step pack k cid tid d s)"
        using give_up [of s cid tid dl d k pack repr] free r AwaitOutcome None k by simp
      moreover have "wst_requests (timeout_step pack k cid tid d s) cid \<noteq> Some pc"
        using AwaitOutcome by (auto simp: send_defs split: sum.splits)
      ultimately show ?thesis
        by blast
    qed
  next
    case (AwaitCancel dl d)
    then show ?thesis
      using abandon [of s cid dl d pack repr] free r by (auto simp: answered_def)
  qed (use r(2) in auto)
  then show ?thesis
    using free r(1) by (auto simp: may_move_def moves_def)
qed

text \<open>So no request stays where it is.\<close>

lemma request_leaves:
  assumes run: "supervised sp (\<sigma> 0)" "endless pack repr \<sigma>"
    and fair: "clock_runs \<sigma>" "writes_end \<sigma>" "scheduled pack repr cid \<sigma>"
    and r: "wst_requests (\<sigma> i) cid = Some pc"
  shows "\<exists>j\<ge>i. wst_requests (\<sigma> j) cid = Some pc \<and> wst_requests (\<sigma> (Suc j)) cid \<noteq> Some pc"
proof (rule ccontr)
  assume never: "\<not> ?thesis"
  have stays: "wst_requests (\<sigma> j) cid = Some pc" if "i \<le> j" for j
    using that by (induction rule: dec_induct) (use r never in auto)
  have inv: "sending_inv (\<sigma> j)" "finite (wst_used (\<sigma> j))" for j
    using supervision_runs [OF run(1) endless_runs [OF run(2)], of j]
      used.invar_steps [OF endless_runs [OF run(2), of j]] used.invar_start [OF run(1)]
    by (auto simp: supervision_inv_def)
  have waits: "\<not> sends pc"
    using fair(2) sending_invD [OF inv(1) stays] unfolding writes_end_def by fastforce
  obtain m where m: "deadline_of pc \<le> wst_now (\<sigma> m)"
    using fair(1) by (auto simp: clock_runs_def)
  have late: "deadline_of pc \<le> wst_now (\<sigma> j)" if "m \<le> j" for j
    using that by (induction rule: dec_induct) (use m run(2) in \<open>auto simp: endless_def intro: order_trans clock_monotone\<close>)
  have "\<exists>j\<ge>k. may_move pack repr cid (\<sigma> j)" for k
  proof -
    obtain j where j: "max k (max i m) \<le> j" "free (\<sigma> j)"
      using fair(2) unfolding writes_end_def by blast
    have "may_move pack repr cid (\<sigma> j)"
      by (rule request_may_move [OF stays waits late j(2) inv(2)]) (use j(1) in auto)
    then show ?thesis
      using j(1) by auto
  qed
  then obtain j where "i \<le> j" "moves cid (\<sigma> j) (\<sigma> (Suc j))"
    using fair(3) unfolding scheduled_def by blast
  then show False
    using stays [of j] stays [of "Suc j"] by (simp add: moves_def)
qed

lemma request_is_answered:
  assumes run: "supervised sp (\<sigma> 0)" "endless pack repr \<sigma>"
    and fair: "clock_runs \<sigma>" "writes_end \<sigma>" "scheduled pack repr cid \<sigma>"
  shows "wst_requests (\<sigma> i) cid = Some pc \<Longrightarrow> \<exists>j>i. wst_requests (\<sigma> j) cid = None \<and> wst_answers (\<sigma> j) cid \<noteq> None"
proof (induction "rank pc" arbitrary: i pc rule: less_induct)
  case less
  obtain j where j: "i \<le> j" "wst_requests (\<sigma> j) cid = Some pc" "wst_requests (\<sigma> (Suc j)) cid \<noteq> Some pc"
    using request_leaves [OF run fair less.prems] by blast
  have "sup_step pack repr (\<sigma> j) (\<sigma> (Suc j))" "requests_inv (\<sigma> j)"
    using run(2) supervision_runs [OF run(1) endless_runs [OF run(2)], of j] by (simp_all add: endless_def supervision_inv_def)
  from request_goes_on [OF this j(2)] j(3)
  consider "wst_requests (\<sigma> (Suc j)) cid = None \<and> wst_answers (\<sigma> (Suc j)) cid \<noteq> None"
    | pc' where "wst_requests (\<sigma> (Suc j)) cid = Some pc'" "rank pc' < rank pc"
    by blast
  then show ?case
  proof cases
    case 1
    then show ?thesis
      using j(1) by (intro exI [of _ "Suc j"]) auto
  next
    case 2
    then obtain k where "k > Suc j" "wst_requests (\<sigma> k) cid = None \<and> wst_answers (\<sigma> k) cid \<noteq> None"
      using less.hyps by blast
    then show ?thesis
      using j(1) by (intro exI [of _ k]) auto
  qed
qed

text \<open>C21. No request is lost. In every run at most one command is pending, and every request that has begun to write its command, or has
  written it, finds it pending or answered; were the monitor to decide after a failure, or a stop to close the record, it would
  have its answer. In every endless run in which the clock goes on, every write to a pipe ends at some time, and the thread of
  the request is not passed over for ever, the request comes to an answer, whatever the worker and the other threads do.\<close>

theorem no_request_is_lost:
  assumes run: "supervised sp (\<sigma> 0)" "\<forall>i. sup_step pack repr (\<sigma> i) (\<sigma> (Suc i))" and r: "wst_requests (\<sigma> i) cid = Some pc"
  shows "(\<exists>c. wr_pending (wst_record (\<sigma> i)) \<subseteq> {c})
    \<and> ((\<exists>tid dl d. pc \<in> {Sending tid d, AwaitOutcome tid dl d}) \<longrightarrow>
        (cid \<in> wr_pending (wst_record (\<sigma> i)) \<or> map_of (wr_outcomes (wst_record (\<sigma> i))) cid \<noteq> None)
        \<and> (\<forall>why. map_of (wr_outcomes (snd (decide_restart why (wst_now (\<sigma> i)) (wst_record (\<sigma> i))))) cid \<noteq> None)
        \<and> map_of (wr_outcomes (finish_stop (wst_record (\<sigma> i)))) cid \<noteq> None)
    \<and> (clock_runs \<sigma> \<and> writes_end \<sigma> \<and> scheduled pack repr cid \<sigma> \<longrightarrow>
        (\<exists>j>i. wst_requests (\<sigma> j) cid = None \<and> wst_answers (\<sigma> j) cid \<noteq> None))"
proof -
  have endless: "endless pack repr \<sigma>"
    using run(2) by (simp add: endless_def)
  have inv: "requests_inv (\<sigma> i)"
    using supervision_runs [OF run(1) endless_runs [OF endless]] by (simp add: supervision_inv_def)
  have "known (wst_record (\<sigma> i)) cid" if "pc \<in> {Sending tid d, AwaitOutcome tid dl d}" for tid dl d
    using requests_invD(3) [OF inv r] that by blast
  then show ?thesis
    using requests_inv_pending(1,3) [OF inv] request_is_answered [OF run(1) endless _ _ _ r]
    by (auto simp: known_def fail_pending_account finish_stop_def)
qed

text \<open>C23. Answers are reported. A result that a request returns was reported by the worker, in a RESULT or UNLOADED event for that very
  command; a remote error was reported in an ERROR event for it, and a cancellation in a CANCELLED event for it.\<close>

theorem answers_are_reported:
  assumes "supervised sp s0" and "(sup_step pack repr)\<^sup>*\<^sup>* s0 s" and a: "wst_answers s cid = Some a"
  shows "case a of
      Inr j \<Rightarrow> \<exists>e\<in>set (wst_reports s). we_worker_id e = ws_worker_id sp \<and> we_command_id e = Some cid \<and> we_kind e \<in> {EVT_RESULT, EVT_UNLOADED}
        \<and> j = (case member (we_payload e) ''result'' of None \<Rightarrow> JNull | Some j \<Rightarrow> j)
    | Inl (Remote t m tb) \<Rightarrow> \<exists>e\<in>set (wst_reports s). we_worker_id e = ws_worker_id sp \<and> we_command_id e = Some cid \<and> we_kind e = EVT_ERROR
    | Inl (Cancelled c) \<Rightarrow> c = cid \<and> (\<exists>e\<in>set (wst_reports s). we_worker_id e = ws_worker_id sp \<and> we_command_id e = Some cid \<and> we_kind e = EVT_CANCELLED)
    | _ \<Rightarrow> True"
proof -
  have "reports_inv sp s"
    using supervision_runs [OF assms(1,2)] by (simp add: supervision_inv_def)
  then consider v where "a = answer v" "vouched (ws_worker_id sp) (wst_reports s) cid v" | err where "a = Inl err" "local_error err"
    using a unfolding reports_inv_def by blast
  then show ?thesis
  proof cases
    case 1
    then show ?thesis
      by (cases v) (auto simp: vouched_def reports_def split: sum.splits supervisor_error.splits)
  next
    case 2
    then show ?thesis
      by (auto simp: local_error_def split: supervisor_error.splits)
  qed
qed

section \<open>What the supervisor does not promise\<close>

text \<open>
  A command whose frame cannot be made stays pending, though its caller got a \<open>ValueError\<close>: until the
  worker fails, is stopped or happens to report on that command, every request is refused as busy.
\<close>

definition stuck :: "ustr \<Rightarrow> 'p wstate \<Rightarrow> bool" where
  "stuck cid s = (cid \<in> wr_pending (wst_record s) \<and> wst_requests s cid = None \<and> cid \<in> wst_used s)"

theorem unframed_command_stays:
  assumes "admit_request pack c r = (Inl (Frame e), r')"
  shows "wr_pending r' = {wc_command_id c} \<and> (\<forall>c'. wr_ready r' \<longrightarrow> admit_request pack c' r' = (Inl Busy, r'))"
  using assms by (auto simp: admit_request_def Let_def split: if_splits option.splits sum.splits)

theorem stuck_until_settled:
  assumes "sup_step pack repr s s'" "requests_inv s" "stuck cid s"
  shows "stuck cid s' \<or> (\<exists>why. wst_monitor s = Decide why) \<or> StopClose \<in> set (wst_stops s)
    \<or> (\<exists>e. wst_reports s' = wst_reports s @ [e] \<and> we_command_id e = Some cid)"
  using assms
proof (induction rule: sup_step.induct)
  case (start_event s e b tid d)
  then show ?case
    using consume_account [of repr "wst_now s" e "wst_record s" "wst_transports s"]
    by (auto simp: stuck_def starting_event_def on_record_def receive_record reports_def)
next
  case (poll_event s e tid)
  then show ?case
    using consume_account [of repr "wst_now s" e "wst_record s" "wst_transports s"]
    by (auto simp: stuck_def receive_record reports_def)
next
  case (admit s k c deadline d)
  obtain res r where a: "admit_request pack c (wst_record s) = (res, r)"
    by (rule prod.exhaust)
  have "cid \<in> wr_pending r"
    using admit_pending(1) [OF a] admit(5) by (auto simp: stuck_def)
  then show ?case
    using a admit by (auto simp: stuck_def admit_step_def answered_def split: sum.splits)
next
  case (collect s k tid deadline d v r)
  then show ?case
    by (auto simp: stuck_def answered_def collect_frame(1) [OF collect(3)])
next
  case (abandon s k deadline d)
  then show ?case
    by (auto simp: stuck_def answered_def abandon_request_def)
next
  case (unsent s k tid d)
  then have "k \<noteq> cid"
    by (auto simp: stuck_def)
  with unsent show ?case
    by (auto simp: stuck_def send_defs)
next
  case (request k s c op p timeout d)
  then show ?case
    by (auto simp: stuck_def)
next
  case (stop_close s i)
  then show ?case
    using nth_mem [of i "wst_stops s"] by simp
qed (auto simp: stuck_def round_defs restart_failed_def open_circuit_def install_def fail_record_def send_defs Let_def
      split: option.splits sum.splits if_splits)

text \<open>
  After a timeout the worker is still ready until the monitor takes up the restart that was asked for: a
  request admitted in between is sent to it, and then fails for the timeout of the other.
\<close>

theorem timeout_fails_the_next_request:
  assumes r: "wr_ready r" "\<not> wr_circuit_open r" "wr_transport r = Some tid" "wr_pending r \<subseteq> {cid}"
    and sent: "encode_frame pack command_class c = Inr b"
  shows "\<exists>r'. admit_request pack c (abandon_request cid t r) = (Inr tid, r') \<and> wr_forced r' = Some (ExecutionTimeout t)
    \<and> map_of (wr_outcomes (snd (decide_restart (ExecutionTimeout t) now r'))) (wc_command_id c) = Some (ErrorOf (Crashed (ExecutionTimeout t)))"
proof -
  let ?r = "(abandon_request cid t r)\<lparr>wr_pending := {wc_command_id c}, wr_status := ''busy''\<rparr>"
  have "admit_request pack c (abandon_request cid t r) = (Inr tid, ?r)"
  proof -
    have none: "insert (wc_command_id c) (wr_pending r - {cid}) = {wc_command_id c}"
      using r(4) by blast
    show ?thesis
      using r sent by (simp add: admit_request_def abandon_request_def Let_def none)
  qed
  then show ?thesis
    by (auto simp: fail_pending_account abandon_request_def)
qed

section \<open>Sample runs\<close>

definition sample_spec :: "unit worker_spec" where
  "sample_spec = \<lparr>ws_worker_id = [119], ws_kind = CPU_COMPUTE, ws_entrypoint = None, ws_start_method = ustr ''auto'',
     ws_heartbeat_interval = Finite 1, ws_heartbeat_timeout = Finite 5, ws_startup_timeout = Finite 10, ws_shutdown_timeout = Finite 2,
     ws_cancellation_grace = Finite (1 / 4), ws_restart_limit = 3, ws_restart_window = Finite 60, ws_sandbox = None,
     ws_sandbox_allow_subprocess = None, ws_thread_environment = []\<rparr>"

lemma sample_spec_valid: "spec_post_init sample_spec = Inr sample_spec"
  by (simp add: spec_post_init_def sample_spec_def validate_identifier_def ensure_def guard_or_def rbind_def u_strip_def u_isspace_def
      utf8_encodable_def positive_def ustr_def)

text \<open>A record of that worker, and a scene with it.\<close>

definition worker_at :: "nat option \<Rightarrow> watchdog option \<Rightarrow> string \<Rightarrow> bool \<Rightarrow> bool \<Rightarrow> int \<Rightarrow> rat list \<Rightarrow> ustr set \<Rightarrow> (ustr, outcome) dict
    \<Rightarrow> reason option \<Rightarrow> unit wrecord" where
  "worker_at tid wd status ready stopping gen rs pending outs err = \<lparr>wr_spec = sample_spec, wr_transport = tid, wr_watchdog = wd,
     wr_status = status, wr_ready = ready, wr_circuit_open = False, wr_stop_requested = stopping, wr_generation = gen,
     wr_restart_count = int (length rs), wr_restart_times = rs, wr_pending = pending, wr_outcomes = outs, wr_forced = None, wr_last_error = err\<rparr>"

definition scene :: "unit wrecord \<Rightarrow> transports \<Rightarrow> rat \<Rightarrow> monitor_pc \<Rightarrow> (ustr \<rightharpoonup> request_pc) \<Rightarrow> stop_pc list \<Rightarrow> ustr set \<Rightarrow> rat list
    \<Rightarrow> worker_event list \<Rightarrow> (ustr \<rightharpoonup> supervisor_error + json) \<Rightarrow> unit wstate" where
  "scene r ts now pc reqs stops used restarts events answers = \<lparr>wst_record = r, wst_transports = ts, wst_now = now, wst_monitor = pc,
     wst_requests = reqs, wst_stops = stops, wst_sending = None, wst_shared = (new_store, Map.empty), wst_used = used, wst_restarts = restarts,
     wst_reports = events, wst_answers = answers\<rparr>"

definition process :: "bool \<Rightarrow> transport" where
  "process b = \<lparr>tr_pid = 7, tr_start_method = [], tr_process_group = None, tr_alive = b\<rparr>"

definition says :: "event_kind \<Rightarrow> ustr option \<Rightarrow> (ustr \<times> json) list \<Rightarrow> worker_event" where
  "says k c p = \<lparr>we_worker_id = [119], we_kind = k, we_timestamp = 0, we_command_id = c, we_payload = p\<rparr>"

abbreviation beating :: "rat \<Rightarrow> watchdog option" where
  "beating t \<equiv> Some \<lparr>wd_timeout = Finite 5, wd_last_seen = t\<rparr>"

lemmas scene_defs = scene_def worker_at_def process_def says_def sample_spec_def start_supervision_def new_record_def seconds_def
  round_defs install_def receive_event_def consume_event_def startup_error_def member_def ustr_def wd_observe_def Let_def

lemma sample_started:
  "(sup_step pack repr)\<^sup>*\<^sup>* (start_supervision sample_spec 0 (new_store, Map.empty))
     (scene (worker_at (Some 0) (beating 0) ''ready'' True False 1 [] {} [] None) [(0, process True)] 0 Head Map.empty [] {} [] [says EVT_READY None []] Map.empty)"
proof -
  have "sup_step pack repr (start_supervision sample_spec 0 (new_store, Map.empty))
      (scene (worker_at (Some 0) (beating 0) ''starting'' False False 1 [] {} [] None) [(0, process True)] 0 (Starting True 0 10) Map.empty [] {} [] [] Map.empty)"
    (is "sup_step _ _ ?s0 ?s1")
    using spawn_process [of ?s0 True 0 pack repr 7 "[]"] by (simp add: scene_defs)
  moreover have "sup_step pack repr ?s1
     (scene (worker_at (Some 0) (beating 0) ''ready'' True False 1 [] {} [] None) [(0, process True)] 0 Head Map.empty [] {} [] [says EVT_READY None []] Map.empty)"
    using start_event [of ?s1 "says EVT_READY None []" True 0 10 pack repr] by (simp add: scene_defs)
  ultimately show ?thesis
    by (meson converse_rtranclp_into_rtranclp rtranclp.rtrancl_refl)
qed

lemma run_one: "sup_step pack repr s t \<Longrightarrow> (sup_step pack repr)\<^sup>*\<^sup>* s t"
  by (rule r_into_rtranclp)

lemma run_more: "(sup_step pack repr)\<^sup>*\<^sup>* s t \<Longrightarrow> sup_step pack repr t u \<Longrightarrow> (sup_step pack repr)\<^sup>*\<^sup>* s u"
  by (rule rtranclp.rtrancl_into_rtrancl)

lemmas more_defs = head_round_def fail_record_def decide_restart_def fail_pending_def outside_window_def begin_stop_def finish_stop_def
  stop_step_def alive_def terminate_tree_def cleanup_owner_def new_store_def monitor_gone_def

text \<open>The worker fails, is told to stop while it is being recovered, and is started again.\<close>

lemma sample_restart:
  "(sup_step pack repr)\<^sup>*\<^sup>*
    (scene (worker_at (Some 0) (beating 0) ''ready'' True False 1 [] {} [] (None)) [(0, process True)] 0 (Head) Map.empty [] {} [] [says EVT_READY None []] Map.empty)
    (scene (worker_at (Some 1) (beating 0) ''starting'' False True 2 [0] {} [] (Some IpcFailure)) [(0, process False), (1, process True)] 0 (Starting False 1 10) Map.empty [StopJoin 2] {[]} [0] [says EVT_READY None []] Map.empty)"
    (is "rtranclp _ ?a ?j")
proof -
  let ?b = "scene (worker_at (Some 0) (beating 0) ''ready'' True False 1 [] {} [] (None)) [(0, process True)] 0 (Poll 0) Map.empty [] {} [] [says EVT_READY None []] Map.empty"
  let ?c = "scene (worker_at (Some 0) (beating 0) ''ready'' True False 1 [] {} [] (None)) [(0, process True)] 0 (Fail 0 IpcFailure) Map.empty [] {} [] [says EVT_READY None []] Map.empty"
  let ?d = "scene (worker_at (Some 0) (beating 0) ''failed'' False False 1 [] {} [] (Some IpcFailure)) [(0, process True)] 0 (Kill 0 IpcFailure) Map.empty [] {} [] [says EVT_READY None []] Map.empty"
  let ?e = "scene (worker_at (Some 0) (beating 0) ''failed'' False False 1 [] {} [] (Some IpcFailure)) [(0, process False)] 0 (Clean IpcFailure) Map.empty [] {} [] [says EVT_READY None []] Map.empty"
  let ?f = "scene (worker_at (Some 0) (beating 0) ''failed'' False False 1 [] {} [] (Some IpcFailure)) [(0, process False)] 0 (Decide IpcFailure) Map.empty [] {} [] [says EVT_READY None []] Map.empty"
  let ?g = "scene (worker_at (Some 0) (beating 0) ''stopping'' False True 1 [] {} [] (Some IpcFailure)) [(0, process False)] 0 (Decide IpcFailure) Map.empty [StopKill (Some 0)] {[]} [] [says EVT_READY None []] Map.empty"
  let ?h = "scene (worker_at (None) (beating 0) ''restarting'' False True 1 [0] {} [] (Some IpcFailure)) [(0, process False)] 0 (Spawn False) Map.empty [StopKill (Some 0)] {[]} [0] [says EVT_READY None []] Map.empty"
  let ?i = "scene (worker_at (None) (beating 0) ''restarting'' False True 1 [0] {} [] (Some IpcFailure)) [(0, process False)] 0 (Spawn False) Map.empty [StopJoin 2] {[]} [0] [says EVT_READY None []] Map.empty"
  have "sup_step pack repr ?a ?b"
    using at_head [of ?a pack repr] by (simp add: scene_defs more_defs)
  note run = run_one [OF this]
  have "sup_step pack repr ?b ?c"
    using poll_broken [of ?b 0 pack repr] by (simp add: scene_defs more_defs)
  note run = run_more [OF run this]
  have "sup_step pack repr ?c ?d"
    using recover_fail [of ?c 0 IpcFailure pack repr] by (simp add: scene_defs more_defs)
  note run = run_more [OF run this]
  have "sup_step pack repr ?d ?e"
    using recover_kill [of ?d 0 IpcFailure pack repr] by (simp add: scene_defs more_defs)
  note run = run_more [OF run this]
  have "sup_step pack repr ?e ?f"
    using recover_clean [of ?e IpcFailure pack repr] by (simp add: scene_defs more_defs)
  note run = run_more [OF run this]
  have "sup_step pack repr ?f ?g"
    using stop_begin [of ?f "[]" pack repr] by (simp add: scene_defs more_defs)
  note run = run_more [OF run this]
  have "sup_step pack repr ?g ?h"
    using recover_decide [of ?g IpcFailure pack repr] by (simp add: scene_defs more_defs)
  note run = run_more [OF run this]
  have "sup_step pack repr ?h ?i"
    using stop_kill [of 0 ?h "Some 0" pack repr] by (simp add: scene_defs more_defs)
  note run = run_more [OF run this]
  have "sup_step pack repr ?i ?j"
    using spawn_process [of ?i False 1 pack repr 7 "[]"] by (simp add: scene_defs more_defs)
  note run = run_more [OF run this]
  show ?thesis
    by (rule run)
qed

text \<open>The stop gives up waiting for the monitor and returns; then the new process reports that it is ready.\<close>

lemma sample_orphan:
  "(sup_step pack repr)\<^sup>*\<^sup>*
    (scene (worker_at (Some 1) (beating 0) ''starting'' False True 2 [0] {} [] (Some IpcFailure)) [(0, process False), (1, process True)] 0 (Starting False 1 10) Map.empty [StopJoin 2] {[]} [0] [says EVT_READY None []] Map.empty)
    (scene (worker_at (None) (beating 2) ''ready'' True True 2 [0] {} [] (Some IpcFailure)) [(0, process False), (1, process True)] 2 (Ended) Map.empty [] {[]} [0] [says EVT_READY None [], says EVT_READY None []] Map.empty)"
    (is "rtranclp _ ?a ?g")
proof -
  let ?b = "scene (worker_at (Some 1) (beating 0) ''starting'' False True 2 [0] {} [] (Some IpcFailure)) [(0, process False), (1, process True)] 2 (Starting False 1 10) Map.empty [StopJoin 2] {[]} [0] [says EVT_READY None []] Map.empty"
  let ?c = "scene (worker_at (Some 1) (beating 0) ''starting'' False True 2 [0] {} [] (Some IpcFailure)) [(0, process False), (1, process True)] 2 (Starting False 1 10) Map.empty [StopClean] {[]} [0] [says EVT_READY None []] Map.empty"
  let ?d = "scene (worker_at (Some 1) (beating 0) ''starting'' False True 2 [0] {} [] (Some IpcFailure)) [(0, process False), (1, process True)] 2 (Starting False 1 10) Map.empty [StopClose] {[]} [0] [says EVT_READY None []] Map.empty"
  let ?e = "scene (worker_at (None) (beating 0) ''stopped'' False True 2 [0] {} [] (Some IpcFailure)) [(0, process False), (1, process True)] 2 (Starting False 1 10) Map.empty [] {[]} [0] [says EVT_READY None []] Map.empty"
  let ?f = "scene (worker_at (None) (beating 2) ''ready'' True True 2 [0] {} [] (Some IpcFailure)) [(0, process False), (1, process True)] 2 (Head) Map.empty [] {[]} [0] [says EVT_READY None [], says EVT_READY None []] Map.empty"
  have "sup_step pack repr ?a ?b"
    using time_passes [of ?a 2 pack repr] by (simp add: scene_defs more_defs)
  note run = run_one [OF this]
  have "sup_step pack repr ?b ?c"
    using stop_join [of 0 ?b 2 pack repr] by (simp add: scene_defs more_defs)
  note run = run_more [OF run this]
  have "sup_step pack repr ?c ?d"
    using stop_clean [of 0 ?c pack repr] by (simp add: scene_defs more_defs)
  note run = run_more [OF run this]
  have "sup_step pack repr ?d ?e"
    using stop_close [of ?d 0 pack repr] by (simp add: scene_defs more_defs)
  note run = run_more [OF run this]
  have "sup_step pack repr ?e ?f"
    using start_event [of ?e "says EVT_READY None []" False 1 10 pack repr] by (simp add: scene_defs more_defs)
  note run = run_more [OF run this]
  have "sup_step pack repr ?f ?g"
    using at_head [of ?f pack repr] by (simp add: scene_defs more_defs)
  note run = run_more [OF run this]
  show ?thesis
    by (rule run)
qed

text \<open>
  A stop that comes while a worker is being restarted can return with the restart still going on: the
  new process is left alive, nothing refers to it, the monitor is gone, and the record says ready, so that the
  worker cannot be started again either.
\<close>

theorem stop_may_leave_a_worker:
  "\<exists>s. (sup_step pack repr)\<^sup>*\<^sup>* (start_supervision sample_spec 0 (new_store, Map.empty)) s \<and> wst_stops s = [] \<and> wst_monitor s = Ended
    \<and> wr_stop_requested (wst_record s) \<and> wr_status (wst_record s) = ''ready'' \<and> wr_transport (wst_record s) = None \<and> alive 1 s
    \<and> fst (register_worker False sample_spec [(ws_worker_id sample_spec, wst_record s)]) = Inl Exists"
  by (rule exI, rule conjI, rule rtranclp_trans [OF sample_started rtranclp_trans [OF sample_restart sample_orphan]])
    (simp add: scene_defs alive_def register_worker_def)

definition sample_command :: worker_command where
  "sample_command = \<lparr>wc_command_id = [99], wc_kind = CMD_EXECUTE, wc_operation = Some [111], wc_payload = [], wc_target = None\<rparr>"

text \<open>Everything is packed to one byte.\<close>

definition one_byte :: "json \<Rightarrow> bytes option" where
  "one_byte j = Some [1]"

lemma sample_execute: "execute_command [99] [111] [] = Inr sample_command"
  by (simp add: execute_command_def make_command_def command_post_init_def sample_command_def validate_identifier_def ensure_def guard_or_def
      rbind_def u_strip_def u_isspace_def utf8_encodable_def)

lemmas request_defs = sample_execute operation_timeout_def still_starting_def admit_step_def admit_request_def encode_frame_def
  one_byte_def MAX_FRAME_BYTES_def guard_or_def sample_command_def settle_event_def settle_command_def answered_def collect_outcome_def
  sent_step_def

text \<open>A request of the worker that is ready, in the write of its command.\<close>

definition writing_scene :: "unit wstate" where
  "writing_scene = (scene (worker_at (Some 0) (beating 0) ''busy'' True False 1 [] {[99]} [] (None)) [(0, process True)] 0 (Head)
     [[99] \<mapsto> Sending 0 30] [] {[99]} [] [says EVT_READY None []] Map.empty)\<lparr>wst_sending := Some (0, ByRequest [99])\<rparr>"

lemma sample_write:
  "(sup_step one_byte repr)\<^sup>*\<^sup>*
    (scene (worker_at (Some 0) (beating 0) ''ready'' True False 1 [] {} [] (None)) [(0, process True)] 0 (Head) Map.empty [] {} [] [says EVT_READY None []] Map.empty)
    writing_scene"
    (is "rtranclp _ ?a ?c")
proof -
  let ?b = "scene (worker_at (Some 0) (beating 0) ''ready'' True False 1 [] {} [] (None)) [(0, process True)] 0 (Head) [[99] \<mapsto> AwaitReady sample_command 10 30] [] {[99]} [] [says EVT_READY None []] Map.empty"
  have "sup_step one_byte repr ?a ?b"
    using request [of "[99]" ?a sample_command "[111]" "[]" None 30 one_byte repr] by (simp add: scene_defs more_defs request_defs)
  note run = run_one [OF this]
  have "sup_step one_byte repr ?b ?c"
    using admit [of ?b "[99]" sample_command 10 30 one_byte repr] by (simp add: scene_defs more_defs request_defs writing_scene_def)
  note run = run_more [OF run this]
  show ?thesis
    by (rule run)
qed

lemma sample_sent:
  "sup_step one_byte repr writing_scene
    (scene (worker_at (Some 0) (beating 0) ''busy'' True False 1 [] {[99]} [] (None)) [(0, process True)] 0 (Head) [[99] \<mapsto> AwaitOutcome 0 30 30] [] {[99]} [] [says EVT_READY None []] Map.empty)"
  using sent [of writing_scene "[99]" 0 30 one_byte repr] by (simp add: scene_defs more_defs request_defs writing_scene_def)

lemma sample_request:
  "(sup_step one_byte repr)\<^sup>*\<^sup>*
    (scene (worker_at (Some 0) (beating 0) ''ready'' True False 1 [] {} [] (None)) [(0, process True)] 0 (Head) Map.empty [] {} [] [says EVT_READY None []] Map.empty)
    (scene (worker_at (Some 0) (beating 0) ''busy'' True False 1 [] {[99]} [] (None)) [(0, process True)] 0 (Head) [[99] \<mapsto> AwaitOutcome 0 30 30] [] {[99]} [] [says EVT_READY None []] Map.empty)"
  by (rule run_more [OF sample_write sample_sent])

text \<open>
  A worker that is alive but does not read can leave a request in its write for ever: the clock goes on, and
  (by \<open>send_holds_the_record\<close>) nothing that the supervisor does ends it, not the monitor with its watchdog, not
  another request, not a stop.
\<close>

theorem frozen_worker_blocks:
  "\<exists>s. (sup_step one_byte repr)\<^sup>*\<^sup>* (start_supervision sample_spec 0 (new_store, Map.empty)) s
    \<and> wst_sending s = Some (0, ByRequest [99]) \<and> alive 0 s \<and> wst_stops s = [] \<and> watching (wst_monitor s)
    \<and> (\<forall>t\<ge>wst_now s. sup_step one_byte repr s (s\<lparr>wst_now := t\<rparr>))"
proof (intro exI conjI)
  show "(sup_step one_byte repr)\<^sup>*\<^sup>* (start_supervision sample_spec 0 (new_store, Map.empty)) writing_scene"
    by (rule rtranclp_trans [OF sample_started sample_write])
  show "\<forall>t\<ge>wst_now writing_scene. sup_step one_byte repr writing_scene (writing_scene\<lparr>wst_now := t\<rparr>)"
    by (simp add: time_passes)
qed (simp_all add: writing_scene_def scene_def alive_def process_def)

lemma sample_result:
  "(sup_step one_byte repr)\<^sup>*\<^sup>*
    (scene (worker_at (Some 0) (beating 0) ''busy'' True False 1 [] {[99]} [] (None)) [(0, process True)] 0 (Head) [[99] \<mapsto> AwaitOutcome 0 30 30] [] {[99]} [] [says EVT_READY None []] Map.empty)
    (scene (worker_at (Some 0) (beating 0) ''ready'' True False 1 [] {} [] (None)) [(0, process True)] 0 (Check 0) Map.empty [] {[99]} [] [says EVT_READY None [], says EVT_RESULT (Some [99]) [(ustr ''result'', JInt 5)]] [[99] \<mapsto> Inr (JInt 5)])"
    (is "rtranclp _ ?a ?d")
proof -
  let ?b = "scene (worker_at (Some 0) (beating 0) ''busy'' True False 1 [] {[99]} [] (None)) [(0, process True)] 0 (Poll 0) [[99] \<mapsto> AwaitOutcome 0 30 30] [] {[99]} [] [says EVT_READY None []] Map.empty"
  let ?c = "scene (worker_at (Some 0) (beating 0) ''ready'' True False 1 [] {} [([99], ResultOf (JInt 5))] (None)) [(0, process True)] 0 (Check 0) [[99] \<mapsto> AwaitOutcome 0 30 30] [] {[99]} [] [says EVT_READY None [], says EVT_RESULT (Some [99]) [(ustr ''result'', JInt 5)]] Map.empty"
  have "sup_step one_byte repr ?a ?b"
    using at_head [of ?a one_byte repr] by (simp add: scene_defs more_defs request_defs)
  note run = run_one [OF this]
  have "sup_step one_byte repr ?b ?c"
    using poll_event [of ?b "says EVT_RESULT (Some [99]) [(ustr ''result'', JInt 5)]" 0 one_byte repr] by (simp add: scene_defs more_defs request_defs)
  note run = run_more [OF run this]
  have "sup_step one_byte repr ?c ?d"
    using collect [of ?c "[99]" 0 30 30 "Inr (JInt 5)" "worker_at (Some 0) (beating 0) ''ready'' True False 1 [] {} [] (None)" one_byte repr] by (simp add: scene_defs more_defs request_defs)
  note run = run_more [OF run this]
  show ?thesis
    by (rule run)
qed

section \<open>Witnesses\<close>

definition sample_repr :: "json \<Rightarrow> ustr" where
  "sample_repr j = []"

abbreviation sample_supervision :: "unit wstate" where
  "sample_supervision \<equiv> start_supervision sample_spec 0 (new_store, Map.empty)"

lemma sample_supervised: "supervised sample_spec sample_supervision"
  using sample_spec_valid by (auto simp: supervised_def)

lemma sample_window: "ws_restart_window sample_spec = Finite 60"
  by (simp add: sample_spec_def)

theorem restart_budget_witness:
  "\<exists>s. (sup_step one_byte sample_repr)\<^sup>*\<^sup>* sample_supervision s \<and> wst_restarts s = [0] \<and> wr_restart_count (wst_record s) = int (length (wst_restarts s))"
proof -
  note run = rtranclp_trans [OF sample_started sample_restart, of one_byte sample_repr]
  have "wst_restarts s = [0] \<Longrightarrow> (sup_step one_byte sample_repr)\<^sup>*\<^sup>* sample_supervision s \<Longrightarrow> ?thesis" for s
    using restart_budget [OF sample_supervised _ sample_window] by blast
  from this [OF _ run] show ?thesis
    by (simp add: scene_def)
qed

text \<open>Steps before an endless run make an endless run.\<close>

lemma endless_after:
  assumes "(sup_step pack repr)\<^sup>*\<^sup>* s (\<sigma> 0)" "endless pack repr \<sigma>"
  shows "\<exists>\<tau> n. \<tau> 0 = s \<and> endless pack repr \<tau> \<and> (\<forall>i. \<tau> (n + i) = \<sigma> i)"
  using assms(1)
proof (induction rule: converse_rtranclp_induct)
  case base
  then show ?case
    using assms(2) by (intro exI [of _ \<sigma>] exI [of _ 0]) simp
next
  case (step s t)
  then obtain \<tau> n where t: "\<tau> 0 = t" "endless pack repr \<tau>" "\<And>i. \<tau> (n + i) = \<sigma> i"
    by blast
  have "endless pack repr (case_nat s \<tau>)"
    using step(1) t(1,2) by (auto simp: endless_def split: nat.split)
  then show ?case
    using t(3) by (intro exI [of _ "case_nat s \<tau>"] exI [of _ "Suc n"]) simp
qed

definition ticking :: "'p wstate \<Rightarrow> nat \<Rightarrow> 'p wstate" where
  "ticking s i = s\<lparr>wst_now := wst_now s + of_nat i\<rparr>"

lemma ticking_endless: "endless pack repr (ticking s)"
  unfolding endless_def
proof
  fix i
  show "sup_step pack repr (ticking s i) (ticking s (Suc i))"
    using time_passes [of "ticking s i" "wst_now s + of_nat (Suc i)" pack repr] by (simp add: ticking_def)
qed

text \<open>The request is answered, and then only the clock goes on.\<close>

lemma ticking_fair:
  assumes "\<And>i. \<sigma> (n + i) = ticking s i" "free s" "wst_requests s cid = None"
  shows "clock_runs \<sigma>" "writes_end \<sigma>" "scheduled pack repr cid \<sigma>"
proof -
  have after: "\<sigma> j = ticking s (j - n)" if "n \<le> j" for j
    using assms(1) [of "j - n"] that by simp
  show "clock_runs \<sigma>"
    unfolding clock_runs_def
  proof
    fix t
    obtain i :: nat where "t - wst_now s \<le> of_nat i"
      using real_arch_simple by blast
    then have "t \<le> wst_now (ticking s i)"
      by (simp add: ticking_def algebra_simps)
    then have "t \<le> wst_now (\<sigma> (n + i))"
      unfolding assms(1) .
    then show "\<exists>i. t \<le> wst_now (\<sigma> i)"
      by blast
  qed
  have "free (\<sigma> (n + i))" for i
    unfolding assms(1) using assms(2) by (simp add: ticking_def)
  then show "writes_end \<sigma>"
    unfolding writes_end_def by (metis le_add2)
  have "\<not> may_move pack repr cid (\<sigma> j)" if "n \<le> j" for j
    using assms(3) by (simp add: after [OF that] may_move_def moves_def ticking_def)
  then show "scheduled pack repr cid \<sigma>"
    unfolding scheduled_def by blast
qed

theorem no_request_is_lost_witness:
  "\<exists>\<sigma> i. supervised sample_spec (\<sigma> 0) \<and> (\<forall>i. sup_step one_byte sample_repr (\<sigma> i) (\<sigma> (Suc i)))
    \<and> wst_requests (\<sigma> i) [99] = Some (Sending 0 30) \<and> clock_runs \<sigma> \<and> writes_end \<sigma> \<and> scheduled one_byte sample_repr [99] \<sigma>
    \<and> [99] \<in> wr_pending (wst_record (\<sigma> i)) \<and> (\<exists>j>i. wst_requests (\<sigma> j) [99] = None \<and> wst_answers (\<sigma> j) [99] \<noteq> None)"
proof -
  let ?done_scene = "scene (worker_at (Some 0) (beating 0) ''ready'' True False 1 [] {} [] (None)) [(0, process True)] 0 (Check 0) Map.empty [] {[99]} []
    [says EVT_READY None [], says EVT_RESULT (Some [99]) [(ustr ''result'', JInt 5)]] [[99] \<mapsto> Inr (JInt 5)]"
  have "(sup_step one_byte sample_repr)\<^sup>*\<^sup>* writing_scene (ticking ?done_scene 0)"
    using rtranclp_trans [OF run_one [OF sample_sent] sample_result] by (simp add: ticking_def scene_def)
  then obtain \<sigma> n where \<sigma>: "\<sigma> 0 = writing_scene" "endless one_byte sample_repr \<sigma>" "\<And>i. \<sigma> (n + i) = ticking ?done_scene i"
    using endless_after [OF _ ticking_endless] by blast
  have "(sup_step one_byte sample_repr)\<^sup>*\<^sup>* sample_supervision (\<sigma> 0)"
    unfolding \<sigma>(1) by (rule rtranclp_trans [OF sample_started sample_write])
  then obtain \<tau> m where \<tau>: "\<tau> 0 = sample_supervision" "endless one_byte sample_repr \<tau>" "\<And>i. \<tau> (m + i) = \<sigma> i"
    using endless_after [OF _ \<sigma>(2)] by blast
  have late: "\<tau> ((m + n) + i) = ticking ?done_scene i" for i
    using \<tau>(3) [of "n + i"] \<sigma>(3) by (simp add: add.assoc)
  have fair: "clock_runs \<tau>" "writes_end \<tau>" "scheduled one_byte sample_repr [99] \<tau>"
    by (rule ticking_fair [OF late]; simp add: scene_def)+
  have at: "\<tau> m = writing_scene"
    using \<tau>(3) [of 0] \<sigma>(1) by simp
  have run: "supervised sample_spec (\<tau> 0)" "\<forall>i. sup_step one_byte sample_repr (\<tau> i) (\<tau> (Suc i))"
    using sample_supervised \<tau>(1,2) by (simp_all add: endless_def)
  have r: "wst_requests (\<tau> m) [99] = Some (Sending 0 30)"
    by (simp add: at writing_scene_def scene_def)
  have "[99] \<in> wr_pending (wst_record (\<tau> m))"
    by (simp add: at writing_scene_def scene_def worker_at_def)
  with no_request_is_lost [OF run r] run fair r show ?thesis
    by blast
qed

theorem answers_are_reported_witness:
  "\<exists>s. (sup_step one_byte sample_repr)\<^sup>*\<^sup>* sample_supervision s \<and> wst_answers s [99] = Some (Inr (JInt 5))
    \<and> (\<exists>e\<in>set (wst_reports s). we_command_id e = Some [99])"
proof -
  note run = rtranclp_trans [OF sample_started rtranclp_trans [OF sample_request sample_result], of sample_repr]
  have "wst_answers s [99] = Some (Inr (JInt 5)) \<Longrightarrow> (sup_step one_byte sample_repr)\<^sup>*\<^sup>* sample_supervision s \<Longrightarrow> ?thesis" for s
    using answers_are_reported [OF sample_supervised, of one_byte sample_repr s "[99]" "Inr (JInt 5)"] by auto
  from this [OF _ run] show ?thesis
    by (simp add: scene_def)
qed

end
