(* ===== verification/Spec2Isabelle.thy ===== *)
theory Spec2Isabelle
  imports Lifecycle Threads SchedulerRuns SchedulerOutcomes Compilation SupervisorRuns
begin

text \<open>
  A verification library for the core of ComfyUI-NG (sources under src/src/comfyng): how jobs are
  stored, queued, admitted, run, retried, cancelled and reported, and how a workflow graph is
  typed, expanded and checked against the manifests of the installed plugins.

  \<^bold>\<open>Parts and theories.\<close>
  \<^item> \<open>Prelude\<close>: results that may be errors, Python floats and strings, insertion-ordered
    dictionaries, and the locales \<open>invariant_system\<close> and \<open>progress_system\<close>. \<open>Uuids\<close>: 128-bit
    identifiers and their text.
  \<^item> \<open>JsonValues\<close> (core/json_values.py): freezing a graph of containers into a JSON tree, against
    the relation \<open>denotes\<close>.
  \<^item> \<open>Lifecycle\<close> (core/enums.py): the states of nodes and models.
  \<^item> \<open>Hardware\<close>, \<open>Budgets\<close>, \<open>Pressure\<close>, \<open>Broker\<close>, \<open>Threads\<close> (resources/): the machine, what may be
    used of it, the level meter, admission with its fallbacks, and the division of the cores.
    \<open>admission_policy\<close> is the abstract specification of \<open>admit\<close>, and \<open>shortages\<close>
    that of its diagnostics.
  \<^item> \<open>Jobs\<close> (core/jobs.py): records, transitions, retries, the in-memory repository; the locale
    \<open>job_repository\<close> is what the scheduler needs of it.
  \<^item> \<open>Queues\<close>, \<open>Retry\<close> (scheduler/): bounded priority queues with ageing (locale \<open>job_queue\<close>), the
    retry policy and cancellation tokens.
  \<^item> \<open>ResultCache\<close> (core/cache.py): expiry and least-recently-used eviction, against the
    history of the uses of the cache.
  \<^item> \<open>Events\<close> (events/): envelopes, the in-memory and the SQLite journal behind one locale
    \<open>event_journal\<close>, and bounded subscriptions.
  \<^item> \<open>Scheduler\<close> (scheduler/scheduler.py): all of the above as one state, and every handler on it.
    \<open>SchedulerSafety\<close>: a calculus of weakest preconditions for the handlers and the invariant of
    the whole state. \<open>SchedulerOutcomes\<close>: what the outcome of a dispatch does to its job and the cache,
    and that no other job is touched. \<open>SchedulerRuns\<close>: the events against the stored history (over the
    locale \<open>kept_by_parts\<close>), and the launching loop with what it means that it is blocked.
  \<^item> \<open>Identifiers\<close> (core/ids.py), \<open>GraphTypes\<close> (graph/types.py): the validators of identifiers,
    semantic versions and their order, type references, port types, nodes, edges and graphs.
    \<open>Topology\<close> (graph/topology.py): layers, sorting and the critical path, against walks of the graph.
  \<^item> \<open>Outcomes\<close>: partial correctness of computations that may raise. \<open>Subgraphs\<close>
    (graph/subgraphs.py): inlining of calls with its traces.
  \<^item> \<open>Manifest\<close>, \<open>Catalogue\<close> (plugins/): plugin manifests and the catalogue of node definitions
    discovered from them. \<open>Validation\<close> (graph/validation.py): the checks of a workflow against a
    catalogue, and the typing judgement \<open>well_typed\<close> they decide.
  \<^item> \<open>Plans\<close>, \<open>Fusion\<close>, \<open>Regions\<close>, \<open>Compiler\<close> (graph/cache.py, graph/compiler.py): the contracts
    of an execution plan with their checks, the fusion of chains of nodes, the control regions, and
    \<open>compile\<close>. The rest is its correctness. \<open>Chains\<close>: fusion contracts an acyclic graph to an
    acyclic one. \<open>Steps\<close>, \<open>Collapse\<close>: the steps of the nodes, with their constants and keys, and the
    steps of the fused chains, against walks of the graph. \<open>Control\<close>: closures are reachability and
    the sets of a loop are those between its ends. \<open>Drafts\<close>, \<open>Nesting\<close>: the drafts of loops and
    branches, their parents and depths, and when they are refused. \<open>Assembly\<close>: the execution groups, and
    that every check of a plan's contract passes. \<open>Compiled\<close> puts these together (\<open>plan_for\<close> says what a
    plan is for a graph), \<open>Structure\<close> handles the checks before expansion, and \<open>Compilation\<close> has
    \<open>compiled_plans\<close> and \<open>compiles_exactly\<close>. Both assume \<open>good_context\<close>: a sound
    catalogue as \<open>discover\<close> gives it, whose names and versions can be written and no fusable definition
    of which is a collect, and a positive depth of subgraphs.
  \<^item> \<open>Workers\<close> (workers/protocol.py, heartbeat.py and the choice of a start method of process.py): the
    messages to and from a worker and their frames (locale \<open>wire_class\<close>), and the watchdog.
    \<open>SharedObjects\<close> (workers/shared_memory.py): segments of shared memory under leases, beside a
    world that writes to them and may lose them. \<open>Supervisor\<close> (workers/supervisor.py): the record of a
    worker, every block on it, and the interleaving of its threads. A send is a write that may block, and
    holds the record's condition while it lasts; so a block that sends is in two steps. \<open>SupervisorSafety\<close>:
    the invariants of the steps, and that a blocked write stops everything else. \<open>SupervisorRuns\<close>: every
    request is answered in an endless run that is fair and whose writes end, the budget of restarts, the
    reports behind the answers, and four things the supervisor does not promise.

  \<^bold>\<open>Correspondence.\<close> A class is a record (or its state a record), an enum a datatype, a method a
  function from state to outcome and state; an exception is \<open>Inl\<close>. Checks on the type of an
  argument hold by typing. Every component has an invariant, a step relation over all its
  operations, and an interpretation of \<open>invariant_system\<close> from which the properties follow.

  \<^bold>\<open>Idealisations.\<close> Floats are exact rationals with explicit infinities and NaN where the code
  tests for them. Characters of identifiers and messages are code points below 256 (JSON strings
  are lists of arbitrary code points). JSON text is the value it encodes. Methods that hold a lock
  are one step; for asyncio code the in-memory locks are never contended, so a stretch of code
  between two suspensions is one step. What is proved of the scheduler's runs assumes \<open>good_env\<close>: the scheduler's and the
  journal's clocks are finite and non-negative and the scheduler's never runs backwards. That fresh
  identifiers are fresh and that the dispatcher answers with a result or an exception of the caught
  classes is part of the step relation \<open>sched_step\<close>. The file system, with the parsers of TOML and
  JSON and the meta-schema check, is the record \<open>files\<close>: each may fail, by class of exception, and the
  except clauses catch the classes they name. The recursion limit of the repository's own functions is not
  modelled. The JSON Schema check of a literal, uuid5, the hashes of cache keys and of shared objects, and
  MessagePack are arguments of the definitions that use them; the schema check is total, so a port schema with a
  reference that cannot be resolved, for which the library raises, is outside. The digits of a version are the
  ten of ASCII, which are all there are below 256. The violations of an exception are JSON values, and the
  print of a traceback is left out. JSON text has no NaN
  or infinities. A version number of more digits than Python converts (4300) is an error where
  one is parsed or printed, except in the text that uuid5 hashes for a clone.

  \<^bold>\<open>Bounds and fuel.\<close> No definition uses fuel: loops recurse on a list, or end by a measure (the
  finite heap not yet visited, the entries left to evict). The launching loop \<open>launch_all\<close> may not
  end by itself, so it is a partial function; \<open>launching_ends\<close> shows that it does. So is \<open>expand\<close>,
  which \<open>expansion\<close> shows to return.

  \<^bold>\<open>Not modelled.\<close> Code whose effect is outside the process (hardware probes, SQLite beyond the
  statements of the journal, files, processes, the sandbox of a worker, HTTP, the torch runtime and the Flux plugin), the parts
  made mostly of such effects (content-addressed storage, the models registry, plugin installation, the
  worker's entry point, the servers and the command line, configuration files), and for now the plugin
  manager and the SQLite job repository. Of a supervised worker, process groups and
  signals, and what is in its pipe, are not modelled: a process is alive or not, and a write ends when it ends.
\<close>

end
